(* ===== verification/Prelude.thy ===== *)
theory Prelude
  imports Complex_Main "HOL-Library.AList"
begin

text \<open>
  The shared vocabulary of the development: the exceptions of the Python sources as a sum type
  with its bind, dictionaries with insertion order as association lists, slices, first-match
  search, and the list facts that the component theories use.  The collections
  \<open>py_simps\<close> (results and dictionaries) and \<open>row_simps\<close> (rows of tensors)
  are passed to the simplifier by the component proofs.
\<close>

section \<open>Collections of rewrite rules\<close>

named_theorems py_simps \<open>results, dictionaries and slices\<close>
named_theorems row_simps \<open>elementwise tensor rows\<close>

section \<open>Exceptions as values\<close>

text \<open>
  A Python exception is a value: the constructor is the exception class and the string is the
  message (abridged where the source formats run-time values into it).
\<close>

datatype py_error =
    ValueError string
  | TypeError string
  | OverflowError
  | RuntimeError string
  | KeyError string
  | IndexError
  | NotImplementedError string
  | AssertionError
  | AttributeError string
  | UnboundLocalError string

type_synonym 'a result = "py_error + 'a"

definition result_bind :: "'a result \<Rightarrow> ('a \<Rightarrow> 'b result) \<Rightarrow> 'b result" where
  "result_bind m f = (case m of Inl e \<Rightarrow> Inl e | Inr a \<Rightarrow> f a)"

definition is_ok :: "'a result \<Rightarrow> bool" where
  "is_ok m = (case m of Inl e \<Rightarrow> False | Inr a \<Rightarrow> True)"

text \<open>A list comprehension whose body may raise stops at the first exception.\<close>

fun result_map :: "('a \<Rightarrow> 'b result) \<Rightarrow> 'a list \<Rightarrow> 'b list result" where
  "result_map f [] = Inr []"
| "result_map f (x # xs) =
     (case f x of Inl e \<Rightarrow> Inl e
      | Inr y \<Rightarrow> (case result_map f xs of Inl e \<Rightarrow> Inl e | Inr ys \<Rightarrow> Inr (y # ys)))"

text \<open>\<open>xs[i]\<close> for an index that is not negative.\<close>

definition py_nth :: "'a list \<Rightarrow> nat \<Rightarrow> 'a result" where
  "py_nth xs i = (if i < length xs then Inr (xs ! i) else Inl IndexError)"

text \<open>A loop over a mutable state whose body may raise.\<close>

fun result_fold :: "('a \<Rightarrow> 's \<Rightarrow> 's result) \<Rightarrow> 'a list \<Rightarrow> 's \<Rightarrow> 's result" where
  "result_fold f [] s = Inr s"
| "result_fold f (x # xs) s =
     (case f x s of Inl e \<Rightarrow> Inl e | Inr s' \<Rightarrow> result_fold f xs s')"

section \<open>Slices, search, ordered dictionaries\<close>

text \<open>\<open>xs[a:b]\<close> for indices that are not negative.\<close>

definition slice :: "nat \<Rightarrow> nat \<Rightarrow> 'a list \<Rightarrow> 'a list" where
  "slice a b xs = take (b - a) (drop a xs)"

text \<open>\<open>next((i for i, x in enumerate(xs) if P(x)), None)\<close>\<close>

fun first_index :: "('a \<Rightarrow> bool) \<Rightarrow> 'a list \<Rightarrow> nat option" where
  "first_index P [] = None"
| "first_index P (x # xs) = (if P x then Some 0 else map_option Suc (first_index P xs))"

text \<open>
  A Python dict keeps insertion order: assigning to a present key keeps its place, assigning
  to a new key appends, and \<open>pop(k, None)\<close> removes the key if it is present.
\<close>

type_synonym ('k, 'v) pydict = "('k \<times> 'v) list"

definition dict_set :: "'k \<Rightarrow> 'v \<Rightarrow> ('k, 'v) pydict \<Rightarrow> ('k, 'v) pydict" where
  "dict_set k v d = AList.update k v d"

definition dict_pop :: "'k \<Rightarrow> ('k, 'v) pydict \<Rightarrow> ('k, 'v) pydict" where
  "dict_pop k d = filter (\<lambda>(k', v). k' \<noteq> k) d"

text \<open>\<open>dict.fromkeys\<close> as used to deduplicate: the first occurrence of each key stays.\<close>

fun fromkeys :: "'a list \<Rightarrow> 'a list" where
  "fromkeys [] = []"
| "fromkeys (x # xs) = x # fromkeys (filter (\<lambda>y. y \<noteq> x) xs)"

text \<open>\<open>-(-a // b)\<close> and \<open>(a + b - 1) // b\<close> on values that are not negative.\<close>

definition ceil_div :: "nat \<Rightarrow> nat \<Rightarrow> nat" where
  "ceil_div a b = (a + b - 1) div b"

section \<open>Facts about results\<close>

lemma result_bind_simps [simp, py_simps]:
  "result_bind (Inl e) f = Inl e"
  "result_bind (Inr a) f = f a"
  by (simp_all add: result_bind_def)

lemma result_bind_eq_Inr [py_simps]:
  "result_bind m f = Inr b \<longleftrightarrow> (\<exists>a. m = Inr a \<and> f a = Inr b)"
  by (cases m) simp_all

lemma is_ok_simps [simp, py_simps]: "is_ok (Inl e) = False" "is_ok (Inr a) = True"
  by (simp_all add: is_ok_def)

lemma is_ok_iff: "is_ok m \<longleftrightarrow> (\<exists>a. m = Inr a)"
  by (cases m) simp_all

lemma py_nth_eq_Inr [simp, py_simps]: "py_nth xs i = Inr x \<longleftrightarrow> i < length xs \<and> x = xs ! i"
  by (auto simp: py_nth_def)

lemma is_ok_py_nth [simp, py_simps]: "is_ok (py_nth xs i) \<longleftrightarrow> i < length xs"
  by (simp add: py_nth_def)

lemma is_ok_bind [py_simps]:
  "is_ok (result_bind m f) \<longleftrightarrow> (\<exists>a. m = Inr a \<and> is_ok (f a))"
  by (cases m) simp_all

lemma result_map_Inr_length: "result_map f xs = Inr ys \<Longrightarrow> length ys = length xs"
  by (induction xs arbitrary: ys) (auto split: sum.splits)

lemma result_map_Inr_nth:
  "result_map f xs = Inr ys \<Longrightarrow> i < length xs \<Longrightarrow> f (xs ! i) = Inr (ys ! i)"
proof (induction xs arbitrary: ys i)
  case Nil
  then show ?case by simp
next
  case (Cons x xs)
  then show ?case by (cases i) (auto split: sum.splits)
qed

lemma result_map_ok: "(\<And>x. x \<in> set xs \<Longrightarrow> f x = Inr (g x)) \<Longrightarrow> result_map f xs = Inr (map g xs)"
  by (induction xs) auto

lemma result_map_map: "result_map f (map g xs) = result_map (\<lambda>x. f (g x)) xs"
  by (induction xs) (simp_all split: sum.split)

lemma result_fold_map: "result_fold f (map g xs) s = result_fold (\<lambda>x. f (g x)) xs s"
  by (induction xs arbitrary: s) (simp_all split: sum.split)

text \<open>Functions that read a view of the elements only.\<close>

lemma map_view:
  assumes "map h xs = map h ys" and "\<And>x y. h x = h y \<Longrightarrow> f x = f y"
  shows "map f xs = map f ys"
proof -
  have len: "length xs = length ys" using assms(1) by (rule map_eq_imp_length_eq)
  have "h (xs ! i) = h (ys ! i)" if "i < length xs" for i using assms(1) that len by (metis nth_map)
  then have "f (xs ! i) = f (ys ! i)" if "i < length xs" for i using that assms(2) by blast
  then show ?thesis using len by (intro nth_equalityI) (simp_all del: map_eq_conv)
qed

lemma result_map_view:
  assumes "map h xs = map h ys" and "\<And>x y. h x = h y \<Longrightarrow> f x = f y"
  shows "result_map f xs = result_map f ys"
  using assms(1)
proof (induction xs arbitrary: ys)
  case (Cons x xs)
  then obtain y ys' where "ys = y # ys'" "h x = h y" "map h xs = map h ys'" by (cases ys) auto
  then show ?case using Cons.IH [of ys'] assms(2) [of x y] by (simp split: sum.split)
qed simp

lemma result_fold_view:
  assumes "map h xs = map h ys" and "\<And>x y. h x = h y \<Longrightarrow> f x = f y"
  shows "result_fold f xs s = result_fold f ys s"
  using assms(1)
proof (induction xs arbitrary: ys s)
  case (Cons x xs)
  then obtain y ys' where "ys = y # ys'" "h x = h y" "map h xs = map h ys'" by (cases ys) auto
  then show ?case using Cons.IH [of ys'] assms(2) [of x y] by (simp split: sum.split)
qed simp

lemma result_map_is_ok: "is_ok (result_map f xs) \<longleftrightarrow> (\<forall>x \<in> set xs. is_ok (f x))"
  by (induction xs) (auto split: sum.splits simp: is_ok_def)

lemma result_fold_append:
  "result_fold f (xs @ ys) s = result_bind (result_fold f xs s) (result_fold f ys)"
  by (induction xs arbitrary: s) (auto split: sum.splits)

lemma result_fold_invariant:
  assumes "result_fold f xs s = Inr s'" and "P s"
    and "\<And>x s t. x \<in> set xs \<Longrightarrow> P s \<Longrightarrow> f x s = Inr t \<Longrightarrow> P t"
  shows "P s'"
  using assms
proof (induction xs arbitrary: s)
  case Nil
  then show ?case by simp
next
  case (Cons x xs)
  from Cons.prems(1) obtain t where "f x s = Inr t" and "result_fold f xs t = Inr s'"
    by (auto split: sum.splits)
  with Cons show ?case by (metis list.set_intros(1) list.set_intros(2))
qed

section \<open>Facts about slices, search and dictionaries\<close>

lemma length_slice [simp]: "length (slice a b xs) = min (b - a) (length xs - a)"
  by (simp add: slice_def)

lemma nth_slice [simp]: "i < b - a \<Longrightarrow> a + i < length xs \<Longrightarrow> slice a b xs ! i = xs ! (a + i)"
  by (simp add: slice_def)

lemma set_slice_subset: "set (slice a b xs) \<subseteq> set xs"
  by (auto simp: slice_def dest: in_set_takeD in_set_dropD)

lemma first_index_Some:
  "first_index P xs = Some i \<longleftrightarrow> i < length xs \<and> P (xs ! i) \<and> (\<forall>j < i. \<not> P (xs ! j))"
proof (induction xs arbitrary: i)
  case Nil
  then show ?case by simp
next
  case (Cons x xs)
  show ?case
  proof (cases i)
    case 0
    then show ?thesis by auto
  next
    case (Suc k)
    then show ?thesis using Cons.IH [of k] by (auto simp: nth_Cons split: nat.splits)
  qed
qed

lemma first_index_None: "first_index P xs = None \<longleftrightarrow> (\<forall>x \<in> set xs. \<not> P x)"
  by (induction xs) auto

lemma take_first_index:
  "first_index P xs = Some i \<Longrightarrow> \<forall>x \<in> set (take i xs). \<not> P x"
  by (auto simp: first_index_Some in_set_conv_nth)

lemma map_of_dict_set [simp, py_simps]: "map_of (dict_set k v d) = (map_of d)(k \<mapsto> v)"
  by (simp add: dict_set_def update_conv')

lemma map_of_dict_pop [simp, py_simps]: "map_of (dict_pop k d) = (map_of d)(k := None)"
  by (induction d) (auto simp: dict_pop_def)

lemma keys_dict_set [simp, py_simps]: "fst ` set (dict_set k v d) = insert k (fst ` set d)"
  by (induction d) (auto simp: dict_set_def)

lemma keys_dict_pop [simp, py_simps]: "fst ` set (dict_pop k d) = fst ` set d - {k}"
  by (auto simp: dict_pop_def image_iff)

lemma distinct_dict_set [simp, py_simps]:
  "distinct (map fst d) \<Longrightarrow> distinct (map fst (dict_set k v d))"
  by (simp add: dict_set_def distinct_update)

lemma distinct_dict_pop [simp, py_simps]:
  "distinct (map fst d) \<Longrightarrow> distinct (map fst (dict_pop k d))"
  by (induction d) (auto simp: dict_pop_def)

lemma length_dict_set_new: "k \<notin> fst ` set d \<Longrightarrow> length (dict_set k v d) = Suc (length d)"
  by (induction d) (auto simp: dict_set_def)

lemma length_dict_pop:
  "distinct (map fst d) \<Longrightarrow> k \<in> fst ` set d \<Longrightarrow> Suc (length (dict_pop k d)) = length d"
proof (induction d)
  case Nil
  then show ?case by simp
next
  case (Cons p d)
  obtain k' v where p: "p = (k', v)" by (cases p)
  show ?case
  proof (cases "k' = k")
    case True
    with Cons.prems p have "filter (\<lambda>(k', v). k' \<noteq> k) d = d"
      by (auto simp: filter_id_conv image_iff)
    with True p show ?thesis by (simp add: dict_pop_def)
  next
    case False
    with Cons p show ?thesis by (auto simp: dict_pop_def)
  qed
qed

lemma dict_pop_absent: "k \<notin> fst ` set d \<Longrightarrow> dict_pop k d = d"
  by (auto simp: dict_pop_def filter_id_conv image_iff)

lemma set_dict_pop: "set (dict_pop r d) = {p \<in> set d. fst p \<noteq> r}"
  by (auto simp: dict_pop_def)

lemma dict_set_fresh: "r \<notin> fst ` set d \<Longrightarrow> dict_set r k d = d @ [(r, k)]"
  by (induction d) (auto simp: dict_set_def)

lemma map_of_fold_dict_pop: "map_of (fold dict_pop ks d) k = (if k \<in> set ks then None else map_of d k)"
  by (induction ks arbitrary: d) auto

lemma set_fromkeys [simp]: "set (fromkeys xs) = set xs"
  by (induction xs rule: fromkeys.induct) auto

lemma distinct_fromkeys [simp]: "distinct (fromkeys xs)"
  by (induction xs rule: fromkeys.induct) auto

lemma fromkeys_eq_Nil [simp]: "fromkeys xs = [] \<longleftrightarrow> xs = []"
  by (cases xs) simp_all

lemma hd_fromkeys: "xs \<noteq> [] \<Longrightarrow> hd (fromkeys xs) = hd xs"
  by (cases xs) simp_all

section \<open>Arithmetic of blocks and pages\<close>

lemma ceil_div_pos: "0 < b \<Longrightarrow> 0 < a \<Longrightarrow> ceil_div a b = Suc ((a - 1) div b)"
proof -
  assume "0 < b" "0 < a"
  then have *: "a + b - 1 = (a - 1) + b" by simp
  have "((a - 1) + b) div b = Suc ((a - 1) div b)"
    using \<open>0 < b\<close> by (subst div_add_self2) simp_all
  then show ?thesis unfolding ceil_div_def * .
qed

lemma ceil_div_0 [simp]: "ceil_div 0 b = 0"
  by (cases b) (simp_all add: ceil_div_def)

lemma ceil_div_le_iff: "0 < b \<Longrightarrow> ceil_div a b \<le> n \<longleftrightarrow> a \<le> n * b"
proof (cases "a = 0")
  case False
  assume b: "0 < b"
  have "ceil_div a b \<le> n \<longleftrightarrow> (a - 1) div b < n"
    using b False by (simp add: ceil_div_pos Suc_le_eq)
  also have "\<dots> \<longleftrightarrow> a - 1 < n * b" by (rule div_less_iff_less_mult [OF b])
  finally show ?thesis using False by linarith
qed simp

lemma ceil_div_le: "0 < b \<Longrightarrow> a \<le> ceil_div a b * b"
  using ceil_div_le_iff [of b a "ceil_div a b"] by simp

lemma ceil_div_less: "0 < b \<Longrightarrow> 0 < a \<Longrightarrow> (ceil_div a b - 1) * b < a"
proof -
  assume b: "0 < b" and a: "0 < a"
  have "(ceil_div a b - 1) * b = (a - 1) div b * b" using a b by (simp add: ceil_div_pos)
  also have "\<dots> \<le> a - 1" by (rule div_times_less_eq_dividend)
  finally show ?thesis using a by linarith
qed

lemma all_below_conj: "(\<forall>i < n. i < a \<and> i < b) \<longleftrightarrow> n \<le> (b::nat) \<and> n \<le> (a::nat)"
  by (metis linorder_not_less order_less_le_trans order_less_irrefl)

lemma all_less_two: "(\<forall>r < Suc (Suc 0). P r) \<longleftrightarrow> P 0 \<and> P (Suc 0)"
  by (auto simp: less_Suc_eq)

lemma nth_update_if: "k < length xs \<Longrightarrow> xs[j := v] ! k = (if j = k then v else xs ! k)"
  by simp

lemma upt_split: "k \<le> n \<Longrightarrow> [0..<n] = [0..<k] @ [k..<n]"
  using upt_add_eq_append [of 0 k "n - k"] by simp

lemma concat_map_single: "(\<And>x. x \<in> set xs \<Longrightarrow> f x = [g x]) \<Longrightarrow> concat (map f xs) = map g xs"
  by (induction xs) simp_all

section \<open>Lists of consecutive segments\<close>

text \<open>
  \<open>seg_start cs i\<close> is the exclusive prefix sum of the counts \<open>cs\<close>: where the
  \<open>i\<close>-th of the consecutive segments starts.
\<close>

definition seg_start :: "nat list \<Rightarrow> nat \<Rightarrow> nat" where
  "seg_start cs i = sum_list (take i cs)"

lemma seg_start_Suc: "i < length cs \<Longrightarrow> seg_start cs (Suc i) = seg_start cs i + cs ! i"
  by (simp add: seg_start_def take_Suc_conv_app_nth)

lemma seg_start_mono: "i \<le> j \<Longrightarrow> seg_start cs i \<le> seg_start cs j"
proof -
  assume "i \<le> j"
  then have "take j cs = take i cs @ take (j - i) (drop i cs)"
    by (metis add_diff_inverse_nat not_less take_add)
  then show ?thesis by (simp add: seg_start_def)
qed

lemma seg_end_le: "i < j \<Longrightarrow> i < length cs \<Longrightarrow> seg_start cs i + cs ! i \<le> seg_start cs j"
  using seg_start_mono [of "Suc i" j cs] by (simp add: seg_start_Suc)

lemma seg_end_le_total: "i < length cs \<Longrightarrow> seg_start cs i + cs ! i \<le> sum_list cs"
  using seg_end_le [of i "length cs" cs] by (simp add: seg_start_def)

lemma seg_disjoint:
  assumes "seg_start cs i + k = seg_start cs j + l"
    and "i < length cs" and "j < length cs" and "k < cs ! i" and "l < cs ! j"
  shows "i = j \<and> k = l"
proof -
  have "\<not> i < j" using seg_end_le [of i j cs] assms by linarith
  moreover have "\<not> j < i" using seg_end_le [of j i cs] assms by linarith
  ultimately show ?thesis using assms(1) by simp
qed

lemma seg_cover:
  "n < sum_list cs \<Longrightarrow> \<exists>i k. i < length cs \<and> k < cs ! i \<and> n = seg_start cs i + k"
proof (induction cs arbitrary: n)
  case Nil
  then show ?case by simp
next
  case (Cons c cs)
  show ?case
  proof (cases "n < c")
    case True
    then show ?thesis by (intro exI [of _ 0] exI [of _ n]) (simp add: seg_start_def)
  next
    case False
    with Cons.prems have "n - c < sum_list cs" by simp
    with Cons.IH obtain i k where "i < length cs" "k < cs ! i" "n - c = seg_start cs i + k"
      by blast
    with False show ?thesis
      by (intro exI [of _ "Suc i"] exI [of _ k]) (simp add: seg_start_def)
  qed
qed

lemma nth_concat_seg:
  "i < length xss \<Longrightarrow> k < length (xss ! i) \<Longrightarrow>
   concat xss ! (seg_start (map length xss) i + k) = xss ! i ! k"
proof (induction xss arbitrary: i)
  case Nil
  then show ?case by simp
next
  case (Cons xs xss)
  then show ?case
    by (cases i) (simp_all add: seg_start_def nth_append add.assoc)
qed

end
