(* ===== verification/Tensor.thy ===== *)
theory Tensor
  imports Prelude
begin

text \<open>
  The rows of integer, boolean and floating point tensors that the decoders compute on, and the
  tensor operations that they apply along the last dimension.  A finite float is an exact
  rational; the two infinities are extra values, so that \<open>-inf\<close> masking is modelled as it
  is written.  Rounding and NaN are not modelled.  A row of a \<open>[B, L]\<close> tensor is a list of
  length \<open>L\<close>, and an elementwise expression is \<open>tabulate L f\<close>.
\<close>

section \<open>Floats with infinities\<close>

datatype flt = NegInf | Fin rat | PosInf

fun flt_le :: "flt \<Rightarrow> flt \<Rightarrow> bool" where
  "flt_le NegInf y = True"
| "flt_le x PosInf = True"
| "flt_le (Fin a) (Fin b) = (a \<le> b)"
| "flt_le x y = False"

fun flt_neg :: "flt \<Rightarrow> flt" where
  "flt_neg NegInf = PosInf"
| "flt_neg (Fin a) = Fin (- a)"
| "flt_neg PosInf = NegInf"

text \<open>Subtracting a finite constant.\<close>

fun flt_sub :: "flt \<Rightarrow> rat \<Rightarrow> flt" where
  "flt_sub NegInf c = NegInf"
| "flt_sub (Fin a) c = Fin (a - c)"
| "flt_sub PosInf c = PosInf"

section \<open>Rows\<close>

type_synonym token = nat

definition tabulate :: "nat \<Rightarrow> (nat \<Rightarrow> 'a) \<Rightarrow> 'a list" where
  "tabulate n f = map f [0..<n]"

text \<open>The sum of a boolean row counts its true entries; \<open>any\<close> and \<open>all\<close> reduce it.\<close>

definition tsum :: "bool list \<Rightarrow> nat" where
  "tsum bs = length (filter id bs)"

definition any_row :: "bool list \<Rightarrow> bool" where
  "any_row bs = list_ex id bs"

definition all_row :: "bool list \<Rightarrow> bool" where
  "all_row bs = list_all id bs"

definition cumsum :: "nat list \<Rightarrow> nat list" where
  "cumsum xs = tabulate (length xs) (\<lambda>i. sum_list (take (Suc i) xs))"

text \<open>
  \<open>base.scatter_(1, idx, src)\<close> on one row: the writes happen in order of position.  The
  sources only rely on entries whose destination is unique.
\<close>

definition scatter :: "'a list \<Rightarrow> nat list \<Rightarrow> 'a list \<Rightarrow> 'a list" where
  "scatter base idx src = fold (\<lambda>i acc. acc[idx ! i := src ! i]) [0..<length idx] base"

section \<open>Arg-max, arg-min, sorting\<close>

text \<open>The first position of the greatest entry (the lowest index wins ties).\<close>

fun argmax_from :: "nat \<Rightarrow> nat \<Rightarrow> 'a::linorder \<Rightarrow> 'a list \<Rightarrow> nat" where
  "argmax_from i b v [] = b"
| "argmax_from i b v (x # xs) =
     (if v < x then argmax_from (Suc i) i x xs else argmax_from (Suc i) b v xs)"

definition argmax :: "'a::linorder list \<Rightarrow> nat" where
  "argmax xs = (case xs of [] \<Rightarrow> 0 | x # r \<Rightarrow> argmax_from 1 0 x r)"

fun argmin_from :: "nat \<Rightarrow> nat \<Rightarrow> 'a::linorder \<Rightarrow> 'a list \<Rightarrow> nat" where
  "argmin_from i b v [] = b"
| "argmin_from i b v (x # xs) =
     (if x < v then argmin_from (Suc i) i x xs else argmin_from (Suc i) b v xs)"

definition argmin :: "'a::linorder list \<Rightarrow> nat" where
  "argmin xs = (case xs of [] \<Rightarrow> 0 | x # r \<Rightarrow> argmin_from 1 0 x r)"

instantiation flt :: linorder
begin

definition less_eq_flt :: "flt \<Rightarrow> flt \<Rightarrow> bool" where
  "less_eq_flt x y = flt_le x y"

definition less_flt :: "flt \<Rightarrow> flt \<Rightarrow> bool" where
  "less_flt x y = (flt_le x y \<and> \<not> flt_le y x)"

instance
proof
  fix x y z :: flt
  show "(x < y) = (x \<le> y \<and> \<not> y \<le> x)" by (simp add: less_eq_flt_def less_flt_def)
  show "x \<le> x" by (cases x) (simp_all add: less_eq_flt_def)
  show "x \<le> y \<Longrightarrow> y \<le> z \<Longrightarrow> x \<le> z"
    by (cases x; cases y; cases z) (simp_all add: less_eq_flt_def)
  show "x \<le> y \<Longrightarrow> y \<le> x \<Longrightarrow> x = y"
    by (cases x; cases y) (simp_all add: less_eq_flt_def)
  show "x \<le> y \<or> y \<le> x" by (cases x; cases y) (auto simp: less_eq_flt_def)
qed

end

text \<open>Stable sorting permutations: \<open>argsort(descending=True, stable=True)\<close> and \<open>argsort\<close>.\<close>

definition argsort_desc :: "flt list \<Rightarrow> nat list" where
  "argsort_desc xs = sort_key (\<lambda>i. flt_neg (xs ! i)) [0..<length xs]"

definition argsort :: "'a::linorder list \<Rightarrow> nat list" where
  "argsort xs = sort_key (\<lambda>i. xs ! i) [0..<length xs]"

definition row_max :: "flt list \<Rightarrow> flt" where
  "row_max xs = fold max xs NegInf"

section \<open>Facts about floats\<close>

lemma flt_le_simps [simp]:
  "NegInf \<le> x" "x \<le> PosInf" "(Fin a \<le> Fin b) = (a \<le> b)"
  "(Fin a \<le> NegInf) = False" "(PosInf \<le> Fin a) = False" "(PosInf \<le> NegInf) = False"
  by (cases x; simp add: less_eq_flt_def)+

lemma flt_less_simps [simp]:
  "(NegInf < Fin a) = True" "(Fin a < Fin b) = (a < b)" "(Fin a < NegInf) = False"
  "(NegInf < NegInf) = False" "(Fin a < PosInf) = True" "(PosInf < x) = False"
  "(NegInf < PosInf) = True"
  by (cases x; auto simp: less_flt_def)+

lemma flt_sub_le: "0 \<le> c \<Longrightarrow> flt_sub x c \<le> x"
  by (cases x) simp_all

lemma flt_neg_le [simp]: "flt_neg x \<le> flt_neg y \<longleftrightarrow> y \<le> x"
  by (cases x; cases y) simp_all

lemma flt_not_NegInf: "NegInf < x \<longleftrightarrow> x \<noteq> NegInf"
  by (cases x) simp_all

section \<open>Facts about rows\<close>

lemma length_tabulate [simp, row_simps]: "length (tabulate n f) = n"
  by (simp add: tabulate_def)

lemma nth_tabulate [simp, row_simps]: "i < n \<Longrightarrow> tabulate n f ! i = f i"
  by (simp add: tabulate_def)

lemma set_tabulate [row_simps]: "set (tabulate n f) = f ` {0..<n}"
  by (simp add: tabulate_def)

lemma tabulate_cong: "(\<And>i. i < n \<Longrightarrow> f i = g i) \<Longrightarrow> tabulate n f = tabulate n g"
  by (simp add: tabulate_def)

lemma tabulate_nth: "tabulate (length xs) ((!) xs) = xs"
  by (simp add: tabulate_def map_nth)

lemma tabulate_eq_self: "length xs = n \<Longrightarrow> (\<And>i. i < n \<Longrightarrow> f i = xs ! i) \<Longrightarrow> tabulate n f = xs"
  by (auto intro: nth_equalityI)

lemma tabulate_pad:
  "length ps \<le> n \<Longrightarrow>
   tabulate n (\<lambda>j. if j < length ps then f (ps ! j) else z) = map f ps @ replicate (n - length ps) z"
  by (rule nth_equalityI) (simp_all add: nth_append)

lemma tabulate_take:
  "n < length ps \<Longrightarrow>
   tabulate n (\<lambda>j. if j < length ps then f (ps ! j) else z) = take n (map f ps)"
  by (rule nth_equalityI) simp_all

lemma tabulate_guard:
  "(\<And>j. j < c \<Longrightarrow> f j = g j) \<Longrightarrow>
   tabulate n (\<lambda>j. if j \<ge> c then z else f j) = tabulate n (\<lambda>j. if j < c then g j else z)"
  by (rule tabulate_cong) (simp add: not_le)

lemma tabulate_guard_bool:
  "(\<And>j. j < c \<Longrightarrow> f j = g j) \<Longrightarrow>
   tabulate n (\<lambda>j. f j \<and> \<not> j \<ge> c) = tabulate n (\<lambda>j. if j < c then g j else False)"
  by (rule tabulate_cong) (simp add: not_le)

lemma any_row_iff: "any_row bs \<longleftrightarrow> (\<exists>i < length bs. bs ! i)"
  by (auto simp: any_row_def list_ex_length)

lemma all_row_iff: "all_row bs \<longleftrightarrow> (\<forall>i < length bs. bs ! i)"
  by (auto simp: all_row_def list_all_length)

lemma tsum_card: "tsum bs = card {i. i < length bs \<and> bs ! i}"
  by (simp add: tsum_def length_filter_conv_card)

lemma tsum_tabulate: "tsum (tabulate n f) = card {i. i < n \<and> f i}"
  by (simp add: tsum_card conj_commute cong: conj_cong)

lemma tsum_zero_iff: "tsum bs = 0 \<longleftrightarrow> \<not> any_row bs"
  by (induction bs) (auto simp: tsum_def any_row_def)

lemma tsum_le_length: "tsum bs \<le> length bs"
  by (simp add: tsum_def)

lemma tsum_mono:
  assumes "length bs = length cs" and "\<And>i. i < length bs \<Longrightarrow> bs ! i \<Longrightarrow> cs ! i"
  shows "tsum bs \<le> tsum cs"
  unfolding tsum_card using assms by (intro card_mono) auto

lemma tsum_strict_mono:
  assumes "length bs = length cs" and "\<And>i. i < length bs \<Longrightarrow> bs ! i \<Longrightarrow> cs ! i"
    and "j < length bs" and "cs ! j" and "\<not> bs ! j"
  shows "tsum bs < tsum cs"
  unfolding tsum_card using assms by (intro psubset_card_mono) auto

lemma cumsum_length [simp]: "length (cumsum xs) = length xs"
  by (simp add: cumsum_def)

lemma cumsum_exclusive:
  "i < length xs \<Longrightarrow> cumsum xs ! i - xs ! i = seg_start xs i"
  by (simp add: cumsum_def seg_start_def take_Suc_conv_app_nth)

section \<open>Facts about scatter\<close>

lemma length_fold_update [simp]:
  "length (fold (\<lambda>i acc. acc[f i := g i]) is base) = length base"
  by (induction "is" arbitrary: base) simp_all

lemma length_scatter [simp]: "length (scatter base idx src) = length base"
  by (simp add: scatter_def)

lemma nth_fold_update_other:
  "(\<And>i. i \<in> set is \<Longrightarrow> f i \<noteq> j) \<Longrightarrow> fold (\<lambda>i acc. acc[f i := g i]) is base ! j = base ! j"
  by (induction "is" arbitrary: base) simp_all

lemma nth_fold_update_unique:
  assumes "k \<in> set is" and "f k < length base" and "\<And>i. i \<in> set is \<Longrightarrow> f i = f k \<Longrightarrow> i = k"
  shows "fold (\<lambda>i acc. acc[f i := g i]) is base ! f k = g k"
  using assms
proof (induction "is" arbitrary: base)
  case Nil
  then show ?case by simp
next
  case (Cons i "is")
  show ?case
  proof (cases "k \<in> set is")
    case True
    with Cons show ?thesis by simp
  next
    case False
    with Cons.prems have "i = k" by simp
    moreover have "\<And>j. j \<in> set is \<Longrightarrow> f j \<noteq> f k" using False Cons.prems(3) by auto
    ultimately show ?thesis using Cons.prems(2) by (simp add: nth_fold_update_other)
  qed
qed

lemma nth_scatter_other:
  "(\<And>i. i < length idx \<Longrightarrow> idx ! i \<noteq> j) \<Longrightarrow> scatter base idx src ! j = base ! j"
  unfolding scatter_def by (rule nth_fold_update_other) simp

lemma nth_scatter_unique:
  assumes "k < length idx" and "idx ! k < length base"
    and "\<And>i. i < length idx \<Longrightarrow> idx ! i = idx ! k \<Longrightarrow> i = k"
  shows "scatter base idx src ! (idx ! k) = src ! k"
  unfolding scatter_def
  by (rule nth_fold_update_unique [where f = "(!) idx" and g = "(!) src" and k = k])
    (use assms in simp_all)

section \<open>Facts about arg-max and arg-min\<close>

lemma argmax_from_props:
  assumes "length (ys @ xs) = i + length xs" and "b < i" and "v = ys ! b"
    and "\<And>j. j < i \<Longrightarrow> ys ! j \<le> v" and "\<And>j. j < b \<Longrightarrow> ys ! j < v" and "length ys = i"
  shows "argmax_from i b v xs < length (ys @ xs)
    \<and> (\<forall>j < length (ys @ xs). (ys @ xs) ! j \<le> (ys @ xs) ! argmax_from i b v xs)
    \<and> (\<forall>j < argmax_from i b v xs. (ys @ xs) ! j < (ys @ xs) ! argmax_from i b v xs)"
  using assms
proof (induction xs arbitrary: ys i b v)
  case Nil
  then show ?case by simp
next
  case (Cons x xs)
  have app: "ys @ x # xs = (ys @ [x]) @ xs" by simp
  show ?case
  proof (cases "v < x")
    case True
    have "\<And>j. j < Suc i \<Longrightarrow> (ys @ [x]) ! j \<le> x"
      using Cons.prems True by (auto simp: nth_append less_Suc_eq intro: less_imp_le le_less_trans)
    moreover have "\<And>j. j < i \<Longrightarrow> (ys @ [x]) ! j < x"
      using Cons.prems True by (auto simp: nth_append intro: le_less_trans)
    ultimately show ?thesis unfolding app
      using Cons.IH [of "ys @ [x]" "Suc i" i x] Cons.prems True by (simp add: nth_append)
  next
    case False
    have "\<And>j. j < Suc i \<Longrightarrow> (ys @ [x]) ! j \<le> v"
      using Cons.prems False by (auto simp: nth_append less_Suc_eq)
    moreover have "\<And>j. j < b \<Longrightarrow> (ys @ [x]) ! j < v"
      using Cons.prems by (auto simp: nth_append)
    ultimately show ?thesis unfolding app
      using Cons.IH [of "ys @ [x]" "Suc i" b v] Cons.prems False by (simp add: nth_append)
  qed
qed

lemma argmax_props:
  assumes "xs \<noteq> []"
  shows "argmax xs < length xs \<and> (\<forall>j < length xs. xs ! j \<le> xs ! argmax xs)
    \<and> (\<forall>j < argmax xs. xs ! j < xs ! argmax xs)"
proof (cases xs)
  case Nil
  with assms show ?thesis by simp
next
  case (Cons x r)
  then show ?thesis using argmax_from_props [of "[x]" r 1 0 x] by (simp add: argmax_def)
qed

lemma argmax_less: "xs \<noteq> [] \<Longrightarrow> argmax xs < length xs"
  using argmax_props by blast

lemma argmax_ge: "j < length xs \<Longrightarrow> xs ! j \<le> xs ! argmax xs"
  using argmax_props [of xs] by fastforce

lemma argmax_first: "xs \<noteq> [] \<Longrightarrow> j < argmax xs \<Longrightarrow> xs ! j < xs ! argmax xs"
  using argmax_props by blast

lemma argmax_avoids_NegInf:
  assumes "k < length xs" and "xs ! k \<noteq> NegInf"
  shows "xs ! argmax xs \<noteq> NegInf"
  using argmax_ge [OF assms(1)] assms(2) by (cases "xs ! k") auto

lemma argmin_from_props:
  assumes "b < i" and "v = ys ! b" and "\<And>j. j < i \<Longrightarrow> v \<le> ys ! j" and "length ys = i"
  shows "argmin_from i b v xs < length (ys @ xs)
    \<and> (\<forall>j < length (ys @ xs). (ys @ xs) ! argmin_from i b v xs \<le> (ys @ xs) ! j)"
  using assms
proof (induction xs arbitrary: ys i b v)
  case Nil
  then show ?case by simp
next
  case (Cons x xs)
  have app: "ys @ x # xs = (ys @ [x]) @ xs" by simp
  show ?case
  proof (cases "x < v")
    case True
    have "\<And>j. j < Suc i \<Longrightarrow> x \<le> (ys @ [x]) ! j"
      using Cons.prems True by (auto simp: nth_append less_Suc_eq intro: less_imp_le less_le_trans)
    then show ?thesis unfolding app
      using Cons.IH [of i "Suc i" x "ys @ [x]"] Cons.prems True by (simp add: nth_append)
  next
    case False
    have "\<And>j. j < Suc i \<Longrightarrow> v \<le> (ys @ [x]) ! j"
      using Cons.prems False by (auto simp: nth_append less_Suc_eq)
    then show ?thesis unfolding app
      using Cons.IH [of b "Suc i" v "ys @ [x]"] Cons.prems False by (simp add: nth_append)
  qed
qed

lemma argmin_props:
  assumes "xs \<noteq> []"
  shows "argmin xs < length xs \<and> (\<forall>j < length xs. xs ! argmin xs \<le> xs ! j)"
proof (cases xs)
  case Nil
  with assms show ?thesis by simp
next
  case (Cons x r)
  then show ?thesis using argmin_from_props [of 0 1 x "[x]" r] by (simp add: argmin_def)
qed

lemma argmin_tabulate:
  assumes "j < n"
  shows "argmin (tabulate n g) < n" and "g (argmin (tabulate n g)) \<le> g j"
proof -
  have "tabulate n g \<noteq> []" using assms by (simp add: tabulate_def)
  note props = argmin_props [OF this]
  from props show a: "argmin (tabulate n g) < n" by simp
  have "j < length (tabulate n g)" using assms by simp
  with props have "tabulate n g ! argmin (tabulate n g) \<le> tabulate n g ! j" by blast
  then show "g (argmin (tabulate n g)) \<le> g j" unfolding nth_tabulate [OF a] nth_tabulate [OF assms] .
qed

section \<open>Facts about sorting permutations and maxima\<close>

lemma argsort_desc_perm [simp]:
  "set (argsort_desc xs) = {0..<length xs}" "distinct (argsort_desc xs)"
  "length (argsort_desc xs) = length xs"
  by (simp_all add: argsort_desc_def)

lemma argsort_perm [simp]:
  "set (argsort xs) = {0..<length xs}" "distinct (argsort xs)" "length (argsort xs) = length xs"
  by (simp_all add: argsort_def)

lemma argsort_desc_sorted:
  "i \<le> j \<Longrightarrow> j < length xs \<Longrightarrow> xs ! (argsort_desc xs ! j) \<le> xs ! (argsort_desc xs ! i)"
proof -
  assume ij: "i \<le> j" "j < length xs"
  have "sorted (map (\<lambda>i. flt_neg (xs ! i)) (argsort_desc xs))"
    by (simp add: argsort_desc_def)
  then have "map (\<lambda>i. flt_neg (xs ! i)) (argsort_desc xs) ! i
      \<le> map (\<lambda>i. flt_neg (xs ! i)) (argsort_desc xs) ! j"
    using ij by (intro sorted_nth_mono) simp_all
  with ij show ?thesis by simp
qed

text \<open>Sorting a permutation gives its inverse: \<open>argsort(order)\<close> is the rank of a position.\<close>

lemma argsort_inverse:
  assumes perm: "set p = {0..<length p}" "distinct p" and i: "i < length p"
  shows "argsort p ! i < length p" and "p ! (argsort p ! i) = i"
proof -
  have srt: "map ((!) p) (argsort p) = [0..<length p]"
  proof (rule sorted_distinct_set_unique)
    show "sorted (map ((!) p) (argsort p))" by (simp add: argsort_def)
    show "distinct (map ((!) p) (argsort p))"
      using perm(2) by (auto simp: distinct_map inj_on_def nth_eq_iff_index_eq)
    have "set (map ((!) p) (argsort p)) = set p"
      by (auto simp: in_set_conv_nth)
    then show "set (map ((!) p) (argsort p)) = set [0..<length p]" using perm(1) by simp
  qed simp_all
  have "argsort p ! i \<in> set (argsort p)" using i by (intro nth_mem) simp
  then show "argsort p ! i < length p" unfolding argsort_perm by simp
  show "p ! (argsort p ! i) = i" using arg_cong [OF srt, of "\<lambda>ys. ys ! i"] i by simp
qed

text \<open>
  The \<open>n\<close> best ranked entries are all above \<open>-inf\<close> when at least \<open>n\<close> entries are.
\<close>

lemma top_ranked_above_NegInf:
  assumes n: "n \<le> card {i. i < length xs \<and> xs ! i \<noteq> NegInf}"
    and i: "i < length xs" and r: "argsort (argsort_desc xs) ! i < n"
  shows "xs ! i \<noteq> NegInf"
proof
  assume inf: "xs ! i = NegInf"
  let ?o = "argsort_desc xs" and ?r = "argsort (argsort_desc xs) ! i"
  have o_r: "?o ! ?r = i" and r_len: "?r < length xs"
    using argsort_inverse [of ?o i] i by simp_all
  have "{i. i < length xs \<and> xs ! i \<noteq> NegInf} \<subseteq> (\<lambda>k. ?o ! k) ` {0..<?r}"
  proof
    fix j assume "j \<in> {i. i < length xs \<and> xs ! i \<noteq> NegInf}"
    then have j: "j < length xs" "xs ! j \<noteq> NegInf" by auto
    then have "j \<in> set ?o" by simp
    then obtain k where k: "k < length xs" "?o ! k = j"
      unfolding in_set_conv_nth argsort_desc_perm(3) by blast
    have "\<not> ?r \<le> k"
    proof
      assume "?r \<le> k"
      from argsort_desc_sorted [OF this k(1)] have "xs ! j \<le> NegInf"
        using o_r k(2) inf by simp
      with j(2) show False by (cases "xs ! j") simp_all
    qed
    with k show "j \<in> (\<lambda>k. ?o ! k) ` {0..<?r}" by (auto simp: image_iff)
  qed
  then have "card {i. i < length xs \<and> xs ! i \<noteq> NegInf} \<le> ?r"
    using card_mono [of "(\<lambda>k. ?o ! k) ` {0..<?r}"] card_image_le [of "{0..<?r}" "\<lambda>k. ?o ! k"]
    by (metis (no_types, lifting) card_atLeastLessThan diff_zero dual_order.trans finite_atLeastLessThan finite_imageI)
  with n r show False by simp
qed

lemma row_max_eq: "row_max xs = Max (insert NegInf (set xs))"
proof -
  have "fold max xs a = Max (insert a (set xs))" for a :: flt
    by (metis Max.set_eq_fold list.simps(15))
  then show ?thesis by (simp add: row_max_def)
qed

lemma row_max_ge: "i < length xs \<Longrightarrow> xs ! i \<le> row_max xs"
  by (simp add: row_max_eq)

lemma row_max_attained: "row_max xs \<noteq> NegInf \<Longrightarrow> \<exists>i < length xs. xs ! i = row_max xs"
  using Max_in [of "insert NegInf (set xs)"] by (auto simp: row_max_eq in_set_conv_nth)

end
