(* ===== verification/Edit_Operations.thy ===== *)
theory Edit_Operations
  imports Tensor
begin

text \<open>
  The consumption of DELETE and SPLIT tokens in a block
  (\<open>execution/decoders/llada/levenshtein.py\<close>): the scalar loop
  \<open>apply_edit_operations\<close>, which the source keeps as an oracle, and the fixed-shape
  program \<open>apply_edit_operations_batched\<close>, which the decoder runs.  The two are shown to
  compute the same tokens and the same tracking row for every block.
\<close>

section \<open>The scalar loop\<close>

text \<open>The body of \<open>for i, token in enumerate(block_tokens)\<close>, from position \<open>i\<close> on.\<close>

fun apply_edit_loop ::
  "token list \<Rightarrow> bool list \<Rightarrow> token \<Rightarrow> token \<Rightarrow> token \<Rightarrow> nat \<Rightarrow> nat \<Rightarrow> token list
    \<Rightarrow> token list \<times> bool list" where
  "apply_edit_loop old_block_tokens is_original_mask mask_id delete_id split_id prompt_length i []
     = ([], [])"
| "apply_edit_loop old_block_tokens is_original_mask mask_id delete_id split_id prompt_length i
       (token # rest) =
     (let (toks, trk) = apply_edit_loop old_block_tokens is_original_mask mask_id
              delete_id split_id prompt_length (Suc i) rest;
          snapshot = (if i < length is_original_mask then is_original_mask ! i else False);
          old_token = (if i < length old_block_tokens then old_block_tokens ! i else mask_id)
      in if i < prompt_length then (token # toks, False # trk)
         else if token = delete_id then (toks, trk)
         else if token = split_id then (mask_id # old_token # toks, False # snapshot # trk)
         else (token # toks, snapshot # trk))"

text \<open>Truncation or right padding with masks back to \<open>block_length\<close>.\<close>

definition apply_edit_operations ::
  "token list \<Rightarrow> token list \<Rightarrow> bool list \<Rightarrow> token \<Rightarrow> nat \<Rightarrow> token \<Rightarrow> token \<Rightarrow> nat
    \<Rightarrow> token list \<times> bool list" where
  "apply_edit_operations block_tokens old_block_tokens is_original_mask mask_id block_length
       delete_id split_id prompt_length =
     (let (toks, trk) = apply_edit_loop old_block_tokens is_original_mask mask_id
              delete_id split_id prompt_length 0 block_tokens
      in if length toks > block_length then (take block_length toks, take block_length trk)
         else if length toks < block_length
         then (toks @ replicate (block_length - length toks) mask_id,
               trk @ replicate (block_length - length toks) False)
         else (toks, trk))"

section \<open>The fixed-shape program\<close>

definition edit_is_del :: "token list \<Rightarrow> bool list \<Rightarrow> token \<Rightarrow> nat \<Rightarrow> bool" where
  "edit_is_del blk prompt_positions delete_id i = (\<not> prompt_positions ! i \<and> blk ! i = delete_id)"

definition edit_counts :: "token list \<Rightarrow> bool list \<Rightarrow> token \<Rightarrow> token \<Rightarrow> nat list" where
  "edit_counts blk prompt_positions delete_id split_id =
     tabulate (length blk) (\<lambda>i.
       if edit_is_del blk prompt_positions delete_id i then 0
       else if edit_is_del blk prompt_positions split_id i then 2 else 1)"

text \<open>
  One row of \<open>apply_edit_operations_batched\<close>: destination offsets by an exclusive
  cumulative sum, a primary and a secondary scatter into a staging row of width
  \<open>2 * L + 1\<close> whose last slot is the sink, and truncation to \<open>L\<close> with padding.
\<close>

definition apply_edit_row ::
  "token list \<Rightarrow> token list \<Rightarrow> bool list \<Rightarrow> bool list \<Rightarrow> token \<Rightarrow> token \<Rightarrow> token
    \<Rightarrow> token list \<times> bool list" where
  "apply_edit_row blk old is_original_mask prompt_positions mask_id delete_id split_id =
     (let L = length blk;
          is_del = edit_is_del blk prompt_positions delete_id;
          is_spl = edit_is_del blk prompt_positions split_id;
          counts = edit_counts blk prompt_positions delete_id split_id;
          start = tabulate L (\<lambda>i. cumsum counts ! i - counts ! i);
          total = sum_list counts;
          width = 2 * L + 1;
          sink = width - 1;
          primary_idx = tabulate L (\<lambda>i. if is_del i then sink else start ! i);
          primary_tok = tabulate L (\<lambda>i. if is_spl i then mask_id else blk ! i);
          primary_trk = tabulate L (\<lambda>i.
              is_original_mask ! i \<and> \<not> is_spl i \<and> \<not> prompt_positions ! i);
          secondary_idx = tabulate L (\<lambda>i.
              if is_spl i then min (start ! i + 1) sink else sink);
          tokens = scatter (scatter (replicate width mask_id) primary_idx primary_tok)
              secondary_idx old;
          tracking = scatter (scatter (replicate width False) primary_idx primary_trk)
              secondary_idx is_original_mask
      in (tabulate L (\<lambda>j. if j \<ge> total then mask_id else tokens ! j),
          tabulate L (\<lambda>j. tracking ! j \<and> \<not> j \<ge> total)))"

definition apply_edit_operations_batched ::
  "token list list \<Rightarrow> token list list \<Rightarrow> bool list list \<Rightarrow> bool list list \<Rightarrow> token \<Rightarrow> token
    \<Rightarrow> token \<Rightarrow> (token list \<times> bool list) list" where
  "apply_edit_operations_batched blk old is_original_mask prompt_positions mask_id
       delete_id split_id =
     tabulate (length blk) (\<lambda>r. apply_edit_row (blk ! r) (old ! r) (is_original_mask ! r)
       (prompt_positions ! r) mask_id delete_id split_id)"

section \<open>What one position contributes\<close>

text \<open>
  The specification both versions meet: a position contributes a list of (token, tracking)
  pairs, and the result is the concatenation, cut or padded to the block length.
\<close>

definition edit_contrib ::
  "token list \<Rightarrow> token list \<Rightarrow> bool list \<Rightarrow> token \<Rightarrow> token \<Rightarrow> token \<Rightarrow> nat \<Rightarrow> nat
    \<Rightarrow> (token \<times> bool) list" where
  "edit_contrib blk old orig mask_id delete_id split_id prompt_length i =
     (if i < prompt_length then [(blk ! i, False)]
      else if blk ! i = delete_id then []
      else if blk ! i = split_id then [(mask_id, False), (old ! i, orig ! i)]
      else [(blk ! i, orig ! i)])"

definition edit_spec ::
  "token list \<Rightarrow> token list \<Rightarrow> bool list \<Rightarrow> token \<Rightarrow> token \<Rightarrow> token \<Rightarrow> nat
    \<Rightarrow> (token \<times> bool) list" where
  "edit_spec blk old orig mask_id delete_id split_id prompt_length =
     concat (map (edit_contrib blk old orig mask_id delete_id split_id prompt_length)
       [0..<length blk])"

text \<open>The first \<open>n\<close> pairs, padded with untracked masks.\<close>

definition fit :: "nat \<Rightarrow> token \<Rightarrow> (token \<times> bool) list \<Rightarrow> token list \<times> bool list" where
  "fit n mask_id ps =
     (tabulate n (\<lambda>j. if j < length ps then fst (ps ! j) else mask_id),
      tabulate n (\<lambda>j. if j < length ps then snd (ps ! j) else False))"

section \<open>The scalar loop meets the specification\<close>

lemma apply_edit_loop_contrib:
  assumes "length old = length blk" and "length orig = length blk" and "i \<le> length blk"
  shows "apply_edit_loop old orig m d s pl i (drop i blk)
    = (map fst (concat (map (edit_contrib blk old orig m d s pl) [i..<length blk])),
       map snd (concat (map (edit_contrib blk old orig m d s pl) [i..<length blk])))"
  using assms(3)
proof (induction rule: inc_induct)
  case base
  then show ?case by simp
next
  case (step n)
  then have "drop n blk = blk ! n # drop (Suc n) blk" by (simp add: Cons_nth_drop_Suc)
  moreover have "[n..<length blk] = n # [Suc n..<length blk]"
    using step by (simp add: upt_conv_Cons)
  ultimately show ?case
    using step assms(1,2) by (simp add: edit_contrib_def)
qed

lemma apply_edit_operations_spec:
  assumes "length old = length blk" and "length orig = length blk"
  shows "apply_edit_operations blk old orig m n d s pl = fit n m (edit_spec blk old orig m d s pl)"
proof -
  let ?ps = "edit_spec blk old orig m d s pl"
  have loop: "apply_edit_loop old orig m d s pl 0 blk = (map fst ?ps, map snd ?ps)"
    using apply_edit_loop_contrib [OF assms, of 0] by (simp add: edit_spec_def)
  show ?thesis
    by (cases "n < length ?ps")
      (simp_all add: apply_edit_operations_def loop fit_def tabulate_pad tabulate_take
        del: if_False)
qed

section \<open>The fixed-shape program meets the specification\<close>

text \<open>The prompt positions of a row: a prefix of the block.\<close>

abbreviation prompt_row :: "nat \<Rightarrow> nat \<Rightarrow> bool list" where
  "prompt_row n pl \<equiv> tabulate n (\<lambda>i. i < pl)"

lemma edit_counts_length [simp]: "length (edit_counts blk pp d s) = length blk"
  by (simp add: edit_counts_def)

text \<open>The counts are the lengths of the contributions.\<close>

lemma edit_counts_contrib:
  "map length (map (edit_contrib blk old orig m d s pl) [0..<length blk])
     = edit_counts blk (prompt_row (length blk) pl) d s"
  by (rule nth_equalityI) (auto simp: edit_counts_def edit_contrib_def edit_is_del_def)

lemma edit_counts_nth:
  "i < length blk \<Longrightarrow>
   edit_counts blk (prompt_row (length blk) pl) d s ! i = length (edit_contrib blk old orig m d s pl i)"
  by (simp flip: edit_counts_contrib [of blk old orig m d s pl])

lemma edit_spec_length:
  "length (edit_spec blk old orig m d s pl) = sum_list (edit_counts blk (prompt_row (length blk) pl) d s)"
  by (simp add: edit_spec_def length_concat flip: edit_counts_contrib [of blk old orig m])

lemma edit_spec_nth:
  assumes "i < length blk" and "k < edit_counts blk (prompt_row (length blk) pl) d s ! i"
  shows "edit_spec blk old orig m d s pl
      ! (seg_start (edit_counts blk (prompt_row (length blk) pl) d s) i + k)
    = edit_contrib blk old orig m d s pl i ! k"
  using nth_concat_seg [of i "map (edit_contrib blk old orig m d s pl) [0..<length blk]" k]
    assms edit_counts_nth [OF assms(1), of pl d s old orig m]
  by (simp only: edit_counts_contrib edit_spec_def length_map length_upt nth_map nth_upt
      minus_nat.diff_0 add_0)

lemma edit_slot_lt_sink:
  assumes i: "i < length blk" and k: "k < edit_counts blk pp d s ! i"
  shows "seg_start (edit_counts blk pp d s) i + k < 2 * length blk"
proof -
  have "\<forall>c \<in> set (edit_counts blk pp d s). c \<le> 2" by (auto simp: edit_counts_def tabulate_def)
  then have "sum_list (edit_counts blk pp d s) \<le> (\<Sum>c\<leftarrow>edit_counts blk pp d s. 2)"
    using sum_list_mono [of "edit_counts blk pp d s" "\<lambda>c. c" "\<lambda>_. 2"] by simp
  also have "\<dots> = 2 * length blk" by (simp add: sum_list_triv)
  finally show ?thesis using seg_end_le_total [of i "edit_counts blk pp d s"] i k by simp
qed

text \<open>The destinations of the two scatters, and what the staging row holds at a slot.\<close>

definition edit_idx1 :: "token list \<Rightarrow> bool list \<Rightarrow> token \<Rightarrow> token \<Rightarrow> nat list" where
  "edit_idx1 blk pp d s = tabulate (length blk) (\<lambda>i. if edit_is_del blk pp d i then 2 * length blk
     else seg_start (edit_counts blk pp d s) i)"

definition edit_idx2 :: "token list \<Rightarrow> bool list \<Rightarrow> token \<Rightarrow> token \<Rightarrow> nat list" where
  "edit_idx2 blk pp d s = tabulate (length blk) (\<lambda>i. if edit_is_del blk pp s i
     then min (seg_start (edit_counts blk pp d s) i + 1) (2 * length blk) else 2 * length blk)"

lemma edit_counts_0: "i < length blk \<Longrightarrow> edit_counts blk pp d s ! i = 0 \<longleftrightarrow> edit_is_del blk pp d i"
  by (simp add: edit_counts_def)

lemma edit_counts_2:
  "d \<noteq> s \<Longrightarrow> i < length blk \<Longrightarrow> edit_counts blk pp d s ! i = 2 \<longleftrightarrow> edit_is_del blk pp s i"
  by (simp add: edit_counts_def edit_is_del_def)

lemma edit_idx2_split:
  assumes "d \<noteq> s" and "i < length blk" and "edit_is_del blk pp s i"
  shows "edit_idx2 blk pp d s ! i = seg_start (edit_counts blk pp d s) i + 1"
proof -
  have "edit_counts blk pp d s ! i = 2" using assms by (simp add: edit_counts_2)
  then show ?thesis using edit_slot_lt_sink [OF assms(2), of 1 pp d s] assms
    by (simp add: edit_idx2_def)
qed

lemma edit_primary_slot:
  assumes ds: "d \<noteq> s" and i: "i < length blk" and k: "0 < edit_counts blk pp d s ! i"
    and len: "length base = 2 * length blk + 1"
  shows "scatter (scatter base (edit_idx1 blk pp d s) src1) (edit_idx2 blk pp d s) src2
      ! seg_start (edit_counts blk pp d s) i = src1 ! i"
proof -
  let ?c = "edit_counts blk pp d s"
  have nd: "\<not> edit_is_del blk pp d i" using edit_counts_0 [OF i, of pp d s] k by simp
  have slot: "seg_start ?c i < 2 * length blk" using edit_slot_lt_sink [OF i k] by simp
  have at: "edit_idx1 blk pp d s ! i = seg_start ?c i" using nd i by (simp add: edit_idx1_def)
  have "edit_idx2 blk pp d s ! j \<noteq> seg_start ?c i" if "j < length blk" for j
  proof (cases "edit_is_del blk pp s j")
    case True
    then have "1 < ?c ! j" using edit_counts_2 [OF ds that, of pp] by simp
    then show ?thesis
      using edit_idx2_split [OF ds that True] seg_disjoint [of ?c j 1 i 0] that i k by auto
  next
    case False
    then show ?thesis using that slot by (simp add: edit_idx2_def)
  qed
  then have "scatter (scatter base (edit_idx1 blk pp d s) src1) (edit_idx2 blk pp d s) src2
      ! seg_start ?c i = scatter base (edit_idx1 blk pp d s) src1 ! (edit_idx1 blk pp d s ! i)"
    unfolding at by (intro nth_scatter_other) (simp add: edit_idx2_def)
  also have "\<dots> = src1 ! i"
  proof (rule nth_scatter_unique)
    show "i < length (edit_idx1 blk pp d s)" using i by (simp add: edit_idx1_def)
    show "edit_idx1 blk pp d s ! i < length base" using at slot len by simp
    fix j assume "j < length (edit_idx1 blk pp d s)" and eq: "edit_idx1 blk pp d s ! j = edit_idx1 blk pp d s ! i"
    then have j: "j < length blk" by (simp add: edit_idx1_def)
    have ndj: "\<not> edit_is_del blk pp d j"
      using eq at slot j by (auto simp: edit_idx1_def)
    then have "seg_start ?c j = seg_start ?c i" "0 < ?c ! j"
      using eq at j edit_counts_0 [OF j, of pp d s] by (simp_all add: edit_idx1_def)
    then show "j = i" using seg_disjoint [of ?c j 0 i 0] i j k by simp
  qed
  finally show ?thesis .
qed

lemma edit_secondary_slot:
  assumes ds: "d \<noteq> s" and i: "i < length blk" and k: "edit_counts blk pp d s ! i = 2"
    and len: "length base = 2 * length blk + 1"
  shows "scatter (scatter base (edit_idx1 blk pp d s) src1) (edit_idx2 blk pp d s) src2
      ! (seg_start (edit_counts blk pp d s) i + 1) = src2 ! i"
proof -
  let ?c = "edit_counts blk pp d s"
  have sp: "edit_is_del blk pp s i" using edit_counts_2 [OF ds i, of pp] k by simp
  have at: "edit_idx2 blk pp d s ! i = seg_start ?c i + 1" by (rule edit_idx2_split [OF ds i sp])
  have slot: "seg_start ?c i + 1 < 2 * length blk" using edit_slot_lt_sink [OF i, of 1 pp d s] k by simp
  have "scatter (scatter base (edit_idx1 blk pp d s) src1) (edit_idx2 blk pp d s) src2
      ! (edit_idx2 blk pp d s ! i) = src2 ! i"
  proof (rule nth_scatter_unique)
    show "i < length (edit_idx2 blk pp d s)" using i by (simp add: edit_idx2_def)
    show "edit_idx2 blk pp d s ! i < length (scatter base (edit_idx1 blk pp d s) src1)"
      using at slot len by simp
    fix j assume "j < length (edit_idx2 blk pp d s)" and eq: "edit_idx2 blk pp d s ! j = edit_idx2 blk pp d s ! i"
    then have j: "j < length blk" by (simp add: edit_idx2_def)
    have spj: "edit_is_del blk pp s j"
      using eq at slot j by (auto simp: edit_idx2_def split: if_splits)
    then have "seg_start ?c j + 1 = seg_start ?c i + 1" "?c ! j = 2"
      using eq at j edit_idx2_split [OF ds j] edit_counts_2 [OF ds j, of pp] by simp_all
    then show "j = i" using seg_disjoint [of ?c j 1 i 1] i j k by simp
  qed
  then show ?thesis using at by simp
qed

text \<open>The row program, with the destinations named.\<close>

lemma apply_edit_row_alt:
  "apply_edit_row blk old orig pp m d s =
     (tabulate (length blk) (\<lambda>j. if j \<ge> sum_list (edit_counts blk pp d s) then m else
        scatter (scatter (replicate (2 * length blk + 1) m) (edit_idx1 blk pp d s)
          (tabulate (length blk) (\<lambda>i. if edit_is_del blk pp s i then m else blk ! i)))
          (edit_idx2 blk pp d s) old ! j),
      tabulate (length blk) (\<lambda>j.
        scatter (scatter (replicate (2 * length blk + 1) False) (edit_idx1 blk pp d s)
          (tabulate (length blk) (\<lambda>i. orig ! i \<and> \<not> edit_is_del blk pp s i \<and> \<not> pp ! i)))
          (edit_idx2 blk pp d s) orig ! j \<and> \<not> j \<ge> sum_list (edit_counts blk pp d s)))"
proof -
  let ?c = "edit_counts blk pp d s"
  let ?st = "tabulate (length blk) (\<lambda>i. cumsum ?c ! i - ?c ! i)"
  have st: "?st ! i = seg_start ?c i" if "i < length blk" for i
    using that cumsum_exclusive [of i ?c] by simp
  have "tabulate (length blk) (\<lambda>i. if edit_is_del blk pp d i then 2 * length blk + 1 - 1 else ?st ! i)
      = edit_idx1 blk pp d s"
    unfolding edit_idx1_def by (rule tabulate_cong) (simp only: st add_diff_cancel_right')
  moreover have "tabulate (length blk) (\<lambda>i. if edit_is_del blk pp s i
      then min (?st ! i + 1) (2 * length blk + 1 - 1) else 2 * length blk + 1 - 1)
      = edit_idx2 blk pp d s"
    unfolding edit_idx2_def by (rule tabulate_cong) (simp only: st add_diff_cancel_right')
  ultimately show ?thesis unfolding apply_edit_row_def Let_def by (simp only:)
qed

lemma apply_edit_row_spec:
  assumes ds: "d \<noteq> s"
  shows "apply_edit_row blk old orig (prompt_row (length blk) pl) m d s
    = fit (length blk) m (edit_spec blk old orig m d s pl)"
proof -
  let ?pp = "prompt_row (length blk) pl" and ?sp = "edit_spec blk old orig m d s pl"
  let ?c = "edit_counts blk ?pp d s"
  let ?T = "scatter (scatter (replicate (2 * length blk + 1) m) (edit_idx1 blk ?pp d s)
      (tabulate (length blk) (\<lambda>i. if edit_is_del blk ?pp s i then m else blk ! i)))
      (edit_idx2 blk ?pp d s) old"
  let ?R = "scatter (scatter (replicate (2 * length blk + 1) False) (edit_idx1 blk ?pp d s)
      (tabulate (length blk) (\<lambda>i. orig ! i \<and> \<not> edit_is_del blk ?pp s i \<and> \<not> ?pp ! i)))
      (edit_idx2 blk ?pp d s) orig"
  have pair: "?T ! j = fst (?sp ! j) \<and> ?R ! j = snd (?sp ! j)" if jc: "j < sum_list ?c" for j
  proof -
    obtain i k where ik: "i < length blk" "k < ?c ! i" "j = seg_start ?c i + k"
      using seg_cover [OF jc] by auto
    have sp: "?sp ! j = edit_contrib blk old orig m d s pl i ! k"
      using edit_spec_nth [OF ik(1,2)] ik(3) by simp
    have clen: "?c ! i = length (edit_contrib blk old orig m d s pl i)"
      by (rule edit_counts_nth [OF ik(1)])
    consider "k = 0" | "k = 1" "?c ! i = 2"
      using ik(1,2) by (auto simp: edit_counts_def split: if_splits dest: less_2_cases)
    then show ?thesis
    proof cases
      case 1
      then have "0 < ?c ! i" "j = seg_start ?c i" using ik by simp_all
      then have "?T ! j = (if edit_is_del blk ?pp s i then m else blk ! i)"
        "?R ! j = (orig ! i \<and> \<not> edit_is_del blk ?pp s i \<and> \<not> ?pp ! i)"
        using ik(1) by (simp_all only: edit_primary_slot [OF ds ik(1)] length_replicate nth_tabulate)
      with sp 1 ik(1) clen \<open>0 < ?c ! i\<close> ds show ?thesis
        by (auto simp: edit_contrib_def edit_is_del_def)
    next
      case 2
      then have "?T ! j = old ! i" "?R ! j = orig ! i"
        using ik by (simp_all only: edit_secondary_slot [OF ds ik(1)] length_replicate)
      with sp 2 clen show ?thesis by (auto simp: edit_contrib_def split: if_splits)
    qed
  qed
  have "tabulate (length blk) (\<lambda>j. if j \<ge> sum_list ?c then m else ?T ! j)
      = tabulate (length blk) (\<lambda>j. if j < sum_list ?c then fst (?sp ! j) else m)"
    by (rule tabulate_guard) (rule conjunct1 [OF pair])
  moreover have "tabulate (length blk) (\<lambda>j. ?R ! j \<and> \<not> j \<ge> sum_list ?c)
      = tabulate (length blk) (\<lambda>j. if j < sum_list ?c then snd (?sp ! j) else False)"
    by (rule tabulate_guard_bool) (rule conjunct2 [OF pair])
  ultimately show ?thesis unfolding apply_edit_row_alt fit_def edit_spec_length by (simp only:)
qed

section \<open>What edits keep\<close>

lemma apply_edit_row_length [simp]:
  "length (fst (apply_edit_row blk old orig pp m d s)) = length blk"
  "length (snd (apply_edit_row blk old orig pp m d s)) = length blk"
  by (simp_all add: apply_edit_row_alt)

text \<open>The contributions of the prompt prefix are its tokens, one each.\<close>

lemma edit_spec_prompt:
  assumes "j < pl" and "j < length blk"
  shows "j < length (edit_spec blk old orig m d s pl)
    \<and> edit_spec blk old orig m d s pl ! j = (blk ! j, False)"
proof -
  let ?f = "edit_contrib blk old orig m d s pl"
  have "[0..<length blk] = [0..<Suc j] @ [Suc j..<length blk]"
    using assms(2) by (intro upt_split) simp
  then have "edit_spec blk old orig m d s pl
      = concat (map ?f [0..<Suc j]) @ concat (map ?f [Suc j..<length blk])"
    by (simp add: edit_spec_def)
  moreover have "concat (map ?f [0..<Suc j]) = map (\<lambda>i. (blk ! i, False)) [0..<Suc j]"
    using assms(1) by (intro concat_map_single) (auto simp: edit_contrib_def)
  ultimately show ?thesis by (simp add: nth_append del: upt_Suc)
qed

lemma apply_edit_row_prompt:
  assumes "d \<noteq> s" and "j < pl" and "j < length blk"
  shows "fst (apply_edit_row blk old orig (prompt_row (length blk) pl) m d s) ! j = blk ! j"
    and "\<not> snd (apply_edit_row blk old orig (prompt_row (length blk) pl) m d s) ! j"
  using edit_spec_prompt [OF assms(2,3), of old orig m d s] assms
  by (simp_all add: apply_edit_row_spec fit_def)

lemma edit_spec_no_control:
  assumes "p \<in> set (concat (map (edit_contrib blk old orig m d s pl) [i..<length blk]))"
    and "pl \<le> i" and "m \<noteq> d" and "m \<noteq> s"
    and "\<And>j. pl \<le> j \<Longrightarrow> j < length blk \<Longrightarrow> old ! j \<noteq> d \<and> old ! j \<noteq> s"
  shows "fst p \<noteq> d \<and> fst p \<noteq> s"
proof -
  obtain j where j: "j \<in> {i..<length blk}" "p \<in> set (edit_contrib blk old orig m d s pl j)"
    using assms(1) by auto
  with assms(2) have "old ! j \<noteq> d \<and> old ! j \<noteq> s" by (intro assms(5)) simp_all
  with j assms(2-4) show ?thesis by (auto simp: edit_contrib_def split: if_splits)
qed

text \<open>
  After the pass no generated position holds DELETE or SPLIT, when the pre-write block held
  none.
\<close>

lemma apply_edit_row_consumes:
  assumes ds: "d \<noteq> s" "m \<noteq> d" "m \<noteq> s"
    and old: "\<And>j. pl \<le> j \<Longrightarrow> j < length blk \<Longrightarrow> old ! j \<noteq> d \<and> old ! j \<noteq> s"
    and j: "pl \<le> j" "j < length blk"
  shows "fst (apply_edit_row blk old orig (prompt_row (length blk) pl) m d s) ! j \<notin> {d, s}"
proof -
  let ?f = "edit_contrib blk old orig m d s pl" and ?sp = "edit_spec blk old orig m d s pl"
  have pl: "pl \<le> length blk" using j by simp
  have split: "[0..<length blk] = [0..<pl] @ [pl..<length blk]"
    using pl by (intro upt_split) simp
  have pre: "concat (map ?f [0..<pl]) = map (\<lambda>i. (blk ! i, False)) [0..<pl]"
    by (rule concat_map_single) (simp add: edit_contrib_def)
  have sp: "?sp = map (\<lambda>i. (blk ! i, False)) [0..<pl] @ concat (map ?f [pl..<length blk])"
    by (simp add: edit_spec_def split pre)
  show ?thesis
  proof (cases "j < length ?sp")
    case True
    then have "?sp ! j \<in> set (concat (map ?f [pl..<length blk]))"
      using j by (auto simp: sp nth_append simp del: set_concat)
    from edit_spec_no_control [OF this order_refl ds(2,3) old]
    show ?thesis using True j ds by (simp add: apply_edit_row_spec fit_def)
  next
    case False
    then show ?thesis using j ds by (simp add: apply_edit_row_spec fit_def)
  qed
qed

text \<open>A block without DELETE and SPLIT is left as it is.\<close>

lemma apply_edit_row_id:
  assumes ds: "d \<noteq> s"
    and clean: "\<And>j. pl \<le> j \<Longrightarrow> j < length blk \<Longrightarrow> blk ! j \<noteq> d \<and> blk ! j \<noteq> s"
  shows "fst (apply_edit_row blk old orig (prompt_row (length blk) pl) m d s) = blk"
proof -
  have "edit_spec blk old orig m d s pl
      = map (\<lambda>i. (blk ! i, (\<not> i < pl) \<and> orig ! i)) [0..<length blk]"
    unfolding edit_spec_def using clean
    by (intro concat_map_single) (simp add: edit_contrib_def)
  then show ?thesis using ds
    by (simp add: apply_edit_row_spec fit_def tabulate_eq_self)
qed

section \<open>Properties\<close>

text \<open>
  C19: On every batch of blocks, the fixed-shape program that the decoder runs
  (\<open>apply_edit_operations_batched\<close>) computes exactly the tokens and the tracking rows
  of the scalar loop \<open>apply_edit_operations\<close> run row by row, with the prompt of each row
  opaque to edits.
\<close>

theorem edit_batched_eq_scalar:
  assumes "delete_id \<noteq> split_id"
    and "\<forall>r < length blk. length (old ! r) = length (blk ! r) \<and> length (orig ! r) = length (blk ! r)
      \<and> pp ! r = tabulate (length (blk ! r)) (\<lambda>i. i < pl r)"
  shows "apply_edit_operations_batched blk old orig pp mask_id delete_id split_id
    = tabulate (length blk) (\<lambda>r. apply_edit_operations (blk ! r) (old ! r) (orig ! r) mask_id
        (length (blk ! r)) delete_id split_id (pl r))"
  unfolding apply_edit_operations_batched_def
  using assms by (intro tabulate_cong) (simp add: apply_edit_row_spec apply_edit_operations_spec)

theorem edit_batched_eq_scalar_witness:
  "apply_edit_operations_batched [[7, 91, 92, 5], [92, 92, 91, 8]] [[7, 3, 4, 5], [9, 1, 2, 90]]
     [[False, True, True, False], [False, True, False, True]]
     [[True, False, False, False], [False, False, False, False]] 90 91 92
   = [apply_edit_operations [7, 91, 92, 5] [7, 3, 4, 5] [False, True, True, False] 90 4 91 92 1,
      apply_edit_operations [92, 92, 91, 8] [9, 1, 2, 90] [False, True, False, True] 90 4 91 92 0]
   \<and> apply_edit_operations [7, 91, 92, 5] [7, 3, 4, 5] [False, True, True, False] 90 4 91 92 1
     = ([7, 90, 4, 5], [False, False, True, False])"
  using edit_batched_eq_scalar [of 91 92 "[[7, 91, 92, 5], [92, 92, 91, 8]]"
      "[[7, 3, 4, 5], [9, 1, 2, 90]]"
      "[[False, True, True, False], [False, True, False, True]]"
      "[[True, False, False, False], [False, False, False, False]]" "\<lambda>r. if r = 0 then 1 else 0" 90]
  by (simp add: tabulate_def upt_rec less_Suc_eq all_less_two apply_edit_operations_def)

end
