(* ===== verification/Levenshtein.thy ===== *)
theory Levenshtein
  imports Edit_Operations
begin

text \<open>
  The LLaDA2.2 refinement step (\<open>execution/decoders/llada/levenshtein.py\<close>): the fixed-shape
  program \<open>levenshtein_graph_step\<close> on one row, the per-row state with its reset at a new
  block and its commit after a step, the decoder's constructor checks, the eager
  \<open>batch_decode\<close> and the debug check.  The row softmax of the tensor library is the
  argument \<open>sm\<close>; nothing is assumed about it.  The results: prompt tokens are never
  changed, edit tokens never survive a step, a finalized block has no masks left, finalized
  rows are inert, and every block finishes within \<open>max_block_iters\<close> iterations whatever
  logits the model returns.
\<close>

section \<open>Decoder and row state\<close>

record lev_decoder =
  mask_id :: token
  delete_token_id :: token
  split_token_id :: token
  threshold :: rat
  editing_threshold :: rat
  steps :: nat
  max_post_steps :: nat
  max_steps_per_block :: nat

text \<open>One row of \<open>LevenshteinRowState\<close>; \<open>history\<close> is the length of \<open>seen_blocks\<close>.\<close>

record lev_row =
  block_start :: int
  is_original_mask :: "bool list"
  initial_mask_count :: nat
  step_id :: nat
  post_steps :: nat
  finalized :: bool
  seen_blocks :: "token list list"
  seen_count :: nat

text \<open>What one step returns: the new block, the updated row fields and the predicates.\<close>

record lev_out =
  new_block :: "token list"
  out_original :: "bool list"
  out_step_id :: nat
  out_post_steps :: nat
  out_finalized :: bool
  out_seen_count :: nat
  block_result :: "token list"
  history_append :: bool
  had_mask :: bool
  changed :: bool
  block_finished :: bool

text \<open>The checks of \<open>LevenshteinJointDecoder.__init__\<close> (the temperature is an argument).\<close>

definition lev_init ::
  "rat \<Rightarrow> rat \<Rightarrow> rat \<Rightarrow> token \<Rightarrow> token \<Rightarrow> token \<Rightarrow> int \<Rightarrow> int \<Rightarrow> int \<Rightarrow> lev_decoder result" where
  "lev_init thr ethr temperature mid did sid n_steps n_post n_block =
     (if temperature \<noteq> 0 then Inl (ValueError ''LevenshteinJointDecoder only supports temperature=0'')
      else if \<not> (0 \<le> thr \<and> thr \<le> 1) then Inl (ValueError ''threshold must be in [0, 1]'')
      else if \<not> (0 \<le> ethr \<and> ethr \<le> 1) then Inl (ValueError ''editing_threshold must be in [0, 1]'')
      else if n_steps < 1 then Inl (ValueError ''steps must be >= 1'')
      else if n_post < 0 then Inl (ValueError ''max_post_steps must be non-negative'')
      else if n_block < 2 then Inl (ValueError ''max_steps_per_block must be >= 2'')
      else Inr \<lparr> mask_id = mid, delete_token_id = did, split_token_id = sid, threshold = thr,
                 editing_threshold = ethr, steps = nat n_steps, max_post_steps = nat n_post,
                 max_steps_per_block = nat n_block \<rparr>)"

definition max_block_iters :: "lev_decoder \<Rightarrow> nat" where
  "max_block_iters D = max_steps_per_block D + 1"

text \<open>\<open>make_row_state\<close>: the fresh row of \<open>LevenshteinRowState\<close>.\<close>

definition fresh_lev_row :: "lev_decoder \<Rightarrow> nat \<Rightarrow> lev_row" where
  "fresh_lev_row D block_length =
     \<lparr> block_start = -1, is_original_mask = replicate block_length False, initial_mask_count = 0,
       step_id = 0, post_steps = 0, finalized = False,
       seen_blocks = replicate (max_block_iters D) (replicate block_length 0), seen_count = 0 \<rparr>"

text \<open>The padding rows of \<open>graph_extra_buffers\<close>: a fresh row with \<open>finalized\<close> set.\<close>

definition graph_padding_row :: "lev_decoder \<Rightarrow> nat \<Rightarrow> lev_row" where
  "graph_padding_row D block_length = (fresh_lev_row D block_length)\<lparr>finalized := True\<rparr>"

section \<open>The schedule and the history\<close>

definition m2t_schedule_need :: "nat \<Rightarrow> nat \<Rightarrow> nat \<Rightarrow> nat" where
  "m2t_schedule_need initial_count n_steps step =
     (if step \<ge> n_steps then initial_count
      else initial_count div n_steps + (if step < initial_count mod n_steps then 1 else 0))"

definition block_seen :: "token list \<Rightarrow> token list list \<Rightarrow> nat \<Rightarrow> bool" where
  "block_seen blk seen count = list_ex (\<lambda>k. k < count \<and> seen ! k = blk) [0..<length seen]"

section \<open>The parts of the step\<close>

definition lev_mask_index :: "lev_decoder \<Rightarrow> token list \<Rightarrow> bool list \<Rightarrow> bool list" where
  "lev_mask_index D x_block prompt_positions =
     tabulate (length x_block) (\<lambda>i. x_block ! i = mask_id D \<and> \<not> prompt_positions ! i)"

text \<open>Masks of this block that were masks at its start, and masks inserted since.\<close>

definition lev_original_cnt :: "bool list \<Rightarrow> bool list \<Rightarrow> nat" where
  "lev_original_cnt mask_index is_orig =
     tsum (tabulate (length mask_index) (\<lambda>i. mask_index ! i \<and> is_orig ! i))"

definition lev_new_cnt :: "bool list \<Rightarrow> bool list \<Rightarrow> nat" where
  "lev_new_cnt mask_index is_orig = tsum mask_index - lev_original_cnt mask_index is_orig"

definition lev_post_steps :: "bool list \<Rightarrow> lev_row \<Rightarrow> nat" where
  "lev_post_steps mask_index st =
     (if \<not> finalized st
      then (if lev_original_cnt mask_index (is_original_mask st) = 0 then post_steps st + 1 else 0)
      else post_steps st)"

text \<open>\<open>logits[..., mask_id] = -inf\<close>, the greedy candidate and its probability.\<close>

definition mask_out :: "lev_decoder \<Rightarrow> flt list list \<Rightarrow> flt list list" where
  "mask_out D logits = map (\<lambda>row. row[mask_id D := NegInf]) logits"

definition greedy :: "flt list list \<Rightarrow> token list" where
  "greedy logits = map argmax logits"

definition greedy_prob :: "(flt list \<Rightarrow> rat list) \<Rightarrow> flt list list \<Rightarrow> flt list" where
  "greedy_prob sm logits =
     tabulate (length logits) (\<lambda>i. Fin (sm (logits ! i) ! (greedy logits ! i)))"

text \<open>The second choice, and the choice without edit tokens.\<close>

definition second_choice :: "flt list list \<Rightarrow> token list" where
  "second_choice logits = map (\<lambda>row. argmax (row[argmax row := NegInf])) logits"

definition non_edit_choice :: "lev_decoder \<Rightarrow> flt list list \<Rightarrow> token list" where
  "non_edit_choice D logits =
     map (\<lambda>row. argmax (row[delete_token_id D := NegInf, split_token_id D := NegInf])) logits"

text \<open>Mask-to-token selection with the schedule floor.\<close>

definition lev_m2t :: "lev_decoder \<Rightarrow> bool list \<Rightarrow> flt list \<Rightarrow> lev_row \<Rightarrow> bool list" where
  "lev_m2t D mask_index x0_p st =
     (let L = length mask_index;
          mask_conf = tabulate L (\<lambda>i. if mask_index ! i then x0_p ! i else NegInf);
          high_conf = tabulate L (\<lambda>i. mask_conf ! i > Fin (threshold D) \<and> mask_index ! i);
          schedule = initial_mask_count st div steps D
            + (if step_id st < initial_mask_count st mod steps D then 1 else 0);
          num_need = schedule + lev_new_cnt mask_index (is_original_mask st);
          n_take = min num_need (tsum mask_index);
          rank = argsort (argsort_desc mask_conf);
          by_rank = tabulate L (\<lambda>i. rank ! i < n_take);
          m2t = (if tsum high_conf \<ge> num_need then high_conf else by_rank);
          m2t = (if step_id st \<ge> steps D then mask_index else m2t)
      in tabulate L (\<lambda>i. m2t ! i \<and> \<not> finalized st \<and> any_row mask_index))"

definition lev_t2t ::
  "lev_decoder \<Rightarrow> bool list \<Rightarrow> bool list \<Rightarrow> token list \<Rightarrow> flt list \<Rightarrow> token list \<Rightarrow> bool list" where
  "lev_t2t D mask_index prompt_positions x0 x0_p x_block =
     tabulate (length x_block) (\<lambda>i.
       \<not> mask_index ! i \<and> \<not> prompt_positions ! i \<and> x0_p ! i > Fin (editing_threshold D)
       \<and> x0 ! i \<noteq> x_block ! i)"

definition lev_final_round ::
  "lev_decoder \<Rightarrow> bool list \<Rightarrow> bool list \<Rightarrow> lev_row \<Rightarrow> bool" where
  "lev_final_round D mask_index m2t st =
     (let remaining = tabulate (length mask_index) (\<lambda>i. mask_index ! i \<and> is_original_mask st ! i);
          spent = (if max_post_steps D > 0 then lev_post_steps mask_index st \<ge> max_post_steps D
            else any_row remaining
              \<and> tsum (tabulate (length mask_index) (\<lambda>i. remaining ! i \<and> \<not> m2t ! i)) = 0)
      in (spent \<or> step_id st \<ge> max_steps_per_block D - 1) \<and> \<not> finalized st)"

text \<open>The anti-loop escape: a bounded retry while the block repeats a recorded one.\<close>

fun lev_escape ::
  "nat \<Rightarrow> token list \<Rightarrow> flt list \<Rightarrow> token list \<Rightarrow> token list \<Rightarrow> lev_row \<Rightarrow> bool \<Rightarrow> token list
    \<Rightarrow> token list" where
  "lev_escape 0 x_block x0_p top1 top2 st escapable blk = blk"
| "lev_escape (Suc n) x_block x0_p top1 top2 st escapable blk =
     (let repeating = block_seen blk (seen_blocks st) (seen_count st);
          changed_pos = tabulate (length blk) (\<lambda>i. blk ! i \<noteq> x_block ! i);
          pos = argmin (tabulate (length blk) (\<lambda>i. if changed_pos ! i then x0_p ! i else PosInf));
          resample = (repeating \<and> escapable \<and> any_row changed_pos);
          current = blk ! pos;
          replacement = (if current = top1 ! pos then top2 ! pos else top1 ! pos)
      in lev_escape n x_block x0_p top1 top2 st escapable
           (blk[pos := (if resample then replacement else current)]))"

text \<open>The block after the writes and the escape, before edit tokens are consumed.\<close>

definition lev_written ::
  "(flt list \<Rightarrow> rat list) \<Rightarrow> lev_decoder \<Rightarrow> flt list list \<Rightarrow> token list \<Rightarrow> bool list \<Rightarrow> lev_row
    \<Rightarrow> token list \<times> bool" where
  "lev_written sm D logits x_block prompt_positions st =
     (let L = length x_block;
          mask_index = lev_mask_index D x_block prompt_positions;
          lg = mask_out D logits;
          x0 = greedy lg;
          x0_p = greedy_prob sm lg;
          m2t = lev_m2t D mask_index x0_p st;
          t2t = lev_t2t D mask_index prompt_positions x0 x0_p x_block;
          final_round = lev_final_round D mask_index m2t st;
          m2t = (if final_round then mask_index else m2t);
          alt_x0 = non_edit_choice D lg;
          x0' = tabulate L (\<lambda>i. if final_round \<and> (m2t ! i \<or> t2t ! i)
              \<and> (x0 ! i = delete_token_id D \<or> x0 ! i = split_token_id D)
            then alt_x0 ! i else x0 ! i);
          blk = tabulate L (\<lambda>i. if (m2t ! i \<or> t2t ! i) \<and> \<not> finalized st
            then x0' ! i else x_block ! i)
      in (lev_escape 5 x_block x0_p x0 (second_choice lg) st
            (\<not> finalized st \<and> \<not> final_round) blk, final_round))"

text \<open>One row of \<open>levenshtein_graph_step\<close>.\<close>

definition levenshtein_graph_step ::
  "(flt list \<Rightarrow> rat list) \<Rightarrow> lev_decoder \<Rightarrow> flt list list \<Rightarrow> token list \<Rightarrow> bool list \<Rightarrow> lev_row
    \<Rightarrow> lev_out" where
  "levenshtein_graph_step sm D logits x_block prompt_positions st =
     (let active = (\<not> finalized st);
          (blk, final_round) = lev_written sm D logits x_block prompt_positions st;
          (edited, tracking) = apply_edit_row blk x_block (is_original_mask st) prompt_positions
             (mask_id D) (delete_token_id D) (split_token_id D);
          nb = (if active then edited else blk);
          hm = any_row (tabulate (length x_block) (\<lambda>i. x_block ! i = mask_id D));
          ch = any_row (tabulate (length x_block) (\<lambda>i. nb ! i \<noteq> x_block ! i))
      in \<lparr> new_block = nb,
           out_original = (if active then tracking else is_original_mask st),
           out_step_id = step_id st + (if active then 1 else 0),
           out_post_steps =
             lev_post_steps (lev_mask_index D x_block prompt_positions) st,
           out_finalized = (finalized st \<or> final_round),
           out_seen_count = seen_count st,
           block_result = blk,
           history_append = active,
           had_mask = hm, changed = ch, block_finished = (\<not> hm \<and> \<not> ch) \<rparr>)"

section \<open>Row state across steps\<close>

definition begin_block_row :: "lev_decoder \<Rightarrow> int \<Rightarrow> token list \<Rightarrow> lev_row \<Rightarrow> lev_row" where
  "begin_block_row D bstart x_block st =
     (let is_new = (block_start st \<noteq> bstart);
          is_mask = tabulate (length x_block) (\<lambda>i. x_block ! i = mask_id D);
          count = tsum is_mask
      in st\<lparr> is_original_mask := (if is_new then is_mask else is_original_mask st),
             initial_mask_count := (if is_new then count else initial_mask_count st),
             step_id := (if is_new then 0 else step_id st),
             post_steps := (if is_new then 0 else post_steps st),
             finalized := (if is_new then count = 0 else finalized st),
             block_start := (if is_new then bstart else block_start st),
             seen_count := (if is_new then 0 else seen_count st) \<rparr>)"

definition commit_row_state :: "lev_out \<Rightarrow> lev_row \<Rightarrow> lev_row" where
  "commit_row_state out st =
     (let history = length (seen_blocks st);
          slot = min (out_seen_count out) (history - 1)
      in st\<lparr> is_original_mask := out_original out,
             step_id := out_step_id out,
             post_steps := out_post_steps out,
             finalized := out_finalized out,
             seen_blocks := (seen_blocks st)[slot :=
               (if history_append out then block_result out else seen_blocks st ! slot)],
             seen_count := min (out_seen_count out + (if history_append out then 1 else 0)) history \<rparr>)"

text \<open>\<open>_check_state\<close> on one row in a single process (the cross-rank digest is not modelled).\<close>

definition lev_check_state ::
  "lev_decoder \<Rightarrow> lev_row \<Rightarrow> token list \<Rightarrow> token list \<Rightarrow> bool list \<Rightarrow> unit result" where
  "lev_check_state D st before after prompt_positions =
     (if any_row (tabulate (length before) (\<lambda>i. prompt_positions ! i \<and> before ! i \<noteq> after ! i))
      then Inl (RuntimeError ''LLaDA2.2 edit changed prompt tokens'')
      else if any_row (tabulate (length after) (\<lambda>i. \<not> prompt_positions ! i
          \<and> (after ! i = delete_token_id D \<or> after ! i = split_token_id D)))
      then Inl (RuntimeError ''LLaDA2.2 left an unconsumed edit token'')
      else if any_row (tabulate (length after) (\<lambda>i. after ! i = mask_id D
          \<and> \<not> prompt_positions ! i \<and> finalized st))
      then Inl (RuntimeError ''LLaDA2.2 finalized a block with residual masks'')
      else Inr ())"

text \<open>The window of a row that a block covers, clamped to the last column.\<close>

definition gather_window :: "token list \<Rightarrow> nat \<Rightarrow> nat \<Rightarrow> token list" where
  "gather_window row bstart block_length =
     tabulate block_length (\<lambda>i. row ! min (bstart + i) (length row - 1))"

definition scatter_window :: "token list \<Rightarrow> nat \<Rightarrow> token list \<Rightarrow> token list" where
  "scatter_window row bstart blk =
     scatter row (tabulate (length blk) (\<lambda>i. min (bstart + i) (length row - 1))) blk"

text \<open>
  \<open>LevenshteinJointDecoder.batch_decode\<close> on one selected row: the row's tokens, its block
  start and prompt length, and its entry of the runner-owned row state.
\<close>

definition lev_decode_row ::
  "(flt list \<Rightarrow> rat list) \<Rightarrow> lev_decoder \<Rightarrow> bool \<Rightarrow> flt list list \<Rightarrow> nat \<Rightarrow> nat \<Rightarrow> nat
    \<Rightarrow> token list \<times> lev_row \<Rightarrow> (token list \<times> lev_row \<times> lev_out) result" where
  "lev_decode_row sm D debug_checks logits bstart block_length prompt_length rs =
     (let (row, st) = rs;
          x_block = gather_window row bstart block_length;
          prompt_positions = tabulate block_length (\<lambda>i. bstart + i < prompt_length);
          st1 = begin_block_row D (int bstart) x_block st;
          out = levenshtein_graph_step sm D logits x_block prompt_positions st1;
          st2 = commit_row_state out st1;
          row' = scatter_window row bstart (new_block out)
      in if debug_checks
         then result_bind (lev_check_state D st2 x_block (new_block out) prompt_positions)
                (\<lambda>_. Inr (row', st2, out))
         else Inr (row', st2, out))"

text \<open>
  The whole batch: \<open>x.data\<close> holds the selected rows, \<open>seq_ids\<close> their places in the row
  state.  A missing argument raises before anything is written.
\<close>

definition lev_batch_decode ::
  "(flt list \<Rightarrow> rat list) \<Rightarrow> lev_decoder \<Rightarrow> bool \<Rightarrow> flt list list list \<Rightarrow> nat list \<Rightarrow> token list list
    \<Rightarrow> nat \<Rightarrow> nat list option \<Rightarrow> lev_row list option \<Rightarrow> nat list option
    \<Rightarrow> (token list list \<times> lev_row list) result" where
  "lev_batch_decode sm D debug_checks logits block_starts rows block_length
       prompt_lengths row_state seq_ids =
     (case (prompt_lengths, row_state, seq_ids) of
        (Some pls, Some sts, Some sids) \<Rightarrow>
          result_fold (\<lambda>j (rs, ss).
              result_bind (lev_decode_row sm D debug_checks (logits ! j) (block_starts ! j)
                  block_length (pls ! j) (rs ! j, ss ! (sids ! j)))
                (\<lambda>(row', st', out). Inr (rs[j := row'], ss[sids ! j := st'])))
            [0..<length rows] (rows, sts)
      | _ \<Rightarrow> Inl (ValueError ''batch_decode requires prompt_lengths, row_state, and seq_ids''))"

text \<open>
  The refinement loop of one row on one block, as the runner drives it: one step and one commit
  per forward pass.  The logits of the passes are given as a list.
\<close>

fun lev_run ::
  "(flt list \<Rightarrow> rat list) \<Rightarrow> lev_decoder \<Rightarrow> bool list \<Rightarrow> flt list list list \<Rightarrow> token list \<times> lev_row
    \<Rightarrow> token list \<times> lev_row" where
  "lev_run sm D pp [] xs = xs"
| "lev_run sm D pp (lg # lgs) (x, st) =
     (let out = levenshtein_graph_step sm D lg x pp st
      in lev_run sm D pp lgs (new_block out, commit_row_state out st))"

section \<open>Well-formed inputs\<close>

text \<open>The token ids are distinct, as the checkpoint's vocabulary has them.\<close>

definition lev_ids_ok :: "lev_decoder \<Rightarrow> bool" where
  "lev_ids_ok D = (delete_token_id D \<noteq> split_token_id D \<and> mask_id D \<noteq> delete_token_id D
     \<and> mask_id D \<noteq> split_token_id D)"

text \<open>Every position has a logit above \<open>-inf\<close> for an ordinary token.\<close>

definition usable_row :: "lev_decoder \<Rightarrow> flt list \<Rightarrow> bool" where
  "usable_row D row = list_ex (\<lambda>v. v \<noteq> mask_id D \<and> v \<noteq> delete_token_id D
     \<and> v \<noteq> split_token_id D \<and> row ! v \<noteq> NegInf) [0..<length row]"

definition usable_logits :: "lev_decoder \<Rightarrow> nat \<Rightarrow> flt list list \<Rightarrow> bool" where
  "usable_logits D n logits = (length logits = n \<and> list_all (usable_row D) logits)"

text \<open>No generated position holds an edit token; the prompt prefix holds no mask.\<close>

definition clean_block :: "lev_decoder \<Rightarrow> nat \<Rightarrow> token list \<Rightarrow> bool" where
  "clean_block D pl x = list_all (\<lambda>i. pl \<le> i \<longrightarrow>
     x ! i \<noteq> delete_token_id D \<and> x ! i \<noteq> split_token_id D) [0..<length x]"

definition unmasked_from :: "lev_decoder \<Rightarrow> nat \<Rightarrow> token list \<Rightarrow> bool" where
  "unmasked_from D k x = list_all (\<lambda>i. k \<le> i \<longrightarrow> x ! i \<noteq> mask_id D) [0..<length x]"

definition unmasked_prompt :: "lev_decoder \<Rightarrow> nat \<Rightarrow> token list \<Rightarrow> bool" where
  "unmasked_prompt D pl x = list_all (\<lambda>i. i < pl \<longrightarrow> x ! i \<noteq> mask_id D) [0..<length x]"

lemma clean_block_iff:
  "clean_block D pl x \<longleftrightarrow> (\<forall>i < length x. pl \<le> i \<longrightarrow>
     x ! i \<noteq> delete_token_id D \<and> x ! i \<noteq> split_token_id D)"
  by (auto simp: clean_block_def list_all_iff)

lemma unmasked_from_iff:
  "unmasked_from D k x \<longleftrightarrow> (\<forall>i < length x. k \<le> i \<longrightarrow> x ! i \<noteq> mask_id D)"
  by (auto simp: unmasked_from_def list_all_iff)

lemma unmasked_prompt_iff:
  "unmasked_prompt D pl x \<longleftrightarrow> (\<forall>i < length x. i < pl \<longrightarrow> x ! i \<noteq> mask_id D)"
  by (auto simp: unmasked_prompt_def list_all_iff)

section \<open>Candidates\<close>

lemma argmax_update_avoids:
  assumes "v < length xs" and "xs ! v \<noteq> NegInf" and "xs ! k = NegInf"
  shows "argmax xs \<noteq> k"
  using argmax_avoids_NegInf [OF assms(1,2)] assms(3) by auto

lemma usable_rowE:
  assumes "usable_row D row"
  obtains v where "v < length row" "v \<noteq> mask_id D" "v \<noteq> delete_token_id D"
    "v \<noteq> split_token_id D" "row ! v \<noteq> NegInf"
  using assms by (auto simp: usable_row_def list_ex_iff)

lemma argmax_update_neq:
  assumes "v < length xs" and "v \<noteq> k" and "xs ! v \<noteq> NegInf"
  shows "argmax (xs[k := NegInf]) \<noteq> k"
proof (cases "k < length xs")
  case True
  with assms show ?thesis by (intro argmax_update_avoids [of v]) simp_all
next
  case False
  then have "xs[k := NegInf] = xs" by (simp add: list_update_beyond)
  moreover have "argmax xs < length xs" using assms by (intro argmax_less) auto
  ultimately show ?thesis using False by auto
qed

lemma greedy_not_mask:
  "usable_row D row \<Longrightarrow> argmax (row[mask_id D := NegInf]) \<noteq> mask_id D"
  by (metis usable_rowE argmax_update_neq)

lemma non_edit_ordinary:
  assumes "usable_row D row"
  shows "argmax (row[mask_id D := NegInf, delete_token_id D := NegInf, split_token_id D := NegInf])
    \<notin> {mask_id D, delete_token_id D, split_token_id D}"
proof -
  from assms obtain v where v: "v < length row" "v \<noteq> mask_id D" "v \<noteq> delete_token_id D"
    "v \<noteq> split_token_id D" "row ! v \<noteq> NegInf" by (rule usable_rowE)
  let ?r = "row[mask_id D := NegInf, delete_token_id D := NegInf, split_token_id D := NegInf]"
  have r_v: "?r ! v \<noteq> NegInf" "v < length ?r" using v by simp_all
  have "argmax ?r < length ?r" using r_v by (intro argmax_less) auto
  moreover have "k < length ?r \<Longrightarrow> ?r ! k = NegInf"
    if "k \<in> {mask_id D, delete_token_id D, split_token_id D}" for k
    using that by (auto simp: nth_update_if)
  ultimately show ?thesis using argmax_avoids_NegInf [OF r_v(2,1)] by blast
qed

section \<open>The selected positions\<close>

lemma lev_mask_index_simps [simp]:
  "length (lev_mask_index D x pp) = length x"
  "i < length x \<Longrightarrow> lev_mask_index D x pp ! i = (x ! i = mask_id D \<and> \<not> pp ! i)"
  by (simp_all add: lev_mask_index_def)

lemma greedy_prob_simps [simp]:
  "length (greedy_prob sm lg) = length lg"
  "i < length lg \<Longrightarrow> greedy_prob sm lg ! i = Fin (sm (lg ! i) ! (greedy lg ! i))"
  by (simp_all add: greedy_prob_def)

lemma length_lev_m2t [simp]: "length (lev_m2t D mi xp st) = length mi"
  by (simp add: lev_m2t_def Let_def)

lemma lev_m2t_masked:
  assumes fin: "\<And>i. i < length mi \<Longrightarrow> xp ! i \<noteq> NegInf"
    and i: "i < length mi" and sel: "lev_m2t D mi xp st ! i"
  shows "mi ! i"
proof -
  let ?L = "length mi"
  let ?mc = "tabulate ?L (\<lambda>i. if mi ! i then xp ! i else NegInf)"
  have conf: "?mc ! j \<noteq> NegInf \<longleftrightarrow> mi ! j" if "j < ?L" for j
    using that fin [OF that] by simp
  have cnt: "card {i. i < length ?mc \<and> ?mc ! i \<noteq> NegInf} = tsum mi"
    unfolding tsum_card by (rule arg_cong [where f = card]) (use fin in \<open>auto split: if_splits\<close>)
  have "mi ! i" if "argsort (argsort_desc ?mc) ! i < min n (tsum mi)" for n
  proof -
    have "?mc ! i \<noteq> NegInf"
      by (rule top_ranked_above_NegInf [of "min n (tsum mi)"]) (use cnt that i in simp_all)
    with conf [OF i] show ?thesis by simp
  qed
  with sel i show ?thesis by (auto simp: lev_m2t_def Let_def split: if_splits)
qed

lemma lev_m2t_finalized: "finalized st \<Longrightarrow> i < length mi \<Longrightarrow> \<not> lev_m2t D mi xp st ! i"
  by (simp add: lev_m2t_def Let_def)

lemma lev_final_round_active: "lev_final_round D mi m2t st \<Longrightarrow> \<not> finalized st"
  by (simp add: lev_final_round_def Let_def)

lemma lev_final_round_cap:
  "\<not> finalized st \<Longrightarrow> max_steps_per_block D - 1 \<le> step_id st \<Longrightarrow> lev_final_round D mi m2t st"
  by (simp add: lev_final_round_def Let_def)

section \<open>The escape\<close>

lemma lev_escape_inert: "lev_escape n x xp t1 t2 st False blk = blk"
  by (induction n arbitrary: blk) (simp_all add: Let_def)

lemma length_lev_escape [simp]: "length (lev_escape n x xp t1 t2 st e blk) = length blk"
  by (induction n arbitrary: blk) (simp_all add: Let_def)

text \<open>The escape resamples changed positions only.\<close>

lemma lev_escape_unchanged:
  assumes "\<And>i. i < length x \<Longrightarrow> xp ! i < PosInf" and "length blk = length x"
    and "i < length x" and "blk ! i = x ! i"
  shows "lev_escape n x xp t1 t2 st e blk ! i = x ! i"
  using assms(2,4)
proof (induction n arbitrary: blk)
  case 0
  then show ?case by simp
next
  case (Suc n)
  let ?cp = "tabulate (length blk) (\<lambda>i. blk ! i \<noteq> x ! i)"
  let ?key = "tabulate (length blk) (\<lambda>i. if ?cp ! i then xp ! i else PosInf)"
  let ?pos = "argmin ?key"
  have other: "?pos \<noteq> i" if any: "any_row ?cp"
  proof
    assume pos: "?pos = i"
    obtain j where j: "j < length blk" "blk ! j \<noteq> x ! j"
      using any by (auto simp: any_row_iff)
    have "(if ?cp ! ?pos then xp ! ?pos else PosInf) \<le> (if ?cp ! j then xp ! j else PosInf)"
      by (rule argmin_tabulate [OF j(1), where g = "\<lambda>i. if ?cp ! i then xp ! i else PosInf"])
    moreover have "\<not> ?cp ! ?pos" unfolding pos using Suc.prems assms(3) by simp
    moreover have "?cp ! j" "xp ! j < PosInf" using j Suc.prems(1) assms(1) [of j] by simp_all
    ultimately show False by simp
  qed
  have keep: "(blk[?pos := (if block_seen blk (seen_blocks st) (seen_count st) \<and> e \<and> any_row ?cp
      then r else blk ! ?pos)]) ! i = x ! i" for r
    using Suc.prems(2) other by (cases "any_row ?cp") auto
  show ?case unfolding lev_escape.simps Let_def
    by (rule Suc.IH, simp add: Suc.prems(1), rule keep)
qed

section \<open>The written block\<close>

lemma length_lev_written [simp]: "length (fst (lev_written sm D lg x pp st)) = length x"
  by (simp add: lev_written_def Let_def)

lemma lev_written_active: "snd (lev_written sm D lg x pp st) \<Longrightarrow> \<not> finalized st"
  by (auto simp: lev_written_def Let_def dest: lev_final_round_active)

lemma lev_written_finalized:
  assumes "finalized st"
  shows "lev_written sm D lg x pp st = (x, False)"
proof -
  have "\<not> lev_final_round D mi m2t st" for mi m2t
    using assms lev_final_round_active by blast
  with assms show ?thesis
    by (simp add: lev_written_def Let_def lev_escape_inert tabulate_nth)
qed

lemma lev_written_cap:
  "\<not> finalized st \<Longrightarrow> max_steps_per_block D - 1 \<le> step_id st \<Longrightarrow> snd (lev_written sm D lg x pp st)"
  by (simp add: lev_written_def Let_def lev_final_round_cap)

lemma lev_written_prompt:
  assumes len: "length lg = length x" and i: "i < length x" and pp: "pp ! i"
  shows "fst (lev_written sm D lg x pp st) ! i = x ! i"
proof -
  let ?mi = "lev_mask_index D x pp" and ?lg = "mask_out D lg"
  let ?m2t = "lev_m2t D ?mi (greedy_prob sm ?lg) st"
  have lens: "length ?lg = length x" using len by (simp add: mask_out_def)
  have "\<not> ?m2t ! i"
    using lev_m2t_masked [of ?mi "greedy_prob sm ?lg" i D st] i pp lens by auto
  moreover have "greedy_prob sm ?lg ! j < PosInf" if "j < length x" for j
    using that lens by simp
  ultimately show ?thesis
    using i pp by (simp add: lev_written_def Let_def lev_escape_unchanged lev_t2t_def)
qed

lemma lev_written_final:
  assumes us: "usable_logits D (length x) lg" and cl: "clean_block D pl x"
    and fr: "snd (lev_written sm D lg x (prompt_row (length x) pl) st)"
    and i: "i < length x" "pl \<le> i"
  shows "fst (lev_written sm D lg x (prompt_row (length x) pl) st) ! i
    \<notin> {mask_id D, delete_token_id D, split_token_id D}"
proof -
  let ?pp = "prompt_row (length x) pl" and ?lg = "mask_out D lg"
  have row: "usable_row D (lg ! i)" and li: "i < length lg"
    using us i by (auto simp: usable_logits_def list_all_length)
  have x0: "greedy ?lg ! i \<noteq> mask_id D"
    using greedy_not_mask [OF row] li by (simp add: greedy_def mask_out_def)
  have alt: "non_edit_choice D ?lg ! i \<notin> {mask_id D, delete_token_id D, split_token_id D}"
    using non_edit_ordinary [OF row] li by (simp add: non_edit_choice_def mask_out_def)
  have xi: "x ! i \<noteq> delete_token_id D" "x ! i \<noteq> split_token_id D"
    using cl i by (auto simp: clean_block_iff)
  have act: "\<not> finalized st" using fr lev_written_active by blast
  show ?thesis
    using fr i x0 alt xi act by (simp add: lev_written_def Let_def lev_escape_inert)
qed

lemmas lev_written_props =
  lev_written_prompt lev_written_final lev_written_cap lev_written_finalized

section \<open>One step\<close>

lemma lev_step_simps [simp]:
  "out_step_id (levenshtein_graph_step sm D lg x pp st) = step_id st + (if finalized st then 0 else 1)"
  "out_finalized (levenshtein_graph_step sm D lg x pp st)
     = (finalized st \<or> snd (lev_written sm D lg x pp st))"
  "out_seen_count (levenshtein_graph_step sm D lg x pp st) = seen_count st"
  "block_result (levenshtein_graph_step sm D lg x pp st) = fst (lev_written sm D lg x pp st)"
  "history_append (levenshtein_graph_step sm D lg x pp st) = (\<not> finalized st)"
  "out_post_steps (levenshtein_graph_step sm D lg x pp st) = lev_post_steps (lev_mask_index D x pp) st"
  by (simp_all add: levenshtein_graph_step_def Let_def case_prod_unfold)

lemma lev_step_new_block:
  "new_block (levenshtein_graph_step sm D lg x pp st) =
     (if finalized st then fst (lev_written sm D lg x pp st)
      else fst (apply_edit_row (fst (lev_written sm D lg x pp st)) x (is_original_mask st) pp
        (mask_id D) (delete_token_id D) (split_token_id D)))"
  by (simp add: levenshtein_graph_step_def Let_def case_prod_unfold)

lemma lev_step_predicates:
  "had_mask (levenshtein_graph_step sm D lg x pp st) \<longleftrightarrow> (\<exists>i < length x. x ! i = mask_id D)"
  "changed (levenshtein_graph_step sm D lg x pp st) \<longleftrightarrow>
     (\<exists>i < length x. new_block (levenshtein_graph_step sm D lg x pp st) ! i \<noteq> x ! i)"
  "block_finished (levenshtein_graph_step sm D lg x pp st) \<longleftrightarrow>
     \<not> had_mask (levenshtein_graph_step sm D lg x pp st)
     \<and> \<not> changed (levenshtein_graph_step sm D lg x pp st)"
  by (auto simp: levenshtein_graph_step_def Let_def case_prod_unfold any_row_iff)

lemma length_lev_step [simp]: "length (new_block (levenshtein_graph_step sm D lg x pp st)) = length x"
  by (simp add: lev_step_new_block)

lemma lev_step_prompt:
  assumes "lev_ids_ok D" and "length lg = length x" and "i < length x" and "i < pl"
  shows "new_block (levenshtein_graph_step sm D lg x (prompt_row (length x) pl) st) ! i = x ! i"
proof -
  let ?w = "fst (lev_written sm D lg x (prompt_row (length x) pl) st)"
  have w: "?w ! i = x ! i" using assms by (intro lev_written_prompt) simp_all
  have "fst (apply_edit_row ?w x (is_original_mask st) (prompt_row (length x) pl)
      (mask_id D) (delete_token_id D) (split_token_id D)) ! i = ?w ! i"
    using apply_edit_row_prompt(1) [of "delete_token_id D" "split_token_id D" i pl ?w] assms
    by (simp add: lev_ids_ok_def)
  with w show ?thesis by (simp add: lev_step_new_block)
qed

lemma lev_step_clean:
  assumes ids: "lev_ids_ok D" and cl: "clean_block D pl x"
  shows "clean_block D pl (new_block (levenshtein_graph_step sm D lg x (prompt_row (length x) pl) st))"
proof (cases "finalized st")
  case True
  with cl show ?thesis by (simp add: lev_step_new_block lev_written_finalized)
next
  case False
  let ?w = "fst (lev_written sm D lg x (prompt_row (length x) pl) st)"
  have old: "\<And>j. pl \<le> j \<Longrightarrow> j < length ?w \<Longrightarrow>
      x ! j \<noteq> delete_token_id D \<and> x ! j \<noteq> split_token_id D"
    using cl by (auto simp: clean_block_iff)
  have "fst (apply_edit_row ?w x (is_original_mask st) (prompt_row (length x) pl)
      (mask_id D) (delete_token_id D) (split_token_id D)) ! j
      \<notin> {delete_token_id D, split_token_id D}" if "pl \<le> j" "j < length x" for j
    using apply_edit_row_consumes [of "delete_token_id D" "split_token_id D" "mask_id D" pl ?w x j
        "is_original_mask st"] old that ids
    by (simp add: lev_ids_ok_def)
  with False show ?thesis by (auto simp: clean_block_iff lev_step_new_block)
qed

lemma lev_step_finalizes:
  assumes ids: "lev_ids_ok D" and us: "usable_logits D (length x) lg" and cl: "clean_block D pl x"
    and fr: "snd (lev_written sm D lg x (prompt_row (length x) pl) st)"
  shows "unmasked_from D pl (new_block (levenshtein_graph_step sm D lg x (prompt_row (length x) pl) st))"
proof -
  let ?w = "fst (lev_written sm D lg x (prompt_row (length x) pl) st)"
  have w: "?w ! j \<notin> {mask_id D, delete_token_id D, split_token_id D}"
    if "pl \<le> j" "j < length x" for j
    using lev_written_final [OF us cl fr] that by blast
  have "fst (apply_edit_row ?w x (is_original_mask st) (prompt_row (length x) pl)
      (mask_id D) (delete_token_id D) (split_token_id D)) = ?w"
    using apply_edit_row_id [of "delete_token_id D" "split_token_id D" pl ?w x
        "is_original_mask st" "mask_id D"] w ids
    by (simp add: lev_ids_ok_def)
  with w show ?thesis
    using lev_written_active [OF fr] by (auto simp: unmasked_from_iff lev_step_new_block)
qed

lemma lev_step_inert:
  assumes "finalized st"
  shows "new_block (levenshtein_graph_step sm D lg x pp st) = x"
    and "commit_row_state (levenshtein_graph_step sm D lg x pp st) st
      = st\<lparr>seen_count := min (seen_count st) (length (seen_blocks st))\<rparr>"
  using assms
  by (simp_all add: lev_step_new_block lev_written_finalized commit_row_state_def Let_def
      lev_post_steps_def levenshtein_graph_step_def)

lemma commit_simps [simp]:
  "is_original_mask (commit_row_state out st) = out_original out"
  "step_id (commit_row_state out st) = out_step_id out"
  "finalized (commit_row_state out st) = out_finalized out"
  "initial_mask_count (commit_row_state out st) = initial_mask_count st"
  "length (seen_blocks (commit_row_state out st)) = length (seen_blocks st)"
  "block_start (commit_row_state out st) = block_start st"
  by (simp_all add: commit_row_state_def Let_def)

section \<open>Runs\<close>

text \<open>The invariant of a row while its block is refined.\<close>

definition lev_inv :: "lev_decoder \<Rightarrow> nat \<Rightarrow> token list \<Rightarrow> token list \<times> lev_row \<Rightarrow> bool" where
  "lev_inv D pl p xs =
     (length (fst xs) = length p \<and> clean_block D pl (fst xs)
      \<and> list_all (\<lambda>i. i < pl \<longrightarrow> fst xs ! i = p ! i) [0..<length p]
      \<and> (finalized (snd xs) \<longrightarrow> unmasked_from D pl (fst xs)))"

lemma lev_inv_step:
  assumes ids: "lev_ids_ok D" and us: "usable_logits D (length p) lg" and inv: "lev_inv D pl p (x, st)"
    and out_def: "out = levenshtein_graph_step sm D lg x (prompt_row (length p) pl) st"
  shows "lev_inv D pl p (new_block out, commit_row_state out st)"
proof -
  have len: "length x = length p" and cl: "clean_block D pl x"
    and pr: "\<And>i. i < length p \<Longrightarrow> i < pl \<Longrightarrow> x ! i = p ! i"
    and un: "finalized st \<Longrightarrow> unmasked_from D pl x"
    using inv by (auto simp: lev_inv_def list_all_iff)
  note out = out_def [folded len]
  have "clean_block D pl (new_block out)" unfolding out by (rule lev_step_clean [OF ids cl])
  moreover have "new_block out ! i = p ! i" if "i < length p" "i < pl" for i
    using lev_step_prompt [OF ids _ _ that(2), of lg x sm st] that us len pr [OF that]
    by (simp add: out usable_logits_def)
  moreover have "unmasked_from D pl (new_block out)" if "out_finalized out"
  proof (cases "finalized st")
    case True
    then show ?thesis using un by (simp add: out lev_step_inert(1))
  next
    case False
    with that have "snd (lev_written sm D lg x (prompt_row (length x) pl) st)"
      by (simp add: out)
    then show ?thesis unfolding out using us len by (intro lev_step_finalizes [OF ids _ cl]) simp_all
  qed
  moreover have "length (new_block out) = length p" using len by (simp add: out)
  ultimately show ?thesis by (auto simp: lev_inv_def list_all_iff)
qed

lemma lev_inv_run:
  assumes "lev_ids_ok D" and "list_all (usable_logits D (length p)) lgs" and "lev_inv D pl p xs"
  shows "lev_inv D pl p (lev_run sm D (prompt_row (length p) pl) lgs xs)"
  using assms(2,3)
proof (induction lgs arbitrary: xs)
  case Nil
  then show ?case by simp
next
  case (Cons lg lgs)
  obtain x st where xs: "xs = (x, st)" by (cases xs)
  show ?case unfolding xs lev_run.simps Let_def
    by (rule Cons.IH) (use Cons.prems xs lev_inv_step [OF assms(1) _ _ refl] in simp_all)
qed

text \<open>Every active step counts, and the step cap finalizes.\<close>

lemma lev_run_finalizes:
  assumes "finalized (snd xs) \<or> step_id (snd xs) < max_steps_per_block D"
    and "max_steps_per_block D \<le> step_id (snd xs) + length lgs"
  shows "finalized (snd (lev_run sm D pp lgs xs))"
  using assms
proof (induction lgs arbitrary: xs)
  case Nil
  then show ?case by auto
next
  case (Cons lg lgs)
  obtain x st where xs: "xs = (x, st)" by (cases xs)
  let ?out = "levenshtein_graph_step sm D lg x pp st"
  let ?xs' = "(new_block ?out, commit_row_state ?out st)"
  have run: "lev_run sm D pp (lg # lgs) xs = lev_run sm D pp lgs ?xs'"
    by (simp add: xs Let_def)
  show ?case
  proof (cases "finalized st")
    case True
    then have fin: "finalized (snd ?xs')" by simp
    have stay: "finalized (snd ys) \<Longrightarrow> finalized (snd (lev_run sm D pp ks ys))" for ks ys
      by (induction ks arbitrary: ys) (auto simp: Let_def)
    show ?thesis unfolding run by (rule stay [OF fin])
  next
    case False
    have "finalized (snd ?xs') \<or> step_id (snd ?xs') < max_steps_per_block D"
      using lev_written_cap [OF False, of D sm lg x pp] Cons.prems(1) False xs
      by (auto simp: not_le)
    moreover have "max_steps_per_block D \<le> step_id (snd ?xs') + length lgs"
      using Cons.prems(2) xs False by simp
    ultimately show ?thesis unfolding run by (rule Cons.IH)
  qed
qed

lemma begin_block_simps:
  assumes "block_start st \<noteq> b"
  shows "step_id (begin_block_row D b x st) = 0"
    and "finalized (begin_block_row D b x st) \<longleftrightarrow> (\<forall>i < length x. x ! i \<noteq> mask_id D)"
    and "seen_count (begin_block_row D b x st) = 0"
    and "seen_blocks (begin_block_row D b x st) = seen_blocks st"
    and "initial_mask_count (begin_block_row D b x st)
      = tsum (tabulate (length x) (\<lambda>i. x ! i = mask_id D))"
  using assms by (auto simp: begin_block_row_def Let_def tsum_zero_iff any_row_iff)

lemma begin_block_inv:
  assumes "block_start st \<noteq> b" and "clean_block D pl x"
  shows "lev_inv D pl x (x, begin_block_row D b x st)"
  using assms by (auto simp: lev_inv_def list_all_iff begin_block_simps unmasked_from_iff)

section \<open>The schedule floor\<close>

lemma card_rank_less:
  assumes "n \<le> length xs"
  shows "card {i. i < length xs \<and> argsort (argsort_desc xs) ! i < n} = n"
proof -
  let ?o = "argsort_desc xs" and ?r = "\<lambda>i. argsort (argsort_desc xs) ! i"
  have inv: "?r i < length xs" "?o ! ?r i = i" if "i < length xs" for i
    using argsort_inverse [of ?o i] that by simp_all
  have "bij_betw ?r {i. i < length xs \<and> ?r i < n} {0..<n}"
  proof (rule bij_betwI')
    fix a b assume "a \<in> {i. i < length xs \<and> ?r i < n}" "b \<in> {i. i < length xs \<and> ?r i < n}"
    then have ab: "a < length xs" "b < length xs" by simp_all
    show "(?r a = ?r b) = (a = b)"
      by (rule iffI, metis inv(2) [OF ab(1)] inv(2) [OF ab(2)], simp)
  next
    fix a assume "a \<in> {i. i < length xs \<and> ?r i < n}"
    then show "?r a \<in> {0..<n}" by simp
  next
    fix k assume "k \<in> {0..<n}"
    then have k: "k < n" "k < length xs" using assms by simp_all
    then have "?o ! k \<in> set ?o" by (intro nth_mem) simp
    then have ok: "?o ! k < length xs" by simp
    have "?r (?o ! k) = k"
      using inv [OF ok] k nth_eq_iff_index_eq [OF argsort_desc_perm(2), of "?r (?o ! k)" xs k] by simp
    then show "\<exists>a \<in> {i. i < length xs \<and> ?r i < n}. k = ?r a"
      using ok k by (intro bexI [of _ "?o ! k"]) simp_all
  qed
  from bij_betw_same_card [OF this] show ?thesis by simp
qed

lemma lev_m2t_count:
  assumes "\<not> finalized st" and "step_id st < steps D"
  shows "min (m2t_schedule_need (initial_mask_count st) (steps D) (step_id st)
      + lev_new_cnt mi (is_original_mask st)) (tsum mi) \<le> tsum (lev_m2t D mi xp st)"
proof (cases "any_row mi")
  case False
  then show ?thesis by (simp flip: tsum_zero_iff)
next
  case True
  let ?L = "length mi"
  let ?mc = "tabulate ?L (\<lambda>i. if mi ! i then xp ! i else NegInf)"
  let ?hc = "tabulate ?L (\<lambda>i. ?mc ! i > Fin (threshold D) \<and> mi ! i)"
  let ?need = "m2t_schedule_need (initial_mask_count st) (steps D) (step_id st)
      + lev_new_cnt mi (is_original_mask st)"
  have eq: "lev_m2t D mi xp st = (if tsum ?hc \<ge> ?need then ?hc
      else tabulate ?L (\<lambda>i. argsort (argsort_desc ?mc) ! i < min ?need (tsum mi)))"
    using assms True by (auto simp: lev_m2t_def Let_def m2t_schedule_need_def intro!: tabulate_eq_self)
  have "min ?need (tsum mi) \<le> length ?mc" using tsum_le_length [of mi] by simp
  from card_rank_less [OF this]
  have "tsum (tabulate ?L (\<lambda>i. argsort (argsort_desc ?mc) ! i < min ?need (tsum mi)))
      = min ?need (tsum mi)"
    by (simp add: tsum_tabulate)
  then show ?thesis unfolding eq by auto
qed

lemma sum_step_extra: "(\<Sum>k < n. if k < r then 1 else 0 :: nat) = min n r"
  by (induction n) auto

section \<open>The window of a block\<close>

lemma length_scatter_window [simp]: "length (scatter_window row bs b) = length row"
  by (simp add: scatter_window_def)

lemma scatter_window_inside:
  assumes "bs + length b \<le> length row"
  shows "scatter_window row bs b = take bs row @ b @ drop (bs + length b) row"
proof (rule nth_equalityI)
  let ?idx = "tabulate (length b) (\<lambda>i. min (bs + i) (length row - 1))"
  have idx: "?idx ! i = bs + i" if "i < length b" for i using that assms by simp
  fix j assume "j < length (scatter_window row bs b)"
  then have j: "j < length row" by simp
  have out: "scatter row ?idx b ! j = row ! j" if "j < bs \<or> bs + length b \<le> j"
  proof (rule nth_scatter_other)
    fix i assume "i < length ?idx"
    then have "i < length b" by simp
    with idx [OF this] that show "?idx ! i \<noteq> j" by linarith
  qed
  consider "j < bs" | "bs \<le> j" "j < bs + length b" | "bs + length b \<le> j" by linarith
  then show "scatter_window row bs b ! j = (take bs row @ b @ drop (bs + length b) row) ! j"
  proof cases
    case 1
    then show ?thesis using j out by (simp add: scatter_window_def nth_append)
  next
    case 2
    then obtain k where k: "j = bs + k" "k < length b" using le_Suc_ex by auto
    have "scatter row ?idx b ! (?idx ! k) = b ! k"
      by (rule nth_scatter_unique) (use k assms idx in auto)
    then show ?thesis using k assms idx by (simp add: scatter_window_def nth_append)
  next
    case 3
    moreover from 3 have "\<not> j - bs < length b" by linarith
    ultimately show ?thesis using j out assms by (simp add: scatter_window_def nth_append)
  qed
qed (use assms in simp)

section \<open>The history of a block\<close>

text \<open>The pre-edit blocks of the active steps, in order.\<close>

fun lev_results ::
  "(flt list \<Rightarrow> rat list) \<Rightarrow> lev_decoder \<Rightarrow> bool list \<Rightarrow> flt list list list \<Rightarrow> token list \<times> lev_row
    \<Rightarrow> token list list" where
  "lev_results sm D pp [] xs = []"
| "lev_results sm D pp (lg # lgs) (x, st) =
     (let out = levenshtein_graph_step sm D lg x pp st
      in (if history_append out then [block_result out] else [])
         @ lev_results sm D pp lgs (new_block out, commit_row_state out st))"

lemma commit_history:
  assumes "seen_count st < length (seen_blocks st)" and "\<not> finalized st"
    and out_def: "out = levenshtein_graph_step sm D lg x pp st"
  shows "seen_count (commit_row_state out st) = Suc (seen_count st)"
    and "take (Suc (seen_count st)) (seen_blocks (commit_row_state out st))
      = take (seen_count st) (seen_blocks st) @ [block_result out]"
proof -
  have "min (seen_count st) (length (seen_blocks st) - 1) = seen_count st"
    using assms(1) by linarith
  with assms(1,2) show "seen_count (commit_row_state out st) = Suc (seen_count st)"
    and "take (Suc (seen_count st)) (seen_blocks (commit_row_state out st))
      = take (seen_count st) (seen_blocks st) @ [block_result out]"
    by (simp_all add: out_def commit_row_state_def Let_def take_Suc_conv_app_nth)
qed

lemma lev_run_history:
  assumes "finalized (snd xs) \<or> step_id (snd xs) < max_steps_per_block D"
    and "seen_count (snd xs) + (max_steps_per_block D - step_id (snd xs)) \<le> length (seen_blocks (snd xs))"
  shows "take (seen_count (snd (lev_run sm D pp lgs xs))) (seen_blocks (snd (lev_run sm D pp lgs xs)))
      = take (seen_count (snd xs)) (seen_blocks (snd xs)) @ lev_results sm D pp lgs xs"
  using assms
proof (induction lgs arbitrary: xs)
  case Nil
  then show ?case by simp
next
  case (Cons lg lgs)
  obtain x st where xs: "xs = (x, st)" by (cases xs)
  let ?out = "levenshtein_graph_step sm D lg x pp st"
  let ?xs' = "(new_block ?out, commit_row_state ?out st)"
  have run: "lev_run sm D pp (lg # lgs) xs = lev_run sm D pp lgs ?xs'"
    by (simp add: xs Let_def)
  show ?case
  proof (cases "finalized st")
    case True
    have seen: "seen_count st \<le> length (seen_blocks st)" using Cons.prems(2) xs by simp
    then have "?xs' = (x, st)"
      using lev_step_inert [OF True, of sm D lg x pp] by (simp add: min_absorb1)
    with Cons.IH [of ?xs'] Cons.prems True show ?thesis
      unfolding run by (simp add: xs Let_def)
  next
    case False
    then have lt: "seen_count st < length (seen_blocks st)" and sc: "step_id st < max_steps_per_block D"
      using Cons.prems xs by auto
    have h: "seen_count (commit_row_state ?out st) = Suc (seen_count st)"
      "take (Suc (seen_count st)) (seen_blocks (commit_row_state ?out st))
        = take (seen_count st) (seen_blocks st) @ [block_result ?out]"
      by (rule commit_history [OF lt False refl])+
    have "finalized (snd ?xs') \<or> step_id (snd ?xs') < max_steps_per_block D"
      using lev_written_cap [OF False, of D sm lg x pp] sc False by (auto simp: not_le)
    moreover have "seen_count (snd ?xs') + (max_steps_per_block D - step_id (snd ?xs'))
        \<le> length (seen_blocks (snd ?xs'))"
      using Cons.prems(2) xs False h(1) sc by simp
    ultimately show ?thesis
      unfolding run using Cons.IH [of ?xs'] h False by (simp add: xs Let_def)
  qed
qed

section \<open>Properties\<close>

text \<open>The decoder, logits and softmax of the witnesses below.\<close>

definition ex_decoder :: lev_decoder where
  "ex_decoder = \<lparr> mask_id = 3, delete_token_id = 4, split_token_id = 5, threshold = 1/2,
     editing_threshold = 1/2, steps = 2, max_post_steps = 1, max_steps_per_block = 2 \<rparr>"

definition ex_logits :: "flt list list" where
  "ex_logits = [[Fin 1, Fin 0, Fin 0, Fin 9, Fin 0, Fin 0],
                [Fin 0, Fin 0, Fin 2, Fin 0, Fin 7, Fin 0],
                [Fin 0, Fin 3, Fin 2, Fin 0, Fin 0, Fin 1]]"

definition ex_softmax :: "flt list \<Rightarrow> rat list" where
  "ex_softmax row = map (\<lambda>_. 2/3) row"

definition ex_row :: lev_row where
  "ex_row = (fresh_lev_row ex_decoder 3)
     \<lparr>initial_mask_count := 3, is_original_mask := [True, True, True]\<rparr>"

lemma ex_row_simps:
  "finalized ex_row = False" "step_id ex_row = 0" "initial_mask_count ex_row = 3"
  "is_original_mask ex_row = [True, True, True]" "steps ex_decoder = 2"
  by (simp_all add: ex_row_def fresh_lev_row_def ex_decoder_def)

lemma ex_inputs:
  "lev_ids_ok ex_decoder" "usable_logits ex_decoder 3 ex_logits"
  "clean_block ex_decoder 2 [2, 0, 3]" "unmasked_prompt ex_decoder 2 [2, 0, 3]"
  "block_start (fresh_lev_row ex_decoder 3) \<noteq> 0"
  "max_steps_per_block ex_decoder = 2"
  by (simp_all add: lev_ids_ok_def ex_decoder_def usable_logits_def ex_logits_def usable_row_def
      clean_block_def unmasked_prompt_def fresh_lev_row_def upt_rec)

text \<open>
  C20: From the reset at a new block, every block is finished after at most
  \<open>max_block_iters\<close> refinement iterations: whatever logits the model returned in the first
  \<open>max_steps_per_block\<close> passes, the next pass reports \<open>block_finished\<close>, so the loop over a
  block terminates within the bound that the runner uses.
\<close>

theorem lev_block_finishes:
  assumes "lev_ids_ok D" and "2 \<le> max_steps_per_block D"
    and "block_start st \<noteq> b" and "clean_block D pl x" and "unmasked_prompt D pl x"
    and "list_all (usable_logits D (length x)) lgs" and "length lgs + 1 = max_block_iters D"
  shows "case lev_run sm D (tabulate (length x) (\<lambda>i. i < pl)) lgs (x, begin_block_row D b x st) of
    (x', st') \<Rightarrow>
      block_finished (levenshtein_graph_step sm D lg x' (tabulate (length x) (\<lambda>i. i < pl)) st')"
proof -
  let ?pp = "prompt_row (length x) pl" and ?xs = "(x, begin_block_row D b x st)"
  obtain x' st' where run: "lev_run sm D ?pp lgs ?xs = (x', st')" by fastforce
  have inv: "lev_inv D pl x (x', st')"
    using lev_inv_run [OF assms(1,6) begin_block_inv [OF assms(3,4)], of sm] run by simp
  have fin: "finalized st'"
    using lev_run_finalizes [of ?xs D lgs sm ?pp] assms(2,7) run
    by (simp add: max_block_iters_def begin_block_simps [OF assms(3)])
  have "x' ! i \<noteq> mask_id D" if "i < length x'" for i
    using inv assms(5) that fin
    by (cases "i < pl") (auto simp: lev_inv_def list_all_iff unmasked_from_iff unmasked_prompt_iff)
  then show ?thesis
    using lev_step_inert(1) [OF fin] by (simp add: run lev_step_predicates)
qed

theorem lev_block_finishes_witness:
  "case lev_run ex_softmax ex_decoder (tabulate 3 (\<lambda>i. i < 2)) [ex_logits, ex_logits]
       ([2, 0, 3], begin_block_row ex_decoder 0 [2, 0, 3] (fresh_lev_row ex_decoder 3)) of
    (x', st') \<Rightarrow>
      block_finished (levenshtein_graph_step ex_softmax ex_decoder ex_logits x'
        (tabulate 3 (\<lambda>i. i < 2)) st')"
  using lev_block_finishes [of ex_decoder "fresh_lev_row ex_decoder 3" 0 2 "[2, 0, 3]"
      "[ex_logits, ex_logits]" ex_softmax ex_logits]
  by (simp add: ex_inputs max_block_iters_def numeral_3_eq_3 [symmetric] del: lev_run.simps)

text \<open>
  C31: While a block is refined, in every state the loop reaches: the prompt tokens of the block
  are untouched, no generated position holds a DELETE or SPLIT token, and once the row is
  finalized no generated position is masked.
\<close>

theorem lev_run_safe:
  assumes "lev_ids_ok D" and "block_start st \<noteq> b" and "clean_block D pl x"
    and "list_all (usable_logits D (length x)) lgs"
  shows "case lev_run sm D (tabulate (length x) (\<lambda>i. i < pl)) lgs (x, begin_block_row D b x st) of
    (x', st') \<Rightarrow> take pl x' = take pl x \<and> clean_block D pl x'
      \<and> (finalized st' \<longrightarrow> unmasked_from D pl x')"
proof -
  let ?pp = "prompt_row (length x) pl" and ?xs = "(x, begin_block_row D b x st)"
  obtain x' st' where run: "lev_run sm D ?pp lgs ?xs = (x', st')" by fastforce
  have inv: "lev_inv D pl x (x', st')"
    using lev_inv_run [OF assms(1,4) begin_block_inv [OF assms(2,3)], of sm] run by simp
  then have "take pl x' = take pl x"
    by (intro nth_equalityI) (auto simp: lev_inv_def list_all_iff)
  with inv show ?thesis by (simp add: run lev_inv_def)
qed

theorem lev_run_safe_witness:
  "case lev_run ex_softmax ex_decoder (tabulate 3 (\<lambda>i. i < 2)) [ex_logits]
       ([2, 0, 3], begin_block_row ex_decoder 0 [2, 0, 3] (fresh_lev_row ex_decoder 3)) of
    (x', st') \<Rightarrow> take 2 x' = take 2 [2, 0, 3] \<and> clean_block ex_decoder 2 x'
      \<and> (finalized st' \<longrightarrow> unmasked_from ex_decoder 2 x')"
  using lev_run_safe [of ex_decoder "fresh_lev_row ex_decoder 3" 0 2 "[2, 0, 3]"
      "[ex_logits]" ex_softmax]
  by (simp add: ex_inputs numeral_3_eq_3 [symmetric] del: lev_run.simps)

text \<open>
  The debug check never fires: one call of \<open>batch_decode\<close> on a row whose window lies in
  the row keeps the row invariant and returns with \<open>_check_state\<close> enabled, and it writes
  nothing outside the window of the block.
\<close>

lemma lev_decode_row_checked:
  assumes "lev_ids_ok D" and "bstart + n \<le> length row"
    and "usable_logits D n logits"
    and "lev_inv D (pl - bstart) (gather_window row bstart n)
      (gather_window row bstart n, begin_block_row D (int bstart) (gather_window row bstart n) st)"
  shows "\<exists>row' st' out. lev_decode_row sm D True logits bstart n pl (row, st) = Inr (row', st', out)
    \<and> take bstart row' = take bstart row \<and> drop (bstart + n) row' = drop (bstart + n) row
    \<and> gather_window row' bstart n = new_block out
    \<and> lev_inv D (pl - bstart) (gather_window row bstart n) (new_block out, st')"
proof -
  let ?x = "gather_window row bstart n" and ?pp = "tabulate n (\<lambda>i. bstart + i < pl)"
  let ?st1 = "begin_block_row D (int bstart) ?x st"
  let ?out = "levenshtein_graph_step sm D logits ?x ?pp ?st1"
  let ?st2 = "commit_row_state ?out ?st1"
  have lx: "length ?x = n" by (simp add: gather_window_def)
  have pp: "?pp = prompt_row (length ?x) (pl - bstart)"
    unfolding lx by (rule tabulate_cong) auto
  have inv: "lev_inv D (pl - bstart) ?x (new_block ?out, ?st2)"
    by (rule lev_inv_step [OF assms(1) _ assms(4)]) (simp_all add: lx assms(3) pp)
  have chk: "lev_check_state D ?st2 ?x (new_block ?out) ?pp = Inr ()"
    using inv unfolding lev_check_state_def lev_inv_def
    by (auto simp: any_row_iff list_all_iff clean_block_iff unmasked_from_iff lx)
  have win: "scatter_window row bstart b = take bstart row @ b @ drop (bstart + n) row"
    if "length b = n" for b
    using scatter_window_inside [of bstart b row] assms(2) that by simp
  have "lev_decode_row sm D True logits bstart n pl (row, st)
      = Inr (scatter_window row bstart (new_block ?out), ?st2, ?out)"
    by (simp add: lev_decode_row_def Let_def chk)
  moreover have "gather_window (scatter_window row bstart (new_block ?out)) bstart n = new_block ?out"
    using assms(2) by (intro nth_equalityI) (simp_all add: gather_window_def win lx nth_append)
  ultimately show ?thesis using inv assms(2) by (auto simp: win lx)
qed

lemma lev_decode_row_checked_witness:
  "\<exists>row' st' out. lev_decode_row ex_softmax ex_decoder True ex_logits 2 3 4
      ([0, 0, 2, 0, 3, 0], fresh_lev_row ex_decoder 3) = Inr (row', st', out)
    \<and> take 2 row' = [0, 0] \<and> drop (2 + 3) row' = [0]
    \<and> gather_window row' 2 3 = new_block out
    \<and> lev_inv ex_decoder (4 - 2) (gather_window [0, 0, 2, 0, 3, 0] 2 3) (new_block out, st')"
proof -
  have g: "gather_window [0, 0, 2, 0, 3, 0] 2 3 = [2, 0, 3]"
    by (simp add: gather_window_def tabulate_def upt_rec)
  have "lev_inv ex_decoder 2 [2, 0, 3]
      ([2, 0, 3], begin_block_row ex_decoder 2 [2, 0, 3] (fresh_lev_row ex_decoder 3))"
    by (rule begin_block_inv) (simp_all add: ex_inputs fresh_lev_row_def)
  with lev_decode_row_checked [of ex_decoder 2 3 "[0, 0, 2, 0, 3, 0]" ex_logits 4
      "fresh_lev_row ex_decoder 3" ex_softmax] g
  show ?thesis by (simp add: ex_inputs)
qed

text \<open>
  The mask-to-token floor: while the schedule runs, an active row selects at least
  \<open>m2t_schedule_need\<close> masks plus the inserted ones (or every mask when there are fewer),
  every selected position is a mask, and the schedule hands out exactly the initial masks over
  its steps.
\<close>

lemma lev_schedule_floor:
  assumes "\<not> finalized st" and "step_id st < steps D" and "list_all (\<lambda>p. p \<noteq> NegInf) xp"
    and "length xp = length mi"
  shows "min (m2t_schedule_need (initial_mask_count st) (steps D) (step_id st)
        + lev_new_cnt mi (is_original_mask st)) (tsum mi) \<le> tsum (lev_m2t D mi xp st)
    \<and> (\<forall>i < length mi. lev_m2t D mi xp st ! i \<longrightarrow> mi ! i)
    \<and> (\<Sum>k < steps D. m2t_schedule_need c (steps D) k) = c"
proof -
  have "(\<Sum>k < steps D. m2t_schedule_need c (steps D) k)
      = (\<Sum>k < steps D. c div steps D + (if k < c mod steps D then 1 else 0))"
    by (rule sum.cong) (simp_all add: m2t_schedule_need_def)
  also have "\<dots> = steps D * (c div steps D) + c mod steps D"
    using assms(2) by (simp add: sum.distrib sum_step_extra min_absorb2 less_imp_le)
  finally have "(\<Sum>k < steps D. m2t_schedule_need c (steps D) k) = c" by simp
  moreover have "\<And>i. i < length mi \<Longrightarrow> xp ! i \<noteq> NegInf"
    using assms(3,4) by (simp add: list_all_length)
  ultimately show ?thesis
    using lev_m2t_count [OF assms(1,2)] lev_m2t_masked [of mi xp] by blast
qed

lemma lev_schedule_floor_witness:
  "min (m2t_schedule_need 3 2 0 + lev_new_cnt [True, True, False] [True, True, True])
       (tsum [True, True, False])
      \<le> tsum (lev_m2t ex_decoder [True, True, False] [Fin (1/4), Fin (1/3), Fin 0] ex_row)
    \<and> (\<Sum>k < 2. m2t_schedule_need 3 2 k) = 3"
  using lev_schedule_floor [of ex_row ex_decoder "[Fin (1/4), Fin (1/3), Fin 0]"
      "[True, True, False]" 3]
  by (simp only: ex_row_simps) (simp add: numeral_3_eq_3 [symmetric])

text \<open>
  The recorded history is exact: from the reset at a new block, the live slots of
  \<open>seen_blocks\<close> are exactly the pre-edit blocks of the active passes of this block, in order;
  no entry is lost or overwritten however many passes run.
\<close>

lemma lev_history_exact:
  assumes "2 \<le> max_steps_per_block D" and "block_start st \<noteq> b"
    and "length (seen_blocks st) = max_block_iters D"
  shows "case lev_run sm D pp lgs (x, begin_block_row D b x st) of (x', st') \<Rightarrow>
    take (seen_count st') (seen_blocks st') = lev_results sm D pp lgs (x, begin_block_row D b x st)"
  using lev_run_history [of "(x, begin_block_row D b x st)" D sm pp lgs] assms
  by (simp add: begin_block_simps [OF assms(2)] max_block_iters_def case_prod_unfold)

lemma lev_history_exact_witness:
  "case lev_run ex_softmax ex_decoder [True, False, False] [ex_logits, ex_logits, ex_logits]
       ([2, 0, 3], begin_block_row ex_decoder 0 [2, 0, 3] (fresh_lev_row ex_decoder 3)) of
    (x', st') \<Rightarrow> take (seen_count st') (seen_blocks st')
      = lev_results ex_softmax ex_decoder [True, False, False] [ex_logits, ex_logits, ex_logits]
          ([2, 0, 3], begin_block_row ex_decoder 0 [2, 0, 3] (fresh_lev_row ex_decoder 3))"
  by (rule lev_history_exact) (simp_all add: ex_inputs fresh_lev_row_def)

text \<open>
  A finalized row is inert, which is what makes graph padding rows safe: for any logits and
  any prompt row, the step returns the block it was given, reports no change, and committing it
  leaves the row state as it was.
\<close>

lemma lev_finalized_inert:
  assumes "finalized st" and "seen_count st \<le> length (seen_blocks st)"
  shows "new_block (levenshtein_graph_step sm D lg x pp st) = x
    \<and> \<not> changed (levenshtein_graph_step sm D lg x pp st)
    \<and> commit_row_state (levenshtein_graph_step sm D lg x pp st) st = st"
  using lev_step_inert [OF assms(1), of sm D lg x pp] assms(2)
  by (simp add: lev_step_predicates min_absorb1)

lemma lev_finalized_inert_witness:
  "new_block (levenshtein_graph_step ex_softmax ex_decoder ex_logits [3, 3, 4] [False, False, False]
      (graph_padding_row ex_decoder 3)) = [3, 3, 4]"
  using lev_finalized_inert [of "graph_padding_row ex_decoder 3" ex_softmax ex_decoder ex_logits
      "[3, 3, 4]" "[False, False, False]"]
  by (simp add: graph_padding_row_def fresh_lev_row_def)

end
