(* ===== verification/Threshold.thy ===== *)
theory Threshold
  imports Levenshtein
begin

text \<open>
  The confidence-threshold decoders (execution/decoders/llada/threshold.py and
  joint_threshold.py): LLaDA2.0 threshold decoding, its credit variant, and LLaDA2.1 joint
  decoding.  One row of the batch is a list of tokens; \<open>sm\<close> is the softmax of one row of
  logits and \<open>gumbel\<close> the noisy logits of a non-zero temperature.
\<close>

section \<open>Confidence selection\<close>

text \<open>\<open>(max(confidence) - 1e-5).clamp(-1000, threshold)\<close>.\<close>

definition actual_threshold :: "rat \<Rightarrow> flt list \<Rightarrow> flt" where
  "actual_threshold thr confidence =
     min (max (flt_sub (row_max confidence) (1 / 100000)) (Fin (-1000))) (Fin thr)"

text \<open>\<open>math.isclose(temperature, 0.0)\<close> holds for zero only.\<close>

definition add_gumbel_noise ::
  "(rat \<Rightarrow> flt list list \<Rightarrow> flt list list) \<Rightarrow> rat \<Rightarrow> flt list list \<Rightarrow> flt list list" where
  "add_gumbel_noise gumbel temperature logits =
     (if temperature = 0 then logits else gumbel temperature logits)"

definition token_prob :: "(flt list \<Rightarrow> rat list) \<Rightarrow> flt list list \<Rightarrow> token list \<Rightarrow> flt list" where
  "token_prob sm logits x0 = tabulate (length logits) (\<lambda>i. Fin (sm (logits ! i) ! (x0 ! i)))"

definition get_transfer_index_threshold ::
  "(flt list \<Rightarrow> rat list) \<Rightarrow> (rat \<Rightarrow> flt list list \<Rightarrow> flt list list) \<Rightarrow> flt list list \<Rightarrow> rat
    \<Rightarrow> bool list \<Rightarrow> token list \<Rightarrow> token \<Rightarrow> rat \<Rightarrow> bool \<Rightarrow> token list \<times> bool list" where
  "get_transfer_index_threshold sm gumbel logits temperature mask_index x mid thr rm_mask =
     (let L = length x;
          x0 = greedy (add_gumbel_noise gumbel temperature logits);
          x0_p = token_prob sm logits x0;
          mask_index = (if rm_mask then tabulate L (\<lambda>i. mask_index ! i \<and> x0 ! i \<noteq> mid)
            else mask_index);
          x0 = tabulate L (\<lambda>i. if mask_index ! i then x0 ! i else x ! i);
          confidence = tabulate L (\<lambda>i. if mask_index ! i then x0_p ! i else NegInf);
          bar = actual_threshold thr confidence
      in (x0, tabulate L (\<lambda>i. confidence ! i \<ge> bar)))"

section \<open>ThresholdParallelDecoder\<close>

record threshold_decoder =
  td_temperature :: rat
  td_threshold :: rat
  td_mask_id :: token
  td_eos_ids :: "token list"

definition normalize_eos_ids :: "token list \<Rightarrow> token list result" where
  "normalize_eos_ids values =
     (if fromkeys values = [] then Inl (ValueError ''at least one EOS token id is required'')
      else Inr (fromkeys values))"

definition td_init :: "rat \<Rightarrow> rat \<Rightarrow> token \<Rightarrow> token list \<Rightarrow> threshold_decoder result" where
  "td_init temperature thr mid eos_ids =
     result_bind (normalize_eos_ids eos_ids) (\<lambda>ids.
       Inr \<lparr> td_temperature = temperature, td_threshold = thr, td_mask_id = mid,
             td_eos_ids = ids \<rparr>)"

definition is_mask :: "token \<Rightarrow> token list \<Rightarrow> bool list" where
  "is_mask mid x = tabulate (length x) (\<lambda>i. x ! i = mid)"

text \<open>The new tokens of a block: the part that \<open>decode\<close> and \<open>batch_decode\<close> share.\<close>

definition threshold_block ::
  "(flt list \<Rightarrow> rat list) \<Rightarrow> (rat \<Rightarrow> flt list list \<Rightarrow> flt list list) \<Rightarrow> threshold_decoder
    \<Rightarrow> rat option \<Rightarrow> flt list list \<Rightarrow> token list \<Rightarrow> token list" where
  "threshold_block sm gumbel D iter_threshold logits x_block =
     (let thr = (case iter_threshold of Some t \<Rightarrow> t | None \<Rightarrow> td_threshold D);
          mask_index = is_mask (td_mask_id D) x_block;
          (x0, transfer) = get_transfer_index_threshold sm gumbel logits (td_temperature D)
             mask_index x_block (td_mask_id D) thr True
      in tabulate (length x_block) (\<lambda>i. if transfer ! i \<and> mask_index ! i then x0 ! i
           else x_block ! i))"

definition threshold_decode_row ::
  "(flt list \<Rightarrow> rat list) \<Rightarrow> (rat \<Rightarrow> flt list list \<Rightarrow> flt list list) \<Rightarrow> threshold_decoder
    \<Rightarrow> rat option \<Rightarrow> nat \<Rightarrow> nat \<Rightarrow> flt list list \<times> token list \<Rightarrow> token list result" where
  "threshold_decode_row sm gumbel D iter_threshold bstart bend lr =
     (let curr_x = slice bstart bend (snd lr)
      in if length curr_x \<noteq> length (fst lr) then Inl AssertionError
         else Inr (take bstart (snd lr)
                @ threshold_block sm gumbel D iter_threshold (fst lr) curr_x
                @ drop (bstart + length curr_x) (snd lr)))"

definition threshold_decode ::
  "(flt list \<Rightarrow> rat list) \<Rightarrow> (rat \<Rightarrow> flt list list \<Rightarrow> flt list list) \<Rightarrow> threshold_decoder
    \<Rightarrow> rat option \<Rightarrow> flt list list list \<Rightarrow> nat \<Rightarrow> nat \<Rightarrow> token list list
    \<Rightarrow> token list list result" where
  "threshold_decode sm gumbel D iter_threshold logits bstart bend rows =
     result_map (threshold_decode_row sm gumbel D iter_threshold bstart bend) (zip logits rows)"

text \<open>
  \<open>batch_decode\<close> reads each window with the offset clamped to the row but writes through the flat
  view at the unclamped offset: \<open>T\<close> is the row length, and an index past the whole view raises.
\<close>

definition unflatten :: "nat \<Rightarrow> nat \<Rightarrow> 'a list \<Rightarrow> 'a list list" where
  "unflatten B T xs = tabulate B (\<lambda>b. slice (b * T) (b * T + T) xs)"

definition flat_windows :: "nat \<Rightarrow> nat list \<Rightarrow> nat \<Rightarrow> nat list" where
  "flat_windows T starts block_length =
     concat (tabulate (length starts) (\<lambda>b. tabulate block_length (\<lambda>i. starts ! b + i + b * T)))"

definition threshold_batch_decode ::
  "(flt list \<Rightarrow> rat list) \<Rightarrow> (rat \<Rightarrow> flt list list \<Rightarrow> flt list list) \<Rightarrow> threshold_decoder
    \<Rightarrow> rat option \<Rightarrow> flt list list list \<Rightarrow> nat list \<Rightarrow> nat \<Rightarrow> token list list \<Rightarrow> nat
    \<Rightarrow> token list list result" where
  "threshold_batch_decode sm gumbel D iter_threshold logits starts T rows block_length =
     (let B = length rows;
          blocks = tabulate B (\<lambda>b. threshold_block sm gumbel D iter_threshold (logits ! b)
            (gather_window (rows ! b) (starts ! b) block_length));
          flat_idx = flat_windows T (take B starts) block_length
      in if list_ex (\<lambda>i. B * T \<le> i) flat_idx then Inl IndexError
         else Inr (unflatten B T (scatter (concat rows) flat_idx (concat blocks))))"

section \<open>CreditThresholdParallelDecoder\<close>

text \<open>
  The credit matrix of a block is kept under the key (start, end), per row, position and token.
  \<open>boost\<close> is the power \<open>p ** boost_gamma\<close> and \<open>ln1p\<close> the logarithm of \<open>1 + m\<close>.
\<close>

record credit_decoder = threshold_decoder +
  credit_alpha :: rat
  decay_beta :: rat

type_synonym credit_mat = "rat list list list"

record credit_state =
  credit_mats :: "(nat \<times> nat, credit_mat) pydict"
  credit_iters :: "(nat \<times> nat, nat) pydict"

definition mat_shape :: "nat \<Rightarrow> nat \<Rightarrow> nat \<Rightarrow> 'a list list list \<Rightarrow> bool" where
  "mat_shape B L V m = (length m = B \<and> list_all (\<lambda>r. length r = L \<and> list_all (\<lambda>v. length v = V) r) m)"

fun flt_add :: "flt \<Rightarrow> rat \<Rightarrow> flt" where
  "flt_add NegInf c = NegInf"
| "flt_add (Fin a) c = Fin (a + c)"
| "flt_add PosInf c = PosInf"

definition apply_credit_fusion ::
  "(flt list \<Rightarrow> rat list) \<Rightarrow> (rat \<Rightarrow> rat) \<Rightarrow> (rat \<Rightarrow> rat) \<Rightarrow> 'e credit_decoder_scheme
    \<Rightarrow> nat \<Rightarrow> nat \<Rightarrow> nat \<Rightarrow> flt list list list \<Rightarrow> bool list list \<Rightarrow> nat \<times> nat \<Rightarrow> credit_state
    \<Rightarrow> flt list list list \<times> credit_state" where
  "apply_credit_fusion sm boost ln1p D B L V logits mask_index key st =
     (let kept = (case map_of (credit_mats st) key of
                    Some m \<Rightarrow> if mat_shape B L V m then Some m else None | None \<Rightarrow> None);
          mat = (case kept of Some m \<Rightarrow> m
                 | None \<Rightarrow> replicate B (replicate L (replicate V 0)));
          iter_idx = (case kept of None \<Rightarrow> 0
                      | Some _ \<Rightarrow> (case map_of (credit_iters st) key of Some n \<Rightarrow> n | None \<Rightarrow> 0));
          mat = (if iter_idx > 0 then map (map (map (\<lambda>v. v * decay_beta D))) mat else mat);
          mat = tabulate B (\<lambda>b. tabulate L (\<lambda>i.
            let p = sm (logits ! b ! i); t = argmax p; old = mat ! b ! i
            in old[t := old ! t + (if mask_index ! b ! i then boost (p ! t) else 0)]));
          fused = tabulate B (\<lambda>b. tabulate L (\<lambda>i. tabulate V (\<lambda>v.
            flt_add (logits ! b ! i ! v) (credit_alpha D * ln1p (mat ! b ! i ! v)))))
      in (fused, \<lparr> credit_mats = dict_set key mat (credit_mats st),
                   credit_iters = dict_set key (iter_idx + 1) (credit_iters st) \<rparr>))"

definition credit_decode ::
  "(flt list \<Rightarrow> rat list) \<Rightarrow> (rat \<Rightarrow> flt list list \<Rightarrow> flt list list) \<Rightarrow> (rat \<Rightarrow> rat) \<Rightarrow> (rat \<Rightarrow> rat)
    \<Rightarrow> credit_decoder \<Rightarrow> rat option \<Rightarrow> nat \<Rightarrow> flt list list list \<Rightarrow> nat \<Rightarrow> nat
    \<Rightarrow> token list list \<times> credit_state \<Rightarrow> (token list list \<times> credit_state) result" where
  "credit_decode sm gumbel boost ln1p D iter_threshold V logits bstart bend rs =
     (let (rows, st) = rs;
          L = (case logits of [] \<Rightarrow> 0 | lg # _ \<Rightarrow> length lg);
          mask_index = map (\<lambda>row. is_mask (td_mask_id D) (slice bstart bend row)) rows
      in if list_ex (\<lambda>(m, lg). length m \<noteq> length lg) (zip mask_index logits) then Inl AssertionError
         else let (used, st1) = apply_credit_fusion sm boost ln1p D (length rows) L V logits
                     mask_index (bstart, bend) st
              in result_bind (threshold_decode sm gumbel (threshold_decoder.truncate D)
                    iter_threshold used bstart bend rows)
                  (\<lambda>rows'. Inr (rows', if list_ex (\<lambda>row. td_mask_id D \<in> set row) rows' then st1
                     else \<lparr> credit_mats = [], credit_iters = [] \<rparr>)))"

section \<open>JointThresholdDecoder\<close>

record joint_decoder =
  jd_mask_id :: token
  jd_threshold :: rat
  jd_editing_threshold :: rat
  jd_eos_ids :: "token list"

definition jd_init ::
  "rat \<Rightarrow> rat \<Rightarrow> rat \<Rightarrow> token \<Rightarrow> token list \<Rightarrow> joint_decoder result" where
  "jd_init thr ethr temperature mid eos_ids =
     (if temperature \<noteq> 0 then Inl (ValueError ''JointThresholdDecoder only supports temperature=0'')
      else if \<not> (0 \<le> thr \<and> thr \<le> 1) then Inl (ValueError ''threshold must be in [0, 1]'')
      else if \<not> (0 \<le> ethr \<and> ethr \<le> 1) then Inl (ValueError ''editing_threshold must be in [0, 1]'')
      else result_bind (normalize_eos_ids eos_ids) (\<lambda>ids.
        Inr \<lparr> jd_mask_id = mid, jd_threshold = thr, jd_editing_threshold = ethr,
              jd_eos_ids = ids \<rparr>))"

text \<open>The selection: updated block, M2T transfers, T2T transfers.\<close>

definition joint_threshold_update ::
  "(flt list \<Rightarrow> rat list) \<Rightarrow> flt list list \<Rightarrow> token list \<Rightarrow> token \<Rightarrow> rat \<Rightarrow> rat \<Rightarrow> bool list \<Rightarrow> bool
    \<Rightarrow> token list \<times> bool list \<times> bool list" where
  "joint_threshold_update sm logits x_block mid thr ethr prompt_positions allow_edit =
     (let L = length x_block;
          lg = map (\<lambda>row. row[mid := NegInf]) logits;
          x0 = greedy lg;
          x0_p = token_prob sm lg x0;
          mask_index = is_mask mid x_block;
          confidence = tabulate L (\<lambda>i. if mask_index ! i then x0_p ! i else NegInf);
          bar = actual_threshold thr confidence;
          m2t = tabulate L (\<lambda>i. confidence ! i \<ge> bar);
          editable = tabulate L (\<lambda>i. \<not> mask_index ! i \<and> \<not> prompt_positions ! i \<and> allow_edit);
          t2t = tabulate L (\<lambda>i. editable ! i \<and> x0 ! i \<noteq> x_block ! i \<and> x0_p ! i > Fin ethr)
      in (tabulate L (\<lambda>i. if m2t ! i \<or> t2t ! i then x0 ! i else x_block ! i), m2t, t2t))"

text \<open>\<open>joint_threshold_graph_step\<close>: (x_updated, had_mask, changed, block_finished).\<close>

definition joint_threshold_graph_step ::
  "(flt list \<Rightarrow> rat list) \<Rightarrow> flt list list \<Rightarrow> token list \<Rightarrow> token \<Rightarrow> rat \<Rightarrow> rat \<Rightarrow> bool list \<Rightarrow> bool
    \<Rightarrow> token list \<times> bool \<times> bool \<times> bool" where
  "joint_threshold_graph_step sm logits x_block mid thr ethr prompt_positions allow_edit =
     (let hm = any_row (is_mask mid x_block);
          x_updated = fst (joint_threshold_update sm logits x_block mid thr ethr
                             prompt_positions allow_edit);
          ch = any_row (tabulate (length x_block) (\<lambda>i. x_updated ! i \<noteq> x_block ! i))
      in (x_updated, hm, ch, \<not> hm \<and> \<not> ch))"

definition joint_graph_step ::
  "(flt list \<Rightarrow> rat list) \<Rightarrow> joint_decoder \<Rightarrow> flt list list \<Rightarrow> token list \<Rightarrow> bool list \<Rightarrow> bool
    \<Rightarrow> token list \<times> bool \<times> bool \<times> bool" where
  "joint_graph_step sm D logits x_block prompt_positions allow_edit =
     joint_threshold_graph_step sm logits x_block (jd_mask_id D) (jd_threshold D)
       (jd_editing_threshold D) prompt_positions allow_edit"

definition joint_decode_row ::
  "(flt list \<Rightarrow> rat list) \<Rightarrow> joint_decoder \<Rightarrow> flt list list \<Rightarrow> nat \<Rightarrow> token list \<Rightarrow> nat \<Rightarrow> nat \<Rightarrow> bool
    \<Rightarrow> token list" where
  "joint_decode_row sm D logits bstart row block_length prompt_length allow_edit =
     (let x_block = gather_window row bstart block_length;
          prompt_positions = tabulate block_length (\<lambda>i. bstart + i < prompt_length)
      in scatter_window row bstart (fst (joint_threshold_update sm logits x_block (jd_mask_id D)
           (jd_threshold D) (jd_editing_threshold D) prompt_positions allow_edit)))"

definition joint_batch_decode ::
  "(flt list \<Rightarrow> rat list) \<Rightarrow> joint_decoder \<Rightarrow> flt list list list \<Rightarrow> nat list \<Rightarrow> token list list \<Rightarrow> nat
    \<Rightarrow> nat list option \<Rightarrow> bool list option \<Rightarrow> token list list result" where
  "joint_batch_decode sm D logits starts rows block_length prompt_lengths allow_edit =
     (case prompt_lengths of
        None \<Rightarrow> Inl (ValueError ''JointThresholdDecoder.batch_decode requires prompt_lengths'')
      | Some pls \<Rightarrow> Inr (tabulate (length rows) (\<lambda>b.
          joint_decode_row sm D (logits ! b) (starts ! b) (rows ! b) block_length (pls ! b)
            (case allow_edit of Some ae \<Rightarrow> ae ! b | None \<Rightarrow> True))))"

section \<open>Well-formed inputs\<close>

text \<open>Softmax rows are probabilities over a non-empty vocabulary.\<close>

definition probs_ok :: "(flt list \<Rightarrow> rat list) \<Rightarrow> flt list list \<Rightarrow> bool" where
  "probs_ok sm logits = list_all (\<lambda>row. row \<noteq> [] \<and> length (sm row) = length row
     \<and> list_all (\<lambda>p. 0 \<le> p \<and> p \<le> 1) (sm row)) logits"

text \<open>Every row of logits leaves a token other than the mask possible.\<close>

definition unmaskable :: "token \<Rightarrow> flt list list \<Rightarrow> bool" where
  "unmaskable mid logits =
     list_all (\<lambda>row. list_ex (\<lambda>v. v \<noteq> mid \<and> row ! v \<noteq> NegInf) [0..<length row]) logits"

definition mask_count :: "token \<Rightarrow> token list \<Rightarrow> nat" where
  "mask_count mid x = tsum (is_mask mid x)"

definition block_unchanged :: "token list \<Rightarrow> token list \<Rightarrow> bool" where
  "block_unchanged x y = (\<not> any_row (tabulate (length x) (\<lambda>i. y ! i \<noteq> x ! i)))"

section \<open>Facts about the selection\<close>

lemma is_mask_simps [simp]:
  "length (is_mask mid x) = length x"
  "i < length x \<Longrightarrow> is_mask mid x ! i \<longleftrightarrow> x ! i = mid"
  by (simp_all add: is_mask_def)

lemma token_prob_simps [simp]:
  "length (token_prob sm lg x0) = length lg"
  "i < length lg \<Longrightarrow> token_prob sm lg x0 ! i = Fin (sm (lg ! i) ! (x0 ! i))"
  by (simp_all add: token_prob_def)

lemma token_prob_nonneg:
  assumes "probs_ok sm lg" and "i < length lg" and "x0 ! i < length (lg ! i)"
  shows "Fin 0 \<le> token_prob sm lg x0 ! i"
proof -
  have "lg ! i \<in> set lg" using assms(2) by simp
  then have "length (sm (lg ! i)) = length (lg ! i)" and "list_all (\<lambda>p. 0 \<le> p \<and> p \<le> 1) (sm (lg ! i))"
    using assms(1) by (auto simp: probs_ok_def list_all_iff)
  then show ?thesis using assms(2,3) by (simp add: list_all_length)
qed

lemma actual_threshold_above_NegInf: "NegInf < actual_threshold thr c"
  by (cases "row_max c") (auto simp: actual_threshold_def min_def max_def)

lemma actual_threshold_le: "actual_threshold thr c \<le> Fin thr"
  by (simp add: actual_threshold_def)

lemma actual_threshold_le_max:
  assumes "Fin 0 \<le> row_max c"
  shows "actual_threshold thr c \<le> row_max c"
  using assms by (cases "row_max c") (auto simp: actual_threshold_def min_def max_def)

text \<open>
  The bar admits the best candidate of a row that has one, and nothing of a row that has none:
  the fact behind the progress of both decoders.
\<close>

lemma bar_admits_best:
  assumes "i < length c" and "Fin 0 \<le> c ! i"
  shows "\<exists>j < length c. c ! j \<noteq> NegInf \<and> actual_threshold thr c \<le> c ! j"
proof -
  have m: "Fin 0 \<le> row_max c" using assms row_max_ge [of i c] by (meson order_trans)
  then have "row_max c \<noteq> NegInf" by auto
  then obtain j where "j < length c" and "c ! j = row_max c"
    using row_max_attained by blast
  then show ?thesis using actual_threshold_le_max [OF m, of thr] m by auto
qed

lemma bar_rejects_NegInf: "c ! i = NegInf \<Longrightarrow> \<not> actual_threshold thr c \<le> c ! i"
  using actual_threshold_above_NegInf [of thr c] by simp

lemma block_unchanged_iff: "length y = length x \<Longrightarrow> block_unchanged x y \<longleftrightarrow> y = x"
  by (auto simp: block_unchanged_def any_row_iff intro: nth_equalityI)

lemma mask_count_zero: "mask_count mid x = 0 \<longleftrightarrow> mid \<notin> set x"
  by (auto simp: mask_count_def tsum_zero_iff any_row_iff in_set_conv_nth)

lemma mask_count_le: "mask_count mid x \<le> length x"
  using tsum_le_length [of "is_mask mid x"] by (simp add: mask_count_def)

lemma mask_count_decreases:
  assumes "length y = length x" and "\<And>i. i < length x \<Longrightarrow> y ! i = mid \<Longrightarrow> x ! i = mid"
    and "j < length x" and "x ! j = mid" and "y ! j \<noteq> mid"
  shows "mask_count mid y < mask_count mid x"
  unfolding mask_count_def by (rule tsum_strict_mono [of _ _ j]) (use assms in auto)

section \<open>One threshold step\<close>

text \<open>The confidence row of the step: candidates are masked positions whose argmax is no mask.\<close>

definition threshold_conf ::
  "(flt list \<Rightarrow> rat list) \<Rightarrow> token \<Rightarrow> flt list list \<Rightarrow> token list \<Rightarrow> token list \<Rightarrow> flt list" where
  "threshold_conf sm mid lg x0 x =
     tabulate (length x) (\<lambda>i. if x ! i = mid \<and> x0 ! i \<noteq> mid then token_prob sm lg x0 ! i else NegInf)"

lemma threshold_block_nth:
  fixes sm gumbel D logits x it
  defines "x0 \<equiv> greedy (add_gumbel_noise gumbel (td_temperature D) logits)"
    and "thr \<equiv> (case it of Some t \<Rightarrow> t | None \<Rightarrow> td_threshold D)"
  assumes i: "i < length x"
  shows "threshold_block sm gumbel D it logits x ! i =
    (if x ! i = td_mask_id D \<and> x0 ! i \<noteq> td_mask_id D
        \<and> actual_threshold thr (threshold_conf sm (td_mask_id D) logits x0 x)
            \<le> token_prob sm logits x0 ! i
     then x0 ! i else x ! i)"
proof -
  have eq: "tabulate (length x) (\<lambda>i. if tabulate (length x) (\<lambda>i. is_mask (td_mask_id D) x ! i
        \<and> x0 ! i \<noteq> td_mask_id D) ! i then token_prob sm logits x0 ! i else NegInf)
      = threshold_conf sm (td_mask_id D) logits x0 x"
    unfolding threshold_conf_def by (rule tabulate_cong) simp
  note rej = bar_rejects_NegInf [of "threshold_conf sm (td_mask_id D) logits x0 x" i thr]
  show ?thesis using i rej
    unfolding threshold_block_def get_transfer_index_threshold_def Let_def if_True
      x0_def [symmetric] thr_def [symmetric] eq split_conv
    by (simp add: threshold_conf_def)
qed

lemma length_threshold_block [simp]: "length (threshold_block sm gumbel D it lg x) = length x"
  by (simp add: threshold_block_def Let_def case_prod_beta)

lemma threshold_block_only_masked:
  assumes "i < length x" and "threshold_block sm gumbel D it lg x ! i \<noteq> x ! i"
  shows "x ! i = td_mask_id D" and "threshold_block sm gumbel D it lg x ! i \<noteq> td_mask_id D"
  using assms by (auto simp: threshold_block_nth split: if_splits)

lemma greedy_less:
  assumes "probs_ok sm lg" and "map length lg' = map length lg" and "i < length lg"
  shows "greedy lg' ! i < length (lg ! i)"
proof -
  have len: "length lg' = length lg" using assms(2) by (metis length_map)
  have "length (lg' ! i) = length (lg ! i)" using assms(2,3) len by (metis nth_map)
  moreover have "lg ! i \<noteq> []" using assms(1,3) by (auto simp: probs_ok_def list_all_length)
  ultimately have "lg' ! i \<noteq> []" by auto
  then show ?thesis
    using argmax_less [of "lg' ! i"] \<open>length (lg' ! i) = length (lg ! i)\<close> assms(3) len
    by (simp add: greedy_def)
qed

lemma threshold_block_progress:
  fixes D sm gumbel lg x
  defines "x0 \<equiv> greedy (add_gumbel_noise gumbel (td_temperature D) lg)"
  assumes ok: "probs_ok sm lg" and len: "length lg = length x"
    and shape: "map length (add_gumbel_noise gumbel (td_temperature D) lg) = map length lg"
    and cand: "i < length x" "x ! i = td_mask_id D" "x0 ! i \<noteq> td_mask_id D"
  shows "mask_count (td_mask_id D) (threshold_block sm gumbel D it lg x)
    < mask_count (td_mask_id D) x"
proof -
  define c where "c = threshold_conf sm (td_mask_id D) lg x0 x"
  define thr where "thr = (case it of Some t \<Rightarrow> t | None \<Rightarrow> td_threshold D)"
  have lc: "length c = length x" by (simp add: c_def threshold_conf_def)
  have "Fin 0 \<le> token_prob sm lg x0 ! i"
    using token_prob_nonneg [OF ok] greedy_less [OF ok shape] cand len by (simp add: x0_def)
  then have "Fin 0 \<le> c ! i" using cand by (simp add: c_def threshold_conf_def)
  then obtain j where j: "j < length x" "c ! j \<noteq> NegInf" "actual_threshold thr c \<le> c ! j"
    using bar_admits_best [of i c thr] cand lc by auto
  then have jc: "x ! j = td_mask_id D" "x0 ! j \<noteq> td_mask_id D" "c ! j = token_prob sm lg x0 ! j"
    by (auto simp: c_def threshold_conf_def split: if_splits)
  have "threshold_block sm gumbel D it lg x ! j = x0 ! j"
    using threshold_block_nth [OF j(1), of sm gumbel D it lg] j jc
    by (simp add: c_def thr_def x0_def)
  then show ?thesis
    using mask_count_decreases [of "threshold_block sm gumbel D it lg x" x "td_mask_id D" j]
      threshold_block_only_masked j jc by (metis length_threshold_block)
qed

lemma threshold_block_stall:
  fixes D sm gumbel lg x
  defines "x0 \<equiv> greedy (add_gumbel_noise gumbel (td_temperature D) lg)"
  assumes "\<And>i. i < length x \<Longrightarrow> x ! i = td_mask_id D \<Longrightarrow> x0 ! i = td_mask_id D"
  shows "threshold_block sm gumbel D it lg x = x"
  by (rule nth_equalityI) (use assms in \<open>auto simp: threshold_block_nth\<close>)

section \<open>Windows of a batch\<close>

lemma gather_window_inside:
  "s + n \<le> length row \<Longrightarrow> gather_window row s n = slice s (s + n) row"
  by (rule nth_equalityI) (auto simp: gather_window_def)

lemma length_gather_window [simp]: "length (gather_window row s n) = n"
  by (simp add: gather_window_def)

lemma gather_scatter_window:
  assumes "s + length b \<le> length row"
  shows "gather_window (scatter_window row s b) s (length b) = b"
  using assms by (simp add: gather_window_inside scatter_window_inside slice_def)

section \<open>One joint step\<close>

definition joint_x0 :: "token \<Rightarrow> flt list list \<Rightarrow> token list" where
  "joint_x0 mid logits = greedy (map (\<lambda>row. row[mid := NegInf]) logits)"

definition joint_conf :: "(flt list \<Rightarrow> rat list) \<Rightarrow> token \<Rightarrow> flt list list \<Rightarrow> token list \<Rightarrow> flt list" where
  "joint_conf sm mid logits x =
     tabulate (length x) (\<lambda>i. if x ! i = mid
       then token_prob sm (map (\<lambda>row. row[mid := NegInf]) logits) (joint_x0 mid logits) ! i
       else NegInf)"

lemma joint_update_nth:
  assumes i: "i < length x"
  shows "fst (joint_threshold_update sm logits x mid thr ethr pp ae) ! i =
    (if (x ! i = mid \<and> actual_threshold thr (joint_conf sm mid logits x)
            \<le> joint_conf sm mid logits x ! i)
        \<or> (x ! i \<noteq> mid \<and> \<not> pp ! i \<and> ae \<and> joint_x0 mid logits ! i \<noteq> x ! i
           \<and> Fin ethr < token_prob sm (map (\<lambda>row. row[mid := NegInf]) logits)
                          (joint_x0 mid logits) ! i)
     then joint_x0 mid logits ! i else x ! i)"
proof -
  have eq: "tabulate (length x) (\<lambda>i. if is_mask mid x ! i
      then token_prob sm (map (\<lambda>row. row[mid := NegInf]) logits) (joint_x0 mid logits) ! i
      else NegInf) = joint_conf sm mid logits x"
    unfolding joint_conf_def by (rule tabulate_cong) simp
  have "x ! i \<noteq> mid \<Longrightarrow> joint_conf sm mid logits x ! i = NegInf"
    using i by (simp add: joint_conf_def)
  then have "actual_threshold thr (joint_conf sm mid logits x) \<le> joint_conf sm mid logits x ! i
      \<Longrightarrow> x ! i = mid"
    using bar_rejects_NegInf [of "joint_conf sm mid logits x" i thr] by blast
  then show ?thesis
    using i unfolding joint_threshold_update_def Let_def joint_x0_def [symmetric] eq fst_conv
    by auto
qed

lemma length_joint_update [simp]:
  "length (fst (joint_threshold_update sm logits x mid thr ethr pp ae)) = length x"
  by (simp add: joint_threshold_update_def Let_def)

lemma joint_x0_not_mask:
  assumes "unmaskable mid logits" and "i < length logits"
  shows "joint_x0 mid logits ! i \<noteq> mid"
proof -
  have "list_ex (\<lambda>v. v \<noteq> mid \<and> logits ! i ! v \<noteq> NegInf) [0..<length (logits ! i)]"
    using assms by (auto simp: unmaskable_def list_all_length)
  then obtain v where "v < length (logits ! i)" "v \<noteq> mid" "logits ! i ! v \<noteq> NegInf"
    by (auto simp: list_ex_iff)
  then show ?thesis
    using argmax_update_neq [of v "logits ! i" mid] assms(2)
    by (simp add: joint_x0_def greedy_def)
qed

lemma joint_never_masks:
  assumes "unmaskable mid logits" and "length logits = length x" and "i < length x"
    and "fst (joint_threshold_update sm logits x mid thr ethr pp ae) ! i = mid"
  shows "x ! i = mid"
  using assms joint_x0_not_mask [of mid logits i] by (auto simp: joint_update_nth split: if_splits)

lemma joint_keeps_prompt:
  assumes "i < length x" and "pp ! i" and "x ! i \<noteq> mid"
  shows "fst (joint_threshold_update sm logits x mid thr ethr pp ae) ! i = x ! i"
  using assms by (simp add: joint_update_nth)

lemma joint_frozen:
  assumes "mid \<notin> set x"
  shows "fst (joint_threshold_update sm logits x mid thr ethr pp False) = x"
  by (rule nth_equalityI) (use assms in \<open>auto simp: joint_update_nth\<close>)

lemma joint_progress:
  fixes mid logits x
  defines "lg \<equiv> map (\<lambda>row. row[mid := NegInf]) logits"
  assumes ok: "probs_ok sm lg" and un: "unmaskable mid logits" and len: "length logits = length x"
    and m: "mid \<in> set x"
  shows "mask_count mid (fst (joint_threshold_update sm logits x mid thr ethr pp ae))
    < mask_count mid x"
proof -
  define c where "c = joint_conf sm mid logits x"
  have lc: "length c = length x" by (simp add: c_def joint_conf_def)
  obtain i where i: "i < length x" "x ! i = mid" using m by (auto simp: in_set_conv_nth)
  have "Fin 0 \<le> token_prob sm lg (joint_x0 mid logits) ! i"
    using token_prob_nonneg [OF ok] greedy_less [OF ok refl] i len
    by (simp add: joint_x0_def lg_def)
  then have "Fin 0 \<le> c ! i" using i by (simp add: c_def joint_conf_def lg_def)
  then obtain j where j: "j < length x" "c ! j \<noteq> NegInf" "actual_threshold thr c \<le> c ! j"
    using bar_admits_best [of i c thr] i lc by auto
  then have jm: "x ! j = mid" by (auto simp: c_def joint_conf_def split: if_splits)
  have "fst (joint_threshold_update sm logits x mid thr ethr pp ae) ! j \<noteq> mid"
    using j jm joint_x0_not_mask [OF un] len by (simp add: joint_update_nth c_def)
  then show ?thesis
    using mask_count_decreases [OF length_joint_update _ j(1) jm] joint_never_masks [OF un len]
    by blast
qed

section \<open>The flat write of a batch\<close>

lemma concat_tabulate_uniform:
  "concat (tabulate B (\<lambda>b. tabulate n (f b))) = tabulate (B * n) (\<lambda>k. f (k div n) (k mod n))"
proof (induction B)
  case (Suc B)
  have "tabulate n (f B) = map (\<lambda>k. f (k div n) (k mod n)) [B * n..<B * n + n]"
    by (rule nth_equalityI) (auto simp: tabulate_def)
  then show ?case using Suc upt_split [of "B * n" "B * n + n"]
    by (simp add: tabulate_def add.commute)
qed (simp add: tabulate_def)

lemma concat_uniform_nth:
  assumes "length xss = B" and "\<And>b. b < B \<Longrightarrow> length (xss ! b) = T"
  shows "concat xss = tabulate (B * T) (\<lambda>k. xss ! (k div T) ! (k mod T))"
proof -
  have "xss = tabulate B (\<lambda>b. tabulate T (\<lambda>i. xss ! b ! i))"
    by (rule nth_equalityI) (use assms in \<open>auto intro: nth_equalityI\<close>)
  then have "concat xss = concat (tabulate B (\<lambda>b. tabulate T (\<lambda>i. xss ! b ! i)))" by simp
  then show ?thesis by (simp only: concat_tabulate_uniform)
qed

lemma div_mod_window:
  fixes s i b T :: nat
  assumes "s + i < T"
  shows "(s + i + b * T) div T = b" and "(s + i + b * T) mod T = s + i"
proof -
  have "(s + i) div T = 0" and "(s + i) mod T = s + i" and "T \<noteq> 0" using assms by simp_all
  then show "(s + i + b * T) div T = b" "(s + i + b * T) mod T = s + i"
    using div_mult_self1 [of T "s + i" b] mod_mult_self1 [of "s + i" b T] by linarith+
qed

lemma block_index_less:
  fixes b B j T :: nat
  assumes "b < B" and "j < T"
  shows "b * T + j < B * T"
proof -
  have "b * T + j < Suc b * T" using assms(2) by simp
  also have "\<dots> \<le> B * T" using assms(1) by (intro mult_le_mono1) simp
  finally show ?thesis .
qed

lemma flat_scatter_rowwise:
  assumes rows: "length rows = B" "\<And>b. b < B \<Longrightarrow> length (rows ! b) = T"
    and starts: "length starts = B" "\<And>b. b < B \<Longrightarrow> starts ! b + n \<le> T"
    and blocks: "length blocks = B" "\<And>b. b < B \<Longrightarrow> length (blocks ! b) = n"
    and b: "b < B" and j: "j < T"
  shows "scatter (concat rows) (flat_windows T starts n) (concat blocks) ! (b * T + j)
    = scatter_window (rows ! b) (starts ! b) (blocks ! b) ! j"
proof -
  let ?idx = "flat_windows T starts n"
  have idx: "?idx = tabulate (B * n) (\<lambda>k. starts ! (k div n) + k mod n + k div n * T)"
    unfolding flat_windows_def starts(1) by (rule concat_tabulate_uniform)
  have cr: "length (concat rows) = B * T"
    "b' < B \<Longrightarrow> j' < T \<Longrightarrow> concat rows ! (b' * T + j') = rows ! b' ! j'" for b' j'
    using concat_uniform_nth [of rows B T] rows block_index_less [of b' B j' T] by auto
  have bound: "k div n < B \<and> k mod n < n" if "k < B * n" for k
    using that by (cases "n = 0") (auto simp: less_mult_imp_div_less)
  have dm: "?idx ! k div T = k div n \<and> ?idx ! k mod T = starts ! (k div n) + k mod n"
    if k: "k < B * n" for k
  proof -
    have "starts ! (k div n) + k mod n < T" using bound [OF k] starts(2) [of "k div n"] by linarith
    then show ?thesis using k div_mod_window by (simp add: idx)
  qed
  have pos: "(b * T + j) div T = b" "(b * T + j) mod T = j" using j by simp_all
  have sw: "scatter_window (rows ! b) (starts ! b) (blocks ! b) ! j =
      (if starts ! b \<le> j \<and> j < starts ! b + n then blocks ! b ! (j - starts ! b) else rows ! b ! j)"
    using scatter_window_inside [of "starts ! b" "blocks ! b" "rows ! b"] rows(2) [OF b]
      starts(2) [OF b] blocks(2) [OF b] j by (auto simp: nth_append)
  show ?thesis
  proof (cases "starts ! b \<le> j \<and> j < starts ! b + n")
    case True
    define k where "k = b * n + (j - starts ! b)"
    have off: "j - starts ! b < n" using True by linarith
    have kb: "k < B * n" "k div n = b" "k mod n = j - starts ! b"
      using off b block_index_less [of b B "j - starts ! b" n] by (simp_all add: k_def del: add_diff_assoc)
    then have at: "?idx ! k = b * T + j" using True by (simp add: idx)
    have uniq: "i = k" if i: "i < length ?idx" and eq: "?idx ! i = ?idx ! k" for i
    proof -
      have "i < B * n" using i by (simp add: idx)
      then have "i div n = k div n" and "i mod n = k mod n" using dm [of i] dm [OF kb(1)] eq by auto
      then show "i = k" by (metis div_mult_mod_eq)
    qed
    have klen: "k < length ?idx" using kb by (simp add: idx)
    have kin: "?idx ! k < length (concat rows)"
      unfolding at cr(1) by (rule block_index_less [OF b j])
    have "scatter (concat rows) ?idx (concat blocks) ! (?idx ! k) = concat blocks ! k"
      using nth_scatter_unique [OF klen kin] uniq by blast
    then show ?thesis
      using at sw True kb concat_uniform_nth [OF blocks] by simp
  next
    case False
    have "?idx ! i \<noteq> b * T + j" if "i < length ?idx" for i
    proof
      assume eq: "?idx ! i = b * T + j"
      from that have i: "i < B * n" by (simp add: idx)
      then have "i div n = b" and "j = starts ! b + i mod n" using dm [OF i] eq pos by auto
      then show False using False bound [OF i] by auto
    qed
    then show ?thesis using sw False cr(2) [OF b j] by (simp add: nth_scatter_other)
  qed
qed

lemma threshold_batch_rowwise:
  assumes rows: "length rows = B" "\<And>b. b < B \<Longrightarrow> length (rows ! b) = T"
    and starts: "length starts = B" "\<And>b. b < B \<Longrightarrow> starts ! b + n \<le> T"
  shows "threshold_batch_decode sm gumbel D it logits starts T rows n =
    Inr (tabulate B (\<lambda>b. scatter_window (rows ! b) (starts ! b)
      (threshold_block sm gumbel D it (logits ! b) (gather_window (rows ! b) (starts ! b) n))))"
proof -
  define blocks where "blocks = tabulate B (\<lambda>b. threshold_block sm gumbel D it (logits ! b)
    (gather_window (rows ! b) (starts ! b) n))"
  have bl: "length blocks = B" "\<And>b. b < B \<Longrightarrow> length (blocks ! b) = n" by (simp_all add: blocks_def)
  have "i < B * T" if mem: "i \<in> set (flat_windows T starts n)" for i
  proof -
    obtain b k where "b < B" "k < n" "i = starts ! b + k + b * T"
      using mem starts(1) by (auto simp: flat_windows_def set_tabulate)
    then show ?thesis using block_index_less [of b B "starts ! b + k" T] starts(2) [of b] by simp
  qed
  then have "\<not> list_ex (\<lambda>i. B * T \<le> i) (flat_windows T starts n)" by (fastforce simp: list_ex_iff)
  moreover have lc: "length (concat rows) = B * T"
    using concat_uniform_nth [OF rows] by simp
  have seg: "min (B * T - b * T) T = T" if "b < B" for b
  proof -
    have "Suc b * T \<le> B * T" using that by (intro mult_le_mono1) simp
    then show ?thesis by simp
  qed
  have "unflatten B T (scatter (concat rows) (flat_windows T starts n) (concat blocks)) =
      tabulate B (\<lambda>b. scatter_window (rows ! b) (starts ! b) (blocks ! b))"
    unfolding unflatten_def
    by (intro tabulate_cong nth_equalityI)
      (use rows lc seg in \<open>auto simp: flat_scatter_rowwise [OF rows starts bl] slice_def\<close>)
  moreover have "tabulate B (\<lambda>b. scatter_window (rows ! b) (starts ! b) (blocks ! b)) =
      tabulate B (\<lambda>b. scatter_window (rows ! b) (starts ! b)
        (threshold_block sm gumbel D it (logits ! b) (gather_window (rows ! b) (starts ! b) n)))"
    by (rule tabulate_cong) (simp add: blocks_def)
  ultimately show ?thesis
    unfolding threshold_batch_decode_def Let_def rows(1) blocks_def [symmetric]
    by (simp add: starts(1))
qed

section \<open>Properties\<close>

text \<open>
  C24: One threshold step of a batch: inside their rows the windows are updated row by row; a
  token changes only where it was the mask and never into the mask; every masked position whose
  greedy token is no mask and whose probability reaches the threshold is revealed; and the step
  reveals at least one position of each row, unless the greedy token of every masked position
  of the row is the mask itself, in which case the row stays as it is.
\<close>

theorem threshold_step_progress:
  assumes rows: "length rows = B" "\<forall>row \<in> set rows. length row = T"
    and starts: "length starts = B" "\<forall>s \<in> set starts. s + n \<le> T"
    and logits: "length logits = B" "\<forall>lg \<in> set logits. length lg = n \<and> probs_ok sm lg
      \<and> map length (add_gumbel_noise gumbel (td_temperature D) lg) = map length lg"
    and b: "b < B"
  shows "\<exists>rows'. threshold_batch_decode sm gumbel D None logits starts T rows n = Inr rows'
    \<and> length rows' = B
    \<and> (let x = gather_window (rows ! b) (starts ! b) n;
           y = gather_window (rows' ! b) (starts ! b) n;
           x0 = greedy (add_gumbel_noise gumbel (td_temperature D) (logits ! b));
           mid = td_mask_id D
       in rows' ! b = take (starts ! b) (rows ! b) @ y @ drop (starts ! b + n) (rows ! b)
        \<and> (\<forall>i < n. y ! i \<noteq> x ! i \<longrightarrow> x ! i = mid \<and> y ! i = x0 ! i \<and> y ! i \<noteq> mid)
        \<and> (\<forall>i < n. x ! i = mid \<and> x0 ! i \<noteq> mid
             \<and> Fin (td_threshold D) \<le> token_prob sm (logits ! b) x0 ! i \<longrightarrow> y ! i = x0 ! i)
        \<and> (if \<exists>i < n. x ! i = mid \<and> x0 ! i \<noteq> mid then mask_count mid y < mask_count mid x
           else y = x))"
proof -
  define x where "x = gather_window (rows ! b) (starts ! b) n"
  define y where "y = threshold_block sm gumbel D None (logits ! b) x"
  define x0 where "x0 = greedy (add_gumbel_noise gumbel (td_temperature D) (logits ! b))"
  have lx [simp]: "length x = n" "length y = n" by (simp_all add: x_def y_def)
  define rows' where "rows' = tabulate B (\<lambda>b. scatter_window (rows ! b) (starts ! b)
    (threshold_block sm gumbel D None (logits ! b) (gather_window (rows ! b) (starts ! b) n)))"
  have eq: "threshold_batch_decode sm gumbel D None logits starts T rows n = Inr rows'"
    unfolding rows'_def by (rule threshold_batch_rowwise) (use rows starts in auto)
  have inside: "starts ! b + n \<le> length (rows ! b)" using rows starts b by auto
  have row: "rows' ! b = scatter_window (rows ! b) (starts ! b) y"
    using b by (simp add: rows'_def y_def x_def)
  then have gy: "gather_window (rows' ! b) (starts ! b) n = y"
    using gather_scatter_window [of "starts ! b" y "rows ! b"] inside by simp
  have cut: "rows' ! b = take (starts ! b) (rows ! b) @ y @ drop (starts ! b + n) (rows ! b)"
    using scatter_window_inside [of "starts ! b" y "rows ! b"] inside row by simp
  have lg: "length (logits ! b) = length x" "probs_ok sm (logits ! b)"
    "map length (add_gumbel_noise gumbel (td_temperature D) (logits ! b)) = map length (logits ! b)"
    using logits b by (auto simp: nth_mem)
  have ch: "\<forall>i < n. y ! i \<noteq> x ! i \<longrightarrow> x ! i = td_mask_id D \<and> y ! i = x0 ! i \<and> y ! i \<noteq> td_mask_id D"
    by (auto simp: y_def x0_def threshold_block_nth)
  have hi: "\<forall>i < n. x ! i = td_mask_id D \<and> x0 ! i \<noteq> td_mask_id D
      \<and> Fin (td_threshold D) \<le> token_prob sm (logits ! b) x0 ! i \<longrightarrow> y ! i = x0 ! i"
    using order_trans [OF actual_threshold_le] by (auto simp: y_def x0_def threshold_block_nth)
  have pr: "if \<exists>i < n. x ! i = td_mask_id D \<and> x0 ! i \<noteq> td_mask_id D
      then mask_count (td_mask_id D) y < mask_count (td_mask_id D) x else y = x"
    using threshold_block_progress [OF lg(2,1,3)] threshold_block_stall [of x D gumbel "logits ! b"]
    by (auto simp: y_def x0_def)
  show ?thesis
  proof (rule exI [of _ rows'], intro conjI)
    show "length rows' = B" by (simp add: rows'_def)
    show "threshold_batch_decode sm gumbel D None logits starts T rows n = Inr rows'" by (rule eq)
  qed (unfold Let_def gy x_def [symmetric] x0_def [symmetric], intro conjI cut ch hi pr)
qed

definition ex_td :: threshold_decoder where
  "ex_td = \<lparr> td_temperature = 0, td_threshold = 9/10, td_mask_id = 2, td_eos_ids = [0] \<rparr>"

definition ex_td_logits :: "flt list list" where
  "ex_td_logits = [[Fin 0, Fin 1, Fin 0], [Fin 3, Fin 1, Fin 0]]"

theorem threshold_step_progress_witness:
  "\<exists>rows'. threshold_batch_decode ex_softmax (\<lambda>t l. l) ex_td None [ex_td_logits] [2] 4 [[7, 8, 2, 2]] 2
     = Inr rows' \<and> mask_count 2 (gather_window (rows' ! 0) 2 2) < 2"
proof -
  have x: "gather_window [7, 8, 2, 2] 2 2 = [2, 2]" by code_simp
  have g: "greedy ex_td_logits = [1, 0]" by code_simp
  have p: "probs_ok ex_softmax ex_td_logits" by code_simp
  have m: "mask_count 2 [2, 2] = 2" by code_simp
  have c: "\<exists>i < 2. [2, 2 :: nat] ! i = 2 \<and> [1, 0 :: nat] ! i \<noteq> 2" by (rule exI [of _ 0]) simp
  show ?thesis
    using threshold_step_progress [of "[[7, 8, 2, 2]]" 1 4 "[2]" 2 "[ex_td_logits]" ex_softmax
        "\<lambda>t l. l" ex_td 0] x g p m c
    by (auto simp: Let_def add_gumbel_noise_def ex_td_def ex_td_logits_def numeral_2_eq_2)
qed

text \<open>
  C25: One joint step never writes the mask and never touches an unmasked prompt token; it reveals
  at least one position while the block has masks; with editing switched off and no mask left it
  changes nothing; a token is overwritten only outside the prompt, with editing on and above the
  editing threshold; and the graph-captured step returns the tokens and the finished flag that
  the batched decoder and the predicate of the runner give.
\<close>

theorem joint_step_safe:
  fixes x pl logits s n row sm D ae
  defines "x \<equiv> gather_window row s n" and "pp \<equiv> tabulate n (\<lambda>i. s + i < pl)"
    and "y \<equiv> gather_window (joint_decode_row sm D logits s row n pl ae) s n"
  assumes inside: "s + n \<le> length row" and len: "length logits = n"
    and ok: "probs_ok sm (map (\<lambda>r. r[jd_mask_id D := NegInf]) logits)"
    and un: "unmaskable (jd_mask_id D) logits"
  shows "(\<forall>i < n. y ! i = jd_mask_id D \<longrightarrow> x ! i = jd_mask_id D)
    \<and> (\<forall>i < n. x ! i \<noteq> jd_mask_id D \<and> y ! i \<noteq> x ! i \<longrightarrow> pl \<le> s + i \<and> ae
         \<and> Fin (jd_editing_threshold D) < token_prob sm (map (\<lambda>r. r[jd_mask_id D := NegInf]) logits)
             (joint_x0 (jd_mask_id D) logits) ! i)
    \<and> (jd_mask_id D \<in> set x \<longrightarrow> mask_count (jd_mask_id D) y < mask_count (jd_mask_id D) x)
    \<and> (jd_mask_id D \<notin> set x \<and> \<not> ae \<longrightarrow> y = x)
    \<and> joint_graph_step sm D logits x pp ae =
        (y, jd_mask_id D \<in> set x, y \<noteq> x, jd_mask_id D \<notin> set x \<and> y = x)"
proof -
  define u where "u = fst (joint_threshold_update sm logits x (jd_mask_id D) (jd_threshold D)
    (jd_editing_threshold D) pp ae)"
  have lx: "length x = n" "length u = n" by (simp_all add: x_def u_def)
  have yu: "y = u"
    using gather_scatter_window [of s u row] inside lx
    by (simp add: y_def joint_decode_row_def u_def x_def pp_def Let_def)
  have len': "length logits = length x" using len lx by simp
  have nm: "\<forall>i < n. y ! i = jd_mask_id D \<longrightarrow> x ! i = jd_mask_id D"
    using joint_never_masks [OF un len'] lx unfolding yu u_def by auto
  have ed: "\<forall>i < n. x ! i \<noteq> jd_mask_id D \<and> y ! i \<noteq> x ! i \<longrightarrow> pl \<le> s + i \<and> ae
      \<and> Fin (jd_editing_threshold D) < token_prob sm (map (\<lambda>r. r[jd_mask_id D := NegInf]) logits)
             (joint_x0 (jd_mask_id D) logits) ! i"
    unfolding yu u_def using lx by (auto simp: joint_update_nth pp_def split: if_splits)
  have hm: "any_row (is_mask (jd_mask_id D) x) \<longleftrightarrow> jd_mask_id D \<in> set x"
    using mask_count_zero [of "jd_mask_id D" x] by (simp add: mask_count_def tsum_zero_iff)
  have ch: "any_row (tabulate (length x) (\<lambda>i. u ! i \<noteq> x ! i)) \<longleftrightarrow> u \<noteq> x"
    using block_unchanged_iff [of u x] lx by (auto simp: block_unchanged_def)
  have gs: "joint_graph_step sm D logits x pp ae =
      (y, jd_mask_id D \<in> set x, y \<noteq> x, jd_mask_id D \<notin> set x \<and> y = x)"
    unfolding joint_graph_step_def joint_threshold_graph_step_def Let_def u_def [symmetric] yu hm ch
    by simp
  show ?thesis
    using nm ed gs joint_progress [OF ok un len'] joint_frozen [of "jd_mask_id D" x]
    unfolding yu u_def by auto
qed

definition ex_jd :: joint_decoder where
  "ex_jd = \<lparr> jd_mask_id = 2, jd_threshold = 9/10, jd_editing_threshold = 1/2, jd_eos_ids = [0] \<rparr>"

theorem joint_step_safe_witness:
  "mask_count 2 (gather_window (joint_decode_row ex_softmax ex_jd ex_td_logits 2 [7, 8, 2, 2] 2 2 True) 2 2) < 2"
proof -
  have x: "gather_window [7, 8, 2, 2] 2 2 = [2, 2]" and m: "mask_count 2 [2, 2] = 2"
    and l: "length ex_td_logits = 2" and d: "jd_mask_id ex_jd = 2" by code_simp+
  have p: "probs_ok ex_softmax (map (\<lambda>r. r[2 := NegInf]) ex_td_logits)"
    and u: "unmaskable 2 ex_td_logits" by code_simp+
  show ?thesis
    using joint_step_safe [of 2 2 "[7, 8, 2, 2]" ex_td_logits ex_softmax ex_jd 2 True] x m l p u
    unfolding d by simp
qed

end
