(* ===== verification/KV_Cache.thy ===== *)
theory KV_Cache
  imports Tensor
begin

text \<open>
  The key/value caches (managers/kvcache/paged.py and dense.py).  A cell is what the tensor holds
  at one page and offset over both K and V, all layers, heads and dimensions
  (\<open>data[:, :, page, offset]\<close>): the operations only move whole cells, so the cache is a list
  of pages of cells.  The permutation of axes between the paged and the dense layout is not
  visible at this level.
\<close>

section \<open>PagedKVCache\<close>

record 'v paged_kv =
  kv_num_layers :: nat
  kv_batch_size :: nat
  kv_max_length :: nat
  kv_page_size :: nat
  kv_pages_per_sequence :: nat
  kv_num_dummy_pages :: nat
  kv_dummy_page_id :: int
  kv_external :: bool
  kv_num_pages :: nat
  kv_data :: "'v list list"
  kv_page_table :: "nat list list"

definition kv_init ::
    "'v \<Rightarrow> nat \<Rightarrow> nat \<Rightarrow> int \<Rightarrow> int \<Rightarrow> nat option \<Rightarrow> nat \<Rightarrow> 'v paged_kv result" where
  "kv_init zero num_layers batch_size max_length page_size num_pages reserve_dummy =
     (if page_size \<le> 0 then Inl (ValueError ''page_size must be positive'')
      else if max_length \<le> 0 then Inl (ValueError ''max_length must be positive'')
      else let per_seq = ceil_div (nat max_length) (nat page_size);
               default_pages = batch_size * per_seq;
               base = (case num_pages of Some n \<Rightarrow> n | None \<Rightarrow> default_pages);
               total = base + reserve_dummy
           in if total = 0 then Inl (ValueError ''num_pages must be positive'')
              else Inr \<lparr> kv_num_layers = num_layers, kv_batch_size = batch_size,
                     kv_max_length = nat max_length, kv_page_size = nat page_size,
                     kv_pages_per_sequence = per_seq, kv_num_dummy_pages = reserve_dummy,
                     kv_dummy_page_id = (if reserve_dummy \<noteq> 0 then int base else - 1),
                     kv_external = (num_pages \<noteq> None), kv_num_pages = total,
                     kv_data = replicate total (replicate (nat page_size) zero),
                     kv_page_table = (case num_pages of
                         None \<Rightarrow> tabulate batch_size (\<lambda>b. tabulate per_seq (\<lambda>j. b * per_seq + j))
                       | Some n \<Rightarrow> replicate batch_size (replicate per_seq 0)) \<rparr>)"

definition set_page_table :: "int \<Rightarrow> int list \<Rightarrow> 'v paged_kv \<Rightarrow> 'v paged_kv result" where
  "set_page_table seq_id pages kv =
     (if seq_id < 0 \<or> seq_id \<ge> int (kv_batch_size kv)
      then Inl (ValueError ''seq_id must be in [0, batch_size)'')
      else if length pages > kv_pages_per_sequence kv
      then Inl (ValueError ''page table row exceeds sequence capacity'')
      else if pages = [] then Inr kv
      else if list_ex (\<lambda>p. p \<le> 0) pages
      then Inl (ValueError ''scheduler page ids must be positive'')
      else if list_ex (\<lambda>p. p \<ge> int (kv_num_pages kv)) pages
      then Inl (ValueError ''scheduler page ids must be < num_pages'')
      else Inr (kv\<lparr>kv_page_table := (kv_page_table kv)[nat seq_id :=
             map nat pages @ replicate (kv_pages_per_sequence kv - length pages) 0]\<rparr>))"

text \<open>The loop stops at the first row that raises; rows set before stay set.\<close>

fun set_page_rows :: "(int \<times> int list) list \<Rightarrow> 'v paged_kv \<Rightarrow> 'v paged_kv \<times> unit result" where
  "set_page_rows [] kv = (kv, Inr ())"
| "set_page_rows ((seq, pages) # rest) kv =
     (case set_page_table seq pages kv of
        Inl e \<Rightarrow> (kv, Inl e)
      | Inr kv' \<Rightarrow> set_page_rows rest kv')"

definition set_page_tables ::
    "int list \<Rightarrow> int list list \<Rightarrow> 'v paged_kv \<Rightarrow> 'v paged_kv \<times> unit result" where
  "set_page_tables seq_ids page_rows kv =
     (if length seq_ids \<noteq> length page_rows
      then (kv, Inl (ValueError ''seq_ids and page_rows must have matching lengths''))
      else set_page_rows (zip seq_ids page_rows) kv)"

definition layer_paged_kv :: "int \<Rightarrow> ('v \<Rightarrow> nat \<Rightarrow> 'k \<times> 'k) \<Rightarrow> 'v paged_kv
    \<Rightarrow> ('k list list \<times> 'k list list) result" where
  "layer_paged_kv layer_id component kv =
     (if layer_id < 0 \<or> layer_id \<ge> int (kv_num_layers kv)
      then Inl (ValueError ''layer_id must be in [0, num_layers)'')
      else Inr (map (map (\<lambda>c. fst (component c (nat layer_id)))) (kv_data kv),
                map (map (\<lambda>c. snd (component c (nat layer_id)))) (kv_data kv)))"

text \<open>\<open>page_table[seq_id, pos // page_size]\<close>\<close>

definition page_at :: "'v paged_kv \<Rightarrow> nat \<Rightarrow> nat \<Rightarrow> nat result" where
  "page_at kv seq pos =
     result_bind (py_nth (kv_page_table kv) seq) (\<lambda>row. py_nth row (pos div kv_page_size kv))"

subsection \<open>FlashInfer metadata\<close>

record paged_meta =
  pm_indptr :: "nat list"
  pm_indices :: "nat list"
  pm_last_page_len :: "nat list"

definition selected_pages :: "'v paged_kv \<Rightarrow> nat \<Rightarrow> nat \<Rightarrow> nat list result" where
  "selected_pages kv seq page_count =
     result_bind (py_nth (kv_page_table kv) seq) (\<lambda>row.
       let pages = take page_count row in
       if kv_external kv \<and> list_ex (\<lambda>p. p = 0) pages
       then Inl (ValueError ''external page table has unset page ids'')
       else Inr pages)"

definition flashinfer_paged_metadata ::
    "nat list \<Rightarrow> int list \<Rightarrow> 'v paged_kv \<Rightarrow> paged_meta result" where
  "flashinfer_paged_metadata seq_ids lengths kv =
     (if length lengths \<noteq> length seq_ids
      then Inl (ValueError ''lengths must have one entry per seq_id'')
      else if list_ex (\<lambda>n. n \<le> 0) lengths
      then Inl (ValueError ''FlashInfer paged metadata requires positive KV lengths.'')
      else if list_ex (\<lambda>n. n > int (kv_max_length kv)) lengths
      then Inl (ValueError ''KV lengths must be <= max_length'')
      else let ns = map nat lengths;
               page_counts = map (\<lambda>n. (n + kv_page_size kv - 1) div kv_page_size kv) ns
           in result_bind (result_map (\<lambda>(seq, c). selected_pages kv seq c) (zip seq_ids page_counts))
                (\<lambda>pages. Inr \<lparr> pm_indptr = 0 # cumsum page_counts,
                               pm_indices = concat pages,
                               pm_last_page_len = map (\<lambda>n. (n - 1) mod kv_page_size kv + 1) ns \<rparr>))"

subsection \<open>Slots, writes and reads\<close>

definition slot_mapping :: "nat list \<Rightarrow> nat list list \<Rightarrow> 'v paged_kv \<Rightarrow> nat list list result" where
  "slot_mapping seq_ids positions kv =
     result_bind (result_map (\<lambda>(seq, ps). result_map (page_at kv seq) ps) (zip seq_ids positions))
       (\<lambda>pages. if kv_external kv \<and> list_ex (list_ex (\<lambda>p. p = 0)) pages
          then Inl (ValueError ''external page table has unset page ids for slot mapping'')
          else Inr (map2 (map2 (\<lambda>page pos. page * kv_page_size kv + pos mod kv_page_size kv))
                      pages positions))"

definition set_cell :: "nat \<Rightarrow> nat \<Rightarrow> 'v \<Rightarrow> 'v list list \<Rightarrow> 'v list list" where
  "set_cell page off v d = d[page := (d ! page)[off := v]]"

fun write_cells :: "nat \<Rightarrow> nat list \<Rightarrow> nat list \<Rightarrow> 'v list \<Rightarrow> 'v list list \<Rightarrow> 'v list list" where
  "write_cells ps (page # pages) (pos # poss) (v # vs) d =
     write_cells ps pages poss vs (set_cell page (pos mod ps) v d)"
| "write_cells ps _ _ _ d = d"

definition write_range :: "nat \<Rightarrow> int \<Rightarrow> 'v list \<Rightarrow> 'v paged_kv \<Rightarrow> 'v paged_kv result" where
  "write_range seq start kvs kv =
     (if start < 0 \<or> start + int (length kvs) > int (kv_max_length kv)
      then Inl (ValueError ''range must be inside cache capacity'')
      else if kvs = [] then Inr kv
      else let positions = [nat start..<nat start + length kvs] in
        result_bind (result_map (page_at kv seq) positions) (\<lambda>pages.
          if kv_external kv \<and> list_ex (\<lambda>p. p = 0) pages
          then Inl (ValueError ''external page table has unset page ids for write'')
          else Inr (kv\<lparr>kv_data := write_cells (kv_page_size kv) pages positions kvs (kv_data kv)\<rparr>)))"

definition cell :: "'v paged_kv \<Rightarrow> nat \<Rightarrow> nat \<Rightarrow> 'v result" where
  "cell kv page off = result_bind (py_nth (kv_data kv) page) (\<lambda>row. py_nth row off)"

definition read_row :: "'v paged_kv \<Rightarrow> nat \<Rightarrow> nat \<Rightarrow> 'v list result" where
  "read_row kv len seq =
     result_map (\<lambda>pos. result_bind (page_at kv seq pos)
       (\<lambda>page. cell kv page (pos mod kv_page_size kv))) [0..<len]"

definition materialize :: "nat list \<Rightarrow> int \<Rightarrow> 'v paged_kv \<Rightarrow> 'v list list result" where
  "materialize seq_ids len kv =
     (if len < 0 \<or> len > int (kv_max_length kv)
      then Inl (ValueError ''length must be in [0, max_length]'')
      else result_map (read_row kv (nat len)) seq_ids)"

section \<open>TokenArray and the dense KVCache\<close>

text \<open>A canvas: the prompts followed by masked positions.\<close>

record token_array =
  ta_prompt :: "nat list list"
  ta_data :: "nat list list"
  ta_gen_length :: nat
  ta_eos_id :: nat
  ta_mask_id :: nat

definition token_array_init :: "nat list list \<Rightarrow> nat \<Rightarrow> nat \<Rightarrow> nat \<Rightarrow> token_array" where
  "token_array_init prompt gen_length mask_id eos_id =
     \<lparr> ta_prompt = prompt, ta_data = map (\<lambda>row. row @ replicate gen_length mask_id) prompt,
       ta_gen_length = gen_length, ta_eos_id = eos_id, ta_mask_id = mask_id \<rparr>"

definition ta_total_length :: "token_array \<Rightarrow> nat" where
  "ta_total_length x = (case ta_prompt x of [] \<Rightarrow> ta_gen_length x | row # _ \<Rightarrow> length row + ta_gen_length x)"

definition ta_batch_size :: "token_array \<Rightarrow> nat" where
  "ta_batch_size x = length (ta_prompt x)"

definition get_generated_tokens :: "token_array \<Rightarrow> nat list list" where
  "get_generated_tokens x = ta_data x"

definition select_seqs :: "nat list \<Rightarrow> token_array \<Rightarrow> token_array" where
  "select_seqs idx x = x\<lparr>ta_prompt := map ((!) (ta_prompt x)) idx, ta_data := map ((!) (ta_data x)) idx\<rparr>"

text \<open>The dense cache keeps per layer the cells of K and of V by position.\<close>

fun bit_length :: "nat \<Rightarrow> nat" where
  "bit_length n = (if n = 0 then 0 else Suc (bit_length (n div 2)))"

declare bit_length.simps [simp del]

definition next_pow2 :: "nat \<Rightarrow> nat" where
  "next_pow2 n = (if n > 1 then 2 ^ bit_length (n - 1) else 1)"

definition dense_length :: "nat \<Rightarrow> nat \<Rightarrow> nat" where
  "dense_length seq_len cache_align_size =
     next_pow2 (ceil_div (seq_len + 64) cache_align_size) * cache_align_size"

type_synonym 'v dense_kv = "('v list \<times> 'v list) list"

text \<open>\<open>past_key_values\<close> alternates keys and values per layer.\<close>

fun consolidate :: "'v list list \<Rightarrow> 'v dense_kv" where
  "consolidate (k # v # rest) = (k, v) # consolidate rest"
| "consolidate _ = []"

definition dense_init :: "bool \<Rightarrow> 'v \<Rightarrow> nat \<Rightarrow> 'v list list \<Rightarrow> 'v dense_kv result" where
  "dense_init vllm zero cache_align_size past =
     (if odd (length past) then Inl AssertionError
      else if vllm then Inr (consolidate past)
      else let n = (case past of [] \<Rightarrow> 0 | k # _ \<Rightarrow> length k);
               pad = (\<lambda>c. c @ replicate (dense_length n cache_align_size - length c) zero)
           in Inr (map (\<lambda>(k, v). (pad k, pad v)) (consolidate past)))"

definition slice_scatter :: "'v list \<Rightarrow> 'v list \<Rightarrow> nat \<Rightarrow> nat \<Rightarrow> 'v list result" where
  "slice_scatter xs ys start stop =
     (if min stop (length xs) - start = length ys then Inr (take start xs @ ys @ drop (start + length ys) xs)
      else Inl (RuntimeError ''expected src to have a size equal to the slice of self''))"

definition dense_update ::
    "bool \<Rightarrow> 'v list \<Rightarrow> 'v list \<Rightarrow> nat \<Rightarrow> (nat \<times> nat) option \<Rightarrow> 'v dense_kv
      \<Rightarrow> ('v list \<times> 'v list) result" where
  "dense_update vllm key_states val_states layer_idx replace_position kv =
     result_bind (py_nth kv layer_idx) (\<lambda>(keys, vals).
       if vllm
       then (case replace_position of
               Some (a, b) \<Rightarrow> result_bind (slice_scatter keys key_states a b) (\<lambda>k.
                  result_bind (slice_scatter vals val_states a b) (\<lambda>v. Inr (k, v)))
             | None \<Rightarrow> Inr (keys @ key_states, vals @ val_states))
       else let n = length keys; b = length key_states in
            result_bind (slice_scatter keys key_states (n - b) n) (\<lambda>k.
            result_bind (slice_scatter vals val_states (n - b) n) (\<lambda>v. Inr (k, v))))"

section \<open>Well-formed caches\<close>

definition kv_wf :: "'v paged_kv \<Rightarrow> bool" where
  "kv_wf kv = (0 < kv_page_size kv
    \<and> kv_pages_per_sequence kv = ceil_div (kv_max_length kv) (kv_page_size kv)
    \<and> length (kv_data kv) = kv_num_pages kv
    \<and> (\<forall>row \<in> set (kv_data kv). length row = kv_page_size kv)
    \<and> length (kv_page_table kv) = kv_batch_size kv
    \<and> (\<forall>row \<in> set (kv_page_table kv). length row = kv_pages_per_sequence kv
         \<and> (\<forall>p \<in> set row. p < kv_num_pages kv)))"

text \<open>
  The pages that hold the first \<open>len\<close> positions of a sequence, and that they are set and
  belong to that sequence only once.
\<close>

definition seq_pages :: "'v paged_kv \<Rightarrow> nat \<Rightarrow> nat \<Rightarrow> nat list" where
  "seq_pages kv seq len = take (ceil_div len (kv_page_size kv)) (kv_page_table kv ! seq)"

definition seq_ok :: "'v paged_kv \<Rightarrow> nat \<Rightarrow> nat \<Rightarrow> bool" where
  "seq_ok kv seq len = (seq < kv_batch_size kv \<and> len \<le> kv_max_length kv
     \<and> distinct (seq_pages kv seq len) \<and> (kv_external kv \<longrightarrow> 0 \<notin> set (seq_pages kv seq len)))"

lemma ceil_div_mono_max: "0 < b \<Longrightarrow> a \<le> c \<Longrightarrow> ceil_div a b \<le> ceil_div c b"
  using ceil_div_le_iff [of b a "ceil_div c b"] ceil_div_le [of b c] by simp

lemma div_less_ceil: "0 < b \<Longrightarrow> pos < len \<Longrightarrow> pos div b < ceil_div len b"
  using ceil_div_le [of b len] by (simp add: div_less_iff_less_mult)

lemma kv_wf_row:
  assumes "kv_wf kv" and "seq < kv_batch_size kv"
  shows "length (kv_page_table kv ! seq) = ceil_div (kv_max_length kv) (kv_page_size kv)"
    and "p \<in> set (kv_page_table kv ! seq) \<Longrightarrow> p < kv_num_pages kv"
  using assms nth_mem [of seq "kv_page_table kv"] by (auto simp: kv_wf_def)


text \<open>The cell that holds a position of a sequence.\<close>

definition phys :: "'v paged_kv \<Rightarrow> nat \<Rightarrow> nat \<Rightarrow> nat \<times> nat" where
  "phys kv seq pos = (kv_page_table kv ! seq ! (pos div kv_page_size kv), pos mod kv_page_size kv)"

definition cell_of :: "'v paged_kv \<Rightarrow> nat \<Rightarrow> nat \<Rightarrow> 'v" where
  "cell_of kv seq pos = kv_data kv ! fst (phys kv seq pos) ! snd (phys kv seq pos)"

lemma phys_bounds:
  assumes "kv_wf kv" and "seq < kv_batch_size kv" and "pos < kv_max_length kv"
  shows "pos div kv_page_size kv < length (kv_page_table kv ! seq)"
    and "fst (phys kv seq pos) < kv_num_pages kv" and "snd (phys kv seq pos) < kv_page_size kv"
proof -
  have ps: "0 < kv_page_size kv" using assms(1) by (simp add: kv_wf_def)
  show b: "pos div kv_page_size kv < length (kv_page_table kv ! seq)"
    using div_less_ceil [OF ps assms(3)] kv_wf_row(1) [OF assms(1,2)] by simp
  show "fst (phys kv seq pos) < kv_num_pages kv"
    using kv_wf_row(2) [OF assms(1,2)] nth_mem [OF b] by (simp add: phys_def)
  show "snd (phys kv seq pos) < kv_page_size kv" using ps by (simp add: phys_def)
qed

lemma page_at_ok:
  assumes "kv_wf kv" and "seq < kv_batch_size kv" and "pos < kv_max_length kv"
  shows "page_at kv seq pos = Inr (fst (phys kv seq pos))"
  using phys_bounds(1) [OF assms] assms(1,2)
  by (simp add: page_at_def phys_def kv_wf_def py_nth_def)

lemma phys_in_pages:
  assumes "kv_wf kv" and "seq_ok kv seq len" and "pos < len"
  shows "pos div kv_page_size kv < length (seq_pages kv seq len)"
    and "fst (phys kv seq pos) = seq_pages kv seq len ! (pos div kv_page_size kv)"
    and "fst (phys kv seq pos) \<in> set (seq_pages kv seq len)"
proof -
  have ps: "0 < kv_page_size kv" using assms(1) by (simp add: kv_wf_def)
  have len: "len \<le> kv_max_length kv" "seq < kv_batch_size kv" using assms(2) by (simp_all add: seq_ok_def)
  then have "ceil_div len (kv_page_size kv) \<le> length (kv_page_table kv ! seq)"
    using kv_wf_row(1) [OF assms(1)] ceil_div_mono_max [OF ps] by simp
  then show b: "pos div kv_page_size kv < length (seq_pages kv seq len)"
    using div_less_ceil [OF ps assms(3)] by (simp add: seq_pages_def)
  then show eq: "fst (phys kv seq pos) = seq_pages kv seq len ! (pos div kv_page_size kv)"
    by (simp add: phys_def seq_pages_def)
  show "fst (phys kv seq pos) \<in> set (seq_pages kv seq len)" unfolding eq by (rule nth_mem [OF b])
qed

lemma phys_inj:
  assumes "kv_wf kv" and "seq_ok kv seq len" and "a < len" and "b < len"
    and "phys kv seq a = phys kv seq b"
  shows "a = b"
proof -
  have "distinct (seq_pages kv seq len)" using assms(2) by (simp add: seq_ok_def)
  moreover have "seq_pages kv seq len ! (a div kv_page_size kv)
      = seq_pages kv seq len ! (b div kv_page_size kv)"
    using phys_in_pages(2) [OF assms(1,2)] assms(3-5) by metis
  ultimately have "a div kv_page_size kv = b div kv_page_size kv"
    using phys_in_pages(1) [OF assms(1,2)] assms(3,4) by (simp add: nth_eq_iff_index_eq)
  moreover have "a mod kv_page_size kv = b mod kv_page_size kv" using assms(5) by (simp add: phys_def)
  ultimately show ?thesis by (metis div_mult_mod_eq)
qed

lemma read_row_ok:
  assumes "kv_wf kv" and "seq < kv_batch_size kv" and "len \<le> kv_max_length kv"
  shows "read_row kv len seq = Inr (map (cell_of kv seq) [0..<len])"
  unfolding read_row_def
proof (rule result_map_ok)
  fix pos assume "pos \<in> set [0..<len]"
  then have pos: "pos < kv_max_length kv" using assms(3) by simp
  note b = phys_bounds [OF assms(1,2) pos]
  have "length (kv_data kv ! fst (phys kv seq pos)) = kv_page_size kv"
    using assms(1) b(2) by (simp add: kv_wf_def)
  with b assms(1) show "result_bind (page_at kv seq pos) (\<lambda>page. cell kv page (pos mod kv_page_size kv))
      = Inr (cell_of kv seq pos)"
    by (simp add: page_at_ok [OF assms(1,2) pos] cell_def py_nth_def cell_of_def kv_wf_def)
      (simp add: phys_def)
qed

subsection \<open>Effect of a write\<close>

lemma set_cell_shape:
  "length (set_cell p k v d) = length d"
  "q < length d \<Longrightarrow> length (set_cell p k v d ! q) = length (d ! q)"
  by (simp add: set_cell_def) (cases "p = q", simp_all add: set_cell_def)

lemma nth_set_cell:
  "q < length d \<Longrightarrow> j < length (d ! q) \<Longrightarrow>
   set_cell p k v d ! q ! j = (if (q, j) = (p, k) then v else d ! q ! j)"
  by (cases "p = q") (auto simp: set_cell_def nth_list_update)

lemma write_cells_shape:
  "length (write_cells ps pages poss vs d) = length d"
  "q < length d \<Longrightarrow> length (write_cells ps pages poss vs d ! q) = length (d ! q)"
  by (induction ps pages poss vs d rule: write_cells.induct) (simp_all add: set_cell_shape)

lemma write_cells_other:
  assumes "\<And>i. i < length vs \<Longrightarrow> (q, j) \<noteq> (pages ! i, poss ! i mod ps)"
    and "length pages = length vs" and "length poss = length vs"
    and "q < length d" and "j < length (d ! q)"
  shows "write_cells ps pages poss vs d ! q ! j = d ! q ! j"
  using assms
proof (induction ps pages poss vs d rule: write_cells.induct)
  case (1 ps page pages pos poss v vs d)
  have "(q, j) \<noteq> (page, pos mod ps)" using "1.prems"(1) [of 0] by simp
  moreover have "(q, j) \<noteq> (pages ! i, poss ! i mod ps)" if "i < length vs" for i
    using "1.prems"(1) [of "Suc i"] that by simp
  ultimately show ?case
    using 1 by (auto simp: set_cell_shape nth_set_cell)
qed simp_all

lemma write_cells_at:
  assumes "length pages = length vs" and "length poss = length vs" and "i < length vs"
    and "\<And>a b. a < length vs \<Longrightarrow> b < length vs \<Longrightarrow>
      (pages ! a, poss ! a mod ps) = (pages ! b, poss ! b mod ps) \<Longrightarrow> a = b"
    and "pages ! i < length d" and "poss ! i mod ps < length (d ! (pages ! i))"
  shows "write_cells ps pages poss vs d ! (pages ! i) ! (poss ! i mod ps) = vs ! i"
  using assms
proof (induction ps pages poss vs d arbitrary: i rule: write_cells.induct)
  case (1 ps page pages pos poss v vs d)
  show ?case
  proof (cases i)
    case 0
    have "(page, pos mod ps) \<noteq> (pages ! a, poss ! a mod ps)" if "a < length vs" for a
      using "1.prems"(4) [of 0 "Suc a"] that by auto
    then have "write_cells ps pages poss vs (set_cell page (pos mod ps) v d) ! page ! (pos mod ps)
        = set_cell page (pos mod ps) v d ! page ! (pos mod ps)"
      using "1.prems" 0 by (intro write_cells_other) (auto simp: set_cell_shape)
    with 0 "1.prems" show ?thesis by (simp add: nth_set_cell)
  next
    case (Suc k)
    have "a = b" if "a < length vs" "b < length vs"
      "(pages ! a, poss ! a mod ps) = (pages ! b, poss ! b mod ps)" for a b
      using "1.prems"(4) [of "Suc a" "Suc b"] that by simp
    with "1.IH" [of k] "1.prems" Suc show ?thesis by (simp add: set_cell_shape)
  qed
qed simp_all

lemma write_range_ok:
  assumes "kv_wf kv" and "seq_ok kv seq len" and "start + length vs \<le> len"
  shows "write_range seq (int start) vs kv = Inr (kv\<lparr>kv_data := write_cells (kv_page_size kv)
      (map (\<lambda>pos. fst (phys kv seq pos)) [start..<start + length vs])
      [start..<start + length vs] vs (kv_data kv)\<rparr>)"
proof -
  have len: "len \<le> kv_max_length kv" "seq < kv_batch_size kv" using assms(2) by (simp_all add: seq_ok_def)
  have pages: "result_map (page_at kv seq) [start..<start + length vs]
      = Inr (map (\<lambda>pos. fst (phys kv seq pos)) [start..<start + length vs])"
    by (rule result_map_ok) (use assms(3) len in \<open>simp add: page_at_ok [OF assms(1)]\<close>)
  have set: "fst (phys kv seq pos) \<noteq> 0"
    if "kv_external kv" "pos \<in> {start..<start + length vs}" for pos
    using phys_in_pages(3) [OF assms(1,2), of pos] that assms(2,3)
    by (metis atLeastLessThan_iff order_less_le_trans seq_ok_def)
  have unset: "\<not> (kv_external kv \<and>
      list_ex (\<lambda>p. p = 0) (map (\<lambda>pos. fst (phys kv seq pos)) [start..<start + length vs]))"
    using set by (fastforce simp: list_ex_iff)
  show ?thesis
  proof (cases "vs = []")
    case False
    with assms(3) len show ?thesis
      unfolding write_range_def by (simp add: pages unset Let_def nat_int_add)
  qed (use assms(3) len in \<open>simp add: write_range_def\<close>)
qed


lemma write_range_effect:
  assumes "kv_wf kv" and "seq_ok kv seq len" and "start + length vs \<le> len"
    and "write_range seq (int start) vs kv = Inr kv'"
  shows "kv_wf kv'" "kv_page_table kv' = kv_page_table kv" "kv_page_size kv' = kv_page_size kv"
    and "kv_max_length kv' = kv_max_length kv" "kv_batch_size kv' = kv_batch_size kv"
    and "pos < len \<Longrightarrow> cell_of kv' seq pos
      = (if start \<le> pos \<and> pos < start + length vs then vs ! (pos - start) else cell_of kv seq pos)"
    and "(\<And>pos. pos < len \<Longrightarrow> fst (phys kv seq pos) \<noteq> fst (phys kv other opos)) \<Longrightarrow>
      other < kv_batch_size kv \<Longrightarrow> opos < kv_max_length kv \<Longrightarrow>
      cell_of kv' other opos = cell_of kv other opos"
proof -
  let ?poss = "[start..<start + length vs]"
  let ?pages = "map (\<lambda>pos. fst (phys kv seq pos)) ?poss"
  define d where "d = write_cells (kv_page_size kv) ?pages ?poss vs (kv_data kv)"
  have kv': "kv' = kv\<lparr>kv_data := d\<rparr>"
    using write_range_ok [OF assms(1-3)] assms(4) unfolding d_def by simp
  have len: "len \<le> kv_max_length kv" "seq < kv_batch_size kv" using assms(2) by (simp_all add: seq_ok_def)
  have pair: "(?pages ! i, ?poss ! i mod kv_page_size kv) = phys kv seq (start + i)" if "i < length vs" for i
    using that by (simp add: phys_def)
  have shape: "length (kv_data kv) = kv_num_pages kv"
    "\<And>q. q < kv_num_pages kv \<Longrightarrow> length (kv_data kv ! q) = kv_page_size kv"
    using assms(1) by (simp_all add: kv_wf_def)
  have "length row = kv_page_size kv" if "row \<in> set d" for row
  proof -
    from that obtain q where "q < length d" "row = d ! q" by (auto simp: in_set_conv_nth)
    with shape show ?thesis by (simp add: d_def write_cells_shape)
  qed
  moreover have "length d = length (kv_data kv)" by (simp add: d_def write_cells_shape)
  ultimately show "kv_wf kv'" using assms(1) by (simp add: kv_wf_def kv')
  show "kv_page_table kv' = kv_page_table kv" "kv_page_size kv' = kv_page_size kv"
    "kv_max_length kv' = kv_max_length kv" "kv_batch_size kv' = kv_batch_size kv"
    by (simp_all add: kv')
  have cell': "cell_of kv' s q = d ! fst (phys kv s q) ! snd (phys kv s q)" for s q
    by (simp add: cell_of_def kv' phys_def)
  have other: "cell_of kv' s q = cell_of kv s q"
    if "\<And>i. i < length vs \<Longrightarrow> phys kv s q \<noteq> phys kv seq (start + i)"
      "s < kv_batch_size kv" "q < kv_max_length kv" for s q
  proof -
    have "d ! fst (phys kv s q) ! snd (phys kv s q) = kv_data kv ! fst (phys kv s q) ! snd (phys kv s q)"
      unfolding d_def
    proof (rule write_cells_other)
      show "(fst (phys kv s q), snd (phys kv s q)) \<noteq> (?pages ! i, ?poss ! i mod kv_page_size kv)"
        if "i < length vs" for i
        using pair [OF that] \<open>\<And>i. i < length vs \<Longrightarrow> phys kv s q \<noteq> phys kv seq (start + i)\<close> that by simp
    qed (use phys_bounds [OF assms(1) that(2,3)] shape in simp_all)
    then show ?thesis by (simp only: cell' cell_of_def [of kv])
  qed
  show "cell_of kv' seq pos
      = (if start \<le> pos \<and> pos < start + length vs then vs ! (pos - start) else cell_of kv seq pos)"
    if pos: "pos < len"
  proof (cases "start \<le> pos \<and> pos < start + length vs")
    case True
    define i where "i = pos - start"
    have i: "i < length vs" "pos = start + i" using True by (auto simp: i_def)
    have inj: "a = b" if "a < length vs" "b < length vs"
      "(?pages ! a, ?poss ! a mod kv_page_size kv) = (?pages ! b, ?poss ! b mod kv_page_size kv)" for a b
    proof -
      have "phys kv seq (start + a) = phys kv seq (start + b)" using that pair by metis
      from phys_inj [OF assms(1,2) _ _ this] that(1,2) assms(3) show ?thesis by simp
    qed
    have "pos < kv_max_length kv" using pos len(1) by linarith
    note b = phys_bounds [OF assms(1) len(2) this]
    have "d ! (?pages ! i) ! (?poss ! i mod kv_page_size kv) = vs ! i"
      unfolding d_def by (rule write_cells_at [OF _ _ i(1) inj]) (use b i shape in \<open>auto simp: phys_def\<close>)
    then show ?thesis using True pair [OF i(1)] i by (simp add: cell' phys_def)
  next
    case False
    have "phys kv seq pos \<noteq> phys kv seq (start + i)" if "i < length vs" for i
      using phys_inj [OF assms(1,2) pos, of "start + i"] that False assms(3) by auto
    with other len pos False show ?thesis by auto
  qed
  show "cell_of kv' other opos = cell_of kv other opos"
    if "\<And>pos. pos < len \<Longrightarrow> fst (phys kv seq pos) \<noteq> fst (phys kv other opos)"
      "other < kv_batch_size kv" "opos < kv_max_length kv"
    using other that assms(3) by (metis nat_add_left_cancel_less order_less_le_trans)
qed

section \<open>The internal page table\<close>

lemma kv_init_wf:
  assumes "kv_init zero nl b ml ps np rd = Inr kv"
  shows "kv_wf kv"
proof (cases np)
  case None
  have "row \<in> set (tabulate b (\<lambda>s. tabulate n (\<lambda>j. s * n + j))) \<Longrightarrow> p \<in> set row \<Longrightarrow> p < b * n + rd"
    for n p row
  proof -
    assume "row \<in> set (tabulate b (\<lambda>s. tabulate n (\<lambda>j. s * n + j)))" "p \<in> set row"
    then obtain s where s: "s < b" "p < n + s * n" by (auto simp: tabulate_def)
    then have "p < Suc s * n" by simp
    also have "\<dots> \<le> b * n" using s(1) by (intro mult_le_mono1) simp
    finally show ?thesis by simp
  qed
  with None assms show ?thesis
    by (auto simp: kv_init_def kv_wf_def Let_def tabulate_def split: if_splits)
qed (use assms in \<open>auto simp: kv_init_def kv_wf_def Let_def split: if_splits\<close>)

lemma internal_pages:
  assumes "kv_init zero nl b ml ps None rd = Inr kv" and "s < b"
  shows "kv_page_table kv ! s = map (\<lambda>j. s * kv_pages_per_sequence kv + j) [0..<kv_pages_per_sequence kv]"
    "kv_batch_size kv = b" "\<not> kv_external kv"
  using assms by (auto simp: kv_init_def Let_def tabulate_def split: if_splits)

lemma internal_seq_ok:
  assumes "kv_init zero nl b ml ps None rd = Inr kv" and "s < b" and "len \<le> kv_max_length kv"
  shows "seq_ok kv s len"
proof -
  have "distinct (kv_page_table kv ! s)"
    by (simp add: internal_pages [OF assms(1,2)] distinct_map inj_on_def)
  then show ?thesis
    using internal_pages(2,3) [OF assms(1,2)] assms(2,3) by (simp add: seq_ok_def seq_pages_def)
qed

section \<open>Properties\<close>

text \<open>The cache of the witnesses: two sequences of two pages of two cells.\<close>

definition ex_kv :: "int paged_kv" where
  "ex_kv = \<lparr> kv_num_layers = 2, kv_batch_size = 2, kv_max_length = 4, kv_page_size = 2,
     kv_pages_per_sequence = 2, kv_num_dummy_pages = 0, kv_dummy_page_id = - 1, kv_external = True,
     kv_num_pages = 5, kv_data = replicate 5 [0, 0], kv_page_table = [[3, 4], [2, 0]] \<rparr>"

lemma ex_kv_ok: "kv_wf ex_kv" "seq_ok ex_kv 0 4" "seq_ok ex_kv (Suc 0) 2"
  by (auto simp: ex_kv_def kv_wf_def seq_ok_def seq_pages_def ceil_div_def)

text \<open>
  C22: Writing a range of a sequence and reading the sequence back returns the written cells in
  place and every other cell of the sequence as it was; the write succeeds whenever the range
  lies in the part of the sequence whose pages are set.
\<close>

theorem kv_write_read:
  assumes "kv_wf kv" and "seq_ok kv seq len" and "start + length vs \<le> len"
  shows "\<exists>kv' old. write_range seq (int start) vs kv = Inr kv'
    \<and> materialize [seq] (int len) kv = Inr [old]
    \<and> materialize [seq] (int len) kv'
        = Inr [take start old @ vs @ drop (start + length vs) old]"
proof -
  obtain kv' where w: "write_range seq (int start) vs kv = Inr kv'"
    using write_range_ok [OF assms] by blast
  note eff = write_range_effect [OF assms w]
  have len: "len \<le> kv_max_length kv" "seq < kv_batch_size kv" using assms(2) by (simp_all add: seq_ok_def)
  let ?old = "map (cell_of kv seq) [0..<len]"
  have m: "materialize [seq] (int len) kv = Inr [?old]"
    using len read_row_ok [OF assms(1)] by (simp add: materialize_def)
  have m': "materialize [seq] (int len) kv' = Inr [map (cell_of kv' seq) [0..<len]]"
    using len eff(4,5) read_row_ok [OF eff(1)] by (simp add: materialize_def)
  have "map (cell_of kv' seq) [0..<len] = take start ?old @ vs @ drop (start + length vs) ?old"
    by (rule nth_equalityI)
      (use assms(3) in \<open>auto simp: eff(6) nth_append nth_append_right less_diff_conv2\<close>)
  with w m m' show ?thesis by auto
qed

theorem kv_write_read_witness:
  "\<exists>kv' old. write_range 0 (int 1) [7, 8] ex_kv = Inr kv' \<and> materialize [0] (int 4) ex_kv = Inr [old]
     \<and> materialize [0] (int 4) kv' = Inr [take 1 old @ [7, 8] @ drop (1 + length [7, 8 :: int]) old]"
  by (rule kv_write_read [OF ex_kv_ok(1,2)]) simp




lemma div_mod_slot_inj:
  fixes a b :: nat
  assumes "a * n + i = b * n + j" and "i < n" and "j < n"
  shows "a = b \<and> i = j"
proof -
  have "(a * n + i) div n = (b * n + j) div n" "(a * n + i) mod n = (b * n + j) mod n"
    using assms(1) by simp_all
  then show ?thesis using assms(2,3) by simp
qed

lemma slot_mapping_two:
  assumes "kv_wf kv" and "seq_ok kv s1 n1" and "seq_ok kv s2 n2" and "p1 < n1" and "p2 < n2"
  shows "slot_mapping [s1, s2] [[p1], [p2]] kv
    = Inr [[fst (phys kv s1 p1) * kv_page_size kv + p1 mod kv_page_size kv],
           [fst (phys kv s2 p2) * kv_page_size kv + p2 mod kv_page_size kv]]"
proof -
  have b: "s1 < kv_batch_size kv" "s2 < kv_batch_size kv" "p1 < kv_max_length kv" "p2 < kv_max_length kv"
    using assms(2-5) by (simp_all add: seq_ok_def)
  have "kv_external kv \<Longrightarrow> fst (phys kv s1 p1) \<noteq> 0 \<and> fst (phys kv s2 p2) \<noteq> 0"
    using phys_in_pages(3) [OF assms(1,2,4)] phys_in_pages(3) [OF assms(1,3,5)] assms(2,3)
    by (metis seq_ok_def)
  then show ?thesis
    by (auto simp: slot_mapping_def page_at_ok [OF assms(1)] b)
qed

text \<open>
  Slots never collide: two different positions, of one sequence or of two sequences that share
  no page, are mapped to two different slots, and every slot lies inside the cache.
\<close>

lemma slot_mapping_injective:
  assumes "kv_wf kv" and "seq_ok kv s1 n1" and "seq_ok kv s2 n2" and "p1 < n1" and "p2 < n2"
    and "s1 = s2 \<Longrightarrow> n1 = n2 \<and> p1 \<noteq> p2"
    and "s1 \<noteq> s2 \<Longrightarrow> set (seq_pages kv s1 n1) \<inter> set (seq_pages kv s2 n2) = {}"
  shows "\<exists>a b. slot_mapping [s1, s2] [[p1], [p2]] kv = Inr [[a], [b]] \<and> a \<noteq> b
    \<and> a < kv_num_pages kv * kv_page_size kv \<and> b < kv_num_pages kv * kv_page_size kv"
proof -
  let ?ps = "kv_page_size kv"
  let ?slot = "\<lambda>s p. fst (phys kv s p) * ?ps + p mod ?ps"
  have ps: "0 < ?ps" using assms(1) by (simp add: kv_wf_def)
  have b: "s1 < kv_batch_size kv" "s2 < kv_batch_size kv" "p1 < kv_max_length kv" "p2 < kv_max_length kv"
    using assms(2-5) by (simp_all add: seq_ok_def)
  have bound: "?slot s p < kv_num_pages kv * ?ps"
    if "s < kv_batch_size kv" "p < kv_max_length kv" for s p
  proof -
    have "?slot s p < Suc (fst (phys kv s p)) * ?ps" using ps by simp
    also have "\<dots> \<le> kv_num_pages kv * ?ps"
      using phys_bounds(2) [OF assms(1) that] by (intro mult_le_mono1) simp
    finally show ?thesis .
  qed
  have "phys kv s1 p1 \<noteq> phys kv s2 p2"
  proof (cases "s1 = s2")
    case True
    with assms(4-6) phys_inj [OF assms(1,2,4), of p2] show ?thesis by auto
  next
    case False
    with assms(7) phys_in_pages(3) [OF assms(1,2,4)] phys_in_pages(3) [OF assms(1,3,5)]
    show ?thesis by auto
  qed
  then have "?slot s1 p1 \<noteq> ?slot s2 p2"
    using div_mod_slot_inj [of "fst (phys kv s1 p1)" ?ps "p1 mod ?ps" "fst (phys kv s2 p2)" "p2 mod ?ps"] ps
    by (auto simp: phys_def)
  with bound b slot_mapping_two [OF assms(1-5)] show ?thesis by blast
qed

lemma slot_mapping_injective_witness:
  "\<exists>a b. slot_mapping [0, Suc 0] [[3], [0]] ex_kv = Inr [[a], [b]] \<and> a \<noteq> b
    \<and> a < kv_num_pages ex_kv * kv_page_size ex_kv \<and> b < kv_num_pages ex_kv * kv_page_size ex_kv"
  by (rule slot_mapping_injective [OF ex_kv_ok]) (simp_all add: ex_kv_def seq_pages_def ceil_div_def)

lemma ceil_div_last_page:
  assumes "0 < b" and "0 < n"
  shows "(ceil_div n b - 1) * b + ((n - 1) mod b + 1) = n"
  using assms by (simp add: ceil_div_pos div_mult_mod_eq)

lemma selected_pages_ok:
  assumes "kv_wf kv" and "seq_ok kv seq len"
  shows "selected_pages kv seq (ceil_div len (kv_page_size kv)) = Inr (seq_pages kv seq len)"
  using assms by (auto simp: selected_pages_def seq_ok_def seq_pages_def kv_wf_def py_nth_def list_ex_iff)

lemma seq_pages_length:
  assumes "kv_wf kv" and "seq_ok kv seq len"
  shows "length (seq_pages kv seq len) = ceil_div len (kv_page_size kv)"
proof -
  have "ceil_div len (kv_page_size kv) \<le> ceil_div (kv_max_length kv) (kv_page_size kv)"
    using assms by (intro ceil_div_mono_max) (simp_all add: kv_wf_def seq_ok_def)
  with assms show ?thesis by (simp add: seq_pages_def seq_ok_def kv_wf_row(1))
qed


lemma metadata_value:
  assumes "kv_wf kv" and "length lens = length seqs"
    and "\<And>i. i < length seqs \<Longrightarrow> seq_ok kv (seqs ! i) (lens ! i) \<and> 0 < lens ! i"
  shows "flashinfer_paged_metadata seqs (map int lens) kv
    = Inr \<lparr> pm_indptr = 0 # cumsum (map (\<lambda>n. ceil_div n (kv_page_size kv)) lens),
        pm_indices = concat (map2 (seq_pages kv) seqs lens),
        pm_last_page_len = map (\<lambda>n. (n - 1) mod kv_page_size kv + 1) lens \<rparr>"
proof -
  have mem: "\<exists>i < length seqs. n = lens ! i" if "n \<in> set lens" for n
    using that assms(2) by (auto simp: in_set_conv_nth)
  have pos: "\<not> list_ex (\<lambda>n. n \<le> 0) (map int lens)"
    using mem assms(3) by (fastforce simp: list_ex_iff)
  have le: "\<not> list_ex (\<lambda>n. n > int (kv_max_length kv)) (map int lens)"
    using mem assms(3) by (fastforce simp: list_ex_iff seq_ok_def)
  let ?counts = "map (\<lambda>n. ceil_div n (kv_page_size kv)) lens"
  have counts: "map (\<lambda>n. (n + kv_page_size kv - 1) div kv_page_size kv) (map nat (map int lens)) = ?counts"
    by (simp add: ceil_div_def)
  have zip: "zip seqs ?counts = map (\<lambda>(s, n). (s, ceil_div n (kv_page_size kv))) (zip seqs lens)"
    by (simp add: zip_map2)
  have "result_map (\<lambda>(seq, c). selected_pages kv seq c) (zip seqs ?counts)
      = Inr (map (\<lambda>(s, c). take c (kv_page_table kv ! s)) (zip seqs ?counts))"
  proof (rule result_map_ok)
    fix x assume "x \<in> set (zip seqs ?counts)"
    then obtain i where i: "i < length seqs" "x = (seqs ! i, ceil_div (lens ! i) (kv_page_size kv))"
      using assms(2) by (auto simp: set_zip)
    with selected_pages_ok [OF assms(1)] assms(3)
    show "(case x of (seq, c) \<Rightarrow> selected_pages kv seq c)
        = Inr (case x of (s, c) \<Rightarrow> take c (kv_page_table kv ! s))"
      by (simp add: seq_pages_def)
  qed
  moreover have "map (\<lambda>(s, c). take c (kv_page_table kv ! s)) (zip seqs ?counts)
      = map2 (seq_pages kv) seqs lens"
    by (auto simp: zip seq_pages_def)
  ultimately show ?thesis
    unfolding flashinfer_paged_metadata_def Let_def counts using assms(2) pos le
    by (simp add: comp_def)
qed

lemma cumsum_Suc_nth: "i < length xs \<Longrightarrow> (0 # cumsum xs) ! i = seg_start xs i"
  by (cases i) (simp_all add: cumsum_def seg_start_def)

lemma indptr_nth: "i \<le> length xs \<Longrightarrow> (0 # cumsum xs) ! i = seg_start xs i"
  by (cases i) (simp_all add: cumsum_def seg_start_def)

text \<open>
  The FlashInfer metadata describes the sequences exactly: for sequences whose pages are set,
  the index pointers delimit, for each sequence, the pages that hold it, and the page count and
  the last page length give back its length.
\<close>

lemma paged_metadata_exact:
  assumes "kv_wf kv" and "length lens = length seqs"
    and "\<forall>i < length seqs. seq_ok kv (seqs ! i) (lens ! i) \<and> 0 < lens ! i"
  shows "\<exists>m. flashinfer_paged_metadata seqs (map int lens) kv = Inr m
    \<and> length (pm_indptr m) = length seqs + 1 \<and> pm_indptr m ! 0 = 0
    \<and> pm_indptr m ! length seqs = length (pm_indices m)
    \<and> (\<forall>i < length seqs.
         slice (pm_indptr m ! i) (pm_indptr m ! Suc i) (pm_indices m) = seq_pages kv (seqs ! i) (lens ! i)
       \<and> (pm_indptr m ! Suc i - pm_indptr m ! i - 1) * kv_page_size kv + pm_last_page_len m ! i = lens ! i
       \<and> 1 \<le> pm_last_page_len m ! i \<and> pm_last_page_len m ! i \<le> kv_page_size kv)"
proof -
  let ?cs = "map (\<lambda>n. ceil_div n (kv_page_size kv)) lens"
  let ?pages = "map2 (seq_pages kv) seqs lens"
  have ps: "0 < kv_page_size kv" using assms(1) by (simp add: kv_wf_def)
  have ok: "seq_ok kv (seqs ! i) (lens ! i)" "0 < lens ! i" if "i < length seqs" for i
    using assms(3) that by simp_all
  have lens: "map length ?pages = ?cs"
    by (rule nth_equalityI) (use assms(2) ok seq_pages_length [OF assms(1)] in auto)
  have seg: "seg_start ?cs (Suc i) = seg_start ?cs i + ceil_div (lens ! i) (kv_page_size kv)"
    if "i < length seqs" for i
    using that assms(2) by (simp add: seg_start_Suc)
  have slice: "slice (seg_start ?cs i) (seg_start ?cs (Suc i)) (concat ?pages) = seq_pages kv (seqs ! i) (lens ! i)"
    if i: "i < length seqs" for i
  proof (rule nth_equalityI)
    have le: "seg_start ?cs (Suc i) \<le> length (concat ?pages)"
      using seg_end_le_total [of i ?cs] i assms(2) lens by (simp add: seg [OF i] length_concat)
    show len: "length (slice (seg_start ?cs i) (seg_start ?cs (Suc i)) (concat ?pages))
        = length (seq_pages kv (seqs ! i) (lens ! i))"
      using le seq_pages_length [OF assms(1) ok(1) [OF i]] by (simp add: seg [OF i])
    fix j assume "j < length (slice (seg_start ?cs i) (seg_start ?cs (Suc i)) (concat ?pages))"
    with len have j: "j < length (seq_pages kv (seqs ! i) (lens ! i))" by simp
    have "concat ?pages ! (seg_start ?cs i + j) = ?pages ! i ! j"
      using nth_concat_seg [of i ?pages j] i j assms(2) lens by simp
    with i j assms(2) le seq_pages_length [OF assms(1) ok(1) [OF i]]
    show "slice (seg_start ?cs i) (seg_start ?cs (Suc i)) (concat ?pages) ! j
        = seq_pages kv (seqs ! i) (lens ! i) ! j"
      by (simp add: seg [OF i])
  qed
  have total: "seg_start ?cs (length seqs) = length (concat ?pages)"
    using lens assms(2) by (simp add: seg_start_def length_concat)
  let ?m = "\<lparr> pm_indptr = 0 # cumsum ?cs, pm_indices = concat ?pages,
      pm_last_page_len = map (\<lambda>n. (n - 1) mod kv_page_size kv + 1) lens \<rparr>"
  have ptr: "pm_indptr ?m ! i = seg_start ?cs i" if "i \<le> length seqs" for i
    using indptr_nth [of i ?cs] that assms(2) by simp
  have "flashinfer_paged_metadata seqs (map int lens) kv = Inr ?m"
    by (rule metadata_value [OF assms(1,2)]) (use ok in simp)
  moreover have "length (pm_indptr ?m) = length seqs + 1" using assms(2) by simp
  moreover have "pm_indptr ?m ! length seqs = length (pm_indices ?m)" using ptr total by simp
  moreover have "slice (pm_indptr ?m ! i) (pm_indptr ?m ! Suc i) (pm_indices ?m) = seq_pages kv (seqs ! i) (lens ! i)
       \<and> (pm_indptr ?m ! Suc i - pm_indptr ?m ! i - 1) * kv_page_size kv + pm_last_page_len ?m ! i = lens ! i
       \<and> 1 \<le> pm_last_page_len ?m ! i \<and> pm_last_page_len ?m ! i \<le> kv_page_size kv"
    if i: "i < length seqs" for i
  proof -
    have p: "pm_indptr ?m ! i = seg_start ?cs i" "pm_indptr ?m ! Suc i = seg_start ?cs (Suc i)"
      using ptr [of i] ptr [of "Suc i"] i by (simp_all only: less_imp_le Suc_leI)
    have l: "pm_last_page_len ?m ! i = (lens ! i - 1) mod kv_page_size kv + 1" using i assms(2) by simp
    show ?thesis
      unfolding p l using slice [OF i] ceil_div_last_page [OF ps ok(2) [OF i]] ps
      by (simp add: seg [OF i] Suc_le_eq)
  qed
  ultimately show ?thesis by (intro exI [of _ ?m]) simp
qed

lemma paged_metadata_exact_witness:
  "\<exists>m. flashinfer_paged_metadata [0, Suc 0] (map int [3, 2]) ex_kv = Inr m
     \<and> pm_indptr m ! length [0, Suc 0] = length (pm_indices m)"
proof -
  have "\<forall>i < length [0, Suc 0]. seq_ok ex_kv ([0, Suc 0] ! i) ([3, 2] ! i) \<and> (0::nat) < [3, 2] ! i"
    by (auto simp: less_Suc_eq ex_kv_def seq_ok_def seq_pages_def ceil_div_def)
  with paged_metadata_exact [OF ex_kv_ok(1), of "[3, 2]" "[0, Suc 0]"] show ?thesis by auto
qed

text \<open>
  Setting a page-table row either raises and changes nothing or, exactly for an id in range and
  a row of positive page ids inside the cache that fits, replaces that row alone and keeps the
  cache well-formed.
\<close>

lemma set_page_table_exact:
  assumes "kv_wf kv"
  shows "(is_ok (set_page_table seq pages kv) \<longleftrightarrow> 0 \<le> seq \<and> seq < int (kv_batch_size kv)
       \<and> length pages \<le> kv_pages_per_sequence kv
       \<and> (\<forall>p \<in> set pages. 0 < p \<and> p < int (kv_num_pages kv)))
    \<and> (\<forall>kv'. set_page_table seq pages kv = Inr kv' \<longrightarrow> kv_wf kv' \<and> kv_data kv' = kv_data kv
       \<and> (pages \<noteq> [] \<longrightarrow> take (length pages) (kv_page_table kv' ! nat seq) = map nat pages)
       \<and> (\<forall>s. s \<noteq> nat seq \<longrightarrow> kv_page_table kv' ! s = kv_page_table kv ! s))"
proof -
  have ok: "is_ok (set_page_table seq pages kv) \<longleftrightarrow> 0 \<le> seq \<and> seq < int (kv_batch_size kv)
       \<and> length pages \<le> kv_pages_per_sequence kv
       \<and> (\<forall>p \<in> set pages. 0 < p \<and> p < int (kv_num_pages kv))"
    by (auto simp: set_page_table_def list_ex_iff not_le not_less)
  have "kv_wf kv' \<and> kv_data kv' = kv_data kv
       \<and> (pages \<noteq> [] \<longrightarrow> take (length pages) (kv_page_table kv' ! nat seq) = map nat pages)
       \<and> (\<forall>s. s \<noteq> nat seq \<longrightarrow> kv_page_table kv' ! s = kv_page_table kv ! s)"
    if r: "set_page_table seq pages kv = Inr kv'" for kv'
  proof (cases "pages = []")
    case True
    with r assms show ?thesis by (auto simp: set_page_table_def split: if_splits)
  next
    case False
    let ?row = "map nat pages @ replicate (kv_pages_per_sequence kv - length pages) 0"
    have b: "0 \<le> seq" "seq < int (kv_batch_size kv)" "length pages \<le> kv_pages_per_sequence kv"
      "\<forall>p \<in> set pages. 0 < p \<and> p < int (kv_num_pages kv)"
      using ok r by auto
    have kv': "kv' = kv\<lparr>kv_page_table := (kv_page_table kv)[nat seq := ?row]\<rparr>"
      using r False b by (auto simp: set_page_table_def split: if_splits)
    have np: "0 < kv_num_pages kv" using b(4) False by (cases pages) auto
    have row: "length ?row = kv_pages_per_sequence kv" "\<forall>p \<in> set ?row. p < kv_num_pages kv"
      using b(3,4) np by auto
    have "kv_wf kv'"
      using assms row unfolding kv_wf_def kv' by (auto dest!: set_update_subset_insert [THEN subsetD])
    moreover have "nat seq < length (kv_page_table kv)" using assms b by (simp add: kv_wf_def)
    ultimately show ?thesis by (simp add: kv')
  qed
  with ok show ?thesis by blast
qed

lemma set_page_table_exact_witness:
  "is_ok (set_page_table 0 [2, 4] ex_kv) \<longleftrightarrow> (0::int) \<le> 0 \<and> 0 < int (kv_batch_size ex_kv)
       \<and> length [2, 4 :: int] \<le> kv_pages_per_sequence ex_kv
       \<and> list_all (\<lambda>p. 0 < p \<and> p < int (kv_num_pages ex_kv)) [2, 4]"
  using set_page_table_exact [OF ex_kv_ok(1), of 0 "[2, 4]", THEN conjunct1] by simp

lemma bit_length_bounds: "n < 2 ^ bit_length n \<and> (0 < n \<longrightarrow> 2 ^ (bit_length n - 1) \<le> n)"
proof (induction n rule: bit_length.induct)
  case (1 n)
  show ?case
  proof (cases "n = 0")
    case False
    then have step: "bit_length n = Suc (bit_length (n div 2))" by (simp add: bit_length.simps [of n])
    from 1 False have IH: "n div 2 < 2 ^ bit_length (n div 2)"
      "0 < n div 2 \<longrightarrow> 2 ^ (bit_length (n div 2) - 1) \<le> n div 2" by simp_all
    have up: "n < 2 ^ bit_length n" unfolding step using IH(1) by simp
    show ?thesis
    proof (cases "n div 2 = 0")
      case True
      with False have "n = 1" by simp
      then show ?thesis by (simp add: bit_length.simps)
    next
      case False
      then have "0 < bit_length (n div 2)" by (simp add: bit_length.simps [of "n div 2"])
      then have "(2::nat) ^ bit_length (n div 2) = 2 * 2 ^ (bit_length (n div 2) - 1)"
        by (metis Suc_pred' power_Suc)
      moreover have "2 * (n div 2) \<le> n" by simp
      ultimately have "2 ^ bit_length (n div 2) \<le> n"
        using IH(2) False by (metis le_trans mult_le_mono2 neq0_conv)
      with up step show ?thesis by simp
    qed
  qed (simp add: bit_length.simps)
qed


text \<open>
  The dense cache is allocated with a power-of-two number of alignment units that covers the
  sequence and its 64 extra positions, and with less than twice the units needed.
\<close>

lemma dense_length_bounds:
  assumes "0 < align"
  shows "\<exists>k. dense_length n align = 2 ^ k * align
    \<and> n + 64 \<le> dense_length n align \<and> dense_length n align < 2 * (ceil_div (n + 64) align * align)"
proof -
  let ?u = "ceil_div (n + 64) align"
  have u: "0 < ?u" using ceil_div_le [OF assms, of "n + 64"] by (cases ?u) auto
  have "\<exists>k. next_pow2 ?u = 2 ^ k" by (auto simp: next_pow2_def intro: exI [of _ 0])
  moreover have "?u \<le> next_pow2 ?u"
    using bit_length_bounds [of "?u - 1"] by (auto simp: next_pow2_def)
  moreover have "next_pow2 ?u < 2 * ?u"
  proof (cases "1 < ?u")
    case True
    let ?b = "bit_length (?u - 1)"
    have "?u - 1 \<noteq> 0" using True by simp
    then have "0 < ?b" using bit_length.simps [of "?u - 1"] by simp
    then have "(2::nat) ^ ?b = 2 * 2 ^ (?b - 1)" by (metis Suc_pred' power_Suc)
    also have "\<dots> \<le> 2 * (?u - 1)" using bit_length_bounds [of "?u - 1"] True by simp
    finally show ?thesis using True by (simp add: next_pow2_def)
  qed (use u in \<open>simp add: next_pow2_def\<close>)
  ultimately show ?thesis
    using ceil_div_le [OF assms, of "n + 64"] assms
    by (auto simp: dense_length_def intro: le_trans [OF _ mult_le_mono1])
qed

lemma dense_length_bounds_witness:
  "\<exists>k. dense_length 200 128 = 2 ^ k * 128 \<and> 200 + 64 \<le> dense_length 200 128
     \<and> dense_length 200 128 < 2 * (ceil_div (200 + 64) 128 * 128)"
  by (rule dense_length_bounds) simp

end
