(* ===== verification/Edit_Budget.thy ===== *)
theory Edit_Budget
  imports Threshold KV_Cache
begin

text \<open>
  Helpers of the LLaDA runners (execution/runners/llada/utils.py): the per-row iteration budget
  of a decode loop, the selection of rows for a batch, block gathering and the end-of-sequence
  scan; and the contract a block decoder fulfils towards the budget, as a locale with the
  threshold and the joint decoder as its instances.
\<close>

section \<open>DecodeEditBudget\<close>

record edit_budget =
  eb_max_post_steps :: nat
  eb_block_length :: nat
  eb_override :: "nat option"
  eb_post_steps :: "nat list"
  eb_block_iters :: "nat list"
  eb_update_calls :: nat

definition budget_init :: "nat \<Rightarrow> nat \<Rightarrow> nat \<Rightarrow> nat option \<Rightarrow> edit_budget" where
  "budget_init num_rows max_post block_length override =
     \<lparr> eb_max_post_steps = max_post, eb_block_length = block_length, eb_override = override,
       eb_post_steps = replicate num_rows 0, eb_block_iters = replicate num_rows 0,
       eb_update_calls = 0 \<rparr>"

definition budget_max_iters :: "edit_budget \<Rightarrow> nat" where
  "budget_max_iters eb = (case eb_override eb of Some n \<Rightarrow> n
     | None \<Rightarrow> eb_block_length eb + eb_max_post_steps eb + 1)"

definition allow_edit :: "edit_budget \<Rightarrow> nat list \<Rightarrow> bool list" where
  "allow_edit eb seq_ids = map (\<lambda>s. eb_post_steps eb ! s < eb_max_post_steps eb) seq_ids"

text \<open>\<open>t[ids] = vals\<close> is \<open>scatter t ids vals\<close>, \<open>ids[flags]\<close> keeps the flagged ids.\<close>

definition budget_count :: "edit_budget \<Rightarrow> nat list \<Rightarrow> bool list \<Rightarrow> bool list \<Rightarrow> bool list \<Rightarrow> edit_budget" where
  "budget_count eb seq_ids hm ch fin =
     (let post = scatter (eb_post_steps eb) seq_ids (tabulate (length seq_ids) (\<lambda>k.
            eb_post_steps eb ! (seq_ids ! k) + (if \<not> hm ! k \<and> ch ! k then 1 else 0)));
          iters = scatter (eb_block_iters eb) seq_ids (tabulate (length seq_ids) (\<lambda>k.
            eb_block_iters eb ! (seq_ids ! k) + 1));
          finished_ids = map fst (filter snd (zip seq_ids fin));
          zeros = replicate (length finished_ids) 0
      in eb\<lparr> eb_post_steps := scatter post finished_ids zeros,
             eb_block_iters := scatter iters finished_ids zeros,
             eb_update_calls := eb_update_calls eb + 1 \<rparr>)"

definition budget_update ::
  "edit_budget \<Rightarrow> nat list \<Rightarrow> bool list \<Rightarrow> bool list \<Rightarrow> bool list \<Rightarrow> edit_budget result" where
  "budget_update eb seq_ids hm ch fin =
     (let eb' = budget_count eb seq_ids hm ch fin
      in if eb_update_calls eb' mod budget_max_iters eb' = 0
            \<and> list_ex (\<lambda>n. budget_max_iters eb' \<le> n) (eb_block_iters eb')
         then Inl (RuntimeError ''decode block did not finish within the budget'')
         else Inr eb')"

section \<open>Selection and gathering\<close>

definition align_exp2 :: "nat \<Rightarrow> nat" where
  "align_exp2 x = 2 ^ (if x = 0 then 0 else bit_length x)"

definition gather_blocks :: "token list list \<Rightarrow> nat list \<Rightarrow> nat \<Rightarrow> token list list result" where
  "gather_blocks rows idx block_length =
     result_map (\<lambda>(row, s). result_map (\<lambda>i. py_nth row (s + i)) [0..<block_length]) (zip rows idx)"

definition nonzero :: "bool list \<Rightarrow> nat list" where
  "nonzero flags = filter (\<lambda>i. flags ! i) [0..<length flags]"

definition select_batch_sequences_by_mask_number ::
  "token list list \<Rightarrow> bool list \<Rightarrow> token \<Rightarrow> nat \<Rightarrow> nat list" where
  "select_batch_sequences_by_mask_number rows valid_flag mid batch_size =
     take batch_size (sort_key (\<lambda>s. - int (mask_count mid (rows ! s))) (nonzero valid_flag))"

definition select_batch_sequences_by_order ::
  "token list list \<Rightarrow> bool list \<Rightarrow> token \<Rightarrow> nat \<Rightarrow> nat list" where
  "select_batch_sequences_by_order rows valid_flag mid batch_size =
     take batch_size (nonzero valid_flag)"

definition generated_eos_hit ::
  "token list list \<Rightarrow> token list \<Rightarrow> nat list option \<Rightarrow> nat list \<Rightarrow> bool list" where
  "generated_eos_hit tokens eos_ids prompt_lengths block_ends =
     tabulate (length tokens) (\<lambda>r. list_ex (\<lambda>i. i < block_ends ! r
        \<and> (case prompt_lengths of None \<Rightarrow> True | Some pls \<Rightarrow> pls ! r \<le> i)
        \<and> list_ex (\<lambda>e. tokens ! r ! i = e) eos_ids) [0..<length (tokens ! r)])"

section \<open>Facts about the selection\<close>

lemma nonzero_simps:
  "set (nonzero flags) = {i. i < length flags \<and> flags ! i}" "distinct (nonzero flags)"
  by (auto simp: nonzero_def)

lemma nonzero_Nil: "nonzero flags = [] \<longleftrightarrow> \<not> any_row flags"
  using nonzero_simps(1) [of flags] by (auto simp: any_row_iff nonzero_def filter_empty_conv)

text \<open>What both selections guarantee: distinct flagged rows, at least one if there is one.\<close>

lemma select_by_mask_number:
  fixes rows flags mid n
  defines "sel \<equiv> select_batch_sequences_by_mask_number rows flags mid n"
  shows "distinct sel" and "s \<in> set sel \<Longrightarrow> s < length flags \<and> flags ! s"
    and "0 < n \<Longrightarrow> any_row flags \<Longrightarrow> sel \<noteq> []" and "length sel \<le> n"
proof -
  let ?srt = "sort_key (\<lambda>s. - int (mask_count mid (rows ! s))) (nonzero flags)"
  have sel: "sel = take n ?srt"
    by (simp add: sel_def select_batch_sequences_by_mask_number_def)
  show "distinct sel" using nonzero_simps(2) [of flags] by (simp add: sel)
  show "length sel \<le> n" by (simp add: sel)
  show "s < length flags \<and> flags ! s" if "s \<in> set sel"
  proof -
    have "s \<in> set ?srt" using that unfolding sel by (rule in_set_takeD)
    then show ?thesis using nonzero_simps(1) [of flags] by simp
  qed
  show "sel \<noteq> []" if "0 < n" "any_row flags"
  proof -
    have "nonzero flags \<noteq> []" using that(2) by (simp add: nonzero_Nil)
    then have "length ?srt \<noteq> 0" by simp
    then show ?thesis using that(1) unfolding sel by (auto simp del: length_sort)
  qed
qed

lemma select_by_order:
  fixes rows flags mid n
  defines "sel \<equiv> select_batch_sequences_by_order rows flags mid n"
  shows "distinct sel" and "s \<in> set sel \<Longrightarrow> s < length flags \<and> flags ! s"
    and "0 < n \<Longrightarrow> any_row flags \<Longrightarrow> sel \<noteq> []" and "length sel \<le> n"
  using nonzero_simps [of flags] nonzero_Nil [of flags]
  by (auto simp: sel_def select_batch_sequences_by_order_def dest: in_set_takeD)

lemma align_exp2_greater: "x < align_exp2 x"
  using bit_length_bounds [of x] by (simp add: align_exp2_def)

lemma gather_blocks_inside:
  assumes "length idx = length rows" and "\<And>k. k < length rows \<Longrightarrow> idx ! k + n \<le> length (rows ! k)"
  shows "gather_blocks rows idx n = Inr (tabulate (length rows) (\<lambda>k. gather_window (rows ! k) (idx ! k) n))"
proof -
  have row: "(case rs of (row, s) \<Rightarrow> result_map (\<lambda>i. py_nth row (s + i)) [0..<n])
      = Inr (gather_window (fst rs) (snd rs) n)" if mem: "rs \<in> set (zip rows idx)" for rs
  proof -
    obtain k where k: "k < length rows" "rs = (rows ! k, idx ! k)"
      using mem assms(1) by (auto simp: in_set_conv_nth)
    have "result_map (\<lambda>i. py_nth (rows ! k) (idx ! k + i)) [0..<n]
        = Inr (map (\<lambda>i. rows ! k ! min (idx ! k + i) (length (rows ! k) - 1)) [0..<n])"
      by (rule result_map_ok) (use assms(2) [OF k(1)] in \<open>auto simp: py_nth_def\<close>)
    then show ?thesis by (simp add: k gather_window_def tabulate_def)
  qed
  have "map (\<lambda>rs. gather_window (fst rs) (snd rs) n) (zip rows idx)
      = tabulate (length rows) (\<lambda>k. gather_window (rows ! k) (idx ! k) n)"
    by (rule nth_equalityI) (use assms(1) in auto)
  moreover have "gather_blocks rows idx n = Inr (map (\<lambda>rs. gather_window (fst rs) (snd rs) n) (zip rows idx))"
    unfolding gather_blocks_def by (rule result_map_ok) (rule row)
  ultimately show ?thesis by simp
qed

section \<open>Facts about the budget\<close>

lemma nth_scatter_distinct:
  assumes "distinct idx" and "k < length idx" and "idx ! k < length base"
  shows "scatter base idx src ! (idx ! k) = src ! k"
  using nth_scatter_unique [OF assms(2,3)] assms(1,2) nth_eq_iff_index_eq by blast

lemma nth_scatter_notin: "j \<notin> set idx \<Longrightarrow> scatter base idx src ! j = base ! j"
  by (rule nth_scatter_other) (auto simp: in_set_conv_nth)

lemma scatter_zeros:
  assumes "distinct ids"
  shows "j < length base \<Longrightarrow>
    scatter base ids (replicate (length ids) 0) ! j = (if j \<in> set ids then 0 else base ! j)"
  using nth_scatter_distinct [OF assms, of _ base "replicate (length ids) 0"]
  by (auto simp: in_set_conv_nth nth_scatter_notin)

lemma finished_ids:
  assumes "length fin = length ids" and "distinct ids"
  shows "distinct (map fst (filter snd (zip ids fin)))"
    and "k < length ids \<Longrightarrow> ids ! k \<in> set (map fst (filter snd (zip ids fin))) \<longleftrightarrow> fin ! k"
    and "set (map fst (filter snd (zip ids fin))) \<subseteq> set ids"
proof -
  have "distinct (map fst (zip ids fin))" using assms by simp
  then show "distinct (map fst (filter snd (zip ids fin)))" by (rule distinct_map_filter)
  show "set (map fst (filter snd (zip ids fin))) \<subseteq> set ids" by (auto dest: set_zip_leftD)
  assume k: "k < length ids"
  show "ids ! k \<in> set (map fst (filter snd (zip ids fin))) \<longleftrightarrow> fin ! k"
  proof
    assume "ids ! k \<in> set (map fst (filter snd (zip ids fin)))"
    then obtain j where j: "j < length ids" "ids ! j = ids ! k" "fin ! j"
      using assms(1) by (auto simp: in_set_conv_nth set_zip)
    then show "fin ! k" using assms(2) k nth_eq_iff_index_eq by blast
  qed (use k assms(1) in \<open>force simp: set_zip\<close>)
qed

text \<open>One row of the budget after an update.\<close>

lemma budget_count_row:
  fixes eb ids hm ch fin
  defines "eb' \<equiv> budget_count eb ids hm ch fin"
  assumes ids: "distinct ids" "length fin = length ids" "\<forall>s \<in> set ids. s < length (eb_post_steps eb)"
    and sh: "length (eb_block_iters eb) = length (eb_post_steps eb)"
  shows "k < length ids \<Longrightarrow> eb_post_steps eb' ! (ids ! k) =
      (if fin ! k then 0 else eb_post_steps eb ! (ids ! k) + (if \<not> hm ! k \<and> ch ! k then 1 else 0))"
    and "k < length ids \<Longrightarrow> eb_block_iters eb' ! (ids ! k) =
      (if fin ! k then 0 else eb_block_iters eb ! (ids ! k) + 1)"
    and "s \<notin> set ids \<Longrightarrow> s < length (eb_post_steps eb) \<Longrightarrow> eb_post_steps eb' ! s = eb_post_steps eb ! s
      \<and> eb_block_iters eb' ! s = eb_block_iters eb ! s"
    and "length (eb_post_steps eb') = length (eb_post_steps eb)"
    and "length (eb_block_iters eb') = length (eb_post_steps eb)"
    and "eb_max_post_steps eb' = eb_max_post_steps eb" "eb_block_length eb' = eb_block_length eb"
    and "eb_override eb' = eb_override eb"
proof -
  define fids where "fids = map fst (filter snd (zip ids fin))"
  note fid = finished_ids [OF ids(2,1), folded fids_def]
  note z = scatter_zeros [OF fid(1)] and d = nth_scatter_distinct [OF ids(1)]
  note def = eb'_def budget_count_def Let_def fids_def [symmetric]
  show "eb_post_steps eb' ! (ids ! k) =
      (if fin ! k then 0 else eb_post_steps eb ! (ids ! k) + (if \<not> hm ! k \<and> ch ! k then 1 else 0))"
    if "k < length ids"
    using that bspec [OF ids(3), of "ids ! k"] fid(2) [OF that]
    by (simp add: def z d)
  show "eb_block_iters eb' ! (ids ! k) = (if fin ! k then 0 else eb_block_iters eb ! (ids ! k) + 1)"
    if "k < length ids"
    using that bspec [OF ids(3), of "ids ! k"] fid(2) [OF that] sh
    by (simp add: def z d)
  show "eb_post_steps eb' ! s = eb_post_steps eb ! s \<and> eb_block_iters eb' ! s = eb_block_iters eb ! s"
    if "s \<notin> set ids" "s < length (eb_post_steps eb)"
    using that fid(3) sh
    by (auto simp: def z nth_scatter_notin)
qed (use sh in \<open>simp_all add: eb'_def budget_count_def Let_def\<close>)

lemmas budget_count_frame = budget_count_row(4-8)

section \<open>The contract of a block decoder\<close>

text \<open>
  \<open>step i x ae\<close> is the block after one iteration with input \<open>i\<close> (logits and prompt positions)
  and the edit permission \<open>ae\<close>.  The decoder reveals a mask while there is one, never masks a
  finished block again, and changes nothing of a mask-free block without the permission.
\<close>

definition budget_row_ok :: "token \<Rightarrow> nat \<Rightarrow> nat \<Rightarrow> token list \<Rightarrow> nat \<Rightarrow> nat \<Rightarrow> bool" where
  "budget_row_ok mid L P x post iters = (post \<le> P \<and> iters \<le> (L - mask_count mid x) + post)"

definition block_rank :: "token \<Rightarrow> nat \<Rightarrow> token list \<Rightarrow> nat \<Rightarrow> nat" where
  "block_rank mid P x post = mask_count mid x + (P - post)"

locale block_decoder =
  fixes mid :: token and L :: nat
    and ok :: "'i \<Rightarrow> bool" and step :: "'i \<Rightarrow> token list \<Rightarrow> bool \<Rightarrow> token list"
  assumes step_length: "ok i \<Longrightarrow> length x = L \<Longrightarrow> length (step i x ae) = L"
    and reveals: "ok i \<Longrightarrow> length x = L \<Longrightarrow> mid \<in> set x \<Longrightarrow>
      mask_count mid (step i x ae) < mask_count mid x"
    and keeps_unmasked: "ok i \<Longrightarrow> length x = L \<Longrightarrow> mid \<notin> set x \<Longrightarrow> mid \<notin> set (step i x ae)"
    and frozen: "ok i \<Longrightarrow> length x = L \<Longrightarrow> mid \<notin> set x \<Longrightarrow> step i x False = x"
begin

lemma iteration_within_budget:
  assumes ok: "ok i" and len: "length x = L" and row: "budget_row_ok mid L P x post iters"
    and y: "y = step i x (post < P)" and unfinished: "\<not> (mid \<notin> set x \<and> y = x)"
    and post': "post' = post + (if mid \<notin> set x \<and> y \<noteq> x then 1 else 0)"
  shows "budget_row_ok mid L P y post' (iters + 1)" and "block_rank mid P y post' < block_rank mid P x post"
proof -
  have le: "mask_count mid x \<le> L" using mask_count_le [of mid x] len by simp
  have "budget_row_ok mid L P y post' (iters + 1) \<and> block_rank mid P y post' < block_rank mid P x post"
  proof (cases "mid \<in> set x")
    case True
    then have "mask_count mid y < mask_count mid x" using reveals [OF ok len] y by simp
    then show ?thesis using True row le post' by (auto simp: budget_row_ok_def block_rank_def)
  next
    case False
    then have "y \<noteq> x" and m: "mask_count mid y = 0" "mask_count mid x = 0"
      using unfinished keeps_unmasked [OF ok len False] y by (auto simp: mask_count_zero)
    moreover have "post < P" using \<open>y \<noteq> x\<close> frozen [OF ok len False] y by (cases "post < P") auto
    ultimately show ?thesis using False row le post' by (auto simp: budget_row_ok_def block_rank_def)
  qed
  then show "budget_row_ok mid L P y post' (iters + 1)" "block_rank mid P y post' < block_rank mid P x post"
    by simp_all
qed

end

lemma budget_row_below: "budget_row_ok mid L P x post iters \<Longrightarrow> iters < L + P + 1"
  by (auto simp: budget_row_ok_def)

lemma budget_row_fresh: "budget_row_ok mid L P x 0 0"
  by (simp add: budget_row_ok_def)

lemma block_rank_le: "length x = L \<Longrightarrow> block_rank mid P x post \<le> L + P"
  using mask_count_le [of mid x] by (simp add: block_rank_def)

text \<open>The threshold decoder as an instance: the permission is not read.\<close>

definition threshold_input_ok ::
  "(flt list \<Rightarrow> rat list) \<Rightarrow> (rat \<Rightarrow> flt list list \<Rightarrow> flt list list) \<Rightarrow> threshold_decoder \<Rightarrow> nat
    \<Rightarrow> flt list list \<Rightarrow> bool" where
  "threshold_input_ok sm gumbel D n lg =
     (length lg = n \<and> probs_ok sm lg
      \<and> map length (add_gumbel_noise gumbel (td_temperature D) lg) = map length lg
      \<and> td_mask_id D \<notin> set (greedy (add_gumbel_noise gumbel (td_temperature D) lg)))"

definition threshold_iter ::
  "(flt list \<Rightarrow> rat list) \<Rightarrow> (rat \<Rightarrow> flt list list \<Rightarrow> flt list list) \<Rightarrow> threshold_decoder
    \<Rightarrow> flt list list \<Rightarrow> token list \<Rightarrow> bool \<Rightarrow> token list" where
  "threshold_iter sm gumbel D lg x ae = threshold_block sm gumbel D None lg x"

interpretation thr: block_decoder "td_mask_id D" n "threshold_input_ok sm gumbel D n"
  "threshold_iter sm gumbel D" for D :: threshold_decoder and n sm gumbel
proof
  fix i x ae assume ok: "threshold_input_ok sm gumbel D n i" and len: "length (x :: token list) = n"
  show "length (threshold_iter sm gumbel D i x ae) = n" using len by (simp add: threshold_iter_def)
  show "mask_count (td_mask_id D) (threshold_iter sm gumbel D i x ae) < mask_count (td_mask_id D) x"
    if m: "td_mask_id D \<in> set x"
  proof -
    obtain k where k: "k < length x" "x ! k = td_mask_id D" using m by (auto simp: in_set_conv_nth)
    have "length (add_gumbel_noise gumbel (td_temperature D) i) = n"
      using ok by (metis length_map threshold_input_ok_def)
    then have "greedy (add_gumbel_noise gumbel (td_temperature D) i) ! k \<noteq> td_mask_id D"
      using ok k len nth_mem [of k "greedy (add_gumbel_noise gumbel (td_temperature D) i)"]
      by (auto simp: threshold_input_ok_def greedy_def simp del: nth_mem)
    then show ?thesis
      using threshold_block_progress [OF _ _ _ k] ok len
      by (simp add: threshold_iter_def threshold_input_ok_def)
  qed
  assume um: "td_mask_id D \<notin> set x"
  have "threshold_block sm gumbel D None i x = x"
    by (rule threshold_block_stall) (use um nth_mem in metis)
  then show "td_mask_id D \<notin> set (threshold_iter sm gumbel D i x ae)"
    "threshold_iter sm gumbel D i x False = x"
    using um by (simp_all add: threshold_iter_def)
qed

text \<open>The joint decoder as an instance: the input carries the prompt positions.\<close>

definition joint_input_ok ::
  "(flt list \<Rightarrow> rat list) \<Rightarrow> joint_decoder \<Rightarrow> nat \<Rightarrow> flt list list \<Rightarrow> bool" where
  "joint_input_ok sm D n lg =
     (length lg = n \<and> probs_ok sm (map (\<lambda>r. r[jd_mask_id D := NegInf]) lg) \<and> unmaskable (jd_mask_id D) lg)"

definition joint_iter ::
  "(flt list \<Rightarrow> rat list) \<Rightarrow> joint_decoder \<Rightarrow> flt list list \<times> bool list \<Rightarrow> token list \<Rightarrow> bool
    \<Rightarrow> token list" where
  "joint_iter sm D i x ae = fst (joint_threshold_update sm (fst i) x (jd_mask_id D)
     (jd_threshold D) (jd_editing_threshold D) (snd i) ae)"

interpretation jnt: block_decoder "jd_mask_id D" n "\<lambda>i. joint_input_ok sm D n (fst i)"
  "joint_iter sm D" for D :: joint_decoder and n sm
proof
  fix i :: "flt list list \<times> bool list" and x ae
  assume ok: "joint_input_ok sm D n (fst i)" and len: "length (x :: token list) = n"
  show "length (joint_iter sm D i x ae) = n" using len by (simp add: joint_iter_def)
  show "mask_count (jd_mask_id D) (joint_iter sm D i x ae) < mask_count (jd_mask_id D) x"
    if "jd_mask_id D \<in> set x"
    using joint_progress [OF _ _ _ that] ok len by (simp add: joint_iter_def joint_input_ok_def)
  assume um: "jd_mask_id D \<notin> set x"
  show "jd_mask_id D \<notin> set (joint_iter sm D i x ae)"
  proof
    assume "jd_mask_id D \<in> set (joint_iter sm D i x ae)"
    then obtain k where "k < length x" "joint_iter sm D i x ae ! k = jd_mask_id D"
      by (auto simp: in_set_conv_nth joint_iter_def)
    then have "x ! k = jd_mask_id D"
      using joint_never_masks [of "jd_mask_id D" "fst i" x k] ok len
      by (simp add: joint_iter_def joint_input_ok_def)
    then show False using um \<open>k < length x\<close> nth_mem by metis
  qed
  show "joint_iter sm D i x False = x" using joint_frozen [OF um] by (simp add: joint_iter_def)
qed

section \<open>Stuck rows\<close>

text \<open>A sequence of updates, each with the batch and its three predicates.\<close>

fun budget_run ::
  "(nat list \<times> bool list \<times> bool list \<times> bool list) list \<Rightarrow> edit_budget \<Rightarrow> edit_budget result" where
  "budget_run [] eb = Inr eb"
| "budget_run ((ids, hm, ch, fin) # ups) eb =
     result_bind (budget_update eb ids hm ch fin) (budget_run ups)"

text \<open>A row that every update of a sequence processes without finishing its block.\<close>

definition stuck_in :: "nat \<Rightarrow> nat \<Rightarrow> nat list \<times> bool list \<times> bool list \<times> bool list \<Rightarrow> bool" where
  "stuck_in rows s up = (case up of (ids, hm, ch, fin) \<Rightarrow>
     distinct ids \<and> length fin = length ids \<and> list_all (\<lambda>r. r < rows) ids
     \<and> list_ex (\<lambda>k. ids ! k = s \<and> \<not> fin ! k) [0..<length ids])"

lemma stuck_update:
  assumes st: "stuck_in (length (eb_post_steps eb)) s (ids, hm, ch, fin)"
    and sh: "length (eb_block_iters eb) = length (eb_post_steps eb)"
    and up: "budget_update eb ids hm ch fin = Inr eb'"
  shows "eb_block_iters eb' ! s = eb_block_iters eb ! s + 1"
    and "length (eb_post_steps eb') = length (eb_post_steps eb)"
    and "length (eb_block_iters eb') = length (eb_post_steps eb')"
    and "budget_max_iters eb' = budget_max_iters eb"
    and "eb_update_calls eb' = eb_update_calls eb + 1"
    and "eb_update_calls eb' mod budget_max_iters eb = 0 \<Longrightarrow> eb_block_iters eb' ! s < budget_max_iters eb"
proof -
  from st obtain k where ids: "distinct ids" "length fin = length ids"
      "\<forall>r \<in> set ids. r < length (eb_post_steps eb)"
    and k: "k < length ids" "ids ! k = s" "\<not> fin ! k"
    by (auto simp: stuck_in_def list_all_iff list_ex_iff)
  have eb': "eb' = budget_count eb ids hm ch fin"
    using up by (simp add: budget_update_def Let_def split: if_splits)
  note row = budget_count_row [where hm = hm and ch = ch, OF ids sh, folded eb']
  show "eb_block_iters eb' ! s = eb_block_iters eb ! s + 1" using row(2) [OF k(1)] k by simp
  show "length (eb_post_steps eb') = length (eb_post_steps eb)"
    "length (eb_block_iters eb') = length (eb_post_steps eb')" using row(4,5) by simp_all
  show mx: "budget_max_iters eb' = budget_max_iters eb"
    using row(6-8) unfolding budget_max_iters_def by metis
  show "eb_update_calls eb' = eb_update_calls eb + 1" by (simp add: eb' budget_count_def Let_def)
  assume "eb_update_calls eb' mod budget_max_iters eb = 0"
  then have "\<not> list_ex (\<lambda>n. budget_max_iters eb \<le> n) (eb_block_iters eb')"
    using up mx unfolding budget_update_def Let_def eb' [symmetric] by (auto split: if_splits)
  moreover have "s < length (eb_block_iters eb')" using ids(3) k row(4,5) sh nth_mem [OF k(1)] by simp
  ultimately show "eb_block_iters eb' ! s < budget_max_iters eb"
    by (metis list_ex_iff not_le_imp_less nth_mem)
qed

lemma budget_run_stuck:
  assumes "budget_run ups eb = Inr eb'"
    and "\<forall>up \<in> set ups. stuck_in (length (eb_post_steps eb)) s up"
    and "length (eb_block_iters eb) = length (eb_post_steps eb)"
  shows "n \<le> length ups \<Longrightarrow> 0 < n \<Longrightarrow> (eb_update_calls eb + n) mod budget_max_iters eb = 0 \<Longrightarrow>
    eb_block_iters eb ! s + n < budget_max_iters eb"
  using assms
proof (induction ups arbitrary: eb n)
  case (Cons up ups)
  obtain ids hm ch fin where up: "up = (ids, hm, ch, fin)" by (cases up)
  from Cons.prems(4) obtain e1 where e1: "budget_update eb ids hm ch fin = Inr e1"
    and rest: "budget_run ups e1 = Inr eb'" by (auto simp: up result_bind_eq_Inr)
  have st: "stuck_in (length (eb_post_steps eb)) s (ids, hm, ch, fin)"
    using Cons.prems(5) up by simp
  note f = stuck_update [OF st Cons.prems(6) e1]
  show ?case
  proof (cases "n = 1")
    case True
    then show ?thesis using f(1,4,5,6) Cons.prems(3) by simp
  next
    case False
    then obtain m where m: "n = Suc m" "0 < m" using Cons.prems(2) by (cases n) auto
    have "eb_block_iters e1 ! s + m < budget_max_iters e1"
      by (rule Cons.IH) (use Cons.prems m rest f in auto)
    then show ?thesis using f(1,4) m by simp
  qed
qed simp

text \<open>
  A decode loop that does not converge is reported: if every one of two full rounds of budget
  updates processes a row whose block does not finish, one of the updates raises.
\<close>

lemma budget_reports_stuck:
  assumes "\<forall>up \<in> set ups. stuck_in num_rows s up"
    and "length ups = 2 * budget_max_iters eb" and "0 < budget_max_iters eb"
    and "length (eb_post_steps eb) = num_rows" "length (eb_block_iters eb) = num_rows"
  shows "budget_run ups eb = Inl (RuntimeError ''decode block did not finish within the budget'')"
proof -
  let ?m = "budget_max_iters eb"
  let ?n = "2 * ?m - eb_update_calls eb mod ?m"
  have r: "eb_update_calls eb mod ?m < ?m" using assms(3) by simp
  have n: "?m < ?n" "?n \<le> length ups" using r assms(2) by linarith+
  have "eb_update_calls eb + ?n = eb_update_calls eb div ?m * ?m + 2 * ?m"
    using div_mult_mod_eq [of "eb_update_calls eb" ?m] r by linarith
  then have "(eb_update_calls eb + ?n) mod ?m = 0"
    by (metis add_mult_distrib mod_mult_self2_is_0)
  then have "eb_block_iters eb ! s + ?n < ?m" if "budget_run ups eb = Inr eb'" for eb'
    by (intro budget_run_stuck [OF that]) (use n assms in simp_all)
  then have "budget_run ups eb \<noteq> Inr eb'" for eb' using n(1) by (meson not_add_less2 order.strict_trans)
  moreover have "budget_run us e = Inl x \<Longrightarrow> x = RuntimeError ''decode block did not finish within the budget''"
    for us e x
    by (induction us e rule: budget_run.induct)
      (auto simp: budget_update_def Let_def result_bind_def split: if_splits)
  ultimately show ?thesis by (cases "budget_run ups eb") auto
qed

lemma budget_reports_stuck_witness:
  "budget_run (replicate 4 ([0], [True], [False], [False])) (budget_init 1 0 1 None)
     = Inl (RuntimeError ''decode block did not finish within the budget'')"
  by (rule budget_reports_stuck [of _ 1 0])
    (simp_all add: stuck_in_def budget_init_def budget_max_iters_def)

end
