(* ===== verification/Runner_Config.thy ===== *)
theory Runner_Config
  imports Edit_Budget
begin

text \<open>
  Batch metadata and the runner configuration (execution/forward_batch_info.py) and the choice
  of the LLaDA decoder (execution/decoders/llada/__init__.py): forward modes, the validation in
  \<open>RunnerConfig.__post_init__\<close>, \<open>GenerationBatchInfo\<close> and \<open>load_decoder\<close>.
\<close>

section \<open>Forward modes\<close>

datatype forward_mode = EXTEND | DECODE | MIXED | IDLE | TARGET_VERIFY | DRAFT_EXTEND

definition is_extend_or_mixed :: "forward_mode \<Rightarrow> bool" where
  "is_extend_or_mixed m = (m = EXTEND \<or> m = MIXED)"

definition is_speculative :: "forward_mode \<Rightarrow> bool" where
  "is_speculative m = (m = TARGET_VERIFY \<or> m = DRAFT_EXTEND)"

definition is_decode_or_idle :: "forward_mode \<Rightarrow> bool" where
  "is_decode_or_idle m = (m = DECODE \<or> m = IDLE)"

definition decode_or_target_verify :: "bool \<Rightarrow> bool \<Rightarrow> forward_mode" where
  "decode_or_target_verify has_drafter use_target_verify =
     (if has_drafter \<and> use_target_verify then TARGET_VERIFY else DECODE)"

definition from_num_extends :: "int \<Rightarrow> int \<Rightarrow> bool \<Rightarrow> bool \<Rightarrow> forward_mode" where
  "from_num_extends num_extends batch_size has_drafter use_target_verify =
     (if batch_size \<le> 0 then IDLE
      else if num_extends > 0 then (if num_extends < batch_size then MIXED else EXTEND)
      else decode_or_target_verify has_drafter use_target_verify)"

section \<open>RunnerConfig\<close>

record runner_config =
  rc_gen_length :: nat
  rc_block_length :: nat
  rc_prefilling_limit :: nat
  rc_mini_batch_size :: nat
  rc_max_length :: nat
  rc_prefill_lengths :: "nat list"
  rc_cache_lengths :: "nat list"
  rc_decoding_lengths :: "nat list"
  rc_supported_batch_sizes :: "nat list"
  rc_enable_cuda_graph :: bool
  rc_enable_prefill_cuda_graph :: bool
  rc_enable_decode_cuda_graph :: bool
  rc_cuda_graph_capture_sizes :: "int list"
  rc_early_stop :: bool
  rc_cache :: string
  rc_max_cache_length_align :: nat
  rc_parallel_decoding :: string
  rc_threshold :: rat
  rc_low_threshold :: rat
  rc_use_credit :: bool
  rc_editing_threshold :: rat
  rc_max_post_steps :: int
  rc_num_to_transfer :: int
  rc_steps :: int
  rc_max_steps_per_block :: int
  rc_delete_token_id :: token
  rc_split_token_id :: token
  rc_mask_id :: token
  rc_eos_id :: token
  rc_eos_ids :: "token list"
  rc_attention_backend :: string
  rc_flashinfer_decode_batch_mode :: string
  rc_decode_cuda_graph_mode :: string
  rc_cuda_graph_capture_batch_sizes :: "int list option"
  rc_flashinfer_prefill_mode :: string
  rc_flashinfer_cache_mode :: string
  rc_kv_cache_layout :: string
  rc_page_size :: "int option"

text \<open>\<open>tuple(sorted(set(xs)))\<close>\<close>

definition sorted_set :: "int list \<Rightarrow> int list" where
  "sorted_set xs = sort (remdups xs)"

text \<open>The checks up to the first field that is rewritten after them, in the order of the code.\<close>

definition check_decoding :: "runner_config \<Rightarrow> unit result" where
  "check_decoding c =
     (if \<not> (0 \<le> rc_editing_threshold c \<and> rc_editing_threshold c \<le> 1)
      then Inl (ValueError ''editing_threshold must be in [0, 1]'')
      else if rc_max_post_steps c < 0 then Inl (ValueError ''max_post_steps must be non-negative'')
      else if rc_num_to_transfer c < 1 then Inl (ValueError ''num_to_transfer must be >= 1'')
      else if rc_parallel_decoding c \<in> {''joint_threshold'', ''levenshtein_joint''}
           \<and> \<not> (0 \<le> rc_threshold c \<and> rc_threshold c \<le> 1)
      then Inl (ValueError ''threshold must be in [0, 1]'')
      else if rc_steps c < 0 then Inl (ValueError ''steps must be non-negative'')
      else if rc_max_steps_per_block c < 2 then Inl (ValueError ''max_steps_per_block must be >= 2'')
      else Inr ())"

definition check_backend :: "runner_config \<Rightarrow> unit result" where
  "check_backend c =
     (if rc_attention_backend c \<notin> {''sdpa'', ''flex'', ''flashinfer'', ''fa4''}
      then Inl (ValueError ''attention_backend'')
      else if rc_flashinfer_decode_batch_mode c \<notin> {''default'', ''max_batch''}
      then Inl (ValueError ''flashinfer_decode_batch_mode'')
      else if rc_decode_cuda_graph_mode c \<notin> {''decomposed'', ''padded''}
      then Inl (ValueError ''decode_cuda_graph_mode'')
      else if rc_flashinfer_prefill_mode c \<notin> {''dense'', ''ragged'', ''paged''}
      then Inl (ValueError ''flashinfer_prefill_mode'')
      else if rc_flashinfer_cache_mode c \<notin> {''dense'', ''paged''}
      then Inl (ValueError ''flashinfer_cache_mode'')
      else if rc_kv_cache_layout c \<notin> {''dense'', ''paged''}
      then Inl (ValueError ''kv_cache_layout'')
      else if rc_kv_cache_layout c = ''paged'' \<and> rc_attention_backend c = ''flashinfer''
           \<and> rc_flashinfer_cache_mode c \<noteq> ''paged''
      then Inl (ValueError ''kv_cache_layout=paged needs flashinfer_cache_mode=paged'')
      else if rc_flashinfer_cache_mode c = ''paged''
           \<and> (rc_attention_backend c \<noteq> ''flashinfer'' \<or> rc_kv_cache_layout c \<noteq> ''paged'')
      then Inl (ValueError ''flashinfer_cache_mode=paged needs flashinfer and paged layout'')
      else if rc_attention_backend c = ''fa4'' \<and> rc_kv_cache_layout c \<noteq> ''paged''
      then Inl (ValueError ''fa4 needs kv_cache_layout=paged'')
      else Inr ())"

definition check_pages :: "runner_config \<Rightarrow> unit result" where
  "check_pages c =
     (case rc_page_size c of
        None \<Rightarrow> Inr ()
      | Some ps \<Rightarrow>
          if ps \<le> 0 then Inl (ValueError ''page_size must be positive'')
          else if rc_attention_backend c = ''fa4'' \<and> ps mod 16 \<noteq> 0
          then Inl (ValueError ''fa4 needs page_size to be a multiple of 16'')
          else if rc_enable_prefill_cuda_graph c
               \<and> list_ex (\<lambda>size. size mod ps \<noteq> 0) (rc_cuda_graph_capture_sizes c)
          then Inl (ValueError ''cuda_graph_capture_sizes must be multiples of page_size'')
          else Inr ())"

definition check_prefill_mode :: "runner_config \<Rightarrow> unit result" where
  "check_prefill_mode c =
     (if rc_flashinfer_prefill_mode c = ''ragged'' \<and> rc_attention_backend c \<noteq> ''flashinfer''
      then Inl (ValueError ''ragged prefill needs flashinfer'')
      else if rc_flashinfer_prefill_mode c = ''paged''
           \<and> (rc_attention_backend c \<noteq> ''flashinfer'' \<or> rc_kv_cache_layout c \<noteq> ''paged''
              \<or> rc_flashinfer_cache_mode c \<noteq> ''paged'')
      then Inl (ValueError ''paged prefill needs flashinfer with paged caches'')
      else Inr ())"

definition capture_batches :: "runner_config \<Rightarrow> int list option result" where
  "capture_batches c =
     (case rc_cuda_graph_capture_batch_sizes c of
        None \<Rightarrow> Inr None
      | Some xs \<Rightarrow> if sorted_set xs = []
            \<or> list_ex (\<lambda>x. x \<le> 0 \<or> (x \<noteq> 1 \<and> x mod 2 \<noteq> 0)) (sorted_set xs)
          then Inl (ValueError ''cuda_graph_capture_batch_sizes'') else Inr (Some (sorted_set xs)))"

definition decoding_lengths_of :: "runner_config \<Rightarrow> nat list" where
  "decoding_lengths_of c =
     (if rc_decoding_lengths c = [] then [rc_block_length c]
      else if rc_block_length c \<notin> set (rc_decoding_lengths c)
      then rc_decoding_lengths c @ [rc_block_length c] else rc_decoding_lengths c)"

definition post_init :: "runner_config \<Rightarrow> runner_config result" where
  "post_init c0 =
     (let pre = rc_enable_prefill_cuda_graph c0 \<or> rc_enable_cuda_graph c0;
          dec = rc_enable_decode_cuda_graph c0 \<or> rc_enable_cuda_graph c0;
          c = c0\<lparr> rc_enable_prefill_cuda_graph := pre, rc_enable_decode_cuda_graph := dec,
                  rc_enable_cuda_graph := (pre \<or> dec) \<rparr>
      in result_bind (check_decoding c) (\<lambda>_. result_bind (check_backend c) (\<lambda>_.
         let c = c\<lparr> rc_page_size := (case rc_page_size c of
               None \<Rightarrow> if rc_kv_cache_layout c = ''paged'' then Some (int (rc_block_length c)) else None
             | Some ps \<Rightarrow> Some ps) \<rparr>
         in result_bind (check_pages c) (\<lambda>_. result_bind (check_prefill_mode c) (\<lambda>_.
            result_bind (capture_batches c) (\<lambda>batches.
            let sizes = sorted_set (rc_cuda_graph_capture_sizes c)
            in if sizes = [] \<or> list_ex (\<lambda>size. size \<le> 0) sizes
               then Inl (ValueError ''cuda_graph_capture_sizes must contain positive lengths'')
               else Inr (c\<lparr> rc_cuda_graph_capture_batch_sizes := batches,
                            rc_cuda_graph_capture_sizes := sizes,
                            rc_decoding_lengths := decoding_lengths_of c \<rparr>)))))))"

section \<open>GenerationBatchInfo\<close>

record gen_batch_info =
  gb_input_lengths :: "nat list"
  gb_sorted_indices :: "nat list"
  gb_max_length :: nat
  gb_prefill_lengths :: "nat list"
  gb_supported_batch_sizes :: "nat list"

definition prefill_len :: "nat \<Rightarrow> nat \<Rightarrow> bool \<Rightarrow> nat \<Rightarrow> nat" where
  "prefill_len block_length prefilling_limit unbounded n =
     (let aligned = n div block_length * block_length;
          aligned = (if unbounded then aligned else min aligned prefilling_limit)
      in max block_length aligned)"

definition from_lengths ::
  "nat list \<Rightarrow> nat \<Rightarrow> nat \<Rightarrow> nat \<Rightarrow> nat \<Rightarrow> bool \<Rightarrow> gen_batch_info" where
  "from_lengths input_lengths block_length prefilling_limit mini_batch_size gen_length unbounded =
     \<lparr> gb_input_lengths = input_lengths,
       gb_sorted_indices = sort_key (\<lambda>i. input_lengths ! i) [0..<length input_lengths],
       gb_max_length = (if input_lengths = [] then gen_length
         else Max (set input_lengths) + gen_length),
       gb_prefill_lengths =
         sort (remdups (map (prefill_len block_length prefilling_limit unbounded) input_lengths)),
       gb_supported_batch_sizes = map (\<lambda>i. 2 ^ i) [0..<bit_length mini_batch_size] \<rparr>"

definition original_order :: "gen_batch_info \<Rightarrow> 'a list \<Rightarrow> 'a option list result" where
  "original_order info values =
     (if length values < length (gb_sorted_indices info) then Inl IndexError
      else Inr (scatter (replicate (length (gb_sorted_indices info)) None)
                  (gb_sorted_indices info) (map Some values)))"

section \<open>load\_decoder\<close>

datatype llada_decoder =
    Threshold_Decoder threshold_decoder
  | Credit_Decoder credit_decoder
  | Joint_Decoder joint_decoder
  | Levenshtein_Decoder lev_decoder "token list"
  | Hierarchy_Decoder rat rat token "token list"

definition load_decoder :: "runner_config \<Rightarrow> llada_decoder result" where
  "load_decoder c =
     result_bind (normalize_eos_ids (rc_eos_id c # rc_eos_ids c)) (\<lambda>eos_ids.
       if rc_parallel_decoding c = ''threshold'' then
         result_bind (td_init 0 (rc_threshold c) (rc_mask_id c) eos_ids) (\<lambda>D. Inr
           (if rc_use_credit c
            then Credit_Decoder (threshold_decoder.extend D (credit_decoder.fields (7/10) (4/5)))
            else Threshold_Decoder D))
       else if rc_parallel_decoding c = ''joint_threshold'' then
         if rc_num_to_transfer c \<noteq> 1
         then Inl (ValueError ''joint_threshold only implements num_to_transfer=1'')
         else result_bind (jd_init (rc_threshold c) (rc_editing_threshold c) 0 (rc_mask_id c) eos_ids)
                (\<lambda>D. Inr (Joint_Decoder D))
       else if rc_parallel_decoding c = ''levenshtein_joint'' then
         result_bind (lev_init (rc_threshold c) (rc_editing_threshold c) 0 (rc_mask_id c)
             (rc_delete_token_id c) (rc_split_token_id c)
             (if rc_steps c > 0 then rc_steps c else int (rc_block_length c))
             (rc_max_post_steps c) (rc_max_steps_per_block c))
           (\<lambda>D. Inr (Levenshtein_Decoder D eos_ids))
       else if rc_parallel_decoding c = ''hierarchy'' then
         result_bind (normalize_eos_ids eos_ids) (\<lambda>ids.
           Inr (Hierarchy_Decoder (rc_threshold c) (rc_low_threshold c) (rc_mask_id c) ids))
       else Inl (ValueError ''Unknown parallel_decoding''))"

section \<open>Validated configurations\<close>

lemma sorted_set_props [simp]:
  "set (sorted_set xs) = set xs" "sorted_set (sorted_set xs) = sorted_set xs"
  by (simp_all add: sorted_set_def distinct_remdups_id sorted_sort_id)

lemma checks_ok:
  "check_decoding c = Inr () \<longleftrightarrow> 0 \<le> rc_editing_threshold c \<and> rc_editing_threshold c \<le> 1
     \<and> 0 \<le> rc_max_post_steps c \<and> 1 \<le> rc_num_to_transfer c
     \<and> (rc_parallel_decoding c \<in> {''joint_threshold'', ''levenshtein_joint''} \<longrightarrow>
          0 \<le> rc_threshold c \<and> rc_threshold c \<le> 1)
     \<and> 0 \<le> rc_steps c \<and> 2 \<le> rc_max_steps_per_block c"
  by (auto simp: check_decoding_def split: if_splits)

text \<open>A result that the checks produced, as a function of the fields they leave alone.\<close>

lemma post_init_Inr:
  assumes "post_init c0 = Inr c"
  shows "check_decoding c = Inr ()" and "check_backend c = Inr ()" and "check_pages c = Inr ()"
    and "check_prefill_mode c = Inr ()" and "capture_batches c = Inr (rc_cuda_graph_capture_batch_sizes c)"
    and "rc_enable_cuda_graph c \<longleftrightarrow> rc_enable_prefill_cuda_graph c \<or> rc_enable_decode_cuda_graph c"
    and "rc_kv_cache_layout c = ''paged'' \<Longrightarrow> rc_page_size c \<noteq> None"
    and "rc_block_length c \<in> set (rc_decoding_lengths c)"
    and "rc_cuda_graph_capture_sizes c \<noteq> []" and "\<forall>s \<in> set (rc_cuda_graph_capture_sizes c). 0 < s"
    and "sorted_set (rc_cuda_graph_capture_sizes c) = rc_cuda_graph_capture_sizes c"
    and "rc_parallel_decoding c = rc_parallel_decoding c0"
proof -
  define pre where "pre = (rc_enable_prefill_cuda_graph c0 \<or> rc_enable_cuda_graph c0)"
  define dec where "dec = (rc_enable_decode_cuda_graph c0 \<or> rc_enable_cuda_graph c0)"
  define c1 where "c1 = c0\<lparr> rc_enable_prefill_cuda_graph := pre, rc_enable_decode_cuda_graph := dec,
                  rc_enable_cuda_graph := (pre \<or> dec) \<rparr>"
  define c2 where "c2 = c1\<lparr> rc_page_size := (case rc_page_size c1 of
               None \<Rightarrow> if rc_kv_cache_layout c1 = ''paged'' then Some (int (rc_block_length c1)) else None
             | Some ps \<Rightarrow> Some ps) \<rparr>"
  define sizes where "sizes = sorted_set (rc_cuda_graph_capture_sizes c2)"
  from assms obtain batches where ok: "check_decoding c1 = Inr ()" "check_backend c1 = Inr ()"
      "check_pages c2 = Inr ()" "check_prefill_mode c2 = Inr ()" "capture_batches c2 = Inr batches"
      "sizes \<noteq> []" "\<not> list_ex (\<lambda>size. size \<le> 0) sizes"
    and c: "c = c2\<lparr> rc_cuda_graph_capture_batch_sizes := batches,
                            rc_cuda_graph_capture_sizes := sizes,
                            rc_decoding_lengths := decoding_lengths_of c2 \<rparr>"
    unfolding post_init_def Let_def pre_def [symmetric] dec_def [symmetric] c1_def [symmetric]
      c2_def [symmetric] sizes_def [symmetric]
    by (auto simp: result_bind_eq_Inr split: if_splits)
  show "check_decoding c = Inr ()" using ok(1) by (simp add: c c2_def checks_ok)
  have sel: "rc_attention_backend c = rc_attention_backend c1"
    "rc_flashinfer_decode_batch_mode c = rc_flashinfer_decode_batch_mode c1"
    "rc_decode_cuda_graph_mode c = rc_decode_cuda_graph_mode c1"
    "rc_flashinfer_prefill_mode c = rc_flashinfer_prefill_mode c1"
    "rc_flashinfer_cache_mode c = rc_flashinfer_cache_mode c1"
    "rc_kv_cache_layout c = rc_kv_cache_layout c1" by (simp_all add: c c2_def)
  have "check_backend c = check_backend c1" by (simp only: check_backend_def sel)
  then show "check_backend c = Inr ()" using ok(2) by simp
  have "check_prefill_mode c = check_prefill_mode c2" by (simp add: c check_prefill_mode_def)
  then show "check_prefill_mode c = Inr ()" using ok(4) by simp
  show "check_pages c = Inr ()"
    using ok(3) by (auto simp: c check_pages_def sizes_def list_ex_iff split: option.splits if_splits)
  show "capture_batches c = Inr (rc_cuda_graph_capture_batch_sizes c)"
    using ok(5) by (auto simp: c capture_batches_def split: option.splits if_splits)
  show "rc_enable_cuda_graph c \<longleftrightarrow> rc_enable_prefill_cuda_graph c \<or> rc_enable_decode_cuda_graph c"
    by (simp add: c c2_def c1_def)
  show "rc_kv_cache_layout c = ''paged'' \<Longrightarrow> rc_page_size c \<noteq> None"
    by (simp add: c c2_def split: option.splits)
  show "rc_block_length c \<in> set (rc_decoding_lengths c)" by (simp add: c decoding_lengths_of_def)
  show "rc_cuda_graph_capture_sizes c \<noteq> []" using ok(6) by (simp add: c)
  show "\<forall>s \<in> set (rc_cuda_graph_capture_sizes c). 0 < s"
    using ok(7) by (auto simp: c list_ex_iff not_le)
  show "sorted_set (rc_cuda_graph_capture_sizes c) = rc_cuda_graph_capture_sizes c"
    by (simp add: c sizes_def)
  show "rc_parallel_decoding c = rc_parallel_decoding c0" by (simp add: c c2_def c1_def)
qed

text \<open>What a validated configuration needs so that its decoder can be built.\<close>

definition decoder_loadable :: "runner_config \<Rightarrow> bool" where
  "decoder_loadable c = (rc_parallel_decoding c \<in> {''threshold'', ''hierarchy''}
     \<or> rc_parallel_decoding c = ''joint_threshold'' \<and> rc_num_to_transfer c = 1
     \<or> rc_parallel_decoding c = ''levenshtein_joint'' \<and> (0 < rc_steps c \<or> 0 < rc_block_length c))"

lemma normalize_eos_ids_Cons [simp]:
  "normalize_eos_ids (e # es) = Inr (e # filter (\<lambda>y. y \<noteq> e) (fromkeys es))"
proof -
  have "fromkeys (e # es) = e # filter (\<lambda>y. y \<noteq> e) (fromkeys es)"
    by (induction es rule: fromkeys.induct) (auto intro!: filter_cong simp: conj_commute)
  then show ?thesis by (simp add: normalize_eos_ids_def)
qed

lemma load_decoder_ok:
  assumes "check_decoding c = Inr ()" and "decoder_loadable c"
  shows "is_ok (load_decoder c)"
proof -
  have c: "0 \<le> rc_editing_threshold c" "rc_editing_threshold c \<le> 1" "0 \<le> rc_max_post_steps c"
    "2 \<le> rc_max_steps_per_block c" "0 \<le> rc_steps c"
    "rc_parallel_decoding c \<in> {''joint_threshold'', ''levenshtein_joint''} \<Longrightarrow>
       0 \<le> rc_threshold c \<and> rc_threshold c \<le> 1"
    using assms(1) by (simp_all add: checks_ok)
  from assms(2) consider "rc_parallel_decoding c = ''threshold''"
    | "rc_parallel_decoding c = ''hierarchy''"
    | "rc_parallel_decoding c = ''joint_threshold''" "rc_num_to_transfer c = 1"
    | "rc_parallel_decoding c = ''levenshtein_joint''" "0 < rc_steps c \<or> 0 < rc_block_length c"
    by (auto simp: decoder_loadable_def)
  then show ?thesis
  proof cases
    case 4
    then show ?thesis using c by (auto simp: load_decoder_def lev_init_def)
  qed (use c in \<open>simp_all add: load_decoder_def td_init_def jd_init_def\<close>)
qed


definition ex_config :: runner_config where
  "ex_config = \<lparr> rc_gen_length = 4, rc_block_length = 2, rc_prefilling_limit = 4,
     rc_mini_batch_size = 2, rc_max_length = 8, rc_prefill_lengths = [4], rc_cache_lengths = [4],
     rc_decoding_lengths = [], rc_supported_batch_sizes = [2], rc_enable_cuda_graph = False,
     rc_enable_prefill_cuda_graph = True, rc_enable_decode_cuda_graph = False,
     rc_cuda_graph_capture_sizes = [64, 16], rc_early_stop = True, rc_cache = [],
     rc_max_cache_length_align = 4, rc_parallel_decoding = ''joint_threshold'',
     rc_threshold = 9/10, rc_low_threshold = 3/10, rc_use_credit = False,
     rc_editing_threshold = 1/2, rc_max_post_steps = 16, rc_num_to_transfer = 1, rc_steps = 0,
     rc_max_steps_per_block = 1000, rc_delete_token_id = 7, rc_split_token_id = 8,
     rc_mask_id = 2, rc_eos_id = 0, rc_eos_ids = [0, 9], rc_attention_backend = ''fa4'',
     rc_flashinfer_decode_batch_mode = ''max_batch'', rc_decode_cuda_graph_mode = ''padded'',
     rc_cuda_graph_capture_batch_sizes = None, rc_flashinfer_prefill_mode = ''dense'',
     rc_flashinfer_cache_mode = ''dense'', rc_kv_cache_layout = ''paged'', rc_page_size = Some 16 \<rparr>"


section \<open>Original order\<close>

lemma sorted_indices_perm:
  "distinct (gb_sorted_indices (from_lengths ls bl pl mb gl u))"
  "set (gb_sorted_indices (from_lengths ls bl pl mb gl u)) = {0..<length ls}"
  "length (gb_sorted_indices (from_lengths ls bl pl mb gl u)) = length ls"
  by (simp_all add: from_lengths_def)

text \<open>
  Results computed in the sorted order of a batch come back in the order of the requests.
\<close>

lemma original_order_inverts_sort:
  "original_order (from_lengths ls bl pl mb gl u)
     (map f (gb_sorted_indices (from_lengths ls bl pl mb gl u))) = Inr (map (\<lambda>i. Some (f i)) [0..<length ls])"
proof -
  let ?ix = "gb_sorted_indices (from_lengths ls bl pl mb gl u)"
  note perm = sorted_indices_perm [of ls bl pl mb gl u]
  have "scatter (replicate (length ls) None) ?ix (map Some (map f ?ix)) ! j = Some (f j)"
    if j: "j < length ls" for j
  proof -
    obtain k where k: "k < length ?ix" "?ix ! k = j" using perm(2) j
      by (metis atLeastLessThan_iff in_set_conv_nth le0)
    then show ?thesis
      using nth_scatter_distinct [OF perm(1) k(1), of "replicate (length ls) None" "map Some (map f ?ix)"] j
      by simp
  qed
  then have "scatter (replicate (length ls) None) ?ix (map Some (map f ?ix)) = map (\<lambda>i. Some (f i)) [0..<length ls]"
    by (intro nth_equalityI) auto
  then show ?thesis by (simp add: original_order_def perm(3))
qed

end
