(* ===== verification/Block_Runner.thy ===== *)
theory Block_Runner
  imports Runner_Config
begin

text \<open>
  The LLaDA block-diffusion runner (execution/runners/llada/block_diffusion.py): input
  preparation, cache allocation, the prefill loop and the decode loop, and \<open>generate\<close>.  The
  model is an argument: \<open>prefill_fwd\<close> maps the tokens of a batch, its attention mask and positions
  to the cache cells of every row, \<open>decode_fwd\<close> maps the blocks, positions and past cells of a
  batch to the logits and cache cells of every row.  The loops take fuel; that enough fuel gives a
  result is part of what is proved.
\<close>

section \<open>Attention masks\<close>

definition block_causal_mask :: "nat \<Rightarrow> nat \<Rightarrow> nat \<Rightarrow> bool" where
  "block_causal_mask block_length q_idx kv_idx = (kv_idx div block_length \<le> q_idx div block_length)"

definition repeat_interleave :: "nat \<Rightarrow> 'a list \<Rightarrow> 'a list" where
  "repeat_interleave n xs = concat (map (replicate n) xs)"

definition build_block_attention_mask :: "nat \<Rightarrow> nat \<Rightarrow> nat \<Rightarrow> bool list list list" where
  "build_block_attention_mask block_length num_blocks mini_batch_size =
     (let block_mask = tabulate num_blocks (\<lambda>i. tabulate num_blocks (\<lambda>j. j \<le> i))
      in replicate mini_batch_size
           (map (repeat_interleave block_length) (repeat_interleave block_length block_mask)))"

section \<open>Lengths and caches\<close>

text \<open>\<open>preprocess_inputs\<close>: total length, new generation length, mask blocks, new \<open>max_length\<close>.\<close>

definition preprocess_inputs ::
  "nat \<Rightarrow> nat \<Rightarrow> nat \<Rightarrow> nat \<Rightarrow> nat \<times> nat \<times> nat \<times> nat" where
  "preprocess_inputs block_length max_length prompt_length gen_length =
     (let total_length = (prompt_length + gen_length + block_length - 1) div block_length * block_length;
          max_length' = (if total_length > max_length then total_length else max_length);
          max_cache_length = max max_length' (prompt_length + gen_length);
          mask_length = (max_cache_length + block_length - 1) div block_length * block_length
      in (total_length, total_length - prompt_length, mask_length div block_length, max_length'))"

datatype 'v kv_store = Dense_KV "'v list list" | Paged_KV "'v paged_kv"

definition allocate_kv_cache ::
  "'v \<Rightarrow> nat \<Rightarrow> runner_config \<Rightarrow> nat \<Rightarrow> nat \<Rightarrow> 'v kv_store result" where
  "allocate_kv_cache zero num_layers rc max_length batch_size =
     (if rc_kv_cache_layout rc = ''paged'' then
        (case rc_page_size rc of
           None \<Rightarrow> Inl (TypeError ''int() argument must not be None'')
         | Some ps \<Rightarrow> result_bind (kv_init zero num_layers batch_size (int max_length) ps None 0)
             (\<lambda>kv. Inr (Paged_KV kv)))
      else Inr (Dense_KV (replicate batch_size (replicate max_length zero))))"

text \<open>Writing \<open>cells\<close> at \<open>start\<close> of a dense row; the shapes of both sides have to agree.\<close>

definition dense_write :: "nat \<Rightarrow> nat \<Rightarrow> 'v list \<Rightarrow> 'v list list \<Rightarrow> 'v list list result" where
  "dense_write seq start cells rows =
     (if length rows \<le> seq \<or> length (rows ! seq) < start + length cells then Inl IndexError
      else Inr (rows[seq := take start (rows ! seq) @ cells @ drop (start + length cells) (rows ! seq)]))"

definition write_prefill_kv_cache ::
  "'v \<Rightarrow> nat \<Rightarrow> nat \<Rightarrow> 'v list \<Rightarrow> 'v kv_store \<Rightarrow> 'v kv_store result" where
  "write_prefill_kv_cache zero seq sample_len cells store =
     (case store of
        Paged_KV kv \<Rightarrow> result_bind (write_range seq 0 (take sample_len cells) kv) (\<lambda>kv'. Inr (Paged_KV kv'))
      | Dense_KV rows \<Rightarrow>
          (if length rows \<le> seq then Inl IndexError
           else if length (take sample_len cells) \<noteq> min sample_len (length (rows ! seq))
           then Inl (RuntimeError ''shape mismatch'')
           else Inr (Dense_KV (rows[seq := take sample_len cells
                  @ replicate (length (rows ! seq) - sample_len) zero]))))"

text \<open>The past cells of the rows of a batch, up to the current cache length.\<close>

definition read_past :: "nat list \<Rightarrow> nat \<Rightarrow> 'v kv_store \<Rightarrow> 'v list list result" where
  "read_past seq_ids len store =
     (case store of
        Paged_KV kv \<Rightarrow> materialize seq_ids (int len) kv
      | Dense_KV rows \<Rightarrow> result_map (\<lambda>s. result_bind (py_nth rows s) (\<lambda>row. Inr (take len row))) seq_ids)"

text \<open>
  \<open>_update_finished_kv_cache\<close>: the cells of the last \<open>block_length\<close> positions of the forward are
  committed for every finished row of the batch.
\<close>

definition commit_block ::
  "nat \<Rightarrow> nat \<Rightarrow> nat \<times> nat \<times> 'v list \<Rightarrow> 'v kv_store \<Rightarrow> 'v kv_store result" where
  "commit_block block_length cache_length ssc store =
     (let (seq, start, cells) = ssc; blk = slice (cache_length - block_length) cache_length cells
      in case store of
           Paged_KV kv \<Rightarrow> result_bind (write_range seq (int start) blk kv) (\<lambda>kv'. Inr (Paged_KV kv'))
         | Dense_KV rows \<Rightarrow>
             if length blk \<noteq> block_length then Inl (RuntimeError ''shape mismatch'')
             else result_bind (dense_write seq start blk rows) (\<lambda>rows'. Inr (Dense_KV rows')))"

definition update_finished_kv_cache ::
  "nat list \<Rightarrow> nat list \<Rightarrow> bool list \<Rightarrow> nat \<Rightarrow> nat \<Rightarrow> 'v list list \<Rightarrow> 'v kv_store \<Rightarrow> 'v kv_store result" where
  "update_finished_kv_cache seq_ids starts fin cache_length block_length cells store =
     result_fold (commit_block block_length cache_length)
       (map (\<lambda>k. (seq_ids ! k, starts ! k, cells ! k)) (nonzero (take (length seq_ids) fin))) store"

section \<open>The decoder behind the runner\<close>

definition dec_mask_id :: "llada_decoder \<Rightarrow> token" where
  "dec_mask_id dec = (case dec of
     Threshold_Decoder D \<Rightarrow> td_mask_id D | Credit_Decoder D \<Rightarrow> td_mask_id D
   | Joint_Decoder D \<Rightarrow> jd_mask_id D | Levenshtein_Decoder D _ \<Rightarrow> mask_id D
   | Hierarchy_Decoder _ _ m _ \<Rightarrow> m)"

definition dec_eos_ids :: "llada_decoder \<Rightarrow> token list" where
  "dec_eos_ids dec = (case dec of
     Threshold_Decoder D \<Rightarrow> td_eos_ids D | Credit_Decoder D \<Rightarrow> td_eos_ids D
   | Joint_Decoder D \<Rightarrow> jd_eos_ids D | Levenshtein_Decoder _ ids \<Rightarrow> ids
   | Hierarchy_Decoder _ _ _ ids \<Rightarrow> ids)"

definition needs_row_state :: "llada_decoder \<Rightarrow> bool" where
  "needs_row_state dec = (case dec of Levenshtein_Decoder _ _ \<Rightarrow> True | _ \<Rightarrow> False)"

definition make_decode_loop_state ::
  "runner_config \<Rightarrow> llada_decoder \<Rightarrow> nat \<Rightarrow> edit_budget \<times> lev_row list option" where
  "make_decode_loop_state rc dec num_rows =
     (budget_init num_rows (nat (rc_max_post_steps rc)) (rc_block_length rc)
        (case dec of Levenshtein_Decoder D _ \<Rightarrow> Some (max_block_iters D) | _ \<Rightarrow> None),
      case dec of Levenshtein_Decoder D _ \<Rightarrow>
          Some (replicate num_rows (fresh_lev_row D (rc_block_length rc)))
        | _ \<Rightarrow> None)"

text \<open>
  \<open>_decoder_editing_kwargs\<close> and \<open>batch_decode\<close>: the keyword arguments per decoder family and the
  call.  A hierarchy decoder has no \<open>batch_decode\<close>; a credit decoder inherits the threshold one.
\<close>

definition run_batch_decode ::
  "(flt list \<Rightarrow> rat list) \<Rightarrow> (rat \<Rightarrow> flt list list \<Rightarrow> flt list list) \<Rightarrow> bool \<Rightarrow> llada_decoder \<Rightarrow> nat
    \<Rightarrow> flt list list list \<Rightarrow> nat list \<Rightarrow> nat \<Rightarrow> token list list \<Rightarrow> nat list \<Rightarrow> nat list option
    \<Rightarrow> edit_budget \<Rightarrow> lev_row list option \<Rightarrow> (token list list \<times> lev_row list option) result" where
  "run_batch_decode sm gumbel debug dec block_length logits starts T xs seq_ids prompt_lengths eb lev =
     (case dec of
        Threshold_Decoder D \<Rightarrow>
          result_bind (threshold_batch_decode sm gumbel D None logits starts T xs block_length)
            (\<lambda>xs'. Inr (xs', lev))
      | Credit_Decoder D \<Rightarrow>
          result_bind (threshold_batch_decode sm gumbel (threshold_decoder.truncate D) None logits
              starts T xs block_length) (\<lambda>xs'. Inr (xs', lev))
      | Joint_Decoder D \<Rightarrow>
          (case prompt_lengths of
             None \<Rightarrow> Inl (RuntimeError ''joint_threshold decoding requires prompt_lengths and an edit budget'')
           | Some pls \<Rightarrow>
               result_bind (joint_batch_decode sm D logits starts xs block_length
                   (Some (map ((!) pls) seq_ids)) (Some (allow_edit eb seq_ids)))
                 (\<lambda>xs'. Inr (xs', lev)))
      | Levenshtein_Decoder D _ \<Rightarrow>
          (case (prompt_lengths, lev) of
             (Some pls, Some sts) \<Rightarrow>
               result_bind (lev_batch_decode sm D debug logits starts xs block_length
                   (Some (map ((!) pls) seq_ids)) (Some sts) (Some seq_ids))
                 (\<lambda>(xs', sts'). Inr (xs', Some sts'))
           | _ \<Rightarrow> Inl (RuntimeError ''levenshtein_joint decoding requires prompt_lengths and a row state''))
      | Hierarchy_Decoder _ _ _ _ \<Rightarrow> Inl (AttributeError ''HierarchyDecoder has no attribute batch_decode''))"

definition select_decode_sequences ::
  "llada_decoder \<Rightarrow> token list list \<Rightarrow> bool list \<Rightarrow> nat \<Rightarrow> nat list" where
  "select_decode_sequences dec rows flags batch_size =
     (if needs_row_state dec
      then select_batch_sequences_by_order rows flags (dec_mask_id dec) batch_size
      else select_batch_sequences_by_mask_number rows flags (dec_mask_id dec) batch_size)"

section \<open>The decode loop\<close>

record 'v runner_state =
  rs_rows :: "token list list"
  rs_start :: "nat list"
  rs_flag :: "bool list"
  rs_budget :: edit_budget
  rs_lev :: "lev_row list option"
  rs_kv :: "'v kv_store"
  rs_forwards :: nat

type_synonym 'v decode_fwd =
  "token list list \<Rightarrow> nat list list \<Rightarrow> 'v list list \<Rightarrow> flt list list list \<times> 'v list list"

definition row_length :: "token list list \<Rightarrow> nat" where
  "row_length rows = (case rows of [] \<Rightarrow> 0 | row # _ \<Rightarrow> length row)"

text \<open>\<open>decoding_flag & (decoding_start + block_length <= bound)\<close>, with one bound per row.\<close>

definition flags_below :: "nat \<Rightarrow> (nat \<Rightarrow> nat) \<Rightarrow> nat list \<Rightarrow> bool list \<Rightarrow> bool list" where
  "flags_below block_length bound starts flags =
     tabulate (length flags) (\<lambda>r. flags ! r \<and> starts ! r + block_length \<le> bound r)"

definition current_cache_length ::
  "runner_config \<Rightarrow> nat \<Rightarrow> 'v runner_state \<Rightarrow> nat" where
  "current_cache_length rc max_length st =
     min (max (rc_max_cache_length_align rc)
            (align_exp2 (Min (set (map ((!) (rs_start st)) (nonzero (rs_flag st)))) + rc_block_length rc)))
       max_length"

text \<open>The early stop: rows whose finished block holds a generated end-of-sequence token.\<close>

definition early_stop_rows ::
  "runner_config \<Rightarrow> llada_decoder \<Rightarrow> nat list option \<Rightarrow> nat list \<Rightarrow> token list list \<Rightarrow> nat list
    \<Rightarrow> bool list \<Rightarrow> bool list" where
  "early_stop_rows rc dec prompt_lengths seq_ids rows starts fin =
     (let hit = generated_eos_hit (map ((!) rows) seq_ids) (dec_eos_ids dec)
            (map_option (\<lambda>pls. map ((!) pls) seq_ids) prompt_lengths) (map ((!) starts) seq_ids)
      in tabulate (length seq_ids) (\<lambda>k. rc_early_stop rc \<and> hit ! k \<and> fin ! k))"

definition decode_iter ::
  "(flt list \<Rightarrow> rat list) \<Rightarrow> (rat \<Rightarrow> flt list list \<Rightarrow> flt list list) \<Rightarrow> bool \<Rightarrow> runner_config
    \<Rightarrow> llada_decoder \<Rightarrow> 'v decode_fwd \<Rightarrow> nat \<Rightarrow> nat list \<Rightarrow> nat list option \<Rightarrow> nat
    \<Rightarrow> 'v runner_state \<Rightarrow> 'v runner_state result" where
  "decode_iter sm gumbel debug rc dec fwd total_length decode_lengths prompt_lengths cache_length st =
     (let L = rc_block_length rc;
          seq_ids = select_decode_sequences dec (rs_rows st)
            (flags_below L (\<lambda>r. cache_length) (rs_start st) (rs_flag st)) (rc_mini_batch_size rc);
          xs = map ((!) (rs_rows st)) seq_ids;
          starts = map ((!) (rs_start st)) seq_ids
      in result_bind (gather_blocks xs starts L) (\<lambda>blocks.
         result_bind (read_past seq_ids cache_length (rs_kv st)) (\<lambda>past.
         let (logits, cells) = fwd blocks (map (\<lambda>s. map (\<lambda>i. i + s) [0..<L]) starts) past in
         result_bind (run_batch_decode sm gumbel debug dec L (take (length seq_ids) logits) starts
             (row_length xs) xs seq_ids prompt_lengths (rs_budget st) (rs_lev st)) (\<lambda>(xs', lev).
         result_bind (gather_blocks xs' starts L) (\<lambda>after.
         let had = map (\<lambda>b. any_row (is_mask (dec_mask_id dec) b)) blocks;
             ch = map2 (\<lambda>a b. a \<noteq> b) after blocks;
             fin = map2 (\<lambda>h c. \<not> h \<and> \<not> c) had ch in
         result_bind (budget_update (rs_budget st) seq_ids had ch fin) (\<lambda>eb.
         result_bind (update_finished_kv_cache seq_ids starts fin cache_length L cells (rs_kv st)) (\<lambda>kv.
         let start1 = scatter (rs_start st) seq_ids (map2 (\<lambda>s f. s + (if f then L else 0)) starts fin);
             rows1 = scatter (rs_rows st) seq_ids xs';
             eos = early_stop_rows rc dec prompt_lengths seq_ids rows1 start1 fin;
             start2 = scatter start1 seq_ids
               (tabulate (length seq_ids) (\<lambda>k. if eos ! k then total_length else start1 ! (seq_ids ! k)));
             flag1 = scatter (rs_flag st) seq_ids
               (tabulate (length seq_ids) (\<lambda>k. rs_flag st ! (seq_ids ! k) \<and> \<not> eos ! k))
         in Inr (st\<lparr> rs_rows := rows1, rs_start := start2,
                rs_flag := flags_below L ((!) decode_lengths) start2 flag1,
                rs_budget := eb, rs_lev := lev, rs_kv := kv,
                rs_forwards := rs_forwards st + 1 \<rparr>))))))))"

text \<open>
  The nested loops of \<open>_decode_batches\<close>: the second argument is the cache length of the inner
  loop, or \<open>None\<close> at the head of the outer one.  The result is \<open>None\<close> when the fuel runs out.
\<close>

fun decode_loop ::
  "(flt list \<Rightarrow> rat list) \<Rightarrow> (rat \<Rightarrow> flt list list \<Rightarrow> flt list list) \<Rightarrow> bool \<Rightarrow> runner_config
    \<Rightarrow> llada_decoder \<Rightarrow> 'v decode_fwd \<Rightarrow> nat \<Rightarrow> nat \<Rightarrow> nat list \<Rightarrow> nat list option
    \<Rightarrow> nat \<Rightarrow> nat option \<Rightarrow> 'v runner_state \<Rightarrow> 'v runner_state result option" where
  "decode_loop sm gumbel debug rc dec fwd max_length total_length dls pls 0 pc st = None"
| "decode_loop sm gumbel debug rc dec fwd max_length total_length dls pls (Suc fuel) None st =
     (if any_row (rs_flag st)
      then decode_loop sm gumbel debug rc dec fwd max_length total_length dls pls fuel
             (Some (current_cache_length rc max_length st)) st
      else Some (Inr st))"
| "decode_loop sm gumbel debug rc dec fwd max_length total_length dls pls (Suc fuel) (Some c) st =
     (if any_row (flags_below (rc_block_length rc) (\<lambda>r. c) (rs_start st) (rs_flag st))
      then (case decode_iter sm gumbel debug rc dec fwd total_length dls pls c st of
              Inl e \<Rightarrow> Some (Inl e)
            | Inr st' \<Rightarrow> decode_loop sm gumbel debug rc dec fwd max_length total_length dls pls fuel (Some c) st')
      else decode_loop sm gumbel debug rc dec fwd max_length total_length dls pls fuel None st)"

section \<open>The prefill loop\<close>

type_synonym 'v prefill_fwd = "token list list \<Rightarrow> bool list list list option \<Rightarrow> nat list list \<Rightarrow> 'v list list"

text \<open>The prefill length of one row: whole blocks of the prompt for \<open>flex\<close>, else the clipped length.\<close>

definition sample_length :: "runner_config \<Rightarrow> nat list \<Rightarrow> nat list \<Rightarrow> nat \<Rightarrow> nat" where
  "sample_length rc prefilling_lengths prompt_lengths s =
     (if rc_attention_backend rc = ''flex''
      then (prompt_lengths ! s + rc_block_length rc - 1) div rc_block_length rc * rc_block_length rc
      else prefilling_lengths ! s)"

definition prefill_iter ::
  "'v \<Rightarrow> runner_config \<Rightarrow> 'v prefill_fwd \<Rightarrow> bool list list list option \<Rightarrow> token list list \<Rightarrow> token
    \<Rightarrow> nat list \<Rightarrow> nat list \<Rightarrow> bool list \<times> 'v kv_store \<times> nat \<Rightarrow> (bool list \<times> 'v kv_store \<times> nat) result" where
  "prefill_iter zero rc fwd attention_mask rows mid prefilling_lengths prompt_lengths fs =
     (let (flags, store, forwards) = fs;
          seq_ids = select_batch_sequences_by_mask_number rows flags mid (rc_mini_batch_size rc);
          n = Max (set (map (sample_length rc prefilling_lengths prompt_lengths) seq_ids));
          mask = map_option (\<lambda>m. map (\<lambda>b. map (take n) (take n b)) (take (length seq_ids) m)) attention_mask;
          cells = fwd (map (\<lambda>s. take n (rows ! s)) seq_ids) mask (map (\<lambda>s. [0..<n]) seq_ids)
      in result_bind (result_fold (\<lambda>k store'. write_prefill_kv_cache zero (seq_ids ! k)
             (sample_length rc prefilling_lengths prompt_lengths (seq_ids ! k)) (cells ! k) store')
           [0..<length seq_ids] store)
         (\<lambda>store'. Inr (scatter flags seq_ids (replicate (length seq_ids) False), store', forwards + 1)))"

fun prefill_loop ::
  "'v \<Rightarrow> runner_config \<Rightarrow> 'v prefill_fwd \<Rightarrow> bool list list list option \<Rightarrow> token list list \<Rightarrow> token
    \<Rightarrow> nat list \<Rightarrow> nat list \<Rightarrow> nat \<Rightarrow> bool list \<times> 'v kv_store \<times> nat \<Rightarrow> ('v kv_store \<times> nat) result option" where
  "prefill_loop zero rc fwd am rows mid pfls pls 0 fs = None"
| "prefill_loop zero rc fwd am rows mid pfls pls (Suc fuel) fs =
     (if any_row (fst fs)
      then (case prefill_iter zero rc fwd am rows mid pfls pls fs of
              Inl e \<Rightarrow> Some (Inl e)
            | Inr fs' \<Rightarrow> prefill_loop zero rc fwd am rows mid pfls pls fuel fs')
      else Some (Inr (snd fs)))"

section \<open>generate\<close>

text \<open>The runner as \<open>generate\<close> finds it: configuration, decoder, model and mutable fields.\<close>

record runner =
  rn_config :: runner_config
  rn_decoder :: llada_decoder
  rn_num_layers :: nat
  rn_max_length :: nat
  rn_forwards :: nat

definition decoding_starts :: "runner_config \<Rightarrow> nat list \<Rightarrow> nat list" where
  "decoding_starts rc prompt_lengths =
     map (\<lambda>p. let s = p div rc_block_length rc * rc_block_length rc
              in if rc_attention_backend rc \<noteq> ''flex'' then min s (rc_prefilling_limit rc) else s)
       prompt_lengths"

definition decode_limits :: "runner_config \<Rightarrow> nat list \<Rightarrow> nat list \<Rightarrow> nat list \<Rightarrow> nat list" where
  "decode_limits rc prompt_lengths generation_lengths starts =
     tabulate (length prompt_lengths) (\<lambda>r.
       if generation_lengths ! r > 0
       then (prompt_lengths ! r + generation_lengths ! r + rc_block_length rc - 1)
              div rc_block_length rc * rc_block_length rc
       else starts ! r)"

text \<open>\<open>output.masked_fill(positions >= output_ends, mask_id)\<close>\<close>

definition masked_fill_tail :: "token \<Rightarrow> nat list \<Rightarrow> token list list \<Rightarrow> token list list" where
  "masked_fill_tail mid ends rows =
     tabulate (length rows) (\<lambda>r. tabulate (length (rows ! r)) (\<lambda>i.
       if ends ! r \<le> i then mid else rows ! r ! i))"

definition generate ::
  "(flt list \<Rightarrow> rat list) \<Rightarrow> (rat \<Rightarrow> flt list list \<Rightarrow> flt list list) \<Rightarrow> bool \<Rightarrow> 'v
    \<Rightarrow> 'v prefill_fwd \<Rightarrow> 'v decode_fwd \<Rightarrow> nat \<Rightarrow> runner
    \<Rightarrow> token list list \<Rightarrow> int list option \<Rightarrow> int list option
    \<Rightarrow> (token list list \<times> runner) result option" where
  "generate sm gumbel debug zero pfwd dfwd fuel rn prompts prompt_lengths generation_lengths =
     (let rc = rn_config rn; dec = rn_decoder rn; mid = dec_mask_id dec; L = rc_block_length rc;
          B = length prompts; P = row_length prompts;
          pls = (case prompt_lengths of Some p \<Rightarrow> p
                 | None \<Rightarrow> map (\<lambda>row. int (length (filter (\<lambda>t. t \<noteq> mid) row))) prompts);
          gls = (case generation_lengths of Some g \<Rightarrow> g
                 | None \<Rightarrow> map (\<lambda>_. int (rc_gen_length rc)) pls)
      in if length pls \<noteq> B \<or> length gls \<noteq> B
         then Some (Inl (ValueError ''prompt_lengths and generation_lengths must have one entry per row''))
         else if list_ex (\<lambda>p. p < 0 \<or> p > int P) pls
         then Some (Inl (ValueError ''prompt_lengths must lie within the prompt tensor''))
         else if list_ex (\<lambda>g. g < 0) gls
         then Some (Inl (ValueError ''generation_lengths must be non-negative''))
         else if gls = [] then Some (Inl (RuntimeError ''max of an empty tensor''))
         else let npls = map nat pls; ngls = map nat gls;
                  (total_length, new_gen, mask_blocks, max_length) =
                    preprocess_inputs L (rn_max_length rn) P (Max (set ngls));
                  ends = map2 (+) npls ngls
              in if rc_cache rc \<notin> {[], ''prefix''} then Some (Inl (ValueError ''Unsupported cache mode''))
                 else let am = (if rc_attention_backend rc \<noteq> ''flex''
                            then Some (build_block_attention_mask L mask_blocks (rc_mini_batch_size rc)) else None);
                          x = ta_data (token_array_init prompts new_gen mid (hd (dec_eos_ids dec)));
                          starts = decoding_starts rc npls;
                          dls = decode_limits rc npls ngls starts
                      in case allocate_kv_cache zero (rn_num_layers rn) rc max_length B of
                           Inl e \<Rightarrow> Some (Inl e)
                         | Inr store \<Rightarrow>
                      (case prefill_loop zero rc pfwd am x mid starts npls fuel
                              (map (\<lambda>s. s > 0) starts, store, rn_forwards rn) of
                         None \<Rightarrow> None
                       | Some (Inl e) \<Rightarrow> Some (Inl e)
                       | Some (Inr (store', fw)) \<Rightarrow>
                           let (eb, lev) = make_decode_loop_state rc dec B in
                           (case decode_loop sm gumbel debug rc dec dfwd max_length total_length dls (Some npls) fuel None
                                  \<lparr> rs_rows = x, rs_start = starts,
                                    rs_flag = flags_below L ((!) dls) starts (replicate B True),
                                    rs_budget = eb, rs_lev = lev, rs_kv = store', rs_forwards = fw \<rparr> of
                              None \<Rightarrow> None
                            | Some (Inl e) \<Rightarrow> Some (Inl e)
                            | Some (Inr st) \<Rightarrow>
                                Some (Inr (masked_fill_tail mid ends (rs_rows st),
                                  rn\<lparr> rn_max_length := max_length, rn_forwards := rs_forwards st \<rparr>)))))"

section \<open>The two attention masks agree\<close>

lemma repeat_interleave_nth:
  assumes "i < length xs * n"
  shows "repeat_interleave n xs ! i = xs ! (i div n)" and "length (repeat_interleave n xs) = length xs * n"
proof -
  have "repeat_interleave n xs = concat (tabulate (length xs) (\<lambda>b. tabulate n (\<lambda>_. xs ! b)))"
    unfolding repeat_interleave_def
    by (rule arg_cong [where f = concat], rule nth_equalityI) (auto simp: tabulate_def map_replicate_const)
  then have eq: "repeat_interleave n xs = tabulate (length xs * n) (\<lambda>k. xs ! (k div n))"
    by (simp only: concat_tabulate_uniform)
  show "repeat_interleave n xs ! i = xs ! (i div n)" "length (repeat_interleave n xs) = length xs * n"
    using assms by (simp_all add: eq)
qed

lemma block_mask_entry:
  assumes "b < mini" and "q < nb * L" and "k < nb * L"
  shows "build_block_attention_mask L nb mini ! b ! q ! k \<longleftrightarrow> block_causal_mask L q k"
proof -
  let ?tril = "tabulate nb (\<lambda>i. tabulate nb (\<lambda>j. j \<le> i))"
  have q: "q div L < nb" and k: "k div L < nb" using assms by (simp_all add: less_mult_imp_div_less)
  have "repeat_interleave L ?tril ! q = tabulate nb (\<lambda>j. j \<le> q div L)"
    and len: "length (repeat_interleave L ?tril) = nb * L"
    using repeat_interleave_nth [of q ?tril L] assms q by simp_all
  then show ?thesis
    using assms q k repeat_interleave_nth(1) [of k "tabulate nb (\<lambda>j. j \<le> q div L)" L]
    by (simp add: build_block_attention_mask_def block_causal_mask_def len)
qed

section \<open>Decoders as block decoders\<close>

type_synonym dec_input = "flt list list \<times> bool list"

definition plain_decoder :: "llada_decoder \<Rightarrow> bool" where
  "plain_decoder dec = (case dec of Threshold_Decoder _ \<Rightarrow> True | Credit_Decoder _ \<Rightarrow> True
     | Joint_Decoder _ \<Rightarrow> True | _ \<Rightarrow> False)"

definition dec_input_ok ::
  "(flt list \<Rightarrow> rat list) \<Rightarrow> (rat \<Rightarrow> flt list list \<Rightarrow> flt list list) \<Rightarrow> llada_decoder \<Rightarrow> nat
    \<Rightarrow> flt list list \<Rightarrow> bool" where
  "dec_input_ok sm gumbel dec n lg = (case dec of
     Threshold_Decoder D \<Rightarrow> threshold_input_ok sm gumbel D n lg
   | Credit_Decoder D \<Rightarrow> threshold_input_ok sm gumbel (threshold_decoder.truncate D) n lg
   | Joint_Decoder D \<Rightarrow> joint_input_ok sm D n lg
   | _ \<Rightarrow> False)"

definition dec_iter ::
  "(flt list \<Rightarrow> rat list) \<Rightarrow> (rat \<Rightarrow> flt list list \<Rightarrow> flt list list) \<Rightarrow> llada_decoder \<Rightarrow> dec_input
    \<Rightarrow> token list \<Rightarrow> bool \<Rightarrow> token list" where
  "dec_iter sm gumbel dec i x ae = (case dec of
     Threshold_Decoder D \<Rightarrow> threshold_iter sm gumbel D (fst i) x ae
   | Credit_Decoder D \<Rightarrow> threshold_iter sm gumbel (threshold_decoder.truncate D) (fst i) x ae
   | Joint_Decoder D \<Rightarrow> joint_iter sm D i x ae
   | _ \<Rightarrow> x)"

lemma truncate_mask_id [simp]: "td_mask_id (threshold_decoder.truncate D) = td_mask_id D"
  by (simp add: threshold_decoder.truncate_def)

interpretation dec: block_decoder "dec_mask_id dec" n "\<lambda>i. dec_input_ok sm gumbel dec n (fst i)"
  "dec_iter sm gumbel dec" for dec n sm gumbel
proof
  fix i :: dec_input and x ae
  assume ok: "dec_input_ok sm gumbel dec n (fst i)" and len: "length (x :: token list) = n"
  show "length (dec_iter sm gumbel dec i x ae) = n"
    using ok len by (cases dec) (simp_all add: dec_iter_def dec_input_ok_def thr.step_length jnt.step_length)
  show "mask_count (dec_mask_id dec) (dec_iter sm gumbel dec i x ae) < mask_count (dec_mask_id dec) x"
    if "dec_mask_id dec \<in> set x"
    using ok len that thr.reveals [of sm gumbel _ n "fst i" x ae] jnt.reveals [of sm _ n i x ae]
    by (cases dec) (auto simp: dec_iter_def dec_input_ok_def dec_mask_id_def, metis truncate_mask_id)
  assume um: "dec_mask_id dec \<notin> set x"
  show "dec_mask_id dec \<notin> set (dec_iter sm gumbel dec i x ae)"
    using ok len um thr.keeps_unmasked [of sm gumbel _ n "fst i" x ae] jnt.keeps_unmasked [of sm _ n i x ae]
    by (cases dec) (auto simp: dec_iter_def dec_input_ok_def dec_mask_id_def, metis truncate_mask_id)
  show "dec_iter sm gumbel dec i x False = x"
    using ok len um thr.frozen [of sm gumbel _ n "fst i" x] jnt.frozen [of sm _ n i x]
    by (cases dec) (auto simp: dec_iter_def dec_input_ok_def dec_mask_id_def)
qed

lemma dec_keeps_prompt:
  assumes "i < length x" and "snd inp ! i" and "x ! i \<noteq> dec_mask_id dec"
  shows "dec_iter sm gumbel dec inp x ae ! i = x ! i"
  using assms joint_keeps_prompt [of i x "snd inp"]
    threshold_block_only_masked(1) [of i x sm gumbel _ None "fst inp"]
  by (cases dec) (force simp: dec_iter_def dec_mask_id_def threshold_iter_def joint_iter_def)+

section \<open>Batches row by row\<close>

lemma run_batch_rowwise:
  assumes dec: "plain_decoder dec"
    and xs: "length xs = length seq_ids" "\<And>k. k < length xs \<Longrightarrow> length (xs ! k) = T"
    and st: "length starts = length xs" "\<And>k. k < length xs \<Longrightarrow> starts ! k + L \<le> T"
  shows "run_batch_decode sm gumbel debug dec L logits starts T xs seq_ids (Some pls) eb lev =
    Inr (tabulate (length xs) (\<lambda>k. scatter_window (xs ! k) (starts ! k)
      (dec_iter sm gumbel dec (logits ! k, tabulate L (\<lambda>i. starts ! k + i < pls ! (seq_ids ! k)))
        (gather_window (xs ! k) (starts ! k) L)
        (eb_post_steps eb ! (seq_ids ! k) < eb_max_post_steps eb))), lev)"
proof (cases dec)
  case (Joint_Decoder D)
  have "tabulate (length xs) (\<lambda>b. joint_decode_row sm D (logits ! b) (starts ! b) (xs ! b) L
        (map ((!) pls) seq_ids ! b) (allow_edit eb seq_ids ! b)) =
      tabulate (length xs) (\<lambda>k. scatter_window (xs ! k) (starts ! k)
        (joint_iter sm D (logits ! k, tabulate L (\<lambda>i. starts ! k + i < pls ! (seq_ids ! k)))
          (gather_window (xs ! k) (starts ! k) L) (eb_post_steps eb ! (seq_ids ! k) < eb_max_post_steps eb)))"
    by (rule tabulate_cong) (use xs(1) in \<open>simp add: joint_decode_row_def joint_iter_def allow_edit_def Let_def\<close>)
  then show ?thesis
    using Joint_Decoder by (simp add: run_batch_decode_def joint_batch_decode_def dec_iter_def)
qed (use dec threshold_batch_rowwise [OF refl xs(2) st] in
  \<open>simp_all add: run_batch_decode_def plain_decoder_def dec_iter_def threshold_iter_def\<close>)

section \<open>Facts about the cache store\<close>

text \<open>A store that holds \<open>M\<close> positions of each of \<open>B\<close> rows, every page of a row set.\<close>

definition store_ok :: "nat \<Rightarrow> nat \<Rightarrow> 'v kv_store \<Rightarrow> bool" where
  "store_ok B M store = (case store of
     Dense_KV rows \<Rightarrow> length rows = B \<and> list_all (\<lambda>row. length row = M) rows
   | Paged_KV kv \<Rightarrow> kv_wf kv \<and> kv_batch_size kv = B \<and> kv_max_length kv = M
       \<and> list_all (\<lambda>s. seq_ok kv s M) [0..<B])"

lemma store_ok_Dense [simp]:
  "store_ok B M (Dense_KV rows) \<longleftrightarrow> length rows = B \<and> (\<forall>s < B. length (rows ! s) = M)"
  by (auto simp: store_ok_def list_all_length)

lemma store_ok_Paged [simp]:
  "store_ok B M (Paged_KV kv) \<longleftrightarrow> kv_wf kv \<and> kv_batch_size kv = B \<and> kv_max_length kv = M
     \<and> (\<forall>s < B. seq_ok kv s M)"
  by (auto simp: store_ok_def list_all_iff)

lemma allocate_ok:
  assumes "0 < M" and "rc_kv_cache_layout rc = ''paged'' \<Longrightarrow> \<exists>ps > 0. rc_page_size rc = Some ps" and "0 < B"
  shows "\<exists>store. allocate_kv_cache zero nl rc M B = Inr store \<and> store_ok B M store"
proof (cases "rc_kv_cache_layout rc = ''paged''")
  case True
  then obtain ps where ps: "0 < ps" "rc_page_size rc = Some ps" using assms(2) by blast
  have "0 < ceil_div M (nat ps)" using ceil_div_pos [of "nat ps" M] assms(1) ps by simp
  then obtain kv where kv: "kv_init zero nl B (int M) ps None 0 = Inr kv"
    using assms(1,3) ps by (auto simp: kv_init_def Let_def)
  then have "kv_batch_size kv = B" "kv_max_length kv = M"
    by (auto simp: kv_init_def Let_def split: if_splits)
  then show ?thesis
    using kv kv_init_wf [OF kv] internal_seq_ok [OF kv] True ps
    by (auto simp: allocate_kv_cache_def)
qed (auto simp: allocate_kv_cache_def)

lemma paged_write_ok:
  assumes "store_ok B M (Paged_KV kv)" and "s < B" and "start + length cells \<le> M"
  shows "\<exists>kv'. write_range s (int start) cells kv = Inr kv' \<and> store_ok B M (Paged_KV kv')"
proof -
  have ok: "kv_wf kv" "seq_ok kv s M" using assms by simp_all
  obtain kv' where kv': "write_range s (int start) cells kv = Inr kv'" "kv' = kv\<lparr>kv_data := kv_data kv'\<rparr>"
    using write_range_ok [OF ok assms(3)] by auto
  note eff = write_range_effect [OF ok assms(3) kv'(1)]
  have "kv_external kv' = kv_external kv" by (subst kv'(2)) simp
  then have "\<forall>s < B. seq_ok kv' s M"
    using assms(1) eff by (simp add: seq_ok_def seq_pages_def)
  then show ?thesis using kv'(1) eff assms(1) by auto
qed

lemma read_past_ok:
  assumes "store_ok B M store" and "\<And>s. s \<in> set ids \<Longrightarrow> s < B" and "c \<le> M"
  shows "\<exists>past. read_past ids c store = Inr past \<and> length past = length ids
    \<and> (\<forall>k < length ids. length (past ! k) = c)"
proof (cases store)
  case (Dense_KV rows)
  have "result_map (\<lambda>s. result_bind (py_nth rows s) (\<lambda>row. Inr (take c row))) ids
      = Inr (map (\<lambda>s. take c (rows ! s)) ids)"
    by (rule result_map_ok) (use assms Dense_KV in \<open>auto simp: py_nth_def\<close>)
  then show ?thesis using assms Dense_KV nth_mem by (fastforce simp: read_past_def)
next
  case (Paged_KV kv)
  have "result_map (read_row kv c) ids = Inr (map (\<lambda>s. map (cell_of kv s) [0..<c]) ids)"
    by (rule result_map_ok) (use assms Paged_KV read_row_ok in auto)
  then show ?thesis using assms(1,3) Paged_KV by (auto simp: read_past_def materialize_def)
qed

lemma commit_block_ok:
  assumes "store_ok B M store" and "s < B" and "start + L \<le> M" and "L \<le> c" and "length cells = c"
  shows "\<exists>store'. commit_block L c (s, start, cells) store = Inr store' \<and> store_ok B M store'"
proof -
  have len: "length (slice (c - L) c cells) = L" using assms(4,5) by simp
  show ?thesis
  proof (cases store)
    case (Dense_KV rows)
    then show ?thesis
      using assms len by (auto simp: commit_block_def dense_write_def nth_list_update Let_def)
  next
    case (Paged_KV kv)
    then obtain kv' where "write_range s (int start) (slice (c - L) c cells) kv = Inr kv'"
        "store_ok B M (Paged_KV kv')"
      using paged_write_ok [of B M kv s start "slice (c - L) c cells"] assms len by auto
    then show ?thesis using Paged_KV by (simp add: commit_block_def)
  qed
qed

lemma result_fold_ok:
  assumes "\<And>x s. x \<in> set xs \<Longrightarrow> I s \<Longrightarrow> \<exists>s'. f x s = Inr s' \<and> I s'" and "I s"
  shows "\<exists>s'. result_fold f xs s = Inr s' \<and> I s'"
  using assms
proof (induction xs arbitrary: s)
  case (Cons x xs)
  then obtain s' where "f x s = Inr s'" "I s'" by fastforce
  then show ?case using Cons.IH [of s'] Cons.prems by auto
qed simp

lemma update_finished_ok:
  fixes store :: "'v kv_store"
  assumes "store_ok B M store" and "length starts = length ids" and "length fin = length ids"
    and "\<And>k. k < length ids \<Longrightarrow> ids ! k < B \<and> starts ! k + L \<le> M \<and> length (cells ! k) = c" and "L \<le> c"
  shows "\<exists>store'. update_finished_kv_cache ids starts fin c L cells store = Inr store' \<and> store_ok B M store'"
  unfolding update_finished_kv_cache_def
proof (rule result_fold_ok [where I = "store_ok B M", OF _ assms(1)])
  fix ssc and st :: "'v kv_store"
  assume "ssc \<in> set (map (\<lambda>k. (ids ! k, starts ! k, cells ! k)) (nonzero (take (length ids) fin)))"
    and ok: "store_ok B M st"
  then obtain k where "k < length ids" "ssc = (ids ! k, starts ! k, cells ! k)"
    using assms(3) by (auto simp: nonzero_simps)
  then show "\<exists>st'. commit_block L c ssc st = Inr st' \<and> store_ok B M st'"
    using commit_block_ok [OF ok _ _ assms(5)] assms(4) by auto
qed

lemma prefill_write_ok:
  assumes "store_ok B M store" and "s < B" and "n \<le> M" and "n \<le> length cells"
  shows "\<exists>store'. write_prefill_kv_cache zero s n cells store = Inr store' \<and> store_ok B M store'"
proof (cases store)
  case (Paged_KV kv)
  then show ?thesis
    using paged_write_ok [of B M kv s 0 "take n cells"] assms
    by (auto simp: write_prefill_kv_cache_def)
qed (use assms in \<open>auto simp: write_prefill_kv_cache_def nth_list_update\<close>)

end
