(* ===== verification/Runner_Correct.thy ===== *)
theory Runner_Correct
  imports Block_Runner
begin

text \<open>
  Correctness of the decode loop and of \<open>generate\<close>: one iteration acts on the selected rows as
  independent steps of a block decoder and leaves the others alone; the loop terminates with
  enough fuel and without an error; and what \<open>generate\<close> returns.
\<close>

section \<open>The environment of a decode loop\<close>

record 'v decode_env =
  de_sm :: "flt list \<Rightarrow> rat list"
  de_gumbel :: "rat \<Rightarrow> flt list list \<Rightarrow> flt list list"
  de_debug :: bool
  de_rc :: runner_config
  de_dec :: llada_decoder
  de_fwd :: "'v decode_fwd"
  de_max_length :: nat
  de_total :: nat
  de_dls :: "nat list"
  de_pls :: "nat list"

abbreviation de_L :: "'v decode_env \<Rightarrow> nat" where "de_L E \<equiv> rc_block_length (de_rc E)"
abbreviation de_P :: "'v decode_env \<Rightarrow> nat" where "de_P E \<equiv> nat (rc_max_post_steps (de_rc E))"
abbreviation de_B :: "'v decode_env \<Rightarrow> nat" where "de_B E \<equiv> length (de_pls E)"
abbreviation de_mask :: "'v decode_env \<Rightarrow> token" where "de_mask E \<equiv> dec_mask_id (de_dec E)"

abbreviation iter_in :: "'v decode_env \<Rightarrow> nat \<Rightarrow> 'v runner_state \<Rightarrow> 'v runner_state result" where
  "iter_in E c st \<equiv> decode_iter (de_sm E) (de_gumbel E) (de_debug E) (de_rc E) (de_dec E) (de_fwd E)
     (de_total E) (de_dls E) (Some (de_pls E)) c st"

abbreviation loop_in ::
  "'v decode_env \<Rightarrow> nat \<Rightarrow> nat option \<Rightarrow> 'v runner_state \<Rightarrow> 'v runner_state result option" where
  "loop_in E fuel pc st \<equiv> decode_loop (de_sm E) (de_gumbel E) (de_debug E) (de_rc E) (de_dec E)
     (de_fwd E) (de_max_length E) (de_total E) (de_dls E) (Some (de_pls E)) fuel pc st"

text \<open>
  What the loop relies on in the model: one row of usable logits and one row of cells, as long as
  the past it was given, for each row of the batch.
\<close>

definition fwd_ok ::
  "(flt list \<Rightarrow> rat list) \<Rightarrow> (rat \<Rightarrow> flt list list \<Rightarrow> flt list list) \<Rightarrow> llada_decoder \<Rightarrow> nat
    \<Rightarrow> 'v decode_fwd \<Rightarrow> bool" where
  "fwd_ok sm gumbel dec L fwd = (\<forall>blocks pos past. length past = length blocks \<longrightarrow>
     length (fst (fwd blocks pos past)) = length blocks
     \<and> length (snd (fwd blocks pos past)) = length blocks
     \<and> (\<forall>k < length blocks. dec_input_ok sm gumbel dec L (fst (fwd blocks pos past) ! k)
          \<and> length (snd (fwd blocks pos past) ! k) = length (past ! k)))"

definition env_ok :: "'v decode_env \<Rightarrow> bool" where
  "env_ok E = (plain_decoder (de_dec E) \<and> 0 < de_L E \<and> 0 < rc_mini_batch_size (de_rc E)
     \<and> de_total E \<le> de_max_length E \<and> length (de_dls E) = de_B E
     \<and> list_all (\<lambda>d. d \<le> de_total E) (de_dls E)
     \<and> fwd_ok (de_sm E) (de_gumbel E) (de_dec E) (de_L E) (de_fwd E))"

text \<open>The current block of a row, and the state invariant of the loop.\<close>

definition row_block :: "'v decode_env \<Rightarrow> 'v runner_state \<Rightarrow> nat \<Rightarrow> token list" where
  "row_block E st r = gather_window (rs_rows st ! r) (rs_start st ! r) (de_L E)"

definition budget_shape :: "'v decode_env \<Rightarrow> edit_budget \<Rightarrow> bool" where
  "budget_shape E eb = (length (eb_post_steps eb) = de_B E \<and> length (eb_block_iters eb) = de_B E
     \<and> eb_max_post_steps eb = de_P E \<and> eb_block_length eb = de_L E \<and> eb_override eb = None)"

definition row_inv :: "'v decode_env \<Rightarrow> 'v runner_state \<Rightarrow> nat \<Rightarrow> bool" where
  "row_inv E st r = (length (rs_rows st ! r) = de_total E
     \<and> eb_block_iters (rs_budget st) ! r < de_L E + de_P E + 1
     \<and> (rs_flag st ! r \<longrightarrow> rs_start st ! r + de_L E \<le> de_dls E ! r
          \<and> budget_row_ok (de_mask E) (de_L E) (de_P E) (row_block E st r)
              (eb_post_steps (rs_budget st) ! r) (eb_block_iters (rs_budget st) ! r)))"

definition loop_inv :: "'v decode_env \<Rightarrow> 'v runner_state \<Rightarrow> bool" where
  "loop_inv E st = (length (rs_rows st) = de_B E \<and> length (rs_start st) = de_B E
     \<and> length (rs_flag st) = de_B E \<and> budget_shape E (rs_budget st)
     \<and> store_ok (de_B E) (de_max_length E) (rs_kv st) \<and> (\<forall>r < de_B E. row_inv E st r))"

text \<open>One row through an iteration: the step of its decoder, its budget, its position.\<close>

definition eos_between :: "token list \<Rightarrow> token list \<Rightarrow> nat \<Rightarrow> nat \<Rightarrow> bool" where
  "eos_between eos_ids row a b = list_ex (\<lambda>i. i < b \<and> a \<le> i \<and> row ! i \<in> set eos_ids) [0..<length row]"

definition row_step :: "'v decode_env \<Rightarrow> 'v runner_state \<Rightarrow> 'v runner_state \<Rightarrow> nat \<Rightarrow> flt list list \<Rightarrow> bool" where
  "row_step E st st' r lg =
     (let s = rs_start st ! r; post = eb_post_steps (rs_budget st) ! r;
          x = row_block E st r;
          y = dec_iter (de_sm E) (de_gumbel E) (de_dec E)
                (lg, tabulate (de_L E) (\<lambda>i. s + i < de_pls E ! r)) x (post < de_P E);
          fin = (de_mask E \<notin> set x \<and> y = x);
          row' = scatter_window (rs_rows st ! r) s y;
          eos = (rc_early_stop (de_rc E) \<and> fin
            \<and> eos_between (dec_eos_ids (de_dec E)) row' (de_pls E ! r) (s + de_L E))
      in dec_input_ok (de_sm E) (de_gumbel E) (de_dec E) (de_L E) lg
         \<and> rs_rows st' ! r = row'
         \<and> rs_start st' ! r = (if eos then de_total E else if fin then s + de_L E else s)
         \<and> rs_flag st' ! r = (\<not> eos \<and> rs_start st' ! r + de_L E \<le> de_dls E ! r)
         \<and> eb_post_steps (rs_budget st') ! r =
             (if fin then 0 else post + (if de_mask E \<notin> set x \<and> y \<noteq> x then 1 else 0))
         \<and> eb_block_iters (rs_budget st') ! r = (if fin then 0 else eb_block_iters (rs_budget st) ! r + 1))"

definition row_same :: "'v runner_state \<Rightarrow> 'v runner_state \<Rightarrow> nat \<Rightarrow> bool" where
  "row_same st st' r = (rs_rows st' ! r = rs_rows st ! r \<and> rs_start st' ! r = rs_start st ! r
     \<and> rs_flag st' ! r = rs_flag st ! r
     \<and> eb_post_steps (rs_budget st') ! r = eb_post_steps (rs_budget st) ! r
     \<and> eb_block_iters (rs_budget st') ! r = eb_block_iters (rs_budget st) ! r)"

section \<open>One iteration\<close>

lemma any_mask_iff: "any_row (is_mask mid x) \<longleftrightarrow> mid \<in> set x"
  by (auto simp: any_row_iff in_set_conv_nth)

lemma flags_below_nth [simp]:
  "length (flags_below L bound starts flags) = length flags"
  "r < length flags \<Longrightarrow> flags_below L bound starts flags ! r \<longleftrightarrow> flags ! r \<and> starts ! r + L \<le> bound r"
  by (simp_all add: flags_below_def)

lemma select_decode:
  fixes dec rows flags n
  defines "sel \<equiv> select_decode_sequences dec rows flags n"
  shows "distinct sel" and "s \<in> set sel \<Longrightarrow> s < length flags \<and> flags ! s"
    and "0 < n \<Longrightarrow> any_row flags \<Longrightarrow> sel \<noteq> []"
  unfolding sel_def select_decode_sequences_def
  using select_by_order [where rows = rows and flags = flags and mid = "dec_mask_id dec" and n = n]
    select_by_mask_number [where rows = rows and flags = flags and mid = "dec_mask_id dec" and n = n]
  by (auto split: if_splits)

lemma row_inv_window:
  assumes "env_ok E" and "loop_inv E st" and "r < de_B E" and "rs_flag st ! r"
  shows "rs_start st ! r + de_L E \<le> de_total E" and "length (rs_rows st ! r) = de_total E"
    and "length (row_block E st r) = de_L E"
proof -
  have "row_inv E st r" using assms(2,3) by (simp add: loop_inv_def)
  moreover have "de_dls E ! r \<le> de_total E" using assms(1,3) by (auto simp: env_ok_def list_all_length)
  ultimately show "rs_start st ! r + de_L E \<le> de_total E" "length (rs_rows st ! r) = de_total E"
    using assms(4) by (auto simp: row_inv_def)
qed (simp add: row_block_def)

lemma budget_update_ok:
  assumes sh: "budget_shape E eb" and ids: "distinct ids" "length fin = length ids" "\<forall>s \<in> set ids. s < de_B E"
    and small: "\<And>r. r < de_B E \<Longrightarrow> r \<notin> set ids \<Longrightarrow> eb_block_iters eb ! r < de_L E + de_P E + 1"
    and step: "\<And>k. k < length ids \<Longrightarrow> \<not> fin ! k \<Longrightarrow> eb_block_iters eb ! (ids ! k) + 1 < de_L E + de_P E + 1"
  shows "budget_update eb ids hm ch fin = Inr (budget_count eb ids hm ch fin)"
    and "budget_shape E (budget_count eb ids hm ch fin)"
proof -
  define eb' where "eb' = budget_count eb ids hm ch fin"
  have l: "length (eb_post_steps eb) = de_B E" "length (eb_block_iters eb) = length (eb_post_steps eb)"
    using sh by (simp_all add: budget_shape_def)
  note row = budget_count_row [where hm = hm and ch = ch, OF ids(1,2), of eb, unfolded l(1), OF ids(3),
      unfolded l(2) l(1), OF refl, folded eb'_def]
  show "budget_shape E (budget_count eb ids hm ch fin)"
    using sh row(4-8) by (simp add: budget_shape_def eb'_def)
  have "eb_block_iters eb' ! r < de_L E + de_P E + 1" if r: "r < de_B E" for r
  proof (cases "r \<in> set ids")
    case True
    then obtain k where "k < length ids" "ids ! k = r" by (auto simp: in_set_conv_nth)
    then show ?thesis using row(2) [of k] step [of k] by auto
  qed (use row(3) r small in auto)
  moreover have "budget_max_iters eb' = de_L E + de_P E + 1"
    using row(6-8) sh unfolding budget_max_iters_def budget_shape_def by simp
  ultimately have "\<not> list_ex (\<lambda>n. budget_max_iters eb' \<le> n) (eb_block_iters eb')"
    using row(5) by (auto simp: list_ex_iff in_set_conv_nth not_le)
  then show "budget_update eb ids hm ch fin = Inr (budget_count eb ids hm ch fin)"
    by (auto simp: budget_update_def Let_def eb'_def [symmetric])
qed

lemma nth_scatter_in:
  assumes "distinct ids" and "\<forall>s \<in> set ids. s < B" and "k < length ids"
  shows "length base = B \<Longrightarrow> scatter base ids src ! (ids ! k) = src ! k"
  by (rule nth_scatter_distinct [OF assms(1,3)]) (use assms(2,3) in simp)

lemma fwd_okD:
  assumes "fwd_ok sm gumbel dec L fwd" and "length past = length blocks" and "fwd blocks pos past = (lgs, cells)"
  shows "length lgs = length blocks" "length cells = length blocks"
    "k < length blocks \<Longrightarrow> dec_input_ok sm gumbel dec L (lgs ! k)"
    "k < length blocks \<Longrightarrow> length (cells ! k) = length (past ! k)"
proof -
  have "length (fst (fwd blocks pos past)) = length blocks
     \<and> length (snd (fwd blocks pos past)) = length blocks
     \<and> (\<forall>k < length blocks. dec_input_ok sm gumbel dec L (fst (fwd blocks pos past) ! k)
          \<and> length (snd (fwd blocks pos past) ! k) = length (past ! k))"
    using assms(1,2) unfolding fwd_ok_def by blast
  then show "length lgs = length blocks" "length cells = length blocks"
    "k < length blocks \<Longrightarrow> dec_input_ok sm gumbel dec L (lgs ! k)"
    "k < length blocks \<Longrightarrow> length (cells ! k) = length (past ! k)"
    by (simp_all add: assms(3))
qed

text \<open>The batch before and after the decoder.\<close>

lemma decode_iter_batch:
  fixes E st ids
  defines "xs \<equiv> map ((!) (rs_rows st)) ids" and "starts \<equiv> map ((!) (rs_start st)) ids"
  assumes env: "env_ok E" and inv: "loop_inv E st"
    and ids: "\<forall>s \<in> set ids. s < de_B E \<and> rs_flag st ! s" "ids \<noteq> []"
    and lgs: "length lgs = length ids" "\<And>k. k < length ids \<Longrightarrow> dec_input_ok (de_sm E) (de_gumbel E) (de_dec E) (de_L E) (lgs ! k)"
  defines "Y \<equiv> \<lambda>k. dec_iter (de_sm E) (de_gumbel E) (de_dec E)
      (lgs ! k, tabulate (de_L E) (\<lambda>i. rs_start st ! (ids ! k) + i < de_pls E ! (ids ! k)))
      (row_block E st (ids ! k)) (eb_post_steps (rs_budget st) ! (ids ! k) < de_P E)"
  shows "gather_blocks xs starts (de_L E) = Inr (map (row_block E st) ids)"
    and "run_batch_decode (de_sm E) (de_gumbel E) (de_debug E) (de_dec E) (de_L E) lgs starts
        (row_length xs) xs ids (Some (de_pls E)) (rs_budget st) lev =
      Inr (tabulate (length ids) (\<lambda>k. scatter_window (xs ! k) (starts ! k) (Y k)), lev)"
    and "gather_blocks (tabulate (length ids) (\<lambda>k. scatter_window (xs ! k) (starts ! k) (Y k))) starts (de_L E)
      = Inr (tabulate (length ids) Y)"
    and "\<And>k. k < length ids \<Longrightarrow> length (Y k) = de_L E"
proof -
  have w: "rs_start st ! (ids ! k) + de_L E \<le> de_total E" "length (rs_rows st ! (ids ! k)) = de_total E"
    "length (row_block E st (ids ! k)) = de_L E" if "k < length ids" for k
    using row_inv_window [OF env inv] ids(1) nth_mem [OF that] by auto
  have T: "row_length xs = de_total E"
    using w(2) [of 0] ids(2) by (cases ids) (auto simp: xs_def row_length_def)
  have P: "eb_max_post_steps (rs_budget st) = de_P E" using inv by (simp add: loop_inv_def budget_shape_def)
  show len: "length (Y k) = de_L E" if "k < length ids" for k
    unfolding Y_def by (rule dec.step_length) (use lgs w that in auto)
  have "tabulate (length xs) (\<lambda>k. gather_window (xs ! k) (starts ! k) (de_L E)) = map (row_block E st) ids"
    by (rule nth_equalityI) (auto simp: xs_def starts_def row_block_def)
  then show "gather_blocks xs starts (de_L E) = Inr (map (row_block E st) ids)"
    using gather_blocks_inside [of starts xs "de_L E"] w by (simp add: xs_def starts_def)
  have "tabulate (length xs) (\<lambda>k. scatter_window (xs ! k) (starts ! k)
      (dec_iter (de_sm E) (de_gumbel E) (de_dec E) (lgs ! k, tabulate (de_L E) (\<lambda>i. starts ! k + i < de_pls E ! (ids ! k)))
        (gather_window (xs ! k) (starts ! k) (de_L E))
        (eb_post_steps (rs_budget st) ! (ids ! k) < eb_max_post_steps (rs_budget st))))
     = tabulate (length ids) (\<lambda>k. scatter_window (xs ! k) (starts ! k) (Y k))"
    unfolding P by (subst tabulate_cong [of _ _ "\<lambda>k. scatter_window (xs ! k) (starts ! k) (Y k)"])
      (auto simp: xs_def starts_def Y_def row_block_def)
  then show "run_batch_decode (de_sm E) (de_gumbel E) (de_debug E) (de_dec E) (de_L E) lgs starts
        (row_length xs) xs ids (Some (de_pls E)) (rs_budget st) lev =
      Inr (tabulate (length ids) (\<lambda>k. scatter_window (xs ! k) (starts ! k) (Y k)), lev)"
    unfolding T
    using run_batch_rowwise [of "de_dec E" xs ids "de_total E" starts "de_L E"] env w
    by (simp add: env_ok_def xs_def starts_def)
  show "gather_blocks (tabulate (length ids) (\<lambda>k. scatter_window (xs ! k) (starts ! k) (Y k))) starts (de_L E)
      = Inr (tabulate (length ids) Y)"
  proof -
    let ?Z = "tabulate (length ids) (\<lambda>k. scatter_window (xs ! k) (starts ! k) (Y k))"
    have "gather_blocks ?Z starts (de_L E) =
        Inr (tabulate (length ?Z) (\<lambda>k. gather_window (?Z ! k) (starts ! k) (de_L E)))"
      by (rule gather_blocks_inside) (use w in \<open>auto simp: xs_def starts_def\<close>)
    moreover have "tabulate (length ?Z) (\<lambda>k. gather_window (?Z ! k) (starts ! k) (de_L E)) = tabulate (length ids) Y"
    proof (rule nth_equalityI)
      fix k assume "k < length (tabulate (length ?Z) (\<lambda>k. gather_window (?Z ! k) (starts ! k) (de_L E)))"
      then have k: "k < length ids" by simp
      then have "gather_window (scatter_window (xs ! k) (starts ! k) (Y k)) (starts ! k) (de_L E) = Y k"
        using gather_scatter_window [of "starts ! k" "Y k" "xs ! k"] w len by (simp add: xs_def starts_def)
      then show "tabulate (length ?Z) (\<lambda>k. gather_window (?Z ! k) (starts ! k) (de_L E)) ! k = tabulate (length ids) Y ! k"
        using k by simp
    qed simp
    ultimately show ?thesis by simp
  qed
qed

lemma eos_hit_nth:
  assumes "k < length ids"
  shows "generated_eos_hit (map ((!) rows) ids) eos (Some (map ((!) pls) ids)) (map ((!) ends) ids) ! k
    \<longleftrightarrow> eos_between eos (rows ! (ids ! k)) (pls ! (ids ! k)) (ends ! (ids ! k))"
  using assms by (auto simp: generated_eos_hit_def eos_between_def list_ex_iff)

lemma iteration_budget:
  assumes env: "env_ok E" and inv: "loop_inv E st" and r: "r < de_B E" "rs_flag st ! r"
    and lg: "dec_input_ok (de_sm E) (de_gumbel E) (de_dec E) (de_L E) lg"
    and y: "y = dec_iter (de_sm E) (de_gumbel E) (de_dec E) (lg, pp) (row_block E st r)
      (eb_post_steps (rs_budget st) ! r < de_P E)"
    and unfinished: "\<not> (de_mask E \<notin> set (row_block E st r) \<and> y = row_block E st r)"
    and post': "post' = eb_post_steps (rs_budget st) ! r
      + (if de_mask E \<notin> set (row_block E st r) \<and> y \<noteq> row_block E st r then 1 else 0)"
  shows "budget_row_ok (de_mask E) (de_L E) (de_P E) y post' (eb_block_iters (rs_budget st) ! r + 1)"
    and "block_rank (de_mask E) (de_P E) y post'
      < block_rank (de_mask E) (de_P E) (row_block E st r) (eb_post_steps (rs_budget st) ! r)"
proof -
  have ok: "dec_input_ok (de_sm E) (de_gumbel E) (de_dec E) (de_L E) (fst (lg, pp))" using lg by simp
  have row: "budget_row_ok (de_mask E) (de_L E) (de_P E) (row_block E st r)
      (eb_post_steps (rs_budget st) ! r) (eb_block_iters (rs_budget st) ! r)"
    using inv r by (simp add: loop_inv_def row_inv_def)
  show "budget_row_ok (de_mask E) (de_L E) (de_P E) y post' (eb_block_iters (rs_budget st) ! r + 1)"
    "block_rank (de_mask E) (de_P E) y post'
      < block_rank (de_mask E) (de_P E) (row_block E st r) (eb_post_steps (rs_budget st) ! r)"
    using dec.iteration_within_budget [OF ok row_inv_window(3) [OF env inv r] row y unfinished post'] by simp_all
qed

text \<open>The rows an iteration selects.\<close>

lemma selected_rows:
  fixes E c st
  defines "ids \<equiv> select_decode_sequences (de_dec E) (rs_rows st)
    (flags_below (de_L E) (\<lambda>r. c) (rs_start st) (rs_flag st)) (rc_mini_batch_size (de_rc E))"
  assumes env: "env_ok E" and inv: "loop_inv E st"
    and any: "any_row (flags_below (de_L E) (\<lambda>r. c) (rs_start st) (rs_flag st))"
  shows "ids \<noteq> []" "distinct ids" "\<forall>s \<in> set ids. s < de_B E \<and> rs_flag st ! s"
    "\<forall>s \<in> set ids. s < de_B E" "\<forall>s \<in> set ids. rs_start st ! s + de_L E \<le> c"
proof -
  note sel = select_decode [where dec = "de_dec E" and rows = "rs_rows st"
        and flags = "flags_below (de_L E) (\<lambda>r. c) (rs_start st) (rs_flag st)"
        and n = "rc_mini_batch_size (de_rc E)", folded ids_def]
  have fl: "length (rs_flag st) = de_B E" using inv by (simp add: loop_inv_def)
  show "ids \<noteq> []" "distinct ids" using sel(1,3) any env by (simp_all add: env_ok_def)
  have "s < de_B E \<and> rs_flag st ! s \<and> rs_start st ! s + de_L E \<le> c" if "s \<in> set ids" for s
  proof -
    have "s < length (rs_flag st)" "flags_below (de_L E) (\<lambda>r. c) (rs_start st) (rs_flag st) ! s"
      using sel(2) [OF that] by simp_all
    then show ?thesis using fl by simp
  qed
  then show "\<forall>s \<in> set ids. s < de_B E \<and> rs_flag st ! s" "\<forall>s \<in> set ids. s < de_B E"
    "\<forall>s \<in> set ids. rs_start st ! s + de_L E \<le> c" by blast+
qed

text \<open>The state after an iteration, from the new rows, the finished flags, the budget and the cache.\<close>

definition next_state ::
  "'v decode_env \<Rightarrow> nat list \<Rightarrow> token list list \<Rightarrow> bool list \<Rightarrow> edit_budget \<Rightarrow> lev_row list option
    \<Rightarrow> 'v kv_store \<Rightarrow> 'v runner_state \<Rightarrow> 'v runner_state" where
  "next_state E ids xs' fin eb lev kv st =
     (let start1 = scatter (rs_start st) ids (map2 (\<lambda>s f. s + (if f then de_L E else 0)) (map ((!) (rs_start st)) ids) fin);
          rows1 = scatter (rs_rows st) ids xs';
          eos = early_stop_rows (de_rc E) (de_dec E) (Some (de_pls E)) ids rows1 start1 fin;
          start2 = scatter start1 ids
            (tabulate (length ids) (\<lambda>k. if eos ! k then de_total E else start1 ! (ids ! k)));
          flag1 = scatter (rs_flag st) ids
            (tabulate (length ids) (\<lambda>k. rs_flag st ! (ids ! k) \<and> \<not> eos ! k))
      in st\<lparr> rs_rows := rows1, rs_start := start2,
             rs_flag := flags_below (de_L E) ((!) (de_dls E)) start2 flag1,
             rs_budget := eb, rs_lev := lev, rs_kv := kv, rs_forwards := rs_forwards st + 1 \<rparr>)"

lemma next_state_frame [simp]:
  "length (rs_rows (next_state E ids xs' fin eb lev kv st)) = length (rs_rows st)"
  "length (rs_start (next_state E ids xs' fin eb lev kv st)) = length (rs_start st)"
  "length (rs_flag (next_state E ids xs' fin eb lev kv st)) = length (rs_flag st)"
  "rs_budget (next_state E ids xs' fin eb lev kv st) = eb"
  "rs_kv (next_state E ids xs' fin eb lev kv st) = kv"
  by (simp_all add: next_state_def Let_def)

lemma next_state_unselected:
  assumes "loop_inv E st" and "r < de_B E" and "r \<notin> set ids"
  shows "rs_rows (next_state E ids xs' fin eb lev kv st) ! r = rs_rows st ! r"
    and "rs_start (next_state E ids xs' fin eb lev kv st) ! r = rs_start st ! r"
    and "rs_flag (next_state E ids xs' fin eb lev kv st) ! r = rs_flag st ! r"
  using assms by (auto simp: next_state_def Let_def nth_scatter_notin loop_inv_def row_inv_def)

lemma next_state_selected:
  fixes E st ids xs' fin eb lev kv k
  defines "st' \<equiv> next_state E ids xs' fin eb lev kv st" and "s \<equiv> rs_start st ! (ids ! k)"
    and "eos \<equiv> rc_early_stop (de_rc E) \<and> fin ! k
      \<and> eos_between (dec_eos_ids (de_dec E)) (xs' ! k) (de_pls E ! (ids ! k)) (rs_start st ! (ids ! k) + de_L E)"
  assumes inv: "loop_inv E st" and ids: "distinct ids" "\<forall>s \<in> set ids. s < de_B E \<and> rs_flag st ! s"
    and len: "length fin = length ids" "length xs' = length ids" and k: "k < length ids"
  shows "rs_rows st' ! (ids ! k) = xs' ! k"
    and "rs_start st' ! (ids ! k) = (if eos then de_total E else if fin ! k then s + de_L E else s)"
    and "rs_flag st' ! (ids ! k) = (\<not> eos \<and> rs_start st' ! (ids ! k) + de_L E \<le> de_dls E ! (ids ! k))"
proof -
  have sh: "length (rs_rows st) = de_B E" "length (rs_start st) = de_B E" "length (rs_flag st) = de_B E"
    using inv by (simp_all add: loop_inv_def)
  have idsB: "\<forall>s \<in> set ids. s < de_B E" and sk: "ids ! k < de_B E" "rs_flag st ! (ids ! k)"
    using ids(2) nth_mem [OF k] by auto
  note sc = nth_scatter_in [OF ids(1) idsB k]
  define start1 where "start1 = scatter (rs_start st) ids
    (map2 (\<lambda>s f. s + (if f then de_L E else 0)) (map ((!) (rs_start st)) ids) fin)"
  define rows1 where "rows1 = scatter (rs_rows st) ids xs'"
  have s1: "length start1 = de_B E" "start1 ! (ids ! k) = (if fin ! k then s + de_L E else s)"
    using sh(2) k len by (simp_all add: start1_def s_def sc)
  have r1: "rows1 ! (ids ! k) = xs' ! k" using sh(1) by (simp add: rows1_def sc)
  have e: "early_stop_rows (de_rc E) (de_dec E) (Some (de_pls E)) ids rows1 start1 fin ! k = eos"
    using k s1(2) r1 eos_hit_nth [OF k] by (auto simp: early_stop_rows_def eos_def s_def Let_def)
  note def = st'_def next_state_def Let_def start1_def [symmetric] rows1_def [symmetric]
  show "rs_rows st' ! (ids ! k) = xs' ! k" using r1 by (simp add: def)
  show s2: "rs_start st' ! (ids ! k) = (if eos then de_total E else if fin ! k then s + de_L E else s)"
    using s1 e k by (simp add: def sc)
  show "rs_flag st' ! (ids ! k) = (\<not> eos \<and> rs_start st' ! (ids ! k) + de_L E \<le> de_dls E ! (ids ! k))"
    using sh(3) e k sk by (simp add: def sc)
qed

lemma decode_iter_rows:
  assumes env: "env_ok E" and inv: "loop_inv E st" and c: "c \<le> de_max_length E"
    and any: "any_row (flags_below (de_L E) (\<lambda>r. c) (rs_start st) (rs_flag st))"
  shows "\<exists>ids lgs st'. iter_in E c st = Inr st' \<and> ids \<noteq> [] \<and> distinct ids
    \<and> (\<forall>s \<in> set ids. s < de_B E \<and> rs_flag st ! s)
    \<and> (\<forall>k < length ids. row_step E st st' (ids ! k) (lgs ! k))
    \<and> (\<forall>r < de_B E. r \<notin> set ids \<longrightarrow> row_same st st' r)
    \<and> length (rs_rows st') = de_B E \<and> length (rs_start st') = de_B E \<and> length (rs_flag st') = de_B E
    \<and> budget_shape E (rs_budget st') \<and> store_ok (de_B E) (de_max_length E) (rs_kv st')"
proof -
  define ids where "ids = select_decode_sequences (de_dec E) (rs_rows st)
    (flags_below (de_L E) (\<lambda>r. c) (rs_start st) (rs_flag st)) (rc_mini_batch_size (de_rc E))"
  note sel = selected_rows [OF env inv any, folded ids_def]
  have sh: "length (rs_rows st) = de_B E" "length (rs_start st) = de_B E" "length (rs_flag st) = de_B E"
    "budget_shape E (rs_budget st)" "store_ok (de_B E) (de_max_length E) (rs_kv st)"
    using inv by (simp_all add: loop_inv_def)
  define xs where "xs = map ((!) (rs_rows st)) ids"
  define starts where "starts = map ((!) (rs_start st)) ids"
  define blocks where "blocks = map (row_block E st) ids"
  obtain past where past: "read_past ids c (rs_kv st) = Inr past" "length past = length ids"
    "\<forall>k < length ids. length (past ! k) = c"
    using read_past_ok [OF sh(5) _ c] sel(4) by blast
  obtain lgs cells where fwd: "de_fwd E blocks (map (\<lambda>s. map (\<lambda>i. i + s) [0..<de_L E]) starts) past = (lgs, cells)"
    by fastforce
  have fok: "fwd_ok (de_sm E) (de_gumbel E) (de_dec E) (de_L E) (de_fwd E)" using env by (simp add: env_ok_def)
  have lp: "length past = length blocks" using past(2) by (simp add: blocks_def)
  have fw: "length lgs = length ids" "length cells = length ids"
    "\<And>k. k < length ids \<Longrightarrow> dec_input_ok (de_sm E) (de_gumbel E) (de_dec E) (de_L E) (lgs ! k)"
    "\<And>k. k < length ids \<Longrightarrow> length (cells ! k) = c"
    using fwd_okD [OF fok lp fwd] past(3) by (auto simp: blocks_def)
  define Y where "Y = (\<lambda>k. dec_iter (de_sm E) (de_gumbel E) (de_dec E)
      (lgs ! k, tabulate (de_L E) (\<lambda>i. rs_start st ! (ids ! k) + i < de_pls E ! (ids ! k)))
      (row_block E st (ids ! k)) (eb_post_steps (rs_budget st) ! (ids ! k) < de_P E))"
  note batch = decode_iter_batch [OF env inv sel(3,1) fw(1) fw(3), folded xs_def starts_def blocks_def]
  define xs' where "xs' = tabulate (length ids) (\<lambda>k. scatter_window (xs ! k) (starts ! k) (Y k))"
  have run: "run_batch_decode (de_sm E) (de_gumbel E) (de_debug E) (de_dec E) (de_L E) lgs starts
      (row_length xs) xs ids (Some (de_pls E)) (rs_budget st) (rs_lev st) = Inr (xs', rs_lev st)"
    and after: "gather_blocks xs' starts (de_L E) = Inr (tabulate (length ids) Y)"
    using batch(2,3) unfolding xs'_def Y_def by simp_all
  define had where "had = map (\<lambda>b. any_row (is_mask (de_mask E) b)) blocks"
  define ch where "ch = map2 (\<lambda>a b. a \<noteq> b) (tabulate (length ids) Y) blocks"
  define fin where "fin = map2 (\<lambda>h c. \<not> h \<and> \<not> c) had ch"
  have lens: "length had = length ids" "length ch = length ids" "length fin = length ids"
    by (simp_all add: had_def ch_def fin_def blocks_def)
  have preds: "had ! k \<longleftrightarrow> de_mask E \<in> set (row_block E st (ids ! k))"
    "ch ! k \<longleftrightarrow> Y k \<noteq> row_block E st (ids ! k)"
    "fin ! k \<longleftrightarrow> de_mask E \<notin> set (row_block E st (ids ! k)) \<and> Y k = row_block E st (ids ! k)"
    if "k < length ids" for k
    using that by (simp_all add: fin_def had_def ch_def blocks_def any_mask_iff)
  define eb where "eb = budget_count (rs_budget st) ids had ch fin"
  have small: "eb_block_iters (rs_budget st) ! (ids ! k) + 1 < de_L E + de_P E + 1"
    if k: "k < length ids" "\<not> fin ! k" for k
  proof -
    have "ids ! k < de_B E" "rs_flag st ! (ids ! k)" using sel(3) nth_mem [OF k(1)] by auto
    moreover have "\<not> (de_mask E \<notin> set (row_block E st (ids ! k)) \<and> Y k = row_block E st (ids ! k))"
      using preds(3) k by blast
    ultimately show ?thesis
      using budget_row_below [OF iteration_budget(1) [OF env inv _ _ fw(3) [OF k(1)] fun_cong [OF Y_def] _ refl]]
      by blast
  qed
  have bud: "budget_update (rs_budget st) ids had ch fin = Inr eb" "budget_shape E eb"
    using budget_update_ok [OF sh(4) sel(2) lens(3) sel(4) _ small] inv
    by (auto simp: eb_def loop_inv_def row_inv_def)
  have "ids ! k < de_B E \<and> starts ! k + de_L E \<le> de_max_length E \<and> length (cells ! k) = c"
    if "k < length ids" for k
    using that sel(4,5) c fw(4) nth_mem [OF that] by (fastforce simp: starts_def)
  moreover have "de_L E \<le> c" using sel(1,5) by (metis add_leD2 list.set_intros(1) neq_Nil_conv)
  ultimately obtain kv where kv: "update_finished_kv_cache ids starts fin c (de_L E) cells (rs_kv st) = Inr kv"
      "store_ok (de_B E) (de_max_length E) kv"
    using update_finished_ok [OF sh(5) _ lens(3), of starts "de_L E" cells c] by (auto simp: starts_def)
  define st' where "st' = next_state E ids xs' fin eb (rs_lev st) kv st"
  have it: "iter_in E c st = Inr st'"
    unfolding decode_iter_def Let_def ids_def [symmetric] xs_def [symmetric] starts_def [symmetric]
    by (simp add: batch(1) past(1) fwd fw(1) run after had_def [symmetric] ch_def [symmetric]
        fin_def [symmetric] bud(1) kv(1) st'_def next_state_def Let_def starts_def [symmetric] cong: if_cong)
  have rows: "row_step E st st' (ids ! k) (lgs ! k)" if k: "k < length ids" for k
  proof -
    have xk: "xs' ! k = scatter_window (rs_rows st ! (ids ! k)) (rs_start st ! (ids ! k)) (Y k)"
      using k by (simp add: xs'_def xs_def starts_def)
    note ns = next_state_selected [OF inv sel(2,3) lens(3) _ k, of xs' eb "rs_lev st" kv, folded st'_def,
        unfolded xk preds(3) [OF k]]
    have "eb_post_steps eb ! (ids ! k) = (if fin ! k then 0
        else eb_post_steps (rs_budget st) ! (ids ! k) + (if \<not> had ! k \<and> ch ! k then 1 else 0))"
      "eb_block_iters eb ! (ids ! k) = (if fin ! k then 0 else eb_block_iters (rs_budget st) ! (ids ! k) + 1)"
      using budget_count_row(1,2) [OF sel(2) lens(3) _ _ k] sh(4) sel(4)
      by (simp_all add: eb_def budget_shape_def)
    then show ?thesis
      using ns fw(3) [OF k] preds [OF k]
      unfolding row_step_def Let_def fun_cong [OF Y_def, of k, symmetric] by (simp add: xs'_def st'_def)
  qed
  have same: "row_same st st' r" if "r < de_B E" "r \<notin> set ids" for r
    using next_state_unselected [OF inv that] budget_count_row(3) [OF sel(2) lens(3)] sh(4) sel(4) that
    by (simp add: row_same_def st'_def eb_def budget_shape_def)
  show ?thesis
    using it sel(1-3) rows same sh bud(2) kv(2) by (intro exI [of _ ids] exI [of _ lgs] exI [of _ st']) (auto simp: st'_def)
qed

section \<open>Invariant and measure\<close>

definition row_rank :: "'v decode_env \<Rightarrow> 'v runner_state \<Rightarrow> nat \<Rightarrow> nat" where
  "row_rank E st r = (if rs_flag st ! r
     then (de_dls E ! r - rs_start st ! r) div de_L E * (de_L E + de_P E + 1)
       + block_rank (de_mask E) (de_P E) (row_block E st r) (eb_post_steps (rs_budget st) ! r)
     else 0)"

definition loop_measure :: "'v decode_env \<Rightarrow> 'v runner_state \<Rightarrow> nat" where
  "loop_measure E st = (\<Sum>r < de_B E. row_rank E st r)"

lemma row_rank_pos:
  assumes "env_ok E" and "row_inv E st r" and "rs_flag st ! r"
  shows "0 < row_rank E st r"
proof -
  have "de_L E \<le> de_dls E ! r - rs_start st ! r" "0 < de_L E"
    using assms by (auto simp: row_inv_def env_ok_def)
  then have "0 < (de_dls E ! r - rs_start st ! r) div de_L E" by (simp add: div_greater_zero_iff)
  then show ?thesis using assms(3) by (simp add: row_rank_def)
qed

lemma row_block_stepped:
  assumes "env_ok E" and "loop_inv E st" and "r < de_B E" and "rs_flag st ! r"
    and "rs_rows st' ! r = scatter_window (rs_rows st ! r) (rs_start st ! r) y"
    and "rs_start st' ! r = rs_start st ! r" and "length y = de_L E"
  shows "row_block E st' r = y"
  using gather_scatter_window [of "rs_start st ! r" y "rs_rows st ! r"]
    row_inv_window [OF assms(1-4)] assms(5-7) by (simp add: row_block_def)

lemma row_step_progress:
  assumes env: "env_ok E" and inv: "loop_inv E st" and r: "r < de_B E" "rs_flag st ! r"
    and step: "row_step E st st' r lg"
  shows "row_inv E st' r" and "row_rank E st' r < row_rank E st r"
proof -
  define x where "x = row_block E st r"
  define post where "post = eb_post_steps (rs_budget st) ! r"
  define y where "y = dec_iter (de_sm E) (de_gumbel E) (de_dec E)
    (lg, tabulate (de_L E) (\<lambda>i. rs_start st ! r + i < de_pls E ! r)) x (post < de_P E)"
  have ri: "row_inv E st r" using inv r by (simp add: loop_inv_def)
  note w = row_inv_window [OF env inv r]
  have sl: "rs_start st ! r + de_L E \<le> de_dls E ! r" using ri r by (simp add: row_inv_def)
  have L: "0 < de_L E" using env by (simp add: env_ok_def)
  have rows': "rs_rows st' ! r = scatter_window (rs_rows st ! r) (rs_start st ! r) y"
    and lg: "dec_input_ok (de_sm E) (de_gumbel E) (de_dec E) (de_L E) lg"
    using step by (simp_all add: row_step_def Let_def x_def post_def y_def)
  have len: "length (rs_rows st' ! r) = de_total E" using rows' w by simp
  have ly: "length y = de_L E" unfolding y_def by (rule dec.step_length) (use lg w in \<open>auto simp: x_def\<close>)
  have "row_inv E st' r \<and> row_rank E st' r < row_rank E st r"
  proof (cases "de_mask E \<notin> set x \<and> y = x")
    case False
    define post' where "post' = post + (if de_mask E \<notin> set x \<and> y \<noteq> x then 1 else 0)"
    have st': "rs_start st' ! r = rs_start st ! r" "rs_flag st' ! r"
      "eb_post_steps (rs_budget st') ! r = post'"
      "eb_block_iters (rs_budget st') ! r = eb_block_iters (rs_budget st) ! r + 1"
      using step False sl unfolding row_step_def Let_def x_def [symmetric] post_def [symmetric] y_def [symmetric]
      by (auto simp: post'_def)
    have blk: "row_block E st' r = y" by (rule row_block_stepped [OF env inv r rows' st'(1) ly])
    note it = iteration_budget [OF env inv r lg, folded x_def post_def, OF y_def False post'_def]
    show ?thesis
      using it budget_row_below [OF it(1)] st' sl len blk r
      by (simp add: row_inv_def row_rank_def x_def post_def)
  next
    case True
    then have st': "eb_post_steps (rs_budget st') ! r = 0" "eb_block_iters (rs_budget st') ! r = 0"
      "rs_flag st' ! r \<Longrightarrow> rs_start st' ! r = rs_start st ! r + de_L E \<and> rs_start st' ! r + de_L E \<le> de_dls E ! r"
      using step unfolding row_step_def Let_def x_def [symmetric] post_def [symmetric] y_def [symmetric]
      by (auto split: if_splits)
    have inv': "row_inv E st' r" using st' len by (auto simp: row_inv_def budget_row_fresh)
    have "row_rank E st' r < row_rank E st r"
    proof (cases "rs_flag st' ! r")
      case flag: True
      then have s': "rs_start st' ! r = rs_start st ! r + de_L E" using st'(3) by blast
      define q where "q = (de_dls E ! r - rs_start st' ! r) div de_L E"
      have "(de_dls E ! r - rs_start st ! r) div de_L E = Suc q"
        using sl L unfolding q_def s' by (subst le_div_geq) auto
      moreover have "block_rank (de_mask E) (de_P E) (row_block E st' r) 0 \<le> de_L E + de_P E"
        by (rule block_rank_le) (simp add: row_block_def)
      ultimately show ?thesis
        using flag r st'(1) by (simp add: row_rank_def q_def [symmetric])
    qed (use row_rank_pos [OF env ri r(2)] in \<open>simp add: row_rank_def\<close>)
    then show ?thesis using inv' by blast
  qed
  then show "row_inv E st' r" "row_rank E st' r < row_rank E st r" by simp_all
qed

lemma row_same_keeps:
  assumes "row_same st st' r"
  shows "row_inv E st' r \<longleftrightarrow> row_inv E st r" and "row_rank E st' r = row_rank E st r"
  using assms by (simp_all add: row_same_def row_inv_def row_rank_def row_block_def)

text \<open>An iteration that steps some flagged rows and keeps the others keeps the invariant and decreases the measure.\<close>

lemma batch_progress:
  assumes env: "env_ok E" and inv: "loop_inv E st" and ids: "ids \<noteq> []" "\<forall>s \<in> set ids. s < de_B E \<and> rs_flag st ! s"
    and steps: "\<forall>k < length ids. row_step E st st' (ids ! k) (lgs ! k)"
    and same: "\<forall>r < de_B E. r \<notin> set ids \<longrightarrow> row_same st st' r"
    and sh: "length (rs_rows st') = de_B E" "length (rs_start st') = de_B E" "length (rs_flag st') = de_B E"
      "budget_shape E (rs_budget st')" "store_ok (de_B E) (de_max_length E) (rs_kv st')"
  shows "loop_inv E st'" and "loop_measure E st' < loop_measure E st"
    and "\<forall>r < de_B E. row_same st st' r \<or> rs_flag st ! r \<and> (\<exists>lg. row_step E st st' r lg)"
proof -
  have step: "\<exists>lg. row_step E st st' r lg" if "r \<in> set ids" for r
    using steps that by (metis in_set_conv_nth)
  have rows: "row_same st st' r \<or> rs_flag st ! r \<and> (\<exists>lg. row_step E st st' r lg)" if "r < de_B E" for r
    using step same ids(2) that by blast
  then show "\<forall>r < de_B E. row_same st st' r \<or> rs_flag st ! r \<and> (\<exists>lg. row_step E st st' r lg)" by blast
  have inv': "row_inv E st' r" if "r < de_B E" for r
    using rows [OF that] row_step_progress(1) [OF env inv that] row_same_keeps(1) [of st st' r E] inv that
    unfolding loop_inv_def by blast
  have le: "row_rank E st' r \<le> row_rank E st r" if "r < de_B E" for r
    using rows [OF that] row_step_progress(2) [OF env inv that] row_same_keeps(2)
    by (metis less_imp_le order_refl)
  obtain s where "s \<in> set ids" using ids(1) by (cases ids) auto
  then have "s < de_B E" "row_rank E st' s < row_rank E st s"
    using step ids(2) row_step_progress(2) [OF env inv] by blast+
  then show "loop_measure E st' < loop_measure E st"
    unfolding loop_measure_def by (intro sum_strict_mono_ex1) (use le in auto)
  show "loop_inv E st'" using sh inv' by (simp add: loop_inv_def)
qed

text \<open>One iteration keeps the invariant, decreases the measure and steps or keeps every row.\<close>

lemma decode_iter_ok:
  assumes env: "env_ok E" and inv: "loop_inv E st" and c: "c \<le> de_max_length E"
    and any: "any_row (flags_below (de_L E) (\<lambda>r. c) (rs_start st) (rs_flag st))"
  shows "\<exists>st'. iter_in E c st = Inr st' \<and> loop_inv E st' \<and> loop_measure E st' < loop_measure E st
    \<and> (\<forall>r < de_B E. row_same st st' r \<or> rs_flag st ! r \<and> (\<exists>lg. row_step E st st' r lg))"
proof -
  obtain ids lgs st' where it: "iter_in E c st = Inr st'" and ids: "ids \<noteq> []" "\<forall>s \<in> set ids. s < de_B E \<and> rs_flag st ! s"
    and steps: "\<forall>k < length ids. row_step E st st' (ids ! k) (lgs ! k)"
    and same: "\<forall>r < de_B E. r \<notin> set ids \<longrightarrow> row_same st st' r"
    and sh: "length (rs_rows st') = de_B E" "length (rs_start st') = de_B E" "length (rs_flag st') = de_B E"
      "budget_shape E (rs_budget st')" "store_ok (de_B E) (de_max_length E) (rs_kv st')"
    using decode_iter_rows [OF assms] by auto
  show ?thesis using it batch_progress [OF env inv ids steps same sh] by blast
qed

section \<open>The loop\<close>

text \<open>At the head of the outer loop the chosen cache length admits a flagged row.\<close>

lemma current_cache_admits:
  assumes env: "env_ok E" and inv: "loop_inv E st" and any: "any_row (rs_flag st)"
  shows "current_cache_length (de_rc E) (de_max_length E) st \<le> de_max_length E"
    and "any_row (flags_below (de_L E) (\<lambda>r. current_cache_length (de_rc E) (de_max_length E) st)
      (rs_start st) (rs_flag st))"
proof -
  let ?S = "set (map ((!) (rs_start st)) (nonzero (rs_flag st)))"
  have "Min ?S \<in> ?S" using any nonzero_Nil [of "rs_flag st"] by (intro Min_in) auto
  then obtain r where r: "r < de_B E" "rs_flag st ! r" "rs_start st ! r = Min ?S"
    using inv by (auto simp: nonzero_simps loop_inv_def)
  have "rs_start st ! r + de_L E \<le> de_max_length E"
    using row_inv_window(1) [OF env inv r(1,2)] env by (simp add: env_ok_def)
  moreover have "rs_start st ! r + de_L E \<le> align_exp2 (Min ?S + de_L E)"
    using align_exp2_greater [of "Min ?S + de_L E"] r(3) by simp
  ultimately have "rs_start st ! r + de_L E \<le> current_cache_length (de_rc E) (de_max_length E) st"
    by (simp add: current_cache_length_def)
  then show "any_row (flags_below (de_L E) (\<lambda>r. current_cache_length (de_rc E) (de_max_length E) st)
      (rs_start st) (rs_flag st))"
    using r inv unfolding any_row_iff by (auto simp: loop_inv_def intro!: exI [of _ r])
  show "current_cache_length (de_rc E) (de_max_length E) st \<le> de_max_length E"
    by (simp add: current_cache_length_def)
qed

text \<open>
  Enough fuel: three units for every unit of the measure (the head of the outer loop, the exit of
  the inner one, the iteration), and one for the last test.
\<close>

definition fuel_needed :: "'v decode_env \<Rightarrow> nat option \<Rightarrow> 'v runner_state \<Rightarrow> nat" where
  "fuel_needed E pc st = (case pc of
     None \<Rightarrow> 3 * loop_measure E st + 1
   | Some c \<Rightarrow> if any_row (flags_below (de_L E) (\<lambda>r. c) (rs_start st) (rs_flag st))
       then 3 * loop_measure E st else 3 * loop_measure E st + 2)"

lemma decode_loop_total:
  assumes env: "env_ok E"
    and step: "\<And>st st' r lg. loop_inv E st \<Longrightarrow> r < de_B E \<Longrightarrow> rs_flag st ! r \<Longrightarrow> row_step E st st' r lg
      \<Longrightarrow> J st r \<Longrightarrow> J st' r"
    and same: "\<And>st st' r. row_same st st' r \<Longrightarrow> J st r \<Longrightarrow> J st' r"
    and inv: "loop_inv E st" and J: "\<forall>r < de_B E. J st r"
    and pc: "\<forall>c. pc = Some c \<longrightarrow> c \<le> de_max_length E" and fuel: "fuel_needed E pc st \<le> fuel"
  shows "\<exists>st'. loop_in E fuel pc st = Some (Inr st') \<and> loop_inv E st' \<and> \<not> any_row (rs_flag st')
    \<and> (\<forall>r < de_B E. J st' r)"
  using inv J pc fuel
proof (induction fuel arbitrary: pc st)
  case 0
  then show ?case
  proof (cases pc)
    case (Some c)
    with 0 have any: "any_row (flags_below (de_L E) (\<lambda>r. c) (rs_start st) (rs_flag st))"
      and m: "loop_measure E st = 0" by (auto simp: fuel_needed_def split: if_splits)
    then show ?thesis using decode_iter_ok [OF env 0(1) _ any] 0(3) Some by auto
  qed (simp add: fuel_needed_def)
next
  case (Suc fuel)
  show ?case
  proof (cases pc)
    case None
    show ?thesis
    proof (cases "any_row (rs_flag st)")
      case True
      note cc = current_cache_admits [OF env Suc.prems(1) True]
      show ?thesis
        using Suc.IH [OF Suc.prems(1,2), of "Some (current_cache_length (de_rc E) (de_max_length E) st)"]
          Suc.prems(4) None True cc by (simp add: fuel_needed_def)
    qed (use Suc.prems None in simp)
  next
    case (Some c)
    have c: "c \<le> de_max_length E" using Suc.prems(3) Some by simp
    show ?thesis
    proof (cases "any_row (flags_below (de_L E) (\<lambda>r. c) (rs_start st) (rs_flag st))")
      case True
      obtain st' where it: "iter_in E c st = Inr st'" and inv': "loop_inv E st'"
        and m: "loop_measure E st' < loop_measure E st"
        and rows: "\<forall>r < de_B E. row_same st st' r \<or> rs_flag st ! r \<and> (\<exists>lg. row_step E st st' r lg)"
        using decode_iter_ok [OF env Suc.prems(1) c True] by blast
      have J': "\<forall>r < de_B E. J st' r"
        using rows same step [OF Suc.prems(1)] Suc.prems(2) by blast
      have "fuel_needed E (Some c) st' \<le> fuel"
        using Suc.prems(4) Some True m by (auto simp: fuel_needed_def)
      then show ?thesis using Suc.IH [OF inv' J', of "Some c"] c Some True it by simp
    next
      case False
      then show ?thesis
        using Suc.IH [OF Suc.prems(1,2), of None] Suc.prems(4) Some by (simp add: fuel_needed_def)
    qed
  qed
qed

section \<open>What a row looks like\<close>

text \<open>
  Along the loop the prompt of a row is kept, and its positions before a frontier are no masks; the
  frontier is its start, or the row has been stopped at an end-of-sequence token before it.
\<close>

definition row_done :: "'v decode_env \<Rightarrow> token list list \<Rightarrow> 'v runner_state \<Rightarrow> nat \<Rightarrow> bool" where
  "row_done E prompts st r =
     ((\<forall>i < de_pls E ! r. rs_rows st ! r ! i = prompts ! r ! i)
      \<and> (\<exists>e. de_L E dvd e \<and> (\<forall>i < e. i < de_total E \<longrightarrow> rs_rows st ! r ! i \<noteq> de_mask E)
          \<and> (rs_start st ! r = e \<and> (\<not> rs_flag st ! r \<longrightarrow> de_dls E ! r < e + de_L E)
             \<or> rc_early_stop (de_rc E) \<and> \<not> rs_flag st ! r
               \<and> eos_between (dec_eos_ids (de_dec E)) (rs_rows st ! r) (de_pls E ! r) e)))"

lemma row_done_same: "row_same st st' r \<Longrightarrow> row_done E prompts st r \<Longrightarrow> row_done E prompts st' r"
  unfolding row_done_def row_same_def by auto

lemma scatter_window_nth:
  assumes "s + length y \<le> length row" and "i < length row"
  shows "scatter_window row s y ! i = (if s \<le> i \<and> i < s + length y then y ! (i - s) else row ! i)"
  using scatter_window_inside [OF assms(1)] assms by (auto simp: nth_append)

lemma row_done_step:
  assumes env: "env_ok E" and inv: "loop_inv E st" and r: "r < de_B E" "rs_flag st ! r"
    and step: "row_step E st st' r lg" and dn: "row_done E prompts st r"
    and prompt: "\<forall>i < de_pls E ! r. prompts ! r ! i \<noteq> de_mask E" "de_pls E ! r \<le> de_total E"
  shows "row_done E prompts st' r"
proof -
  define s where "s = rs_start st ! r"
  define x where "x = row_block E st r"
  define inp where "inp = (lg, tabulate (de_L E) (\<lambda>i. s + i < de_pls E ! r))"
  define y where "y = dec_iter (de_sm E) (de_gumbel E) (de_dec E) inp x
    (eb_post_steps (rs_budget st) ! r < de_P E)"
  note w = row_inv_window [OF env inv r, folded s_def x_def]
  have lg: "dec_input_ok (de_sm E) (de_gumbel E) (de_dec E) (de_L E) (fst inp)"
    and rows': "rs_rows st' ! r = scatter_window (rs_rows st ! r) s y"
    using step by (simp_all add: row_step_def Let_def x_def y_def s_def inp_def)
  have ly: "length y = de_L E" unfolding y_def by (rule dec.step_length [OF lg w(3)])
  have nth: "rs_rows st' ! r ! i = (if s \<le> i \<and> i < s + de_L E then y ! (i - s) else rs_rows st ! r ! i)"
    if "i < de_total E" for i
    using scatter_window_nth [of s y "rs_rows st ! r" i] w ly rows' that by simp
  have xn: "x ! i = rs_rows st ! r ! (s + i)" if "i < de_L E" for i
    using that w by (simp add: x_def row_block_def s_def gather_window_def)
  have pr: "rs_rows st' ! r ! i = prompts ! r ! i" if i: "i < de_pls E ! r" for i
  proof (cases "s \<le> i \<and> i < s + de_L E")
    case True
    have row: "rs_rows st ! r ! i = prompts ! r ! i" using dn i by (simp add: row_done_def)
    have "y ! (i - s) = x ! (i - s)"
      unfolding y_def by (rule dec_keeps_prompt) (use True i w prompt row xn [of "i - s"] in \<open>auto simp: inp_def\<close>)
    then show ?thesis using nth [of i] True i prompt(2) row xn [of "i - s"] by auto
  qed (use nth dn i prompt(2) in \<open>auto simp: row_done_def\<close>)
  from dn r obtain e where e: "de_L E dvd e" "\<forall>i < e. i < de_total E \<longrightarrow> rs_rows st ! r ! i \<noteq> de_mask E" "s = e"
    by (auto simp: row_done_def s_def)
  define fin where "fin = (de_mask E \<notin> set x \<and> y = x)"
  show ?thesis
  proof (cases fin)
    case False
    then have "rs_start st' ! r = s" "rs_flag st' ! r"
      using step inv r unfolding row_step_def Let_def x_def [symmetric] s_def [symmetric] inp_def [symmetric]
        y_def [symmetric] fin_def [symmetric]
      by (auto simp: loop_inv_def row_inv_def s_def)
    then show ?thesis using pr e nth unfolding row_done_def by (auto intro!: exI [of _ e])
  next
    case True
    then have frontier: "\<forall>i < s + de_L E. i < de_total E \<longrightarrow> rs_rows st' ! r ! i \<noteq> de_mask E"
      using e nth ly nth_mem [of "_ - s" y] by (auto simp: fin_def) (metis add_diff_inverse_nat not_less nth_mem nat_add_left_cancel_less w(3))
    have "rs_start st' ! r = s + de_L E \<and> (\<not> rs_flag st' ! r \<longrightarrow> de_dls E ! r < s + de_L E + de_L E)
      \<or> rc_early_stop (de_rc E) \<and> \<not> rs_flag st' ! r
         \<and> eos_between (dec_eos_ids (de_dec E)) (rs_rows st' ! r) (de_pls E ! r) (s + de_L E)"
      using step True unfolding row_step_def Let_def x_def [symmetric] s_def [symmetric] inp_def [symmetric]
        y_def [symmetric] fin_def [symmetric] by (auto split: if_splits)
    then show ?thesis using pr e frontier unfolding row_done_def by (auto intro!: exI [of _ "s + de_L E"])
  qed
qed

section \<open>The prefill loop\<close>

definition prefill_fwd_ok :: "'v prefill_fwd \<Rightarrow> bool" where
  "prefill_fwd_ok fwd = (\<forall>toks m pos. length (fwd toks m pos) = length toks
     \<and> (\<forall>k < length toks. length (fwd toks m pos ! k) = length (toks ! k)))"

lemma cleared_flags:
  assumes ids: "distinct ids" "ids \<noteq> []" and fl: "\<And>s. s \<in> set ids \<Longrightarrow> s < length flags \<and> flags ! s"
  shows "tsum (scatter flags ids (replicate (length ids) False)) < tsum flags"
proof -
  let ?fl = "scatter flags ids (replicate (length ids) False)"
  have nth: "?fl ! r \<longleftrightarrow> flags ! r \<and> r \<notin> set ids" if "r < length flags" for r
  proof (cases "r \<in> set ids")
    case True
    then obtain k where "k < length ids" "ids ! k = r" by (auto simp: in_set_conv_nth)
    then show ?thesis using nth_scatter_distinct [OF ids(1), of k flags "replicate (length ids) False"] that True by simp
  qed (simp add: nth_scatter_notin)
  obtain s where s: "s \<in> set ids" using ids(2) by (cases ids) auto
  show ?thesis by (rule tsum_strict_mono [of _ _ s]) (use nth fl [OF s] s in auto)
qed

lemma prefill_iter_ok:
  fixes store :: "'v kv_store"
  assumes fwd: "prefill_fwd_ok fwd" and mini: "0 < rc_mini_batch_size rc"
    and rows: "length flags = B" "\<And>r. r < B \<Longrightarrow> length (rows ! r) = T" "T \<le> M"
    and len: "\<And>s. s < B \<Longrightarrow> sample_length rc pfls pls s \<le> T"
    and store: "store_ok B M store" and any: "any_row flags"
  shows "\<exists>flags' store'. prefill_iter zero rc fwd am rows mid pfls pls (flags, store, fw)
      = Inr (flags', store', fw + 1) \<and> length flags' = B \<and> tsum flags' < tsum flags \<and> store_ok B M store'"
proof -
  define ids where "ids = select_batch_sequences_by_mask_number rows flags mid (rc_mini_batch_size rc)"
  note sel = select_by_mask_number [where rows = rows and flags = flags and mid = mid
      and n = "rc_mini_batch_size rc", folded ids_def]
  have idsB: "s < B \<and> flags ! s" if "s \<in> set ids" for s using sel(2) [OF that] rows(1) by simp
  define n where "n = Max (set (map (sample_length rc pfls pls) ids))"
  have ne: "ids \<noteq> []" using sel(3) mini any by simp
  have sn: "sample_length rc pfls pls s \<le> n" if "s \<in> set ids" for s
    unfolding n_def by (rule Max_ge) (use that in auto)
  have nT: "n \<le> T" unfolding n_def using ne idsB len by (subst Max_le_iff) auto
  define cells where "cells = fwd (map (\<lambda>s. take n (rows ! s)) ids)
    (map_option (\<lambda>m. map (\<lambda>b. map (take n) (take n b)) (take (length ids) m)) am) (map (\<lambda>s. [0..<n]) ids)"
  have cl: "length (cells ! k) = n" if "k < length ids" for k
    using fwd that idsB nth_mem [OF that] rows(2) nT by (simp add: prefill_fwd_ok_def cells_def)
  have "\<exists>store'. result_fold (\<lambda>k st. write_prefill_kv_cache zero (ids ! k)
      (sample_length rc pfls pls (ids ! k)) (cells ! k) st) [0..<length ids] store = Inr store' \<and> store_ok B M store'"
  proof (rule result_fold_ok [where I = "store_ok B M", OF _ store])
    fix k and st :: "'v kv_store"
    assume "k \<in> set [0..<length ids]" and st: "store_ok B M st"
    then have k: "k < length ids" by simp
    have "sample_length rc pfls pls (ids ! k) \<le> n" using sn nth_mem [OF k] by blast
    then show "\<exists>st'. write_prefill_kv_cache zero (ids ! k) (sample_length rc pfls pls (ids ! k)) (cells ! k) st
        = Inr st' \<and> store_ok B M st'"
      using prefill_write_ok [OF st] idsB [OF nth_mem [OF k]] cl [OF k] nT rows(3) by (meson order_trans order_refl)
  qed
  then obtain store' where st': "result_fold (\<lambda>k st. write_prefill_kv_cache zero (ids ! k)
      (sample_length rc pfls pls (ids ! k)) (cells ! k) st) [0..<length ids] store = Inr store'" "store_ok B M store'"
    by blast
  let ?fl = "scatter flags ids (replicate (length ids) False)"
  have "tsum ?fl < tsum flags" by (rule cleared_flags [OF sel(1) ne]) (use idsB rows(1) in auto)
  moreover have "prefill_iter zero rc fwd am rows mid pfls pls (flags, store, fw) = Inr (?fl, store', fw + 1)"
    unfolding prefill_iter_def Let_def split_conv ids_def [symmetric] n_def [symmetric] cells_def [symmetric] st'(1)
    by simp
  ultimately show ?thesis using st'(2) rows(1) by simp
qed

lemma prefill_loop_total:
  assumes fwd: "prefill_fwd_ok fwd" and mini: "0 < rc_mini_batch_size rc"
    and rows: "\<And>r. r < B \<Longrightarrow> length (rows ! r) = T" "T \<le> M"
    and len: "\<And>s. s < B \<Longrightarrow> sample_length rc pfls pls s \<le> T"
  shows "length flags = B \<Longrightarrow> store_ok B M store \<Longrightarrow> tsum flags < fuel \<Longrightarrow>
    \<exists>store' fw'. prefill_loop zero rc fwd am rows mid pfls pls fuel (flags, store, fw) = Some (Inr (store', fw'))
      \<and> store_ok B M store'"
proof (induction fuel arbitrary: flags store fw)
  case (Suc fuel)
  show ?case
  proof (cases "any_row flags")
    case True
    obtain flags' store' where it: "prefill_iter zero rc fwd am rows mid pfls pls (flags, store, fw)
        = Inr (flags', store', fw + 1)" "length flags' = B" "tsum flags' < tsum flags" "store_ok B M store'"
      using prefill_iter_ok [OF fwd mini Suc.prems(1) rows len Suc.prems(2) True] by blast
    then show ?thesis using Suc.IH [of flags' store'] Suc.prems(3) True by simp
  qed (use Suc.prems in simp)
qed simp

section \<open>generate\<close>

lemma block_ceil:
  fixes a L :: nat
  assumes "0 < L"
  shows "(a + L - 1) div L * L = ceil_div a L * L" and "a \<le> ceil_div a L * L" and "ceil_div a L * L < a + L"
proof -
  show "(a + L - 1) div L * L = ceil_div a L * L" by (simp add: ceil_div_def)
  show "a \<le> ceil_div a L * L" using ceil_div_le [OF assms] .
  have "(a + L - 1) div L * L \<le> a + L - 1" by simp
  then show "ceil_div a L * L < a + L" using assms unfolding ceil_div_def by linarith
qed

lemma ceil_block_mono: "0 < L \<Longrightarrow> a \<le> b \<Longrightarrow> ceil_div a L * L \<le> ceil_div b L * L"
  by (simp add: ceil_div_mono_max)

lemma preprocess_inputs_value:
  assumes "preprocess_inputs L mx P g = (total_length, new_gen, blocks, mx')" and "0 < L"
  shows "total_length = ceil_div (P + g) L * L" and "P + new_gen = total_length" and "total_length \<le> mx'"
    and "mx \<le> mx'"
proof -
  have t: "total_length = ceil_div (P + g) L * L" "new_gen = total_length - P"
      "mx' = (if total_length > mx then total_length else mx)"
    using assms(1) by (auto simp: preprocess_inputs_def Let_def ceil_div_def)
  show "total_length = ceil_div (P + g) L * L" by (rule t(1))
  have "P + g \<le> total_length" using t(1) ceil_div_le [OF assms(2)] by simp
  then show "P + new_gen = total_length" using t(2) by simp
  show "total_length \<le> mx'" "mx \<le> mx'" using t(3) by auto
qed

text \<open>Fuel that is enough for a batch: the prefills, and the measure of the decode loop.\<close>

definition generate_fuel :: "runner_config \<Rightarrow> nat \<Rightarrow> nat \<Rightarrow> nat" where
  "generate_fuel rc B total_length =
     (let L = rc_block_length rc; P = nat (rc_max_post_steps rc)
      in B + 3 * (B * (total_length div L * (L + P + 1) + L + P)) + 2)"

text \<open>What is asked of a call.\<close>

definition generate_ready :: "runner \<Rightarrow> token list list \<Rightarrow> nat list \<Rightarrow> nat list \<Rightarrow> bool" where
  "generate_ready rn prompts pls gls =
     (let rc = rn_config rn
      in plain_decoder (rn_decoder rn) \<and> 0 < rc_block_length rc \<and> 0 < rc_mini_batch_size rc
         \<and> 0 < rn_max_length rn
         \<and> (rc_attention_backend rc = ''flex'' \<or> rc_prefilling_limit rc mod rc_block_length rc = 0)
         \<and> rc_cache rc \<in> {[], ''prefix''}
         \<and> (rc_kv_cache_layout rc = ''paged'' \<longrightarrow> (case rc_page_size rc of None \<Rightarrow> False | Some ps \<Rightarrow> 0 < ps))
         \<and> prompts \<noteq> [] \<and> length pls = length prompts \<and> length gls = length prompts
         \<and> list_all (\<lambda>row. length row = row_length prompts) prompts
         \<and> list_all (\<lambda>p. p \<le> row_length prompts) pls
         \<and> list_all (\<lambda>r. list_all (\<lambda>i. prompts ! r ! i \<noteq> dec_mask_id (rn_decoder rn)) [0..<pls ! r])
             [0..<length prompts])"

lemma decoding_starts_props:
  assumes "r < length pls" and "rc_attention_backend rc = ''flex'' \<or> rc_prefilling_limit rc mod rc_block_length rc = 0"
  shows "decoding_starts rc pls ! r \<le> pls ! r" and "rc_block_length rc dvd decoding_starts rc pls ! r"
    and "length (decoding_starts rc pls) = length pls"
proof -
  let ?s = "pls ! r div rc_block_length rc * rc_block_length rc"
  have eq: "decoding_starts rc pls ! r =
      (if rc_attention_backend rc \<noteq> ''flex'' then min ?s (rc_prefilling_limit rc) else ?s)"
    using assms(1) by (simp add: decoding_starts_def Let_def)
  have "?s \<le> pls ! r" by simp
  then show "decoding_starts rc pls ! r \<le> pls ! r" unfolding eq by (simp add: min_le_iff_disj)
  have "rc_block_length rc dvd ?s" by simp
  moreover have "rc_attention_backend rc \<noteq> ''flex'' \<Longrightarrow> rc_block_length rc dvd rc_prefilling_limit rc"
    using assms(2) by (simp add: dvd_eq_mod_eq_0)
  ultimately show "rc_block_length rc dvd decoding_starts rc pls ! r" unfolding eq min_def by presburger
  show "length (decoding_starts rc pls) = length pls" by (simp add: decoding_starts_def)
qed

lemma decode_limits_props:
  assumes "r < length pls" and "length gls = length pls" and "0 < rc_block_length rc"
    and "pls ! r \<le> P" and "starts ! r \<le> pls ! r"
  shows "0 < gls ! r \<Longrightarrow> pls ! r + gls ! r \<le> decode_limits rc pls gls starts ! r
      \<and> rc_block_length rc dvd decode_limits rc pls gls starts ! r"
    and "decode_limits rc pls gls starts ! r \<le> ceil_div (P + Max (set gls)) (rc_block_length rc) * rc_block_length rc"
proof -
  let ?L = "rc_block_length rc"
  have d: "decode_limits rc pls gls starts ! r =
      (if 0 < gls ! r then ceil_div (pls ! r + gls ! r) ?L * ?L else starts ! r)"
    using assms(1) block_ceil(1) [OF assms(3)] by (simp add: decode_limits_def)
  then show "0 < gls ! r \<Longrightarrow> pls ! r + gls ! r \<le> decode_limits rc pls gls starts ! r
      \<and> ?L dvd decode_limits rc pls gls starts ! r"
    using block_ceil(2) [OF assms(3)] by simp
  have "gls ! r \<le> Max (set gls)" using assms(1,2) by (intro Max_ge) auto
  then have "ceil_div (pls ! r + gls ! r) ?L * ?L \<le> ceil_div (P + Max (set gls)) ?L * ?L"
    using assms(3,4) by (intro ceil_block_mono) auto
  moreover have "starts ! r \<le> ceil_div (P + Max (set gls)) ?L * ?L"
    using assms(4,5) block_ceil(2) [OF assms(3), of "P + Max (set gls)"] by linarith
  ultimately show "decode_limits rc pls gls starts ! r \<le> ceil_div (P + Max (set gls)) ?L * ?L"
    using d by simp
qed

text \<open>The state in which the decode loop starts.\<close>

definition initial_state ::
  "'v decode_env \<Rightarrow> token list list \<Rightarrow> nat \<Rightarrow> nat list \<Rightarrow> 'v kv_store \<Rightarrow> nat \<Rightarrow> 'v runner_state" where
  "initial_state E prompts new_gen starts store fw =
     \<lparr> rs_rows = map (\<lambda>row. row @ replicate new_gen (de_mask E)) prompts, rs_start = starts,
       rs_flag = flags_below (de_L E) ((!) (de_dls E)) starts (replicate (de_B E) True),
       rs_budget = budget_init (de_B E) (de_P E) (de_L E) None, rs_lev = None,
       rs_kv = store, rs_forwards = fw \<rparr>"

lemma initial_state_ok:
  assumes "length prompts = de_B E" and "length starts = de_B E"
    and rows: "\<And>r. r < de_B E \<Longrightarrow> length (prompts ! r) + new_gen = de_total E"
    and "store_ok (de_B E) (de_max_length E) store"
  shows "loop_inv E (initial_state E prompts new_gen starts store fw)"
  using assms by (simp add: loop_inv_def initial_state_def row_inv_def budget_shape_def budget_init_def
      budget_row_fresh)

lemma initial_row_done:
  assumes r: "r < de_B E" "length prompts = de_B E" "de_pls E ! r \<le> length (prompts ! r)"
    and s: "starts ! r \<le> de_pls E ! r" "de_L E dvd starts ! r"
    and prompt: "\<forall>i < de_pls E ! r. prompts ! r ! i \<noteq> de_mask E"
  shows "row_done E prompts (initial_state E prompts new_gen starts store fw) r"
proof -
  have row: "rs_rows (initial_state E prompts new_gen starts store fw) ! r ! i = prompts ! r ! i"
    if "i < de_pls E ! r" for i
    using that r by (simp add: initial_state_def nth_append)
  then show ?thesis
    unfolding row_done_def using r s prompt
    by (auto simp: initial_state_def intro!: exI [of _ "starts ! r"])
qed

lemma measure_bound:
  assumes "env_ok E"
  shows "loop_measure E st \<le> de_B E * (de_total E div de_L E * (de_L E + de_P E + 1) + de_L E + de_P E)"
proof -
  have "row_rank E st r \<le> de_total E div de_L E * (de_L E + de_P E + 1) + de_L E + de_P E" if r: "r < de_B E" for r
  proof -
    have "de_dls E ! r - rs_start st ! r \<le> de_total E"
      using assms r by (auto simp: env_ok_def list_all_length intro: le_trans)
    then have "(de_dls E ! r - rs_start st ! r) div de_L E * (de_L E + de_P E + 1)
        \<le> de_total E div de_L E * (de_L E + de_P E + 1)"
      by (intro mult_le_mono1 div_le_mono)
    moreover have "block_rank (de_mask E) (de_P E) (row_block E st r) (eb_post_steps (rs_budget st) ! r)
        \<le> de_L E + de_P E" by (rule block_rank_le) (simp add: row_block_def)
    ultimately show ?thesis by (simp add: row_rank_def)
  qed
  then have "loop_measure E st \<le> (\<Sum>r < de_B E. de_total E div de_L E * (de_L E + de_P E + 1) + de_L E + de_P E)"
    unfolding loop_measure_def by (intro sum_mono) simp
  then show ?thesis by simp
qed

text \<open>What a row of the result holds: the prompt, then the generated tokens, then masks.\<close>

definition row_result :: "runner_config \<Rightarrow> llada_decoder \<Rightarrow> token list \<Rightarrow> nat \<Rightarrow> nat \<Rightarrow> token list \<Rightarrow> bool" where
  "row_result rc dec prompt p g out =
     (take p out = take p prompt
      \<and> (\<forall>i < length out. p + g \<le> i \<longrightarrow> out ! i = dec_mask_id dec)
      \<and> ((\<forall>i < p + g. p \<le> i \<longrightarrow> out ! i \<noteq> dec_mask_id dec)
         \<or> rc_early_stop rc \<and> (\<exists>j < p + g. p \<le> j \<and> out ! j \<in> set (dec_eos_ids dec)
             \<and> (\<forall>i \<le> j. p \<le> i \<longrightarrow> out ! i \<noteq> dec_mask_id dec))))"

lemma row_done_result:
  assumes row_done: "row_done E prompts st r" and unflagged: "\<not> rs_flag st ! r" and len: "length (rs_rows st ! r) = de_total E"
    and p: "de_pls E ! r \<le> length (prompts ! r)" and pg: "de_pls E ! r + g \<le> de_total E"
    and lim: "0 < g \<Longrightarrow> de_pls E ! r + g \<le> de_dls E ! r \<and> de_L E dvd de_dls E ! r"
  shows "row_result (de_rc E) (de_dec E) (prompts ! r) (de_pls E ! r) g
    (tabulate (de_total E) (\<lambda>i. if de_pls E ! r + g \<le> i then de_mask E else rs_rows st ! r ! i))"
    (is "row_result _ _ _ ?p _ ?out")
proof -
  have out: "?out ! i = (if ?p + g \<le> i then de_mask E else rs_rows st ! r ! i)" if "i < de_total E" for i
    using that by simp
  from row_done obtain e where pr: "\<forall>i < ?p. rs_rows st ! r ! i = prompts ! r ! i"
    and e: "de_L E dvd e" "\<forall>i < e. i < de_total E \<longrightarrow> rs_rows st ! r ! i \<noteq> de_mask E"
      "de_dls E ! r < e + de_L E \<or> rc_early_stop (de_rc E)
        \<and> eos_between (dec_eos_ids (de_dec E)) (rs_rows st ! r) ?p e"
    using unflagged by (auto simp: row_done_def)
  have tk: "take ?p ?out = take ?p (prompts ! r)"
    by (rule nth_equalityI) (use p pg pr in auto)
  have gen: "(\<forall>i < ?p + g. ?p \<le> i \<longrightarrow> ?out ! i \<noteq> de_mask E) \<or> rc_early_stop (de_rc E)
      \<and> (\<exists>j < ?p + g. ?p \<le> j \<and> ?out ! j \<in> set (dec_eos_ids (de_dec E)) \<and> (\<forall>i \<le> j. ?p \<le> i \<longrightarrow> ?out ! i \<noteq> de_mask E))"
  proof (cases "?p + g \<le> e \<or> g = 0")
    case True
    then show ?thesis using e(2) out pg by auto
  next
    case False
    then have "e < de_dls E ! r" and dv: "de_L E dvd de_dls E ! r" using lim by auto
    then have "e + de_L E \<le> de_dls E ! r" using e(1) by (metis dvd_diffD1 dvd_imp_le less_imp_le le_diff_conv2 nat_dvd_not_less zero_less_diff not_le add.commute dvd_diff_nat)
    then obtain j where j: "j < e" "?p \<le> j" "rs_rows st ! r ! j \<in> set (dec_eos_ids (de_dec E))" "rc_early_stop (de_rc E)"
      using e(3) by (auto simp: eos_between_def list_ex_iff)
    then have "j < ?p + g" using False by simp
    moreover have "?out ! i \<noteq> de_mask E" if "i \<le> j" for i
      using that j e(2) False pg out [of i] by simp
    moreover have "?out ! j = rs_rows st ! r ! j" using \<open>j < ?p + g\<close> pg out by simp
    ultimately show ?thesis using j by auto
  qed
  show ?thesis unfolding row_result_def using tk gen by auto
qed

lemma generate_readyD:
  assumes "generate_ready rn prompts pls gls"
  shows "plain_decoder (rn_decoder rn)" "0 < rc_block_length (rn_config rn)" "0 < rc_mini_batch_size (rn_config rn)"
    "0 < rn_max_length rn"
    "rc_attention_backend (rn_config rn) = ''flex'' \<or> rc_prefilling_limit (rn_config rn) mod rc_block_length (rn_config rn) = 0"
    "rc_cache (rn_config rn) \<in> {[], ''prefix''}"
    "rc_kv_cache_layout (rn_config rn) = ''paged'' \<Longrightarrow> \<exists>ps > 0. rc_page_size (rn_config rn) = Some ps"
    "prompts \<noteq> []" "length pls = length prompts" "length gls = length prompts"
    "r < length prompts \<Longrightarrow> length (prompts ! r) = row_length prompts"
    "r < length prompts \<Longrightarrow> pls ! r \<le> row_length prompts"
    "r < length prompts \<Longrightarrow> i < pls ! r \<Longrightarrow> prompts ! r ! i \<noteq> dec_mask_id (rn_decoder rn)"
  using assms unfolding generate_ready_def Let_def
  by (auto simp: list_all_length split: option.splits)

text \<open>The environment and the start of the decode loop of a call.\<close>

definition call_env ::
  "(flt list \<Rightarrow> rat list) \<Rightarrow> (rat \<Rightarrow> flt list list \<Rightarrow> flt list list) \<Rightarrow> bool \<Rightarrow> 'v decode_fwd \<Rightarrow> runner
    \<Rightarrow> nat list \<Rightarrow> nat list \<Rightarrow> nat \<Rightarrow> nat \<Rightarrow> 'v decode_env" where
  "call_env sm gumbel debug dfwd rn pls gls total_length max_length =
     \<lparr> de_sm = sm, de_gumbel = gumbel, de_debug = debug, de_rc = rn_config rn, de_dec = rn_decoder rn,
       de_fwd = dfwd, de_max_length = max_length, de_total = total_length,
       de_dls = decode_limits (rn_config rn) pls gls (decoding_starts (rn_config rn) pls), de_pls = pls \<rparr>"

lemma call_env_simps [simp]:
  "de_sm (call_env sm gumbel debug dfwd rn pls gls t m) = sm"
  "de_gumbel (call_env sm gumbel debug dfwd rn pls gls t m) = gumbel"
  "de_debug (call_env sm gumbel debug dfwd rn pls gls t m) = debug"
  "de_rc (call_env sm gumbel debug dfwd rn pls gls t m) = rn_config rn"
  "de_dec (call_env sm gumbel debug dfwd rn pls gls t m) = rn_decoder rn"
  "de_fwd (call_env sm gumbel debug dfwd rn pls gls t m) = dfwd"
  "de_max_length (call_env sm gumbel debug dfwd rn pls gls t m) = m"
  "de_total (call_env sm gumbel debug dfwd rn pls gls t m) = t"
  "de_pls (call_env sm gumbel debug dfwd rn pls gls t m) = pls"
  "de_dls (call_env sm gumbel debug dfwd rn pls gls t m)
     = decode_limits (rn_config rn) pls gls (decoding_starts (rn_config rn) pls)"
  by (simp_all add: call_env_def)

lemma call_env_ok:
  assumes ready: "generate_ready rn prompts pls gls"
    and fwd: "fwd_ok sm gumbel (rn_decoder rn) (rc_block_length (rn_config rn)) dfwd"
    and t: "t = ceil_div (row_length prompts + Max (set gls)) (rc_block_length (rn_config rn)) * rc_block_length (rn_config rn)"
    and m: "t \<le> m"
  shows "env_ok (call_env sm gumbel debug dfwd rn pls gls t m)"
proof -
  note d = generate_readyD [OF ready]
  have "decode_limits (rn_config rn) pls gls (decoding_starts (rn_config rn) pls) ! r \<le> t" if "r < length pls" for r
    unfolding t
    by (rule decode_limits_props(2)) (use that d decoding_starts_props(1) [OF that d(5)] in auto)
  then show ?thesis using d(1-3) fwd m by (simp add: env_ok_def list_all_length decode_limits_def)
qed

lemma sample_length_le:
  assumes ready: "generate_ready rn prompts pls gls" and r: "r < length prompts"
    and t: "t = ceil_div (row_length prompts + g) (rc_block_length (rn_config rn)) * rc_block_length (rn_config rn)"
  shows "sample_length (rn_config rn) (decoding_starts (rn_config rn) pls) pls r \<le> t"
proof -
  note d = generate_readyD [OF ready]
  have rp: "r < length pls" using r d(9) by simp
  have p: "pls ! r \<le> row_length prompts" using d(12) r by simp
  have "ceil_div (pls ! r) (rc_block_length (rn_config rn)) * rc_block_length (rn_config rn) \<le> t"
    unfolding t using p by (intro ceil_block_mono d(2)) simp
  moreover have "pls ! r \<le> t" unfolding t using p block_ceil(2) [OF d(2), of "row_length prompts + g"] by linarith
  moreover note decoding_starts_props(1) [OF rp d(5)]
  ultimately show ?thesis unfolding sample_length_def block_ceil(1) [OF d(2)] by simp
qed

text \<open>The decode phase of a call.\<close>

lemma call_decode:
  fixes rn prompts pls gls t m sm gumbel debug dfwd
  defines "E \<equiv> call_env sm gumbel debug dfwd rn pls gls t m"
  assumes ready: "generate_ready rn prompts pls gls"
    and fwd: "fwd_ok sm gumbel (rn_decoder rn) (rc_block_length (rn_config rn)) dfwd"
    and t: "t = ceil_div (row_length prompts + Max (set gls)) (rc_block_length (rn_config rn)) * rc_block_length (rn_config rn)"
    and m: "t \<le> m" and ng: "row_length prompts + new_gen = t" and store: "store_ok (length prompts) m store"
    and fuel: "generate_fuel (rn_config rn) (length prompts) t \<le> fuel"
  shows "\<exists>st. loop_in E fuel None (initial_state E prompts new_gen (decoding_starts (rn_config rn) pls) store fw) = Some (Inr st)
    \<and> length (rs_rows st) = length prompts
    \<and> (\<forall>r < length prompts. length (rs_rows st ! r) = t \<and> row_result (rn_config rn) (rn_decoder rn) (prompts ! r) (pls ! r) (gls ! r)
         (tabulate t (\<lambda>i. if pls ! r + gls ! r \<le> i then dec_mask_id (rn_decoder rn) else rs_rows st ! r ! i)))"
proof -
  note d = generate_readyD [OF ready]
  have B: "de_B E = length prompts" using d(9) by (simp add: E_def)
  have env: "env_ok E" unfolding E_def by (rule call_env_ok [OF ready fwd t m])
  have st: "decoding_starts (rn_config rn) pls ! r \<le> pls ! r"
      "rc_block_length (rn_config rn) dvd decoding_starts (rn_config rn) pls ! r" if "r < length prompts" for r
    using decoding_starts_props [OF _ d(5), of r pls] that d(9) by simp_all
  let ?st0 = "initial_state E prompts new_gen (decoding_starts (rn_config rn) pls) store fw"
  have inv: "loop_inv E ?st0"
    by (rule initial_state_ok) (use B d(9,11) ng store in \<open>auto simp: E_def decoding_starts_def\<close>)
  have done0: "\<forall>r < de_B E. row_done E prompts ?st0 r"
  proof (intro allI impI)
    fix r assume "r < de_B E"
    then show "row_done E prompts ?st0 r"
      by (intro initial_row_done) (use B d st in \<open>auto simp: E_def\<close>)
  qed
  have pt: "pls ! r \<le> t" "pls ! r + gls ! r \<le> t" if r: "r < length prompts" for r
  proof -
    have "gls ! r \<le> Max (set gls)" using r d(10) by (intro Max_ge) auto
    then show "pls ! r \<le> t" "pls ! r + gls ! r \<le> t"
      using d(12) [OF r] block_ceil(2) [OF d(2), of "row_length prompts + Max (set gls)"] t by linarith+
  qed
  have fn: "fuel_needed E None ?st0 \<le> fuel"
    using measure_bound [OF env, of ?st0] fuel B by (simp add: fuel_needed_def generate_fuel_def Let_def E_def)
  have stp: "row_done E prompts st' r" if "loop_inv E st" "r < de_B E" "rs_flag st ! r" "row_step E st st' r lg"
      "row_done E prompts st r" for st st' r lg
    by (rule row_done_step [OF env that]) (use that(2) B d(13) pt in \<open>auto simp: E_def\<close>)
  have "\<exists>st'. loop_in E fuel None ?st0 = Some (Inr st') \<and> loop_inv E st' \<and> \<not> any_row (rs_flag st')
      \<and> (\<forall>r < de_B E. row_done E prompts st' r)"
    by (rule decode_loop_total [where J = "row_done E prompts", OF env stp row_done_same inv done0 _ fn]) simp_all
  then obtain st' where fin: "loop_in E fuel None ?st0 = Some (Inr st')" "loop_inv E st'" "\<not> any_row (rs_flag st')"
      "\<forall>r < de_B E. row_done E prompts st' r"
    by blast
  have rows: "length (rs_rows st' ! r) = t \<and> row_result (rn_config rn) (rn_decoder rn) (prompts ! r) (pls ! r) (gls ! r)
         (tabulate t (\<lambda>i. if pls ! r + gls ! r \<le> i then dec_mask_id (rn_decoder rn) else rs_rows st' ! r ! i))"
    if r: "r < length prompts" for r
  proof -
    have len: "length (rs_rows st' ! r) = de_total E" and uf: "\<not> rs_flag st' ! r"
      using fin(2,3) r B by (auto simp: loop_inv_def row_inv_def any_row_iff)
    have "0 < gls ! r \<Longrightarrow> de_pls E ! r + gls ! r \<le> de_dls E ! r \<and> de_L E dvd de_dls E ! r"
      using decode_limits_props(1) [of r pls gls "rn_config rn" "row_length prompts" "decoding_starts (rn_config rn) pls"]
        r d(2,9,10,12) st by (simp add: E_def)
    then show ?thesis
      using row_done_result [OF _ uf len, of prompts "gls ! r"] fin(4) r B d(11,12) pt(2) len
      by (simp add: E_def cong: if_cong)
  qed
  then show ?thesis using fin(1,2) B by (auto simp: loop_inv_def)
qed

text \<open>
  C1: \<open>generate\<close> returns: for a decoder with a plain batch step (threshold, credit or joint), a
  model that gives usable logits and enough fuel, the call neither raises nor runs out, and every
  row of the result is the prompt, then generated tokens without a mask up to the budget of the
  row or up to an end-of-sequence token, then masks only.
\<close>

theorem generate_correct:
  assumes ready: "generate_ready rn prompts pls gls"
    and fwd: "fwd_ok sm gumbel (rn_decoder rn) (rc_block_length (rn_config rn)) dfwd"
    and pfwd: "prefill_fwd_ok pfwd"
    and t: "total_length = ceil_div (row_length prompts + Max (set gls)) (rc_block_length (rn_config rn))
      * rc_block_length (rn_config rn)"
    and fuel: "generate_fuel (rn_config rn) (length prompts) total_length \<le> fuel"
  shows "\<exists>out rn'. generate sm gumbel debug zero pfwd dfwd fuel rn prompts (Some (map int pls)) (Some (map int gls))
      = Some (Inr (out, rn')) \<and> length out = length prompts
    \<and> (\<forall>r < length prompts. length (out ! r) = total_length
         \<and> row_result (rn_config rn) (rn_decoder rn) (prompts ! r) (pls ! r) (gls ! r) (out ! r))"
proof -
  note d = generate_readyD [OF ready]
  let ?L = "rc_block_length (rn_config rn)" and ?mid = "dec_mask_id (rn_decoder rn)"
    and ?starts = "decoding_starts (rn_config rn) pls"
  obtain t' ng blocks m where pre: "preprocess_inputs ?L (rn_max_length rn) (row_length prompts) (Max (set gls)) = (t', ng, blocks, m)"
    using prod_cases4 by blast
  note pp = preprocess_inputs_value [OF pre d(2)]
  have t': "t' = total_length" using pp(1) t by simp
  have m: "0 < m" "total_length \<le> m" using pp(3,4) d(4) t' by auto
  obtain store where al: "allocate_kv_cache zero (rn_num_layers rn) (rn_config rn) m (length prompts) = Inr store"
      "store_ok (length prompts) m store"
    using allocate_ok [OF m(1) d(7), of "length prompts" zero "rn_num_layers rn"] d(8) by auto
  define x where "x = map (\<lambda>row. row @ replicate ng ?mid) prompts"
  define am where "am = (if rc_attention_backend (rn_config rn) \<noteq> ''flex''
    then Some (build_block_attention_mask ?L blocks (rc_mini_batch_size (rn_config rn))) else None)"
  have lx: "length (x ! r) = total_length" if "r < length prompts" for r
    using that d(11) pp(2) t' by (simp add: x_def)
  have "tsum (map (\<lambda>s. s > 0) ?starts) < fuel"
    using tsum_le_length [of "map (\<lambda>s. s > 0) ?starts"] fuel d(9)
    by (simp add: decoding_starts_def generate_fuel_def Let_def)
  then have "\<exists>store' fw. prefill_loop zero (rn_config rn) pfwd am x ?mid ?starts pls fuel
      (map (\<lambda>s. s > 0) ?starts, store, rn_forwards rn) = Some (Inr (store', fw)) \<and> store_ok (length prompts) m store'"
    using sample_length_le [OF ready _ t] al(2) d(9)
    by (intro prefill_loop_total [OF pfwd d(3) lx m(2)]) (simp_all add: decoding_starts_def)
  then obtain store' fw where pf: "prefill_loop zero (rn_config rn) pfwd am x ?mid ?starts pls fuel
      (map (\<lambda>s. s > 0) ?starts, store, rn_forwards rn) = Some (Inr (store', fw))" "store_ok (length prompts) m store'"
    by blast
  define E where "E = call_env sm gumbel debug dfwd rn pls gls total_length m"
  obtain st where st: "loop_in E fuel None (initial_state E prompts ng ?starts store' fw) = Some (Inr st)"
    "length (rs_rows st) = length prompts"
    "\<forall>r < length prompts. length (rs_rows st ! r) = total_length \<and> row_result (rn_config rn) (rn_decoder rn) (prompts ! r) (pls ! r) (gls ! r)
         (tabulate total_length (\<lambda>i. if pls ! r + gls ! r \<le> i then ?mid else rs_rows st ! r ! i))"
    using call_decode [OF ready fwd t m(2) _ pf(2) fuel, of ng] pp(2) t' unfolding E_def by blast
  have loop: "decode_loop sm gumbel debug (rn_config rn) (rn_decoder rn) dfwd m total_length
      (decode_limits (rn_config rn) pls gls ?starts) (Some pls) fuel None
      \<lparr>rs_rows = x, rs_start = ?starts,
       rs_flag = flags_below ?L ((!) (decode_limits (rn_config rn) pls gls ?starts)) ?starts (replicate (length prompts) True),
       rs_budget = budget_init (length prompts) (nat (rc_max_post_steps (rn_config rn))) ?L None,
       rs_lev = None, rs_kv = store', rs_forwards = fw\<rparr> = Some (Inr st)"
    using st(1) d(9) by (simp add: E_def initial_state_def x_def)
  have mk: "make_decode_loop_state (rn_config rn) (rn_decoder rn) (length prompts)
      = (budget_init (length prompts) (nat (rc_max_post_steps (rn_config rn))) ?L None, None)"
    using d(1) by (cases "rn_decoder rn") (simp_all add: make_decode_loop_state_def plain_decoder_def)
  have chk: "\<not> list_ex (\<lambda>p. p < 0 \<or> p > int (row_length prompts)) (map int pls)"
      "\<not> list_ex (\<lambda>g. g < 0) (map int gls)" "map int gls \<noteq> []"
      "map nat (map int pls) = pls" "map nat (map int gls) = gls"
    using d(8-10,12) by (auto simp: list_ex_iff in_set_conv_nth not_less o_def)
  have "generate sm gumbel debug zero pfwd dfwd fuel rn prompts (Some (map int pls)) (Some (map int gls))
      = Some (Inr (masked_fill_tail ?mid (map2 (+) pls gls) (rs_rows st),
          rn\<lparr> rn_max_length := m, rn_forwards := rs_forwards st \<rparr>))"
    unfolding generate_def Let_def option.case chk(4,5) pre t' split_conv
    using d(6,9,10) chk(1-3) loop
    by (simp add: token_array_init_def x_def [symmetric] am_def [symmetric] al(1) pf(1) mk)
  moreover have "masked_fill_tail ?mid (map2 (+) pls gls) (rs_rows st) ! r =
      tabulate total_length (\<lambda>i. if pls ! r + gls ! r \<le> i then ?mid else rs_rows st ! r ! i)" if "r < length prompts" for r
    using that st(2,3) d(9,10) by (simp add: masked_fill_tail_def)
  ultimately show ?thesis using st(2,3) by (simp add: masked_fill_tail_def)
qed

text \<open>A call with one row of three prompt tokens and a budget of three.\<close>

definition ex_runner :: runner where
  "ex_runner = \<lparr> rn_config = ex_config\<lparr>rc_attention_backend := ''sdpa''\<rparr>, rn_decoder = Threshold_Decoder ex_td,
     rn_num_layers = 1, rn_max_length = 8, rn_forwards = 0 \<rparr>"

definition ex_dfwd :: "int decode_fwd" where
  "ex_dfwd blocks pos past = (map (\<lambda>_. ex_td_logits) blocks, past)"

definition ex_pfwd :: "int prefill_fwd" where
  "ex_pfwd toks m pos = map (map int) toks"

lemma ex_fwd_ok:
  "fwd_ok ex_softmax (\<lambda>t l. l) (Threshold_Decoder ex_td) 2 ex_dfwd" "prefill_fwd_ok ex_pfwd"
proof -
  have "dec_input_ok ex_softmax (\<lambda>t l. l) (Threshold_Decoder ex_td) 2 ex_td_logits" by code_simp
  then show "fwd_ok ex_softmax (\<lambda>t l. l) (Threshold_Decoder ex_td) 2 ex_dfwd"
    by (simp add: fwd_ok_def ex_dfwd_def)
qed (simp add: prefill_fwd_ok_def ex_pfwd_def)

theorem generate_correct_witness:
  "\<exists>out rn'. generate ex_softmax (\<lambda>t l. l) False 0 ex_pfwd ex_dfwd 300 ex_runner [[7, 8, 9]]
       (Some (map int [3])) (Some (map int [3])) = Some (Inr (out, rn'))
     \<and> length out = 1 \<and> row_result (rn_config ex_runner) (rn_decoder ex_runner) [7, 8, 9] 3 3 (out ! 0)"
proof -
  have rn: "rn_decoder ex_runner = Threshold_Decoder ex_td" "rc_block_length (rn_config ex_runner) = 2"
    by (simp_all add: ex_runner_def ex_config_def)
  have "generate_ready ex_runner [[7, 8, 9]] [3] [3]" by code_simp
  moreover have "ceil_div (row_length [[7, 8, 9 :: nat]] + Max (set [3])) 2 * 2 = 6" by code_simp
  moreover have "generate_fuel (rn_config ex_runner) (length [[7, 8, 9 :: nat]]) 6 \<le> 300" by code_simp
  ultimately show ?thesis
    using generate_correct [of ex_runner "[[7, 8, 9]]" "[3]" "[3]" ex_softmax "\<lambda>t l. l" ex_dfwd ex_pfwd 6 300 False 0]
      ex_fwd_ok unfolding rn by (auto simp: rn)
qed

end
