(* ===== verification/Requests.thy ===== *)
theory Requests
  imports Tensor
begin

text \<open>
  The request objects of the engine: the API input \<open>GenerateReqInput\<close> with
  \<open>normalize\<close> and \<open>iter_items\<close> and the output object (engine/io_struct.py), and the
  per-request state with its operations (engine/request.py).  Python values that arrive through
  the API are the datatype \<open>py_val\<close>; the ids that \<open>uuid4\<close> draws are the argument
  \<open>uuid\<close>, indexed by the draw; \<open>time.time()\<close> is the argument \<open>now\<close>.
\<close>

section \<open>Values that arrive through the API\<close>

datatype py_val =
    PNone
  | PBool bool
  | PInt int
  | PFloat flt
  | PNan
  | PStr string
  | PList "py_val list"

type_synonym rid = string
type_synonym params = "(string, py_val) pydict"

datatype text_input = TextStr string | TextList "string list"
datatype ids_input = IdsFlat "int list" | IdsNested "int list list"
datatype params_input = ParDict params | ParList "params list"
datatype rid_input = RidStr string | RidList "string list"

section \<open>GenerateReqInput\<close>

record gen_req =
  gr_text :: "text_input option"
  gr_input_ids :: "ids_input option"
  gr_sampling_params :: "params_input option"
  gr_rid :: "rid_input option"
  gr_stream :: bool
  gr_is_single :: bool
  gr_batch_size :: nat

record req_item =
  it_rid :: rid_input
  it_text :: "string option"
  it_input_ids :: "int list option"
  it_params :: params

text \<open>The first half of \<open>normalize\<close>: one request or a batch, and of which size.\<close>

definition normalize_shape :: "gen_req \<Rightarrow> (bool \<times> nat) result" where
  "normalize_shape r =
     (case (gr_text r, gr_input_ids r) of
        (None, None) \<Rightarrow> Inl (ValueError ''Exactly one of text or input_ids must be provided.'')
      | (Some _, Some _) \<Rightarrow> Inl (ValueError ''Exactly one of text or input_ids must be provided.'')
      | (Some (TextStr s), None) \<Rightarrow> Inr (True, 1)
      | (Some (TextList ts), None) \<Rightarrow> Inr (False, length ts)
      | (None, Some (IdsFlat xs)) \<Rightarrow>
          if xs = [] then Inl (ValueError ''input_ids must not be empty.'') else Inr (True, 1)
      | (None, Some (IdsNested xss)) \<Rightarrow>
          if xss = [] then Inl (ValueError ''input_ids must not be empty.'')
          else Inr (False, length xss))"

definition normalize_params ::
    "bool \<Rightarrow> nat \<Rightarrow> params_input option \<Rightarrow> params_input result" where
  "normalize_params single n p =
     (case p of
        None \<Rightarrow> Inr (if single then ParDict [] else ParList (replicate n []))
      | Some (ParList ds) \<Rightarrow>
          if single
          then (if length ds \<noteq> 1
                then Inl (ValueError ''single request sampling_params list must have length 1.'')
                else Inr (ParDict (ds ! 0)))
          else Inr (ParList ds)
      | Some (ParDict d) \<Rightarrow>
          if single then Inr (ParDict d) else Inr (ParList (replicate n d)))"

definition normalize_rid :: "(nat \<Rightarrow> string) \<Rightarrow> bool \<Rightarrow> nat \<Rightarrow> rid_input option \<Rightarrow> rid_input" where
  "normalize_rid uuid single n r =
     (case r of
        None \<Rightarrow> if single then RidStr (uuid 0) else RidList (map uuid [0..<n])
      | Some x \<Rightarrow> x)"

definition normalize :: "(nat \<Rightarrow> string) \<Rightarrow> gen_req \<Rightarrow> gen_req result" where
  "normalize uuid r =
     result_bind (normalize_shape r) (\<lambda>(single, n).
     result_bind (normalize_params single n (gr_sampling_params r)) (\<lambda>p.
     Inr (r\<lparr> gr_is_single := single, gr_batch_size := n, gr_sampling_params := Some p,
            gr_rid := Some (normalize_rid uuid single n (gr_rid r)) \<rparr>)))"

text \<open>
  The four columns that \<open>iter_items\<close> indexes.  In a batch a plain string as \<open>rid\<close> is
  indexed like a list, so item \<open>i\<close> gets its \<open>i\<close>-th character.
\<close>

definition item_texts :: "gen_req \<Rightarrow> string list option" where
  "item_texts r = (case gr_text r of None \<Rightarrow> None
     | Some (TextStr s) \<Rightarrow> Some [s] | Some (TextList ts) \<Rightarrow> Some ts)"

definition item_ids :: "gen_req \<Rightarrow> int list list option" where
  "item_ids r = (case gr_input_ids r of None \<Rightarrow> None
     | Some (IdsFlat xs) \<Rightarrow> Some [xs] | Some (IdsNested xss) \<Rightarrow> Some xss)"

definition item_params :: "gen_req \<Rightarrow> params list" where
  "item_params r = (case gr_sampling_params r of None \<Rightarrow> []
     | Some (ParDict d) \<Rightarrow> [d] | Some (ParList ds) \<Rightarrow> ds)"

definition item_rids :: "gen_req \<Rightarrow> rid_input list" where
  "item_rids r = (case gr_rid r of None \<Rightarrow> []
     | Some x \<Rightarrow>
         if gr_is_single r then [x]
         else (case x of RidStr s \<Rightarrow> map (\<lambda>c. RidStr [c]) s | RidList rs \<Rightarrow> map RidStr rs))"

definition column_nth :: "'a list option \<Rightarrow> nat \<Rightarrow> 'a option result" where
  "column_nth col i = (case col of None \<Rightarrow> Inr None
     | Some xs \<Rightarrow> result_bind (py_nth xs i) (\<lambda>x. Inr (Some x)))"

definition make_item :: "gen_req \<Rightarrow> nat \<Rightarrow> req_item result" where
  "make_item r i =
     result_bind (py_nth (item_rids r) i) (\<lambda>rd.
     result_bind (column_nth (item_texts r) i) (\<lambda>t.
     result_bind (column_nth (item_ids r) i) (\<lambda>ids.
     result_bind (py_nth (item_params r) i) (\<lambda>p.
     Inr \<lparr> it_rid = rd, it_text = t, it_input_ids = ids, it_params = p \<rparr>))))"

definition iter_items :: "(nat \<Rightarrow> string) \<Rightarrow> gen_req \<Rightarrow> req_item list result" where
  "iter_items uuid r =
     result_bind (normalize uuid r) (\<lambda>r'. result_map (make_item r') [0..<gr_batch_size r'])"

section \<open>GenerateReqOutput\<close>

record metadata =
  md_prompt_tokens :: nat
  md_completion_tokens :: nat
  md_queue_latency_s :: "rat option"
  md_execution_latency_s :: "rat option"
  md_e2e_latency_s :: "rat option"

record gen_output =
  go_rid :: rid
  go_text :: string
  go_token_ids :: "int list"
  go_finish_reason :: "string option"
  go_error :: "string option"
  go_meta :: "metadata option"

definition go_finished :: "gen_output \<Rightarrow> bool" where
  "go_finished out = (go_finish_reason out \<noteq> None \<or> go_error out \<noteq> None)"

section \<open>RequestState\<close>

record request_state =
  rs_rid :: rid
  rs_input_ids :: "int list"
  rs_max_new_tokens :: int
  rs_ignore_eos :: bool
  rs_prompt_text :: string
  rs_sampling_params :: params
  rs_created_time :: rat
  rs_queued_time :: "rat option"
  rs_scheduled_time :: "rat option"
  rs_execution_start_time :: "rat option"
  rs_execution_end_time :: "rat option"
  rs_completed_time :: "rat option"
  rs_output_ids :: "int list"
  rs_decoded_text :: string
  rs_finished_reason :: "string option"
  rs_plan_prefill_done :: bool
  rs_current_decode_block :: nat
  rs_queue :: "gen_output list"

definition fresh_request_state ::
    "rat \<Rightarrow> rid \<Rightarrow> int list \<Rightarrow> int \<Rightarrow> bool \<Rightarrow> string \<Rightarrow> params \<Rightarrow> request_state" where
  "fresh_request_state now r ids n ign txt ps =
     \<lparr> rs_rid = r, rs_input_ids = ids, rs_max_new_tokens = n, rs_ignore_eos = ign,
       rs_prompt_text = txt, rs_sampling_params = ps, rs_created_time = now,
       rs_queued_time = None, rs_scheduled_time = None, rs_execution_start_time = None,
       rs_execution_end_time = None, rs_completed_time = None, rs_output_ids = [],
       rs_decoded_text = [], rs_finished_reason = None, rs_plan_prefill_done = False,
       rs_current_decode_block = 0, rs_queue = [] \<rparr>"

definition rs_finished :: "request_state \<Rightarrow> bool" where
  "rs_finished st = (rs_finished_reason st \<noteq> None)"

definition prompt_token_count :: "request_state \<Rightarrow> nat" where
  "prompt_token_count st = length (rs_input_ids st)"

definition completion_token_count :: "request_state \<Rightarrow> nat" where
  "completion_token_count st = length (rs_output_ids st)"

definition aligned_prefill_length :: "request_state \<Rightarrow> nat \<Rightarrow> nat" where
  "aligned_prefill_length st block_length = (length (rs_input_ids st) div block_length) * block_length"

definition time_diff :: "rat option \<Rightarrow> rat option \<Rightarrow> rat option" where
  "time_diff a b = (case (a, b) of (Some x, Some y) \<Rightarrow> Some (y - x) | _ \<Rightarrow> None)"

definition queue_latency_s :: "request_state \<Rightarrow> rat option" where
  "queue_latency_s st = time_diff (rs_queued_time st) (rs_scheduled_time st)"

definition execution_latency_s :: "request_state \<Rightarrow> rat option" where
  "execution_latency_s st = time_diff (rs_execution_start_time st) (rs_execution_end_time st)"

definition e2e_latency_s :: "request_state \<Rightarrow> rat option" where
  "e2e_latency_s st = time_diff (Some (rs_created_time st)) (rs_completed_time st)"

definition mark_queued :: "rat \<Rightarrow> request_state \<Rightarrow> request_state" where
  "mark_queued now st = st\<lparr>rs_queued_time := Some now\<rparr>"

definition mark_scheduled :: "rat \<Rightarrow> request_state \<Rightarrow> request_state" where
  "mark_scheduled now st =
     (let st1 = (if rs_scheduled_time st = None then st\<lparr>rs_scheduled_time := Some now\<rparr> else st)
      in if rs_execution_start_time st1 = None
         then st1\<lparr>rs_execution_start_time := Some now\<rparr> else st1)"

definition mark_decode_block_done :: "request_state \<Rightarrow> request_state" where
  "mark_decode_block_done st = st\<lparr>rs_current_decode_block := rs_current_decode_block st + 1\<rparr>"

definition mark_execution_done :: "rat \<Rightarrow> request_state \<Rightarrow> request_state" where
  "mark_execution_done now st = st\<lparr>rs_execution_end_time := Some now\<rparr>"

definition output_metadata :: "request_state \<Rightarrow> metadata" where
  "output_metadata st =
     \<lparr> md_prompt_tokens = prompt_token_count st, md_completion_tokens = completion_token_count st,
       md_queue_latency_s = queue_latency_s st, md_execution_latency_s = execution_latency_s st,
       md_e2e_latency_s = e2e_latency_s st \<rparr>"

definition append_output ::
    "rat \<Rightarrow> request_state \<Rightarrow> int list \<Rightarrow> string \<Rightarrow> string option \<Rightarrow> request_state \<times> gen_output" where
  "append_output now st token_ids text finish_reason =
     (let st1 = st\<lparr>rs_output_ids := rs_output_ids st @ token_ids,
                   rs_decoded_text := rs_decoded_text st @ text\<rparr>;
          st2 = (if finish_reason \<noteq> None
                 then st1\<lparr>rs_finished_reason := finish_reason, rs_completed_time := Some now\<rparr>
                 else st1)
      in (st2, \<lparr> go_rid = rs_rid st2, go_text = text, go_token_ids = token_ids,
                 go_finish_reason = rs_finished_reason st2, go_error = None,
                 go_meta = (if rs_finished st2 then Some (output_metadata st2) else None) \<rparr>))"

section \<open>Lemmas\<close>

lemmas request_defs = rs_finished_def go_finished_def prompt_token_count_def
  completion_token_count_def mark_queued_def mark_scheduled_def mark_decode_block_done_def
  mark_execution_done_def

lemma mark_keeps [simp]:
  "rs_rid (mark_queued t st) = rs_rid st" "rs_rid (mark_scheduled t st) = rs_rid st"
  "rs_rid (mark_execution_done t st) = rs_rid st" "rs_rid (mark_decode_block_done st) = rs_rid st"
  "rs_queue (mark_queued t st) = rs_queue st" "rs_queue (mark_scheduled t st) = rs_queue st"
  "rs_queue (mark_execution_done t st) = rs_queue st"
  "rs_queue (mark_decode_block_done st) = rs_queue st"
  "rs_finished (mark_queued t st) = rs_finished st"
  "rs_finished (mark_scheduled t st) = rs_finished st"
  "rs_finished (mark_execution_done t st) = rs_finished st"
  "rs_finished (mark_decode_block_done st) = rs_finished st"
  "rs_output_ids (mark_queued t st) = rs_output_ids st"
  "rs_output_ids (mark_scheduled t st) = rs_output_ids st"
  "rs_output_ids (mark_execution_done t st) = rs_output_ids st"
  "rs_output_ids (mark_decode_block_done st) = rs_output_ids st"
  by (simp_all add: request_defs Let_def)

lemma mark_scheduled_time [simp]:
  "rs_scheduled_time (mark_scheduled t st)
     = (case rs_scheduled_time st of None \<Rightarrow> Some t | Some u \<Rightarrow> Some u)"
  "rs_scheduled_time (mark_queued t st) = rs_scheduled_time st"
  "rs_scheduled_time (mark_execution_done t st) = rs_scheduled_time st"
  "rs_scheduled_time (mark_decode_block_done st) = rs_scheduled_time st"
  by (simp_all add: request_defs Let_def split: option.splits)

lemma aligned_prefill_le: "aligned_prefill_length st b \<le> length (rs_input_ids st)"
  by (simp add: aligned_prefill_length_def)

text \<open>The condition under which \<open>iter_items\<close> yields every item.\<close>

definition shape_ok :: "gen_req \<Rightarrow> bool" where
  "shape_ok r = ((gr_text r = None) \<noteq> (gr_input_ids r = None)
     \<and> gr_input_ids r \<noteq> Some (IdsFlat []) \<and> gr_input_ids r \<noteq> Some (IdsNested []))"

definition req_count :: "gen_req \<Rightarrow> nat" where
  "req_count r = (case (gr_text r, gr_input_ids r) of
     (Some (TextList ts), _) \<Rightarrow> length ts | (_, Some (IdsNested xss)) \<Rightarrow> length xss | _ \<Rightarrow> 1)"

definition req_single :: "gen_req \<Rightarrow> bool" where
  "req_single r = (case (gr_text r, gr_input_ids r) of
     (Some (TextList ts), _) \<Rightarrow> False | (_, Some (IdsNested xss)) \<Rightarrow> False | _ \<Rightarrow> True)"

definition columns_ok :: "gen_req \<Rightarrow> bool" where
  "columns_ok r =
     ((case gr_sampling_params r of
         Some (ParList ds) \<Rightarrow> if req_single r then length ds = 1 else req_count r \<le> length ds
       | _ \<Rightarrow> True)
    \<and> (case gr_rid r of
         Some (RidStr s) \<Rightarrow> req_single r \<or> req_count r \<le> length s
       | Some (RidList rs) \<Rightarrow> req_single r \<or> req_count r \<le> length rs
       | None \<Rightarrow> True))"

lemma normalize_shape_cases:
  "normalize_shape r =
     (if shape_ok r then Inr (req_single r, req_count r)
      else Inl (ValueError (if (gr_text r = None) = (gr_input_ids r = None)
        then ''Exactly one of text or input_ids must be provided.''
        else ''input_ids must not be empty.'')))"
  by (auto simp: normalize_shape_def shape_ok_def req_single_def req_count_def
      split: option.splits text_input.splits ids_input.splits)

lemma normalize_fields:
  assumes "normalize uuid r = Inr r'"
  shows "gr_text r' = gr_text r" "gr_input_ids r' = gr_input_ids r"
    and "gr_is_single r' = req_single r" "gr_batch_size r' = req_count r"
    and "gr_rid r' = Some (normalize_rid uuid (req_single r) (req_count r) (gr_rid r))"
    and "\<exists>p. normalize_params (req_single r) (req_count r) (gr_sampling_params r) = Inr p
           \<and> gr_sampling_params r' = Some p"
    and "shape_ok r"
  using assms
  by (auto simp: normalize_def normalize_shape_cases result_bind_eq_Inr split: if_splits)


lemma normalize_ok_iff:
  "is_ok (normalize uuid r) \<longleftrightarrow> shape_ok r
     \<and> (\<forall>ds. gr_sampling_params r = Some (ParList ds) \<and> req_single r \<longrightarrow> length ds = 1)"
  by (auto simp: normalize_def normalize_shape_cases is_ok_bind normalize_params_def
      split: option.splits params_input.splits if_splits)

lemma normalized_columns:
  assumes "normalize uuid r = Inr r'"
  shows "item_texts r' = item_texts r" "item_ids r' = item_ids r"
    and "\<And>ts. item_texts r = Some ts \<Longrightarrow> length ts = req_count r"
    and "\<And>xs. item_ids r = Some xs \<Longrightarrow> length xs = req_count r"
  using normalize_fields [OF assms]
  by (auto simp: item_texts_def item_ids_def shape_ok_def req_count_def
      split: option.splits text_input.splits ids_input.splits)

lemma normalized_lengths:
  assumes "normalize uuid r = Inr r'"
  shows "req_count r \<le> length (item_params r') \<and> req_count r \<le> length (item_rids r')
    \<longleftrightarrow> columns_ok r"
proof -
  have one: "req_single r \<Longrightarrow> req_count r = 1"
    by (auto simp: req_single_def req_count_def
        split: option.splits text_input.splits ids_input.splits)
  obtain p where p: "normalize_params (req_single r) (req_count r) (gr_sampling_params r) = Inr p"
    and f: "gr_sampling_params r' = Some p" "gr_is_single r' = req_single r"
      "gr_rid r' = Some (normalize_rid uuid (req_single r) (req_count r) (gr_rid r))"
    using normalize_fields [OF assms] by blast
  have "req_count r \<le> length (item_params r') \<longleftrightarrow>
      (case gr_sampling_params r of
         Some (ParList ds) \<Rightarrow> if req_single r then length ds = 1 else req_count r \<le> length ds
       | _ \<Rightarrow> True)"
    using p one unfolding item_params_def f(1) normalize_params_def
    by (auto split: option.splits params_input.splits if_splits)
  moreover have "req_count r \<le> length (item_rids r') \<longleftrightarrow>
      (case gr_rid r of
         Some (RidStr s) \<Rightarrow> req_single r \<or> req_count r \<le> length s
       | Some (RidList rs) \<Rightarrow> req_single r \<or> req_count r \<le> length rs
       | None \<Rightarrow> True)"
    unfolding item_rids_def f normalize_rid_def using one
    by (auto split: option.splits rid_input.splits)
  ultimately show ?thesis unfolding columns_ok_def by simp
qed

lemma make_item_ok_iff:
  "is_ok (make_item r i) \<longleftrightarrow> i < length (item_rids r) \<and> i < length (item_params r)
     \<and> (\<forall>ts. item_texts r = Some ts \<longrightarrow> i < length ts)
     \<and> (\<forall>xs. item_ids r = Some xs \<longrightarrow> i < length xs)"
  by (cases "item_texts r"; cases "item_ids r")
    (auto simp: make_item_def column_nth_def is_ok_bind result_bind_eq_Inr)

lemma make_item_fields:
  assumes "make_item r i = Inr it"
  shows "it_rid it = item_rids r ! i" "it_params it = item_params r ! i"
    and "it_text it = map_option (\<lambda>ts. ts ! i) (item_texts r)"
    and "it_input_ids it = map_option (\<lambda>xs. xs ! i) (item_ids r)"
  using assms
  by (cases "item_texts r"; cases "item_ids r";
      auto simp: make_item_def column_nth_def result_bind_eq_Inr)+

lemma columns_ok_single_params:
  "columns_ok r \<Longrightarrow> gr_sampling_params r = Some (ParList ds) \<Longrightarrow> req_single r \<Longrightarrow> length ds = 1"
  by (simp add: columns_ok_def)

section \<open>Properties\<close>

text \<open>
  \<open>iter_items\<close> yields all its items exactly when one of text and ids is given, the ids
  are not empty, a single request carries one parameter dict and a batch carries at least as
  many parameter dicts and request ids as requests; in every other case it raises, and when it
  succeeds item \<open>i\<close> carries the \<open>i\<close>-th text, ids and parameters.
\<close>

lemma iter_items_exact:
  "(is_ok (iter_items uuid r) \<longleftrightarrow> shape_ok r \<and> columns_ok r)
   \<and> (\<forall>items. iter_items uuid r = Inr items \<longrightarrow> length items = req_count r
      \<and> (\<forall>i < req_count r.
           it_text (items ! i) = map_option (\<lambda>ts. ts ! i) (item_texts r)
         \<and> it_input_ids (items ! i) = map_option (\<lambda>xs. xs ! i) (item_ids r)
         \<and> (\<forall>d. gr_sampling_params r = Some (ParDict d) \<longrightarrow> it_params (items ! i) = d)
         \<and> (\<forall>rs. gr_rid r = Some (RidList rs) \<and> \<not> req_single r
              \<longrightarrow> it_rid (items ! i) = RidStr (rs ! i))))"
proof (cases "normalize uuid r")
  case (Inl e)
  have "\<not> (shape_ok r \<and> columns_ok r)"
    using normalize_ok_iff [of uuid r] Inl columns_ok_single_params [of r] by auto
  with Inl show ?thesis by (simp add: iter_items_def)
next
  case (Inr r')
  note cols = normalized_columns [OF Inr] and flds = normalize_fields [OF Inr]
  have "is_ok (iter_items uuid r) \<longleftrightarrow> (\<forall>i < req_count r. is_ok (make_item r' i))"
    by (auto simp: iter_items_def Inr flds(4) result_map_is_ok)
  also have "\<dots> \<longleftrightarrow> (\<forall>i < req_count r. i < length (item_rids r') \<and> i < length (item_params r'))"
    using cols by (auto simp: make_item_ok_iff)
  also have "\<dots> \<longleftrightarrow> columns_ok r"
    unfolding normalized_lengths [OF Inr, symmetric] all_below_conj ..
  finally have ok: "is_ok (iter_items uuid r) \<longleftrightarrow> shape_ok r \<and> columns_ok r"
    using flds(7) by simp
  moreover
  { fix items i assume items: "iter_items uuid r = Inr items" and i: "i < req_count r"
    from items have rm: "result_map (make_item r') [0..<req_count r] = Inr items"
      by (simp add: iter_items_def Inr flds(4))
    from result_map_Inr_nth [OF this, of i] i have it: "make_item r' i = Inr (items ! i)" by simp
    have bounds: "i < length (item_params r')" "i < length (item_rids r')"
      using make_item_ok_iff [of r' i] it by auto
    have "\<forall>d. gr_sampling_params r = Some (ParDict d) \<longrightarrow> item_params r' ! i = d"
      using flds(6) bounds i
      by (auto simp: normalize_params_def item_params_def split: if_splits)
    moreover have "\<forall>rs. gr_rid r = Some (RidList rs) \<and> \<not> req_single r
        \<longrightarrow> item_rids r' ! i = RidStr (rs ! i)"
      using flds(3,5) bounds by (auto simp: item_rids_def normalize_rid_def)
    ultimately have "it_text (items ! i) = map_option (\<lambda>ts. ts ! i) (item_texts r)
         \<and> it_input_ids (items ! i) = map_option (\<lambda>xs. xs ! i) (item_ids r)
         \<and> (\<forall>d. gr_sampling_params r = Some (ParDict d) \<longrightarrow> it_params (items ! i) = d)
         \<and> (\<forall>rs. gr_rid r = Some (RidList rs) \<and> \<not> req_single r
              \<longrightarrow> it_rid (items ! i) = RidStr (rs ! i))"
      using make_item_fields [OF it] cols(1,2) by simp }
  moreover have "length items = req_count r" if "iter_items uuid r = Inr items" for items
    using that result_map_Inr_length [of "make_item r'" "[0..<req_count r]" items]
    by (simp add: iter_items_def Inr flds(4))
  ultimately show ?thesis by blast
qed

lemma iter_items_exact_witness:
  "is_ok (iter_items (\<lambda>k. ''u'') \<lparr> gr_text = Some (TextList [''a'', ''b'']), gr_input_ids = None,
     gr_sampling_params = Some (ParDict []), gr_rid = Some (RidList [''r'', ''s'']),
     gr_stream = False, gr_is_single = False, gr_batch_size = 0 \<rparr>)"
  by (subst iter_items_exact [THEN conjunct1])
    (simp add: shape_ok_def columns_ok_def req_count_def req_single_def)

text \<open>
  \<open>normalize\<close> is idempotent: \<open>iter_items\<close> normalizes again on every call, and a second
  normalization, whatever ids \<open>uuid4\<close> would draw, changes nothing.
\<close>

lemma normalize_idempotent:
  assumes "normalize uuid r = Inr r'"
  shows "normalize uuid' r' = Inr r'"
proof -
  note flds = normalize_fields [OF assms]
  have shape: "shape_ok r'" "req_single r' = req_single r" "req_count r' = req_count r"
    using flds(1,2,7) by (simp_all add: shape_ok_def req_single_def req_count_def)
  obtain p where p: "normalize_params (req_single r) (req_count r) (gr_sampling_params r) = Inr p"
    "gr_sampling_params r' = Some p" using flds(6) by blast
  have "normalize_params (req_single r) (req_count r) (Some p) = Inr p"
    using p(1) by (auto simp: normalize_params_def split: option.splits params_input.splits if_splits)
  then have "normalize uuid' r' = Inr (r'\<lparr>gr_is_single := req_single r,
      gr_batch_size := req_count r, gr_sampling_params := Some p,
      gr_rid := Some (normalize_rid uuid' (req_single r) (req_count r) (gr_rid r'))\<rparr>)"
    using p shape by (simp add: normalize_def normalize_shape_cases)
  also have "\<dots> = Inr r'"
    using flds(3-5) p(2) by (simp add: normalize_rid_def)
  finally show ?thesis .
qed

lemma normalize_idempotent_witness:
  "normalize (\<lambda>k. ''v'') \<lparr> gr_text = Some (TextStr ''a''), gr_input_ids = None,
     gr_sampling_params = Some (ParDict []), gr_rid = Some (RidStr ''u''),
     gr_stream = False, gr_is_single = True, gr_batch_size = 1 \<rparr>
   = Inr \<lparr> gr_text = Some (TextStr ''a''), gr_input_ids = None,
     gr_sampling_params = Some (ParDict []), gr_rid = Some (RidStr ''u''),
     gr_stream = False, gr_is_single = True, gr_batch_size = 1 \<rparr>"
  by (rule normalize_idempotent [where uuid = "\<lambda>k. ''u''" and r = "\<lparr> gr_text = Some (TextStr ''a''),
      gr_input_ids = None, gr_sampling_params = None, gr_rid = None,
      gr_stream = False, gr_is_single = False, gr_batch_size = 0 \<rparr>"])
    (simp add: normalize_def normalize_shape_def normalize_params_def normalize_rid_def)

end
