(* ===== verification/Processor.thy ===== *)
theory Processor
  imports Requests
begin

text \<open>
  The request frontend (engine/processor.py with \<open>validate_sampling_params\<close> of
  execution/decoders/nemotron.py): an API item becomes a \<open>RequestState\<close> whose generation
  budget is clamped to the model context, and the output processor turns results, errors and
  aborts into output objects.  The tokenizer is the argument \<open>encode\<close>, the draw of
  \<open>secrets.randbits(63)\<close> the argument \<open>bits\<close>.
\<close>

section \<open>Conversions of Python values\<close>

definition digit_value :: "char \<Rightarrow> int option" where
  "digit_value c = (let n = (of_char c :: nat) in
     if 48 \<le> n \<and> n \<le> 57 then Some (int n - 48) else None)"

fun parse_digits :: "int \<Rightarrow> bool \<Rightarrow> string \<Rightarrow> int option" where
  "parse_digits acc digit [] = (if digit then Some acc else None)"
| "parse_digits acc digit (c # cs) =
     (case digit_value c of
        Some d \<Rightarrow> parse_digits (acc * 10 + d) True cs
      | None \<Rightarrow> if c = CHR ''_'' \<and> digit then parse_digits acc False cs else None)"

definition py_isspace :: "char \<Rightarrow> bool" where
  "py_isspace c = (let n = (of_char c :: nat) in
     (9 \<le> n \<and> n \<le> 13) \<or> (28 \<le> n \<and> n \<le> 32) \<or> n = 133 \<or> n = 160)"

definition py_strip :: "string \<Rightarrow> string" where
  "py_strip s = rev (dropWhile py_isspace (rev (dropWhile py_isspace s)))"

definition parse_int :: "string \<Rightarrow> int option" where
  "parse_int s = (case py_strip s of
       [] \<Rightarrow> None
     | c # cs \<Rightarrow> if c = CHR ''-'' then map_option uminus (parse_digits 0 False cs)
                else if c = CHR ''+'' then parse_digits 0 False cs
                else parse_digits 0 False (c # cs))"

text \<open>\<open>int(v)\<close>\<close>

fun py_int :: "py_val \<Rightarrow> int result" where
  "py_int (PInt n) = Inr n"
| "py_int (PBool b) = Inr (if b then 1 else 0)"
| "py_int (PFloat (Fin q)) = Inr (if 0 \<le> q then \<lfloor>q\<rfloor> else \<lceil>q\<rceil>)"
| "py_int (PFloat _) = Inl OverflowError"
| "py_int PNan = Inl (ValueError ''cannot convert float NaN to integer'')"
| "py_int (PStr s) = (case parse_int s of Some n \<Rightarrow> Inr n
     | None \<Rightarrow> Inl (ValueError ''invalid literal for int()''))"
| "py_int PNone = Inl (TypeError ''int() argument'')"
| "py_int (PList vs) = Inl (TypeError ''int() argument'')"

text \<open>\<open>bool(v)\<close>\<close>

fun py_bool :: "py_val \<Rightarrow> bool" where
  "py_bool PNone = False"
| "py_bool (PBool b) = b"
| "py_bool (PInt n) = (n \<noteq> 0)"
| "py_bool (PFloat x) = (x \<noteq> Fin 0)"
| "py_bool PNan = True"
| "py_bool (PStr s) = (s \<noteq> [])"
| "py_bool (PList vs) = (vs \<noteq> [])"

text \<open>The numeric value that \<open>==\<close> compares: booleans are integers, integers equal floats.\<close>

fun py_num :: "py_val \<Rightarrow> rat option" where
  "py_num (PBool b) = Some (if b then 1 else 0)"
| "py_num (PInt n) = Some (of_int n)"
| "py_num (PFloat (Fin q)) = Some q"
| "py_num _ = None"

definition params_get :: "params \<Rightarrow> string \<Rightarrow> py_val \<Rightarrow> py_val" where
  "params_get ps k dflt = (case map_of ps k of None \<Rightarrow> dflt | Some v \<Rightarrow> v)"

text \<open>\<open>d | e\<close>: the entries of \<open>e\<close> win.\<close>

definition dict_union :: "('k, 'v) pydict \<Rightarrow> ('k, 'v) pydict \<Rightarrow> ('k, 'v) pydict" where
  "dict_union d e = fold (\<lambda>(k, v). dict_set k v) e d"

text \<open>\<open>str(rid)\<close>: a string is itself, a list prints as its \<open>repr\<close>.\<close>

definition hex_digit :: "nat \<Rightarrow> char" where
  "hex_digit n = ''0123456789abcdef'' ! (n mod 16)"

definition repr_char :: "char \<Rightarrow> char \<Rightarrow> string" where
  "repr_char q c = (let n = (of_char c :: nat) in
     if c = q \<or> n = 92 then [char_of (92::nat), c]
     else if n = 9 then [char_of (92::nat), CHR ''t'']
     else if n = 10 then [char_of (92::nat), CHR ''n'']
     else if n = 13 then [char_of (92::nat), CHR ''r'']
     else if n < 32 \<or> (127 \<le> n \<and> n \<le> 160) \<or> n = 173
       then [char_of (92::nat), CHR ''x'', hex_digit (n div 16), hex_digit n]
     else [c])"

definition repr_str :: "string \<Rightarrow> string" where
  "repr_str s = (let single = char_of (39::nat); double = char_of (34::nat);
       q = (if single \<in> set s \<and> double \<notin> set s then double else single)
     in [q] @ concat (map (repr_char q) s) @ [q])"

fun join_with :: "string \<Rightarrow> string list \<Rightarrow> string" where
  "join_with sep [] = []"
| "join_with sep [x] = x"
| "join_with sep (x # y # xs) = x @ sep @ join_with sep (y # xs)"

definition py_str_rid :: "rid_input \<Rightarrow> string" where
  "py_str_rid r = (case r of RidStr s \<Rightarrow> s
     | RidList rs \<Rightarrow> ''['' @ join_with '', '' (map repr_str rs) @ '']'')"

section \<open>Sampling parameters\<close>

definition is_number :: "py_val \<Rightarrow> bool" where
  "is_number v = (case v of PInt n \<Rightarrow> True | PFloat x \<Rightarrow> True | PNan \<Rightarrow> True | _ \<Rightarrow> False)"

definition seed_ok :: "py_val \<Rightarrow> bool" where
  "seed_ok v = (case v of PNone \<Rightarrow> True | PInt n \<Rightarrow> 0 \<le> n \<and> n < 2 ^ 63 | _ \<Rightarrow> False)"

definition validate_sampling_params :: "params \<Rightarrow> unit result" where
  "validate_sampling_params ps =
     (let temperature = params_get ps ''temperature'' (PFloat (Fin 0));
          seed = params_get ps ''seed'' PNone
      in if \<not> is_number temperature
         then Inl (ValueError ''temperature must be a finite non-negative number'')
         else case py_num temperature of
           None \<Rightarrow> Inl (ValueError ''temperature must be a finite non-negative number'')
         | Some q \<Rightarrow>
             if q < 0 then Inl (ValueError ''temperature must be a finite non-negative number'')
             else if \<not> seed_ok seed then Inl (ValueError ''seed must be an integer in [0, 2**63)'')
             else if py_num (params_get ps ''top_p'' (PFloat (Fin 1))) \<noteq> Some 1
                \<or> py_num (params_get ps ''top_k'' (PInt (- 1))) \<notin> {Some (- 1), Some 0}
             then Inl (ValueError ''Nemotron supports temperature sampling with top_p=1 and no top_k filter'')
             else if py_num (params_get ps ''frequency_penalty'' (PFloat (Fin 0))) \<noteq> Some 0
             then Inl (ValueError ''Nemotron does not support frequency_penalty'')
             else if py_num (params_get ps ''presence_penalty'' (PFloat (Fin 0))) \<noteq> Some 0
             then Inl (ValueError ''Nemotron does not support presence_penalty'')
             else Inr ())"

section \<open>InputProcessor\<close>

text \<open>The fields of \<open>ServerArgs\<close> (utils/server_args.py) that the engine reads.\<close>

record server_args =
  sa_max_num_seqs :: nat
  sa_max_model_len :: int
  sa_generation_block_size :: int
  sa_sampling_defaults :: "params option"
  sa_speculative_context_margin :: int

definition resolve_params :: "server_args \<Rightarrow> int \<Rightarrow> params \<Rightarrow> params result" where
  "resolve_params sa bits ps =
     (case sa_sampling_defaults sa of
        None \<Rightarrow> Inr ps
      | Some defaults \<Rightarrow>
          (let ps1 = dict_union defaults ps in
           result_bind (validate_sampling_params ps1) (\<lambda>_.
             Inr (if params_get ps1 ''seed'' PNone = PNone
                  then dict_set ''seed'' (PInt bits) ps1 else ps1))))"

definition gen_block :: "server_args \<Rightarrow> int" where
  "gen_block sa = max 1 (sa_generation_block_size sa)"

definition usable_context :: "server_args \<Rightarrow> nat \<Rightarrow> int" where
  "usable_context sa n =
     (sa_max_model_len sa - int n - sa_speculative_context_margin sa) div gen_block sa * gen_block sa"

definition make_state ::
    "server_args \<Rightarrow> (string \<Rightarrow> int list) \<Rightarrow> int \<Rightarrow> rat \<Rightarrow> req_item \<Rightarrow> request_state result" where
  "make_state sa encode bits now it =
     (let prompt_text = (case it_text it of None \<Rightarrow> [] | Some s \<Rightarrow> s);
          input_ids = (case it_input_ids it of None \<Rightarrow> encode prompt_text | Some xs \<Rightarrow> xs)
      in result_bind (resolve_params sa bits (it_params it)) (\<lambda>params.
         if sa_max_model_len sa - int (length input_ids) \<le> 0
         then Inl (ValueError ''request input length exceeds max_model_len'')
         else if usable_context sa (length input_ids) \<le> 0
         then Inl (ValueError ''request input length does not leave room for a generation block'')
         else result_bind
           (py_int (params_get params ''max_tokens'' (params_get params ''max_new_tokens'' (PInt 128))))
           (\<lambda>n. Inr (fresh_request_state now (py_str_rid (it_rid it)) input_ids
              (max 1 (min n (usable_context sa (length input_ids))))
              (py_bool (params_get params ''ignore_eos'' (PBool False))) prompt_text params))))"

definition make_states ::
    "server_args \<Rightarrow> (string \<Rightarrow> int list) \<Rightarrow> (nat \<Rightarrow> int) \<Rightarrow> rat \<Rightarrow> (nat \<Rightarrow> string) \<Rightarrow> gen_req
      \<Rightarrow> request_state list result" where
  "make_states sa encode bits now uuid r =
     result_bind (iter_items uuid r) (\<lambda>items.
       result_map (\<lambda>(i, it). make_state sa encode (bits i) now it) (enumerate 0 items))"

section \<open>OutputProcessor\<close>

definition make_output ::
    "rat \<Rightarrow> request_state \<Rightarrow> int list \<Rightarrow> string \<Rightarrow> string option \<Rightarrow> request_state \<times> gen_output" where
  "make_output now st token_ids text finish_reason =
     (let st1 = st\<lparr>rs_output_ids := rs_output_ids st @ token_ids,
                   rs_decoded_text := rs_decoded_text st @ text\<rparr>;
          st2 = (if finish_reason \<noteq> None
                 then st1\<lparr>rs_finished_reason := finish_reason, rs_completed_time := Some now\<rparr>
                 else st1)
      in (st2, \<lparr> go_rid = rs_rid st2, go_text = text, go_token_ids = token_ids,
                 go_finish_reason = rs_finished_reason st2, go_error = None,
                 go_meta = (if rs_finished st2 then Some (output_metadata st2) else None) \<rparr>))"

definition make_error_output :: "rat \<Rightarrow> request_state \<Rightarrow> string \<Rightarrow> request_state \<times> gen_output" where
  "make_error_output now st err =
     (let st1 = st\<lparr>rs_finished_reason := Some ''error'', rs_completed_time := Some now\<rparr>
      in (st1, \<lparr> go_rid = rs_rid st1, go_text = [], go_token_ids = [],
                 go_finish_reason = Some ''error'', go_error = Some err,
                 go_meta = Some (output_metadata st1) \<rparr>))"

definition make_abort_output :: "rat \<Rightarrow> request_state \<Rightarrow> string \<Rightarrow> request_state \<times> gen_output" where
  "make_abort_output now st reason =
     (let st1 = st\<lparr>rs_finished_reason := Some ''abort'', rs_completed_time := Some now\<rparr>
      in (st1, \<lparr> go_rid = rs_rid st1, go_text = [], go_token_ids = [],
                 go_finish_reason = Some ''abort'', go_error = Some reason,
                 go_meta = Some (output_metadata st1) \<rparr>))"


section \<open>Lemmas\<close>

lemma gen_block_pos [simp]: "0 < gen_block sa" "\<not> gen_block sa < 0"
  by (simp_all add: gen_block_def)

lemma usable_context_le:
  "usable_context sa n \<le> sa_max_model_len sa - int n - sa_speculative_context_margin sa"
  using pos_mod_sign [OF gen_block_pos(1) [of sa]]
  by (simp add: usable_context_def minus_mod_eq_div_mult [symmetric])

lemma usable_context_pos_iff:
  "0 < usable_context sa n \<longleftrightarrow>
     gen_block sa \<le> sa_max_model_len sa - int n - sa_speculative_context_margin sa"
  by (auto simp: usable_context_def zero_less_mult_iff pos_imp_zdiv_pos_iff)

text \<open>The generation budget of a state, rounded up to whole generation blocks.\<close>

definition block_budget :: "server_args \<Rightarrow> request_state \<Rightarrow> int" where
  "block_budget sa st = (rs_max_new_tokens st + gen_block sa - 1) div gen_block sa * gen_block sa"

lemma round_up_le_multiple:
  assumes "0 < (g::int)" and "n \<le> k * g"
  shows "(n + g - 1) div g * g \<le> k * g"
proof -
  have "(n + g - 1) div g \<le> (k * g + g - 1) div g" by (rule zdiv_mono1) (use assms in auto)
  also have "\<dots> = k" using assms(1) by (intro int_div_pos_eq [of _ _ _ "g - 1"]) auto
  finally show ?thesis using assms(1) by simp
qed

lemma make_state_Inr:
  assumes "make_state sa encode bits now it = Inr st"
  shows "1 \<le> rs_max_new_tokens st"
    and "rs_max_new_tokens st \<le> usable_context sa (length (rs_input_ids st))"
    and "rs_input_ids st = (case it_input_ids it of
          None \<Rightarrow> encode (case it_text it of None \<Rightarrow> [] | Some s \<Rightarrow> s) | Some xs \<Rightarrow> xs)"
    and "resolve_params sa bits (it_params it) = Inr (rs_sampling_params st)"
    and "int (length (rs_input_ids st)) < sa_max_model_len sa"
    and "rs_rid st = py_str_rid (it_rid it)" "rs_queue st = []" "rs_finished_reason st = None"
    and "rs_scheduled_time st = None" "rs_output_ids st = []"
  using assms
  by (auto simp: make_state_def Let_def result_bind_eq_Inr fresh_request_state_def
      split: if_splits)

lemma make_output_fields [simp]:
  "rs_rid (fst (make_output now st ts tx fr)) = rs_rid st"
  "rs_queue (fst (make_output now st ts tx fr)) = rs_queue st"
  "rs_scheduled_time (fst (make_output now st ts tx fr)) = rs_scheduled_time st"
  "rs_output_ids (fst (make_output now st ts tx fr)) = rs_output_ids st @ ts"
  "rs_finished (fst (make_output now st ts tx fr)) = (fr \<noteq> None \<or> rs_finished st)"
  "go_finished (snd (make_output now st ts tx fr)) = (fr \<noteq> None \<or> rs_finished st)"
  "go_token_ids (snd (make_output now st ts tx fr)) = ts"
  "go_text (snd (make_output now st ts tx fr)) = tx"
  by (auto simp: make_output_def rs_finished_def go_finished_def Let_def)

lemma make_error_output_fields [simp]:
  "rs_rid (fst (make_error_output now st e)) = rs_rid st"
  "rs_queue (fst (make_error_output now st e)) = rs_queue st"
  "rs_scheduled_time (fst (make_error_output now st e)) = rs_scheduled_time st"
  "rs_output_ids (fst (make_error_output now st e)) = rs_output_ids st"
  "rs_finished (fst (make_error_output now st e))"
  "go_finished (snd (make_error_output now st e))"
  "go_token_ids (snd (make_error_output now st e)) = []"
  by (simp_all add: make_error_output_def rs_finished_def go_finished_def Let_def)

lemma make_abort_output_fields [simp]:
  "rs_rid (fst (make_abort_output now st e)) = rs_rid st"
  "rs_queue (fst (make_abort_output now st e)) = rs_queue st"
  "rs_scheduled_time (fst (make_abort_output now st e)) = rs_scheduled_time st"
  "rs_output_ids (fst (make_abort_output now st e)) = rs_output_ids st"
  "rs_finished (fst (make_abort_output now st e))"
  "go_finished (snd (make_abort_output now st e))"
  "go_token_ids (snd (make_abort_output now st e)) = []"
  by (simp_all add: make_abort_output_def rs_finished_def go_finished_def Let_def)

section \<open>Properties\<close>

text \<open>The server arguments and the item of the witnesses below.\<close>

definition ex_args :: server_args where
  "ex_args = \<lparr> sa_max_num_seqs = 2, sa_max_model_len = 64, sa_generation_block_size = 16,
     sa_sampling_defaults = Some [(''temperature'', PFloat (Fin 0))],
     sa_speculative_context_margin = 8 \<rparr>"

definition ex_item :: req_item where
  "ex_item = \<lparr> it_rid = RidStr ''r'', it_text = None, it_input_ids = Some [7, 8, 9],
     it_params = [(''max_tokens'', PInt 40)] \<rparr>"

definition ex_state :: request_state where
  "ex_state = fresh_request_state 5 ''r'' [7, 8, 9] 40 False []
     [(''temperature'', PFloat (Fin 0)), (''max_tokens'', PInt 40), (''seed'', PInt 77)]"

lemma ex_make_state: "make_state ex_args (\<lambda>s. []) 77 5 ex_item = Inr ex_state"
  by (simp add: make_state_def ex_args_def ex_item_def ex_state_def resolve_params_def
      dict_union_def dict_set_def validate_sampling_params_def params_get_def is_number_def
      seed_ok_def usable_context_def gen_block_def py_str_rid_def Let_def)

text \<open>
  C37: Every request the frontend accepts fits the model context: its budget is at least one
  token, and the prompt, the budget rounded up to whole generation blocks and the speculative
  margin together stay within \<open>max_model_len\<close>.
\<close>

theorem make_state_fits_context:
  assumes "make_state sa encode bits now it = Inr st"
  shows "1 \<le> rs_max_new_tokens st
    \<and> rs_max_new_tokens st \<le> block_budget sa st
    \<and> int (prompt_token_count st) + block_budget sa st + sa_speculative_context_margin sa
        \<le> sa_max_model_len sa"
proof -
  let ?g = "gen_block sa" and ?n = "rs_max_new_tokens st"
  have "block_budget sa st \<le> usable_context sa (length (rs_input_ids st))"
    using round_up_le_multiple [OF gen_block_pos(1)] make_state_Inr(2) [OF assms]
    by (simp add: block_budget_def usable_context_def)
  also note usable_context_le
  finally have "int (prompt_token_count st) + block_budget sa st
      + sa_speculative_context_margin sa \<le> sa_max_model_len sa"
    by (simp add: prompt_token_count_def)
  moreover have "?n \<le> (?n + ?g - 1) div ?g * ?g"
    using pos_mod_bound [OF gen_block_pos(1) [of sa], of "?n + ?g - 1"]
    unfolding minus_mod_eq_div_mult [symmetric] by linarith
  ultimately show ?thesis using make_state_Inr(1) [OF assms] by (simp add: block_budget_def)
qed

theorem make_state_fits_context_witness:
  "int (prompt_token_count ex_state) + block_budget ex_args ex_state
     + sa_speculative_context_margin ex_args \<le> sa_max_model_len ex_args"
  using make_state_fits_context [OF ex_make_state] by simp

text \<open>
  The frontend rejects a request for its length exactly when no whole generation block
  fits: with parameters that validate and an integer budget, \<open>make_state\<close> raises if and
  only if prompt, margin and one block exceed \<open>max_model_len\<close>.
\<close>

lemma make_state_rejects_exactly:
  assumes "0 \<le> sa_speculative_context_margin sa"
    and "resolve_params sa bits (it_params it) = Inr ps"
    and "py_int (params_get ps ''max_tokens'' (params_get ps ''max_new_tokens'' (PInt 128))) = Inr n"
    and "it_input_ids it = Some ids"
  shows "is_ok (make_state sa encode bits now it) \<longleftrightarrow>
     int (length ids) + sa_speculative_context_margin sa + gen_block sa \<le> sa_max_model_len sa"
proof -
  have "gen_block sa > 0" by simp
  with assms(1) show ?thesis
    using usable_context_pos_iff [of sa "length ids"] assms(2-4)
    by (auto simp: make_state_def Let_def simp del: gen_block_pos)
qed

lemma make_state_rejects_exactly_witness:
  "\<not> is_ok (make_state (ex_args\<lparr>sa_max_model_len := 26\<rparr>) (\<lambda>s. []) 77 5 ex_item)"
  using make_state_rejects_exactly [of "ex_args\<lparr>sa_max_model_len := 26\<rparr>" 77 ex_item
      "[(''temperature'', PFloat (Fin 0)), (''max_tokens'', PInt 40), (''seed'', PInt 77)]" 40
      "[7, 8, 9]" "\<lambda>s. []" 5]
  by (simp add: ex_args_def ex_item_def resolve_params_def dict_union_def dict_set_def
      validate_sampling_params_def params_get_def is_number_def seed_ok_def gen_block_def Let_def)

text \<open>
  When the model has sampling defaults, every accepted request carries an explicit seed in
  \<open>[0, 2^63)\<close> and a finite temperature that is not negative, so that all ranks replay the same
  random stream.
\<close>

lemma make_state_resolves_seed:
  assumes "make_state sa encode bits now it = Inr st"
    and "sa_sampling_defaults sa = Some defaults" and "0 \<le> bits" and "bits < 2 ^ 63"
  shows "(\<exists>n. map_of (rs_sampling_params st) ''seed'' = Some (PInt n) \<and> 0 \<le> n \<and> n < 2 ^ 63)
    \<and> (\<exists>q \<ge> 0. py_num (params_get (rs_sampling_params st) ''temperature'' (PFloat (Fin 0))) = Some q)"
proof -
  define ps1 where "ps1 = dict_union defaults (it_params it)"
  have v: "validate_sampling_params ps1 = Inr ()"
    and ps: "rs_sampling_params st = (if params_get ps1 ''seed'' PNone = PNone
        then dict_set ''seed'' (PInt bits) ps1 else ps1)"
    using make_state_Inr(4) [OF assms(1)] assms(2)
    by (auto simp: resolve_params_def ps1_def Let_def result_bind_eq_Inr)
  have seed: "seed_ok (params_get ps1 ''seed'' PNone)"
    and temp: "\<exists>q \<ge> 0. py_num (params_get ps1 ''temperature'' (PFloat (Fin 0))) = Some q"
    using v by (auto simp: validate_sampling_params_def Let_def split: if_splits option.splits)
  have "\<exists>n. map_of (rs_sampling_params st) ''seed'' = Some (PInt n) \<and> 0 \<le> n \<and> n < 2 ^ 63"
    using seed ps assms(3,4)
    by (auto simp: params_get_def seed_ok_def split: option.splits py_val.splits if_splits)
  moreover have "params_get (rs_sampling_params st) ''temperature'' (PFloat (Fin 0))
      = params_get ps1 ''temperature'' (PFloat (Fin 0))"
    using ps by (simp add: params_get_def)
  ultimately show ?thesis using temp by simp
qed

lemma make_state_resolves_seed_witness:
  "\<exists>n. map_of (rs_sampling_params ex_state) ''seed'' = Some (PInt n) \<and> 0 \<le> n \<and> n < 2 ^ 63"
  using make_state_resolves_seed [OF ex_make_state, of "[(''temperature'', PFloat (Fin 0))]"]
  by (simp add: ex_args_def)

end
