(* ===== verification/Executor.thy ===== *)
theory Executor
  imports Processor
begin

text \<open>
  The single-process executor (engine/executor.py).  A runner is the record of the attributes
  the executor reads or sets, plus an opaque rest of type \<open>'r\<close>; its \<open>generate\<close> method is an
  argument that maps the runner and the padded prompt to the runner afterwards and the output
  tensor or an exception.  The tokenizer's \<open>decode\<close> is an argument too.
\<close>

record exec_result =
  er_rid :: rid
  er_token_ids :: "int list"
  er_text :: string
  er_finish_reason :: string

record step_result =
  sr_rid :: rid
  sr_token_ids :: "int list"
  sr_text :: string
  sr_finished :: bool
  sr_finish_reason :: "string option"
  sr_reserve_tokens :: nat
  sr_decode_block_completed :: bool

record 'r runner =
  rn_gen_length :: int
  rn_early_stop :: bool
  rn_mask_id :: int
  rn_eos_ids :: "int list"
  rn_requires_prompt_lengths :: bool
  rn_supports_request_sampling :: bool
  rn_rest :: 'r

text \<open>The keyword arguments of a call of \<open>generate\<close>.\<close>

record gen_extra =
  gx_prompt_lengths :: "nat list option"
  gx_sampling_params :: "params list option"
  gx_generation_lengths :: "int list option"

type_synonym 'r generate_fn =
  "'r runner \<Rightarrow> int list list \<Rightarrow> gen_extra \<Rightarrow> 'r runner \<times> int list list result"

section \<open>execute_batch\<close>

definition prompt_ids :: "request_state \<Rightarrow> int list" where
  "prompt_ids req = rs_input_ids req @ rs_output_ids req"

definition max_prompt :: "request_state list \<Rightarrow> nat" where
  "max_prompt reqs = Max (set (map (\<lambda>req. length (prompt_ids req)) reqs))"

definition padded_prompt :: "int \<Rightarrow> request_state list \<Rightarrow> int list list" where
  "padded_prompt mask_id reqs =
     map (\<lambda>req. prompt_ids req @ replicate (max_prompt reqs - length (prompt_ids req)) mask_id) reqs"

definition configure_runner :: "request_state list \<Rightarrow> 'r runner \<Rightarrow> 'r runner" where
  "configure_runner reqs rn =
     (let rn1 = rn\<lparr>rn_gen_length := Max (set (map rs_max_new_tokens reqs))\<rparr>
      in if \<not> rn_supports_request_sampling rn1 \<and> list_ex rs_ignore_eos reqs
         then rn1\<lparr>rn_early_stop := False\<rparr> else rn1)"

definition generate_extra :: "request_state list \<Rightarrow> 'r runner \<Rightarrow> gen_extra" where
  "generate_extra reqs rn =
     (if rn_requires_prompt_lengths rn
      then if rn_supports_request_sampling rn
        then \<lparr> gx_prompt_lengths = Some (map (\<lambda>req. length (prompt_ids req)) reqs),
               gx_sampling_params = Some (map (\<lambda>req. dict_set ''ignore_eos''
                  (PBool (rs_ignore_eos req)) (rs_sampling_params req)) reqs),
               gx_generation_lengths = Some (map rs_max_new_tokens reqs) \<rparr>
        else \<lparr> gx_prompt_lengths = Some (map (\<lambda>req. length (prompt_ids req)) reqs),
               gx_sampling_params = None, gx_generation_lengths = None \<rparr>
      else \<lparr> gx_prompt_lengths = None, gx_sampling_params = None, gx_generation_lengths = None \<rparr>)"

definition restore_runner :: "'r runner \<Rightarrow> 'r runner \<Rightarrow> 'r runner" where
  "restore_runner original rn = rn\<lparr>rn_gen_length := rn_gen_length original,
                                   rn_early_stop := rn_early_stop original\<rparr>"

definition make_result ::
    "(int list \<Rightarrow> string) \<Rightarrow> int \<Rightarrow> int list \<Rightarrow> nat \<Rightarrow> request_state \<Rightarrow> int list \<Rightarrow> exec_result" where
  "make_result decode mask_id eos_ids mp req row =
     (let generated = slice mp (mp + nat (rs_max_new_tokens req)) row;
          first_eos = first_index (\<lambda>t. t \<in> set eos_ids) generated;
          cut = (case first_eos of
                   Some i \<Rightarrow> if rs_ignore_eos req then (generated, ''length'')
                             else (take i generated, ''stop'')
                 | None \<Rightarrow> (generated, ''length''));
          kept = (if rs_ignore_eos req then filter (\<lambda>t. t \<noteq> mask_id) (fst cut)
                  else filter (\<lambda>t. t \<noteq> mask_id \<and> t \<notin> set eos_ids) (fst cut))
      in \<lparr> er_rid = rs_rid req, er_token_ids = kept, er_text = decode kept,
           er_finish_reason = snd cut \<rparr>)"

definition execute_batch ::
    "'r generate_fn \<Rightarrow> (int list \<Rightarrow> string) \<Rightarrow> request_state list \<Rightarrow> 'r runner
      \<Rightarrow> 'r runner \<times> exec_result list result" where
  "execute_batch generate decode reqs rn =
     (if reqs = [] then (rn, Inr [])
      else let rn1 = configure_runner reqs rn;
               (rn2, output) = generate rn1 (padded_prompt (rn_mask_id rn) reqs) (generate_extra reqs rn1);
               rn3 = restore_runner rn rn2
           in (rn3, result_bind output (\<lambda>rows.
                 result_map (\<lambda>(i, req). result_bind (py_nth rows i)
                   (\<lambda>row. Inr (make_result decode (rn_mask_id rn3) (rn_eos_ids rn3)
                     (max_prompt reqs) req row))) (enumerate 0 reqs))))"

section \<open>Decode blocks\<close>

definition clip_to_block :: "nat \<Rightarrow> request_state \<Rightarrow> request_state" where
  "clip_to_block block_size req = req\<lparr>rs_max_new_tokens :=
     min (int block_size) (max 0 (rs_max_new_tokens req - int (completion_token_count req)))\<rparr>"

definition block_step_result :: "nat \<Rightarrow> request_state \<Rightarrow> exec_result option \<Rightarrow> step_result" where
  "block_step_result block_size req result =
     (case result of
        None \<Rightarrow> \<lparr> sr_rid = rs_rid req, sr_token_ids = [], sr_text = [], sr_finished = True,
                  sr_finish_reason = Some ''length'', sr_reserve_tokens = 0,
                  sr_decode_block_completed = False \<rparr>
      | Some res \<Rightarrow>
          let projected = int (completion_token_count req) + int (length (er_token_ids res));
              fin = (er_finish_reason res = ''stop'' \<or> projected \<ge> rs_max_new_tokens req)
          in \<lparr> sr_rid = rs_rid req, sr_token_ids = er_token_ids res, sr_text = er_text res,
               sr_finished = fin, sr_finish_reason = (if fin then Some (er_finish_reason res) else None),
               sr_reserve_tokens = (if fin then 0 else block_size),
               sr_decode_block_completed = False \<rparr>)"

text \<open>
  The requests are mutated for the call and restored in the \<open>finally\<close> block, so they are part
  of the result.
\<close>

definition execute_decode_block_batch ::
    "'r generate_fn \<Rightarrow> (int list \<Rightarrow> string) \<Rightarrow> request_state list \<Rightarrow> nat \<Rightarrow> 'r runner
      \<Rightarrow> 'r runner \<times> request_state list \<times> step_result list result" where
  "execute_decode_block_batch generate decode reqs block_size rn =
     (let original = map rs_max_new_tokens reqs;
          clipped = map (clip_to_block block_size) reqs;
          active = filter (\<lambda>req. 0 < rs_max_new_tokens req) clipped;
          (rn', batch) = execute_batch generate decode active rn;
          restored = map2 (\<lambda>req n. req\<lparr>rs_max_new_tokens := n\<rparr>) clipped original
      in (rn', restored, result_bind batch (\<lambda>results.
           let by_id = fold (\<lambda>res. dict_set (er_rid res) res) results []
           in Inr (map (\<lambda>req. block_step_result block_size req (map_of by_id (rs_rid req))) restored))))"

section \<open>Hooks of the runner\<close>

text \<open>
  Methods that a runner may lack (\<open>getattr\<close> with a default, \<open>hasattr\<close>).  A paged plan marks the
  request states it gets, so they come back with the runner.
\<close>

type_synonym stats = "(string, rat) pydict"

record ('op, 'r) exec_hooks =
  eh_prepare :: "('r runner \<Rightarrow> 'r runner \<times> stats result) option"
  eh_shutdown :: "('r runner \<Rightarrow> 'r runner \<times> unit result) option"
  eh_graph_stats :: "('r runner \<Rightarrow> stats) option"
  eh_num_forwards :: "('r runner \<Rightarrow> nat) option"
  eh_paged :: "('op \<Rightarrow> (rid, request_state) pydict \<Rightarrow> 'r runner
    \<Rightarrow> 'r runner \<times> (rid, request_state) pydict \<times> step_result list result) option"
  eh_release :: "(rid list \<Rightarrow> 'r runner \<Rightarrow> 'r runner) option"

definition executor_startup :: "('op, 'r) exec_hooks \<Rightarrow> 'r runner \<Rightarrow> 'r runner \<times> stats result" where
  "executor_startup H rn = (case eh_prepare H of None \<Rightarrow> (rn, Inr []) | Some prepare \<Rightarrow> prepare rn)"

definition executor_shutdown :: "('op, 'r) exec_hooks \<Rightarrow> 'r runner \<Rightarrow> 'r runner \<times> unit result" where
  "executor_shutdown H rn = (case eh_shutdown H of None \<Rightarrow> (rn, Inr ()) | Some shutdown \<Rightarrow> shutdown rn)"

definition executor_graph_stats :: "('op, 'r) exec_hooks \<Rightarrow> 'r runner \<Rightarrow> stats" where
  "executor_graph_stats H rn = (case eh_graph_stats H of None \<Rightarrow> [] | Some stats \<Rightarrow> stats rn)"

definition executor_runner_stats :: "('op, 'r) exec_hooks \<Rightarrow> 'r runner \<Rightarrow> stats" where
  "executor_runner_stats H rn =
     [(''num_forwards'', case eh_num_forwards H of None \<Rightarrow> 0 | Some n \<Rightarrow> of_nat (n rn))]"

definition execute_forward_plan ::
    "('op, 'r) exec_hooks \<Rightarrow> 'op \<Rightarrow> (rid, request_state) pydict \<Rightarrow> 'r runner
      \<Rightarrow> 'r runner \<times> (rid, request_state) pydict \<times> step_result list result" where
  "execute_forward_plan H op states_by_id rn =
     (case eh_paged H of
        Some plan \<Rightarrow> plan op states_by_id rn
      | None \<Rightarrow> (rn, states_by_id,
          Inl (RuntimeError ''paged scheduler_policy requires a runner with paged KV execution.'')))"

definition release_requests :: "('op, 'r) exec_hooks \<Rightarrow> rid list \<Rightarrow> 'r runner \<Rightarrow> 'r runner" where
  "release_requests H ids rn = (case eh_release H of None \<Rightarrow> rn | Some release \<Rightarrow> release ids rn)"

section \<open>Lemmas\<close>

lemma padded_prompt_rectangular:
  "row \<in> set (padded_prompt m reqs) \<Longrightarrow> length row = max_prompt reqs"
  by (auto simp: padded_prompt_def max_prompt_def)

lemma make_result_facts:
  shows "er_rid (make_result decode mask_id eos_ids mp req row) = rs_rid req"
    and "length (er_token_ids (make_result decode mask_id eos_ids mp req row)) \<le> nat (rs_max_new_tokens req)"
    and "mask_id \<notin> set (er_token_ids (make_result decode mask_id eos_ids mp req row))"
    and "\<not> rs_ignore_eos req \<Longrightarrow> set (er_token_ids (make_result decode mask_id eos_ids mp req row)) \<inter> set eos_ids = {}"
    and "er_finish_reason (make_result decode mask_id eos_ids mp req row) \<in> {''stop'', ''length''}"
proof -
  have le: "length (filter P (slice mp (mp + n) row)) \<le> n" for P :: "int \<Rightarrow> bool" and n row
    by (rule order_trans [OF length_filter_le]) simp
  have le_take: "length (filter P (take i (slice mp (mp + n) row))) \<le> n"
    for P :: "int \<Rightarrow> bool" and n i row
    by (rule order_trans [OF length_filter_le]) simp
  show "length (er_token_ids (make_result decode mask_id eos_ids mp req row)) \<le> nat (rs_max_new_tokens req)"
    by (auto simp: make_result_def Let_def le le_take split: option.splits)
qed (auto simp: make_result_def Let_def split: option.splits)

lemma execute_batch_results:
  assumes "execute_batch generate decode reqs rn = (rn', Inr results)"
  shows "length results = length reqs"
    and "i < length reqs \<Longrightarrow> \<exists>row mp. results ! i
      = make_result decode (rn_mask_id rn') (rn_eos_ids rn') mp (reqs ! i) row"
proof -
  show "length results = length reqs"
    using assms
    by (auto simp: execute_batch_def Let_def result_bind_eq_Inr split: if_splits prod.splits
        dest: result_map_Inr_length)
  assume i: "i < length reqs"
  then have "reqs \<noteq> []" by auto
  with assms obtain rows where "result_map (\<lambda>(i, req). result_bind (py_nth rows i)
      (\<lambda>row. Inr (make_result decode (rn_mask_id rn') (rn_eos_ids rn') (max_prompt reqs) req row)))
      (enumerate 0 reqs) = Inr results"
    by (auto simp: execute_batch_def Let_def result_bind_eq_Inr split: prod.splits)
  from result_map_Inr_nth [OF this, of i] i show "\<exists>row mp. results ! i
      = make_result decode (rn_mask_id rn') (rn_eos_ids rn') mp (reqs ! i) row"
    by (auto simp: nth_enumerate_eq result_bind_eq_Inr dest!: sym [of "make_result _ _ _ _ _ _"])
qed

lemma dict_of_results:
  "map_of (fold (\<lambda>res. dict_set (er_rid res) res) results d) k = Some res \<Longrightarrow>
     (res \<in> set results \<and> er_rid res = k) \<or> map_of d k = Some res"
proof (induction results arbitrary: d)
  case (Cons x results)
  from Cons.IH [of "dict_set (er_rid x) x d"] Cons.prems show ?case
    by (auto split: if_splits)
qed simp

lemma clip_restore: "map2 (\<lambda>req n. req\<lparr>rs_max_new_tokens := n\<rparr>) (map (clip_to_block b) reqs)
    (map rs_max_new_tokens reqs) = reqs"
  by (rule nth_equalityI) (simp_all add: clip_to_block_def)

section \<open>Properties\<close>

text \<open>The runner and the generation function of the witnesses below.\<close>

definition ex_runner :: "unit runner" where
  "ex_runner = \<lparr> rn_gen_length = 64, rn_early_stop = True, rn_mask_id = 99, rn_eos_ids = [50, 51],
     rn_requires_prompt_lengths = False, rn_supports_request_sampling = False, rn_rest = () \<rparr>"

definition ex_generate :: "unit generate_fn" where
  "ex_generate rn prompt extra = (rn, Inr (map (\<lambda>row. row @ [5, 6, 51, 7]) prompt))"

lemma ex_batch: "execute_batch ex_generate (\<lambda>ts. []) [ex_state] ex_runner
  = (ex_runner, Inr [\<lparr> er_rid = ''r'', er_token_ids = [5, 6], er_text = [], er_finish_reason = ''stop'' \<rparr>])"
  by (simp add: execute_batch_def ex_generate_def ex_runner_def ex_state_def fresh_request_state_def
      configure_runner_def padded_prompt_def prompt_ids_def max_prompt_def restore_runner_def
      make_result_def py_nth_def slice_def Let_def)

text \<open>
  C35: A batch returns exactly one result per request, in order and under its id; a result has
  at most the requested number of tokens, never a mask token, and no EOS token unless the
  request asked to ignore EOS.
\<close>

theorem execute_batch_sound:
  assumes "execute_batch generate decode reqs rn = (rn', Inr results)"
  shows "map er_rid results = map rs_rid reqs
    \<and> (\<forall>i < length reqs.
         length (er_token_ids (results ! i)) \<le> nat (rs_max_new_tokens (reqs ! i))
       \<and> rn_mask_id rn' \<notin> set (er_token_ids (results ! i))
       \<and> (\<not> rs_ignore_eos (reqs ! i) \<longrightarrow>
            set (er_token_ids (results ! i)) \<inter> set (rn_eos_ids rn') = {}))"
proof -
  note len = execute_batch_results(1) [OF assms]
  have each: "er_rid (results ! i) = rs_rid (reqs ! i)
      \<and> length (er_token_ids (results ! i)) \<le> nat (rs_max_new_tokens (reqs ! i))
      \<and> rn_mask_id rn' \<notin> set (er_token_ids (results ! i))
      \<and> (\<not> rs_ignore_eos (reqs ! i) \<longrightarrow>
           set (er_token_ids (results ! i)) \<inter> set (rn_eos_ids rn') = {})"
    if i: "i < length reqs" for i
  proof -
    obtain row mp where "results ! i
        = make_result decode (rn_mask_id rn') (rn_eos_ids rn') mp (reqs ! i) row"
      using execute_batch_results(2) [OF assms i] by blast
    then show ?thesis by (simp add: make_result_facts)
  qed
  moreover have "map er_rid results = map rs_rid reqs"
    by (rule nth_equalityI) (simp_all add: len each)
  ultimately show ?thesis by blast
qed

theorem execute_batch_sound_witness:
  "map er_rid [\<lparr> er_rid = ''r'', er_token_ids = [5, 6], er_text = [], er_finish_reason = ''stop'' \<rparr>]
    = map rs_rid [ex_state]"
  using execute_batch_sound [OF ex_batch] by (rule conjunct1)

text \<open>
  The generation length and the early-stop flag of the runner are restored after every
  batch, whether \<open>generate\<close> returned or raised, and whatever it did to them.
\<close>

lemma execute_batch_restores_config:
  "rn_gen_length (fst (execute_batch generate decode reqs rn)) = rn_gen_length rn
   \<and> rn_early_stop (fst (execute_batch generate decode reqs rn)) = rn_early_stop rn"
  by (simp add: execute_batch_def restore_runner_def Let_def split: prod.splits)

text \<open>
  A decode-block step never exceeds the budget of a request: the tokens produced so far and
  the new ones stay within \<open>max_new_tokens\<close>, a step produces at most one block, a request that
  is not finished keeps a whole block reserved, and the request objects come back unchanged.
\<close>

lemma decode_block_within_budget:
  assumes "execute_decode_block_batch generate decode reqs block_size rn = (rn', reqs', Inr results)"
    and "\<forall>req \<in> set reqs. int (completion_token_count req) \<le> rs_max_new_tokens req"
    and "distinct (map rs_rid reqs)"
  shows "reqs' = reqs \<and> map sr_rid results = map rs_rid reqs
    \<and> (\<forall>i < length reqs.
         int (completion_token_count (reqs ! i)) + int (length (sr_token_ids (results ! i)))
           \<le> rs_max_new_tokens (reqs ! i)
       \<and> length (sr_token_ids (results ! i)) \<le> block_size
       \<and> (\<not> sr_finished (results ! i) \<longrightarrow> sr_reserve_tokens (results ! i) = block_size))"
proof -
  let ?active = "filter (\<lambda>req. 0 < rs_max_new_tokens req) (map (clip_to_block block_size) reqs)"
  obtain batch where b: "execute_batch generate decode ?active rn = (rn', Inr batch)"
    and r: "reqs' = reqs"
    and res: "results = map (\<lambda>req. block_step_result block_size req
        (map_of (fold (\<lambda>res. dict_set (er_rid res) res) batch []) (rs_rid req))) reqs"
    using assms(1) unfolding execute_decode_block_batch_def Let_def clip_restore
    by (auto simp: result_bind_eq_Inr split: prod.splits)
  have fits: "int (length (er_token_ids x)) \<le> min (int block_size)
      (rs_max_new_tokens req - int (completion_token_count req))"
    if req: "req \<in> set reqs"
      and x: "map_of (fold (\<lambda>res. dict_set (er_rid res) res) batch []) (rs_rid req) = Some x"
    for req x
  proof -
    from dict_of_results [OF x] have "x \<in> set batch" "er_rid x = rs_rid req" by auto
    then obtain k where k: "k < length ?active" "batch ! k = x"
      using execute_batch_results(1) [OF b] by (metis in_set_conv_nth)
    obtain row mp where mk: "batch ! k
        = make_result decode (rn_mask_id rn') (rn_eos_ids rn') mp (?active ! k) row"
      using execute_batch_results(2) [OF b k(1)] by blast
    have "?active ! k \<in> set ?active" using k(1) by (rule nth_mem)
    then obtain req2 where req2: "req2 \<in> set reqs" "?active ! k = clip_to_block block_size req2"
      by auto
    have "rs_rid req2 = rs_rid req"
      using mk k(2) \<open>er_rid x = rs_rid req\<close> req2(2) make_result_facts(1)
      by (metis clip_to_block_def request_state.ext_inject request_state.surjective
          request_state.update_convs(3))
    then have "req2 = req" using assms(3) req req2(1) by (simp add: distinct_map inj_on_def)
    moreover have "length (er_token_ids x) \<le> nat (rs_max_new_tokens (?active ! k))"
      using mk k(2) make_result_facts(2) by metis
    ultimately show ?thesis using req2(2) assms(2) req by (auto simp: clip_to_block_def)
  qed
  have "map sr_rid results = map rs_rid reqs"
    by (auto simp: res block_step_result_def Let_def split: option.splits)
  moreover have "int (completion_token_count (reqs ! i)) + int (length (sr_token_ids (results ! i)))
           \<le> rs_max_new_tokens (reqs ! i)
       \<and> length (sr_token_ids (results ! i)) \<le> block_size
       \<and> (\<not> sr_finished (results ! i) \<longrightarrow> sr_reserve_tokens (results ! i) = block_size)"
    if i: "i < length reqs" for i
    using fits [OF nth_mem [OF i]] assms(2) nth_mem [OF i]
    by (force simp: res i block_step_result_def Let_def split: option.splits)
  ultimately show ?thesis using r by blast
qed

lemma decode_block_within_budget_witness:
  "\<exists>rn' results. execute_decode_block_batch ex_generate (\<lambda>ts. []) [ex_state] 16 ex_runner
      = (rn', [ex_state], Inr results) \<and> map sr_rid results = map rs_rid [ex_state]"
proof -
  have a: "\<exists>rn' reqs' results. execute_decode_block_batch ex_generate (\<lambda>ts. []) [ex_state] 16 ex_runner
      = (rn', reqs', Inr results)"
    by (simp add: execute_decode_block_batch_def execute_batch_def ex_generate_def ex_runner_def
        ex_state_def fresh_request_state_def configure_runner_def padded_prompt_def prompt_ids_def
        max_prompt_def restore_runner_def clip_to_block_def completion_token_count_def py_nth_def
        Let_def)
  have "\<forall>req \<in> set [ex_state]. int (completion_token_count req) \<le> rs_max_new_tokens req"
    "distinct (map rs_rid [ex_state])"
    by (simp_all add: ex_state_def fresh_request_state_def completion_token_count_def)
  with a decode_block_within_budget show ?thesis by (metis (no_types, lifting))
qed

end
