(* ===== verification/Paged_Plan.thy ===== *)
theory Paged_Plan
  imports Runner_Correct Executor
begin

text \<open>
  The paged forward plans of the LLaDA FlashInfer runner (execution/runners/llada/flashinfer.py):
  request slots, the fixed page pool, the metadata of a forward, prefill, and the decode loop of
  one block per request.  The runner is the state of the definitions, threaded through exceptions
  as well, because what a plan wrote before it raised stays written.  The attributes that do not
  change are a record: configuration, decoder, server arguments, the model's two forwards (they get
  the key/value tensors and write them in place), FlashInfer's \<open>get_batch_indices_positions\<close> and the
  tokenizer.  CUDA graphs are off: \<open>flashinfer_graph_runner\<close> is \<open>None\<close>.  Token ids in tensors are
  naturals.
\<close>

section \<open>State\<close>

text \<open>A forward operation of the scheduler; one row of each column per request.\<close>

record forward_op =
  fo_request_ids :: "rid list"
  fo_input_ids :: "int list"
  fo_input_lengths :: "int list"
  fo_extend_prefix_lens :: "int list"
  fo_occupied_pages :: "int list list"
  fo_num_extends :: int

record 'v plan_runner =
  pr_slots :: "(rid, nat) pydict"
  pr_kv :: "'v paged_kv option"
  pr_forwards :: nat

text \<open>The fields of a \<open>ForwardBatch\<close> that the paged builders set.\<close>

record fi_batch =
  fb_seq_ids :: "nat list"
  fb_slot_mapping :: "nat list list"
  fb_kv_lens :: "nat list"
  fb_q_offsets :: "nat list"
  fb_qo_indptr :: "nat list"
  fb_pages :: paged_meta
  fb_prefill_lens :: "nat list option"
  fb_append_indptr :: "nat list"
  fb_append_coords :: "nat list \<times> nat list"
  fb_block_length :: nat
  fb_page_size :: nat
  fb_paged_prefill :: bool
  fb_paged_decode :: bool

record 'v plan_env =
  pe_rc :: runner_config
  pe_dec :: llada_decoder
  pe_num_layers :: nat
  pe_max_length :: nat
  pe_max_num_seqs :: nat
  pe_device_pages :: int
  pe_zero :: 'v
  pe_sm :: "flt list \<Rightarrow> rat list"
  pe_gumbel :: "rat \<Rightarrow> flt list list \<Rightarrow> flt list list"
  pe_debug :: bool
  pe_prefill_fwd :: "fi_batch \<Rightarrow> token list list \<Rightarrow> nat list list \<Rightarrow> 'v list list \<Rightarrow> 'v list list"
  pe_decode_fwd :: "fi_batch \<Rightarrow> token list list \<Rightarrow> nat list list \<Rightarrow> 'v list list
    \<Rightarrow> 'v list list \<times> flt list list list \<times> 'v list list"
  pe_batch_coords :: "nat list \<Rightarrow> nat list \<Rightarrow> nat \<Rightarrow> nat list \<times> nat list"
  pe_decode_text :: "int list \<Rightarrow> string"

abbreviation pe_L :: "'v plan_env \<Rightarrow> nat" where "pe_L E \<equiv> rc_block_length (pe_rc E)"

text \<open>Sequencing of calls that change the runner and may raise.\<close>

definition try_bind :: "'s \<times> 'a result \<Rightarrow> ('s \<Rightarrow> 'a \<Rightarrow> 's \<times> 'b result) \<Rightarrow> 's \<times> 'b result" where
  "try_bind m f = (case m of (s, Inl e) \<Rightarrow> (s, Inl e) | (s, Inr a) \<Rightarrow> f s a)"

section \<open>Slots\<close>

definition paged_slot :: "nat \<Rightarrow> rid \<Rightarrow> (rid, nat) pydict \<Rightarrow> (rid, nat) pydict \<times> nat result" where
  "paged_slot max_num_seqs rid slots =
     (case map_of slots rid of
        Some slot \<Rightarrow> (slots, Inr slot)
      | None \<Rightarrow>
          (case find (\<lambda>slot. slot \<notin> set (map snd slots)) [0..<max_num_seqs] of
             Some slot \<Rightarrow> (dict_set rid slot slots, Inr slot)
           | None \<Rightarrow> (slots, Inl (RuntimeError ''paged scheduled more concurrent requests than max_num_seqs''))))"

fun paged_slots :: "nat \<Rightarrow> rid list \<Rightarrow> (rid, nat) pydict \<Rightarrow> (rid, nat) pydict \<times> nat list result" where
  "paged_slots n [] slots = (slots, Inr [])"
| "paged_slots n (rid # rids) slots =
     try_bind (paged_slot n rid slots) (\<lambda>slots1 slot.
     try_bind (paged_slots n rids slots1) (\<lambda>slots2 rest. (slots2, Inr (slot # rest))))"

definition release_paged_requests :: "rid list \<Rightarrow> 'v plan_runner \<Rightarrow> 'v plan_runner" where
  "release_paged_requests rids pr = pr\<lparr>pr_slots := fold dict_pop rids (pr_slots pr)\<rparr>"

section \<open>The page pool\<close>

definition use_flashinfer_paged_cache :: "runner_config \<Rightarrow> bool" where
  "use_flashinfer_paged_cache rc = (rc_attention_backend rc = ''flashinfer''
     \<and> rc_kv_cache_layout rc = ''paged'' \<and> rc_flashinfer_cache_mode rc = ''paged'')"

definition use_flashinfer_paged_prefill :: "runner_config \<Rightarrow> bool" where
  "use_flashinfer_paged_prefill rc =
     (use_flashinfer_paged_cache rc \<and> rc_flashinfer_prefill_mode rc = ''paged'')"

definition py_max :: "int list \<Rightarrow> int result" where
  "py_max xs = (if xs = [] then Inl (ValueError ''max() arg is an empty sequence'') else Inr (Max (set xs)))"

text \<open>The pages reserved behind those of the scheduler.\<close>

definition reserve_dummy_pages :: "runner_config \<Rightarrow> int \<Rightarrow> int result" where
  "reserve_dummy_pages rc page_size =
     result_bind (if rc_enable_decode_cuda_graph rc then py_max (map int (rc_supported_batch_sizes rc)) else Inr 0)
       (\<lambda>a. result_bind (py_max (rc_cuda_graph_capture_sizes rc)) (\<lambda>b.
         if page_size = 0 then Inl (ValueError ''integer division or modulo by zero'')
         else Inr (max a (b div page_size))))"

definition ensure_paged_kv_cache :: "'v plan_env \<Rightarrow> int \<Rightarrow> 'v plan_runner \<Rightarrow> 'v plan_runner \<times> unit result" where
  "ensure_paged_kv_cache E num_device_pages pr =
     (if \<not> use_flashinfer_paged_prefill (pe_rc E)
      then (pr, Inl (RuntimeError ''paged KV-page execution requires flashinfer paged cache and paged prefill.''))
      else if (case pr_kv pr of None \<Rightarrow> False
               | Some kv \<Rightarrow> num_device_pages \<le> int (kv_num_pages kv) \<and> pe_max_num_seqs E \<le> kv_batch_size kv)
      then (pr, Inr ())
      else case rc_page_size (pe_rc E) of
             None \<Rightarrow> (pr, Inl (TypeError ''int() argument must not be None''))
           | Some ps \<Rightarrow>
               (case result_bind (reserve_dummy_pages (pe_rc E) ps) (\<lambda>dummy.
                       kv_init (pe_zero E) (pe_num_layers E) (pe_max_num_seqs E) (int (pe_max_length E)) ps
                         (Some (nat num_device_pages)) (nat dummy)) of
                  Inl e \<Rightarrow> (pr, Inl e)
                | Inr kv \<Rightarrow> (pr\<lparr>pr_kv := Some kv\<rparr>, Inr ())))"

section \<open>Forward metadata\<close>

definition indptr :: "nat list \<Rightarrow> nat list" where
  "indptr lens = 0 # cumsum lens"

definition make_scheduler_paged_batch ::
  "'v plan_env \<Rightarrow> nat list \<Rightarrow> nat list \<Rightarrow> nat list \<Rightarrow> nat list \<Rightarrow> bool \<Rightarrow> 'v paged_kv \<Rightarrow> fi_batch result" where
  "make_scheduler_paged_batch E seq_ids q_offsets q_lens kv_lens is_prefill kv =
     result_bind (flashinfer_paged_metadata seq_ids (map int kv_lens) kv) (\<lambda>pages.
       let max_q_len = Max (set q_lens);
           positions = map2 (\<lambda>off len. map (\<lambda>i. min (off + i) (off + len - 1)) [0..<max_q_len]) q_offsets q_lens
       in result_bind (slot_mapping seq_ids positions kv) (\<lambda>slots.
          Inr \<lparr> fb_seq_ids = seq_ids, fb_slot_mapping = slots, fb_kv_lens = kv_lens, fb_q_offsets = q_offsets,
                fb_qo_indptr = indptr q_lens, fb_pages = pages,
                fb_prefill_lens = (if is_prefill then Some q_lens else None),
                fb_append_indptr = indptr q_lens,
                fb_append_coords = pe_batch_coords E (indptr q_lens) kv_lens (sum_list q_lens),
                fb_block_length = pe_L E, fb_page_size = kv_page_size kv,
                fb_paged_prefill = is_prefill, fb_paged_decode = (\<not> is_prefill) \<rparr>))"

text \<open>\<open>_make_decode_forward_batch\<close> in the paged cache mode: one block per sequence.\<close>

definition make_decode_forward_batch ::
  "'v plan_env \<Rightarrow> nat list \<Rightarrow> nat list \<Rightarrow> 'v paged_kv \<Rightarrow> fi_batch result" where
  "make_decode_forward_batch E seq_ids starts kv =
     (let L = pe_L E; kv_lens = map (\<lambda>s. s + L) starts; q_lens = replicate (length seq_ids) L
      in result_bind (flashinfer_paged_metadata seq_ids (map int kv_lens) kv) (\<lambda>pages.
         result_bind (slot_mapping seq_ids (map (\<lambda>s. map (\<lambda>i. s + i) [0..<L]) starts) kv) (\<lambda>slots.
         Inr \<lparr> fb_seq_ids = seq_ids, fb_slot_mapping = slots, fb_kv_lens = kv_lens, fb_q_offsets = starts,
               fb_qo_indptr = indptr q_lens, fb_pages = pages, fb_prefill_lens = None,
               fb_append_indptr = indptr q_lens,
               fb_append_coords = pe_batch_coords E (indptr q_lens) kv_lens (sum_list q_lens),
               fb_block_length = L, fb_page_size = kv_page_size kv,
               fb_paged_prefill = False, fb_paged_decode = True \<rparr>)))"

section \<open>Prefill\<close>

fun split_chunks :: "nat list \<Rightarrow> 'a list \<Rightarrow> 'a list list" where
  "split_chunks [] xs = []"
| "split_chunks (n # ns) xs = take n xs # split_chunks ns (drop n xs)"

text \<open>The checks of the rows of a prefill; \<open>None\<close> when there is nothing to compute.\<close>

definition plan_prefill_lengths :: "nat \<Rightarrow> forward_op \<Rightarrow> nat list option result" where
  "plan_prefill_lengths num_prefill op =
     (let lens = take num_prefill (fo_input_lengths op) in
      if length (fo_extend_prefix_lens op) \<noteq> num_prefill
      then Inl (RuntimeError ''paged prefill metadata mismatch'')
      else if sum_list lens \<noteq> int (length (fo_input_ids op))
      then Inl (RuntimeError ''paged prefill input_ids length mismatch'')
      else if list_all (\<lambda>n. n = 0) lens then Inr None
      else if list_ex (\<lambda>n. n \<le> 0) lens
      then Inl (RuntimeError ''mixed zero-length and non-empty paged prefill is unsupported'')
      else if length lens \<noteq> num_prefill then Inl (RuntimeError ''size mismatch'')
      else Inr (Some (map nat lens)))"

definition set_kv_data :: "'v list list \<Rightarrow> 'v plan_runner \<Rightarrow> 'v plan_runner" where
  "set_kv_data d pr = pr\<lparr>pr_kv := map_option (\<lambda>kv. kv\<lparr>kv_data := d\<rparr>) (pr_kv pr)\<rparr>"

definition execute_paged_prefill ::
  "'v plan_env \<Rightarrow> forward_op \<Rightarrow> nat \<Rightarrow> nat list \<Rightarrow> 'v plan_runner \<Rightarrow> 'v plan_runner \<times> unit result" where
  "execute_paged_prefill E op num_prefill slot_indices pr =
     (case plan_prefill_lengths num_prefill op of
        Inl e \<Rightarrow> (pr, Inl e)
      | Inr None \<Rightarrow> (pr, Inr ())
      | Inr (Some q_lens) \<Rightarrow>
          (case pr_kv pr of
             None \<Rightarrow> (pr, Inl (AttributeError ''past_key_values''))
           | Some kv \<Rightarrow>
               let max_q_len = Max (set q_lens);
                   tokens = map (\<lambda>chunk. chunk @ replicate (max_q_len - length chunk) (dec_mask_id (pe_dec E)))
                     (split_chunks q_lens (map nat (fo_input_ids op)));
                   seq_ids = take num_prefill slot_indices;
                   q_offsets = map nat (fo_extend_prefix_lens op);
                   position_ids = map (\<lambda>off. map (\<lambda>i. off + i) [0..<max_q_len]) q_offsets
               in case make_scheduler_paged_batch E seq_ids q_offsets q_lens (map2 (+) q_offsets q_lens) True kv of
                    Inl e \<Rightarrow> (pr, Inl e)
                  | Inr fb \<Rightarrow>
                      ((set_kv_data (pe_prefill_fwd E fb tokens position_ids (kv_data kv)) pr)
                         \<lparr>pr_forwards := pr_forwards pr + 1\<rparr>, Inr ())))"

section \<open>Decoding a block per request\<close>

record plan_loop =
  pl_rows :: "token list list"
  pl_start :: "nat list"
  pl_budget :: edit_budget
  pl_lev :: "lev_row list option"

text \<open>The commit of the finished rows of a batch; the writes before one that raises stay.\<close>

fun commit_rows :: "(nat \<times> nat \<times> 'v list) list \<Rightarrow> 'v paged_kv \<Rightarrow> 'v paged_kv \<times> unit result" where
  "commit_rows [] kv = (kv, Inr ())"
| "commit_rows ((seq, start, cells) # rest) kv =
     (case write_range seq (int start) cells kv of
        Inl e \<Rightarrow> (kv, Inl e)
      | Inr kv' \<Rightarrow> commit_rows rest kv')"

definition advance_rows ::
  "'v plan_env \<Rightarrow> nat \<Rightarrow> nat list \<Rightarrow> nat list \<Rightarrow> token list list \<Rightarrow> bool list \<Rightarrow> edit_budget \<Rightarrow> lev_row list option
    \<Rightarrow> plan_loop \<Rightarrow> plan_loop" where
  "advance_rows E total_length prompt_lengths seq_ids xs' fin eb lev pl =
     (let starts = map ((!) (pl_start pl)) seq_ids;
          start1 = scatter (pl_start pl) seq_ids (map2 (\<lambda>s f. s + (if f then pe_L E else 0)) starts fin);
          rows1 = scatter (pl_rows pl) seq_ids xs';
          eos = early_stop_rows (pe_rc E) (pe_dec E) (Some prompt_lengths) seq_ids rows1 start1 fin
      in \<lparr> pl_rows = rows1,
           pl_start = scatter start1 seq_ids
             (tabulate (length seq_ids) (\<lambda>k. if eos ! k then total_length else start1 ! (seq_ids ! k))),
           pl_budget = eb, pl_lev = lev \<rparr>)"

text \<open>The model on the current blocks of a batch: the blocks, the logits and the cells of the blocks.\<close>

definition decode_forward ::
  "'v plan_env \<Rightarrow> nat list \<Rightarrow> plan_loop \<Rightarrow> 'v plan_runner
    \<Rightarrow> 'v plan_runner \<times> (token list list \<times> flt list list list \<times> 'v list list) result" where
  "decode_forward E seq_ids pl pr =
     (let L = pe_L E; starts = map ((!) (pl_start pl)) seq_ids
      in try_bind (pr, gather_blocks (map ((!) (pl_rows pl)) seq_ids) starts L) (\<lambda>pr blocks.
         case pr_kv pr of
           None \<Rightarrow> (pr, Inl (RuntimeError ''FlashInfer paged cache mode requires PagedKVCache as past_key_values.''))
         | Some kv \<Rightarrow>
             try_bind (pr, make_decode_forward_batch E seq_ids starts kv) (\<lambda>pr fb.
             let (d, logits, cells) = pe_decode_fwd E fb blocks (map (\<lambda>s. map (\<lambda>i. i + s) [0..<L]) starts) (kv_data kv)
             in (set_kv_data d pr, Inr (blocks, take (length seq_ids) logits, cells)))))"

definition commit_finished :: "(nat \<times> nat \<times> 'v list) list \<Rightarrow> 'v plan_runner \<Rightarrow> 'v plan_runner \<times> unit result" where
  "commit_finished rows pr =
     (case pr_kv pr of
        None \<Rightarrow> (pr, Inl (AttributeError ''past_key_values''))
      | Some kv \<Rightarrow> (let (kv', r) = commit_rows rows kv in (pr\<lparr>pr_kv := Some kv'\<rparr>, r)))"

definition decode_selected_batch ::
  "'v plan_env \<Rightarrow> nat \<Rightarrow> nat list \<Rightarrow> nat list \<Rightarrow> plan_loop \<Rightarrow> 'v plan_runner \<Rightarrow> 'v plan_runner \<times> plan_loop result" where
  "decode_selected_batch E total_length prompt_lengths seq_ids pl pr =
     (let L = pe_L E; dec = pe_dec E;
          xs = map ((!) (pl_rows pl)) seq_ids; starts = map ((!) (pl_start pl)) seq_ids
      in try_bind (decode_forward E seq_ids pl pr) (\<lambda>pr (blocks, logits, cells).
         try_bind (pr, run_batch_decode (pe_sm E) (pe_gumbel E) (pe_debug E) dec L
             logits starts (row_length xs) xs seq_ids (Some prompt_lengths) (pl_budget pl) (pl_lev pl)) (\<lambda>pr (xs', lev).
         try_bind (pr, gather_blocks xs' starts L) (\<lambda>pr after.
         let had = map (\<lambda>b. any_row (is_mask (dec_mask_id dec) b)) blocks;
             ch = map2 (\<lambda>a b. a \<noteq> b) after blocks;
             fin = map2 (\<lambda>h c. \<not> h \<and> \<not> c) had ch in
         try_bind (pr, budget_update (pl_budget pl) seq_ids had ch fin) (\<lambda>pr eb.
         try_bind (commit_finished (map (\<lambda>k. (seq_ids ! k, starts ! k, cells ! k)) (nonzero fin)) pr) (\<lambda>pr _.
         (pr\<lparr>pr_forwards := pr_forwards pr + 1\<rparr>,
          Inr (advance_rows E total_length prompt_lengths seq_ids xs' fin eb lev pl))))))))"

text \<open>The bounded loop: \<open>for ... else raise\<close>.\<close>

fun plan_decode_loop ::
  "'v plan_env \<Rightarrow> nat \<Rightarrow> nat list \<Rightarrow> nat \<Rightarrow> nat list \<Rightarrow> plan_loop \<Rightarrow> 'v plan_runner \<Rightarrow> 'v plan_runner \<times> plan_loop result" where
  "plan_decode_loop E total_length prompt_lengths 0 pending pl pr =
     (pr, Inl (RuntimeError ''paged decode block did not finish within the iteration limit''))"
| "plan_decode_loop E total_length prompt_lengths (Suc n) pending pl pr =
     try_bind (decode_selected_batch E total_length prompt_lengths pending pl pr) (\<lambda>pr pl'.
       let unfinished = filter (\<lambda>s. pl_start pl' ! s = pl_start pl ! s) pending
       in if unfinished = [] then (pr, Inr pl')
          else plan_decode_loop E total_length prompt_lengths n unfinished pl' pr)"

definition max_decode_iters :: "'v plan_env \<Rightarrow> nat" where
  "max_decode_iters E = (case pe_dec E of
     Levenshtein_Decoder D _ \<Rightarrow> max_block_iters D
   | Joint_Decoder _ \<Rightarrow> pe_L E + nat (rc_max_post_steps (pe_rc E)) + 1
   | _ \<Rightarrow> pe_L E + 1)"

definition block_start_of :: "nat \<Rightarrow> request_state \<Rightarrow> nat" where
  "block_start_of L st = aligned_prefill_length st L + rs_current_decode_block st * L"

definition remaining_tokens :: "request_state \<Rightarrow> nat" where
  "remaining_tokens st = nat (max 0 (rs_max_new_tokens st - int (length (rs_output_ids st))))"

text \<open>The tokens of a request go to the front of the row of its slot; they have to fit.\<close>

definition put_tokens :: "nat \<times> request_state \<Rightarrow> token list list \<Rightarrow> token list list result" where
  "put_tokens sr rows =
     (let tokens = map nat (rs_input_ids (snd sr) @ rs_output_ids (snd sr)) in
      if length rows \<le> fst sr then Inl IndexError
      else if length (rows ! fst sr) < length tokens then Inl (RuntimeError ''shape mismatch'')
      else Inr (rows[fst sr := tokens @ drop (length tokens) (rows ! fst sr)]))"

definition plan_step_result :: "'v plan_env \<Rightarrow> rid \<Rightarrow> request_state \<Rightarrow> token list \<Rightarrow> step_result" where
  "plan_step_result E rid st row =
     (let L = pe_L E; eos_ids = map int (dec_eos_ids (pe_dec E)); mask_id = int (dec_mask_id (pe_dec E));
          block_start = block_start_of L st;
          generated_start = max block_start (length (rs_input_ids st));
          generated = take (remaining_tokens st) (map int (slice generated_start (block_start + L) row));
          stop_idx = (if rs_ignore_eos st then None else first_index (\<lambda>t. t \<in> set eos_ids) generated);
          cut = (case stop_idx of Some i \<Rightarrow> take i generated | None \<Rightarrow> generated);
          kept = (if rs_ignore_eos st then filter (\<lambda>t. t \<noteq> mask_id) cut
                  else filter (\<lambda>t. t \<noteq> mask_id \<and> t \<notin> set eos_ids) cut);
          projected = int (length (rs_output_ids st)) + int (length kept);
          finished = (stop_idx \<noteq> None \<or> projected \<ge> rs_max_new_tokens st)
      in \<lparr> sr_rid = rid, sr_token_ids = kept, sr_text = pe_decode_text E kept, sr_finished = finished,
           sr_finish_reason = (if stop_idx \<noteq> None then Some ''stop'' else if finished then Some ''length'' else None),
           sr_reserve_tokens = (if finished then 0 else L), sr_decode_block_completed = True \<rparr>)"

definition active_rows :: "forward_op \<Rightarrow> nat \<Rightarrow> (rid, request_state) pydict \<Rightarrow> nat list" where
  "active_rows op start d = filter (\<lambda>row. case map_of d (fo_request_ids op ! row) of
     None \<Rightarrow> False | Some st \<Rightarrow> \<not> rs_finished st) [start..<length (fo_request_ids op)]"

text \<open>The active rows with their slot and request state.\<close>

definition active_states ::
  "forward_op \<Rightarrow> nat \<Rightarrow> nat list \<Rightarrow> (rid, request_state) pydict \<Rightarrow> (nat \<times> request_state) list" where
  "active_states op start slot_indices d =
     map (\<lambda>row. (slot_indices ! row, the (map_of d (fo_request_ids op ! row)))) (active_rows op start d)"

text \<open>The tensors of the loop: the width of the token rows, the tokens, and the state of the first iteration.\<close>

definition plan_total :: "'v plan_env \<Rightarrow> (nat \<times> request_state) list \<Rightarrow> nat" where
  "plan_total E act = Max (set (map (\<lambda>(s, st). block_start_of (pe_L E) st + pe_L E) act))"

definition plan_tokens :: "'v plan_env \<Rightarrow> (nat \<times> request_state) list \<Rightarrow> token list list result" where
  "plan_tokens E act =
     result_fold put_tokens act (replicate (pe_max_num_seqs E) (replicate (plan_total E act) (dec_mask_id (pe_dec E))))"

definition plan_prompt_lengths :: "'v plan_env \<Rightarrow> (nat \<times> request_state) list \<Rightarrow> nat list" where
  "plan_prompt_lengths E act =
     scatter (replicate (pe_max_num_seqs E) 0) (map fst act) (map (\<lambda>(s, st). length (rs_input_ids st)) act)"

definition plan_loop_init :: "'v plan_env \<Rightarrow> (nat \<times> request_state) list \<Rightarrow> token list list \<Rightarrow> plan_loop" where
  "plan_loop_init E act tokens =
     (let (eb, lev) = make_decode_loop_state (pe_rc E) (pe_dec E) (pe_max_num_seqs E)
      in \<lparr> pl_rows = tokens,
           pl_start = scatter (replicate (pe_max_num_seqs E) 0) (map fst act) (map (\<lambda>(s, st). block_start_of (pe_L E) st) act),
           pl_budget = eb, pl_lev = lev \<rparr>)"

definition execute_paged_decode ::
  "'v plan_env \<Rightarrow> forward_op \<Rightarrow> nat \<Rightarrow> nat list \<Rightarrow> (rid, request_state) pydict \<Rightarrow> 'v plan_runner
    \<Rightarrow> 'v plan_runner \<times> step_result list result" where
  "execute_paged_decode E op start slot_indices d pr =
     (let rows = active_rows op start d; act = active_states op start slot_indices d
      in if rows = [] then (pr, Inr [])
         else try_bind (pr, plan_tokens E act) (\<lambda>pr tokens.
              try_bind (plan_decode_loop E (plan_total E act) (plan_prompt_lengths E act) (max_decode_iters E)
                  (map fst act) (plan_loop_init E act tokens) pr) (\<lambda>pr pl.
              (pr, Inr (map2 (\<lambda>row (s, st). plan_step_result E (fo_request_ids op ! row) st (pl_rows pl ! s))
                 rows act)))))"

section \<open>A forward plan\<close>

definition prefill_results :: "nat \<Rightarrow> forward_op \<Rightarrow> (rid, request_state) pydict \<Rightarrow> step_result list" where
  "prefill_results num_prefill op d =
     map (\<lambda>rid. \<lparr> sr_rid = rid, sr_token_ids = [], sr_text = [], sr_finished = False, sr_finish_reason = None,
                  sr_reserve_tokens = 0, sr_decode_block_completed = False \<rparr>)
       (filter (\<lambda>rid. map_of d rid \<noteq> None) (take num_prefill (fo_request_ids op)))"

definition mark_prefilled :: "rid list \<Rightarrow> (rid, request_state) pydict \<Rightarrow> (rid, request_state) pydict" where
  "mark_prefilled rids d = map (\<lambda>(r, st). (r, if r \<in> set rids then st\<lparr>rs_plan_prefill_done := True\<rparr> else st)) d"

text \<open>The body of the \<open>try\<close>: page tables, prefill, decode.  The states come back marked.\<close>

definition run_plan ::
  "'v plan_env \<Rightarrow> forward_op \<Rightarrow> nat list \<Rightarrow> (rid, request_state) pydict \<Rightarrow> 'v plan_runner
    \<Rightarrow> 'v plan_runner \<times> (rid, request_state) pydict \<times> step_result list result" where
  "run_plan E op slot_indices d pr =
     (case pr_kv pr of
        None \<Rightarrow> (pr, d, Inl (AttributeError ''past_key_values''))
      | Some kv \<Rightarrow>
          let (kv1, r1) = set_page_tables (map int slot_indices) (fo_occupied_pages op) kv;
              pr1 = pr\<lparr>pr_kv := Some kv1\<rparr>; num_prefill = nat (fo_num_extends op)
          in case r1 of Inl e \<Rightarrow> (pr1, d, Inl e)
             | Inr _ \<Rightarrow>
               (case (if num_prefill \<noteq> 0 then execute_paged_prefill E op num_prefill slot_indices pr1 else (pr1, Inr ())) of
                  (pr2, Inl e) \<Rightarrow> (pr2, d, Inl e)
                | (pr2, Inr _) \<Rightarrow>
                    let d2 = mark_prefilled (take num_prefill (fo_request_ids op)) d;
                        (pr3, r3) = (if num_prefill < length (fo_request_ids op)
                          then execute_paged_decode E op num_prefill slot_indices d2 pr2 else (pr2, Inr []))
                    in (pr3, d2, result_bind r3 (\<lambda>rs. Inr (prefill_results num_prefill op d @ rs)))))"

definition execute_paged_forward_plan ::
  "'v plan_env \<Rightarrow> forward_op \<Rightarrow> (rid, request_state) pydict \<Rightarrow> 'v plan_runner
    \<Rightarrow> 'v plan_runner \<times> (rid, request_state) pydict \<times> step_result list result" where
  "execute_paged_forward_plan E op d pr =
     (if \<not> use_flashinfer_paged_prefill (pe_rc E)
      then (pr, d, Inl (RuntimeError ''paged currently supports only FlashInfer paged KV execution''))
      else if pe_device_pages E \<le> 0
      then (pr, d, Inl (RuntimeError ''paged execution requires scheduler_num_device_pages''))
      else if fold max (concat (fo_occupied_pages op)) 0 \<ge> pe_device_pages E
      then (pr, d, Inl (RuntimeError ''scheduler page id exceeds the fixed CUDA-graph KV pool''))
      else case ensure_paged_kv_cache E (pe_device_pages E) pr of
             (pr1, Inl e) \<Rightarrow> (pr1, d, Inl e)
           | (pr1, Inr _) \<Rightarrow>
               (case paged_slots (pe_max_num_seqs E) (fo_request_ids op) (pr_slots pr1) of
                  (slots, Inl e) \<Rightarrow> (pr1\<lparr>pr_slots := slots\<rparr>, d, Inl e)
                | (slots, Inr slot_indices) \<Rightarrow>
                    let (pr2, d2, r) = run_plan E op slot_indices d (pr1\<lparr>pr_slots := slots\<rparr>)
                    in case r of
                         Inl e \<Rightarrow> (release_paged_requests (fo_request_ids op) pr2, d2, Inl e)
                       | Inr results \<Rightarrow>
                           (release_paged_requests (map sr_rid (filter sr_finished results)) pr2, d2, Inr results)))"
section \<open>Slots: invariant\<close>

lemma try_bind_simps [simp]:
  "try_bind (s, Inl e) f = (s, Inl e)" "try_bind (s, Inr a) f = f s a"
  by (simp_all add: try_bind_def)

lemma try_bind_fst: "(\<And>s a. g (fst (f s a)) = g s) \<Longrightarrow> g (fst (try_bind m f)) = g (fst m)"
  by (simp add: try_bind_def split: prod.split sum.split)

text \<open>Every request has one slot, no slot has two requests, and slots are rows of the batch.\<close>

definition slots_ok :: "nat \<Rightarrow> (rid, nat) pydict \<Rightarrow> bool" where
  "slots_ok n slots = (distinct (map fst slots) \<and> distinct (map snd slots) \<and> list_all (\<lambda>p. snd p < n) slots)"

lemma slots_ok_lookup:
  assumes "slots_ok n slots"
  shows "map_of slots r = Some s \<Longrightarrow> s < n"
    and "map_of slots r = Some s \<Longrightarrow> map_of slots r' = Some s \<Longrightarrow> r = r'"
proof -
  show "s < n" if "map_of slots r = Some s"
    using assms map_of_SomeD [OF that] by (auto simp: slots_ok_def list_all_iff)
  assume "map_of slots r = Some s" "map_of slots r' = Some s"
  then have "(r, s) \<in> set slots" "(r', s) \<in> set slots" by (auto dest: map_of_SomeD)
  then show "r = r'" using assms unfolding slots_ok_def by (force simp: distinct_map inj_on_def)
qed

lemma slots_ok_pop: "slots_ok n slots \<Longrightarrow> slots_ok n (dict_pop r slots)"
  by (auto simp: slots_ok_def list_all_iff set_dict_pop dict_pop_def distinct_map_filter)

lemma slots_ok_pops: "slots_ok n slots \<Longrightarrow> slots_ok n (fold dict_pop rs slots)"
  by (induction rs arbitrary: slots) (simp_all add: slots_ok_pop)

text \<open>A slot is refused exactly when all of them belong to other requests.\<close>

lemma paged_slot_full:
  assumes "slots_ok n slots" and "map_of slots r = None"
  shows "find (\<lambda>s. s \<notin> set (map snd slots)) [0..<n] = None \<longleftrightarrow> length slots = n"
proof -
  have sub: "set (map snd slots) \<subseteq> {0..<n}" and card: "card (set (map snd slots)) = length slots"
    using assms(1) distinct_card [of "map snd slots"] by (auto simp: slots_ok_def list_all_iff)
  have "find (\<lambda>s. s \<notin> set (map snd slots)) [0..<n] = None \<longleftrightarrow> {0..<n} \<subseteq> set (map snd slots)"
    by (auto simp: find_None_iff)
  also have "\<dots> \<longleftrightarrow> set (map snd slots) = {0..<n}" using sub by auto
  also have "\<dots> \<longleftrightarrow> length slots = n"
  proof
    assume "set (map snd slots) = {0..<n}"
    then show "length slots = n" using card by simp
  next
    assume "length slots = n"
    then show "set (map snd slots) = {0..<n}" using sub card by (intro card_subset_eq) auto
  qed
  finally show ?thesis .
qed

lemma paged_slot_ok:
  assumes "slots_ok n slots" and "paged_slot n r slots = (slots', res)"
  shows "slots_ok n slots'" and "map_of slots' r' = (if r' = r then case res of Inr s \<Rightarrow> Some s | Inl e \<Rightarrow> None else map_of slots r')"
proof -
  have "slots_ok n slots' \<and> map_of slots' r' = (if r' = r then case res of Inr s \<Rightarrow> Some s | Inl e \<Rightarrow> None else map_of slots r')"
  proof (cases "map_of slots r")
    case None
    show ?thesis
    proof (cases "find (\<lambda>s. s \<notin> set (map snd slots)) [0..<n]")
      case (Some s)
      then have "s < n" "s \<notin> set (map snd slots)" by (auto simp: find_Some_iff)
      moreover have "r \<notin> fst ` set slots" using None by (simp add: map_of_eq_None_iff)
      ultimately show ?thesis
        using assms None Some by (auto simp: paged_slot_def slots_ok_def dict_set_fresh map_add_def split: option.splits)
    qed (use assms None in \<open>auto simp: paged_slot_def\<close>)
  qed (use assms in \<open>auto simp: paged_slot_def\<close>)
  then show "slots_ok n slots'" "map_of slots' r' = (if r' = r then case res of Inr s \<Rightarrow> Some s | Inl e \<Rightarrow> None else map_of slots r')"
    by simp_all
qed

lemma paged_slots_ok:
  assumes "slots_ok n slots" and "paged_slots n rids slots = (slots', res)"
  shows "slots_ok n slots'"
    and "r \<notin> set rids \<Longrightarrow> map_of slots' r = map_of slots r"
    and "map_of slots r = Some s \<Longrightarrow> map_of slots' r = Some s"
    and "res = Inr ss \<Longrightarrow> map (map_of slots') rids = map Some ss"
proof -
  have "slots_ok n slots' \<and> (\<forall>r. r \<notin> set rids \<longrightarrow> map_of slots' r = map_of slots r)
    \<and> (\<forall>r s. map_of slots r = Some s \<longrightarrow> map_of slots' r = Some s)
    \<and> (\<forall>ss. res = Inr ss \<longrightarrow> map (map_of slots') rids = map Some ss)"
    using assms
  proof (induction rids arbitrary: slots slots' res)
    case (Cons a rids)
    obtain slots1 q where one: "paged_slot n a slots = (slots1, q)" by fastforce
    note ok = paged_slot_ok [OF Cons.prems(1) one]
    have keep: "map_of slots1 r = Some s" if "map_of slots r = Some s" for r s
      using that ok(2) [of r] one by (auto simp: paged_slot_def)
    show ?case
    proof (cases q)
      case (Inl e)
      then show ?thesis using Cons.prems(2) one ok keep by auto
    next
      case (Inr s)
      obtain slots2 q2 where rest: "paged_slots n rids slots1 = (slots2, q2)" by fastforce
      note IH = Cons.IH [OF ok(1) rest]
      have res: "slots' = slots2" "\<And>ss. res = Inr ss \<Longrightarrow> \<exists>ss'. q2 = Inr ss' \<and> ss = s # ss'"
        using Cons.prems(2) one Inr rest by (cases q2; auto)+
      have "map_of slots1 a = Some s" using ok(2) [of a] Inr by simp
      then show ?thesis using IH res keep ok(2) by auto
    qed
  qed simp
  then show "slots_ok n slots'" "r \<notin> set rids \<Longrightarrow> map_of slots' r = map_of slots r"
    "map_of slots r = Some s \<Longrightarrow> map_of slots' r = Some s"
    "res = Inr ss \<Longrightarrow> map (map_of slots') rids = map Some ss" by blast+
qed

text \<open>The slots of one plan: one per request, distinct for distinct requests.\<close>

lemma plan_slots:
  assumes "slots_ok n slots" and "paged_slots n rids slots = (slots', Inr ss)" and "distinct rids"
  shows "length ss = length rids" and "distinct ss" and "\<forall>s \<in> set ss. s < n"
proof -
  note ok = paged_slots_ok [OF assms(1,2)]
  show len: "length ss = length rids" using ok(4) [OF refl] by (metis length_map)
  have nth: "map_of slots' (rids ! i) = Some (ss ! i)" if "i < length rids" for i
    using ok(4) [OF refl] that len by (metis nth_map)
  show "distinct ss"
    unfolding distinct_conv_nth
    by (metis assms(3) len nth nth_eq_iff_index_eq ok(1) slots_ok_lookup(2))
  show "\<forall>s \<in> set ss. s < n"
    using nth len ok(1) slots_ok_lookup(1) by (metis in_set_conv_nth)
qed
text \<open>Only the plan itself and the release change the slots.\<close>

lemma set_kv_data_slots [simp]: "pr_slots (set_kv_data d pr) = pr_slots pr"
  by (simp add: set_kv_data_def)

lemma decode_forward_slots: "pr_slots (fst (decode_forward E ids pl pr)) = pr_slots pr"
  by (auto simp: decode_forward_def try_bind_def Let_def split: sum.split prod.split option.split)

lemma commit_finished_slots: "pr_slots (fst (commit_finished rows pr)) = pr_slots pr"
  by (auto simp: commit_finished_def split: prod.split option.split)

lemma decode_selected_slots: "pr_slots (fst (decode_selected_batch E T pls ids pl pr)) = pr_slots pr"
  unfolding decode_selected_batch_def Let_def
  by (simp add: try_bind_fst [where g = pr_slots] decode_forward_slots commit_finished_slots split: prod.split)

lemma plan_decode_loop_slots: "pr_slots (fst (plan_decode_loop E T pls n pending pl pr)) = pr_slots pr"
proof (induction n arbitrary: pending pl pr)
  case (Suc n)
  show ?case
    using Suc decode_selected_slots [of E T pls pending pl pr]
    by (auto simp: try_bind_def Let_def split: sum.split prod.split)
qed simp

lemmas plan_decode_loop_slotsD = arg_cong [where f = "\<lambda>x. pr_slots (fst x)", of "plan_decode_loop E T pls n pending pl pr" "(pr', r)" for E T pls n pending pl pr pr' r,
    unfolded plan_decode_loop_slots fst_conv]

lemma execute_paged_prefill_slots:
  "execute_paged_prefill E op k ss pr = (pr', r) \<Longrightarrow> pr_slots pr' = pr_slots pr"
  by (auto simp: execute_paged_prefill_def Let_def split: sum.splits option.splits)

lemma execute_paged_decode_slots:
  "execute_paged_decode E op k ss d pr = (pr', r) \<Longrightarrow> pr_slots pr' = pr_slots pr"
  by (auto simp: execute_paged_decode_def try_bind_def Let_def split: sum.splits prod.splits if_splits
      dest!: plan_decode_loop_slotsD)

lemma run_plan_slots: "run_plan E op ss d pr = (pr', d', r) \<Longrightarrow> pr_slots pr' = pr_slots pr"
  by (auto simp: run_plan_def Let_def split: sum.splits prod.splits option.splits if_splits
      dest!: execute_paged_prefill_slots execute_paged_decode_slots)

lemma ensure_paged_slots: "pr_slots (fst (ensure_paged_kv_cache E n pr)) = pr_slots pr"
  by (auto simp: ensure_paged_kv_cache_def split: option.split sum.split)

lemma paged_decode_results:
  assumes "execute_paged_decode E op k ss d pr = (pr', Inr rs)"
  obtains f where "rs = map2 (\<lambda>row (s, st). plan_step_result E (fo_request_ids op ! row) st (f s))
    (active_rows op k d) (active_states op k ss d)"
proof (cases "active_rows op k d = []")
  case True
  then show thesis using that assms by (simp add: execute_paged_decode_def)
next
  case False
  let ?act = "active_states op k ss d"
  show thesis
  proof (cases "plan_tokens E ?act")
    case (Inr tokens)
    obtain pr1 q where l: "plan_decode_loop E (plan_total E ?act) (plan_prompt_lengths E ?act) (max_decode_iters E)
        (map fst ?act) (plan_loop_init E ?act tokens) pr = (pr1, q)" by fastforce
    show thesis
    proof (cases q)
      case q: (Inr pl)
      show thesis by (rule that [of "\<lambda>s. pl_rows pl ! s"])
        (use assms False Inr l q in \<open>simp add: execute_paged_decode_def del: map_eq_conv\<close>)
    qed (use assms False Inr l in \<open>simp add: execute_paged_decode_def\<close>)
  qed (use assms False in \<open>simp add: execute_paged_decode_def\<close>)
qed

text \<open>A plan that returns: its prefill and decode parts.\<close>

lemma run_plan_Inr:
  assumes "run_plan E op ss d pr = (pr', d', Inr results)"
  obtains pr2 rs where "results = prefill_results (nat (fo_num_extends op)) op d @ rs"
    and "d' = mark_prefilled (take (nat (fo_num_extends op)) (fo_request_ids op)) d"
    and "if nat (fo_num_extends op) < length (fo_request_ids op)
      then execute_paged_decode E op (nat (fo_num_extends op)) ss d' pr2 = (pr', Inr rs) else rs = []"
proof -
  have "\<exists>pr2 rs. results = prefill_results (nat (fo_num_extends op)) op d @ rs
      \<and> d' = mark_prefilled (take (nat (fo_num_extends op)) (fo_request_ids op)) d
      \<and> (if nat (fo_num_extends op) < length (fo_request_ids op)
         then execute_paged_decode E op (nat (fo_num_extends op)) ss d' pr2 = (pr', Inr rs) else rs = [])"
    using assms unfolding run_plan_def Let_def
    by (auto simp: result_bind_eq_Inr split: sum.splits prod.splits option.splits if_splits)
  then show thesis using that by blast
qed

lemma plan_results_rids:
  assumes "run_plan E op ss d pr = (pr', d', Inr results)"
  shows "set (map sr_rid results) \<subseteq> set (fo_request_ids op)"
proof -
  have dec: "set (map sr_rid rs) \<subseteq> set (fo_request_ids op)" if e: "execute_paged_decode E op k ss d2 p = (p', Inr rs)" for k d2 p p' rs
  proof -
    obtain f where rs: "rs = map2 (\<lambda>row (s, st). plan_step_result E (fo_request_ids op ! row) st (f s))
        (active_rows op k d2) (active_states op k ss d2)" by (rule paged_decode_results [OF e])
    have "sr_rid r \<in> set (fo_request_ids op)" if mem: "r \<in> set rs" for r
    proof -
      obtain row s st where "(row, s, st) \<in> set (zip (active_rows op k d2) (active_states op k ss d2))"
        and r: "r = plan_step_result E (fo_request_ids op ! row) st (f s)" using mem rs by auto
      then have "row < length (fo_request_ids op)" by (auto simp: active_rows_def dest!: set_zip_leftD)
      then show ?thesis by (simp add: r plan_step_result_def Let_def)
    qed
    then show ?thesis by auto
  qed
  have pre: "set (map sr_rid (prefill_results k op d)) \<subseteq> set (fo_request_ids op)" for k
    by (auto simp: prefill_results_def dest: in_set_takeD)
  obtain pr2 rs where "results = prefill_results (nat (fo_num_extends op)) op d @ rs"
    and "if nat (fo_num_extends op) < length (fo_request_ids op)
      then execute_paged_decode E op (nat (fo_num_extends op)) ss d' pr2 = (pr', Inr rs) else rs = []"
    by (rule run_plan_Inr [OF assms])
  then show ?thesis using dec pre by (auto split: if_splits)
qed

section \<open>The slot table\<close>

text \<open>The runner and the plan of the witnesses: one request of three tokens, decoded with blocks of two.\<close>

definition ex_plan_env :: "int plan_env" where
  "ex_plan_env = \<lparr> pe_rc = ex_config\<lparr>rc_attention_backend := ''flashinfer'', rc_kv_cache_layout := ''paged'',
       rc_flashinfer_cache_mode := ''paged'', rc_flashinfer_prefill_mode := ''paged'', rc_page_size := Some 2\<rparr>,
     pe_dec = Threshold_Decoder ex_td, pe_num_layers = 1, pe_max_length = 8, pe_max_num_seqs = 2,
     pe_device_pages = 9, pe_zero = 0, pe_sm = ex_softmax, pe_gumbel = (\<lambda>t l. l), pe_debug = False,
     pe_prefill_fwd = (\<lambda>fb tokens pos d. d),
     pe_decode_fwd = (\<lambda>fb blocks pos d. (d, map (\<lambda>_. ex_td_logits) blocks, map (\<lambda>_. [5, 6]) blocks)),
     pe_batch_coords = (\<lambda>ptr lens n. ([], [])), pe_decode_text = (\<lambda>ts. []) \<rparr>"

definition ex_plan_op :: forward_op where
  "ex_plan_op = \<lparr> fo_request_ids = [''r''], fo_input_ids = [], fo_input_lengths = [0],
     fo_extend_prefix_lens = [], fo_occupied_pages = [[1, 2]], fo_num_extends = 0 \<rparr>"

definition ex_plan_runner :: "int plan_runner" where
  "ex_plan_runner = \<lparr> pr_slots = [], pr_kv = None, pr_forwards = 0 \<rparr>"

text \<open>How a plan ends: before its slots are taken, or after its body with the slots of its failed or finished requests released.\<close>

lemma plan_early:
  assumes "execute_paged_forward_plan E op d pr = (pr', d', r)"
    and "\<nexists>pr1 slots ss. ensure_paged_kv_cache E (pe_device_pages E) pr = (pr1, Inr ())
      \<and> paged_slots (pe_max_num_seqs E) (fo_request_ids op) (pr_slots pr1) = (slots, Inr ss)"
  shows "\<exists>e. r = Inl e" and "pr_slots pr' = pr_slots pr
    \<or> pr_slots pr' = fst (paged_slots (pe_max_num_seqs E) (fo_request_ids op) (pr_slots pr))"
  using assms ensure_paged_slots [of E "pe_device_pages E" pr]
  by (auto simp: execute_paged_forward_plan_def split: if_splits prod.splits sum.splits)

lemma plan_late:
  assumes "use_flashinfer_paged_prefill (pe_rc E)" and "0 < pe_device_pages E"
    and "fold max (concat (fo_occupied_pages op)) 0 < pe_device_pages E"
    and "ensure_paged_kv_cache E (pe_device_pages E) pr = (pr1, Inr ())"
    and "paged_slots (pe_max_num_seqs E) (fo_request_ids op) (pr_slots pr1) = (slots, Inr ss)"
    and "run_plan E op ss d (pr1\<lparr>pr_slots := slots\<rparr>) = (pr2, d2, r)"
  shows "execute_paged_forward_plan E op d pr =
    (release_paged_requests (case r of Inl e \<Rightarrow> fo_request_ids op | Inr results \<Rightarrow> map sr_rid (filter sr_finished results)) pr2, d2, r)"
  using assms by (cases r) (simp_all add: execute_paged_forward_plan_def)

text \<open>
  C16: The slot table of the paged runner stays a partial injection into the rows of the batch,
  whether a plan returns or raises and after every release; a plan leaves the slots of other
  requests alone, and after a plan that returns exactly the requests with a finished result have
  given their slot back.
\<close>

theorem paged_plan_slots:
  assumes ok: "slots_ok (pe_max_num_seqs E) (pr_slots pr)"
    and plan: "execute_paged_forward_plan E op d pr = (pr', d', r)"
  shows "slots_ok (pe_max_num_seqs E) (pr_slots pr')
    \<and> slots_ok (pe_max_num_seqs E) (pr_slots (release_paged_requests rids pr'))
    \<and> (\<forall>rid. rid \<notin> set (fo_request_ids op) \<longrightarrow> map_of (pr_slots pr') rid = map_of (pr_slots pr) rid)
    \<and> (\<forall>results. r = Inr results \<longrightarrow> (\<forall>rid \<in> set (fo_request_ids op).
         map_of (pr_slots pr') rid = None \<longleftrightarrow> rid \<in> sr_rid ` {res \<in> set results. sr_finished res}))"
proof -
  let ?n = "pe_max_num_seqs E" and ?ids = "fo_request_ids op"
  define P where "P slots' = (slots_ok ?n slots' \<and> (\<forall>rid. rid \<notin> set ?ids \<longrightarrow> map_of slots' rid = map_of (pr_slots pr) rid))" for slots'
  have popped: "P (fold dict_pop F slots)" if "P slots" "set F \<subseteq> set ?ids" for F slots
    using that slots_ok_pops [of ?n slots F] unfolding P_def map_of_fold_dict_pop by auto
  have start: "P (pr_slots pr)" using ok by (simp add: P_def)
  have taken: "P slots" if "paged_slots ?n ?ids (pr_slots pr) = (slots, q)" for slots q
    using paged_slots_ok(1,2) [OF ok that] by (simp add: P_def)
  have main: "P (pr_slots pr') \<and> (\<forall>results. r = Inr results \<longrightarrow> (\<forall>rid \<in> set ?ids.
      map_of (pr_slots pr') rid = None \<longleftrightarrow> rid \<in> set (map sr_rid (filter sr_finished results))))"
  proof (cases "use_flashinfer_paged_prefill (pe_rc E) \<and> 0 < pe_device_pages E
      \<and> fold max (concat (fo_occupied_pages op)) 0 < pe_device_pages E \<and> (\<exists>pr1 slots ss.
        ensure_paged_kv_cache E (pe_device_pages E) pr = (pr1, Inr ())
        \<and> paged_slots ?n ?ids (pr_slots pr1) = (slots, Inr ss))")
    case False
    have "pr_slots pr' = pr_slots pr \<or> pr_slots pr' = fst (paged_slots ?n ?ids (pr_slots pr))" and "\<exists>e. r = Inl e"
      using plan_early [OF plan] False plan by (auto simp: execute_paged_forward_plan_def not_less split: if_splits)
    then show ?thesis using start taken by (metis Inl_Inr_False prod.collapse)
  next
    case True
    then obtain pr1 slots ss where c: "use_flashinfer_paged_prefill (pe_rc E)" "0 < pe_device_pages E"
        "fold max (concat (fo_occupied_pages op)) 0 < pe_device_pages E"
        "ensure_paged_kv_cache E (pe_device_pages E) pr = (pr1, Inr ())"
        "paged_slots ?n ?ids (pr_slots pr1) = (slots, Inr ss)" by blast
    have s1: "pr_slots pr1 = pr_slots pr" using ensure_paged_slots [of E "pe_device_pages E" pr] c(4) by simp
    obtain pr2 d2 x where run: "run_plan E op ss d (pr1\<lparr>pr_slots := slots\<rparr>) = (pr2, d2, x)" using prod_cases3 by blast
    define F where "F = (case x of Inl e \<Rightarrow> ?ids | Inr results \<Rightarrow> map sr_rid (filter sr_finished results))"
    have res: "pr' = release_paged_requests F pr2" "r = x"
      using plan_late [OF c run] plan by (simp_all add: F_def)
    have pr': "pr_slots pr' = fold dict_pop F slots"
      using run_plan_slots [OF run] by (simp add: res(1) release_paged_requests_def)
    have sub: "set F \<subseteq> set ?ids"
      using plan_results_rids [of E op ss d "pr1\<lparr>pr_slots := slots\<rparr>" pr2 d2] run by (cases x) (auto simp: F_def)
    have has: "map_of slots rid \<noteq> None" if "rid \<in> set ?ids" for rid
      using paged_slots_ok(4) [OF ok c(5) [unfolded s1] refl] that by (metis in_set_conv_nth length_map nth_map option.simps(3))
    have "map_of (pr_slots pr') rid = None \<longleftrightarrow> rid \<in> set F" if "rid \<in> set ?ids" for rid
      unfolding pr' map_of_fold_dict_pop using has [OF that] by simp
    moreover have "P (pr_slots pr')" unfolding pr' by (rule popped [OF taken [OF c(5) [unfolded s1]] sub])
    ultimately show ?thesis using res(2) by (auto simp: F_def)
  qed
  moreover have "slots_ok ?n (pr_slots (release_paged_requests rids pr'))"
    using main by (simp add: P_def release_paged_requests_def slots_ok_pops)
  moreover have "set (map sr_rid (filter sr_finished results)) = sr_rid ` {res \<in> set results. sr_finished res}" for results
    by auto
  ultimately show ?thesis unfolding P_def by simp
qed

theorem paged_plan_slots_witness:
  "\<exists>pr' d' r. execute_paged_forward_plan ex_plan_env ex_plan_op [(''r'', ex_state)] ex_plan_runner = (pr', d', r)
     \<and> slots_ok 2 (pr_slots pr')"
proof -
  obtain pr' d' r where x: "execute_paged_forward_plan ex_plan_env ex_plan_op [(''r'', ex_state)] ex_plan_runner = (pr', d', r)"
    using prod_cases3 by blast
  have "slots_ok (pe_max_num_seqs ex_plan_env) (pr_slots ex_plan_runner)"
    by (simp add: slots_ok_def ex_plan_runner_def)
  from paged_plan_slots [OF this x, of "[]"] show ?thesis using x by (simp add: ex_plan_env_def)
qed

end
