(* ===== verification/Paged_Correct.thy ===== *)
theory Paged_Correct
  imports Paged_Plan
begin

text \<open>
  Correctness of the paged forward plans: with pages that cover the block of every request, a plan
  does not raise, its decode loop stays within its iteration limit, and every request gets the next
  block of its completion.  The iteration of the plan is compared with the iteration of the dense
  runner, whose row-wise description is reused.
\<close>

section \<open>Cache operations that succeed\<close>

lemma seq_ok_data [simp]: "seq_ok (kv\<lparr>kv_data := d\<rparr>) s n = seq_ok kv s n"
  by (simp add: seq_ok_def seq_pages_def)

lemma kv_wf_data: "kv_wf kv \<Longrightarrow> map length d = map length (kv_data kv) \<Longrightarrow> kv_wf (kv\<lparr>kv_data := d\<rparr>)"
proof -
  assume wf: "kv_wf kv" and len: "map length d = map length (kv_data kv)"
  have "length row = kv_page_size kv" if "row \<in> set d" for row
  proof -
    have "length row \<in> set (map length d)" using that by simp
    then obtain r where "r \<in> set (kv_data kv)" "length r = length row" unfolding len by auto
    then show ?thesis using wf unfolding kv_wf_def by metis
  qed
  then show ?thesis using wf map_eq_imp_length_eq [OF len] by (simp add: kv_wf_def)
qed

lemma slot_mapping_ok:
  assumes wf: "kv_wf kv" and len: "length positions = length ids"
    and seq: "\<And>k. k < length ids \<Longrightarrow> seq_ok kv (ids ! k) (ns ! k) \<and> (\<forall>p \<in> set (positions ! k). p < ns ! k)"
  shows "\<exists>m. slot_mapping ids positions kv = Inr m"
proof -
  have row: "\<exists>n. seq_ok kv s n \<and> (\<forall>p \<in> set ps. p < n)" if m: "(s, ps) \<in> set (zip ids positions)" for s ps
  proof -
    obtain k where "k < length ids" "s = ids ! k" "ps = positions ! k" using m len by (auto simp: in_set_zip)
    then show ?thesis using seq by blast
  qed
  have page: "page_at kv s p = Inr (fst (phys kv s p)) \<and> (kv_external kv \<longrightarrow> fst (phys kv s p) \<noteq> 0)"
    if m: "(s, ps) \<in> set (zip ids positions)" "p \<in> set ps" for s ps p
  proof -
    obtain n where n: "seq_ok kv s n" "p < n" using row [OF m(1)] m(2) by blast
    then have "s < kv_batch_size kv" "p < kv_max_length kv" by (auto simp: seq_ok_def)
    then show ?thesis using page_at_ok [OF wf] phys_in_pages(3) [OF wf n] n(1) by (metis seq_ok_def)
  qed
  have "result_map (\<lambda>(seq, ps). result_map (page_at kv seq) ps) (zip ids positions)
      = Inr (map (\<lambda>(s, ps). map (\<lambda>p. fst (phys kv s p)) ps) (zip ids positions))"
  proof (rule result_map_ok)
    fix x assume x: "x \<in> set (zip ids positions)"
    obtain s ps where sp: "x = (s, ps)" by fastforce
    have "result_map (page_at kv s) ps = Inr (map (\<lambda>p. fst (phys kv s p)) ps)"
      by (rule result_map_ok) (use page x sp in blast)
    then show "(case x of (seq, ps) \<Rightarrow> result_map (page_at kv seq) ps) = Inr (case x of (s, ps) \<Rightarrow> map (\<lambda>p. fst (phys kv s p)) ps)"
      by (simp add: sp)
  qed
  moreover have "\<not> (kv_external kv \<and> list_ex (list_ex (\<lambda>p. p = 0)) (map (\<lambda>(s, ps). map (\<lambda>p. fst (phys kv s p)) ps) (zip ids positions)))"
    using page by (fastforce simp: list_ex_iff)
  ultimately show ?thesis unfolding slot_mapping_def by simp
qed

lemma decode_batch_ok:
  assumes "kv_wf kv" and "0 < pe_L E" and "\<forall>s \<in> set ids. seq_ok kv s (f s + pe_L E)"
  shows "\<exists>fb. make_decode_forward_batch E ids (map f ids) kv = Inr fb"
proof -
  let ?L = "pe_L E"
  have "flashinfer_paged_metadata ids (map int (map (\<lambda>s. s + ?L) (map f ids))) kv \<noteq> Inl e" for e
    by (subst metadata_value [OF assms(1)]) (use assms(2,3) in simp_all)
  then obtain pages where "flashinfer_paged_metadata ids (map int (map (\<lambda>s. s + ?L) (map f ids))) kv = Inr pages"
    by (meson sum.exhaust)
  moreover obtain m where "slot_mapping ids (map (\<lambda>s. map (\<lambda>i. s + i) [0..<?L]) (map f ids)) kv = Inr m"
    using slot_mapping_ok [OF assms(1), of "map (\<lambda>s. map (\<lambda>i. s + i) [0..<?L]) (map f ids)" ids "map (\<lambda>s. f s + ?L) ids"]
      assms(3) by auto
  ultimately show ?thesis by (simp add: make_decode_forward_batch_def Let_def comp_def)
qed

text \<open>What a sequence of writes keeps of a cache: everything but the cells.\<close>

definition kv_same :: "'v paged_kv \<Rightarrow> 'v paged_kv \<Rightarrow> bool" where
  "kv_same kv kv' = (\<exists>d. kv' = kv\<lparr>kv_data := d\<rparr>)"

lemma kv_sameI [simp]: "kv_same kv kv" "kv_same kv (kv\<lparr>kv_data := d\<rparr>)"
  unfolding kv_same_def by (metis paged_kv.surjective paged_kv.update_convs(10)) blast

lemma kv_same_trans: "kv_same a b \<Longrightarrow> kv_same b c \<Longrightarrow> kv_same a c"
  by (auto simp: kv_same_def)

lemma kv_same_seq_ok: "kv_same kv kv' \<Longrightarrow> seq_ok kv' s n = seq_ok kv s n"
  by (auto simp: kv_same_def)

lemma commit_rows_ok:
  assumes "kv_wf kv" and "\<forall>(s, start, cells) \<in> set rows. seq_ok kv s (start + length cells)"
  shows "\<exists>kv'. commit_rows rows kv = (kv', Inr ()) \<and> kv_wf kv' \<and> kv_same kv kv'"
  using assms
proof (induction rows arbitrary: kv)
  case (Cons x rows)
  obtain s start cells where x: "x = (s, start, cells)" using prod_cases3 by blast
  have ok: "seq_ok kv s (start + length cells)" using Cons.prems(2) x by simp
  obtain kv1 where w: "write_range s (int start) cells kv = Inr kv1" "kv_same kv kv1"
    using write_range_ok [OF Cons.prems(1) ok order_refl] by simp
  have wf: "kv_wf kv1" by (rule write_range_effect(1) [OF Cons.prems(1) ok order_refl w(1)])
  have "\<forall>(s, start, cells) \<in> set rows. seq_ok kv1 s (start + length cells)"
    using Cons.prems(2) kv_same_seq_ok [OF w(2)] by auto
  from Cons.IH [OF wf this] show ?case using w kv_same_trans by (auto simp: x)
qed simp

section \<open>The plan's iteration as an iteration of the dense runner\<close>

text \<open>What a plan relies on in the model: tensors keep their shape, and every row of a batch gets
  usable logits and the cells of its block.\<close>

definition plan_model_ok :: "'v plan_env \<Rightarrow> bool" where
  "plan_model_ok E = ((\<forall>fb blocks pos d d' lgs cells. pe_decode_fwd E fb blocks pos d = (d', lgs, cells) \<longrightarrow>
       map length d' = map length d \<and> length lgs = length blocks \<and> length cells = length blocks
       \<and> (\<forall>k < length blocks. dec_input_ok (pe_sm E) (pe_gumbel E) (pe_dec E) (pe_L E) (lgs ! k)
            \<and> length (cells ! k) = pe_L E))
     \<and> (\<forall>fb tokens pos d. map length (pe_prefill_fwd E fb tokens pos d) = map length d))"

definition loop_env :: "'v plan_env \<Rightarrow> nat \<Rightarrow> nat list \<Rightarrow> flt list list \<Rightarrow> unit decode_env" where
  "loop_env E T pls lg = \<lparr> de_sm = pe_sm E, de_gumbel = pe_gumbel E, de_debug = pe_debug E,
     de_rc = (pe_rc E)\<lparr>rc_mini_batch_size := 1\<rparr>, de_dec = pe_dec E,
     de_fwd = (\<lambda>blocks pos past. (map (\<lambda>_. lg) blocks, past)), de_max_length = T, de_total = T,
     de_dls = replicate (length pls) T, de_pls = pls \<rparr>"

definition loop_state :: "nat \<Rightarrow> nat list \<Rightarrow> plan_loop \<Rightarrow> unit runner_state" where
  "loop_state T pending pl = \<lparr> rs_rows = pl_rows pl, rs_start = pl_start pl,
     rs_flag = tabulate (length (pl_rows pl)) (\<lambda>s. s \<in> set pending), rs_budget = pl_budget pl, rs_lev = pl_lev pl,
     rs_kv = Dense_KV (replicate (length (pl_rows pl)) (replicate T ())), rs_forwards = 0 \<rparr>"

lemma loop_env_sel [simp]:
  "de_sm (loop_env E T pls lg) = pe_sm E" "de_gumbel (loop_env E T pls lg) = pe_gumbel E"
  "de_debug (loop_env E T pls lg) = pe_debug E" "de_dec (loop_env E T pls lg) = pe_dec E"
  "de_total (loop_env E T pls lg) = T" "de_max_length (loop_env E T pls lg) = T"
  "de_dls (loop_env E T pls lg) = replicate (length pls) T" "de_pls (loop_env E T pls lg) = pls"
  "rc_block_length (de_rc (loop_env E T pls lg)) = pe_L E"
  "rc_max_post_steps (de_rc (loop_env E T pls lg)) = rc_max_post_steps (pe_rc E)"
  "rc_early_stop (de_rc (loop_env E T pls lg)) = rc_early_stop (pe_rc E)"
  by (simp_all add: loop_env_def)

lemma loop_state_sel [simp]:
  "rs_rows (loop_state T pending pl) = pl_rows pl" "rs_start (loop_state T pending pl) = pl_start pl"
  "rs_budget (loop_state T pending pl) = pl_budget pl" "rs_lev (loop_state T pending pl) = pl_lev pl"
  "length (rs_flag (loop_state T pending pl)) = length (pl_rows pl)"
  "s < length (pl_rows pl) \<Longrightarrow> rs_flag (loop_state T pending pl) ! s = (s \<in> set pending)"
  by (simp_all add: loop_state_def)

lemma loop_env_ok:
  assumes "plain_decoder (pe_dec E)" and "0 < pe_L E" and "dec_input_ok (pe_sm E) (pe_gumbel E) (pe_dec E) (pe_L E) lg"
  shows "env_ok (loop_env E T pls lg)"
  using assms by (auto simp: env_ok_def fwd_ok_def loop_env_def list_all_iff)

lemma advance_next:
  fixes E T pls lg ids xs' fin eb lev pl kv pending
  defines "st' \<equiv> next_state (loop_env E T pls lg) ids xs' fin eb lev kv (loop_state T pending pl)"
    and "pl' \<equiv> advance_rows E T pls ids xs' fin eb lev pl"
  shows "pl_rows pl' = rs_rows st'" "pl_start pl' = rs_start st'" "pl_budget pl' = rs_budget st'"
proof -
  have e: "early_stop_rows (de_rc (loop_env E T pls lg)) = early_stop_rows (pe_rc E)"
    by (intro ext) (simp add: early_stop_rows_def Let_def)
  show "pl_rows pl' = rs_rows st'" "pl_start pl' = rs_start st'" "pl_budget pl' = rs_budget st'"
    by (simp_all add: st'_def pl'_def next_state_def advance_rows_def Let_def e cong: if_cong)
qed

lemma decode_forward_ok:
  assumes model: "plan_model_ok E" and L: "0 < pe_L E"
    and kv: "pr_kv pr = Some kv" "kv_wf kv" "\<forall>s \<in> set ids. seq_ok kv s (pl_start pl ! s + pe_L E)"
    and blocks: "gather_blocks (map ((!) (pl_rows pl)) ids) (map ((!) (pl_start pl)) ids) (pe_L E) = Inr blocks"
    and len: "length blocks = length ids"
  shows "\<exists>kv1 lgs cells. decode_forward E ids pl pr = (pr\<lparr>pr_kv := Some kv1\<rparr>, Inr (blocks, lgs, cells))
    \<and> kv_wf kv1 \<and> kv_same kv kv1 \<and> length lgs = length ids
    \<and> (\<forall>k < length ids. dec_input_ok (pe_sm E) (pe_gumbel E) (pe_dec E) (pe_L E) (lgs ! k) \<and> length (cells ! k) = pe_L E)"
proof -
  obtain fb where fb: "make_decode_forward_batch E ids (map ((!) (pl_start pl)) ids) kv = Inr fb"
    using decode_batch_ok [OF kv(2) L kv(3)] by blast
  obtain d lgs cells where m: "pe_decode_fwd E fb blocks
      (map (\<lambda>s. map (\<lambda>i. i + s) [0..<pe_L E]) (map ((!) (pl_start pl)) ids)) (kv_data kv) = (d, lgs, cells)"
    using prod_cases3 by blast
  have ok: "map length d = map length (kv_data kv)" "length lgs = length ids"
    "\<forall>k < length ids. dec_input_ok (pe_sm E) (pe_gumbel E) (pe_dec E) (pe_L E) (lgs ! k) \<and> length (cells ! k) = pe_L E"
    using model [unfolded plan_model_ok_def, THEN conjunct1, rule_format, OF m] len by simp_all
  have "decode_forward E ids pl pr = (pr\<lparr>pr_kv := Some (kv\<lparr>kv_data := d\<rparr>)\<rparr>, Inr (blocks, lgs, cells))"
    using ok(2) by (simp add: decode_forward_def Let_def blocks kv(1) fb m set_kv_data_def del: map_map)
  then show ?thesis using kv_wf_data [OF kv(2) ok(1)] ok(2,3) by fastforce
qed

lemma commit_finished_ok:
  assumes "pr_kv pr = Some kv" and "kv_wf kv" and "\<forall>(s, start, cells) \<in> set rows. seq_ok kv s (start + length cells)"
  shows "\<exists>kv'. commit_finished rows pr = (pr\<lparr>pr_kv := Some kv'\<rparr>, Inr ()) \<and> kv_wf kv' \<and> kv_same kv kv'"
  using commit_rows_ok [OF assms(2,3)] assms(1) by (auto simp: commit_finished_def)

text \<open>One iteration of the plan steps every pending row like the dense runner and leaves the others alone.\<close>

lemma decode_selected_ok:
  fixes E :: "'v plan_env" and pl T pls lg ids
  defines "D \<equiv> loop_env E T pls lg" and "st \<equiv> loop_state T ids pl"
  assumes model: "plan_model_ok E" and env: "env_ok D" and inv: "loop_inv D st"
    and lg0: "dec_input_ok (pe_sm E) (pe_gumbel E) (pe_dec E) (pe_L E) lg"
    and ids: "ids \<noteq> []" "distinct ids" "\<forall>s \<in> set ids. s < length pls"
    and kv: "pr_kv pr = Some kv" "kv_wf kv" "\<forall>s \<in> set ids. seq_ok kv s (pl_start pl ! s + pe_L E)"
  shows "\<exists>pl' kv' lgs. decode_selected_batch E T pls ids pl pr
        = (pr\<lparr>pr_kv := Some kv', pr_forwards := pr_forwards pr + 1\<rparr>, Inr pl')
    \<and> kv_wf kv' \<and> kv_same kv kv'
    \<and> (\<exists>fl. \<forall>k < length ids. row_step D st (loop_state T ids pl'\<lparr>rs_flag := fl\<rparr>) (ids ! k) (lgs ! k))
    \<and> (\<forall>r < length pls. r \<notin> set ids \<longrightarrow> row_same st (loop_state T ids pl') r)
    \<and> length (pl_rows pl') = length pls \<and> length (pl_start pl') = length pls \<and> budget_shape D (pl_budget pl')"
proof -
  let ?L = "pe_L E" and ?B = "length pls"
  have sh: "length (pl_rows pl) = ?B" "length (pl_start pl) = ?B" "budget_shape D (pl_budget pl)"
    using inv by (simp_all add: loop_inv_def D_def st_def)
  have L: "0 < ?L" and selD: "\<forall>s \<in> set ids. s < de_B D \<and> rs_flag st ! s"
    using env ids(3) sh(1) by (auto simp: env_ok_def D_def st_def)
  define xs where "xs = map ((!) (pl_rows pl)) ids"
  define starts where "starts = map ((!) (pl_start pl)) ids"
  define blocks where "blocks = map (row_block D st) ids"
  have g: "gather_blocks xs starts ?L = Inr blocks"
    using decode_iter_batch(1) [OF env inv selD ids(1), of "map (\<lambda>_. lg) ids"] lg0
    by (simp add: xs_def starts_def blocks_def D_def st_def)
  obtain kv1 lgs cells where fw: "decode_forward E ids pl pr = (pr\<lparr>pr_kv := Some kv1\<rparr>, Inr (blocks, lgs, cells))"
    and kv1: "kv_wf kv1" "kv_same kv kv1" and lgs: "length lgs = length ids"
    and lg: "\<And>k. k < length ids \<Longrightarrow> dec_input_ok (pe_sm E) (pe_gumbel E) (pe_dec E) ?L (lgs ! k) \<and> length (cells ! k) = ?L"
    using decode_forward_ok [OF model L kv g [unfolded xs_def starts_def]] by (auto simp: blocks_def)
  have lgD: "dec_input_ok (de_sm D) (de_gumbel D) (de_dec D) (de_L D) (lgs ! k)" if "k < length ids" for k
    using lg [OF that] by (simp add: D_def)
  define Y where "Y = (\<lambda>k. dec_iter (pe_sm E) (pe_gumbel E) (pe_dec E)
      (lgs ! k, tabulate ?L (\<lambda>i. pl_start pl ! (ids ! k) + i < pls ! (ids ! k)))
      (row_block D st (ids ! k)) (eb_post_steps (pl_budget pl) ! (ids ! k) < nat (rc_max_post_steps (pe_rc E))))"
  define xs' where "xs' = tabulate (length ids) (\<lambda>k. scatter_window (xs ! k) (starts ! k) (Y k))"
  note batch = decode_iter_batch [OF env inv selD ids(1) lgs lgD]
  have run: "run_batch_decode (pe_sm E) (pe_gumbel E) (pe_debug E) (pe_dec E) ?L lgs starts
      (row_length xs) xs ids (Some pls) (pl_budget pl) (pl_lev pl) = Inr (xs', pl_lev pl)"
    and after: "gather_blocks xs' starts ?L = Inr (tabulate (length ids) Y)"
    using batch(2,3) by (simp_all add: xs'_def Y_def xs_def starts_def D_def st_def)
  define had where "had = map (\<lambda>b. any_row (is_mask (dec_mask_id (pe_dec E)) b)) blocks"
  define ch where "ch = map2 (\<lambda>a b. a \<noteq> b) (tabulate (length ids) Y) blocks"
  define fin where "fin = map2 (\<lambda>h c. \<not> h \<and> \<not> c) had ch"
  have lens: "length had = length ids" "length ch = length ids" "length fin = length ids"
    by (simp_all add: had_def ch_def fin_def blocks_def)
  have preds: "had ! k \<longleftrightarrow> de_mask D \<in> set (row_block D st (ids ! k))"
    "ch ! k \<longleftrightarrow> Y k \<noteq> row_block D st (ids ! k)"
    "fin ! k \<longleftrightarrow> de_mask D \<notin> set (row_block D st (ids ! k)) \<and> Y k = row_block D st (ids ! k)"
    if "k < length ids" for k
    using that by (simp_all add: fin_def had_def ch_def blocks_def any_mask_iff D_def)
  define eb where "eb = budget_count (pl_budget pl) ids had ch fin"
  have small: "eb_block_iters (pl_budget pl) ! (ids ! k) + 1 < de_L D + de_P D + 1"
    if k: "k < length ids" "\<not> fin ! k" for k
  proof -
    have r: "ids ! k < de_B D" "rs_flag st ! (ids ! k)" using selD nth_mem [OF k(1)] by auto
    have "\<not> (de_mask D \<notin> set (row_block D st (ids ! k)) \<and> Y k = row_block D st (ids ! k))"
      using preds(3) k by blast
    from budget_row_below [OF iteration_budget(1) [OF env inv r lgD [OF k(1)] _ this refl]]
    show ?thesis by (simp add: Y_def D_def st_def)
  qed
  have bud: "budget_update (pl_budget pl) ids had ch fin = Inr eb" "budget_shape D eb"
    using budget_update_ok [OF sh(3) ids(2) lens(3) _ _ small] ids(3) inv
    by (auto simp: eb_def loop_inv_def row_inv_def D_def st_def)
  let ?rows = "map (\<lambda>k. (ids ! k, starts ! k, cells ! k)) (nonzero fin)"
  have "\<forall>(s, start, cells) \<in> set ?rows. seq_ok kv1 s (start + length cells)"
    using kv(3) lg lens(3) kv_same_seq_ok [OF kv1(2)] by (auto simp: nonzero_simps starts_def)
  then obtain kv' where cm: "commit_finished ?rows (pr\<lparr>pr_kv := Some kv1\<rparr>) = (pr\<lparr>pr_kv := Some kv'\<rparr>, Inr ())"
    and kv': "kv_wf kv'" "kv_same kv1 kv'"
    using commit_finished_ok [of "pr\<lparr>pr_kv := Some kv1\<rparr>" kv1 ?rows] kv1(1) by auto
  define pl' where "pl' = advance_rows E T pls ids xs' fin eb (pl_lev pl) pl"
  have it: "decode_selected_batch E T pls ids pl pr
      = (pr\<lparr>pr_kv := Some kv', pr_forwards := pr_forwards pr + 1\<rparr>, Inr pl')"
    unfolding decode_selected_batch_def Let_def xs_def [symmetric] starts_def [symmetric]
    by (simp add: fw run after had_def [symmetric] ch_def [symmetric] fin_def [symmetric] bud(1) cm pl'_def)
  define st' where "st' = next_state D ids xs' fin eb (pl_lev pl) (rs_kv st) st"
  note adv = advance_next [where E = E and T = T and pls = pls and lg = lg and ids = ids and xs' = xs' and fin = fin and eb = eb
      and lev = "pl_lev pl" and pl = pl and kv = "rs_kv st" and pending = ids, folded D_def st_def st'_def pl'_def]
  have rows: "row_step D st (loop_state T ids pl'\<lparr>rs_flag := rs_flag st'\<rparr>) (ids ! k) (lgs ! k)" if k: "k < length ids" for k
  proof -
    have xk: "xs' ! k = scatter_window (rs_rows st ! (ids ! k)) (rs_start st ! (ids ! k)) (Y k)"
      using k by (simp add: xs'_def xs_def starts_def st_def)
    note ns = next_state_selected [OF inv ids(2) selD lens(3) _ k, of xs' eb "pl_lev pl" "rs_kv st", folded st'_def,
        unfolded xk preds(3) [OF k]]
    have "eb_post_steps eb ! (ids ! k) = (if fin ! k then 0
        else eb_post_steps (pl_budget pl) ! (ids ! k) + (if \<not> had ! k \<and> ch ! k then 1 else 0))"
      "eb_block_iters eb ! (ids ! k) = (if fin ! k then 0 else eb_block_iters (pl_budget pl) ! (ids ! k) + 1)"
      using budget_count_row(1,2) [OF ids(2) lens(3) _ _ k] sh(3) ids(3)
      by (simp_all add: eb_def budget_shape_def D_def)
    moreover have "Y k = dec_iter (de_sm D) (de_gumbel D) (de_dec D)
        (lgs ! k, tabulate (de_L D) (\<lambda>i. rs_start st ! (ids ! k) + i < de_pls D ! (ids ! k)))
        (row_block D st (ids ! k)) (eb_post_steps (rs_budget st) ! (ids ! k) < de_P D)"
      by (simp add: Y_def D_def st_def)
    ultimately show ?thesis
      using ns lgD [OF k] preds [OF k] adv
      unfolding row_step_def Let_def by (simp add: xs'_def st'_def st_def)
  qed
  have same: "row_same st (loop_state T ids pl') r" if r: "r < ?B" "r \<notin> set ids" for r
    using next_state_unselected [OF inv _ r(2), of xs' fin eb "pl_lev pl" "rs_kv st"] r
      budget_count_row(3) [OF ids(2) lens(3)] sh ids(3) adv
    by (simp add: row_same_def st'_def eb_def budget_shape_def D_def st_def)
  show ?thesis
    using it kv' kv_same_trans [OF kv1(2) kv'(2)] rows same adv sh bud(2)
    by (intro exI [of _ pl'] exI [of _ kv'] exI [of _ lgs]) (auto simp: st'_def st_def)
qed

section \<open>The bounded loop\<close>

text \<open>
  How many iterations a block can still take: its masks, and for the joint decoder the edits left.
\<close>

definition plan_rank :: "'v plan_env \<Rightarrow> token list \<Rightarrow> nat \<Rightarrow> nat" where
  "plan_rank E x post = mask_count (dec_mask_id (pe_dec E)) x
     + (case pe_dec E of Joint_Decoder _ \<Rightarrow> nat (rc_max_post_steps (pe_rc E)) - post | _ \<Rightarrow> 0)"

lemma plan_rank_bound: "length x = pe_L E \<Longrightarrow> plain_decoder (pe_dec E) \<Longrightarrow> plan_rank E x 0 < max_decode_iters E"
  using mask_count_le [of "dec_mask_id (pe_dec E)" x]
  by (auto simp: plan_rank_def max_decode_iters_def plain_decoder_def split: llada_decoder.splits)

lemma dec_iter_permission:
  assumes "plain_decoder dec" and "\<And>D. dec \<noteq> Joint_Decoder D"
  shows "dec_iter sm gumbel dec i x ae = dec_iter sm gumbel dec i x False"
  using assms by (cases dec) (auto simp: dec_iter_def plain_decoder_def threshold_iter_def)

lemma plan_rank_decreases:
  fixes E :: "'v plan_env" and T pls lg
  defines "D \<equiv> loop_env E T pls lg"
  assumes env: "env_ok D" and inv: "loop_inv D st" and r: "r < de_B D" "rs_flag st ! r"
    and lg: "dec_input_ok (pe_sm E) (pe_gumbel E) (pe_dec E) (pe_L E) l"
    and y: "y = dec_iter (pe_sm E) (pe_gumbel E) (pe_dec E) (l, pp) (row_block D st r)
      (eb_post_steps (rs_budget st) ! r < nat (rc_max_post_steps (pe_rc E)))"
    and unfinished: "\<not> (dec_mask_id (pe_dec E) \<notin> set (row_block D st r) \<and> y = row_block D st r)"
    and post': "post' = eb_post_steps (rs_budget st) ! r
      + (if dec_mask_id (pe_dec E) \<notin> set (row_block D st r) \<and> y \<noteq> row_block D st r then 1 else 0)"
  shows "plan_rank E y post' < plan_rank E (row_block D st r) (eb_post_steps (rs_budget st) ! r)"
proof (cases "\<exists>J. pe_dec E = Joint_Decoder J")
  case True
  have "block_rank (de_mask D) (de_P D) y post'
      < block_rank (de_mask D) (de_P D) (row_block D st r) (eb_post_steps (rs_budget st) ! r)"
    by (rule iteration_budget(2) [OF env inv r, where lg = l and pp = pp])
      (use lg y unfinished post' in \<open>simp_all add: D_def\<close>)
  then show ?thesis using True by (auto simp: plan_rank_def block_rank_def D_def)
next
  case False
  let ?x = "row_block D st r" and ?m = "dec_mask_id (pe_dec E)"
  have plain: "plain_decoder (pe_dec E)" using env by (simp add: env_ok_def D_def)
  have len: "length ?x = pe_L E" using row_inv_window(3) [OF env inv r] by (simp add: D_def)
  have ok: "dec_input_ok (pe_sm E) (pe_gumbel E) (pe_dec E) (pe_L E) (fst (l, pp))" using lg by simp
  have "?m \<in> set ?x"
  proof (rule ccontr)
    assume m: "?m \<notin> set ?x"
    then have "y = ?x"
      using dec.frozen [OF ok len m] dec_iter_permission [OF plain, of "pe_sm E" "pe_gumbel E" "(l, pp)" ?x] False y by metis
    then show False using unfinished m by simp
  qed
  then have "mask_count ?m y < mask_count ?m ?x" using dec.reveals [OF ok len] y by simp
  then show ?thesis using False by (auto simp: plan_rank_def split: llada_decoder.splits)
qed

text \<open>A row after an iteration: still at its block with a smaller rank, or past it with a mask-free block.\<close>

lemma row_step_outcome:
  fixes E :: "'v plan_env" and T pls lg ids pl pl' fl
  defines "D \<equiv> loop_env E T pls lg" and "st \<equiv> loop_state T ids pl"
  assumes env: "env_ok D" and inv: "loop_inv D st" and r: "r < length pls" "r \<in> set ids"
    and step: "row_step D st (loop_state T ids pl'\<lparr>rs_flag := fl\<rparr>) r l"
  shows "length (pl_rows pl' ! r) = T" and "eb_block_iters (pl_budget pl') ! r < pe_L E + nat (rc_max_post_steps (pe_rc E)) + 1"
    and "pl_start pl' ! r = pl_start pl ! r \<Longrightarrow> row_inv D (loop_state T ids' pl') r \<and>
      plan_rank E (gather_window (pl_rows pl' ! r) (pl_start pl ! r) (pe_L E)) (eb_post_steps (pl_budget pl') ! r)
        < plan_rank E (gather_window (pl_rows pl ! r) (pl_start pl ! r) (pe_L E)) (eb_post_steps (pl_budget pl) ! r)"
    and "pl_start pl' ! r \<noteq> pl_start pl ! r \<Longrightarrow>
      dec_mask_id (pe_dec E) \<notin> set (gather_window (pl_rows pl' ! r) (pl_start pl ! r) (pe_L E))"
proof -
  let ?st' = "loop_state T ids pl'\<lparr>rs_flag := fl\<rparr>" and ?L = "pe_L E" and ?s = "pl_start pl ! r"
  have sh: "length (pl_rows pl) = length pls" using inv by (simp add: loop_inv_def D_def st_def)
  have rD: "r < de_B D" "rs_flag st ! r" using r sh by (simp_all add: D_def st_def)
  have L: "0 < ?L" using env by (simp add: env_ok_def D_def)
  note w = row_inv_window [OF env inv rD]
  have win: "?s + ?L \<le> T" "length (pl_rows pl ! r) = T" using w(1,2) by (simp_all add: D_def st_def)
  note prog = row_step_progress(1) [OF env inv rD step]
  show "length (pl_rows pl' ! r) = T" "eb_block_iters (pl_budget pl') ! r < ?L + nat (rc_max_post_steps (pe_rc E)) + 1"
    using prog by (simp_all add: row_inv_def D_def)
  define x where "x = gather_window (pl_rows pl ! r) ?s ?L"
  define post where "post = eb_post_steps (pl_budget pl) ! r"
  define y where "y = dec_iter (pe_sm E) (pe_gumbel E) (pe_dec E) (l, tabulate ?L (\<lambda>i. ?s + i < pls ! r)) x
    (post < nat (rc_max_post_steps (pe_rc E)))"
  have xb: "row_block D st r = x" by (simp add: row_block_def x_def D_def st_def)
  note st = step [unfolded row_step_def Let_def xb]
  have l: "dec_input_ok (pe_sm E) (pe_gumbel E) (pe_dec E) ?L l"
    and rows: "pl_rows pl' ! r = scatter_window (pl_rows pl ! r) ?s y"
    using st by (simp_all add: D_def st_def y_def post_def)
  have ly: "length y = ?L"
    unfolding y_def by (rule dec.step_length) (use l in \<open>simp_all add: x_def\<close>)
  have blk: "gather_window (pl_rows pl' ! r) ?s ?L = y"
    using gather_scatter_window [of ?s y "pl_rows pl ! r"] win ly rows by simp
  define fin where "fin = (dec_mask_id (pe_dec E) \<notin> set x \<and> y = x)"
  have start: "pl_start pl' ! r = ?s \<longleftrightarrow> \<not> fin"
    using st win L by (auto simp: D_def st_def y_def [symmetric] post_def [symmetric] fin_def)
  show "dec_mask_id (pe_dec E) \<notin> set (gather_window (pl_rows pl' ! r) ?s ?L)" if "pl_start pl' ! r \<noteq> ?s"
    using that start blk by (simp add: fin_def)
  assume eq: "pl_start pl' ! r = ?s"
  then have nf: "\<not> fin" using start by simp
  have post': "eb_post_steps (pl_budget pl') ! r = post + (if dec_mask_id (pe_dec E) \<notin> set x \<and> y \<noteq> x then 1 else 0)"
    and flag: "fl ! r"
    using st nf win eq r(1) by (auto simp: D_def st_def y_def [symmetric] post_def [symmetric] fin_def)
  have "row_inv D (loop_state T ids' pl') r"
    using prog flag unfolding row_inv_def by (simp add: row_block_def)
  moreover have "plan_rank E y (eb_post_steps (pl_budget pl') ! r) < plan_rank E x post"
    using plan_rank_decreases [OF env [unfolded D_def] inv [unfolded D_def] rD [unfolded D_def] l, folded D_def, unfolded xb, where y = y
        and pp = "tabulate ?L (\<lambda>i. ?s + i < pls ! r)" and post' = "eb_post_steps (pl_budget pl') ! r"] nf post'
    by (simp add: fin_def y_def post_def st_def)
  ultimately show "row_inv D (loop_state T ids' pl') r \<and> plan_rank E (gather_window (pl_rows pl' ! r) ?s ?L) (eb_post_steps (pl_budget pl') ! r)
        < plan_rank E (gather_window (pl_rows pl ! r) ?s ?L) (eb_post_steps (pl_budget pl) ! r)"
    unfolding blk x_def post_def by blast
qed

lemma loop_inv_next:
  fixes E :: "'v plan_env" and T pls lg ids pl pl' ids'
  defines "D \<equiv> loop_env E T pls lg"
  assumes inv: "loop_inv D (loop_state T ids pl)" and sub: "set ids' \<subseteq> set ids"
    and sh: "length (pl_rows pl') = length pls" "length (pl_start pl') = length pls" "budget_shape D (pl_budget pl')"
    and rows: "\<And>r. r \<in> set ids' \<Longrightarrow> row_inv D (loop_state T ids' pl') r"
    and moved: "\<And>r. r \<in> set ids \<Longrightarrow> length (pl_rows pl' ! r) = T
      \<and> eb_block_iters (pl_budget pl') ! r < pe_L E + nat (rc_max_post_steps (pe_rc E)) + 1"
    and same: "\<And>r. r < length pls \<Longrightarrow> r \<notin> set ids \<Longrightarrow> row_same (loop_state T ids pl) (loop_state T ids pl') r"
  shows "loop_inv D (loop_state T ids' pl')"
proof -
  have B: "de_B D = length pls" and T: "de_total D = T" and LP: "de_L D = pe_L E" "de_P D = nat (rc_max_post_steps (pe_rc E))"
    by (simp_all add: D_def)
  have "row_inv D (loop_state T ids' pl') r" if r: "r < length pls" for r
  proof (cases "r \<in> set ids'")
    case False
    have "length (pl_rows pl' ! r) = T \<and> eb_block_iters (pl_budget pl') ! r < pe_L E + nat (rc_max_post_steps (pe_rc E)) + 1"
    proof (cases "r \<in> set ids")
      case r': False
      then show ?thesis
        using same [OF r r'] inv r by (simp add: loop_inv_def row_inv_def row_same_def D_def)
    qed (rule moved)
    then show ?thesis using False r sh(1) by (simp add: row_inv_def T LP)
  qed (rule rows)
  then show ?thesis using sh by (simp add: loop_inv_def B store_ok_def list_all_iff loop_state_def D_def)
qed

lemma plan_decode_loop_ok:
  fixes E :: "'v plan_env" and T pls lg
  defines "D \<equiv> loop_env E T pls lg"
  assumes model: "plan_model_ok E" and env: "env_ok D"
    and lg0: "dec_input_ok (pe_sm E) (pe_gumbel E) (pe_dec E) (pe_L E) lg"
  shows "\<lbrakk>loop_inv D (loop_state T ids pl); ids \<noteq> []; distinct ids; \<forall>s \<in> set ids. s < length pls;
      \<forall>s \<in> set ids. plan_rank E (gather_window (pl_rows pl ! s) (pl_start pl ! s) (pe_L E)) (eb_post_steps (pl_budget pl) ! s) < n;
      pr_kv pr = Some kv; kv_wf kv; \<forall>s \<in> set ids. seq_ok kv s (pl_start pl ! s + pe_L E)\<rbrakk>
    \<Longrightarrow> \<exists>pr' pl' kv'. plan_decode_loop E T pls n ids pl pr = (pr', Inr pl') \<and> pr_kv pr' = Some kv' \<and> kv_wf kv' \<and> kv_same kv kv'
      \<and> (\<forall>r < length pls. r \<notin> set ids \<longrightarrow> pl_rows pl' ! r = pl_rows pl ! r)
      \<and> (\<forall>s \<in> set ids. length (pl_rows pl' ! s) = T
           \<and> dec_mask_id (pe_dec E) \<notin> set (gather_window (pl_rows pl' ! s) (pl_start pl ! s) (pe_L E)))"
proof (induction n arbitrary: ids pl pr kv)
  case 0
  then show ?case by (cases ids) auto
next
  case (Suc n)
  obtain pl1 kv1 lgs fl where it: "decode_selected_batch E T pls ids pl pr
        = (pr\<lparr>pr_kv := Some kv1, pr_forwards := pr_forwards pr + 1\<rparr>, Inr pl1)" (is "_ = (?pr1, _)")
    and kv1: "kv_wf kv1" "kv_same kv kv1"
    and steps: "\<And>k. k < length ids \<Longrightarrow> row_step D (loop_state T ids pl) (loop_state T ids pl1\<lparr>rs_flag := fl\<rparr>) (ids ! k) (lgs ! k)"
    and same: "\<And>r. r < length pls \<Longrightarrow> r \<notin> set ids \<Longrightarrow> row_same (loop_state T ids pl) (loop_state T ids pl1) r"
    and sh: "length (pl_rows pl1) = length pls" "length (pl_start pl1) = length pls" "budget_shape D (pl_budget pl1)"
    using decode_selected_ok [OF model env [unfolded D_def] Suc.prems(1) [unfolded D_def] lg0 Suc.prems(2-4,6-8)]
    unfolding D_def by blast
  have out: "length (pl_rows pl1 ! s) = T \<and> eb_block_iters (pl_budget pl1) ! s < pe_L E + nat (rc_max_post_steps (pe_rc E)) + 1"
    "pl_start pl1 ! s = pl_start pl ! s \<Longrightarrow> row_inv D (loop_state T ids' pl1) s \<and>
      plan_rank E (gather_window (pl_rows pl1 ! s) (pl_start pl ! s) (pe_L E)) (eb_post_steps (pl_budget pl1) ! s) < n"
    "pl_start pl1 ! s \<noteq> pl_start pl ! s \<Longrightarrow>
      dec_mask_id (pe_dec E) \<notin> set (gather_window (pl_rows pl1 ! s) (pl_start pl ! s) (pe_L E))"
    if mem: "s \<in> set ids" for s ids'
  proof -
    obtain k where k: "k < length ids" "s = ids ! k" using mem by (metis in_set_conv_nth)
    have sB: "s < length pls" using Suc.prems(4) mem by blast
    note o4 = row_step_outcome [OF env [unfolded D_def] Suc.prems(1) [unfolded D_def] sB mem
        steps [OF k(1), folded k(2), unfolded D_def], folded D_def]
    show "length (pl_rows pl1 ! s) = T \<and> eb_block_iters (pl_budget pl1) ! s < pe_L E + nat (rc_max_post_steps (pe_rc E)) + 1"
      using o4(1,2) by blast
    show "row_inv D (loop_state T ids' pl1) s \<and>
        plan_rank E (gather_window (pl_rows pl1 ! s) (pl_start pl ! s) (pe_L E)) (eb_post_steps (pl_budget pl1) ! s) < n"
      if "pl_start pl1 ! s = pl_start pl ! s"
      using o4(3) [OF that, of ids'] Suc.prems(5) mem by fastforce
    show "dec_mask_id (pe_dec E) \<notin> set (gather_window (pl_rows pl1 ! s) (pl_start pl ! s) (pe_L E))"
      if "pl_start pl1 ! s \<noteq> pl_start pl ! s" by (rule o4(4) [OF that])
  qed
  define rest where "rest = filter (\<lambda>s. pl_start pl1 ! s = pl_start pl ! s) ids"
  have rest: "s \<in> set rest \<longleftrightarrow> s \<in> set ids \<and> pl_start pl1 ! s = pl_start pl ! s" for s by (auto simp: rest_def)
  have kept: "pl_rows pl1 ! r = pl_rows pl ! r" if "r < length pls" "r \<notin> set ids" for r
    using same [OF that] by (simp add: row_same_def)
  show ?case
  proof (cases "rest = []")
    case True
    then have ne: "pl_start pl1 ! s \<noteq> pl_start pl ! s" if "s \<in> set ids" for s using rest [of s] that by simp
    have "plan_decode_loop E T pls (Suc n) ids pl pr = (?pr1, Inr pl1)"
      using True by (simp add: it Let_def rest_def [symmetric])
    then show ?thesis using kv1 kept out(1,3) ne by (intro exI [of _ ?pr1] exI [of _ pl1] exI [of _ kv1]) auto
  next
    case False
    have inv1: "loop_inv D (loop_state T rest pl1)"
      unfolding D_def by (rule loop_inv_next [OF Suc.prems(1) [unfolded D_def]]) (use rest sh out same in \<open>auto simp: D_def\<close>)
    have "\<exists>pr' pl' kv'. plan_decode_loop E T pls n rest pl1 ?pr1 = (pr', Inr pl') \<and> pr_kv pr' = Some kv' \<and> kv_wf kv' \<and> kv_same kv1 kv'
      \<and> (\<forall>r < length pls. r \<notin> set rest \<longrightarrow> pl_rows pl' ! r = pl_rows pl1 ! r)
      \<and> (\<forall>s \<in> set rest. length (pl_rows pl' ! s) = T
           \<and> dec_mask_id (pe_dec E) \<notin> set (gather_window (pl_rows pl' ! s) (pl_start pl1 ! s) (pe_L E)))"
    proof (rule Suc.IH [OF inv1 False])
      show "distinct rest" "\<forall>s \<in> set rest. s < length pls" using Suc.prems(3,4) by (auto simp: rest_def)
      show "\<forall>s \<in> set rest. plan_rank E (gather_window (pl_rows pl1 ! s) (pl_start pl1 ! s) (pe_L E)) (eb_post_steps (pl_budget pl1) ! s) < n"
        using rest out(2) by (metis (no_types, lifting))
      show "\<forall>s \<in> set rest. seq_ok kv1 s (pl_start pl1 ! s + pe_L E)"
        using rest Suc.prems(8) kv_same_seq_ok [OF kv1(2)] by metis
    qed (use kv1 in auto)
    then obtain pr' pl' kv' where loop: "plan_decode_loop E T pls n rest pl1 ?pr1 = (pr', Inr pl')"
      and p: "pr_kv pr' = Some kv'" "kv_wf kv'" "kv_same kv1 kv'"
      and k: "\<And>r. r < length pls \<Longrightarrow> r \<notin> set rest \<Longrightarrow> pl_rows pl' ! r = pl_rows pl1 ! r"
      and m: "\<And>s. s \<in> set rest \<Longrightarrow> length (pl_rows pl' ! s) = T
           \<and> dec_mask_id (pe_dec E) \<notin> set (gather_window (pl_rows pl' ! s) (pl_start pl1 ! s) (pe_L E))" by blast
    have "plan_decode_loop E T pls (Suc n) ids pl pr = (pr', Inr pl')"
      using False loop by (simp add: it Let_def rest_def [symmetric])
    moreover have "pl_rows pl' ! r = pl_rows pl ! r" if "r < length pls" "r \<notin> set ids" for r
      using k kept rest that by simp
    moreover have "length (pl_rows pl' ! s) = T
        \<and> dec_mask_id (pe_dec E) \<notin> set (gather_window (pl_rows pl' ! s) (pl_start pl ! s) (pe_L E))" if s: "s \<in> set ids" for s
    proof (cases "s \<in> set rest")
      case True
      then show ?thesis using m rest by metis
    next
      case s': False
      then have "pl_rows pl' ! s = pl_rows pl1 ! s" using k Suc.prems(4) s by blast
      then show ?thesis using out(1,3) [OF s] rest s s' by simp
    qed
    ultimately show ?thesis using p kv_same_trans [OF kv1(2) p(3)] by blast
  qed
qed

section \<open>The blocks of a request\<close>

text \<open>
  Where a request stands between two plans: nothing is generated before its first block, and after
  \<open>n\<close> blocks the tokens reach exactly to the start of block \<open>n\<close>.
\<close>

definition plan_aligned :: "nat \<Rightarrow> request_state \<Rightarrow> bool" where
  "plan_aligned L st = (if rs_current_decode_block st = 0 then rs_output_ids st = []
     else length (rs_input_ids st) + length (rs_output_ids st) = block_start_of L st)"

definition block_result_ok :: "'v plan_env \<Rightarrow> request_state \<Rightarrow> step_result \<Rightarrow> bool" where
  "block_result_ok E st res =
     (length (sr_token_ids res) \<le> remaining_tokens st \<and> length (sr_token_ids res) \<le> pe_L E
      \<and> int (dec_mask_id (pe_dec E)) \<notin> set (sr_token_ids res)
      \<and> (\<not> rs_ignore_eos st \<longrightarrow> set (sr_token_ids res) \<inter> int ` set (dec_eos_ids (pe_dec E)) = {})
      \<and> sr_decode_block_completed res
      \<and> (if sr_finished res then sr_finish_reason res \<in> {Some ''stop'', Some ''length''} \<and> sr_reserve_tokens res = 0
         else sr_finish_reason res = None \<and> sr_reserve_tokens res = pe_L E
           \<and> int (length (rs_output_ids st)) + int (length (sr_token_ids res)) < rs_max_new_tokens st
           \<and> length (rs_input_ids st) + length (rs_output_ids st) + length (sr_token_ids res) = block_start_of (pe_L E) st + pe_L E))"

lemma aligned_positions:
  assumes "plan_aligned L st" and "0 < L"
  shows "max (block_start_of L st) (length (rs_input_ids st)) = length (rs_input_ids st) + length (rs_output_ids st)"
    and "length (rs_input_ids st) + length (rs_output_ids st) \<le> block_start_of L st + L"
proof -
  have "length (rs_input_ids st) < aligned_prefill_length st L + L"
    unfolding aligned_prefill_length_def
    using div_mult_mod_eq [of "length (rs_input_ids st)" L] mod_less_divisor [OF assms(2), of "length (rs_input_ids st)"]
    by linarith
  then show "max (block_start_of L st) (length (rs_input_ids st)) = length (rs_input_ids st) + length (rs_output_ids st)"
    "length (rs_input_ids st) + length (rs_output_ids st) \<le> block_start_of L st + L"
    using assms(1) aligned_prefill_le [of st L] by (auto simp: plan_aligned_def block_start_of_def split: if_splits)
qed

lemma plan_step_result_ok:
  assumes al: "plan_aligned (pe_L E) st" and L: "0 < pe_L E"
    and len: "block_start_of (pe_L E) st + pe_L E \<le> length row"
    and mask: "dec_mask_id (pe_dec E) \<notin> set (gather_window row (block_start_of (pe_L E) st) (pe_L E))"
  shows "block_result_ok E st (plan_step_result E rid st row)"
proof -
  let ?L = "pe_L E" and ?bs = "block_start_of (pe_L E) st" and ?n = "length (rs_input_ids st) + length (rs_output_ids st)"
  let ?m = "int (dec_mask_id (pe_dec E))" and ?eos = "map int (dec_eos_ids (pe_dec E))"
  note pos = aligned_positions [OF al L]
  define raw where "raw = map int (slice ?n (?bs + ?L) row)"
  define gen where "gen = take (remaining_tokens st) raw"
  have lraw: "length raw = ?bs + ?L - ?n" using len by (simp add: raw_def)
  have "set (slice ?n (?bs + ?L) row) \<subseteq> set (slice ?bs (?bs + ?L) row)"
  proof -
    have "?bs \<le> ?n" using pos(1) by simp
    then show ?thesis unfolding slice_def by (metis set_drop_subset_set_drop diff_diff_left drop_take le_add_diff_inverse set_take_subset_set_take)
  qed
  then have mraw: "?m \<notin> set raw" using mask gather_window_inside [OF len] by (auto simp: raw_def)
  have mgen: "?m \<notin> set gen" using mraw by (auto simp: gen_def dest: in_set_takeD)
  define stop where "stop = (if rs_ignore_eos st then None else first_index (\<lambda>t. t \<in> set ?eos) gen)"
  define cut where "cut = (case stop of Some i \<Rightarrow> take i gen | None \<Rightarrow> gen)"
  define kept where "kept = (if rs_ignore_eos st then filter (\<lambda>t. t \<noteq> ?m) cut else filter (\<lambda>t. t \<noteq> ?m \<and> t \<notin> set ?eos) cut)"
  define fin where "fin = (stop \<noteq> None \<or> int (length (rs_output_ids st)) + int (length kept) \<ge> rs_max_new_tokens st)"
  have res: "plan_step_result E rid st row = \<lparr> sr_rid = rid, sr_token_ids = kept, sr_text = pe_decode_text E kept, sr_finished = fin,
      sr_finish_reason = (if stop \<noteq> None then Some ''stop'' else if fin then Some ''length'' else None),
      sr_reserve_tokens = (if fin then 0 else ?L), sr_decode_block_completed = True \<rparr>"
    unfolding plan_step_result_def Let_def pos(1) raw_def [symmetric] gen_def [symmetric] stop_def [symmetric]
      cut_def [symmetric] kept_def [symmetric] fin_def [symmetric] ..
  have lc: "length cut \<le> length gen" by (simp add: cut_def split: option.split)
  have lk: "length kept \<le> length cut" by (simp add: kept_def)
  have lg: "length gen \<le> remaining_tokens st" "length gen \<le> ?L"
    using lraw pos by (auto simp: gen_def)
  have full: "?n + length kept = ?bs + ?L" if nf: "\<not> fin"
  proof -
    have s: "stop = None" using nf by (simp add: fin_def)
    then have "rs_ignore_eos st \<or> (\<forall>t \<in> set gen. t \<notin> set ?eos)"
      by (auto simp: stop_def first_index_None split: if_splits)
    then have k: "kept = gen" using mgen s by (auto simp: kept_def cut_def filter_id_conv)
    have "int (length (rs_output_ids st)) + int (length gen) < rs_max_new_tokens st" using nf k by (simp add: fin_def)
    then have "length gen < remaining_tokens st" by (simp add: remaining_tokens_def)
    then have "length gen = length raw" by (simp add: gen_def)
    then show ?thesis using k lraw pos(2) by simp
  qed
  have "?m \<notin> set kept" "\<not> rs_ignore_eos st \<Longrightarrow> set kept \<inter> set ?eos = {}" by (auto simp: kept_def)
  then show ?thesis
    using full lc lk lg by (auto simp: block_result_ok_def res fin_def)
qed

section \<open>Decoding the active rows of a plan\<close>

text \<open>The active requests of a plan: distinct slots inside the batch, aligned, their block covered by pages.\<close>

definition active_ok :: "'v plan_env \<Rightarrow> 'v paged_kv \<Rightarrow> (nat \<times> request_state) list \<Rightarrow> bool" where
  "active_ok E kv act = (distinct (map fst act) \<and> list_all (\<lambda>(s, st). s < pe_max_num_seqs E
     \<and> plan_aligned (pe_L E) st \<and> seq_ok kv s (block_start_of (pe_L E) st + pe_L E)) act)"

lemma active_okD:
  assumes "active_ok E kv act" and "(s, st) \<in> set act"
  shows "s < pe_max_num_seqs E" "plan_aligned (pe_L E) st" "seq_ok kv s (block_start_of (pe_L E) st + pe_L E)"
  using assms by (auto simp: active_ok_def list_all_iff)

lemma plan_total_ge: "(s, st) \<in> set act \<Longrightarrow> block_start_of (pe_L E) st + pe_L E \<le> plan_total E act"
  unfolding plan_total_def by (rule Max_ge) force+

lemma plan_tokens_ok:
  assumes act: "active_ok E kv act" and L: "0 < pe_L E"
  shows "\<exists>tokens. plan_tokens E act = Inr tokens \<and> length tokens = pe_max_num_seqs E
    \<and> (\<forall>r < pe_max_num_seqs E. length (tokens ! r) = plan_total E act)"
  unfolding plan_tokens_def
proof (rule result_fold_ok)
  fix sr and rows :: "token list list"
  assume sr: "sr \<in> set act" and I: "length rows = pe_max_num_seqs E \<and> (\<forall>r < pe_max_num_seqs E. length (rows ! r) = plan_total E act)"
  obtain s st where eq: "sr = (s, st)" by fastforce
  note d = active_okD [OF act sr [unfolded eq]]
  have "length (rs_input_ids st) + length (rs_output_ids st) \<le> plan_total E act"
    using aligned_positions(2) [OF d(2) L] plan_total_ge [OF sr [unfolded eq], of E] by linarith
  then show "\<exists>rows'. put_tokens sr rows = Inr rows' \<and> length rows' = pe_max_num_seqs E
      \<and> (\<forall>r < pe_max_num_seqs E. length (rows' ! r) = plan_total E act)"
    using d(1) I by (auto simp: eq put_tokens_def Let_def nth_list_update)
qed simp

lemma scatter_act:
  assumes "active_ok E kv act" and "(s, st) \<in> set act"
  shows "scatter (replicate (pe_max_num_seqs E) z) (map fst act) (map (\<lambda>(s, st). f st) act) ! s = f st"
proof -
  obtain k where k: "k < length act" "act ! k = (s, st)" using assms(2) by (metis in_set_conv_nth)
  have "distinct (map fst act)" using assms(1) by (simp add: active_ok_def)
  then have "scatter (replicate (pe_max_num_seqs E) z) (map fst act) (map (\<lambda>(s, st). f st) act) ! (map fst act ! k)
      = map (\<lambda>(s, st). f st) act ! k"
    by (rule nth_scatter_distinct) (use k active_okD(1) [OF assms] in simp_all)
  then show ?thesis using k by simp
qed

lemma plan_loop_init_inv:
  fixes E :: "'v plan_env" and act tokens lg
  defines "pl \<equiv> plan_loop_init E act tokens" and "D \<equiv> loop_env E (plan_total E act) (plan_prompt_lengths E act) lg"
  assumes act: "active_ok E kv act" and plain: "plain_decoder (pe_dec E)" and L: "0 < pe_L E"
    and tok: "length tokens = pe_max_num_seqs E" "\<forall>r < pe_max_num_seqs E. length (tokens ! r) = plan_total E act"
  shows "loop_inv D (loop_state (plan_total E act) (map fst act) pl)"
    and "(s, st) \<in> set act \<Longrightarrow> pl_start pl ! s = block_start_of (pe_L E) st"
    and "s < pe_max_num_seqs E \<Longrightarrow> eb_post_steps (pl_budget pl) ! s = 0"
proof -
  let ?n = "pe_max_num_seqs E"
  have pl: "pl_rows pl = tokens" "pl_budget pl = budget_init ?n (nat (rc_max_post_steps (pe_rc E))) (pe_L E) None"
    "pl_start pl = scatter (replicate ?n 0) (map fst act) (map (\<lambda>(s, st). block_start_of (pe_L E) st) act)"
    using plain by (auto simp: pl_def plan_loop_init_def make_decode_loop_state_def plain_decoder_def split: llada_decoder.splits)
  show start: "pl_start pl ! s = block_start_of (pe_L E) st" if "(s, st) \<in> set act" for s st
    unfolding pl(3) by (rule scatter_act [OF act that])
  show "eb_post_steps (pl_budget pl) ! s = 0" if "s < ?n" using that by (simp add: pl(2) budget_init_def)
  have B: "length (plan_prompt_lengths E act) = ?n" by (simp add: plan_prompt_lengths_def)
  have "row_inv D (loop_state (plan_total E act) (map fst act) pl) r" if r: "r < ?n" for r
  proof -
    have "pl_start pl ! r + pe_L E \<le> plan_total E act" if "r \<in> set (map fst act)"
      using that start plan_total_ge [of r _ act E] by fastforce
    then show ?thesis
      using r tok B by (auto simp: row_inv_def D_def pl(1,2) budget_init_def budget_row_fresh)
  qed
  then show "loop_inv D (loop_state (plan_total E act) (map fst act) pl)"
    using tok B by (simp add: loop_inv_def D_def pl budget_init_def budget_shape_def store_ok_def list_all_iff loop_state_def)
qed

lemma active_zip:
  "length (active_states op k ss d) = length (active_rows op k d)"
  "i < length (active_rows op k d) \<Longrightarrow> active_states op k ss d ! i
    = (ss ! (active_rows op k d ! i), the (map_of d (fo_request_ids op ! (active_rows op k d ! i))))"
  by (simp_all add: active_states_def)

lemma execute_paged_decode_ok:
  fixes E :: "'v plan_env"
  assumes model: "plan_model_ok E" and plain: "plain_decoder (pe_dec E)" and L: "0 < pe_L E"
    and kv: "pr_kv pr = Some kv" "kv_wf kv" and act: "active_ok E kv (active_states op k ss d)"
  shows "\<exists>pr' rs kv'. execute_paged_decode E op k ss d pr = (pr', Inr rs) \<and> pr_kv pr' = Some kv' \<and> kv_wf kv' \<and> kv_same kv kv'
    \<and> length rs = length (active_rows op k d)
    \<and> (\<forall>i < length rs. sr_rid (rs ! i) = fo_request_ids op ! (active_rows op k d ! i)
         \<and> block_result_ok E (the (map_of d (sr_rid (rs ! i)))) (rs ! i))"
proof (cases "active_rows op k d = []")
  case True
  then show ?thesis using kv by (auto simp: execute_paged_decode_def intro!: exI [of _ kv])
next
  case False
  let ?act = "active_states op k ss d" and ?rows = "active_rows op k d"
  let ?T = "plan_total E ?act" and ?pls = "plan_prompt_lengths E ?act"
  obtain d' lgs cells where m: "pe_decode_fwd E undefined [[]] [] [] = (d', lgs, cells)" using prod_cases3 by blast
  have lg: "dec_input_ok (pe_sm E) (pe_gumbel E) (pe_dec E) (pe_L E) (lgs ! 0)"
    using model [unfolded plan_model_ok_def, THEN conjunct1, rule_format, OF m] by simp
  have B: "length ?pls = pe_max_num_seqs E" by (simp add: plan_prompt_lengths_def)
  have ne: "map fst ?act \<noteq> []" and dist: "distinct (map fst ?act)" using False act by (simp_all add: active_states_def active_ok_def)
  obtain tokens where tok: "plan_tokens E ?act = Inr tokens" "length tokens = pe_max_num_seqs E"
    "\<forall>r < pe_max_num_seqs E. length (tokens ! r) = ?T" using plan_tokens_ok [OF act L] by blast
  define pl where "pl = plan_loop_init E ?act tokens"
  note inv0 = plan_loop_init_inv(1) [OF act plain L tok(2,3), where lg = "lgs ! 0", folded pl_def]
    and init = plan_loop_init_inv(2,3) [OF act plain L tok(2,3), folded pl_def]
  have mem: "\<exists>st. (s, st) \<in> set ?act" if "s \<in> set (map fst ?act)" for s using that by auto
  have "\<exists>pr' pl' kv'. plan_decode_loop E ?T ?pls (max_decode_iters E) (map fst ?act) pl pr = (pr', Inr pl')
      \<and> pr_kv pr' = Some kv' \<and> kv_wf kv' \<and> kv_same kv kv'
      \<and> (\<forall>r < length ?pls. r \<notin> set (map fst ?act) \<longrightarrow> pl_rows pl' ! r = pl_rows pl ! r)
      \<and> (\<forall>s \<in> set (map fst ?act). length (pl_rows pl' ! s) = ?T
           \<and> dec_mask_id (pe_dec E) \<notin> set (gather_window (pl_rows pl' ! s) (pl_start pl ! s) (pe_L E)))"
  proof (rule plan_decode_loop_ok [OF model loop_env_ok [OF plain L lg] lg inv0 ne dist _ _ kv])
    show "\<forall>s \<in> set (map fst ?act). s < length ?pls" using active_okD(1) [OF act] by (auto simp: B)
    show "\<forall>s \<in> set (map fst ?act). plan_rank E (gather_window (pl_rows pl ! s) (pl_start pl ! s) (pe_L E)) (eb_post_steps (pl_budget pl) ! s)
        < max_decode_iters E"
      using plan_rank_bound [OF _ plain] init(2) active_okD(1) [OF act] by auto
    show "\<forall>s \<in> set (map fst ?act). seq_ok kv s (pl_start pl ! s + pe_L E)"
      using init(1) active_okD(3) [OF act] by auto
  qed
  then obtain pr' pl' kv' where loop: "plan_decode_loop E ?T ?pls (max_decode_iters E) (map fst ?act) pl pr = (pr', Inr pl')"
    and kv': "pr_kv pr' = Some kv'" "kv_wf kv'" "kv_same kv kv'"
    and fin: "\<And>s. s \<in> set (map fst ?act) \<Longrightarrow> length (pl_rows pl' ! s) = ?T
           \<and> dec_mask_id (pe_dec E) \<notin> set (gather_window (pl_rows pl' ! s) (pl_start pl ! s) (pe_L E))" by blast
  define rs where "rs = map2 (\<lambda>row (s, st). plan_step_result E (fo_request_ids op ! row) st (pl_rows pl' ! s)) ?rows ?act"
  have "execute_paged_decode E op k ss d pr = (pr', Inr rs)"
    using False by (simp add: execute_paged_decode_def Let_def tok(1) pl_def [symmetric] loop rs_def)
  moreover have "sr_rid (rs ! i) = fo_request_ids op ! (?rows ! i) \<and> block_result_ok E (the (map_of d (sr_rid (rs ! i)))) (rs ! i)"
    if i': "i < length rs" for i
  proof -
    have i: "i < length ?rows" using i' by (simp add: rs_def active_zip(1))
    obtain s st where a: "?act ! i = (s, st)" by fastforce
    have in_act: "(s, st) \<in> set ?act" using a i active_zip(1) [of op k ss d] by (metis nth_mem)
    have st: "st = the (map_of d (fo_request_ids op ! (?rows ! i)))" using active_zip(2) [OF i, of ss] a by simp
    have ri: "rs ! i = plan_step_result E (fo_request_ids op ! (?rows ! i)) st (pl_rows pl' ! s)"
      using i a active_zip(1) [of op k ss d] by (simp add: rs_def)
    have "s \<in> set (map fst ?act)" using in_act by force
    from fin [OF this] have "block_result_ok E st (rs ! i)"
      unfolding ri by (intro plan_step_result_ok) (use active_okD(2) [OF act in_act] L init(1) [OF in_act]
          plan_total_ge [OF in_act, of E] in auto)
    moreover have "sr_rid (rs ! i) = fo_request_ids op ! (?rows ! i)" by (simp add: ri plan_step_result_def Let_def)
    ultimately show ?thesis using st by simp
  qed
  moreover have "length rs = length ?rows" by (simp add: rs_def active_zip(1))
  ultimately show ?thesis using kv' by blast
qed

section \<open>Slots, pages and prefill of a ready plan\<close>

lemma paged_slots_available:
  assumes "slots_ok n slots" and "card (fst ` set slots \<union> set rids) \<le> n"
  shows "\<exists>slots' ss. paged_slots n rids slots = (slots', Inr ss)"
  using assms
proof (induction rids arbitrary: slots)
  case (Cons a rids)
  obtain slots1 q where one: "paged_slot n a slots = (slots1, q)" by fastforce
  have "\<exists>s. q = Inr s \<and> fst ` set slots1 = insert a (fst ` set slots)"
  proof (cases "map_of slots a")
    case (Some s)
    then have "a \<in> fst ` set slots" by (force dest: map_of_SomeD)
    then show ?thesis using one Some by (auto simp: paged_slot_def)
  next
    case None
    have new: "a \<notin> fst ` set slots" using None by (simp add: map_of_eq_None_iff)
    have "card (fst ` set slots) = length slots"
      using Cons.prems(1) distinct_card [of "map fst slots"] by (simp add: slots_ok_def)
    moreover have "card (insert a (fst ` set slots)) \<le> card (fst ` set slots \<union> set (a # rids))" by (rule card_mono) auto
    ultimately have "length slots \<noteq> n" using new Cons.prems(2) by simp
    then obtain s where "find (\<lambda>s. s \<notin> set (map snd slots)) [0..<n] = Some s"
      using paged_slot_full [OF Cons.prems(1) None] by (cases "find (\<lambda>s. s \<notin> set (map snd slots)) [0..<n]") auto
    then have "slots1 = dict_set a s slots" "q = Inr s" using one None by (simp_all add: paged_slot_def)
    then show ?thesis by simp
  qed
  then obtain s where q: "q = Inr s" and keys: "fst ` set slots1 = insert a (fst ` set slots)" by blast
  have "\<exists>slots' ss. paged_slots n rids slots1 = (slots', Inr ss)"
    by (rule Cons.IH [OF paged_slot_ok(1) [OF Cons.prems(1) one]]) (use Cons.prems(2) keys in simp)
  then show ?case using one q by auto
qed simp

text \<open>Pages of one request for its first \<open>n\<close> positions.\<close>

definition pages_ok :: "'v paged_kv \<Rightarrow> int \<Rightarrow> int list \<Rightarrow> nat \<Rightarrow> bool" where
  "pages_ok kv dev pages n = (length pages \<le> kv_pages_per_sequence kv \<and> distinct pages
     \<and> list_all (\<lambda>p. 0 < p \<and> p < dev) pages \<and> n \<le> kv_max_length kv \<and> ceil_div n (kv_page_size kv) \<le> length pages)"

lemma set_page_table_ok:
  assumes "kv_wf kv" and "s < kv_batch_size kv" and "dev \<le> int (kv_num_pages kv)" and "pages_ok kv dev pages n"
  shows "\<exists>t. set_page_table (int s) pages kv = Inr (kv\<lparr>kv_page_table := t\<rparr>) \<and> kv_wf (kv\<lparr>kv_page_table := t\<rparr>)
    \<and> take (length pages) (t ! s) = map nat pages \<and> (\<forall>r. r \<noteq> s \<longrightarrow> t ! r = kv_page_table kv ! r)"
proof -
  note ex = set_page_table_exact [OF assms(1), of "int s" pages]
  have "is_ok (set_page_table (int s) pages kv)"
    unfolding conjunct1 [OF ex] using assms by (auto simp: pages_ok_def list_all_iff)
  then obtain kv' where kv': "set_page_table (int s) pages kv = Inr kv'"
    by (cases "set_page_table (int s) pages kv") (auto simp: is_ok_def)
  then have "\<exists>t. kv' = kv\<lparr>kv_page_table := t\<rparr>"
    by (auto simp: set_page_table_def split: if_splits intro: exI [of _ "kv_page_table kv"])
  then show ?thesis using kv' conjunct2 [OF ex] by (cases "pages = []") auto
qed

lemma set_page_rows_ok:
  assumes "kv_wf kv" and "distinct (map fst rows)" and "dev \<le> int (kv_num_pages kv)"
    and "\<forall>(s, pages) \<in> set rows. s < kv_batch_size kv \<and> (\<exists>n. pages_ok kv dev pages n)"
  shows "\<exists>t. set_page_rows (map (\<lambda>(s, pages). (int s, pages)) rows) kv = (kv\<lparr>kv_page_table := t\<rparr>, Inr ())
    \<and> kv_wf (kv\<lparr>kv_page_table := t\<rparr>) \<and> (\<forall>(s, pages) \<in> set rows. take (length pages) (t ! s) = map nat pages)
    \<and> (\<forall>s. s \<notin> set (map fst rows) \<longrightarrow> t ! s = kv_page_table kv ! s)"
  using assms
proof (induction rows arbitrary: kv)
  case Nil
  have "kv\<lparr>kv_page_table := kv_page_table kv\<rparr> = kv" by (cases kv) simp
  then show ?case using Nil(1) by (intro exI [of _ "kv_page_table kv"]) simp
next
  case (Cons x rows)
  obtain s pages where x: "x = (s, pages)" by fastforce
  obtain n where n: "pages_ok kv dev pages n" "s < kv_batch_size kv" using Cons.prems(4) by (auto simp: x)
  obtain t where t: "set_page_table (int s) pages kv = Inr (kv\<lparr>kv_page_table := t\<rparr>)" "kv_wf (kv\<lparr>kv_page_table := t\<rparr>)"
    "take (length pages) (t ! s) = map nat pages" "\<forall>r. r \<noteq> s \<longrightarrow> t ! r = kv_page_table kv ! r"
    using set_page_table_ok [OF Cons.prems(1) n(2) Cons.prems(3) n(1)] by blast
  have *: "\<forall>(s, pages) \<in> set rows. s < kv_batch_size (kv\<lparr>kv_page_table := t\<rparr>) \<and> (\<exists>n. pages_ok (kv\<lparr>kv_page_table := t\<rparr>) dev pages n)"
    using Cons.prems(4) by (auto simp: pages_ok_def)
  have "\<exists>t'. set_page_rows (map (\<lambda>(s, pages). (int s, pages)) rows) (kv\<lparr>kv_page_table := t\<rparr>) = (kv\<lparr>kv_page_table := t'\<rparr>, Inr ())
      \<and> kv_wf (kv\<lparr>kv_page_table := t'\<rparr>) \<and> (\<forall>(s, pages) \<in> set rows. take (length pages) (t' ! s) = map nat pages)
      \<and> (\<forall>s. s \<notin> set (map fst rows) \<longrightarrow> t' ! s = t ! s)"
    using Cons.IH [OF t(2) _ _ *] Cons.prems(2,3) by simp
  then obtain t' where t': "set_page_rows (map (\<lambda>(s, pages). (int s, pages)) rows) (kv\<lparr>kv_page_table := t\<rparr>) = (kv\<lparr>kv_page_table := t'\<rparr>, Inr ())"
    "kv_wf (kv\<lparr>kv_page_table := t'\<rparr>)" "\<forall>(s, pages) \<in> set rows. take (length pages) (t' ! s) = map nat pages"
    "\<forall>s. s \<notin> set (map fst rows) \<longrightarrow> t' ! s = t ! s" by blast
  have "t' ! s = t ! s" using t'(4) Cons.prems(2) by (simp add: x)
  then have "\<forall>(s, pages) \<in> set (x # rows). take (length pages) (t' ! s) = map nat pages" using t(3) t'(3) by (simp add: x)
  moreover have "t' ! r = kv_page_table kv ! r" if "r \<notin> set (map fst (x # rows))" for r
    using that t(4) t'(4) by (simp add: x)
  moreover have "set_page_rows (map (\<lambda>(s, pages). (int s, pages)) (x # rows)) kv = (kv\<lparr>kv_page_table := t'\<rparr>, Inr ())"
    using t(1) t'(1) by (simp add: x)
  ultimately show ?case using t'(2) by blast
qed

lemma seq_ok_pages:
  assumes "kv_wf kv" and "s < kv_batch_size kv" and "take (length pages) (kv_page_table kv ! s) = map nat pages"
    and "pages_ok kv dev pages n"
  shows "seq_ok kv s n"
proof -
  have c: "ceil_div n (kv_page_size kv) \<le> length pages" "distinct pages" "\<forall>p \<in> set pages. 0 < p" "n \<le> kv_max_length kv"
    using assms(4) by (auto simp: pages_ok_def list_all_iff)
  have "seq_pages kv s n = take (ceil_div n (kv_page_size kv)) (map nat pages)"
    unfolding seq_pages_def assms(3) [symmetric] using c(1) by (simp add: min_def)
  moreover have "distinct (map nat pages)" using c(2,3) by (auto simp: distinct_map inj_on_def)
  moreover have "0 \<notin> set (map nat pages)" using c(3) by auto
  ultimately show ?thesis using assms(2) c(4) by (auto simp: seq_ok_def dest: in_set_takeD)
qed

lemma prefill_batch_ok:
  assumes "kv_wf kv" and len: "length offs = length ids" "length lens = length ids" and pos: "\<forall>n \<in> set lens. 0 < n"
    and seq: "\<And>k. k < length ids \<Longrightarrow> seq_ok kv (ids ! k) (offs ! k + lens ! k)"
  shows "\<exists>fb. make_scheduler_paged_batch E ids offs lens (map2 (+) offs lens) True kv = Inr fb"
proof -
  let ?ns = "map2 (+) offs lens" and ?M = "Max (set lens)"
  let ?ps = "map2 (\<lambda>off len. map (\<lambda>i. min (off + i) (off + len - 1)) [0..<?M]) offs lens"
  have each: "seq_ok kv (ids ! k) (?ns ! k) \<and> 0 < ?ns ! k" if "k < length ids" for k
    using that seq len pos nth_mem [of k lens] by fastforce
  have "seq_ok kv (ids ! k) (?ns ! k) \<and> (\<forall>p \<in> set (?ps ! k). p < ?ns ! k)" if k: "k < length ids" for k
  proof -
    have "0 < lens ! k" using pos k len nth_mem [of k lens] by simp
    then show ?thesis using each [OF k] k len by auto
  qed
  then obtain m where "slot_mapping ids ?ps kv = Inr m"
    using slot_mapping_ok [OF assms(1), of ?ps ids ?ns] len by auto
  moreover obtain pages where "flashinfer_paged_metadata ids (map int ?ns) kv = Inr pages"
    using metadata_value [OF assms(1), of ?ns ids] each len by auto
  ultimately show ?thesis by (simp add: make_scheduler_paged_batch_def Let_def)
qed

lemma plan_prefill_lengths_Some:
  assumes "plan_prefill_lengths np op = Inr (Some lens)"
  shows "length lens = np" "\<forall>n \<in> set lens. 0 < n" "length (fo_extend_prefix_lens op) = np"
  using assms by (auto simp: plan_prefill_lengths_def Let_def list_ex_iff list_all_iff not_le split: if_splits)

lemma execute_paged_prefill_ok:
  assumes model: "plan_model_ok E" and kv: "pr_kv pr = Some kv" "kv_wf kv" and ss: "np \<le> length ss"
    and lens: "plan_prefill_lengths np op = Inr q"
    and seq: "\<And>lens k. q = Some lens \<Longrightarrow> k < np \<Longrightarrow> seq_ok kv (ss ! k) (nat (fo_extend_prefix_lens op ! k) + lens ! k)"
  shows "\<exists>pr' kv'. execute_paged_prefill E op np ss pr = (pr', Inr ()) \<and> pr_kv pr' = Some kv' \<and> kv_wf kv' \<and> kv_same kv kv'"
proof (cases q)
  case None
  then show ?thesis using lens kv by (simp add: execute_paged_prefill_def)
next
  case (Some ls)
  note p = plan_prefill_lengths_Some [OF lens [unfolded Some]]
  obtain fb where fb: "make_scheduler_paged_batch E (take np ss) (map nat (fo_extend_prefix_lens op)) ls
      (map2 (+) (map nat (fo_extend_prefix_lens op)) ls) True kv = Inr fb"
    using prefill_batch_ok [OF kv(2), of "map nat (fo_extend_prefix_lens op)" "take np ss" ls E] p ss seq [OF Some] by auto
  have shape: "map length (pe_prefill_fwd E fb t q (kv_data kv)) = map length (kv_data kv)" for t q
    using model by (simp add: plan_model_ok_def)
  show ?thesis
    using lens Some kv fb kv_wf_data [OF kv(2) shape] by (auto simp: execute_paged_prefill_def Let_def set_kv_data_def)
qed

section \<open>Forward plans\<close>

text \<open>The positions that a row of a plan needs pages for: its prefix and chunk, or its block.\<close>

definition plan_need :: "'v plan_env \<Rightarrow> forward_op \<Rightarrow> (rid, request_state) pydict \<Rightarrow> nat \<Rightarrow> nat" where
  "plan_need E op d i =
     (if i < nat (fo_num_extends op)
      then (case plan_prefill_lengths (nat (fo_num_extends op)) op of
              Inr (Some lens) \<Rightarrow> nat (fo_extend_prefix_lens op ! i) + lens ! i | _ \<Rightarrow> 0)
      else (case map_of d (fo_request_ids op ! i) of
              Some st \<Rightarrow> if rs_finished st then 0 else block_start_of (pe_L E) st + pe_L E | None \<Rightarrow> 0))"

definition plan_ready :: "'v plan_env \<Rightarrow> forward_op \<Rightarrow> (rid, request_state) pydict \<Rightarrow> 'v plan_runner \<Rightarrow> bool" where
  "plan_ready E op d pr = (case pr_kv pr of None \<Rightarrow> False | Some kv \<Rightarrow>
     use_flashinfer_paged_prefill (pe_rc E) \<and> 0 < pe_device_pages E \<and> pe_device_pages E \<le> int (kv_num_pages kv)
     \<and> kv_wf kv \<and> pe_max_num_seqs E \<le> kv_batch_size kv \<and> slots_ok (pe_max_num_seqs E) (pr_slots pr)
     \<and> distinct (fo_request_ids op)
     \<and> length (remdups (map fst (pr_slots pr) @ fo_request_ids op)) \<le> pe_max_num_seqs E
     \<and> length (fo_occupied_pages op) = length (fo_request_ids op)
     \<and> 0 \<le> fo_num_extends op \<and> fo_num_extends op \<le> int (length (fo_request_ids op))
     \<and> (fo_num_extends op = 0 \<or> is_ok (plan_prefill_lengths (nat (fo_num_extends op)) op))
     \<and> list_all (\<lambda>i. pages_ok kv (pe_device_pages E) (fo_occupied_pages op ! i) (plan_need E op d i))
         [0..<length (fo_request_ids op)]
     \<and> list_all (\<lambda>i. case map_of d (fo_request_ids op ! i) of None \<Rightarrow> True
         | Some st \<Rightarrow> rs_finished st \<or> plan_aligned (pe_L E) st)
         [nat (fo_num_extends op)..<length (fo_request_ids op)])"

lemma plan_readyD:
  assumes "plan_ready E op d pr"
  obtains kv where "pr_kv pr = Some kv" "use_flashinfer_paged_prefill (pe_rc E)" "0 < pe_device_pages E"
    "pe_device_pages E \<le> int (kv_num_pages kv)" "kv_wf kv" "pe_max_num_seqs E \<le> kv_batch_size kv"
    "slots_ok (pe_max_num_seqs E) (pr_slots pr)" "distinct (fo_request_ids op)"
    "card (fst ` set (pr_slots pr) \<union> set (fo_request_ids op)) \<le> pe_max_num_seqs E"
    "length (fo_occupied_pages op) = length (fo_request_ids op)"
    "nat (fo_num_extends op) \<le> length (fo_request_ids op)"
    "nat (fo_num_extends op) = 0 \<or> (\<exists>q. plan_prefill_lengths (nat (fo_num_extends op)) op = Inr q)"
    "\<And>i. i < length (fo_request_ids op) \<Longrightarrow> pages_ok kv (pe_device_pages E) (fo_occupied_pages op ! i) (plan_need E op d i)"
    "\<And>i st. nat (fo_num_extends op) \<le> i \<Longrightarrow> i < length (fo_request_ids op) \<Longrightarrow>
      map_of d (fo_request_ids op ! i) = Some st \<Longrightarrow> rs_finished st \<or> plan_aligned (pe_L E) st"
proof -
  obtain kv where kv: "pr_kv pr = Some kv" using assms by (auto simp: plan_ready_def split: option.splits)
  have c: "length (remdups (map fst (pr_slots pr) @ fo_request_ids op)) = card (fst ` set (pr_slots pr) \<union> set (fo_request_ids op))"
    unfolding length_remdups_card_conv by simp
  show thesis
    using assms kv unfolding plan_ready_def c
    by (intro that [of kv]) (auto simp: list_all_iff is_ok_def nat_le_iff split: sum.splits option.splits)
qed

lemma map_of_mark_prefilled:
  "map_of (mark_prefilled rids d) r = map_option (\<lambda>st. if r \<in> set rids then st\<lparr>rs_plan_prefill_done := True\<rparr> else st) (map_of d r)"
  by (induction d) (auto simp: mark_prefilled_def)

lemma active_marked:
  assumes "distinct (fo_request_ids op)"
  shows "active_rows op k (mark_prefilled (take k (fo_request_ids op)) d) = active_rows op k d"
    and "active_states op k ss (mark_prefilled (take k (fo_request_ids op)) d) = active_states op k ss d"
proof -
  let ?ids = "fo_request_ids op" and ?d = "mark_prefilled (take k (fo_request_ids op)) d"
  have later: "map_of ?d (?ids ! i) = map_of d (?ids ! i)" if "k \<le> i" "i < length ?ids" for i
  proof -
    have "?ids ! i \<notin> set (take k ?ids)"
      using that assms by (auto simp: in_set_conv_nth nth_eq_iff_index_eq)
    then show ?thesis by (simp add: map_of_mark_prefilled option.map_id0 [unfolded id_def])
  qed
  show rows: "active_rows op k ?d = active_rows op k d"
    unfolding active_rows_def by (rule filter_cong) (simp_all add: later)
  show "active_states op k ss ?d = active_states op k ss d"
    unfolding active_states_def rows by (rule map_cong) (simp_all add: active_rows_def later)
qed

lemma fold_max_less: "fold max xs (a :: int) < b \<longleftrightarrow> a < b \<and> (\<forall>x \<in> set xs. x < b)"
  by (induction xs arbitrary: a) auto

lemma map_nth_filter: "map ((!) xs) (filter (\<lambda>i. Q (xs ! i)) [k..<length xs]) = filter Q (drop k xs)"
proof -
  have "map ((!) xs) [k..<length xs] = drop k xs" by (rule nth_equalityI) auto
  then show ?thesis by (metis (no_types, lifting) filter_map comp_def filter_cong)
qed

definition plan_active :: "(rid, request_state) pydict \<Rightarrow> rid \<Rightarrow> bool" where
  "plan_active d rid = (case map_of d rid of None \<Rightarrow> False | Some st \<Rightarrow> \<not> rs_finished st)"

lemma run_plan_ok:
  fixes E :: "'v plan_env"
  assumes model: "plan_model_ok E" and plain: "plain_decoder (pe_dec E)" and L: "0 < pe_L E"
    and ready: "plan_ready E op d pr" and kv: "pr_kv pr = Some kv"
    and ss: "length ss = length (fo_request_ids op)" "distinct ss" "\<forall>s \<in> set ss. s < pe_max_num_seqs E"
  shows "\<exists>pr' rs kv'. run_plan E op ss d (pr\<lparr>pr_slots := slots\<rparr>)
        = (pr', mark_prefilled (take (nat (fo_num_extends op)) (fo_request_ids op)) d,
           Inr (prefill_results (nat (fo_num_extends op)) op d @ rs))
    \<and> pr_kv pr' = Some kv' \<and> kv_wf kv'
    \<and> map sr_rid rs = filter (plan_active d) (drop (nat (fo_num_extends op)) (fo_request_ids op))
    \<and> (\<forall>res \<in> set rs. block_result_ok E (the (map_of d (sr_rid res))) res)"
proof (rule plan_readyD [OF ready])
  fix kv0
  let ?ids = "fo_request_ids op" and ?np = "nat (fo_num_extends op)" and ?dev = "pe_device_pages E"
  assume c: "pr_kv pr = Some kv0" "?dev \<le> int (kv_num_pages kv0)" "kv_wf kv0" "pe_max_num_seqs E \<le> kv_batch_size kv0"
    "distinct ?ids" "length (fo_occupied_pages op) = length ?ids" "?np \<le> length ?ids"
    "?np = 0 \<or> (\<exists>q. plan_prefill_lengths ?np op = Inr q)"
    and pages: "\<And>i. i < length ?ids \<Longrightarrow> pages_ok kv0 ?dev (fo_occupied_pages op ! i) (plan_need E op d i)"
    and al: "\<And>i st. ?np \<le> i \<Longrightarrow> i < length ?ids \<Longrightarrow> map_of d (?ids ! i) = Some st \<Longrightarrow> rs_finished st \<or> plan_aligned (pe_L E) st"
  have kv0: "kv0 = kv" using c(1) kv by simp
  have sB: "ss ! i < kv_batch_size kv0" "ss ! i < pe_max_num_seqs E" if "i < length ?ids" for i
    using ss that c(4) nth_mem [of i ss] by fastforce+
  let ?rows = "zip ss (fo_occupied_pages op)"
  have rows: "\<forall>(s, pages) \<in> set ?rows. s < kv_batch_size kv0 \<and> (\<exists>n. pages_ok kv0 ?dev pages n)"
    using sB(1) pages ss(1) c(6) by (auto simp: set_zip)
  have "distinct (map fst ?rows)" using ss(1,2) c(6) by simp
  from set_page_rows_ok [OF c(3) this c(2) rows]
  obtain t where t: "set_page_rows (map (\<lambda>(s, pages). (int s, pages)) ?rows) kv0 = (kv0\<lparr>kv_page_table := t\<rparr>, Inr ())"
    "kv_wf (kv0\<lparr>kv_page_table := t\<rparr>)" "\<forall>(s, pages) \<in> set ?rows. take (length pages) (t ! s) = map nat pages" by blast
  define kv1 where "kv1 = kv0\<lparr>kv_page_table := t\<rparr>"
  have tables: "set_page_tables (map int ss) (fo_occupied_pages op) kv0 = (kv1, Inr ())"
    using t(1) ss(1) c(6) by (simp add: set_page_tables_def kv1_def zip_map1)
  have seq: "seq_ok kv1 (ss ! i) (plan_need E op d i)" if i: "i < length ?ids" for i
  proof (rule seq_ok_pages)
    have "(ss ! i, fo_occupied_pages op ! i) \<in> set ?rows" using i ss(1) c(6) by (auto simp: set_zip)
    then show "take (length (fo_occupied_pages op ! i)) (kv_page_table kv1 ! (ss ! i)) = map nat (fo_occupied_pages op ! i)"
      using t(3) by (auto simp: kv1_def)
    show "pages_ok kv1 ?dev (fo_occupied_pages op ! i) (plan_need E op d i)" using pages [OF i] by (simp add: pages_ok_def kv1_def)
  qed (use sB(1) [OF i] t(2) in \<open>simp_all add: kv1_def\<close>)
  define pr1 where "pr1 = pr\<lparr>pr_slots := slots, pr_kv := Some kv1\<rparr>"
  have pr1: "pr_kv pr1 = Some kv1" "kv_wf kv1" using t(2) by (simp_all add: pr1_def kv1_def)
  obtain pr2 kv2 where pre: "(if ?np \<noteq> 0 then execute_paged_prefill E op ?np ss pr1 else (pr1, Inr ())) = (pr2, Inr ())"
    and kv2: "pr_kv pr2 = Some kv2" "kv_wf kv2" "kv_same kv1 kv2"
  proof (cases "?np = 0")
    case True
    then show thesis using that [of pr1 kv1] pr1 by simp
  next
    case False
    then obtain q where q: "plan_prefill_lengths ?np op = Inr q" using c(8) by (elim disjE exE) simp_all
    have sq: "seq_ok kv1 (ss ! k) (nat (fo_extend_prefix_lens op ! k) + lens ! k)" if "q = Some lens" "k < ?np" for lens k
      using seq [of k] that q c(7) by (simp add: plan_need_def)
    have "?np \<le> length ss" using ss(1) c(7) by simp
    from execute_paged_prefill_ok [OF model pr1 this q sq] obtain pr' kv' where
      "execute_paged_prefill E op ?np ss pr1 = (pr', Inr ())" "pr_kv pr' = Some kv'" "kv_wf kv'" "kv_same kv1 kv'" by metis
    then show thesis using that [of pr' kv'] False by simp
  qed
  let ?d = "mark_prefilled (take ?np ?ids) d"
  have act: "active_ok E kv2 (active_states op ?np ss ?d)"
  proof -
    have "distinct (map ((!) ss) (active_rows op ?np d))"
      using ss(1,2) by (auto simp: distinct_map active_rows_def inj_on_def nth_eq_iff_index_eq)
    moreover have "s < pe_max_num_seqs E \<and> plan_aligned (pe_L E) st \<and> seq_ok kv2 s (block_start_of (pe_L E) st + pe_L E)"
      if m: "(s, st) \<in> set (active_states op ?np ss d)" for s st
    proof -
      obtain i where i: "?np \<le> i" "i < length ?ids" "map_of d (?ids ! i) = Some st" "\<not> rs_finished st" "s = ss ! i"
        using m by (auto simp: active_states_def active_rows_def split: option.splits)
      then show ?thesis
        using sB(2) al seq [of i] kv_same_seq_ok [OF kv2(3)] by (auto simp: plan_need_def)
    qed
    moreover have "map fst (active_states op ?np ss d) = map ((!) ss) (active_rows op ?np d)"
      by (simp add: active_states_def)
    ultimately show ?thesis
      unfolding active_marked(2) [OF c(5)] active_ok_def by (auto simp: list_all_iff)
  qed
  obtain pr3 rs kv3 where dec: "(if ?np < length ?ids then execute_paged_decode E op ?np ss ?d pr2 else (pr2, Inr [])) = (pr3, Inr rs)"
    and kv3: "pr_kv pr3 = Some kv3" "kv_wf kv3" and len: "length rs = length (active_rows op ?np d)"
    and res: "\<And>i. i < length rs \<Longrightarrow> sr_rid (rs ! i) = ?ids ! (active_rows op ?np d ! i)
         \<and> block_result_ok E (the (map_of ?d (sr_rid (rs ! i)))) (rs ! i)"
  proof (cases "?np < length ?ids")
    case True
    obtain pr3 rs kv3 where x: "execute_paged_decode E op ?np ss ?d pr2 = (pr3, Inr rs)" "pr_kv pr3 = Some kv3" "kv_wf kv3"
      "length rs = length (active_rows op ?np d)"
      "\<forall>i < length rs. sr_rid (rs ! i) = ?ids ! (active_rows op ?np d ! i) \<and> block_result_ok E (the (map_of ?d (sr_rid (rs ! i)))) (rs ! i)"
      using execute_paged_decode_ok [OF model plain L kv2(1,2) act] unfolding active_marked(1) [OF c(5)] by metis
    have "(if ?np < length ?ids then execute_paged_decode E op ?np ss ?d pr2 else (pr2, Inr [])) = (pr3, Inr rs)"
      using True x(1) by simp
    then show thesis by (rule that [OF _ x(2-4)]) (use x(5) in blast)
  next
    case False
    then show thesis using that [of pr2 "[]" kv2] kv2 by (simp add: active_rows_def)
  qed
  have rids: "map sr_rid rs = map ((!) ?ids) (active_rows op ?np d)"
    by (rule nth_equalityI) (use len res in auto)
  also have "\<dots> = filter (plan_active d) (drop ?np ?ids)"
    unfolding active_rows_def plan_active_def by (rule map_nth_filter)
  finally have rids': "map sr_rid rs = filter (plan_active d) (drop ?np ?ids)" .
  have each: "block_result_ok E (the (map_of d (sr_rid r))) r" if r: "r \<in> set rs" for r
  proof -
    obtain i where i: "i < length rs" "rs ! i = r" using r by (metis in_set_conv_nth)
    have "sr_rid r \<in> set (drop ?np ?ids)" using rids' r by (metis filter_is_subset image_eqI set_map subsetD)
    then have "sr_rid r \<notin> set (take ?np ?ids)" using c(5) by (metis append_take_drop_id disjoint_iff distinct_append)
    then have "map_of ?d (sr_rid r) = map_of d (sr_rid r)" by (simp add: map_of_mark_prefilled option.map_id0 [unfolded id_def])
    then show ?thesis using res [OF i(1)] i(2) by metis
  qed
  have "run_plan E op ss d (pr\<lparr>pr_slots := slots\<rparr>) = (pr3, ?d, Inr (prefill_results ?np op d @ rs))"
  proof -
    have k: "pr_kv (pr\<lparr>pr_slots := slots\<rparr>) = Some kv0" "pr\<lparr>pr_slots := slots, pr_kv := Some kv1\<rparr> = pr1"
      using c(1) by (simp_all add: pr1_def)
    show ?thesis
      unfolding run_plan_def Let_def k(1) option.case tables prod.case k(2) sum.case pre dec by (simp add: result_bind_def)
  qed
  then show ?thesis using kv3 rids' each by blast
qed


definition ex_plan_kv :: "int paged_kv" where
  "ex_plan_kv = \<lparr> kv_num_layers = 1, kv_batch_size = 2, kv_max_length = 8, kv_page_size = 2, kv_pages_per_sequence = 4,
     kv_num_dummy_pages = 0, kv_dummy_page_id = - 1, kv_external = True, kv_num_pages = 9,
     kv_data = replicate 9 (replicate 2 0), kv_page_table = replicate 2 (replicate 4 0) \<rparr>"


end
