(* ===== verification/Schedulers.thy ===== *)
theory Schedulers
  imports Processor
begin

text \<open>
  The scheduler adapters (engine/scheduler_adapter.py): the FIFO
  \<open>DefaultSchedulerAdapter\<close>, the \<open>FluxSchedulerAdapter\<close> that also feeds the native
  scheduler, and the plan-oriented \<open>PagedSchedulerAdapter\<close>.  The native scheduler is the
  C++ extension: its state is a type variable and its entry points
  (\<open>submit_requests\<close>, \<open>next_execution_plan\<close>, \<open>advance\<close>) are arguments.  The locale
  \<open>fifo_scheduler\<close> is the contract that the engine's batch loop relies on; both FIFO
  adapters are instances of it.
\<close>

section \<open>DefaultSchedulerAdapter\<close>

record default_sched =
  ds_max_batch_size :: nat
  ds_queue :: "rid list"
  ds_active :: "rid set"

definition default_init :: "nat \<Rightarrow> default_sched" where
  "default_init n = \<lparr> ds_max_batch_size = n, ds_queue = [], ds_active = {} \<rparr>"

fun default_submit :: "request_state list \<Rightarrow> default_sched \<Rightarrow> default_sched" where
  "default_submit [] s = s"
| "default_submit (req # reqs) s = default_submit reqs
     (if rs_rid req \<notin> ds_active s
      then s\<lparr>ds_active := insert (rs_rid req) (ds_active s), ds_queue := ds_queue s @ [rs_rid req]\<rparr>
      else s)"

definition default_next_batch :: "default_sched \<Rightarrow> rid list option \<times> default_sched" where
  "default_next_batch s =
     (if ds_queue s = [] then (None, s)
      else (Some (take (ds_max_batch_size s) (ds_queue s)),
            s\<lparr>ds_queue := drop (ds_max_batch_size s) (ds_queue s)\<rparr>))"

definition default_finish :: "rid \<Rightarrow> default_sched \<Rightarrow> default_sched" where
  "default_finish r s = s\<lparr>ds_active := ds_active s - {r},
                          ds_queue := filter (\<lambda>q. q \<noteq> r) (ds_queue s)\<rparr>"

definition default_abort :: "rid \<Rightarrow> default_sched \<Rightarrow> default_sched" where
  "default_abort r s = (let s1 = default_finish r s
     in s1\<lparr>ds_queue := filter (\<lambda>q. q \<noteq> r) (ds_queue s1)\<rparr>)"

section \<open>FluxSchedulerAdapter\<close>

record request_spec =
  sp_request_id :: rid
  sp_tokens :: "int list"
  sp_prefill_length :: "nat option"

text \<open>The configuration object of the native scheduler; \<open>None\<close> leaves its default in place.\<close>

record sched_config =
  cfg_max_batch_size :: nat
  cfg_max_scheduled_tokens :: nat
  cfg_page_size :: nat
  cfg_decode_input_tokens :: "nat option"
  cfg_num_device_pages :: nat
  cfg_disable_l2_cache :: "bool option"
  cfg_disable_prefix_cache :: "bool option"

record 'n flux_sched =
  fx_base :: default_sched
  fx_native :: 'n

definition flux_init ::
    "(sched_config \<Rightarrow> 'n) \<Rightarrow> nat \<Rightarrow> nat \<Rightarrow> nat \<Rightarrow> nat \<Rightarrow> 'n flux_sched" where
  "flux_init native_new max_batch max_tokens page pages =
     \<lparr> fx_base = default_init max_batch,
       fx_native = native_new \<lparr> cfg_max_batch_size = max_batch, cfg_max_scheduled_tokens = max_tokens,
         cfg_page_size = page, cfg_decode_input_tokens = None, cfg_num_device_pages = pages,
         cfg_disable_l2_cache = None, cfg_disable_prefix_cache = None \<rparr> \<rparr>"

definition flux_spec :: "request_state \<Rightarrow> request_spec" where
  "flux_spec req = \<lparr> sp_request_id = rs_rid req, sp_tokens = rs_input_ids req,
                     sp_prefill_length = None \<rparr>"

definition flux_submit ::
    "(request_spec list \<Rightarrow> 'n \<Rightarrow> 'n result) \<Rightarrow> request_state list \<Rightarrow> 'n flux_sched
      \<Rightarrow> 'n flux_sched \<times> unit result" where
  "flux_submit native_submit reqs s =
     (let specs = map flux_spec reqs in
      case (if specs \<noteq> [] then native_submit specs (fx_native s) else Inr (fx_native s)) of
        Inl e \<Rightarrow> (s, Inl e)
      | Inr n \<Rightarrow> (s\<lparr>fx_native := n, fx_base := default_submit reqs (fx_base s)\<rparr>, Inr ()))"

definition flux_next_batch :: "'n flux_sched \<Rightarrow> rid list option \<times> 'n flux_sched" where
  "flux_next_batch s = (case default_next_batch (fx_base s) of (b, d) \<Rightarrow> (b, s\<lparr>fx_base := d\<rparr>))"

definition flux_finish :: "rid \<Rightarrow> 'n flux_sched \<Rightarrow> 'n flux_sched" where
  "flux_finish r s = s\<lparr>fx_base := default_finish r (fx_base s)\<rparr>"

definition flux_abort :: "rid \<Rightarrow> 'n flux_sched \<Rightarrow> 'n flux_sched" where
  "flux_abort r s = s\<lparr>fx_base := default_abort r (fx_base s)\<rparr>"

section \<open>PagedSchedulerAdapter\<close>

datatype sched_event =
    ExtendResult rid "int list"
  | UpdateReserveNumTokens rid nat
  | Finish rid
  | Abort rid

record 'n paged_sched =
  pg_page_size :: nat
  pg_max_model_len :: int
  pg_full_prompt_prefill :: bool
  pg_active :: "rid set"
  pg_native :: 'n

definition paged_init ::
    "(sched_config \<Rightarrow> 'n) \<Rightarrow> nat \<Rightarrow> nat \<Rightarrow> nat \<Rightarrow> nat \<Rightarrow> int \<Rightarrow> bool \<Rightarrow> 'n paged_sched" where
  "paged_init native_new max_batch max_tokens page pages max_len full =
     \<lparr> pg_page_size = page, pg_max_model_len = max_len, pg_full_prompt_prefill = full,
       pg_active = {},
       pg_native = native_new \<lparr> cfg_max_batch_size = max_batch, cfg_max_scheduled_tokens = max_tokens,
         cfg_page_size = page, cfg_decode_input_tokens = Some page, cfg_num_device_pages = pages,
         cfg_disable_l2_cache = Some True, cfg_disable_prefix_cache = Some True \<rparr> \<rparr>"

definition prefill_length :: "'n paged_sched \<Rightarrow> request_state \<Rightarrow> nat" where
  "prefill_length s req = (if pg_full_prompt_prefill s then length (rs_input_ids req)
                           else aligned_prefill_length req (pg_page_size s))"

text \<open>
  The loop of \<open>submit\<close>: the id is added to the active set before the length check, so a
  raised \<open>ValueError\<close> leaves it there; the specs collected so far are then dropped.
\<close>

fun paged_submit_loop ::
    "request_state list \<Rightarrow> 'n paged_sched \<Rightarrow> request_spec list
      \<Rightarrow> 'n paged_sched \<times> request_spec list result" where
  "paged_submit_loop [] s specs = (s, Inr specs)"
| "paged_submit_loop (req # reqs) s specs =
     (if rs_rid req \<in> pg_active s then paged_submit_loop reqs s specs
      else (let s1 = s\<lparr>pg_active := insert (rs_rid req) (pg_active s)\<rparr>;
                pl = prefill_length s req
            in if int pl > pg_max_model_len s
               then (s1, Inl (ValueError ''aligned prefill length exceeds max_model_len''))
               else paged_submit_loop reqs s1
                 (specs @ [\<lparr> sp_request_id = rs_rid req, sp_tokens = rs_input_ids req,
                             sp_prefill_length = Some pl \<rparr>])))"

definition paged_submit ::
    "(request_spec list \<Rightarrow> 'n \<Rightarrow> 'n result) \<Rightarrow> request_state list \<Rightarrow> 'n paged_sched
      \<Rightarrow> 'n paged_sched \<times> unit result" where
  "paged_submit native_submit reqs s =
     (case paged_submit_loop reqs s [] of
        (s1, Inl e) \<Rightarrow> (s1, Inl e)
      | (s1, Inr specs) \<Rightarrow>
          if specs = [] then (s1, Inr ())
          else case native_submit specs (pg_native s1) of
                 Inl e \<Rightarrow> (s1, Inl e)
               | Inr n \<Rightarrow> (s1\<lparr>pg_native := n\<rparr>, Inr ()))"

definition paged_next_plan :: "('n \<Rightarrow> 'plan \<times> 'n) \<Rightarrow> 'n paged_sched \<Rightarrow> 'plan \<times> 'n paged_sched" where
  "paged_next_plan native_next s =
     (case native_next (pg_native s) of (plan, n) \<Rightarrow> (plan, s\<lparr>pg_native := n\<rparr>))"

definition forward_events ::
    "(rid, int list) pydict \<Rightarrow> (rid, nat) pydict \<Rightarrow> rid list \<Rightarrow> sched_event list" where
  "forward_events token_results reserve_tokens finished_ids =
     map (\<lambda>(r, ts). ExtendResult r ts) (filter (\<lambda>(r, ts). ts \<noteq> []) token_results)
     @ map (\<lambda>(r, n). UpdateReserveNumTokens r n) reserve_tokens
     @ map Finish finished_ids"

definition advance_forward ::
    "(sched_event list \<Rightarrow> 'n \<Rightarrow> 'n) \<Rightarrow> (rid, int list) pydict \<Rightarrow> (rid, nat) pydict \<Rightarrow> rid list
      \<Rightarrow> 'n paged_sched \<Rightarrow> 'n paged_sched" where
  "advance_forward native_advance token_results reserve_tokens finished_ids s =
     (let evs = forward_events token_results reserve_tokens finished_ids;
          s1 = s\<lparr>pg_active := pg_active s - set finished_ids\<rparr>
      in if evs = [] then s1 else s1\<lparr>pg_native := native_advance evs (pg_native s1)\<rparr>)"

definition paged_finish :: "(sched_event list \<Rightarrow> 'n \<Rightarrow> 'n) \<Rightarrow> rid \<Rightarrow> 'n paged_sched \<Rightarrow> 'n paged_sched" where
  "paged_finish native_advance r s = advance_forward native_advance [] [] [r] s"

definition paged_abort :: "(sched_event list \<Rightarrow> 'n \<Rightarrow> 'n) \<Rightarrow> rid \<Rightarrow> 'n paged_sched \<Rightarrow> 'n paged_sched" where
  "paged_abort native_advance r s =
     (if r \<notin> pg_active s then s
      else s\<lparr>pg_native := native_advance [Abort r] (pg_native s), pg_active := pg_active s - {r}\<rparr>)"

section \<open>The contract of a FIFO scheduler\<close>

text \<open>The ids that a submission adds: those not owned yet, each once, in order.\<close>

fun new_rids :: "rid set \<Rightarrow> rid list \<Rightarrow> rid list" where
  "new_rids A [] = []"
| "new_rids A (r # rs) = (if r \<in> A then new_rids A rs else r # new_rids (insert r A) rs)"

lemma set_new_rids [simp]: "set (new_rids A rs) = set rs - A"
  by (induction rs arbitrary: A) auto

lemma distinct_new_rids [simp]: "distinct (new_rids A rs)"
  by (induction rs arbitrary: A) auto

text \<open>\<open>k\<close> consecutive calls of \<open>next_batch\<close>: the batches handed out and the scheduler left.\<close>

fun drain :: "('s \<Rightarrow> rid list option \<times> 's) \<Rightarrow> nat \<Rightarrow> 's \<Rightarrow> rid list list \<times> 's" where
  "drain nxt 0 s = ([], s)"
| "drain nxt (Suc k) s = (case nxt s of
       (None, s') \<Rightarrow> drain nxt k s'
     | (Some b, s') \<Rightarrow> (case drain nxt k s' of (bs, s'') \<Rightarrow> (b # bs, s'')))"

locale fifo_scheduler =
  fixes submit :: "request_state list \<Rightarrow> 's \<Rightarrow> 's \<times> unit result"
    and next_batch :: "'s \<Rightarrow> rid list option \<times> 's"
    and finish :: "rid \<Rightarrow> 's \<Rightarrow> 's"
    and abort :: "rid \<Rightarrow> 's \<Rightarrow> 's"
    and pending :: "'s \<Rightarrow> rid list"
    and owned :: "'s \<Rightarrow> rid set"
    and capacity :: "'s \<Rightarrow> nat"
    and inv :: "'s \<Rightarrow> bool"
  assumes inv_pending: "inv s \<Longrightarrow> distinct (pending s) \<and> set (pending s) \<subseteq> owned s"
    and inv_capacity: "inv s \<Longrightarrow> 0 < capacity s"
    and submit_raises: "submit reqs s = (s', Inl e) \<Longrightarrow> s' = s"
    and submit_law: "inv s \<Longrightarrow> submit reqs s = (s', Inr ()) \<Longrightarrow>
      inv s' \<and> pending s' = pending s @ new_rids (owned s) (map rs_rid reqs)
      \<and> owned s' = owned s \<union> rs_rid ` set reqs \<and> capacity s' = capacity s"
    and next_batch_law: "inv s \<Longrightarrow> next_batch s = (b, s') \<Longrightarrow>
      inv s' \<and> owned s' = owned s \<and> capacity s' = capacity s
      \<and> b = (if pending s = [] then None else Some (take (capacity s) (pending s)))
      \<and> pending s' = drop (capacity s) (pending s)"
    and finish_law: "inv s \<Longrightarrow> inv (finish r s) \<and> owned (finish r s) = owned s - {r}
      \<and> pending (finish r s) = filter (\<lambda>q. q \<noteq> r) (pending s) \<and> capacity (finish r s) = capacity s"
    and abort_law: "inv s \<Longrightarrow> inv (abort r s) \<and> owned (abort r s) = owned s - {r}
      \<and> pending (abort r s) = filter (\<lambda>q. q \<noteq> r) (pending s) \<and> capacity (abort r s) = capacity s"
begin

lemma drain_spec:
  "inv s \<Longrightarrow> drain next_batch k s = (bs, s') \<Longrightarrow>
     inv s' \<and> concat bs = take (k * capacity s) (pending s)
     \<and> pending s' = drop (k * capacity s) (pending s) \<and> owned s' = owned s
     \<and> (\<forall>b \<in> set bs. b \<noteq> [] \<and> length b \<le> capacity s)"
proof (induction k arbitrary: s bs s')
  case 0
  then show ?case by simp
next
  case (Suc k)
  obtain b s1 where nb: "next_batch s = (b, s1)" by fastforce
  note law = next_batch_law [OF Suc.prems(1) nb]
  obtain cs s2 where d: "drain next_batch k s1 = (cs, s2)" by fastforce
  note IH = Suc.IH [OF law [THEN conjunct1] d]
  show ?case
  proof (cases "pending s = []")
    case True
    with Suc.prems(2) law nb d have "bs = cs" "s' = s2" by auto
    with IH law True show ?thesis by (cases cs) auto
  next
    case False
    with Suc.prems(2) law nb d have "bs = take (capacity s) (pending s) # cs" "s' = s2" by auto
    with IH law False inv_capacity [OF Suc.prems(1)] show ?thesis
      by (auto simp: take_add drop_drop add.commute)
  qed
qed

text \<open>A queued request is handed out once enough batches were asked for, and only once.\<close>

lemma drain_serves:
  assumes "inv s" and "i < length (pending s)" and "drain next_batch k s = (bs, s')"
    and "i < k * capacity s"
  shows "pending s ! i \<in> set (concat bs)" "distinct (concat bs)"
    "pending s ! i \<notin> set (pending s')"
proof -
  note sp = drain_spec [OF assms(1,3)]
  have d: "distinct (pending s)" using inv_pending [OF assms(1)] by simp
  show "pending s ! i \<in> set (concat bs)" "distinct (concat bs)"
    using sp assms(2,4) d by (auto simp: in_set_conv_nth)
  show "pending s ! i \<notin> set (pending s')"
    using sp assms(2,4) d
    by (auto simp: in_set_conv_nth nth_eq_iff_index_eq)
qed

end

section \<open>The FIFO adapters implement the contract\<close>

definition default_inv :: "default_sched \<Rightarrow> bool" where
  "default_inv s = (distinct (ds_queue s) \<and> set (ds_queue s) \<subseteq> ds_active s
     \<and> 0 < ds_max_batch_size s)"

lemma default_submit_effect:
  "ds_queue (default_submit reqs s) = ds_queue s @ new_rids (ds_active s) (map rs_rid reqs)
   \<and> ds_active (default_submit reqs s) = ds_active s \<union> rs_rid ` set reqs
   \<and> ds_max_batch_size (default_submit reqs s) = ds_max_batch_size s"
  by (induction reqs arbitrary: s) auto

lemma default_submit_inv: "default_inv s \<Longrightarrow> default_inv (default_submit reqs s)"
  using default_submit_effect [of reqs s] by (auto simp: default_inv_def)

lemma default_next_batch_law:
  "default_inv s \<Longrightarrow> default_next_batch s = (b, s') \<Longrightarrow>
     default_inv s' \<and> ds_active s' = ds_active s \<and> ds_max_batch_size s' = ds_max_batch_size s
     \<and> b = (if ds_queue s = [] then None else Some (take (ds_max_batch_size s) (ds_queue s)))
     \<and> ds_queue s' = drop (ds_max_batch_size s) (ds_queue s)"
proof -
  assume inv: "default_inv s" and nb: "default_next_batch s = (b, s')"
  have "set (drop (ds_max_batch_size s) (ds_queue s)) \<subseteq> ds_active s"
    by (rule order_trans [OF set_drop_subset]) (use inv in \<open>simp add: default_inv_def\<close>)
  with inv nb show ?thesis
    by (cases "ds_queue s = []") (auto simp: default_next_batch_def default_inv_def)
qed

lemma default_finish_law:
  "default_inv s \<Longrightarrow> default_inv (default_finish r s)
     \<and> ds_active (default_finish r s) = ds_active s - {r}
     \<and> ds_queue (default_finish r s) = filter (\<lambda>q. q \<noteq> r) (ds_queue s)
     \<and> ds_max_batch_size (default_finish r s) = ds_max_batch_size s"
  by (auto simp: default_finish_def default_inv_def)

lemma default_abort_eq: "default_abort r s = default_finish r s"
  by (simp add: default_abort_def default_finish_def Let_def)

interpretation default_fifo: fifo_scheduler "\<lambda>reqs s. (default_submit reqs s, Inr ())"
  default_next_batch default_finish default_abort ds_queue ds_active ds_max_batch_size default_inv
proof (unfold_locales, goal_cases)
  case (4 s reqs s')
  then show ?case using default_submit_effect [of reqs s] default_submit_inv by auto
next
  case (5 s b s')
  then show ?case by (rule default_next_batch_law)
qed (auto simp: default_inv_def default_finish_law default_abort_eq)

interpretation flux_fifo: fifo_scheduler "flux_submit native_submit"
  flux_next_batch flux_finish flux_abort "\<lambda>s. ds_queue (fx_base s)" "\<lambda>s. ds_active (fx_base s)"
  "\<lambda>s. ds_max_batch_size (fx_base s)" "\<lambda>s. default_inv (fx_base s)"
  for native_submit :: "request_spec list \<Rightarrow> 'n \<Rightarrow> 'n result"
proof (unfold_locales, goal_cases)
  case (4 s reqs s')
  then show ?case using default_submit_effect [of reqs "fx_base s"] default_submit_inv
    by (auto simp: flux_submit_def Let_def split: sum.splits if_splits)
next
  case (3 reqs s s' e)
  then show ?case by (auto simp: flux_submit_def Let_def split: sum.splits if_splits)
next
  case (5 s b s')
  obtain c d where cd: "default_next_batch (fx_base s) = (c, d)" by fastforce
  with 5 have "b = c" "s' = s\<lparr>fx_base := d\<rparr>" by (simp_all add: flux_next_batch_def)
  with default_next_batch_law [OF 5(1) cd] show ?case by simp
qed (auto simp: default_inv_def default_finish_law default_abort_eq flux_finish_def flux_abort_def)

section \<open>The calls that reach the native scheduler\<close>

text \<open>
  The paged adapter over a native scheduler that only records its calls.  \<open>native_live\<close>
  reads off the record which requests the native scheduler holds, and \<open>native_calls_ok\<close> is
  what its interface demands: a submitted id is not held already, an aborted one is.
\<close>

datatype native_call = NSubmit "rid list" | NAdvance "sched_event list"

definition log_submit :: "request_spec list \<Rightarrow> native_call list \<Rightarrow> native_call list result" where
  "log_submit specs calls = Inr (calls @ [NSubmit (map sp_request_id specs)])"

definition log_advance :: "sched_event list \<Rightarrow> native_call list \<Rightarrow> native_call list" where
  "log_advance evs calls = calls @ [NAdvance evs]"

fun event_ends :: "sched_event \<Rightarrow> rid set" where
  "event_ends (Finish r) = {r}"
| "event_ends (Abort r) = {r}"
| "event_ends _ = {}"

fun call_live :: "native_call \<Rightarrow> rid set \<Rightarrow> rid set" where
  "call_live (NSubmit rs) A = A \<union> set rs"
| "call_live (NAdvance evs) A = A - (\<Union>e \<in> set evs. event_ends e)"

definition native_live :: "native_call list \<Rightarrow> rid set" where
  "native_live calls = fold call_live calls {}"

fun call_ok :: "native_call \<Rightarrow> rid set \<Rightarrow> bool" where
  "call_ok (NSubmit rs) A = (distinct rs \<and> set rs \<inter> A = {})"
| "call_ok (NAdvance evs) A = (\<forall>r. Abort r \<in> set evs \<longrightarrow> r \<in> A)"

fun native_calls_ok :: "native_call list \<Rightarrow> rid set \<Rightarrow> bool" where
  "native_calls_ok [] A = True"
| "native_calls_ok (c # cs) A = (call_ok c A \<and> native_calls_ok cs (call_live c A))"

datatype paged_op =
    PSubmit "request_state list"
  | PAdvance "(rid, int list) pydict" "(rid, nat) pydict" "rid list"
  | PFinish rid
  | PAbort rid

fun paged_op_run :: "paged_op \<Rightarrow> native_call list paged_sched \<Rightarrow> native_call list paged_sched" where
  "paged_op_run (PSubmit reqs) s = fst (paged_submit log_submit reqs s)"
| "paged_op_run (PAdvance tr rt fin) s = advance_forward log_advance tr rt fin s"
| "paged_op_run (PFinish r) s = paged_finish log_advance r s"
| "paged_op_run (PAbort r) s = paged_abort log_advance r s"

text \<open>Every prompt of the operation fits the model length, as \<open>make_state\<close> guarantees.\<close>

fun op_fits :: "int \<Rightarrow> paged_op \<Rightarrow> bool" where
  "op_fits n (PSubmit reqs) = list_all (\<lambda>req. int (length (rs_input_ids req)) \<le> n) reqs"
| "op_fits n _ = True"

lemma native_live_snoc [simp]: "native_live (calls @ [c]) = call_live c (native_live calls)"
  by (simp add: native_live_def)

lemma native_calls_ok_snoc:
  "native_calls_ok (calls @ [c]) A \<longleftrightarrow> native_calls_ok calls A \<and> call_ok c (fold call_live calls A)"
  by (induction calls arbitrary: A) auto

lemma paged_submit_loop_ok:
  assumes "list_all (\<lambda>req. int (length (rs_input_ids req)) \<le> pg_max_model_len s) reqs"
  shows "\<exists>new. paged_submit_loop reqs s specs
      = (s\<lparr>pg_active := pg_active s \<union> rs_rid ` set reqs\<rparr>, Inr (specs @ new))
    \<and> map sp_request_id new = new_rids (pg_active s) (map rs_rid reqs)"
  using assms
proof (induction reqs arbitrary: s specs)
  case Nil
  then show ?case by simp
next
  case (Cons req reqs)
  have "prefill_length s req \<le> length (rs_input_ids req)"
    by (simp add: prefill_length_def aligned_prefill_le)
  with Cons.prems have fits: "int (prefill_length s req) \<le> pg_max_model_len s" by simp
  show ?case
  proof (cases "rs_rid req \<in> pg_active s")
    case True
    with Cons show ?thesis by (simp add: insert_absorb)
  next
    case False
    let ?s1 = "s\<lparr>pg_active := insert (rs_rid req) (pg_active s)\<rparr>"
    let ?sp = "\<lparr> sp_request_id = rs_rid req, sp_tokens = rs_input_ids req,
                 sp_prefill_length = Some (prefill_length s req) \<rparr>"
    obtain new where "paged_submit_loop reqs ?s1 (specs @ [?sp])
        = (?s1\<lparr>pg_active := pg_active ?s1 \<union> rs_rid ` set reqs\<rparr>, Inr ((specs @ [?sp]) @ new))"
      and "map sp_request_id new = new_rids (pg_active ?s1) (map rs_rid reqs)"
      using Cons.IH [of ?s1 "specs @ [?sp]"] Cons.prems by auto
    with False fits show ?thesis by (intro exI [of _ "?sp # new"]) (simp add: Let_def)
  qed
qed

definition paged_log_inv :: "native_call list paged_sched \<Rightarrow> bool" where
  "paged_log_inv s = (pg_active s = native_live (pg_native s) \<and> native_calls_ok (pg_native s) {})"

lemma paged_log_inv_snoc:
  assumes "paged_log_inv s" and "call_ok c (pg_active s)" and "A = call_live c (pg_active s)"
    and "calls = pg_native s @ [c]"
  shows "paged_log_inv (s\<lparr>pg_native := calls, pg_active := A\<rparr>)"
  using assms by (simp add: paged_log_inv_def native_calls_ok_snoc native_live_def)

lemma forward_events_facts:
  "(\<Union>e \<in> set (forward_events tr rt fin). event_ends e) = set fin"
  "Abort r \<notin> set (forward_events tr rt fin)"
  "forward_events tr rt fin = [] \<Longrightarrow> fin = []"
  by (auto simp: forward_events_def)

lemma paged_submit_log_inv:
  assumes "paged_log_inv s" and "op_fits (pg_max_model_len s) (PSubmit reqs)"
  shows "paged_log_inv (fst (paged_submit log_submit reqs s))"
proof -
  from assms(2) have fit: "list_all (\<lambda>req. int (length (rs_input_ids req)) \<le> pg_max_model_len s) reqs"
    by simp
  obtain new where loop: "paged_submit_loop reqs s []
      = (s\<lparr>pg_active := pg_active s \<union> rs_rid ` set reqs\<rparr>, Inr new)"
    and new: "map sp_request_id new = new_rids (pg_active s) (map rs_rid reqs)"
    using paged_submit_loop_ok [OF fit, of "[]"] by auto
  show ?thesis
  proof (cases "new = []")
    case True
    with new have "set (new_rids (pg_active s) (map rs_rid reqs)) = {}" by simp
    then have "pg_active s \<union> rs_rid ` set reqs = pg_active s" by auto
    with assms(1) True show ?thesis by (simp add: paged_submit_def loop)
  next
    case False
    have "paged_log_inv (s\<lparr>pg_native := pg_native s @ [NSubmit (map sp_request_id new)],
        pg_active := pg_active s \<union> rs_rid ` set reqs\<rparr>)"
      by (rule paged_log_inv_snoc [OF assms(1), where c = "NSubmit (map sp_request_id new)"])
        (auto simp: new)
    with False show ?thesis by (simp add: paged_submit_def loop log_submit_def paged_log_inv_def)
  qed
qed

lemma advance_forward_log_inv:
  assumes "paged_log_inv s"
  shows "paged_log_inv (advance_forward log_advance tr rt fin s)"
proof (cases "forward_events tr rt fin = []")
  case True
  with assms show ?thesis using forward_events_facts(3) [OF True]
    by (simp add: advance_forward_def)
next
  case False
  have "paged_log_inv (s\<lparr>pg_native := pg_native s @ [NAdvance (forward_events tr rt fin)],
      pg_active := pg_active s - set fin\<rparr>)"
    by (rule paged_log_inv_snoc [OF assms, where c = "NAdvance (forward_events tr rt fin)"])
      (simp_all add: forward_events_facts)
  with False show ?thesis by (simp add: advance_forward_def log_advance_def Let_def paged_log_inv_def)
qed

lemma paged_abort_log_inv:
  assumes "paged_log_inv s"
  shows "paged_log_inv (paged_abort log_advance r s)"
proof (cases "r \<in> pg_active s")
  case True
  have "paged_log_inv (s\<lparr>pg_native := pg_native s @ [NAdvance [Abort r]],
      pg_active := pg_active s - {r}\<rparr>)"
    by (rule paged_log_inv_snoc [OF assms, where c = "NAdvance [Abort r]"])
      (simp_all add: True)
  with True show ?thesis by (simp add: paged_abort_def log_advance_def)
qed (simp add: paged_abort_def assms)

lemma paged_op_max_len [simp]: "pg_max_model_len (paged_op_run op s) = pg_max_model_len s"
proof (cases op)
  case (PSubmit reqs)
  have "pg_max_model_len (fst (paged_submit_loop reqs s specs)) = pg_max_model_len s" for specs
    by (induction reqs arbitrary: s specs) (auto simp: Let_def)
  from this [of "[]"] PSubmit show ?thesis
    by (auto simp: paged_submit_def log_submit_def split: prod.splits sum.splits)
qed (simp_all add: advance_forward_def paged_finish_def paged_abort_def Let_def)

lemma paged_op_log_inv:
  "paged_log_inv s \<Longrightarrow> op_fits (pg_max_model_len s) op \<Longrightarrow> paged_log_inv (paged_op_run op s)"
  by (cases op) (simp_all add: paged_submit_log_inv advance_forward_log_inv paged_abort_log_inv
      paged_finish_def)

section \<open>Properties\<close>

text \<open>
  The default scheduler is first-in first-out and loses nothing: \<open>k\<close> calls of
  \<open>next_batch\<close> hand out the first \<open>k * max_batch_size\<close> queued requests in order, in batches
  that are not empty and within the batch size, and leave the rest queued.
\<close>

lemma default_batches_fifo:
  assumes "default_inv s" and "drain default_next_batch k s = (bs, s')"
  shows "concat bs = take (k * ds_max_batch_size s) (ds_queue s)
    \<and> ds_queue s' = drop (k * ds_max_batch_size s) (ds_queue s)
    \<and> (\<forall>b \<in> set bs. b \<noteq> [] \<and> length b \<le> ds_max_batch_size s)
    \<and> distinct (concat bs @ ds_queue s')
    \<and> ds_active s' = ds_active s"
  using default_fifo.drain_spec [OF assms] default_fifo.inv_pending [OF assms(1)]
  by (metis append_take_drop_id)

lemma default_batches_fifo_witness:
  "concat (fst (drain default_next_batch 2
      \<lparr> ds_max_batch_size = 2, ds_queue = [''a'', ''b'', ''c''], ds_active = {''a'', ''b'', ''c''} \<rparr>))
   = [''a'', ''b'', ''c'']"
  using default_batches_fifo [OF _ surjective_pairing, THEN conjunct1,
      of "\<lparr> ds_max_batch_size = 2, ds_queue = [''a'', ''b'', ''c''],
      ds_active = {''a'', ''b'', ''c''} \<rparr>" 2]
  by (simp add: default_inv_def)



end
