(* ===== verification/Metrics.thy ===== *)
theory Metrics
  imports Processor
begin

text \<open>
  The counters of the engine (metrics/engine.py) and the throughput accounting of offline runs
  (metrics/performance.py).  Counters are natural numbers: the source clamps each decrement at
  zero, which is subtraction on \<open>nat\<close>.  Times and rates are rationals.
\<close>

section \<open>EngineMetrics\<close>

record engine_metrics =
  total_requests :: nat
  successful_requests :: nat
  failed_requests :: nat
  aborted_requests :: nat
  waiting_requests :: nat
  running_requests :: nat
  prompt_tokens :: nat
  generated_tokens :: nat
  queue_latencies :: "rat list"
  execution_latencies :: "rat list"
  e2e_latencies :: "rat list"

definition fresh_metrics :: engine_metrics where
  "fresh_metrics = \<lparr> total_requests = 0, successful_requests = 0, failed_requests = 0,
     aborted_requests = 0, waiting_requests = 0, running_requests = 0, prompt_tokens = 0,
     generated_tokens = 0, queue_latencies = [], execution_latencies = [], e2e_latencies = [] \<rparr>"

definition record_submitted :: "nat \<Rightarrow> engine_metrics \<Rightarrow> engine_metrics" where
  "record_submitted n m = m\<lparr>total_requests := total_requests m + 1,
     waiting_requests := waiting_requests m + 1, prompt_tokens := prompt_tokens m + n\<rparr>"

definition record_scheduled :: "nat \<Rightarrow> engine_metrics \<Rightarrow> engine_metrics" where
  "record_scheduled count m = m\<lparr>waiting_requests := waiting_requests m - count,
     running_requests := running_requests m + count\<rparr>"

definition opt_append :: "'a option \<Rightarrow> 'a list \<Rightarrow> 'a list" where
  "opt_append x xs = (case x of None \<Rightarrow> xs | Some a \<Rightarrow> xs @ [a])"

definition record_latencies :: "request_state \<Rightarrow> engine_metrics \<Rightarrow> engine_metrics" where
  "record_latencies st m = m\<lparr>queue_latencies := opt_append (queue_latency_s st) (queue_latencies m),
     execution_latencies := opt_append (execution_latency_s st) (execution_latencies m),
     e2e_latencies := opt_append (e2e_latency_s st) (e2e_latencies m)\<rparr>"

definition record_finished :: "request_state \<Rightarrow> bool \<Rightarrow> bool \<Rightarrow> engine_metrics \<Rightarrow> engine_metrics" where
  "record_finished st err aborted m =
     (let m1 = m\<lparr>running_requests := running_requests m - 1,
                 generated_tokens := generated_tokens m + completion_token_count st\<rparr>;
          m2 = (if aborted then m1\<lparr>aborted_requests := aborted_requests m1 + 1\<rparr>
                else if err then m1\<lparr>failed_requests := failed_requests m1 + 1\<rparr>
                else m1\<lparr>successful_requests := successful_requests m1 + 1\<rparr>)
      in record_latencies st m2)"

definition record_aborted :: "request_state \<Rightarrow> engine_metrics \<Rightarrow> engine_metrics" where
  "record_aborted st m =
     (let m1 = (if rs_scheduled_time st = None
                then m\<lparr>waiting_requests := waiting_requests m - 1\<rparr>
                else m\<lparr>running_requests := running_requests m - 1\<rparr>);
          m2 = m1\<lparr>aborted_requests := aborted_requests m1 + 1,
                  generated_tokens := generated_tokens m1 + completion_token_count st\<rparr>
      in record_latencies st m2)"

definition record_failed_before_submit :: "engine_metrics \<Rightarrow> engine_metrics" where
  "record_failed_before_submit m = m\<lparr>total_requests := total_requests m + 1,
     failed_requests := failed_requests m + 1\<rparr>"

definition avg :: "rat list \<Rightarrow> rat" where
  "avg values = (if values = [] then 0 else sum_list values / of_nat (length values))"

record metrics_snapshot =
  sn_counts :: "nat list"
  sn_queue_latency_avg_s :: rat
  sn_execution_latency_avg_s :: rat
  sn_e2e_latency_avg_s :: rat

definition snapshot :: "engine_metrics \<Rightarrow> metrics_snapshot" where
  "snapshot m = \<lparr> sn_counts = [total_requests m, successful_requests m, failed_requests m,
       aborted_requests m, waiting_requests m, running_requests m, prompt_tokens m,
       generated_tokens m],
     sn_queue_latency_avg_s = avg (queue_latencies m),
     sn_execution_latency_avg_s = avg (execution_latencies m),
     sn_e2e_latency_avg_s = avg (e2e_latencies m) \<rparr>"

text \<open>The counters that the ledger of the engine is about.\<close>

lemma record_submitted_counts [simp]:
  "total_requests (record_submitted n m) = Suc (total_requests m)"
  "successful_requests (record_submitted n m) = successful_requests m"
  "failed_requests (record_submitted n m) = failed_requests m"
  "aborted_requests (record_submitted n m) = aborted_requests m"
  "waiting_requests (record_submitted n m) = Suc (waiting_requests m)"
  "running_requests (record_submitted n m) = running_requests m"
  by (simp_all add: record_submitted_def)

lemma record_scheduled_counts [simp]:
  "total_requests (record_scheduled k m) = total_requests m"
  "successful_requests (record_scheduled k m) = successful_requests m"
  "failed_requests (record_scheduled k m) = failed_requests m"
  "aborted_requests (record_scheduled k m) = aborted_requests m"
  "waiting_requests (record_scheduled k m) = waiting_requests m - k"
  "running_requests (record_scheduled k m) = running_requests m + k"
  by (simp_all add: record_scheduled_def)

lemma record_finished_counts [simp]:
  "total_requests (record_finished st err False m) = total_requests m"
  "successful_requests (record_finished st err False m)
     = (if err then successful_requests m else Suc (successful_requests m))"
  "failed_requests (record_finished st err False m)
     = (if err then Suc (failed_requests m) else failed_requests m)"
  "aborted_requests (record_finished st err False m) = aborted_requests m"
  "waiting_requests (record_finished st err False m) = waiting_requests m"
  "running_requests (record_finished st err False m) = running_requests m - 1"
  by (simp_all add: record_finished_def record_latencies_def Let_def)

lemma record_aborted_counts [simp]:
  "total_requests (record_aborted st m) = total_requests m"
  "successful_requests (record_aborted st m) = successful_requests m"
  "failed_requests (record_aborted st m) = failed_requests m"
  "aborted_requests (record_aborted st m) = Suc (aborted_requests m)"
  "waiting_requests (record_aborted st m)
     = (if rs_scheduled_time st = None then waiting_requests m - 1 else waiting_requests m)"
  "running_requests (record_aborted st m)
     = (if rs_scheduled_time st = None then running_requests m else running_requests m - 1)"
  by (simp_all add: record_aborted_def record_latencies_def Let_def)

lemma record_failed_counts [simp]:
  "total_requests (record_failed_before_submit m) = Suc (total_requests m)"
  "successful_requests (record_failed_before_submit m) = successful_requests m"
  "failed_requests (record_failed_before_submit m) = Suc (failed_requests m)"
  "aborted_requests (record_failed_before_submit m) = aborted_requests m"
  "waiting_requests (record_failed_before_submit m) = waiting_requests m"
  "running_requests (record_failed_before_submit m) = running_requests m"
  by (simp_all add: record_failed_before_submit_def)

section \<open>Throughput accounting\<close>

definition eos_mask :: "int list \<Rightarrow> int list \<Rightarrow> bool list result" where
  "eos_mask tokens eos_ids =
     (if eos_ids = [] then Inl (ValueError ''at least one EOS token ID is required'')
      else Inr (fold (\<lambda>e mask. map2 (\<or>) mask (map (\<lambda>t. t = e) tokens)) (tl eos_ids)
                 (map (\<lambda>t. t = hd eos_ids) tokens)))"

definition count_completion_tokens ::
    "int list \<Rightarrow> nat \<Rightarrow> int list \<Rightarrow> int \<Rightarrow> nat result" where
  "count_completion_tokens row input_len eos_ids mask_id =
     (let generated = drop input_len row in
      result_bind (eos_mask generated eos_ids) (\<lambda>mask.
        case first_index id mask of
          Some i \<Rightarrow> Inr (i + 1)
        | None \<Rightarrow> Inr (length (filter (\<lambda>t. t \<noteq> mask_id) generated))))"

record batch_info =
  bi_token_numbers :: "nat list"
  bi_tpfs :: "rat list"
  bi_tpss :: "rat list"
  bi_fpss :: "rat list"
  bi_total_forward :: nat
  bi_total_time :: rat
  bi_total_token :: nat

record batch_perf =
  bp_batch_token_number :: nat
  bp_batch_token_numbers :: "nat list"
  bp_fps :: rat
  bp_tps :: rat
  bp_tpf :: rat
  bp_sample_time :: rat
  bp_nfe :: nat

definition record_batch_performance_metrics ::
    "batch_info \<Rightarrow> int list list \<Rightarrow> nat list \<Rightarrow> nat \<Rightarrow> nat \<Rightarrow> rat \<Rightarrow> int list \<Rightarrow> int
      \<Rightarrow> (batch_info \<times> batch_perf) result" where
  "record_batch_performance_metrics bi out input_lens start_idx nfe sample_time eos_ids mask_id =
     result_bind (result_map (\<lambda>j. result_bind (py_nth input_lens (start_idx + j))
         (\<lambda>n. count_completion_tokens (out ! j) n eos_ids mask_id)) [0..<length out]) (\<lambda>nums.
      let total = sum_list nums;
          fps = (if sample_time > 0 then of_nat nfe / sample_time else 0);
          tps = (if sample_time > 0 then of_nat total / sample_time else 0);
          tpfs = map (\<lambda>k. if nfe \<noteq> 0 then of_nat k / of_nat nfe else 0) nums
      in Inr (bi\<lparr>bi_token_numbers := bi_token_numbers bi @ nums, bi_tpfs := bi_tpfs bi @ tpfs,
                 bi_tpss := bi_tpss bi @ replicate (length nums) tps,
                 bi_fpss := bi_fpss bi @ replicate (length nums) fps,
                 bi_total_forward := bi_total_forward bi + nfe,
                 bi_total_time := bi_total_time bi + sample_time,
                 bi_total_token := bi_total_token bi + total\<rparr>,
              \<lparr> bp_batch_token_number = total, bp_batch_token_numbers = nums, bp_fps = fps,
                bp_tps = tps, bp_tpf = (if tpfs = [] then 0 else last tpfs),
                bp_sample_time = sample_time, bp_nfe = nfe \<rparr>))"

text \<open>\<open>xs[i]\<close> with Python's negative indices, and \<open>int(q)\<close>.\<close>

definition py_index :: "'a list \<Rightarrow> int \<Rightarrow> 'a result" where
  "py_index xs i =
     (if 0 \<le> i \<and> i < int (length xs) then Inr (xs ! nat i)
      else if i < 0 \<and> - int (length xs) \<le> i then Inr (xs ! nat (int (length xs) + i))
      else Inl IndexError)"

definition trunc :: "rat \<Rightarrow> int" where
  "trunc q = (if 0 \<le> q then \<lfloor>q\<rfloor> else \<lceil>q\<rceil>)"

definition percentile :: "rat list \<Rightarrow> rat \<Rightarrow> rat result" where
  "percentile vals pct =
     (if vals = [] then Inr 0
      else if length vals = 1 then Inr (vals ! 0)
      else let sorted_values = sort vals;
               rank = of_nat (length sorted_values - 1) * pct;
               lower = trunc rank;
               upper = min (lower + 1) (int (length sorted_values) - 1);
               weight = rank - of_int lower
           in result_bind (py_index sorted_values lower) (\<lambda>a.
              result_bind (py_index sorted_values upper) (\<lambda>b.
              Inr (a * (1 - weight) + b * weight))))"

record decode_block_metric =
  bm_sample_index :: nat
  bm_block_index :: nat
  bm_block_start :: nat
  bm_block_end :: nat
  bm_num_forwards :: nat
  bm_latency_s :: rat

record block_summary =
  su_total_decode_blocks :: nat
  su_total_decode_forwards :: nat
  su_block_forwards_avg :: rat
  su_block_forwards_max :: nat
  su_block_latency_avg_s :: rat
  su_block_latency_p50_s :: rat
  su_block_latency_p95_s :: rat
  su_block_latency_max_s :: rat

definition summarize_decode_block_metrics ::
    "decode_block_metric list \<Rightarrow> block_summary result" where
  "summarize_decode_block_metrics ms =
     (let forwards = map bm_num_forwards ms; latencies = map bm_latency_s ms in
      result_bind (percentile latencies (50/100)) (\<lambda>p50.
      result_bind (percentile latencies (95/100)) (\<lambda>p95.
      Inr \<lparr> su_total_decode_blocks = length ms, su_total_decode_forwards = sum_list forwards,
            su_block_forwards_avg = (if forwards = [] then 0
              else of_nat (sum_list forwards) / of_nat (length forwards)),
            su_block_forwards_max = (if forwards = [] then 0 else Max (set forwards)),
            su_block_latency_avg_s = (if latencies = [] then 0
              else sum_list latencies / of_nat (length latencies)),
            su_block_latency_p50_s = p50, su_block_latency_p95_s = p95,
            su_block_latency_max_s = (if latencies = [] then 0 else Max (set latencies)) \<rparr>)))"

section \<open>Lemmas on the throughput accounting\<close>

lemma fold_eos_mask:
  "length m = length tokens \<Longrightarrow>
   fold (\<lambda>e mask. map2 (\<or>) mask (map (\<lambda>t. t = e) tokens)) es m
     = map2 (\<or>) m (map (\<lambda>t. t \<in> set es) tokens)"
proof (induction es arbitrary: m)
  case Nil
  then show ?case by (intro nth_equalityI) auto
next
  case (Cons e es)
  then show ?case by (auto intro!: nth_equalityI)
qed

lemma eos_mask_eq:
  "eos_ids \<noteq> [] \<Longrightarrow> eos_mask tokens eos_ids = Inr (map (\<lambda>t. t \<in> set eos_ids) tokens)"
  by (cases eos_ids) (auto simp: eos_mask_def fold_eos_mask intro!: nth_equalityI)

lemma first_index_map: "first_index id (map P xs) = first_index P xs"
  by (induction xs) simp_all

lemma count_completion_tokens_eq:
  "eos_ids \<noteq> [] \<Longrightarrow> count_completion_tokens row n eos_ids mask_id =
     Inr (case first_index (\<lambda>t. t \<in> set eos_ids) (drop n row) of
            Some i \<Rightarrow> i + 1 | None \<Rightarrow> length (filter (\<lambda>t. t \<noteq> mask_id) (drop n row)))"
  by (simp add: count_completion_tokens_def eos_mask_eq first_index_map split: option.splits)

lemma trunc_rank:
  assumes "0 \<le> pct" and "pct \<le> 1" and "0 < n"
  shows "0 \<le> trunc (of_nat (n - 1) * pct)" "trunc (of_nat (n - 1) * pct) \<le> int n - 1"
    and "0 \<le> of_nat (n - 1) * pct - of_int (trunc (of_nat (n - 1) * pct))"
    and "of_nat (n - 1) * pct - of_int (trunc (of_nat (n - 1) * pct)) < 1"
proof -
  let ?r = "of_nat (n - 1) * pct"
  have r0: "0 \<le> ?r" using assms(1) by simp
  have r1: "?r \<le> of_nat (n - 1)" using assms(1,2) by (simp add: mult_left_le)
  have t: "trunc ?r = \<lfloor>?r\<rfloor>" using r0 by (simp add: trunc_def)
  show "0 \<le> trunc ?r" using r0 t by simp
  have "of_int \<lfloor>?r\<rfloor> \<le> (of_nat (n - 1) :: rat)" using r1 of_int_floor_le order_trans by blast
  then have "\<lfloor>?r\<rfloor> \<le> int (n - 1)" by (metis of_int_le_iff of_int_of_nat_eq)
  then show "trunc ?r \<le> int n - 1" using t assms(3) by simp
  show "0 \<le> ?r - of_int (trunc ?r)" using t by simp
  show "?r - of_int (trunc ?r) < 1" using t floor_correct [of ?r] by linarith
qed

lemma percentile_mix:
  assumes "2 \<le> length vals" and "0 \<le> pct" and "pct \<le> 1"
  shows "\<exists>i j w. i \<le> j \<and> j < length vals \<and> 0 \<le> w \<and> w < 1
    \<and> percentile vals pct = Inr (sort vals ! i * (1 - w) + sort vals ! j * w)"
proof -
  let ?n = "length vals" and ?s = "sort vals"
  let ?r = "of_nat (?n - 1) * pct"
  have n: "0 < ?n" using assms(1) by linarith
  note tr = trunc_rank [OF assms(2,3) n]
  let ?up = "min (trunc ?r + 1) (int ?n - 1)"
  have "py_index ?s (trunc ?r) = Inr (?s ! nat (trunc ?r))"
    and "py_index ?s ?up = Inr (?s ! nat ?up)"
    using tr(1,2) n by (auto simp: py_index_def)
  then have "percentile vals pct
      = Inr (?s ! nat (trunc ?r) * (1 - (?r - of_int (trunc ?r))) + ?s ! nat ?up * (?r - of_int (trunc ?r)))"
    using assms(1) by (cases "vals = []") (simp_all add: percentile_def Let_def)
  moreover have "nat (trunc ?r) \<le> nat ?up" "nat ?up < ?n" using tr(1,2) n by linarith+
  ultimately show ?thesis using tr(3,4) by blast
qed

lemma mix_between:
  fixes a b w :: rat
  assumes "lo \<le> a" "a \<le> hi" "lo \<le> b" "b \<le> hi" "0 \<le> w" "w \<le> 1"
  shows "lo \<le> a * (1 - w) + b * w" "a * (1 - w) + b * w \<le> hi"
proof -
  have "lo * (1 - w) + lo * w \<le> a * (1 - w) + b * w"
    using assms by (intro add_mono mult_right_mono) auto
  then show "lo \<le> a * (1 - w) + b * w" by (simp add: algebra_simps)
  have "a * (1 - w) + b * w \<le> hi * (1 - w) + hi * w"
    using assms by (intro add_mono mult_right_mono) auto
  then show "a * (1 - w) + b * w \<le> hi" by (simp add: algebra_simps)
qed

section \<open>Properties\<close>

text \<open>
  A percentile in \<open>[0, 1]\<close> of a list that is not empty is computed without an index error
  and lies between the smallest and the largest value.
\<close>

lemma percentile_bounds:
  assumes "vals \<noteq> []" and "0 \<le> pct" and "pct \<le> 1"
  shows "\<exists>p. percentile vals pct = Inr p \<and> Min (set vals) \<le> p \<and> p \<le> Max (set vals)"
proof (cases "length vals = 1")
  case True
  then obtain v where "vals = [v]" by (auto simp: length_Suc_conv)
  then show ?thesis by (simp add: percentile_def)
next
  case False
  with assms(1) have "2 \<le> length vals" by (cases vals) (auto simp: Suc_le_eq)
  then obtain i j w where ij: "i \<le> j" "j < length vals" "0 \<le> w" "w < 1"
    and p: "percentile vals pct = Inr (sort vals ! i * (1 - w) + sort vals ! j * w)"
    using percentile_mix [OF _ assms(2,3)] by blast
  have mem: "sort vals ! i \<in> set vals" "sort vals ! j \<in> set vals"
    using ij nth_mem [of _ "sort vals"] by auto
  show ?thesis
    using mix_between [of "Min (set vals)" "sort vals ! i" "Max (set vals)" "sort vals ! j" w]
      mem ij p by simp
qed

lemma percentile_bounds_witness:
  "\<exists>p. percentile [3, 9, 5] (95/100) = Inr p \<and> Min (set [3, 9, 5]) \<le> p \<and> p \<le> Max (set [3, 9, 5])"
  by (rule percentile_bounds) simp_all

text \<open>
  The batch accounting is consistent: with at least one EOS id and enough prompt lengths it
  returns; it appends one entry per output row to every per-sample list, each count is at most the
  number of generated positions, and the running token total grows by the sum of the counts.
\<close>

lemma record_batch_consistent:
  assumes "eos_ids \<noteq> []" and "start_idx + length out \<le> length input_lens"
  shows "\<exists>bi' bp. record_batch_performance_metrics bi out input_lens start_idx nfe t eos_ids mask_id
        = Inr (bi', bp)
    \<and> bi_token_numbers bi' = bi_token_numbers bi @ bp_batch_token_numbers bp
    \<and> length (bp_batch_token_numbers bp) = length out
    \<and> length (bi_tpfs bi') = length (bi_tpfs bi) + length out
    \<and> length (bi_tpss bi') = length (bi_tpss bi) + length out
    \<and> length (bi_fpss bi') = length (bi_fpss bi) + length out
    \<and> bi_total_token bi' = bi_total_token bi + sum_list (bp_batch_token_numbers bp)
    \<and> (\<forall>j < length out. bp_batch_token_numbers bp ! j
          \<le> length (out ! j) - input_lens ! (start_idx + j))"
proof -
  define c where "c = (\<lambda>j. case first_index (\<lambda>t. t \<in> set eos_ids)
      (drop (input_lens ! (start_idx + j)) (out ! j)) of
        Some i \<Rightarrow> i + 1
      | None \<Rightarrow> length (filter (\<lambda>t. t \<noteq> mask_id) (drop (input_lens ! (start_idx + j)) (out ! j))))"
  have counts: "result_map (\<lambda>j. result_bind (py_nth input_lens (start_idx + j))
         (\<lambda>n. count_completion_tokens (out ! j) n eos_ids mask_id)) [0..<length out]
      = Inr (map c [0..<length out])"
    by (rule result_map_ok) (use assms in \<open>simp add: py_nth_def count_completion_tokens_eq c_def\<close>)
  have le: "c j \<le> length (out ! j) - input_lens ! (start_idx + j)" for j
    using length_filter_le [of "\<lambda>t. t \<noteq> mask_id" "drop (input_lens ! (start_idx + j)) (out ! j)"]
    by (auto simp: c_def first_index_Some Suc_le_eq split: option.splits)
  show ?thesis
    unfolding record_batch_performance_metrics_def counts result_bind_simps Let_def
    using le by simp
qed

lemma record_batch_consistent_witness:
  "\<exists>bi' bp. record_batch_performance_metrics
      \<lparr> bi_token_numbers = [], bi_tpfs = [], bi_tpss = [], bi_fpss = [], bi_total_forward = 0,
        bi_total_time = 0, bi_total_token = 0 \<rparr> [[5, 6, 9, 3]] [2] 0 4 2 [9] 3 = Inr (bi', bp)
    \<and> length (bp_batch_token_numbers bp) = length [[5, 6, 9, 3 :: int]]"
  using record_batch_consistent [of "[9]" 0 "[[5, 6, 9, 3]]" "[2]"
      "\<lparr> bi_token_numbers = [], bi_tpfs = [], bi_tpss = [], bi_fpss = [], bi_total_forward = 0,
        bi_total_time = 0, bi_total_token = 0 \<rparr>" 4 2 3]
  by fastforce

end
