(* ===== verification/Engine.thy ===== *)
theory Engine
  imports Schedulers Executor Metrics
begin

text \<open>
  The asynchronous engine (engine/async_llm.py).  The coroutines interleave only at their
  \<open>await\<close>s, so each stretch of code between two suspensions is one definition: submitting a
  request, the immediate and the deferred half of an abort, starting a batch or a forward
  operation, and handling its results or its exception (putting on the unbounded queue of a
  request does not suspend).  Request objects are kept by identity in a store, because
  \<open>_states\<close> maps a request id to an object and an id can be used again.  Scheduler calls are
  arguments, as the scheduler is an attribute of the engine.
\<close>

section \<open>State\<close>

record 's engine =
  en_objs :: "request_state list"
  en_states :: "(rid, nat) pydict"
  en_sched :: 's
  en_metrics :: engine_metrics
  en_aborts :: "(rid \<times> string) list"
  en_running :: "(rid \<times> nat) list"
  en_released :: "rid list"

definition engine_init :: "'s \<Rightarrow> 's engine" where
  "engine_init s = \<lparr> en_objs = [], en_states = [], en_sched = s, en_metrics = fresh_metrics,
     en_aborts = [], en_running = [], en_released = [] \<rparr>"

text \<open>\<open>state.queue.put(output)\<close>\<close>

definition put_output :: "gen_output \<Rightarrow> request_state \<Rightarrow> request_state" where
  "put_output out st = st\<lparr>rs_queue := rs_queue st @ [out]\<rparr>"

definition set_obj :: "nat \<Rightarrow> request_state \<Rightarrow> 's engine \<Rightarrow> 's engine" where
  "set_obj k st e = e\<lparr>en_objs := (en_objs e)[k := st]\<rparr>"

definition update_objs :: "(request_state \<Rightarrow> request_state) \<Rightarrow> nat list \<Rightarrow> 's engine \<Rightarrow> 's engine" where
  "update_objs f ks e = fold (\<lambda>k e. set_obj k (f (en_objs e ! k)) e) ks e"

section \<open>Requests\<close>

text \<open>The tail of \<open>generate_request\<close> for one state, up to the wait for its output.\<close>

definition engine_submit ::
    "(request_state list \<Rightarrow> 's \<Rightarrow> 's \<times> unit result) \<Rightarrow> rat \<Rightarrow> request_state \<Rightarrow> 's engine
      \<Rightarrow> 's engine \<times> unit result" where
  "engine_submit submit now st e =
     (let st1 = mark_queued now st;
          e1 = e\<lparr>en_objs := en_objs e @ [st1],
                 en_states := dict_set (rs_rid st1) (length (en_objs e)) (en_states e),
                 en_metrics := record_submitted (prompt_token_count st1) (en_metrics e)\<rparr>;
          (s, res) = submit [st1] (en_sched e1)
      in (e1\<lparr>en_sched := s\<rparr>, res))"

definition engine_reject :: "'s engine \<Rightarrow> 's engine" where
  "engine_reject e = e\<lparr>en_metrics := record_failed_before_submit (en_metrics e)\<rparr>"

text \<open>The request that \<open>_collect_one\<close> builds for one member of a batch.\<close>

definition collect_req :: "request_state \<Rightarrow> gen_req" where
  "collect_req st = \<lparr> gr_text = None, gr_input_ids = Some (IdsFlat (rs_input_ids st)),
     gr_sampling_params = Some (ParDict (rs_sampling_params st)),
     gr_rid = Some (RidStr (rs_rid st)), gr_stream = False, gr_is_single = False,
     gr_batch_size = 0 \<rparr>"

record frontend =
  fe_args :: server_args
  fe_encode :: "string \<Rightarrow> int list"
  fe_bits :: "nat \<Rightarrow> int"
  fe_uuid :: "nat \<Rightarrow> string"

definition frontend_states :: "frontend \<Rightarrow> rat \<Rightarrow> gen_req \<Rightarrow> request_state list result" where
  "frontend_states fe now r = make_states (fe_args fe) (fe_encode fe) (fe_bits fe) now (fe_uuid fe) r"

definition generate_single ::
    "frontend \<Rightarrow> (request_state list \<Rightarrow> 's \<Rightarrow> 's \<times> unit result) \<Rightarrow> rat \<Rightarrow> gen_req \<Rightarrow> 's engine
      \<Rightarrow> 's engine \<times> unit result" where
  "generate_single fe submit now r e =
     (case frontend_states fe now r of
        Inr [st] \<Rightarrow> engine_submit submit now st e
      | _ \<Rightarrow> (engine_reject e, Inr ()))"

fun generate_all ::
    "frontend \<Rightarrow> (request_state list \<Rightarrow> 's \<Rightarrow> 's \<times> unit result) \<Rightarrow> rat \<Rightarrow> request_state list
      \<Rightarrow> 's engine \<Rightarrow> 's engine \<times> unit result" where
  "generate_all fe submit now [] e = (e, Inr ())"
| "generate_all fe submit now (st # sts) e =
     (case generate_single fe submit now (collect_req st) e of
        (e1, res) \<Rightarrow> (case generate_all fe submit now sts e1 of
           (e2, res2) \<Rightarrow> (e2, result_bind res (\<lambda>_. res2))))"

definition generate_request ::
    "frontend \<Rightarrow> (request_state list \<Rightarrow> 's \<Rightarrow> 's \<times> unit result) \<Rightarrow> rat \<Rightarrow> gen_req \<Rightarrow> 's engine
      \<Rightarrow> 's engine \<times> unit result" where
  "generate_request fe submit now r e =
     (case frontend_states fe now r of
        Inl err \<Rightarrow> (engine_reject e, Inr ())
      | Inr [st] \<Rightarrow> engine_submit submit now st e
      | Inr sts \<Rightarrow> generate_all fe submit now sts e)"

text \<open>
  What a client reads: outputs up to the first terminal one; and how \<open>_collect_one\<close> merges
  the chunks of a batch member into the first chunk.
\<close>

fun client_chunks :: "gen_output list \<Rightarrow> gen_output list" where
  "client_chunks [] = []"
| "client_chunks (out # outs) = (if go_finished out then [out] else out # client_chunks outs)"

definition merge_chunk :: "gen_output \<Rightarrow> gen_output \<Rightarrow> gen_output" where
  "merge_chunk chunk out = out\<lparr>go_text := go_text out @ go_text chunk,
     go_token_ids := go_token_ids out @ go_token_ids chunk,
     go_finish_reason := go_finish_reason chunk, go_error := go_error chunk\<rparr>"

definition collect_one :: "gen_output list \<Rightarrow> gen_output result" where
  "collect_one chunks = (case chunks of [] \<Rightarrow> Inl AssertionError | c # cs \<Rightarrow> Inr (fold merge_chunk cs c))"

section \<open>Aborts\<close>

text \<open>\<open>abort\<close> tells the scheduler at once and leaves the rest to a task of its own.\<close>

definition engine_abort :: "(rid \<Rightarrow> 's \<Rightarrow> 's) \<Rightarrow> rid \<Rightarrow> string \<Rightarrow> 's engine \<Rightarrow> 's engine" where
  "engine_abort sched_abort r reason e =
     e\<lparr>en_sched := sched_abort r (en_sched e), en_aborts := en_aborts e @ [(r, reason)]\<rparr>"

definition abort_tracked :: "rat \<Rightarrow> rid \<Rightarrow> string \<Rightarrow> 's engine \<Rightarrow> 's engine" where
  "abort_tracked now r reason e =
     (case map_of (en_states e) r of
        None \<Rightarrow> e
      | Some k \<Rightarrow>
          (let st = en_objs e ! k in
           if rs_finished st then e
           else let (st1, out) = make_abort_output now st reason
                in (set_obj k (put_output out st1) e)
                     \<lparr>en_metrics := record_aborted st1 (en_metrics e),
                      en_states := dict_pop (rs_rid st1) (en_states e)\<rparr>))"

definition engine_abort_task :: "rat \<Rightarrow> 's engine \<Rightarrow> 's engine" where
  "engine_abort_task now e =
     (case en_aborts e of
        [] \<Rightarrow> e
      | (r, reason) # rest \<Rightarrow>
          (let e1 = abort_tracked now r reason (e\<lparr>en_aborts := rest\<rparr>)
           in e1\<lparr>en_released := en_released e1 @ [r]\<rparr>))"

section \<open>The FIFO loop\<close>

definition states_for :: "rid list \<Rightarrow> (rid, nat) pydict \<Rightarrow> (rid \<times> nat) list" where
  "states_for ids d = List.map_filter (\<lambda>r. map_option (Pair r) (map_of d r)) ids"

definition states_by_id :: "(rid \<times> nat) list \<Rightarrow> (rid, nat) pydict" where
  "states_by_id sts = fold (\<lambda>(r, k). dict_set r k) sts []"

definition fifo_begin ::
    "('s \<Rightarrow> rid list option \<times> 's) \<Rightarrow> rat \<Rightarrow> 's engine \<Rightarrow> 's engine" where
  "fifo_begin next_batch now e =
     (case next_batch (en_sched e) of
        (None, s) \<Rightarrow> e\<lparr>en_sched := s\<rparr>
      | (Some ids, s) \<Rightarrow>
          (let e1 = e\<lparr>en_sched := s\<rparr>; sts = states_for ids (en_states e1) in
           if sts = [] then e1
           else (update_objs (mark_scheduled now) (map snd sts) e1)
                  \<lparr>en_metrics := record_scheduled (length sts) (en_metrics e1), en_running := sts\<rparr>))"

text \<open>Delivering a final output: put it, count it, tell the scheduler, forget the request.\<close>

definition deliver_result ::
    "(rid \<Rightarrow> 's \<Rightarrow> 's) \<Rightarrow> rat \<Rightarrow> nat \<Rightarrow> exec_result \<Rightarrow> 's engine \<Rightarrow> 's engine" where
  "deliver_result finish now k res e =
     (let (st1, out) = make_output now (en_objs e ! k) (er_token_ids res) (er_text res)
                         (Some (er_finish_reason res))
      in (set_obj k (put_output out st1) e)
           \<lparr>en_metrics := record_finished st1 False False (en_metrics e),
            en_sched := finish (rs_rid st1) (en_sched e),
            en_states := dict_pop (rs_rid st1) (en_states e)\<rparr>)"

definition fifo_result ::
    "(rid \<Rightarrow> 's \<Rightarrow> 's) \<Rightarrow> rat \<Rightarrow> (rid \<times> nat) list \<Rightarrow> exec_result \<Rightarrow> 's engine \<Rightarrow> 's engine" where
  "fifo_result finish now sts res e =
     (case map_of (states_by_id sts) (er_rid res) of
        None \<Rightarrow> e
      | Some k \<Rightarrow>
          if map_of (en_states e) (rs_rid (en_objs e ! k)) \<noteq> Some k \<or> rs_finished (en_objs e ! k)
          then e else deliver_result finish now k res e)"

definition fifo_ok ::
    "(rid \<Rightarrow> 's \<Rightarrow> 's) \<Rightarrow> rat \<Rightarrow> exec_result list \<Rightarrow> 's engine \<Rightarrow> 's engine" where
  "fifo_ok finish now results e =
     (let sts = en_running e;
          e1 = update_objs (mark_execution_done now) (map snd sts) e
      in (fold (fifo_result finish now sts) results e1)\<lparr>en_running := []\<rparr>)"

definition fail_one :: "(rid \<Rightarrow> 's \<Rightarrow> 's) \<Rightarrow> rat \<Rightarrow> string \<Rightarrow> nat \<Rightarrow> 's engine \<Rightarrow> 's engine" where
  "fail_one sched_end now msg k e =
     (let (st1, out) = make_error_output now (mark_execution_done now (en_objs e ! k)) msg
      in (set_obj k (put_output out st1) e)
           \<lparr>en_metrics := record_finished st1 True False (en_metrics e),
            en_sched := sched_end (rs_rid st1) (en_sched e),
            en_states := dict_pop (rs_rid st1) (en_states e)\<rparr>)"

text \<open>The exception path of the FIFO loop fails every state of the batch.\<close>

definition fifo_err :: "(rid \<Rightarrow> 's \<Rightarrow> 's) \<Rightarrow> rat \<Rightarrow> string \<Rightarrow> 's engine \<Rightarrow> 's engine" where
  "fifo_err finish now msg e =
     (fold (\<lambda>(r, k). fail_one finish now msg k) (en_running e) e)\<lparr>en_running := []\<rparr>"

section \<open>The execution-plan loop\<close>

definition plan_begin :: "rid list \<Rightarrow> rat \<Rightarrow> 's engine \<Rightarrow> 's engine" where
  "plan_begin op_ids now e =
     (let sts = states_by_id (states_for op_ids (en_states e)) in
      if sts = [] then e
      else let first = filter (\<lambda>(r, k). rs_scheduled_time (en_objs e ! k) = None) sts;
               e1 = update_objs (mark_scheduled now) (map snd sts) e
           in e1\<lparr>en_metrics := (if first \<noteq> [] then record_scheduled (length first) (en_metrics e1)
                                else en_metrics e1),
                 en_running := sts\<rparr>)"

record 's plan_acc =
  pa_engine :: "'s engine"
  pa_token_results :: "(rid, int list) pydict"
  pa_reserve_tokens :: "(rid, nat) pydict"
  pa_finished_ids :: "rid list"

definition plan_output :: "rat \<Rightarrow> step_result \<Rightarrow> request_state \<Rightarrow> request_state \<times> gen_output" where
  "plan_output now res st =
     (let st0 = (if sr_finished res then mark_execution_done now st else st);
          (st1, out) = make_output now st0 (sr_token_ids res) (sr_text res)
                         (if sr_finished res then sr_finish_reason res else None)
      in (if sr_decode_block_completed res then mark_decode_block_done st1 else st1, out))"

definition plan_result :: "rat \<Rightarrow> step_result \<Rightarrow> 's plan_acc \<Rightarrow> 's plan_acc" where
  "plan_result now res a =
     (let e = pa_engine a in
      case map_of (en_states e) (sr_rid res) of
        None \<Rightarrow> a
      | Some k \<Rightarrow>
          if rs_finished (en_objs e ! k) then a
          else let (st1, out) = plan_output now res (en_objs e ! k);
                   a1 = a\<lparr>pa_token_results :=
                     (if sr_token_ids res \<noteq> [] then dict_set (sr_rid res) (sr_token_ids res) (pa_token_results a)
                      else pa_token_results a)\<rparr>
               in if sr_finished res
                  then a1\<lparr>pa_finished_ids := pa_finished_ids a @ [sr_rid res],
                          pa_engine := (set_obj k (put_output out st1) e)
                            \<lparr>en_metrics := record_finished st1 False False (en_metrics e),
                             en_states := dict_pop (rs_rid st1) (en_states e)\<rparr>\<rparr>
                  else if 0 < sr_reserve_tokens res
                  then a1\<lparr>pa_reserve_tokens := dict_set (sr_rid res) (sr_reserve_tokens res)
                            (pa_reserve_tokens a),
                          pa_engine := set_obj k (if go_text out \<noteq> [] \<or> go_token_ids out \<noteq> []
                            then put_output out st1 else st1) e\<rparr>
                  else a1\<lparr>pa_engine := set_obj k st1 e\<rparr>)"

definition plan_ok ::
    "((rid, int list) pydict \<Rightarrow> (rid, nat) pydict \<Rightarrow> rid list \<Rightarrow> 's \<Rightarrow> 's) \<Rightarrow> rat
      \<Rightarrow> step_result list \<Rightarrow> 's engine \<Rightarrow> 's engine" where
  "plan_ok advance now results e =
     (let a = fold (plan_result now) results
            \<lparr> pa_engine = e, pa_token_results = [], pa_reserve_tokens = [], pa_finished_ids = [] \<rparr>;
          e1 = pa_engine a
      in e1\<lparr>en_sched := advance (pa_token_results a) (pa_reserve_tokens a) (pa_finished_ids a) (en_sched e1),
            en_released := en_released e1 @ pa_finished_ids a, en_running := []\<rparr>)"

definition fail_unless_finished ::
    "(rid \<Rightarrow> 's \<Rightarrow> 's) \<Rightarrow> rat \<Rightarrow> string \<Rightarrow> nat \<Rightarrow> 's engine \<times> rid list \<Rightarrow> 's engine \<times> rid list" where
  "fail_unless_finished sched_abort now msg k p =
     (case p of (e, failed) \<Rightarrow>
        if rs_finished (en_objs e ! k) then (e, failed)
        else (fail_one sched_abort now msg k e, failed @ [rs_rid (en_objs e ! k)]))"

definition fail_states ::
    "(rid \<Rightarrow> 's \<Rightarrow> 's) \<Rightarrow> rat \<Rightarrow> string \<Rightarrow> nat list \<Rightarrow> 's engine \<Rightarrow> 's engine" where
  "fail_states sched_abort now msg ks e =
     (case fold (fail_unless_finished sched_abort now msg) ks (e, []) of
        (e1, failed) \<Rightarrow> e1\<lparr>en_released := en_released e1 @ failed\<rparr>)"

definition plan_err :: "(rid \<Rightarrow> 's \<Rightarrow> 's) \<Rightarrow> rat \<Rightarrow> string \<Rightarrow> 's engine \<Rightarrow> 's engine" where
  "plan_err sched_abort now msg e =
     (fail_states sched_abort now msg (map snd (en_running e)) e)\<lparr>en_running := []\<rparr>"

text \<open>A plan with cache operations fails every tracked request.\<close>

definition fail_all_active :: "(rid \<Rightarrow> 's \<Rightarrow> 's) \<Rightarrow> rat \<Rightarrow> string \<Rightarrow> 's engine \<Rightarrow> 's engine" where
  "fail_all_active sched_abort now msg e =
     fail_states sched_abort now msg (map snd (en_states e)) e"


section \<open>Invariants\<close>

text \<open>
  A terminal output is the last one put, and it is there exactly when the state is finished; the
  tokens put on the queue are the tokens produced so far.
\<close>

definition stream_ok :: "request_state \<Rightarrow> bool" where
  "stream_ok st =
     ((if rs_finished st
       then rs_queue st \<noteq> [] \<and> go_finished (last (rs_queue st))
            \<and> list_all (\<lambda>out. \<not> go_finished out) (butlast (rs_queue st))
       else list_all (\<lambda>out. \<not> go_finished out) (rs_queue st))
    \<and> concat (map go_token_ids (rs_queue st)) = rs_output_ids st)"

text \<open>
  \<open>core_inv\<close> over the store, the tracking dict and the counters: tracked entries are
  unfinished objects under their own id, every object has its one terminal output, every
  unfinished object is tracked, and the outcomes add up.
\<close>

definition core_inv :: "request_state list \<Rightarrow> (rid, nat) pydict \<Rightarrow> engine_metrics \<Rightarrow> bool" where
  "core_inv objs d m =
     (distinct (map fst d)
    \<and> (\<forall>r k. (r, k) \<in> set d \<longrightarrow>
          k < length objs \<and> rs_rid (objs ! k) = r \<and> \<not> rs_finished (objs ! k))
    \<and> (\<forall>k < length objs. stream_ok (objs ! k)
          \<and> (\<not> rs_finished (objs ! k) \<longrightarrow> (rs_rid (objs ! k), k) \<in> set d))
    \<and> total_requests m
        = successful_requests m + failed_requests m + aborted_requests m + length d)"

text \<open>The gauges: tracked requests not scheduled yet, and scheduled ones.\<close>

definition unscheduled :: "request_state list \<Rightarrow> rid \<times> nat \<Rightarrow> bool" where
  "unscheduled objs p = (rs_scheduled_time (objs ! snd p) = None)"

definition gauge_inv :: "request_state list \<Rightarrow> (rid, nat) pydict \<Rightarrow> engine_metrics \<Rightarrow> bool" where
  "gauge_inv objs d m =
     (waiting_requests m = length (filter (unscheduled objs) d)
    \<and> running_requests m = length (filter (\<lambda>p. \<not> unscheduled objs p) d))"

text \<open>The requests of the executor call in flight.\<close>

definition run_inv :: "request_state list \<Rightarrow> (rid, nat) pydict \<Rightarrow> (rid \<times> nat) list \<Rightarrow> bool" where
  "run_inv objs d run =
     (distinct (map fst run) \<and> distinct (map snd run)
    \<and> (\<forall>r k. (r, k) \<in> set run \<longrightarrow> k < length objs \<and> rs_rid (objs ! k) = r
         \<and> rs_scheduled_time (objs ! k) \<noteq> None
         \<and> (\<forall>k'. (r, k') \<in> set d \<longrightarrow> k' = k)))"

subsection \<open>Lemmas on dictionaries and the store\<close>

lemma map_of_distinct_iff: "distinct (map fst d) \<Longrightarrow> map_of d r = Some k \<longleftrightarrow> (r, k) \<in> set d"
  by (simp add: map_of_eq_Some_iff)

lemma length_filter_dict_pop:
  assumes "distinct (map fst d)" and "(r, k) \<in> set d"
  shows "length (filter P d) = length (filter P (dict_pop r d)) + (if P (r, k) then 1 else 0)"
  using assms
proof (induction d)
  case (Cons p d)
  show ?case
  proof (cases "p = (r, k)")
    case True
    with Cons.prems(1) have "dict_pop r (p # d) = d"
      using dict_pop_absent [of r d] by (simp add: dict_pop_def)
    with True show ?thesis by simp
  next
    case False
    with Cons.prems have "(r, k) \<in> set d" "fst p \<noteq> r" by (force simp: image_iff)+
    with Cons show ?thesis by (cases p) (auto simp: dict_pop_def)
  qed
qed simp

lemma core_keys_inj:
  "core_inv objs d m \<Longrightarrow> (r, k) \<in> set d \<Longrightarrow> (r', k) \<in> set d \<Longrightarrow> r = r'"
  "core_inv objs d m \<Longrightarrow> (r, k) \<in> set d \<Longrightarrow> (r, k') \<in> set d \<Longrightarrow> k = k'"
  by (metis core_inv_def) (auto simp: core_inv_def dest: eq_key_imp_eq_value)

lemma core_tracked:
  assumes "core_inv objs d m" and "(r, k) \<in> set d"
  shows "k < length objs" "rs_rid (objs ! k) = r" "\<not> rs_finished (objs ! k)"
    "stream_ok (objs ! k)" "map_of d r = Some k"
  using assms by (auto simp: core_inv_def map_of_distinct_iff)

lemma core_lookup: "core_inv objs d m \<Longrightarrow> map_of d r = Some k \<longleftrightarrow> (r, k) \<in> set d"
  by (simp add: core_inv_def map_of_distinct_iff)

subsection \<open>The four moves\<close>

text \<open>Every operation of the engine is a sequence of the following changes.\<close>

text \<open>(1) An object changes without finishing.\<close>

lemma core_touch:
  assumes "core_inv objs d m" and "rs_rid st = rs_rid (objs ! k)"
    and "rs_finished st = rs_finished (objs ! k)" and "stream_ok st"
  shows "core_inv (objs[k := st]) d m"
  using assms
  by (cases "k < length objs") (auto simp: core_inv_def nth_list_update list_update_beyond not_less)

lemma gauge_touch:
  assumes "gauge_inv objs d m" and "rs_scheduled_time st = rs_scheduled_time (objs ! k)"
  shows "gauge_inv (objs[k := st]) d m"
proof -
  have "unscheduled (objs[k := st]) = unscheduled objs"
    using assms(2)
    by (cases "k < length objs")
      (auto simp: unscheduled_def fun_eq_iff nth_list_update list_update_beyond not_less)
  with assms(1) show ?thesis by (simp add: gauge_inv_def)
qed

lemma run_touch:
  assumes "run_inv objs d run" and "rs_rid st = rs_rid (objs ! k)"
    and "rs_scheduled_time (objs ! k) \<noteq> None \<Longrightarrow> rs_scheduled_time st \<noteq> None"
  shows "run_inv (objs[k := st]) d run"
  using assms
  by (cases "k < length objs") (auto simp: run_inv_def nth_list_update list_update_beyond not_less)

lemma run_pop: "run_inv objs d run \<Longrightarrow> run_inv objs (dict_pop r d) run"
  by (simp add: run_inv_def set_dict_pop)

text \<open>(2) A new request is tracked.\<close>

definition fresh_state :: "request_state \<Rightarrow> bool" where
  "fresh_state st = (rs_queue st = [] \<and> rs_finished_reason st = None \<and> rs_scheduled_time st = None
     \<and> rs_output_ids st = [])"

lemma core_add:
  assumes "core_inv objs d m" and "fresh_state st" and "rs_rid st \<notin> fst ` set d"
  shows "core_inv (objs @ [st]) (dict_set (rs_rid st) (length objs) d) (record_submitted n m)"
proof -
  have t: "stream_ok st" "\<not> rs_finished st"
    using assms(2) by (simp_all add: fresh_state_def stream_ok_def rs_finished_def)
  have d: "dict_set (rs_rid st) (length objs) d = d @ [(rs_rid st, length objs)]"
    by (rule dict_set_fresh [OF assms(3)])
  have "k < Suc (length objs)" if "(r, k) \<in> set d" for r k
    using core_tracked(1) [OF assms(1) that] by simp
  with assms t show ?thesis
    unfolding core_inv_def d by (auto simp: nth_append image_iff less_Suc_eq)
qed

lemma gauge_add:
  assumes "gauge_inv objs d m" and "core_inv objs d m" and "fresh_state st"
    and "rs_rid st \<notin> fst ` set d"
  shows "gauge_inv (objs @ [st]) (dict_set (rs_rid st) (length objs) d) (record_submitted n m)"
proof -
  have "filter (unscheduled (objs @ [st])) d = filter (unscheduled objs) d"
    "filter (\<lambda>p. \<not> unscheduled (objs @ [st]) p) d = filter (\<lambda>p. \<not> unscheduled objs p) d"
    using assms(2) by (auto simp: core_inv_def unscheduled_def nth_append intro!: filter_cong)
  then show ?thesis
    using assms(1,3)
    by (simp add: gauge_inv_def dict_set_fresh [OF assms(4)] unscheduled_def [of "objs @ [st]" "(_, length objs)"]
        fresh_state_def)
qed

lemma run_add:
  assumes "run_inv objs d run" and "r \<notin> fst ` set d" and "r \<notin> fst ` set run"
  shows "run_inv (objs @ [st]) (dict_set r (length objs) d) run"
  using assms(1,3) unfolding dict_set_fresh [OF assms(2)]
  by (force simp: run_inv_def nth_append)

text \<open>(3) A tracked request ends with its terminal output and one outcome is counted.\<close>

definition outcome :: "engine_metrics \<Rightarrow> engine_metrics \<Rightarrow> bool" where
  "outcome m m' = (total_requests m' = total_requests m
     \<and> successful_requests m' + failed_requests m' + aborted_requests m'
       = Suc (successful_requests m + failed_requests m + aborted_requests m))"

lemma core_end:
  assumes "core_inv objs d m" and "(r, k) \<in> set d" and "rs_rid st = r" and "rs_finished st"
    and "stream_ok st" and "outcome m m'"
  shows "core_inv (objs[k := st]) (dict_pop r d) m'"
proof -
  have len: "length d = Suc (length (dict_pop r d))"
    using length_dict_pop [of d r] assms(1,2) by (force simp: core_inv_def)
  have other: "k' \<noteq> k" if "(r', k') \<in> set (dict_pop r d)" for r' k'
    using that core_keys_inj(1) [OF assms(1)] assms(2) by (auto simp: set_dict_pop)
  have kept: "(rs_rid (objs ! j), j) \<in> set (dict_pop r d)"
    if "j < length objs" "\<not> rs_finished (objs ! j)" "j \<noteq> k" for j
  proof -
    from that assms(1) have "(rs_rid (objs ! j), j) \<in> set d" by (simp add: core_inv_def)
    with core_keys_inj(2) [OF assms(1,2)] that(3) show ?thesis by (auto simp: set_dict_pop)
  qed
  have "distinct (map fst (dict_pop r d))" using assms(1) by (simp add: core_inv_def)
  moreover have "\<forall>r' k'. (r', k') \<in> set (dict_pop r d) \<longrightarrow> k' < length (objs[k := st])
      \<and> rs_rid (objs[k := st] ! k') = r' \<and> \<not> rs_finished (objs[k := st] ! k')"
  proof (intro allI impI)
    fix r' k' assume p: "(r', k') \<in> set (dict_pop r d)"
    then have "(r', k') \<in> set d" by (simp add: set_dict_pop)
    from core_tracked [OF assms(1) this] other [OF p]
    show "k' < length (objs[k := st]) \<and> rs_rid (objs[k := st] ! k') = r'
        \<and> \<not> rs_finished (objs[k := st] ! k')" by simp
  qed
  moreover have "\<forall>j < length (objs[k := st]). stream_ok (objs[k := st] ! j)
      \<and> (\<not> rs_finished (objs[k := st] ! j) \<longrightarrow> (rs_rid (objs[k := st] ! j), j) \<in> set (dict_pop r d))"
    using assms(1,4,5) kept core_tracked(1) [OF assms(1,2)]
    by (auto simp: nth_list_update core_inv_def)
  ultimately show ?thesis using assms(1,6) len by (simp add: core_inv_def outcome_def)
qed

lemma stream_ok_end:
  "stream_ok st \<Longrightarrow> \<not> rs_finished st \<Longrightarrow> rs_finished st' \<Longrightarrow> go_finished out \<Longrightarrow>
   rs_queue st' = rs_queue st @ [out] \<Longrightarrow> rs_output_ids st' = rs_output_ids st @ go_token_ids out \<Longrightarrow>
   stream_ok st'"
  by (simp add: stream_ok_def)

lemma gauge_end:
  assumes "gauge_inv objs d m" and "core_inv objs d m" and "(r, k) \<in> set d"
    and "waiting_requests m' = waiting_requests m - (if unscheduled objs (r, k) then 1 else 0)"
    and "running_requests m' = running_requests m - (if unscheduled objs (r, k) then 0 else 1)"
  shows "gauge_inv (objs[k := st]) (dict_pop r d) m'"
proof -
  have same: "unscheduled (objs[k := st]) p = unscheduled objs p" if "p \<in> set (dict_pop r d)" for p
  proof -
    from that have "(fst p, snd p) \<in> set d" "fst p \<noteq> r" by (simp_all add: set_dict_pop)
    then have "snd p \<noteq> k" using core_keys_inj(1) [OF assms(2) _ assms(3)] by metis
    then show ?thesis by (simp add: unscheduled_def)
  qed
  have f: "filter (unscheduled (objs[k := st])) (dict_pop r d) = filter (unscheduled objs) (dict_pop r d)"
    "filter (\<lambda>p. \<not> unscheduled (objs[k := st]) p) (dict_pop r d)
      = filter (\<lambda>p. \<not> unscheduled objs p) (dict_pop r d)"
    using same by (auto intro!: filter_cong)
  have dist: "distinct (map fst d)" using assms(2) by (simp add: core_inv_def)
  show ?thesis
    using assms(1,4,5) length_filter_dict_pop [OF dist assms(3), of "unscheduled objs"]
      length_filter_dict_pop [OF dist assms(3), of "\<lambda>p. \<not> unscheduled objs p"]
    by (simp add: gauge_inv_def f split: if_splits)
qed


text \<open>(4) Requests of a batch are marked as scheduled.\<close>

lemma update_objs_simps [simp]:
  "en_states (update_objs f ks e) = en_states e" "en_sched (update_objs f ks e) = en_sched e"
  "en_metrics (update_objs f ks e) = en_metrics e" "en_aborts (update_objs f ks e) = en_aborts e"
  "en_running (update_objs f ks e) = en_running e" "en_released (update_objs f ks e) = en_released e"
  "length (en_objs (update_objs f ks e)) = length (en_objs e)"
proof -
  have "en_states (fold (\<lambda>k e. set_obj k (f (en_objs e ! k)) e) ks e) = en_states e
    \<and> en_sched (fold (\<lambda>k e. set_obj k (f (en_objs e ! k)) e) ks e) = en_sched e
    \<and> en_metrics (fold (\<lambda>k e. set_obj k (f (en_objs e ! k)) e) ks e) = en_metrics e
    \<and> en_aborts (fold (\<lambda>k e. set_obj k (f (en_objs e ! k)) e) ks e) = en_aborts e
    \<and> en_running (fold (\<lambda>k e. set_obj k (f (en_objs e ! k)) e) ks e) = en_running e
    \<and> en_released (fold (\<lambda>k e. set_obj k (f (en_objs e ! k)) e) ks e) = en_released e
    \<and> length (en_objs (fold (\<lambda>k e. set_obj k (f (en_objs e ! k)) e) ks e)) = length (en_objs e)"
    by (induction ks arbitrary: e) (simp_all add: set_obj_def)
  then show "en_states (update_objs f ks e) = en_states e" "en_sched (update_objs f ks e) = en_sched e"
    "en_metrics (update_objs f ks e) = en_metrics e" "en_aborts (update_objs f ks e) = en_aborts e"
    "en_running (update_objs f ks e) = en_running e" "en_released (update_objs f ks e) = en_released e"
    "length (en_objs (update_objs f ks e)) = length (en_objs e)"
    by (simp_all add: update_objs_def)
qed

lemma update_objs_cong:
  "en_objs x = en_objs y \<Longrightarrow> en_objs (update_objs f ks x) = en_objs (update_objs f ks y)"
  unfolding update_objs_def
proof (induction ks arbitrary: x y)
  case (Cons k ks)
  then show ?case using Cons.IH [of "set_obj k (f (en_objs x ! k)) x" "set_obj k (f (en_objs y ! k)) y"]
    by (simp add: set_obj_def)
qed simp

lemma nth_update_objs:
  "distinct ks \<Longrightarrow> j < length (en_objs e) \<Longrightarrow>
   en_objs (update_objs f ks e) ! j = (if j \<in> set ks then f (en_objs e ! j) else en_objs e ! j)"
proof (induction ks arbitrary: e)
  case (Cons k ks)
  from Cons.IH [of "set_obj k (f (en_objs e ! k)) e"] Cons.prems show ?case
    by (cases "j = k") (auto simp: update_objs_def set_obj_def)
qed (simp add: update_objs_def)

definition keeps_outputs :: "(request_state \<Rightarrow> request_state) \<Rightarrow> bool" where
  "keeps_outputs f = (\<forall>st. rs_rid (f st) = rs_rid st \<and> rs_finished (f st) = rs_finished st
     \<and> rs_queue (f st) = rs_queue st \<and> rs_output_ids (f st) = rs_output_ids st
     \<and> (rs_scheduled_time st \<noteq> None \<longrightarrow> rs_scheduled_time (f st) \<noteq> None))"

lemma keeps_marks [simp]:
  "keeps_outputs (mark_scheduled now)" "keeps_outputs (mark_execution_done now)"
  by (auto simp: keeps_outputs_def split: option.splits)

lemma keeps_stream_ok: "keeps_outputs f \<Longrightarrow> stream_ok (f st) = stream_ok st"
  by (simp add: keeps_outputs_def stream_ok_def)

lemma core_update_objs:
  assumes "core_inv (en_objs e) d m" and "keeps_outputs f" and "distinct ks"
  shows "core_inv (en_objs (update_objs f ks e)) d m"
  using assms(1) keeps_stream_ok [OF assms(2)] assms(2)
  unfolding core_inv_def keeps_outputs_def
  by (auto simp: nth_update_objs [OF assms(3)])

lemma run_update_objs:
  assumes "run_inv (en_objs e) d run" and "keeps_outputs f" and "distinct ks"
  shows "run_inv (en_objs (update_objs f ks e)) d run"
  using assms(1,2) unfolding run_inv_def keeps_outputs_def
  by (auto simp: nth_update_objs [OF assms(3)])

lemma length_filter_split:
  "length (filter P xs) = length (filter (\<lambda>x. P x \<and> Q x) xs) + length (filter (\<lambda>x. P x \<and> \<not> Q x) xs)"
  by (induction xs) auto

lemma length_filter_sub:
  assumes "distinct d" and "distinct sts" and "set sts \<subseteq> set d"
  shows "length (filter (\<lambda>x. P x \<and> x \<in> set sts) d) = length (filter P sts)"
proof -
  have "set (filter (\<lambda>x. P x \<and> x \<in> set sts) d) = set (filter P sts)" using assms(3) by auto
  then show ?thesis
    using assms(1,2) by (metis distinct_card distinct_filter)
qed

lemma gauge_schedule:
  assumes "gauge_inv (en_objs e) d m" and "core_inv (en_objs e) d m"
    and "distinct (map snd sts)" and "set sts \<subseteq> set d"
    and "n = length (filter (unscheduled (en_objs e)) sts)"
  shows "gauge_inv (en_objs (update_objs (mark_scheduled now) (map snd sts) e)) d
           (record_scheduled n m)"
proof -
  let ?U = "unscheduled (en_objs e)"
  let ?U' = "unscheduled (en_objs (update_objs (mark_scheduled now) (map snd sts) e))"
  have U': "?U' p \<longleftrightarrow> ?U p \<and> p \<notin> set sts" if p: "p \<in> set d" for p
  proof -
    have lt: "snd p < length (en_objs e)" using core_tracked(1) [OF assms(2), of "fst p" "snd p"] p by simp
    have "p = q" if "q \<in> set sts" "snd p = snd q" for q
      using core_keys_inj(1) [OF assms(2), of "fst p" "snd p" "fst q"] that p assms(4)
      by (cases p; cases q) auto
    then have "snd p \<in> snd ` set sts \<longleftrightarrow> p \<in> set sts" by blast
    with lt show ?thesis
      by (auto simp: unscheduled_def nth_update_objs [OF assms(3)] split: option.splits)
  qed
  have d: "distinct d" using assms(2) by (auto simp: core_inv_def distinct_map)
  have s: "distinct sts" using assms(3) by (auto simp: distinct_map)
  have "filter ?U' d = filter (\<lambda>p. ?U p \<and> p \<notin> set sts) d" by (rule filter_cong) (simp_all add: U')
  then have a: "length (filter ?U d) = n + length (filter ?U' d)"
    using length_filter_split [of ?U d "\<lambda>p. p \<in> set sts"] length_filter_sub [OF d s assms(4), of ?U] assms(5)
    by simp
  have "length (filter ?U d) + length (filter (\<lambda>p. \<not> ?U p) d)
      = length (filter ?U' d) + length (filter (\<lambda>p. \<not> ?U' p) d)"
    by (simp add: sum_length_filter_compl)
  with a assms(1) show ?thesis by (simp add: gauge_inv_def)
qed

subsection \<open>Selecting the states of a batch\<close>

lemma set_states_for: "(r, k) \<in> set (states_for ids d) \<longleftrightarrow> r \<in> set ids \<and> map_of d r = Some k"
  by (force simp: states_for_def List.map_filter_def)

lemma states_for_keys: "distinct ids \<Longrightarrow> distinct (map fst (states_for ids d))"
  by (induction ids) (auto simp: states_for_def List.map_filter_def split: option.splits)

lemma set_dict_set_subset: "set (dict_set r k d) \<subseteq> insert (r, k) (set d)"
  by (induction d) (auto simp: dict_set_def)

lemma states_by_id_facts:
  "set (states_by_id sts) \<subseteq> set sts \<and> distinct (map fst (states_by_id sts))"
proof -
  have "set (fold (\<lambda>(r, k). dict_set r k) sts d) \<subseteq> set sts \<union> set d
      \<and> (distinct (map fst d) \<longrightarrow> distinct (map fst (fold (\<lambda>(r, k). dict_set r k) sts d)))" for d
  proof (induction sts arbitrary: d)
    case (Cons p sts)
    from Cons.IH [of "dict_set (fst p) (snd p) d"] set_dict_set_subset [of "fst p" "snd p" d]
    show ?case by (cases p) auto
  qed simp
  from this [of "[]"] show ?thesis by (simp add: states_by_id_def)
qed

lemma states_by_id_distinct: "distinct (map fst sts) \<Longrightarrow> states_by_id sts = sts"
proof (induction sts rule: rev_induct)
  case (snoc p sts)
  then have "fst p \<notin> fst ` set sts" by simp
  then have "dict_set (fst p) (snd p) sts = sts @ [p]" by (simp add: dict_set_fresh)
  with snoc show ?case by (cases p) (simp add: states_by_id_def)
qed (simp add: states_by_id_def)

lemma run_inv_select:
  assumes "core_inv objs d m" and "set sts \<subseteq> set d" and "distinct (map fst sts)"
    and "\<And>r k. (r, k) \<in> set sts \<Longrightarrow> rs_scheduled_time (objs ! k) \<noteq> None"
  shows "distinct (map snd sts)" "run_inv objs d sts"
proof -
  have "inj_on snd (set sts)"
    using core_keys_inj(1) [OF assms(1)] assms(2)
    by (intro inj_onI) (metis prod.collapse subsetD)
  moreover have "distinct sts" using assms(3) by (simp add: distinct_map)
  ultimately show snd: "distinct (map snd sts)" by (simp add: distinct_map)
  show "run_inv objs d sts"
    unfolding run_inv_def
    using snd assms(3,4) core_tracked(1,2) [OF assms(1)] core_keys_inj(2) [OF assms(1)] assms(2)
    by blast
qed


section \<open>Every operation keeps the invariant\<close>

text \<open>With \<open>g\<close> the gauges are part of the invariant, without it only the outcomes are.\<close>

definition good :: "bool \<Rightarrow> 's engine \<Rightarrow> bool" where
  "good g e = (core_inv (en_objs e) (en_states e) (en_metrics e)
    \<and> run_inv (en_objs e) (en_states e) (en_running e)
    \<and> (g \<longrightarrow> gauge_inv (en_objs e) (en_states e) (en_metrics e)))"

lemma good_core: "good g e \<Longrightarrow> core_inv (en_objs e) (en_states e) (en_metrics e)"
  and good_run: "good g e \<Longrightarrow> run_inv (en_objs e) (en_states e) (en_running e)"
  by (simp_all add: good_def)

lemma good_cong:
  "en_objs e' = en_objs e \<Longrightarrow> en_states e' = en_states e \<Longrightarrow> en_metrics e' = en_metrics e \<Longrightarrow>
   en_running e' = en_running e \<Longrightarrow> good g e \<Longrightarrow> good g e'"
  by (simp add: good_def)

lemma good_not_running: "good g e \<Longrightarrow> good g (e\<lparr>en_running := []\<rparr>)"
  by (simp add: good_def run_inv_def)

lemma good_running:
  assumes "good g e" and "(r, k) \<in> set (en_running e)"
  shows "k < length (en_objs e)" "rs_rid (en_objs e ! k) = r"
    "rs_scheduled_time (en_objs e ! k) \<noteq> None"
    "\<And>k'. (r, k') \<in> set (en_states e) \<Longrightarrow> k' = k"
  using assms unfolding good_def run_inv_def by blast+

lemma good_touch:
  assumes "good g e" and "rs_rid st = rs_rid (en_objs e ! k)"
    and "rs_finished st = rs_finished (en_objs e ! k)" and "stream_ok st"
    and "rs_scheduled_time st = rs_scheduled_time (en_objs e ! k)"
  shows "good g (set_obj k st e)"
  using assms core_touch [OF good_core [OF assms(1)] assms(2-4)]
    run_touch [OF good_run [OF assms(1)] assms(2)] gauge_touch [OF _ assms(5)]
  by (simp add: good_def set_obj_def)

text \<open>A tracked request ends: the common shape of delivering, failing and aborting.\<close>

lemma good_end:
  assumes "good g e" and "(r, k) \<in> set (en_states e)"
    and "rs_rid st = r" and "rs_finished st" and "go_finished out"
    and "rs_queue st = rs_queue (en_objs e ! k)
      \<and> rs_output_ids st = rs_output_ids (en_objs e ! k) @ go_token_ids out"
    and "rs_scheduled_time st = rs_scheduled_time (en_objs e ! k)"
    and "outcome (en_metrics e) m'"
    and "g \<Longrightarrow> waiting_requests m' = waiting_requests (en_metrics e)
          - (if unscheduled (en_objs e) (r, k) then 1 else 0)"
    and "g \<Longrightarrow> running_requests m' = running_requests (en_metrics e)
          - (if unscheduled (en_objs e) (r, k) then 0 else 1)"
    and "en_objs e' = (en_objs e)[k := put_output out st]"
    and "en_states e' = dict_pop r (en_states e)" and "en_metrics e' = m'"
    and "en_running e' = en_running e"
  shows "good g e'"
proof -
  note core = good_core [OF assms(1)]
  note tr = core_tracked [OF core assms(2)]
  have st: "rs_rid (put_output out st) = r" "rs_finished (put_output out st)"
    "rs_scheduled_time (put_output out st) = rs_scheduled_time (en_objs e ! k)"
    "stream_ok (put_output out st)"
    using assms(3-7) stream_ok_end [OF tr(4,3), of "put_output out st" out]
    by (simp_all add: put_output_def rs_finished_def)
  have "core_inv ((en_objs e)[k := put_output out st]) (dict_pop r (en_states e)) m'"
    by (rule core_end [OF core assms(2) st(1,2,4) assms(8)])
  moreover have "run_inv ((en_objs e)[k := put_output out st]) (dict_pop r (en_states e)) (en_running e)"
    using run_touch [OF good_run [OF assms(1)]] st(1,3) tr(2) by (intro run_pop) simp
  moreover have "g \<Longrightarrow> gauge_inv ((en_objs e)[k := put_output out st]) (dict_pop r (en_states e)) m'"
    using assms(1,9,10) by (intro gauge_end [OF _ core assms(2)]) (simp_all add: good_def)
  ultimately show ?thesis using assms(11-14) by (simp add: good_def)
qed

lemma good_submit:
  assumes "good g e" and "fresh_state st" and "rs_rid st \<notin> fst ` set (en_states e)"
    and "rs_rid st \<notin> fst ` set (en_running e)"
  shows "good g (fst (engine_submit submit now st e))"
proof -
  have f: "fresh_state (mark_queued now st)"
    using assms(2) by (simp add: fresh_state_def mark_queued_def)
  show ?thesis
    using assms(1) core_add [OF good_core [OF assms(1)] f] run_add [OF good_run [OF assms(1)]]
      gauge_add [OF _ good_core [OF assms(1)] f] assms(3,4)
    by (simp add: good_def engine_submit_def Let_def split: prod.splits)
qed

lemma good_reject: "good g e \<Longrightarrow> good g (engine_reject e)"
  by (simp add: good_def engine_reject_def core_inv_def gauge_inv_def)

lemma good_abort_tracked:
  assumes "good g e"
  shows "good g (abort_tracked now r reason e)"
proof (cases "map_of (en_states e) r")
  case (Some k)
  then have tr: "(r, k) \<in> set (en_states e)" using core_lookup [OF good_core [OF assms]] by simp
  note facts = core_tracked [OF good_core [OF assms] tr]
  obtain st1 out where mk: "make_abort_output now (en_objs e ! k) reason = (st1, out)" by fastforce
  note f = make_abort_output_fields [of now "en_objs e ! k" reason, unfolded mk fst_conv snd_conv]
  show ?thesis
    by (rule good_end [OF assms tr, of st1 out "record_aborted st1 (en_metrics e)"])
      (use Some facts f mk in \<open>auto simp: abort_tracked_def set_obj_def outcome_def unscheduled_def\<close>)
qed (simp add: abort_tracked_def assms)

lemma abort_tracked_aborts:
  "en_aborts (abort_tracked now r reason e) = en_aborts e"
  "en_running (abort_tracked now r reason e) = en_running e"
  "en_sched (abort_tracked now r reason e) = en_sched e"
  by (simp_all add: abort_tracked_def set_obj_def Let_def split: option.splits prod.splits)

lemma good_abort_task: "good g e \<Longrightarrow> good g (engine_abort_task now e)"
proof -
  assume g: "good g e"
  have "good g (abort_tracked now r reason (e\<lparr>en_aborts := rest\<rparr>))" for r reason rest
    by (rule good_abort_tracked) (rule good_cong [OF _ _ _ _ g], simp_all)
  then show ?thesis
    using g by (auto simp: engine_abort_task_def Let_def split: list.splits intro: good_cong)
qed

lemma good_begin:
  assumes "good g e" and "set sts \<subseteq> set (en_states e)" and "distinct (map fst sts)"
    and "g \<Longrightarrow> n = length (filter (unscheduled (en_objs e)) sts)"
    and "en_objs e' = en_objs (update_objs (mark_scheduled now) (map snd sts) e)"
    and "en_states e' = en_states e" and "en_metrics e' = record_scheduled n (en_metrics e)"
    and "en_running e' = sts"
  shows "good g e'"
proof -
  let ?objs = "en_objs (update_objs (mark_scheduled now) (map snd sts) e)"
  note core = good_core [OF assms(1)]
  have snd: "distinct (map snd sts)"
    using core_keys_inj(1) [OF core] assms(2,3)
    by (auto simp: distinct_map inj_on_def subset_iff) metis+
  have core': "core_inv ?objs (en_states e) (en_metrics e)"
    by (rule core_update_objs [OF core _ snd]) simp
  have sched: "rs_scheduled_time (?objs ! k) \<noteq> None" if "(r, k) \<in> set sts" for r k
    using core_tracked(1) [OF core, of r k] that assms(2)
    by (force simp: nth_update_objs [OF snd] split: option.splits)
  have "run_inv ?objs (en_states e) sts" by (rule run_inv_select(2) [OF core' assms(2,3) sched])
  moreover have "g \<Longrightarrow> gauge_inv ?objs (en_states e) (record_scheduled n (en_metrics e))"
    using assms(1) by (intro gauge_schedule [OF _ core snd assms(2) assms(4)]) (simp_all add: good_def)
  moreover have "core_inv ?objs (en_states e) (record_scheduled n (en_metrics e))"
    using core' by (simp add: core_inv_def)
  ultimately show ?thesis using assms(5-8) by (simp add: good_def)
qed

lemma good_deliver:
  assumes "good g e" and "(r, k) \<in> set (en_states e)"
    and "g \<Longrightarrow> rs_scheduled_time (en_objs e ! k) \<noteq> None"
  shows "good g (deliver_result finish now k res e)"
proof -
  note facts = core_tracked [OF good_core [OF assms(1)] assms(2)]
  obtain st1 out where mk: "make_output now (en_objs e ! k) (er_token_ids res) (er_text res)
      (Some (er_finish_reason res)) = (st1, out)" by fastforce
  note f = make_output_fields [of now "en_objs e ! k" "er_token_ids res" "er_text res"
      "Some (er_finish_reason res)", unfolded mk fst_conv snd_conv]
  show ?thesis
    by (rule good_end [OF assms(1,2), of st1 out "record_finished st1 False False (en_metrics e)"])
      (use assms(3) facts f mk in \<open>auto simp: deliver_result_def set_obj_def outcome_def unscheduled_def\<close>)
qed

lemma good_fail_one:
  assumes "good g e" and "(r, k) \<in> set (en_states e)"
    and "g \<Longrightarrow> rs_scheduled_time (en_objs e ! k) \<noteq> None"
  shows "good g (fail_one sched_end now msg k e)"
proof -
  note facts = core_tracked [OF good_core [OF assms(1)] assms(2)]
  obtain st1 out where mk: "make_error_output now (mark_execution_done now (en_objs e ! k)) msg
      = (st1, out)" by fastforce
  note f = make_error_output_fields [of now "mark_execution_done now (en_objs e ! k)" msg,
      unfolded mk fst_conv snd_conv]
  show ?thesis
    by (rule good_end [OF assms(1,2), of st1 out "record_finished st1 True False (en_metrics e)"])
      (use assms(3) facts f mk in \<open>auto simp: fail_one_def set_obj_def outcome_def unscheduled_def\<close>)
qed


lemma deliver_running [simp]:
  "en_running (deliver_result finish now k res e) = en_running e"
  "en_aborts (deliver_result finish now k res e) = en_aborts e"
  by (simp_all add: deliver_result_def set_obj_def Let_def split: prod.splits)

lemma fail_one_running [simp]:
  "en_running (fail_one sched_end now msg k e) = en_running e"
  "en_aborts (fail_one sched_end now msg k e) = en_aborts e"
  "en_states (fail_one sched_end now msg k e) = dict_pop (rs_rid (en_objs e ! k)) (en_states e)"
  "en_sched (fail_one sched_end now msg k e) = sched_end (rs_rid (en_objs e ! k)) (en_sched e)"
  by (simp_all add: fail_one_def set_obj_def make_error_output_def Let_def split: prod.splits)

lemma fold_keeps:
  "(\<And>x s. x \<in> set xs \<Longrightarrow> P s \<Longrightarrow> P (f x s)) \<Longrightarrow> P s \<Longrightarrow> P (fold f xs s)"
  by (induction xs arbitrary: s) simp_all

lemma good_mark_done:
  assumes "good g e"
  shows "good g (update_objs (mark_execution_done now) (map snd (en_running e)) e)"
proof -
  have d: "distinct (map snd (en_running e))" using good_run [OF assms] by (simp add: run_inv_def)
  have "unscheduled (en_objs (update_objs (mark_execution_done now) (map snd (en_running e)) e)) p
      = unscheduled (en_objs e) p" if "p \<in> set (en_states e)" for p
    using that core_tracked(1) [OF good_core [OF assms], of "fst p" "snd p"]
    by (simp add: unscheduled_def nth_update_objs [OF d])
  then have "filter (unscheduled (en_objs (update_objs (mark_execution_done now) (map snd (en_running e)) e)))
      (en_states e) = filter (unscheduled (en_objs e)) (en_states e)"
    "filter (\<lambda>p. \<not> unscheduled (en_objs (update_objs (mark_execution_done now) (map snd (en_running e)) e)) p)
      (en_states e) = filter (\<lambda>p. \<not> unscheduled (en_objs e) p) (en_states e)"
    by (auto intro!: filter_cong)
  with assms core_update_objs [OF good_core [OF assms] _ d]
    run_update_objs [OF good_run [OF assms] _ d]
  show ?thesis by (simp add: good_def gauge_inv_def)
qed

text \<open>The FIFO loop.\<close>

lemma good_fifo_result:
  assumes "good g e" and "en_running e = sts"
  shows "good g (fifo_result finish now sts res e) \<and> en_running (fifo_result finish now sts res e) = sts"
proof (cases "map_of (states_by_id sts) (er_rid res)")
  case (Some k)
  have "distinct (map fst sts)" using good_run [OF assms(1)] assms(2) by (simp add: run_inv_def)
  with Some have run: "(er_rid res, k) \<in> set (en_running e)"
    by (simp add: states_by_id_distinct assms(2) map_of_distinct_iff)
  note facts = good_running [OF assms(1) run]
  show ?thesis
  proof (cases "map_of (en_states e) (er_rid res) = Some k")
    case True
    then have "(er_rid res, k) \<in> set (en_states e)"
      using core_lookup [OF good_core [OF assms(1)]] by simp
    from good_deliver [OF assms(1) this facts(3), where finish = finish] show ?thesis
      using assms Some facts(2) True by (simp add: fifo_result_def)
  qed (use assms Some facts(2) in \<open>simp add: fifo_result_def\<close>)
qed (use assms in \<open>simp add: fifo_result_def\<close>)

lemma good_fifo_ok:
  assumes "good g e"
  shows "good g (fifo_ok finish now results e)"
proof -
  let ?e1 = "update_objs (mark_execution_done now) (map snd (en_running e)) e"
  let ?P = "\<lambda>s. good g s \<and> en_running s = en_running e"
  have "?P (fifo_result finish now (en_running e) res s)" if "?P s" for res s
    using good_fifo_result [of g s "en_running e" finish now res] that by simp
  then have "?P (fold (fifo_result finish now (en_running e)) results ?e1)"
    by (intro fold_keeps [where P = ?P]) (use good_mark_done [OF assms] in auto)
  then show ?thesis by (simp add: fifo_ok_def Let_def good_not_running)
qed

lemma good_fifo_err:
  assumes "good g e" and "set (en_running e) \<subseteq> set (en_states e)"
  shows "good g (fifo_err finish now msg e)"
proof -
  have "good g (fold (\<lambda>(r, k). fail_one finish now msg k) sts s)"
    if "good g s" "set sts \<subseteq> set (en_states s)" "set sts \<subseteq> set (en_running s)"
      "distinct (map fst sts)" for sts s
    using that
  proof (induction sts arbitrary: s)
    case (Cons p sts)
    obtain r k where p: "p = (r, k)" by (cases p)
    have tr: "(r, k) \<in> set (en_states s)" using Cons.prems(2) p by simp
    have run: "(r, k) \<in> set (en_running s)" using Cons.prems(3) p by simp
    have "good g (fail_one finish now msg k s)"
      by (rule good_fail_one [OF Cons.prems(1) tr]) (rule good_running(3) [OF Cons.prems(1) run])
    moreover have "set sts \<subseteq> set (dict_pop r (en_states s))"
      using Cons.prems(2,4) p by (force simp: set_dict_pop)
    ultimately show ?case
      using Cons.IH [of "fail_one finish now msg k s"] Cons.prems p
        core_tracked(2) [OF good_core [OF Cons.prems(1)] tr] by simp
  qed simp
  from this [OF assms(1,2)] good_run [OF assms(1)] show ?thesis
    by (simp add: fifo_err_def good_not_running run_inv_def)
qed

text \<open>The execution-plan loop.\<close>

lemma good_plan_begin:
  assumes "good g e" and "en_running e = []"
  shows "good g (plan_begin ids now e)"
proof -
  let ?sts = "states_by_id (states_for ids (en_states e))"
  let ?n = "length (filter (unscheduled (en_objs e)) ?sts)"
  have sub: "set ?sts \<subseteq> set (en_states e)"
    using states_by_id_facts [of "states_for ids (en_states e)"]
    by (auto simp: set_states_for core_lookup [OF good_core [OF assms(1)]])
  have first: "filter (\<lambda>(r, k). rs_scheduled_time (en_objs e ! k) = None) ?sts
      = filter (unscheduled (en_objs e)) ?sts"
    by (rule filter_cong) (auto simp: unscheduled_def)
  have zero: "record_scheduled 0 m = m" for m by (simp add: record_scheduled_def)
  show ?thesis
  proof (cases "?sts = []")
    case False
    show ?thesis
      by (rule good_begin [OF assms(1) sub, of ?n _ now])
        (use False states_by_id_facts first zero in \<open>auto simp: plan_begin_def Let_def\<close>)
  qed (simp add: plan_begin_def assms)
qed

definition result_ok :: "'s engine \<Rightarrow> step_result \<Rightarrow> bool" where
  "result_ok e res = (sr_rid res \<in> fst ` set (en_running e)
     \<and> (sr_finished res \<longrightarrow> sr_finish_reason res \<noteq> None)
     \<and> (sr_finished res \<or> 0 < sr_reserve_tokens res \<or> sr_token_ids res = []))"

lemma plan_output_fields:
  assumes "plan_output now res st = (st1, out)"
  shows "rs_rid st1 = rs_rid st" "rs_queue st1 = rs_queue st"
    "rs_scheduled_time st1 = rs_scheduled_time st"
    "\<not> sr_finished res \<Longrightarrow> rs_finished st1 = rs_finished st"
    "\<not> sr_finished res \<Longrightarrow> go_finished out = rs_finished st"
    "sr_finished res \<Longrightarrow> sr_finish_reason res \<noteq> None \<Longrightarrow> rs_finished st1 \<and> go_finished out"
    "rs_output_ids st1 = rs_output_ids st @ sr_token_ids res"
    "go_token_ids out = sr_token_ids res"
proof -
  obtain st2 where mk: "make_output now (if sr_finished res then mark_execution_done now st else st)
      (sr_token_ids res) (sr_text res) (if sr_finished res then sr_finish_reason res else None) = (st2, out)"
    and st1: "st1 = (if sr_decode_block_completed res then mark_decode_block_done st2 else st2)"
    using assms by (auto simp: plan_output_def Let_def split: prod.splits)
  note f = make_output_fields [of now "if sr_finished res then mark_execution_done now st else st"
      "sr_token_ids res" "sr_text res" "if sr_finished res then sr_finish_reason res else None",
      unfolded mk fst_conv snd_conv]
  show "rs_rid st1 = rs_rid st" "rs_queue st1 = rs_queue st"
    "rs_scheduled_time st1 = rs_scheduled_time st"
    "\<not> sr_finished res \<Longrightarrow> rs_finished st1 = rs_finished st"
    "\<not> sr_finished res \<Longrightarrow> go_finished out = rs_finished st"
    "sr_finished res \<Longrightarrow> sr_finish_reason res \<noteq> None \<Longrightarrow> rs_finished st1 \<and> go_finished out"
    "rs_output_ids st1 = rs_output_ids st @ sr_token_ids res"
    "go_token_ids out = sr_token_ids res"
    using f by (auto simp: st1)
qed

lemma good_plan_result:
  assumes "good g (pa_engine a)" and "result_ok (pa_engine a) res"
  shows "good g (pa_engine (plan_result now res a))
    \<and> en_running (pa_engine (plan_result now res a)) = en_running (pa_engine a)
    \<and> en_aborts (pa_engine (plan_result now res a)) = en_aborts (pa_engine a)
    \<and> en_sched (pa_engine (plan_result now res a)) = en_sched (pa_engine a)"
proof (cases "map_of (en_states (pa_engine a)) (sr_rid res)")
  case (Some k)
  let ?e = "pa_engine a"
  have tr: "(sr_rid res, k) \<in> set (en_states ?e)"
    using Some core_lookup [OF good_core [OF assms(1)]] by simp
  note facts = core_tracked [OF good_core [OF assms(1)] tr]
  obtain k' where run: "(sr_rid res, k') \<in> set (en_running ?e)"
    using assms(2) by (auto simp: result_ok_def)
  have sched: "rs_scheduled_time (en_objs ?e ! k) \<noteq> None"
    using good_running(3,4) [OF assms(1) run] tr by metis
  obtain st1 out where po: "plan_output now res (en_objs ?e ! k) = (st1, out)" by fastforce
  note f = plan_output_fields [OF po]
  show ?thesis
  proof (cases "sr_finished res")
    case True
    with assms(2) have fr: "sr_finish_reason res \<noteq> None" by (simp add: result_ok_def)
    have "good g ((set_obj k (put_output out st1) ?e)
        \<lparr>en_metrics := record_finished st1 False False (en_metrics ?e),
         en_states := dict_pop (rs_rid st1) (en_states ?e)\<rparr>)"
      by (rule good_end [OF assms(1) tr, of st1 out "record_finished st1 False False (en_metrics ?e)"])
        (use True fr facts f sched in \<open>auto simp: set_obj_def outcome_def unscheduled_def\<close>)
    with True show ?thesis
      using Some facts(3) po by (simp add: plan_result_def Let_def set_obj_def)
  next
    case False
    have ok: "sr_token_ids res = [] \<Longrightarrow> stream_ok st1" "stream_ok (put_output out st1)"
      using facts(3,4) f(2,4,5,7,8) False
      by (simp_all add: stream_ok_def put_output_def rs_finished_def)
    have "good g (set_obj k (put_output out st1) ?e)"
      using ok(2) f(1,3,4) False
      by (auto intro!: good_touch [OF assms(1)] simp: put_output_def rs_finished_def)
    moreover have "good g (set_obj k st1 ?e)" if "sr_token_ids res = []"
      using ok(1) [OF that] f(1,3,4) False by (auto intro!: good_touch [OF assms(1)])
    moreover have "sr_token_ids res = []" if "sr_reserve_tokens res = 0"
      using that assms(2) False by (simp add: result_ok_def)
    ultimately show ?thesis
      using Some facts(3) po f(8) False by (simp add: plan_result_def Let_def set_obj_def)
  qed
qed (use assms(1) in \<open>simp add: plan_result_def\<close>)

lemma good_plan_ok:
  assumes "good g e" and "list_all (result_ok e) results"
  shows "good g (plan_ok advance now results e)"
proof -
  let ?a = "\<lparr> pa_engine = e, pa_token_results = [], pa_reserve_tokens = [], pa_finished_ids = [] \<rparr>"
  let ?P = "\<lambda>a. good g (pa_engine a) \<and> en_running (pa_engine a) = en_running e"
  have "?P (plan_result now res a)" if "res \<in> set results" "?P a" for res a
    using good_plan_result [of g a res now] that assms(2) by (auto simp: list_all_iff result_ok_def)
  then have "?P (fold (plan_result now) results ?a)"
    by (intro fold_keeps [where P = ?P]) (use assms(1) in auto)
  then show ?thesis
    by (auto simp: plan_ok_def Let_def good_def run_inv_def)
qed

lemma good_fail_states:
  assumes "good g e"
    and "\<And>k. k \<in> set ks \<Longrightarrow> k < length (en_objs e)"
    and "g \<Longrightarrow> (\<And>k. k \<in> set ks \<Longrightarrow> rs_scheduled_time (en_objs e ! k) \<noteq> None)"
  shows "good g (fail_states sched_abort now msg ks e)
    \<and> en_running (fail_states sched_abort now msg ks e) = en_running e
    \<and> en_aborts (fail_states sched_abort now msg ks e) = en_aborts e"
proof -
  let ?P = "\<lambda>p. good g (fst p) \<and> en_running (fst p) = en_running e \<and> en_aborts (fst p) = en_aborts e
    \<and> length (en_objs (fst p)) = length (en_objs e)
    \<and> (\<forall>k < length (en_objs e). rs_scheduled_time (en_objs e ! k) \<noteq> None
         \<longrightarrow> rs_scheduled_time (en_objs (fst p) ! k) \<noteq> None)"
  have "?P (fail_unless_finished sched_abort now msg k p)" if k: "k \<in> set ks" and p: "?P p" for k p
  proof (cases "rs_finished (en_objs (fst p) ! k)")
    case False
    have lt: "k < length (en_objs (fst p))" using assms(2) [OF k] p by simp
    with False have tr: "(rs_rid (en_objs (fst p) ! k), k) \<in> set (en_states (fst p))"
      using good_core [of g "fst p"] p by (simp add: core_inv_def)
    have "good g (fail_one sched_abort now msg k (fst p))"
      using good_fail_one [OF _ tr] p assms(2,3) k by blast
    with False p lt show ?thesis
      by (auto simp: fail_unless_finished_def fail_one_def set_obj_def make_error_output_def
          put_output_def mark_execution_done_def nth_list_update Let_def split: prod.splits)
  qed (use p in \<open>cases p; simp add: fail_unless_finished_def\<close>)
  then have "?P (fold (fail_unless_finished sched_abort now msg) ks (e, []))"
    by (intro fold_keeps [where P = ?P]) (use assms(1) in auto)
  then show ?thesis
    by (auto simp: fail_states_def good_def split: prod.splits)
qed

lemma good_plan_err:
  assumes "good g e"
  shows "good g (plan_err sched_abort now msg e)"
proof -
  have "good g (fail_states sched_abort now msg (map snd (en_running e)) e)"
    by (rule good_fail_states [OF assms, THEN conjunct1])
      (use good_running(1,3) [OF assms] in fastforce)+
  then show ?thesis by (simp add: plan_err_def good_not_running)
qed

lemma good_fail_all:
  assumes "good False e"
  shows "good False (fail_all_active sched_abort now msg e)"
  unfolding fail_all_active_def
  by (rule good_fail_states [OF assms, THEN conjunct1])
    (use core_tracked(1) [OF good_core [OF assms]] in auto)


section \<open>The engine as a state machine\<close>

text \<open>
  The steps of an engine that executes plans.  The premises state what the clients and the
  executor owe: an id is not submitted again while it is tracked or in flight, the executor
  reports only on requests of its operation, and a finished result names its reason.  With
  \<open>cache_ops\<close> the scheduler may emit plans with cache operations, which fail every request.
\<close>

inductive plan_step ::
    "bool \<Rightarrow> (request_state list \<Rightarrow> 's \<Rightarrow> 's \<times> unit result)
      \<Rightarrow> ((rid, int list) pydict \<Rightarrow> (rid, nat) pydict \<Rightarrow> rid list \<Rightarrow> 's \<Rightarrow> 's)
      \<Rightarrow> (rid \<Rightarrow> 's \<Rightarrow> 's) \<Rightarrow> 's engine \<Rightarrow> 's engine \<Rightarrow> bool"
  for cache_ops submit advance sched_abort where
  plan_submit: "\<lbrakk> fresh_state st; rs_rid st \<notin> fst ` set (en_states e);
      rs_rid st \<notin> fst ` set (en_running e) \<rbrakk>
    \<Longrightarrow> plan_step cache_ops submit advance sched_abort e (fst (engine_submit submit now st e))"
| plan_reject: "plan_step cache_ops submit advance sched_abort e (engine_reject e)"
| plan_abort: "plan_step cache_ops submit advance sched_abort e (engine_abort sched_abort r reason e)"
| plan_abort_task: "plan_step cache_ops submit advance sched_abort e (engine_abort_task now e)"
| plan_forward: "en_running e = []
    \<Longrightarrow> plan_step cache_ops submit advance sched_abort e (plan_begin ids now e)"
| plan_results: "list_all (result_ok e) results
    \<Longrightarrow> plan_step cache_ops submit advance sched_abort e (plan_ok advance now results e)"
| plan_exception: "plan_step cache_ops submit advance sched_abort e (plan_err sched_abort now msg e)"
| plan_cache: "\<lbrakk> cache_ops; en_running e = [] \<rbrakk>
    \<Longrightarrow> plan_step cache_ops submit advance sched_abort e (fail_all_active sched_abort now msg e)"

inductive_simps plan_step_iff: "plan_step cache_ops submit advance sched_abort e e'"

lemma good_init: "good g (engine_init s)"
  by (simp add: good_def engine_init_def core_inv_def run_inv_def gauge_inv_def fresh_metrics_def)

lemma good_abort: "good g e \<Longrightarrow> good g (engine_abort sched_abort r reason e)"
  by (erule good_cong [rotated 4]) (simp_all add: engine_abort_def)

lemma plan_step_good:
  assumes "plan_step cache_ops submit advance sched_abort e e'" and "good g e" and "g \<longrightarrow> \<not> cache_ops"
  shows "good g e'"
  using assms
proof (cases rule: plan_step.cases)
  case (plan_cache now msg)
  with assms have "good False e" "g = False" by (auto simp: good_def)
  with plan_cache good_fail_all show ?thesis by metis
qed (simp_all add: good_submit good_reject good_abort good_abort_task good_plan_begin good_plan_ok
    good_plan_err)

lemma plan_reachable_good:
  assumes "(plan_step cache_ops submit advance sched_abort)\<^sup>*\<^sup>* (engine_init s) e"
    and "g \<longrightarrow> \<not> cache_ops"
  shows "good g e"
  using assms(1)
  by induction (simp_all add: good_init plan_step_good [OF _ _ assms(2)])

text \<open>The steps of an engine over a FIFO scheduler, with the same obligations.\<close>

inductive fifo_step ::
    "(request_state list \<Rightarrow> 's \<Rightarrow> 's \<times> unit result) \<Rightarrow> ('s \<Rightarrow> rid list option \<times> 's)
      \<Rightarrow> (rid \<Rightarrow> 's \<Rightarrow> 's) \<Rightarrow> (rid \<Rightarrow> 's \<Rightarrow> 's) \<Rightarrow> 's engine \<Rightarrow> 's engine \<Rightarrow> bool"
  for submit next_batch finish sched_abort where
  fifo_submit: "\<lbrakk> fresh_state st; rs_rid st \<notin> fst ` set (en_states e);
      rs_rid st \<notin> fst ` set (en_running e); rs_rid st \<notin> fst ` set (en_aborts e);
      engine_submit submit now st e = (e', Inr ()) \<rbrakk>
    \<Longrightarrow> fifo_step submit next_batch finish sched_abort e e'"
| fifo_reject: "fifo_step submit next_batch finish sched_abort e (engine_reject e)"
| fifo_abort: "fifo_step submit next_batch finish sched_abort e (engine_abort sched_abort r reason e)"
| fifo_abort_task: "fifo_step submit next_batch finish sched_abort e (engine_abort_task now e)"
| fifo_batch: "en_running e = []
    \<Longrightarrow> fifo_step submit next_batch finish sched_abort e (fifo_begin next_batch now e)"
| fifo_results: "fst ` set (en_running e) \<subseteq> er_rid ` set results
    \<Longrightarrow> fifo_step submit next_batch finish sched_abort e (fifo_ok finish now results e)"
| fifo_exception: "set (en_running e) \<subseteq> set (en_states e)
    \<Longrightarrow> fifo_step submit next_batch finish sched_abort e (fifo_err finish now msg e)"

inductive_simps fifo_step_iff: "fifo_step submit next_batch finish sched_abort e e'"

text \<open>
  No request is lost: a tracked request is about to be aborted, or waits in the scheduler's
  queue, or is in flight; and the scheduler owns only tracked requests.
\<close>

definition tracked_ok :: "rid list \<Rightarrow> 's engine \<Rightarrow> rid \<Rightarrow> nat \<Rightarrow> bool" where
  "tracked_ok q e r k = (r \<in> fst ` set (en_aborts e)
     \<or> (unscheduled (en_objs e) (r, k) \<and> r \<in> set q) \<or> (r, k) \<in> set (en_running e))"

definition sched_agrees :: "rid list \<Rightarrow> rid set \<Rightarrow> 's engine \<Rightarrow> bool" where
  "sched_agrees q own e =
     (own \<subseteq> fst ` set (en_states e)
    \<and> fst ` set (en_aborts e) \<inter> own = {}
    \<and> (\<forall>r \<in> set q. \<exists>k. (r, k) \<in> set (en_states e) \<and> unscheduled (en_objs e) (r, k))
    \<and> (\<forall>r k. (r, k) \<in> set (en_states e) \<longrightarrow> tracked_ok q e r k))"

lemma agrees_end:
  assumes "sched_agrees q own e" and "good g e" and "(r, k) \<in> set (en_states e)"
    and "en_states e' = dict_pop r (en_states e)" and "en_objs e' = (en_objs e)[k := st]"
    and "en_running e' = en_running e" and "en_aborts e' = en_aborts e"
    and "own' = own - {r}" and "q' = filter (\<lambda>p. p \<noteq> r) q"
  shows "sched_agrees q' own' e'"
proof -
  have other: "unscheduled (en_objs e') (r', k') = unscheduled (en_objs e) (r', k')"
    if "(r', k') \<in> set (en_states e)" "r' \<noteq> r" for r' k'
  proof -
    have "k' \<noteq> k" using core_keys_inj(1) [OF good_core [OF assms(2)] that(1), of r] assms(3) that(2) by blast
    then show ?thesis using assms(5) by (simp add: unscheduled_def)
  qed
  have mem: "(r', k') \<in> set (en_states e') \<longleftrightarrow> (r', k') \<in> set (en_states e) \<and> r' \<noteq> r" for r' k'
    by (simp add: assms(4) set_dict_pop)
  have "own' \<subseteq> fst ` set (en_states e')" "fst ` set (en_aborts e') \<inter> own' = {}"
    using assms(1) unfolding sched_agrees_def assms(4,7,8) keys_dict_pop by blast+
  moreover have "\<exists>k. (p, k) \<in> set (en_states e') \<and> unscheduled (en_objs e') (p, k)"
    if "p \<in> set q'" for p
    using assms(1,9) that other mem unfolding sched_agrees_def by fastforce
  moreover have "tracked_ok q' e' r' k'" if "(r', k') \<in> set (en_states e')" for r' k'
  proof -
    from that mem have d: "(r', k') \<in> set (en_states e)" and ne: "r' \<noteq> r" by simp_all
    from assms(1) d have "tracked_ok q e r' k'" by (simp add: sched_agrees_def)
    with other [OF d ne] ne show ?thesis by (auto simp: tracked_ok_def assms(6,7,9))
  qed
  ultimately show ?thesis by (simp add: sched_agrees_def)
qed


lemma agrees_cong:
  "sched_agrees q own e \<Longrightarrow> en_states e' = en_states e \<Longrightarrow> en_objs e' = en_objs e \<Longrightarrow>
   en_running e' = en_running e \<Longrightarrow> en_aborts e' = en_aborts e \<Longrightarrow> sched_agrees q own e'"
  by (simp add: sched_agrees_def tracked_ok_def)

lemma agrees_mark_done:
  assumes "sched_agrees q own e" and "good g e"
  shows "sched_agrees q own (update_objs (mark_execution_done now) (map snd (en_running e)) e)"
proof -
  have d: "distinct (map snd (en_running e))" using good_run [OF assms(2)] by (simp add: run_inv_def)
  let ?e = "update_objs (mark_execution_done now) (map snd (en_running e)) e"
  have same: "unscheduled (en_objs ?e) (r, k) = unscheduled (en_objs e) (r, k)"
    if "(r, k) \<in> set (en_states e)" for r k
    using core_tracked(1) [OF good_core [OF assms(2)] that]
    by (simp add: unscheduled_def nth_update_objs [OF d])
  have "tracked_ok q ?e r k" if "(r, k) \<in> set (en_states e)" for r k
    using assms(1) same [OF that] that by (simp add: sched_agrees_def tracked_ok_def)
  moreover have "\<exists>k. (r, k) \<in> set (en_states e) \<and> unscheduled (en_objs ?e) (r, k)"
    if "r \<in> set q" for r
    using assms(1) same that unfolding sched_agrees_def by blast
  ultimately show ?thesis using assms(1) by (simp add: sched_agrees_def)
qed

lemma agrees_submit:
  assumes "sched_agrees q own e" and "good g e" and "fresh_state st"
    and "rs_rid st \<notin> fst ` set (en_states e)" and "rs_rid st \<notin> fst ` set (en_aborts e)"
    and "en_objs e' = en_objs e @ [mark_queued now st]"
    and "en_states e' = dict_set (rs_rid st) (length (en_objs e)) (en_states e)"
    and "en_running e' = en_running e" and "en_aborts e' = en_aborts e"
    and "own' = insert (rs_rid st) own" and "q' = q @ [rs_rid st]"
  shows "sched_agrees q' own' e'"
proof -
  have st: "en_states e' = en_states e @ [(rs_rid st, length (en_objs e))]"
    using assms(7) dict_set_fresh [OF assms(4)] by simp
  have old: "unscheduled (en_objs e') (r, k) = unscheduled (en_objs e) (r, k)"
    if "(r, k) \<in> set (en_states e)" for r k
    using core_tracked(1) [OF good_core [OF assms(2)] that] assms(6)
    by (simp add: unscheduled_def nth_append)
  have new: "unscheduled (en_objs e') (rs_rid st, length (en_objs e))"
    using assms(3,6) by (simp add: unscheduled_def fresh_state_def mark_queued_def)
  have "\<exists>k. (r, k) \<in> set (en_states e') \<and> unscheduled (en_objs e') (r, k)" if "r \<in> set q'" for r
    using assms(1) that old new unfolding assms(11) st sched_agrees_def by fastforce
  moreover have "tracked_ok q' e' r k" if "(r, k) \<in> set (en_states e')" for r k
  proof (cases "(r, k) \<in> set (en_states e)")
    case True
    with assms(1) have "tracked_ok q e r k" by (simp add: sched_agrees_def)
    with old [OF True] show ?thesis by (auto simp: tracked_ok_def assms(8,9,11))
  next
    case False
    with that st new show ?thesis by (simp add: tracked_ok_def assms(11))
  qed
  moreover have "own' \<subseteq> fst ` set (en_states e')" "fst ` set (en_aborts e') \<inter> own' = {}"
    using assms(1,5) unfolding sched_agrees_def assms(9,10) st by auto
  ultimately show ?thesis by (simp add: sched_agrees_def)
qed

lemma agrees_abort:
  assumes "sched_agrees q own e"
    and "en_states e' = en_states e" and "en_objs e' = en_objs e"
    and "en_running e' = en_running e" and "en_aborts e' = en_aborts e @ [(r, reason)]"
    and "own' = own - {r}" and "q' = filter (\<lambda>p. p \<noteq> r) q"
  shows "sched_agrees q' own' e'"
  using assms(1) unfolding sched_agrees_def tracked_ok_def assms(2-7) by auto

lemma agrees_begin:
  assumes "sched_agrees q own e" and "good g e" and "en_running e = []" and "distinct q"
    and "sts = states_for ids (en_states e)" and "q = ids @ q'"
    and "en_objs e' = en_objs (update_objs (mark_scheduled now) (map snd sts) e)"
    and "en_states e' = en_states e" and "en_running e' = sts" and "en_aborts e' = en_aborts e"
    and "distinct (map snd sts)"
  shows "sched_agrees q' own e'"
proof -
  note core = good_core [OF assms(2)]
  have sel: "(r, k) \<in> set sts \<longleftrightarrow> r \<in> set ids \<and> (r, k) \<in> set (en_states e)" for r k
    by (simp add: assms(5) set_states_for core_lookup [OF core])
  have uns: "unscheduled (en_objs e') (r, k) \<longleftrightarrow> unscheduled (en_objs e) (r, k) \<and> r \<notin> set ids"
    if d: "(r, k) \<in> set (en_states e)" for r k
  proof -
    have "k \<in> snd ` set sts \<longleftrightarrow> r \<in> set ids"
    proof
      assume "k \<in> snd ` set sts"
      then obtain r' where r': "(r', k) \<in> set sts" by auto
      then have "r' = r" using sel core_keys_inj(1) [OF core _ d] by blast
      with r' sel show "r \<in> set ids" by simp
    next
      assume "r \<in> set ids"
      with sel d have "(r, k) \<in> set sts" by simp
      then show "k \<in> snd ` set sts" by force
    qed
    then show ?thesis
      using core_tracked(1) [OF core d]
      by (auto simp: unscheduled_def assms(7) nth_update_objs [OF assms(11)] split: option.splits)
  qed
  have "\<exists>k. (r, k) \<in> set (en_states e') \<and> unscheduled (en_objs e') (r, k)" if r: "r \<in> set q'" for r
  proof -
    from assms(4,6) r have "r \<notin> set ids" "r \<in> set q" by auto
    with assms(1) uns show ?thesis unfolding sched_agrees_def assms(8) by blast
  qed
  moreover have "tracked_ok q' e' r k" if "(r, k) \<in> set (en_states e')" for r k
  proof -
    from that have d: "(r, k) \<in> set (en_states e)" by (simp add: assms(8))
    with assms(1) have "tracked_ok q e r k" by (simp add: sched_agrees_def)
    with sel d uns [OF d] assms(3,6) show ?thesis
      by (auto simp: tracked_ok_def assms(9,10))
  qed
  moreover have "own \<subseteq> fst ` set (en_states e')" "fst ` set (en_aborts e') \<inter> own = {}"
    using assms(1) by (simp_all add: sched_agrees_def assms(8,10))
  ultimately show ?thesis by (simp add: sched_agrees_def)
qed

lemma agrees_idle:
  assumes "sched_agrees q own e" and "set (en_running e) \<inter> set (en_states e) = {}"
  shows "sched_agrees q own (e\<lparr>en_running := []\<rparr>)"
proof -
  have "(r, k) \<notin> set (en_running e)" if "(r, k) \<in> set (en_states e)" for r k
    using assms(2) that by blast
  with assms(1) show ?thesis by (simp add: sched_agrees_def tracked_ok_def)
qed


lemma deliver_fields:
  "en_states (deliver_result finish now k res e) = dict_pop (rs_rid (en_objs e ! k)) (en_states e)"
  "en_sched (deliver_result finish now k res e) = finish (rs_rid (en_objs e ! k)) (en_sched e)"
  "\<exists>st. en_objs (deliver_result finish now k res e) = (en_objs e)[k := st]"
  by (auto simp: deliver_result_def set_obj_def make_output_def Let_def split: prod.splits)

lemma fail_one_objs: "\<exists>st. en_objs (fail_one sched_end now msg k e) = (en_objs e)[k := st]"
  by (auto simp: fail_one_def set_obj_def Let_def split: prod.splits)

section \<open>The FIFO engine over any scheduler that keeps the contract\<close>

context fifo_scheduler
begin

definition engine_inv :: "'s engine \<Rightarrow> bool" where
  "engine_inv e = (good True e \<and> inv (en_sched e)
     \<and> sched_agrees (pending (en_sched e)) (owned (en_sched e)) e)"

lemma engine_inv_end:
  assumes "engine_inv e" and "(r, k) \<in> set (en_states e)" and "good True e'"
    and "en_states e' = dict_pop r (en_states e)" and "en_objs e' = (en_objs e)[k := st]"
    and "en_running e' = en_running e" and "en_aborts e' = en_aborts e"
    and "en_sched e' = finish r (en_sched e)"
  shows "engine_inv e'"
proof -
  have "good True e" and i: "inv (en_sched e)"
    and a: "sched_agrees (pending (en_sched e)) (owned (en_sched e)) e"
    using assms(1) by (simp_all add: engine_inv_def)
  then show ?thesis
    using finish_law [OF i, of r] agrees_end [OF a, of True r k e' st] assms(2-8)
    by (simp add: engine_inv_def)
qed

lemma engine_inv_idle:
  assumes "engine_inv e" and "set (en_running e) \<inter> set (en_states e) = {}"
  shows "engine_inv (e\<lparr>en_running := []\<rparr>)"
  using assms(1) agrees_idle [OF _ assms(2)] good_not_running [of True e]
  by (simp add: engine_inv_def)

lemma engine_inv_submit:
  assumes "engine_inv e" and "fresh_state st" and "rs_rid st \<notin> fst ` set (en_states e)"
    and "rs_rid st \<notin> fst ` set (en_running e)" and "rs_rid st \<notin> fst ` set (en_aborts e)"
    and "engine_submit submit now st e = (e', Inr ())"
  shows "engine_inv e'"
proof -
  have g: "good True e" and i: "inv (en_sched e)"
    and a: "sched_agrees (pending (en_sched e)) (owned (en_sched e)) e"
    using assms(1) by (simp_all add: engine_inv_def)
  obtain s where s: "submit [mark_queued now st] (en_sched e) = (s, Inr ())"
    and e': "e' = e\<lparr>en_objs := en_objs e @ [mark_queued now st],
        en_states := dict_set (rs_rid st) (length (en_objs e)) (en_states e),
        en_metrics := record_submitted (prompt_token_count (mark_queued now st)) (en_metrics e),
        en_sched := s\<rparr>"
    using assms(6) by (auto simp: engine_submit_def Let_def split: prod.splits)
  have "rs_rid st \<notin> owned (en_sched e)" using a assms(3) by (auto simp: sched_agrees_def)
  with submit_law [OF i s]
  have law: "inv s" "pending s = pending (en_sched e) @ [rs_rid st]"
    "owned s = insert (rs_rid st) (owned (en_sched e))" by auto
  have "good True e'" using good_submit [OF g assms(2-4), of submit now] assms(6) by simp
  moreover have "sched_agrees (pending s) (owned s) e'"
    by (rule agrees_submit [OF a g assms(2,3,5)]) (simp_all add: e' law)
  ultimately show ?thesis using law(1) by (simp add: engine_inv_def e')
qed

lemma engine_inv_abort:
  assumes "engine_inv e"
  shows "engine_inv (engine_abort abort r reason e)"
proof -
  have i: "inv (en_sched e)" and a: "sched_agrees (pending (en_sched e)) (owned (en_sched e)) e"
    using assms by (simp_all add: engine_inv_def)
  note law = abort_law [OF i, of r]
  have "sched_agrees (pending (abort r (en_sched e))) (owned (abort r (en_sched e)))
      (engine_abort abort r reason e)"
    by (rule agrees_abort [OF a]) (use law in \<open>auto simp: engine_abort_def\<close>)
  then show ?thesis
    using assms law good_abort by (auto simp: engine_inv_def engine_abort_def)
qed

lemma engine_inv_abort_task:
  assumes "engine_inv e"
  shows "engine_inv (engine_abort_task now e)"
proof (cases "en_aborts e")
  case (Cons p rest)
  obtain r reason where p: "p = (r, reason)" by (cases p)
  have g: "good True e" and a: "sched_agrees (pending (en_sched e)) (owned (en_sched e)) e"
    and i: "inv (en_sched e)" using assms by (simp_all add: engine_inv_def)
  note core = good_core [OF g]
  let ?e1 = "abort_tracked now r reason (e\<lparr>en_aborts := rest\<rparr>)"
  have free: "r \<notin> owned (en_sched e)" using a Cons p by (auto simp: sched_agrees_def)
  then have q: "r \<notin> set (pending (en_sched e))" using inv_pending [OF i] by blast
  then have qf: "filter (\<lambda>p. p \<noteq> r) (pending (en_sched e)) = pending (en_sched e)"
    by (auto simp: filter_id_conv)
  have "sched_agrees (pending (en_sched e)) (owned (en_sched e)) ?e1"
  proof (cases "map_of (en_states e) r")
    case None
    then have untracked: "(r, k) \<notin> set (en_states e)" for k
      using core_lookup [OF core, of r k] by simp
    have eq: "?e1 = e\<lparr>en_aborts := rest\<rparr>" by (simp add: abort_tracked_def None)
    have "tracked_ok (pending (en_sched e)) (e\<lparr>en_aborts := rest\<rparr>) r' k'"
      if d: "(r', k') \<in> set (en_states e)" for r' k'
    proof -
      have "r' \<noteq> r" using untracked d by blast
      moreover have "tracked_ok (pending (en_sched e)) e r' k'" using a d by (simp add: sched_agrees_def)
      ultimately show ?thesis using Cons p by (simp add: tracked_ok_def)
    qed
    then show ?thesis using a Cons p unfolding eq by (auto simp: sched_agrees_def)
  next
    case (Some k)
    then have tr: "(r, k) \<in> set (en_states e)" using core_lookup [OF core] by simp
    note facts = core_tracked [OF core tr]
    obtain st where objs: "en_objs ?e1 = (en_objs e)[k := st]"
      and states: "en_states ?e1 = dict_pop r (en_states e)"
      using Some facts(2,3)
      by (auto simp: abort_tracked_def set_obj_def make_abort_output_def Let_def)
    have "sched_agrees (pending (en_sched e)) (owned (en_sched e)) (?e1\<lparr>en_aborts := en_aborts e\<rparr>)"
      by (rule agrees_end [OF a g tr, of _ st])
        (simp_all add: objs states abort_tracked_aborts qf free)
    then show ?thesis
      using Cons p
      by (auto simp: sched_agrees_def tracked_ok_def abort_tracked_aborts states set_dict_pop)
  qed
  moreover have "good True (engine_abort_task now e)" by (rule good_abort_task [OF g])
  ultimately show ?thesis
    using i Cons p
    by (auto simp: engine_inv_def engine_abort_task_def Let_def abort_tracked_aborts
        intro: agrees_cong)
qed (use assms in \<open>simp add: engine_abort_task_def\<close>)

lemma engine_inv_begin:
  assumes "engine_inv e" and "en_running e = []"
  shows "engine_inv (fifo_begin next_batch now e)"
proof -
  have g: "good True e" and a: "sched_agrees (pending (en_sched e)) (owned (en_sched e)) e"
    and i: "inv (en_sched e)" using assms by (simp_all add: engine_inv_def)
  note core = good_core [OF g]
  obtain b s where nb: "next_batch (en_sched e) = (b, s)" by fastforce
  note law = next_batch_law [OF i nb]
  let ?q = "pending (en_sched e)"
  have dist: "distinct ?q" using inv_pending [OF i] by simp
  show ?thesis
  proof (cases "?q = []")
    case True
    with law have "b = None" "pending s = ?q" by simp_all
    then have "fifo_begin next_batch now e = e\<lparr>en_sched := s\<rparr>" by (simp add: fifo_begin_def nb)
    moreover have "good True (e\<lparr>en_sched := s\<rparr>)" by (rule good_cong [OF _ _ _ _ g]) simp_all
    moreover have "sched_agrees ?q (owned (en_sched e)) (e\<lparr>en_sched := s\<rparr>)"
      by (rule agrees_cong [OF a]) simp_all
    ultimately show ?thesis using law \<open>pending s = ?q\<close> by (simp add: engine_inv_def)
  next
    case False
    let ?ids = "take (capacity (en_sched e)) ?q"
    let ?sts = "states_for ?ids (en_states e)"
    have b: "b = Some ?ids" using law False by simp
    have ids: "distinct ?ids" using dist by simp
    have keys: "distinct (map fst ?sts)" by (rule states_for_keys [OF ids])
    have sub: "set ?sts \<subseteq> set (en_states e)" by (auto simp: set_states_for core_lookup [OF core])
    have uns: "unscheduled (en_objs e) p" if p: "p \<in> set ?sts" for p
    proof -
      obtain r k where rk: "p = (r, k)" by (cases p)
      with p have "r \<in> set ?ids" by (simp add: set_states_for)
      then have "r \<in> set ?q" by (rule in_set_takeD)
      moreover have "(r, k) \<in> set (en_states e)" using sub p rk by blast
      moreover obtain k' where "(r, k') \<in> set (en_states e)" "unscheduled (en_objs e) (r, k')"
        using a \<open>r \<in> set ?q\<close> by (auto simp: sched_agrees_def)
      ultimately show ?thesis using core_keys_inj(2) [OF core] rk by blast
    qed
    then have n: "length ?sts = length (filter (unscheduled (en_objs e)) ?sts)"
      by (simp add: filter_id_conv)
    obtain r where r: "r \<in> set ?ids"
      using False inv_capacity [OF i] by (cases ?q; cases "capacity (en_sched e)") auto
    then have "r \<in> set ?q" by (rule in_set_takeD)
    then obtain k where "(r, k) \<in> set (en_states e)" using a by (auto simp: sched_agrees_def)
    with r have "(r, k) \<in> set ?sts" by (simp add: set_states_for core_lookup [OF core])
    then have ne: "?sts \<noteq> []" by auto
    let ?e' = "fifo_begin next_batch now e"
    have objs: "en_objs (update_objs f ks (e\<lparr>en_sched := s\<rparr>)) = en_objs (update_objs f ks e)" for f ks
      by (rule update_objs_cong) simp
    have fields: "en_objs ?e' = en_objs (update_objs (mark_scheduled now) (map snd ?sts) e)"
      "en_states ?e' = en_states e" "en_running ?e' = ?sts" "en_aborts ?e' = en_aborts e"
      "en_metrics ?e' = record_scheduled (length ?sts) (en_metrics e)" "en_sched ?e' = s"
      using ne by (simp_all add: fifo_begin_def nb b Let_def objs)
    have snd: "distinct (map snd ?sts)"
      using core_keys_inj(1) [OF core] sub keys
      by (auto simp: distinct_map inj_on_def subset_iff) metis+
    have "good True ?e'" by (rule good_begin [OF g sub keys n fields(1,2,5,3)])
    moreover have "sched_agrees (pending s) (owned (en_sched e)) ?e'"
      by (rule agrees_begin [OF a g assms(2) dist refl _ fields(1-4) snd]) (use law in simp)
    ultimately show ?thesis using law fields(6) by (simp add: engine_inv_def)
  qed
qed

lemma engine_inv_results:
  assumes "engine_inv e" and "en_running e = run"
  shows "engine_inv (fold (fifo_result finish now run) results e)
    \<and> en_running (fold (fifo_result finish now run) results e) = run
    \<and> set (en_states (fold (fifo_result finish now run) results e)) \<subseteq> set (en_states e)
    \<and> (\<forall>r k. (r, k) \<in> set run \<and> r \<in> er_rid ` set results
         \<longrightarrow> (r, k) \<notin> set (en_states (fold (fifo_result finish now run) results e)))"
  using assms
proof (induction results arbitrary: e)
  case (Cons res results)
  have g: "good True e" using Cons.prems(1) by (simp add: engine_inv_def)
  note core = good_core [OF g]
  have fst: "distinct (map fst run)" using good_run [OF g] Cons.prems(2) by (simp add: run_inv_def)
  let ?e1 = "fifo_result finish now run res e"
  have one: "engine_inv ?e1 \<and> en_running ?e1 = run \<and> set (en_states ?e1) \<subseteq> set (en_states e)
      \<and> (\<forall>k. (er_rid res, k) \<in> set run \<longrightarrow> (er_rid res, k) \<notin> set (en_states ?e1))"
  proof (cases "\<exists>k. (er_rid res, k) \<in> set run \<and> (er_rid res, k) \<in> set (en_states e)")
    case True
    then obtain k where run: "(er_rid res, k) \<in> set run" and tr: "(er_rid res, k) \<in> set (en_states e)"
      by blast
    note facts = core_tracked [OF core tr]
    have e1: "?e1 = deliver_result finish now k res e"
      using fst run facts by (simp add: fifo_result_def states_by_id_distinct map_of_distinct_iff)
    have "good True ?e1" using good_fifo_result [OF g Cons.prems(2)] by blast
    moreover obtain st where "en_objs ?e1 = (en_objs e)[k := st]" using deliver_fields(3) e1 by metis
    ultimately have "engine_inv ?e1"
      by (intro engine_inv_end [OF Cons.prems(1) tr, of _ st])
        (simp_all add: e1 deliver_fields facts(2))
    then show ?thesis
      using Cons.prems(2) facts(2) by (auto simp: e1 deliver_fields set_dict_pop)
  next
    case False
    have "?e1 = e"
    proof (cases "map_of (states_by_id run) (er_rid res)")
      case (Some k)
      then have run: "(er_rid res, k) \<in> set run"
        using fst by (simp add: states_by_id_distinct map_of_distinct_iff)
      then have "rs_rid (en_objs e ! k) = er_rid res"
        using good_running(2) [OF g] Cons.prems(2) by simp
      with False run Some show ?thesis
        by (simp add: fifo_result_def core_lookup [OF core])
    qed (simp add: fifo_result_def)
    with False Cons.prems show ?thesis by auto
  qed
  from Cons.IH [of ?e1] one
  have "engine_inv (fold (fifo_result finish now run) results ?e1)"
    "en_running (fold (fifo_result finish now run) results ?e1) = run"
    "set (en_states (fold (fifo_result finish now run) results ?e1)) \<subseteq> set (en_states ?e1)"
    "\<forall>r k. (r, k) \<in> set run \<and> r \<in> er_rid ` set results
         \<longrightarrow> (r, k) \<notin> set (en_states (fold (fifo_result finish now run) results ?e1))"
    by blast+
  with one show ?case by auto
qed simp

lemma engine_inv_ok:
  assumes "engine_inv e" and "fst ` set (en_running e) \<subseteq> er_rid ` set results"
  shows "engine_inv (fifo_ok finish now results e)"
proof -
  let ?e1 = "update_objs (mark_execution_done now) (map snd (en_running e)) e"
  let ?e2 = "fold (fifo_result finish now (en_running e)) results ?e1"
  have "engine_inv ?e1"
    using assms(1) good_mark_done [of True e now] agrees_mark_done [of _ _ e True now]
    by (simp add: engine_inv_def)
  then have res: "engine_inv ?e2" "en_running ?e2 = en_running e"
    "\<forall>r k. (r, k) \<in> set (en_running e) \<and> r \<in> er_rid ` set results \<longrightarrow> (r, k) \<notin> set (en_states ?e2)"
    using engine_inv_results [of ?e1 "en_running e" now results] by simp_all
  have none: "set (en_running ?e2) \<inter> set (en_states ?e2) = {}"
  proof -
    have "p \<notin> set (en_states ?e2)" if "p \<in> set (en_running e)" for p
      using res(3) assms(2) that by (cases p) auto
    then show ?thesis unfolding res(2) by blast
  qed
  then show ?thesis using engine_inv_idle [OF res(1)] by (simp add: fifo_ok_def Let_def)
qed

lemma engine_inv_err:
  assumes "engine_inv e" and "set (en_running e) \<subseteq> set (en_states e)"
  shows "engine_inv (fifo_err finish now msg e)"
proof -
  have "engine_inv (fold (\<lambda>(r, k). fail_one finish now msg k) sts s)
      \<and> en_running (fold (\<lambda>(r, k). fail_one finish now msg k) sts s) = en_running s
      \<and> (\<forall>p \<in> set (en_states (fold (\<lambda>(r, k). fail_one finish now msg k) sts s)).
           p \<in> set (en_states s) \<and> fst p \<notin> fst ` set sts)"
    if "engine_inv s" "set sts \<subseteq> set (en_states s)" "set sts \<subseteq> set (en_running s)"
      "distinct (map fst sts)" for sts s
    using that
  proof (induction sts arbitrary: s)
    case (Cons p sts)
    obtain r k where p: "p = (r, k)" by (cases p)
    let ?s1 = "fail_one finish now msg k s"
    have g: "good True s" using Cons.prems(1) by (simp add: engine_inv_def)
    have tr: "(r, k) \<in> set (en_states s)" and run: "(r, k) \<in> set (en_running s)"
      using Cons.prems(2,3) p by simp_all
    note facts = core_tracked [OF good_core [OF g] tr]
    have "good True ?s1" by (rule good_fail_one [OF g tr]) (rule good_running(3) [OF g run])
    moreover obtain st where "en_objs ?s1 = (en_objs s)[k := st]" using fail_one_objs by metis
    ultimately have i1: "engine_inv ?s1"
      by (intro engine_inv_end [OF Cons.prems(1) tr, of _ st]) (simp_all add: facts(2))
    have sub: "set sts \<subseteq> set (en_states ?s1)"
      using Cons.prems(2,4) p facts(2) by (force simp: set_dict_pop)
    note IH = Cons.IH [OF i1 sub]
    show ?case using IH Cons.prems(3,4) p facts(2) by (auto simp: set_dict_pop)
  qed simp
  from this [OF assms order_refl] assms good_run [of True e]
  have res: "engine_inv (fold (\<lambda>(r, k). fail_one finish now msg k) (en_running e) e)"
    "en_running (fold (\<lambda>(r, k). fail_one finish now msg k) (en_running e) e) = en_running e"
    "\<forall>p \<in> set (en_states (fold (\<lambda>(r, k). fail_one finish now msg k) (en_running e) e)).
        fst p \<notin> fst ` set (en_running e)"
    by (simp_all add: engine_inv_def run_inv_def)
  have "set (en_running e) \<inter> set (en_states (fold (\<lambda>(r, k). fail_one finish now msg k) (en_running e) e)) = {}"
    using res(3) by force
  then show ?thesis using engine_inv_idle [OF res(1)] res(2) by (simp add: fifo_err_def)
qed

lemma fifo_step_inv:
  assumes "fifo_step submit next_batch finish abort e e'" and "engine_inv e"
  shows "engine_inv e'"
  using assms
proof (cases rule: fifo_step.cases)
  case fifo_reject
  then show ?thesis using assms(2) good_reject
    by (auto simp: engine_inv_def engine_reject_def intro: agrees_cong)
qed (simp_all add: engine_inv_submit engine_inv_abort engine_inv_abort_task engine_inv_begin
    engine_inv_ok engine_inv_err)

lemma fifo_reachable_inv:
  assumes "(fifo_step submit next_batch finish abort)\<^sup>*\<^sup>* (engine_init s) e"
    and "inv s" and "owned s = {}"
  shows "engine_inv e"
  using assms(1)
proof induction
  case base
  have "pending s = []" using inv_pending [OF assms(2)] assms(3) by simp
  then show ?case
    using assms(2,3) good_init [of True s]
    by (simp add: engine_inv_def sched_agrees_def engine_init_def)
next
  case (step y z)
  then show ?case by (simp add: fifo_step_inv)
qed

end


section \<open>Properties\<close>

lemma stream_ok_count:
  "stream_ok st \<Longrightarrow> length (filter go_finished (rs_queue st)) = (if rs_finished st then 1 else 0)"
proof -
  assume t: "stream_ok st"
  have none: "filter go_finished xs = []" if "list_all (\<lambda>out. \<not> go_finished out) xs" for xs
    using that by (induction xs) simp_all
  show ?thesis
  proof (cases "rs_finished st")
    case True
    with t obtain q x where "rs_queue st = q @ [x]"
      by (cases "rs_queue st" rule: rev_cases) (simp_all add: stream_ok_def)
    with t True none show ?thesis by (simp add: stream_ok_def)
  qed (use t none in \<open>simp add: stream_ok_def\<close>)
qed

lemma client_chunks_all:
  "list_all (\<lambda>out. \<not> go_finished out) outs \<Longrightarrow> client_chunks (outs @ [out]) = outs @ [out]"
  by (induction outs) simp_all

lemma fold_merge:
  "go_token_ids (fold merge_chunk cs c) = go_token_ids c @ concat (map go_token_ids cs)"
  "go_finish_reason (fold merge_chunk cs c) = go_finish_reason (last (c # cs))"
  "go_meta (fold merge_chunk cs c) = go_meta c"
  by (induction cs arbitrary: c) (simp_all add: merge_chunk_def)

lemma stream_ok_collect:
  assumes "stream_ok st" and "rs_finished st"
  shows "\<exists>out. collect_one (client_chunks (rs_queue st)) = Inr out
    \<and> go_token_ids out = rs_output_ids st
    \<and> go_finish_reason out = go_finish_reason (last (rs_queue st))
    \<and> go_meta out = go_meta (hd (rs_queue st))"
proof -
  from assms obtain q x where q: "rs_queue st = q @ [x]" "list_all (\<lambda>out. \<not> go_finished out) q"
    by (cases "rs_queue st" rule: rev_cases) (simp_all add: stream_ok_def)
  then obtain c cs where c: "rs_queue st = c # cs" by (cases q) auto
  have "client_chunks (rs_queue st) = rs_queue st" using q client_chunks_all by simp
  moreover have "concat (map go_token_ids (rs_queue st)) = rs_output_ids st"
    using assms(1) by (simp add: stream_ok_def)
  ultimately show ?thesis unfolding c by (simp add: collect_one_def fold_merge)
qed

text \<open>A request as the witnesses submit it, and the engine that has just taken it.\<close>

definition ex_engine :: "unit engine" where
  "ex_engine = fst (engine_submit (\<lambda>reqs s. (s, Inr ())) 6 ex_state (engine_init ()))"

definition ex_fifo :: "default_sched engine" where
  "ex_fifo = fst (engine_submit (\<lambda>reqs s. (default_submit reqs s, Inr ())) 6 ex_state
     (engine_init (default_init 2)))"

lemma ex_state_fresh: "fresh_state ex_state"
  by (simp add: fresh_state_def ex_state_def fresh_request_state_def)

lemma ex_engine_reachable:
  "(plan_step cache_ops (\<lambda>reqs s. (s, Inr ())) (\<lambda>tr rt fin s. s) (\<lambda>r s. s))\<^sup>*\<^sup>* (engine_init ()) ex_engine"
  unfolding ex_engine_def
  by (rule r_into_rtranclp, rule plan_submit) (simp_all add: ex_state_fresh engine_init_def)

definition ex_failed :: "unit engine" where
  "ex_failed = fail_all_active (\<lambda>r s. s) 7 ''cache'' ex_engine"

lemma ex_failed_reachable:
  "(plan_step True (\<lambda>reqs s. (s, Inr ())) (\<lambda>tr rt fin s. s) (\<lambda>r s. s))\<^sup>*\<^sup>* (engine_init ()) ex_failed"
  unfolding ex_failed_def
  by (rule rtranclp.rtrancl_into_rtrancl [OF ex_engine_reachable plan_cache])
    (simp_all add: ex_engine_def engine_submit_def engine_init_def Let_def)

lemma ex_fifo_reachable:
  "(fifo_step (\<lambda>reqs s. (default_submit reqs s, Inr ())) default_next_batch default_finish
     default_abort)\<^sup>*\<^sup>* (engine_init (default_init 2)) ex_fifo"
  by (rule r_into_rtranclp, rule fifo_submit [of ex_state _ _ 6])
    (simp_all add: ex_state_fresh engine_init_def ex_fifo_def engine_submit_def Let_def)

definition ex_flux :: "nat flux_sched engine" where
  "ex_flux = fst (engine_submit (flux_submit (\<lambda>specs n. Inr (n + length specs))) 6 ex_state
     (engine_init (flux_init (\<lambda>cfg. 0) 2 512 16 64)))"

lemma ex_flux_reachable:
  "(fifo_step (flux_submit (\<lambda>specs n. Inr (n + length specs))) flux_next_batch flux_finish
     flux_abort)\<^sup>*\<^sup>* (engine_init (flux_init (\<lambda>cfg. 0) 2 512 16 64)) ex_flux"
  by (rule r_into_rtranclp, rule fifo_submit [of ex_state _ _ 6])
    (simp_all add: ex_state_fresh engine_init_def ex_flux_def engine_submit_def flux_submit_def Let_def)

lemma ex_flux_objs: "length (en_objs ex_flux) = Suc 0"
  by (simp add: ex_flux_def engine_submit_def engine_init_def flux_submit_def Let_def)

lemma ex_engine_objs: "length (en_objs ex_engine) = Suc 0" "length (en_objs ex_fifo) = Suc 0"
  "en_states ex_fifo = [(''r'', 0)]"
  by (simp_all add: ex_engine_def ex_fifo_def engine_submit_def engine_init_def Let_def dict_set_def
      ex_state_def fresh_request_state_def)

text \<open>
  C3: In an engine that executes plans, whatever the interleaving of submissions, aborts, forward
  operations, results and executor failures, every request object receives exactly one
  terminal output if it is finished and none before, it is the last output, the tokens put on
  its queue are exactly the tokens produced, and a request that is not finished is tracked
  under its id.
\<close>

theorem plan_one_terminal_output:
  assumes "(plan_step cache_ops submit advance sched_abort)\<^sup>*\<^sup>* (engine_init s) e"
    and "k < length (en_objs e)"
  shows "length (filter go_finished (rs_queue (en_objs e ! k)))
        = (if rs_finished (en_objs e ! k) then 1 else 0)
    \<and> concat (map go_token_ids (rs_queue (en_objs e ! k))) = rs_output_ids (en_objs e ! k)
    \<and> (rs_finished (en_objs e ! k) \<longrightarrow> go_finished (last (rs_queue (en_objs e ! k))))
    \<and> (\<not> rs_finished (en_objs e ! k)
        \<longleftrightarrow> map_of (en_states e) (rs_rid (en_objs e ! k)) = Some k)"
proof -
  have core: "core_inv (en_objs e) (en_states e) (en_metrics e)"
    using plan_reachable_good [OF assms(1), of False] by (simp add: good_def)
  then have t: "stream_ok (en_objs e ! k)"
    and tr: "\<not> rs_finished (en_objs e ! k) \<longrightarrow> (rs_rid (en_objs e ! k), k) \<in> set (en_states e)"
    using assms(2) by (simp_all add: core_inv_def)
  show ?thesis
    using stream_ok_count [OF t] t tr core_lookup [OF core] core_tracked(3) [OF core]
    by (auto simp: stream_ok_def)
qed

theorem plan_one_terminal_output_witness:
  "length (filter go_finished (rs_queue (en_objs ex_engine ! 0)))
     = (if rs_finished (en_objs ex_engine ! 0) then 1 else 0)"
  using plan_one_terminal_output [OF ex_engine_reachable, of 0] ex_engine_objs by simp

text \<open>
  C34: What a client collects is what was produced: for every finished request of an engine that
  executes plans, merging the chunks the client reads succeeds and yields all produced tokens
  and the finish reason of the terminal output; the metadata is that of the first chunk.
\<close>

theorem plan_client_collects_all:
  assumes "(plan_step cache_ops submit advance sched_abort)\<^sup>*\<^sup>* (engine_init s) e"
    and "k < length (en_objs e)" and "rs_finished (en_objs e ! k)"
  shows "\<exists>out. collect_one (client_chunks (rs_queue (en_objs e ! k))) = Inr out
    \<and> go_token_ids out = rs_output_ids (en_objs e ! k)
    \<and> go_finish_reason out = go_finish_reason (last (rs_queue (en_objs e ! k)))
    \<and> go_meta out = go_meta (hd (rs_queue (en_objs e ! k)))"
proof (rule stream_ok_collect [OF _ assms(3)])
  show "stream_ok (en_objs e ! k)"
    using plan_reachable_good [OF assms(1), of False] assms(2) by (simp add: good_def core_inv_def)
qed

theorem plan_client_collects_all_witness:
  "\<exists>out. collect_one (client_chunks (rs_queue (en_objs ex_failed ! 0))) = Inr out
    \<and> go_token_ids out = rs_output_ids (en_objs ex_failed ! 0)"
proof -
  have "0 < length (en_objs ex_failed)" "rs_finished (en_objs ex_failed ! 0)"
    by (simp_all add: ex_failed_def ex_engine_def fail_all_active_def fail_states_def
        fail_unless_finished_def fail_one_def engine_submit_def engine_init_def ex_state_def
        fresh_request_state_def set_obj_def put_output_def make_error_output_def rs_finished_def
        mark_queued_def mark_execution_done_def dict_set_def Let_def)
  from plan_client_collects_all [OF ex_failed_reachable this] show ?thesis by blast
qed








subsection \<open>What happens outside the obligations\<close>

text \<open>
  The batch of \<open>ex_fifo\<close> in flight, then aborted by its client, then submitted again under the
  same id, and the same id submitted twice at the start.
\<close>

definition ex_inflight :: "default_sched engine" where
  "ex_inflight = fifo_begin default_next_batch 7 ex_fifo"

definition ex_aborted :: "default_sched engine" where
  "ex_aborted = engine_abort_task 8 (engine_abort default_abort ''r'' ''gone'' ex_inflight)"

definition ex_again :: "default_sched engine" where
  "ex_again = fst (engine_submit (\<lambda>reqs s. (default_submit reqs s, Inr ())) 9 ex_state ex_aborted)"

definition ex_twice :: "default_sched engine" where
  "ex_twice = fst (engine_submit (\<lambda>reqs s. (default_submit reqs s, Inr ())) 7 ex_state ex_fifo)"

lemmas ex_run_defs = ex_fifo_def ex_inflight_def ex_aborted_def ex_again_def ex_twice_def
  ex_state_def fresh_request_state_def engine_init_def default_init_def engine_submit_def
  engine_abort_def engine_abort_task_def abort_tracked_def fifo_begin_def fifo_err_def fifo_ok_def
  fifo_result_def deliver_result_def fail_one_def update_objs_def set_obj_def put_output_def
  states_for_def states_by_id_def List.map_filter_def default_next_batch_def default_finish_def
  default_abort_def dict_set_def dict_pop_def make_abort_output_def make_error_output_def
  make_output_def mark_queued_def mark_scheduled_def mark_execution_done_def Let_def

lemma ex_aborted_state:
  "en_states ex_aborted = []" "en_running ex_aborted = [(''r'', 0)]" "length (en_objs ex_aborted) = Suc 0"
  "length (rs_queue (en_objs ex_aborted ! 0)) = Suc 0"
  by (simp_all add: ex_run_defs rs_finished_def)

text \<open>
  In the FIFO loop an executor failure does not check whether a request of the batch was
  aborted meanwhile: the aborted request gets a second terminal output and is counted both as
  aborted and as failed.
\<close>

lemma fifo_failure_after_abort:
  "let e = fifo_err default_finish 10 ''failed'' ex_aborted
   in length (filter go_finished (rs_queue (en_objs e ! 0))) = 2
    \<and> total_requests (en_metrics e) = 1 \<and> aborted_requests (en_metrics e) = 1
    \<and> failed_requests (en_metrics e) = 1"
  by (simp add: ex_run_defs rs_finished_def go_finished_def record_submitted_def record_scheduled_def
      record_aborted_def record_finished_def record_latencies_def fresh_metrics_def)

text \<open>
  The same failure also removes a newer request that reused the id of the aborted one: it is
  no longer tracked nor queued, has no output, and is not finished, so its client waits forever.
\<close>

lemma fifo_failure_drops_resubmission:
  "let e = fifo_err default_finish 10 ''failed'' ex_again
   in length (en_objs e) = 2 \<and> \<not> rs_finished (en_objs e ! 1) \<and> rs_queue (en_objs e ! 1) = []
    \<and> en_states e = [] \<and> ds_queue (en_sched e) = [] \<and> en_running e = []"
  by (simp add: ex_run_defs rs_finished_def)

text \<open>
  A second submission under an id in use replaces the first request in the tracking dict while
  the scheduler ignores it: once the batch has run, the first request has no output, is
  neither tracked nor queued, and is not finished.
\<close>

lemma duplicate_id_drops_first_request:
  "let e = fifo_ok default_finish 10 [\<lparr> er_rid = ''r'', er_token_ids = [5], er_text = [],
             er_finish_reason = ''stop'' \<rparr>] (fifo_begin default_next_batch 8 ex_twice)
   in length (en_objs e) = 2 \<and> rs_finished (en_objs e ! 1)
    \<and> \<not> rs_finished (en_objs e ! 0) \<and> rs_queue (en_objs e ! 0) = []
    \<and> en_states e = [] \<and> ds_queue (en_sched e) = [] \<and> en_running e = []"
  by (simp add: ex_run_defs rs_finished_def)

text \<open>
  When a plan carries cache operations every tracked request is failed, but requests that
  were never scheduled stay in the waiting gauge, which no longer matches the (empty) set of
  tracked requests.
\<close>

lemma cache_ops_leave_waiting_gauge:
  "let e = fail_all_active (\<lambda>r s. s) 7 ''cache'' ex_engine
   in en_states e = [] \<and> failed_requests (en_metrics e) = 1 \<and> waiting_requests (en_metrics e) = 1"
  by (simp add: ex_engine_def fail_all_active_def fail_states_def fail_unless_finished_def ex_run_defs
      rs_finished_def record_submitted_def record_finished_def record_latencies_def fresh_metrics_def)

end
