(* ===== verification/Plan_Serving.thy ===== *)
theory Plan_Serving
  imports Paged_Correct Engine
begin

text \<open>
  The engine's plan loop on top of the paged runner: what the engine does with the result of a
  served block (engine/async_llm.py, \<open>_execute_forward_op\<close>) keeps the request ready for its next
  block, and a request is finished after a number of blocks that its budget bounds.
\<close>

lemma plan_output_request:
  assumes "\<not> sr_finished res"
  shows "rs_input_ids (fst (plan_output now res st)) = rs_input_ids st"
    and "rs_max_new_tokens (fst (plan_output now res st)) = rs_max_new_tokens st"
    and "rs_output_ids (fst (plan_output now res st)) = rs_output_ids st @ sr_token_ids res"
    and "rs_current_decode_block (fst (plan_output now res st))
      = rs_current_decode_block st + (if sr_decode_block_completed res then 1 else 0)"
    and "rs_ignore_eos (fst (plan_output now res st)) = rs_ignore_eos st"
  using assms
  by (auto simp: plan_output_def make_output_def append_output_def mark_decode_block_done_def Let_def)

lemma block_start_next:
  assumes "block_result_ok E st res" and "\<not> sr_finished res"
  shows "block_start_of (pe_L E) (fst (plan_output now res st)) = block_start_of (pe_L E) st + pe_L E"
  using assms plan_output_request [OF assms(2), of now st]
  by (simp add: block_start_of_def aligned_prefill_length_def block_result_ok_def)

lemma aligned_next:
  assumes "block_result_ok E st res" and "\<not> sr_finished res"
  shows "plan_aligned (pe_L E) (fst (plan_output now res st))"
  using assms plan_output_request [OF assms(2), of now st] block_start_next [OF assms, of now]
  by (simp add: plan_aligned_def block_result_ok_def)

text \<open>A request through a sequence of plans that serve it a block each without finishing it.\<close>

fun served :: "'v plan_env \<Rightarrow> request_state \<Rightarrow> (rat \<times> step_result) list \<Rightarrow> bool" where
  "served E st [] = True"
| "served E st ((now, res) # rest) =
     (block_result_ok E st res \<and> \<not> sr_finished res \<and> served E (fst (plan_output now res st)) rest)"

definition after_results :: "(rat \<times> step_result) list \<Rightarrow> request_state \<Rightarrow> request_state" where
  "after_results rs st = fold (\<lambda>(now, res) st. fst (plan_output now res st)) rs st"

lemma served_state:
  assumes "served E st rs"
  shows "rs_input_ids (after_results rs st) = rs_input_ids st" (is ?A)
    and "rs_max_new_tokens (after_results rs st) = rs_max_new_tokens st" (is ?B)
    and "block_start_of (pe_L E) (after_results rs st) = block_start_of (pe_L E) st + length rs * pe_L E" (is ?C)
    and "rs_output_ids (after_results rs st) = rs_output_ids st @ concat (map (\<lambda>x. sr_token_ids (snd x)) rs)" (is ?D)
    and "rs \<noteq> [] \<Longrightarrow> plan_aligned (pe_L E) (after_results rs st)
      \<and> int (length (rs_output_ids (after_results rs st))) < rs_max_new_tokens st
      \<and> length (rs_input_ids st) + length (rs_output_ids (after_results rs st)) = block_start_of (pe_L E) (after_results rs st)"
proof -
  have "?A \<and> ?B \<and> ?C \<and> ?D \<and> (rs \<noteq> [] \<longrightarrow> plan_aligned (pe_L E) (after_results rs st)
      \<and> int (length (rs_output_ids (after_results rs st))) < rs_max_new_tokens st
      \<and> length (rs_input_ids st) + length (rs_output_ids (after_results rs st)) = block_start_of (pe_L E) (after_results rs st))"
    using assms
  proof (induction rs arbitrary: st)
    case (Cons x rs)
    obtain now res where x: "x = (now, res)" by fastforce
    have ok: "block_result_ok E st res" "\<not> sr_finished res" and rest: "served E (fst (plan_output now res st)) rs"
      using Cons.prems by (simp_all add: x)
    note po = plan_output_request [OF ok(2), of now st] block_start_next [OF ok, of now] aligned_next [OF ok, of now]
    have step: "after_results ((now, res) # rs) st = after_results rs (fst (plan_output now res st))"
      by (simp add: after_results_def)
    show ?case
    proof (cases "rs = []")
      case True
      then show ?thesis using po ok unfolding x step by (simp add: after_results_def block_result_ok_def)
    next
      case False
      note ih = Cons.IH [OF rest, unfolded po]
      have "block_start_of (pe_L E) st + pe_L E + length rs * pe_L E
          = block_start_of (pe_L E) st + length ((now, res) # rs) * pe_L E" by simp
      then show ?thesis using ih False unfolding x step by (simp only: append_assoc list.map concat.simps snd_conv simp_thms) metis
    qed
  qed (simp add: after_results_def)
  then show ?A ?B ?C ?D and "rs \<noteq> [] \<Longrightarrow> plan_aligned (pe_L E) (after_results rs st)
      \<and> int (length (rs_output_ids (after_results rs st))) < rs_max_new_tokens st
      \<and> length (rs_input_ids st) + length (rs_output_ids (after_results rs st)) = block_start_of (pe_L E) (after_results rs st)"
    by blast+
qed



end
