(* ===== verification/Distributed.thy ===== *)
theory Distributed
  imports Paged_Plan
begin

text \<open>
  The distributed executor (engine/distributed_executor.py): rank 0 broadcasts every call as a
  command and runs it on its own base executor; the other ranks receive the commands in a loop,
  rebuild the request states from the payloads and run the same calls.  The base executor is a
  record of its methods over a state \<open>'s\<close>; a method that the executor may lack is an option.  The
  broadcast delivers the commands of rank 0 in order, as \<open>broadcast_object_list\<close> documents.
\<close>

section \<open>Payloads\<close>

record state_payload =
  py_rid :: rid
  py_input_ids :: "int list"
  py_max_new_tokens :: int
  py_ignore_eos :: bool
  py_prompt_text :: string
  py_sampling_params :: params
  py_output_ids :: "int list"
  py_decoded_text :: string
  py_plan_prefill_done :: bool
  py_current_decode_block :: nat

definition state_to_payload :: "request_state \<Rightarrow> state_payload" where
  "state_to_payload req =
     \<lparr> py_rid = rs_rid req, py_input_ids = rs_input_ids req, py_max_new_tokens = rs_max_new_tokens req,
       py_ignore_eos = rs_ignore_eos req, py_prompt_text = rs_prompt_text req,
       py_sampling_params = rs_sampling_params req, py_output_ids = rs_output_ids req,
       py_decoded_text = rs_decoded_text req, py_plan_prefill_done = rs_plan_prefill_done req,
       py_current_decode_block = rs_current_decode_block req \<rparr>"

text \<open>A fresh request state, created now on the worker, with the transmitted progress.\<close>

definition state_from_payload :: "rat \<Rightarrow> state_payload \<Rightarrow> request_state" where
  "state_from_payload now p =
     (fresh_request_state now (py_rid p) (py_input_ids p) (py_max_new_tokens p) (py_ignore_eos p)
        (py_prompt_text p) (py_sampling_params p))
       \<lparr>rs_output_ids := py_output_ids p, rs_decoded_text := py_decoded_text p,
        rs_plan_prefill_done := py_plan_prefill_done p, rs_current_decode_block := py_current_decode_block p\<rparr>"

datatype command =
    Cmd_Generate "state_payload list"
  | Cmd_Forward_Plan forward_op "state_payload list"
  | Cmd_Release "rid list"
  | Cmd_Startup
  | Cmd_Shutdown
  | Cmd_Other string
  | Cmd_Invalid

definition make_generate_command :: "request_state list \<Rightarrow> command" where
  "make_generate_command reqs = Cmd_Generate (map state_to_payload reqs)"

definition make_forward_plan_command :: "forward_op \<Rightarrow> (rid, request_state) pydict \<Rightarrow> command result" where
  "make_forward_plan_command op states_by_id =
     result_bind (result_map (\<lambda>rid. case map_of states_by_id rid of
         None \<Rightarrow> Inl (KeyError rid) | Some st \<Rightarrow> Inr (state_to_payload st)) (fo_request_ids op))
       (\<lambda>ps. Inr (Cmd_Forward_Plan op ps))"

definition forward_plan_from_payload :: "forward_op \<Rightarrow> forward_op result" where
  "forward_plan_from_payload op =
     (if length (fo_occupied_pages op) \<noteq> length (fo_request_ids op)
         \<or> length (fo_input_lengths op) \<noteq> length (fo_request_ids op)
      then Inl (ValueError ''Forward plan row metadata must match request_ids length.'')
      else if fo_num_extends op < 0 \<or> fo_num_extends op > int (length (fo_request_ids op))
      then Inl (ValueError ''Forward plan num_extends is out of range.'')
      else Inr op)"

section \<open>Rank 0\<close>

record 's base_executor =
  be_batch :: "request_state list \<Rightarrow> 's \<Rightarrow> 's \<times> exec_result list result"
  be_plan :: "forward_op \<Rightarrow> (rid, request_state) pydict \<Rightarrow> 's
    \<Rightarrow> 's \<times> (rid, request_state) pydict \<times> step_result list result"
  be_release :: "(rid list \<Rightarrow> 's \<Rightarrow> 's) option"
  be_startup :: "('s \<Rightarrow> 's \<times> stats result) option"
  be_shutdown :: "('s \<Rightarrow> 's \<times> unit result) option"

record dist_context =
  dc_rank :: int
  dc_local_rank :: int
  dc_world_size :: int

definition is_distributed :: "dist_context \<Rightarrow> bool" where
  "is_distributed ctx = (dc_world_size ctx > 1)"

definition is_rank0 :: "dist_context \<Rightarrow> bool" where
  "is_rank0 ctx = (dc_rank ctx = 0)"

definition base_startup :: "'s base_executor \<Rightarrow> 's \<Rightarrow> 's \<times> stats result" where
  "base_startup E s = (case be_startup E of None \<Rightarrow> (s, Inr []) | Some startup \<Rightarrow> startup s)"

definition base_shutdown :: "'s base_executor \<Rightarrow> 's \<Rightarrow> 's \<times> unit result" where
  "base_shutdown E s = (case be_shutdown E of None \<Rightarrow> (s, Inr ()) | Some shutdown \<Rightarrow> shutdown s)"

definition base_release :: "'s base_executor \<Rightarrow> rid list \<Rightarrow> 's \<Rightarrow> 's" where
  "base_release E ids s = (case be_release E of None \<Rightarrow> s | Some release \<Rightarrow> release ids s)"

text \<open>Each method gives the commands it broadcasts, the state of the base executor and the result.\<close>

definition dist_startup :: "dist_context \<Rightarrow> 's base_executor \<Rightarrow> 's \<Rightarrow> command list \<times> 's \<times> stats result" where
  "dist_startup ctx E s = ((if is_distributed ctx then [Cmd_Startup] else []), base_startup E s)"

definition dist_execute_batch ::
  "dist_context \<Rightarrow> 's base_executor \<Rightarrow> request_state list \<Rightarrow> 's \<Rightarrow> command list \<times> 's \<times> exec_result list result" where
  "dist_execute_batch ctx E reqs s =
     (if \<not> is_distributed ctx then ([], be_batch E reqs s)
      else if \<not> is_rank0 ctx then ([], s, Inl (RuntimeError ''execute_batch must only be called on rank 0.''))
      else ([make_generate_command reqs], be_batch E reqs s))"

definition dist_execute_forward_plan ::
  "dist_context \<Rightarrow> 's base_executor \<Rightarrow> forward_op \<Rightarrow> (rid, request_state) pydict \<Rightarrow> 's
    \<Rightarrow> command list \<times> 's \<times> (rid, request_state) pydict \<times> step_result list result" where
  "dist_execute_forward_plan ctx E op states_by_id s =
     (if \<not> is_distributed ctx then ([], be_plan E op states_by_id s)
      else if \<not> is_rank0 ctx
      then ([], s, states_by_id, Inl (RuntimeError ''execute_forward_plan must only be called on rank 0.''))
      else case make_forward_plan_command op states_by_id of
             Inl e \<Rightarrow> ([], s, states_by_id, Inl e)
           | Inr cmd \<Rightarrow> ([cmd], be_plan E op states_by_id s))"

definition dist_release_requests ::
  "dist_context \<Rightarrow> 's base_executor \<Rightarrow> rid list \<Rightarrow> 's \<Rightarrow> command list \<times> 's \<times> unit result" where
  "dist_release_requests ctx E ids s =
     (if ids = [] then ([], s, Inr ())
      else if is_distributed ctx \<and> \<not> is_rank0 ctx
      then ([], s, Inl (RuntimeError ''release_requests must only be called on rank 0.''))
      else ((if is_distributed ctx then [Cmd_Release ids] else []), base_release E ids s, Inr ()))"

definition dist_shutdown_workers ::
  "bool \<Rightarrow> dist_context \<Rightarrow> 's base_executor \<Rightarrow> 's \<Rightarrow> command list \<times> 's \<times> unit result" where
  "dist_shutdown_workers initialized ctx E s =
     ((if is_distributed ctx \<and> is_rank0 ctx \<and> initialized then [Cmd_Shutdown] else []), base_shutdown E s)"

section \<open>Workers\<close>

text \<open>
  One command in the loop of a worker: whether the loop goes on, and the state.  An exception of the
  base executor leaves the loop.
\<close>

definition loop_goes_on :: "bool \<Rightarrow> 's \<times> 'a result \<Rightarrow> 's \<times> bool result" where
  "loop_goes_on b x = (fst x, result_bind (snd x) (\<lambda>_. Inr b))"

definition rebuild_states :: "rat \<Rightarrow> state_payload list \<Rightarrow> (rid, request_state) pydict" where
  "rebuild_states now ps = fold (\<lambda>st. dict_set (rs_rid st) st) (map (state_from_payload now) ps) []"

definition worker_step :: "rat \<Rightarrow> 's base_executor \<Rightarrow> command \<Rightarrow> 's \<Rightarrow> 's \<times> bool result" where
  "worker_step now E cmd s =
     (case cmd of
        Cmd_Shutdown \<Rightarrow> loop_goes_on False (base_shutdown E s)
      | Cmd_Startup \<Rightarrow> loop_goes_on True (base_startup E s)
      | Cmd_Forward_Plan plan ps \<Rightarrow>
          (case forward_plan_from_payload plan of
             Inl e \<Rightarrow> (s, Inl e)
           | Inr op \<Rightarrow> (let (s', d', r) = be_plan E op (rebuild_states now ps) s in loop_goes_on True (s', r)))
      | Cmd_Release ids \<Rightarrow> (base_release E ids s, Inr True)
      | Cmd_Generate ps \<Rightarrow> loop_goes_on True (be_batch E (map (state_from_payload now) ps) s)
      | Cmd_Other kind \<Rightarrow> (s, Inl (RuntimeError ''Unknown distributed executor command''))
      | Cmd_Invalid \<Rightarrow> (s, Inl (RuntimeError ''Invalid distributed executor command payload'')))"

text \<open>The loop over the commands received so far: still running, returned, or raised.\<close>

fun worker_loop :: "rat \<Rightarrow> 's base_executor \<Rightarrow> command list \<Rightarrow> 's \<Rightarrow> 's \<times> bool result" where
  "worker_loop now E [] s = (s, Inr True)"
| "worker_loop now E (cmd # cmds) s =
     (case worker_step now E cmd s of
        (s', Inr True) \<Rightarrow> worker_loop now E cmds s'
      | (s', r) \<Rightarrow> (s', r))"

definition run_worker_loop ::
  "dist_context \<Rightarrow> rat \<Rightarrow> 's base_executor \<Rightarrow> command list \<Rightarrow> 's \<Rightarrow> 's \<times> bool result" where
  "run_worker_loop ctx now E cmds s =
     (if \<not> is_distributed ctx then (s, Inr False)
      else if is_rank0 ctx then (s, Inl (RuntimeError ''run_worker_loop must only be called on nonzero ranks.''))
      else worker_loop now E cmds s)"

section \<open>Sequences of calls\<close>

text \<open>The calls that the engine makes on rank 0, and what they broadcast.\<close>

datatype exec_call =
    Call_Startup
  | Call_Batch "request_state list"
  | Call_Plan forward_op "(rid, request_state) pydict"
  | Call_Release "rid list"

definition drop_result :: "'a result \<Rightarrow> unit result" where
  "drop_result r = result_bind r (\<lambda>_. Inr ())"

fun rank0_call :: "dist_context \<Rightarrow> 's base_executor \<Rightarrow> exec_call \<Rightarrow> 's \<Rightarrow> command list \<times> 's \<times> unit result" where
  "rank0_call ctx E Call_Startup s = (let (cmds, s', r) = dist_startup ctx E s in (cmds, s', drop_result r))"
| "rank0_call ctx E (Call_Batch reqs) s =
     (let (cmds, s', r) = dist_execute_batch ctx E reqs s in (cmds, s', drop_result r))"
| "rank0_call ctx E (Call_Plan op d) s =
     (let (cmds, s', d', r) = dist_execute_forward_plan ctx E op d s in (cmds, s', drop_result r))"
| "rank0_call ctx E (Call_Release ids) s = dist_release_requests ctx E ids s"

fun rank0_run :: "dist_context \<Rightarrow> 's base_executor \<Rightarrow> exec_call list \<Rightarrow> 's \<Rightarrow> command list \<times> 's \<times> unit result list" where
  "rank0_run ctx E [] s = ([], s, [])"
| "rank0_run ctx E (c # cs) s =
     (let (cmds, s1, r) = rank0_call ctx E c s; (cmds', s2, rs) = rank0_run ctx E cs s1
      in (cmds @ cmds', s2, r # rs))"

section \<open>Replicas stay in step\<close>

lemma payload_roundtrip [simp]: "state_to_payload (state_from_payload now (state_to_payload req)) = state_to_payload req"
  by (simp add: state_to_payload_def state_from_payload_def fresh_request_state_def)

lemma payload_rid [simp]: "rs_rid (state_from_payload now p) = py_rid p" "py_rid (state_to_payload req) = rs_rid req"
  by (simp_all add: state_from_payload_def fresh_request_state_def state_to_payload_def)

lemma rebuilt_unfinished [simp]: "\<not> rs_finished (state_from_payload now p)"
  by (simp add: state_from_payload_def fresh_request_state_def rs_finished_def)

text \<open>What a plan may read of the request states: the transmitted fields, of requests that are not finished.\<close>

definition plan_view :: "forward_op \<Rightarrow> (rid, request_state) pydict \<Rightarrow> state_payload option list" where
  "plan_view op d = map (\<lambda>rid. map_option state_to_payload (map_of d rid)) (fo_request_ids op)"

definition plan_unfinished :: "forward_op \<Rightarrow> (rid, request_state) pydict \<Rightarrow> bool" where
  "plan_unfinished op d = list_all (\<lambda>rid. case map_of d rid of None \<Rightarrow> True | Some st \<Rightarrow> \<not> rs_finished st) (fo_request_ids op)"

text \<open>
  What a base executor has to promise so that it can be replicated: its calls read only what the
  payloads carry.  Whether a request is finished is not transmitted.
\<close>

locale replicated_executor =
  fixes E :: "'s base_executor"
  assumes batch_reads: "map state_to_payload reqs = map state_to_payload reqs' \<Longrightarrow> be_batch E reqs s = be_batch E reqs' s"
    and plan_reads: "\<lbrakk>plan_view op d = plan_view op d'; plan_unfinished op d; plan_unfinished op d'\<rbrakk>
      \<Longrightarrow> fst (be_plan E op d s) = fst (be_plan E op d' s) \<and> snd (snd (be_plan E op d s)) = snd (snd (be_plan E op d' s))"
begin

lemma replay_batch:
  "be_batch E (map (state_from_payload now) (map state_to_payload reqs)) s = be_batch E reqs s"
  by (rule batch_reads) (simp add: comp_def)

end

definition keyed :: "(rid, request_state) pydict \<Rightarrow> bool" where
  "keyed d = list_all (\<lambda>(k, st). rs_rid st = k) d"

lemma keyed_rid: "keyed d \<Longrightarrow> map_of d rid = Some st \<Longrightarrow> rs_rid st = rid"
  by (auto simp: keyed_def list_all_iff dest: map_of_SomeD)

lemma find_SomeD: "find P xs = Some x \<Longrightarrow> x \<in> set xs \<and> P x"
  by (induction xs) (auto split: if_splits)

text \<open>The dictionary that a worker rebuilds has the states of the plan, up to what is transmitted.\<close>

lemma rebuilt_dict:
  fixes sts :: "request_state list"
  shows "map_of (fold (\<lambda>st. dict_set (rs_rid st) st) sts d) rid
    = (case find (\<lambda>st. rs_rid st = rid) (rev sts) of Some st \<Rightarrow> Some st | None \<Rightarrow> map_of d rid)"
proof (induction sts arbitrary: d)
  case Nil
  then show ?case by simp
next
  case (Cons st sts)
  have "find P (xs @ [x]) = (case find P xs of Some y \<Rightarrow> Some y | None \<Rightarrow> if P x then Some x else None)"
    for P :: "request_state \<Rightarrow> bool" and xs x by (induction xs) auto
  then show ?case using Cons by (auto split: option.splits)
qed

lemma forward_plan_payloads:
  assumes "make_forward_plan_command op d = Inr cmd" and "keyed d"
  obtains ps where "cmd = Cmd_Forward_Plan op ps" and "plan_view op (rebuild_states now ps) = plan_view op d"
    and "plan_unfinished op (rebuild_states now ps)"
proof -
  obtain ps where ps: "result_map (\<lambda>rid. case map_of d rid of None \<Rightarrow> Inl (KeyError rid) | Some st \<Rightarrow> Inr (state_to_payload st))
        (fo_request_ids op) = Inr ps" and cmd: "cmd = Cmd_Forward_Plan op ps"
    using assms(1) by (auto simp: make_forward_plan_command_def result_bind_eq_Inr)
  have len: "length ps = length (fo_request_ids op)" by (rule result_map_Inr_length [OF ps])
  have nth: "\<exists>st. map_of d (fo_request_ids op ! i) = Some st \<and> ps ! i = state_to_payload st" if "i < length ps" for i
    using result_map_Inr_nth [OF ps, of i] that len by (auto split: option.splits)
  have p: "\<exists>st. map_of d (py_rid p) = Some st \<and> p = state_to_payload st" if mem: "p \<in> set ps" for p
  proof -
    obtain i where i: "i < length ps" "ps ! i = p" using mem by (metis in_set_conv_nth)
    then obtain st where st: "map_of d (fo_request_ids op ! i) = Some st" "p = state_to_payload st" using nth by metis
    have "rs_rid st = fo_request_ids op ! i" by (rule keyed_rid [OF assms(2) st(1)])
    then show ?thesis using st by auto
  qed
  have look: "map_of (rebuild_states now ps) rid = map_option (\<lambda>st. state_from_payload now (state_to_payload st)) (map_of d rid)"
    if mem: "rid \<in> set (fo_request_ids op)" for rid
  proof -
    obtain i where i: "i < length ps" "fo_request_ids op ! i = rid" using len mem by (auto simp: in_set_conv_nth)
    then obtain st0 where st0: "map_of d rid = Some st0" "ps ! i = state_to_payload st0" using nth by metis
    let ?sts = "map (state_from_payload now) ps"
    have "py_rid (ps ! i) = rid" using st0 keyed_rid [OF assms(2) st0(1)] by simp
    then have ex: "state_from_payload now (ps ! i) \<in> set (rev ?sts)" "rs_rid (state_from_payload now (ps ! i)) = rid"
      using i(1) by auto
    obtain st where f: "find (\<lambda>st. rs_rid st = rid) (rev ?sts) = Some st"
      using ex by (metis (mono_tags, lifting) find_None_iff not_None_eq)
    have "st \<in> set ?sts" and r: "rs_rid st = rid" using find_SomeD [OF f] by auto
    then obtain q where q: "q \<in> set ps" "st = state_from_payload now q" by auto
    obtain st1 where "map_of d (py_rid q) = Some st1" "q = state_to_payload st1" using p [OF q(1)] by blast
    moreover have "py_rid q = rid" using r q(2) by simp
    ultimately have "st = state_from_payload now (state_to_payload st0)" using st0(1) q(2) by simp
    then show ?thesis using st0(1) f by (simp add: rebuild_states_def rebuilt_dict)
  qed
  show ?thesis
  proof (rule that [OF cmd])
    show "plan_view op (rebuild_states now ps) = plan_view op d"
      by (simp add: plan_view_def look option.map_comp comp_def)
    show "plan_unfinished op (rebuild_states now ps)"
      by (auto simp: plan_unfinished_def list_all_iff look split: option.split)
  qed
qed

text \<open>The calls that the engine makes: plans whose metadata fit and whose states are keyed by id.\<close>

fun call_wf :: "exec_call \<Rightarrow> bool" where
  "call_wf (Call_Plan op d) = (keyed d \<and> plan_unfinished op d \<and> is_ok (forward_plan_from_payload op))"
| "call_wf _ = True"

lemma forward_plan_from_payload_ok: "is_ok (forward_plan_from_payload op) \<Longrightarrow> forward_plan_from_payload op = Inr op"
  by (auto simp: forward_plan_from_payload_def split: if_splits)

text \<open>A command that every replica runs as rank 0 did: the loop goes on with its state or raises its exception.\<close>

lemma loop_goes_on_drop [simp]: "loop_goes_on b (s, drop_result r) = loop_goes_on b (s, r)"
  by (cases r) (simp_all add: loop_goes_on_def drop_result_def)

lemma worker_follows:
  assumes "worker_step now E cmd s = loop_goes_on True (s', r)"
  shows "r = Inr () \<Longrightarrow> worker_loop now E (cmd # rest) s = worker_loop now E rest s'"
    and "r = Inl e \<Longrightarrow> worker_loop now E (cmd # rest) s = (s', Inl e)"
  using assms by (simp_all add: loop_goes_on_def)

context replicated_executor
begin

lemma plan_step:
  assumes cmd: "make_forward_plan_command op d = Inr cmd" and wf: "call_wf (Call_Plan op d)"
    and plan: "be_plan E op d s = (s', d', r)"
  shows "worker_step now E cmd s = loop_goes_on True (s', r)"
proof -
  obtain ps where ps: "cmd = Cmd_Forward_Plan op ps" "plan_view op (rebuild_states now ps) = plan_view op d"
      "plan_unfinished op (rebuild_states now ps)"
    using wf by (auto intro: forward_plan_payloads [OF cmd, where now = now])
  obtain s1 d1 r1 where b: "be_plan E op (rebuild_states now ps) s = (s1, d1, r1)" using prod_cases3 by blast
  have "s1 = s' \<and> r1 = r" using plan_reads [OF ps(2,3), of s] wf plan b by simp
  then show ?thesis using b wf by (simp add: worker_step_def ps(1) forward_plan_from_payload_ok)
qed

lemma call_follows:
  assumes ctx: "is_distributed ctx" "is_rank0 ctx" and wf: "call_wf c" and call: "rank0_call ctx E c s = (cmds, s', r)"
  shows "(cmds = [] \<and> s' = s) \<or> (\<exists>cmd. cmds = [cmd] \<and> worker_step now E cmd s = loop_goes_on True (s', r))"
proof (cases c)
  case Call_Startup
  then show ?thesis using call ctx
    by (cases "base_startup E s") (auto simp: dist_startup_def worker_step_def)
next
  case (Call_Batch reqs)
  obtain s1 q where b: "be_batch E reqs s = (s1, q)" by fastforce
  have "worker_step now E (make_generate_command reqs) s = loop_goes_on True (s1, q)"
    using replay_batch [of now reqs s] b by (simp add: worker_step_def make_generate_command_def)
  then show ?thesis using call ctx b by (auto simp: Call_Batch dist_execute_batch_def)
next
  case (Call_Plan op d)
  obtain s1 d1 q where b: "be_plan E op d s = (s1, d1, q)" using prod_cases3 by blast
  show ?thesis
  proof (cases "make_forward_plan_command op d")
    case (Inr cmd)
    have "worker_step now E cmd s = loop_goes_on True (s1, q)" by (rule plan_step [OF Inr wf [unfolded Call_Plan] b])
    then show ?thesis using call ctx b Inr
      by (auto simp: Call_Plan dist_execute_forward_plan_def)
  qed (use call ctx in \<open>auto simp: Call_Plan dist_execute_forward_plan_def\<close>)
next
  case (Call_Release ids)
  then show ?thesis using call ctx
    by (auto simp: dist_release_requests_def worker_step_def loop_goes_on_def split: if_splits)
qed

lemma call_lockstep:
  assumes "is_distributed ctx" "is_rank0 ctx" and "call_wf c" and "rank0_call ctx E c s = (cmds, s', r)"
  shows "r = Inr () \<Longrightarrow> worker_loop now E (cmds @ rest) s = worker_loop now E rest s'"
    and "r = Inl e \<Longrightarrow> cmds \<noteq> [] \<Longrightarrow> worker_loop now E (cmds @ rest) s = (s', Inl e)"
  using call_follows [OF assms, of now] worker_follows by (fastforce simp del: worker_loop.simps)+

lemma run_lockstep:
  assumes "is_distributed ctx" and "is_rank0 ctx"
  shows "\<lbrakk>list_all call_wf calls; rank0_run ctx E calls s = (cmds, s', rs); list_all is_ok rs\<rbrakk>
    \<Longrightarrow> worker_loop now E (cmds @ rest) s = worker_loop now E rest s'"
proof (induction calls arbitrary: s cmds rs)
  case (Cons c calls)
  obtain cm s1 r where c: "rank0_call ctx E c s = (cm, s1, r)" by (cases "rank0_call ctx E c s")
  obtain cm' rs' where r: "rank0_run ctx E calls s1 = (cm', s', rs')" and eq: "cmds = cm @ cm'" "rs = r # rs'"
    using Cons.prems(2) c by (auto simp: Let_def split: prod.splits)
  have "r = Inr ()" using Cons.prems(3) eq(2) by (cases r) auto
  then have "worker_loop now E (cmds @ rest) s = worker_loop now E (cm' @ rest) s1"
    using call_lockstep(1) [OF assms _ c] Cons.prems(1) eq(1) by simp
  then show ?case using Cons.IH [OF _ r] Cons.prems eq(2) by simp
qed simp

end

section \<open>The LLaDA executor is replicated\<close>

text \<open>The block-diffusion executor as the base executor, and the FlashInfer runner behind its hooks.\<close>

definition block_executor ::
  "'r generate_fn \<Rightarrow> (int list \<Rightarrow> string) \<Rightarrow> (forward_op, 'r) exec_hooks \<Rightarrow> 'r runner base_executor" where
  "block_executor gen decode H =
     \<lparr> be_batch = execute_batch gen decode, be_plan = execute_forward_plan H,
       be_release = Some (release_requests H), be_startup = Some (executor_startup H),
       be_shutdown = Some (executor_shutdown H) \<rparr>"

definition paged_hooks ::
  "'v plan_env \<Rightarrow> (('v plan_runner) runner \<Rightarrow> ('v plan_runner) runner \<times> stats result) option
    \<Rightarrow> (('v plan_runner) runner \<Rightarrow> ('v plan_runner) runner \<times> unit result) option
    \<Rightarrow> (forward_op, 'v plan_runner) exec_hooks" where
  "paged_hooks E prepare shutdown =
     \<lparr> eh_prepare = prepare, eh_shutdown = shutdown, eh_graph_stats = None,
       eh_num_forwards = Some (\<lambda>rn. pr_forwards (rn_rest rn)),
       eh_paged = Some (\<lambda>op d rn. let (pr, d', r) = execute_paged_forward_plan E op d (rn_rest rn)
                                 in (rn\<lparr>rn_rest := pr\<rparr>, d', r)),
       eh_release = Some (\<lambda>ids rn. rn\<lparr>rn_rest := release_paged_requests ids (rn_rest rn)\<rparr>) \<rparr>"

text \<open>A batch reads the transmitted fields only.\<close>

lemma payload_eq:
  "state_to_payload st = state_to_payload st' \<longleftrightarrow>
     rs_rid st = rs_rid st' \<and> rs_input_ids st = rs_input_ids st' \<and> rs_max_new_tokens st = rs_max_new_tokens st'
     \<and> rs_ignore_eos st = rs_ignore_eos st' \<and> rs_prompt_text st = rs_prompt_text st'
     \<and> rs_sampling_params st = rs_sampling_params st' \<and> rs_output_ids st = rs_output_ids st'
     \<and> rs_decoded_text st = rs_decoded_text st' \<and> rs_plan_prefill_done st = rs_plan_prefill_done st'
     \<and> rs_current_decode_block st = rs_current_decode_block st'"
  by (simp add: state_to_payload_def)

lemma make_result_reads:
  assumes "state_to_payload st = state_to_payload st'"
  shows "make_result decode m es mp st = make_result decode m es mp st'"
proof -
  have "rs_rid st = rs_rid st'" "rs_max_new_tokens st = rs_max_new_tokens st'" "rs_ignore_eos st = rs_ignore_eos st'"
    using assms unfolding payload_eq by blast+
  then show ?thesis by (intro ext) (simp only: make_result_def)
qed

lemma execute_batch_reads:
  assumes p: "map state_to_payload reqs = map state_to_payload reqs'"
  shows "execute_batch gen decode reqs rn = execute_batch gen decode reqs' rn"
proof -
  note eq = map_view [OF p]
  have len: "map (\<lambda>req. length (prompt_ids req)) reqs = map (\<lambda>req. length (prompt_ids req)) reqs'"
    by (rule eq) (simp add: prompt_ids_def payload_eq)
  have mp: "max_prompt reqs = max_prompt reqs'" by (simp add: max_prompt_def len del: map_eq_conv)
  have pad: "padded_prompt m reqs = padded_prompt m reqs'" for m
    unfolding padded_prompt_def mp by (rule eq) (simp add: prompt_ids_def payload_eq)
  have gen: "map rs_max_new_tokens reqs = map rs_max_new_tokens reqs'" by (rule eq) (simp add: payload_eq)
  have "list_ex rs_ignore_eos reqs = list_ex id (map rs_ignore_eos reqs)" for reqs by (simp add: list_ex_iff)
  then have ign: "list_ex rs_ignore_eos reqs = list_ex rs_ignore_eos reqs'" using eq [of rs_ignore_eos] payload_eq by metis
  have sp: "map (\<lambda>req. dict_set ''ignore_eos'' (PBool (rs_ignore_eos req)) (rs_sampling_params req)) reqs
      = map (\<lambda>req. dict_set ''ignore_eos'' (PBool (rs_ignore_eos req)) (rs_sampling_params req)) reqs'"
    by (rule eq) (simp add: payload_eq)
  have conf: "configure_runner reqs = configure_runner reqs'"
    by (rule ext) (simp only: configure_runner_def gen ign)
  have extra: "generate_extra reqs = generate_extra reqs'"
    by (rule ext) (simp only: generate_extra_def gen len sp)
  have n: "length reqs = length reqs'" using map_eq_imp_length_eq [OF p] .
  have nth: "state_to_payload (reqs ! i) = state_to_payload (reqs' ! i)" if "i < length reqs'" for i
    using p that n by (metis nth_map)
  have res: "result_map (\<lambda>(i, req). result_bind (py_nth rows i) (\<lambda>row. Inr (make_result decode m es (max_prompt reqs) req row))) (enumerate 0 reqs)
      = result_map (\<lambda>(i, req). result_bind (py_nth rows i) (\<lambda>row. Inr (make_result decode m es (max_prompt reqs') req row))) (enumerate 0 reqs')"
    for rows m es
    unfolding mp
  proof (rule result_map_view)
    show "map (\<lambda>(i, req). (i, state_to_payload req)) (enumerate 0 reqs) = map (\<lambda>(i, req). (i, state_to_payload req)) (enumerate 0 reqs')"
      by (rule nth_equalityI) (use n nth in \<open>simp_all add: nth_enumerate_eq del: map_eq_conv\<close>)
  qed (clarsimp, drule make_result_reads [where decode = decode and m = m and es = es and mp = "max_prompt reqs'"], simp)
  show ?thesis unfolding execute_batch_def conf extra pad res using n by auto
qed

text \<open>A plan reads the transmitted fields of its unfinished requests only.\<close>

abbreviation act_view :: "nat \<times> request_state \<Rightarrow> nat \<times> state_payload" where
  "act_view x \<equiv> (fst x, state_to_payload (snd x))"

lemma plan_view_lookup:
  assumes "plan_view op d = plan_view op d'" and "rid \<in> set (fo_request_ids op)"
  shows "map_option state_to_payload (map_of d rid) = map_option state_to_payload (map_of d' rid)"
  using assms by (simp add: plan_view_def)

lemma map_option_eq_None: "map_option f x = map_option f y \<Longrightarrow> x = None \<longleftrightarrow> y = None"
  by (cases x; cases y) auto

lemma active_rows_unfinished:
  assumes "plan_unfinished op d"
  shows "active_rows op k d = filter (\<lambda>row. map_of d (fo_request_ids op ! row) \<noteq> None) [k..<length (fo_request_ids op)]"
  unfolding active_rows_def
  by (rule filter_cong) (use assms in \<open>auto simp: plan_unfinished_def list_all_iff split: option.splits\<close>)

definition same_plan :: "forward_op \<Rightarrow> (rid, request_state) pydict \<Rightarrow> (rid, request_state) pydict \<Rightarrow> bool" where
  "same_plan op d d' = (plan_view op d = plan_view op d' \<and> plan_unfinished op d \<and> plan_unfinished op d')"

lemma same_plan_known:
  assumes "same_plan op d d'" and "rid \<in> set (fo_request_ids op)"
  shows "map_of d rid = None \<longleftrightarrow> map_of d' rid = None"
  using assms plan_view_lookup map_option_eq_None unfolding same_plan_def by metis

lemma same_plan_rows:
  assumes "same_plan op d d'"
  shows "active_rows op k d = active_rows op k d'"
proof -
  have "plan_unfinished op d" "plan_unfinished op d'" using assms by (simp_all add: same_plan_def)
  moreover have "filter (\<lambda>row. map_of d (fo_request_ids op ! row) \<noteq> None) [k..<length (fo_request_ids op)]
      = filter (\<lambda>row. map_of d' (fo_request_ids op ! row) \<noteq> None) [k..<length (fo_request_ids op)]"
    by (rule filter_cong) (use same_plan_known [OF assms] in auto)
  ultimately show ?thesis by (simp only: active_rows_unfinished)
qed

lemma same_plan_states:
  assumes "same_plan op d d'"
  shows "map act_view (active_states op k ss d) = map act_view (active_states op k ss d')"
proof -
  have "state_to_payload (the (map_of d (fo_request_ids op ! row))) = state_to_payload (the (map_of d' (fo_request_ids op ! row)))"
    if row: "row \<in> set (active_rows op k d')" for row
  proof -
    have "row < length (fo_request_ids op)" and some: "map_of d' (fo_request_ids op ! row) \<noteq> None"
      using row by (auto simp: active_rows_def split: option.splits)
    then have "map_option state_to_payload (map_of d (fo_request_ids op ! row)) = map_option state_to_payload (map_of d' (fo_request_ids op ! row))"
      using assms plan_view_lookup by (auto simp: same_plan_def)
    then show ?thesis using some by (metis option.collapse option.map_disc_iff option.map_sel)
  qed
  then show ?thesis by (simp add: active_states_def same_plan_rows [OF assms])
qed

lemma same_plan_mark:
  assumes "same_plan op d d'"
  shows "same_plan op (mark_prefilled rids d) (mark_prefilled rids d')"
proof -
  have look: "map_of (mark_prefilled rids d) rid
      = map_option (\<lambda>st. if rid \<in> set rids then st\<lparr>rs_plan_prefill_done := True\<rparr> else st) (map_of d rid)" for d rid
    by (induction d) (auto simp: mark_prefilled_def)
  have pay: "state_to_payload (st\<lparr>rs_plan_prefill_done := True\<rparr>) = (state_to_payload st)\<lparr>py_plan_prefill_done := True\<rparr>" for st
    by (simp add: state_to_payload_def)
  have "map_option state_to_payload (map_of (mark_prefilled rids d) rid)
      = map_option (\<lambda>p. if rid \<in> set rids then p\<lparr>py_plan_prefill_done := True\<rparr> else p) (map_option state_to_payload (map_of d rid))" for d rid
    by (cases "rid \<in> set rids") (simp_all add: look pay option.map_comp comp_def)
  moreover have "rs_finished (st\<lparr>rs_plan_prefill_done := True\<rparr>) = rs_finished st" for st by (simp add: rs_finished_def)
  ultimately show ?thesis using assms
    by (auto simp: same_plan_def plan_view_def plan_unfinished_def list_all_iff look split: option.splits)
qed

lemma block_start_reads: "state_to_payload st = state_to_payload st' \<Longrightarrow> block_start_of L st = block_start_of L st'"
  by (simp add: payload_eq block_start_of_def aligned_prefill_length_def)

lemma put_tokens_reads:
  assumes "state_to_payload st = state_to_payload st'"
  shows "put_tokens (s, st) = put_tokens (s, st')"
proof -
  have "rs_input_ids st = rs_input_ids st'" "rs_output_ids st = rs_output_ids st'" using assms unfolding payload_eq by blast+
  then show ?thesis by (intro ext) (simp only: put_tokens_def fst_conv snd_conv)
qed

lemma step_result_reads:
  assumes "state_to_payload st = state_to_payload st'"
  shows "plan_step_result E rid st row = plan_step_result E rid st' row"
proof -
  have "rs_input_ids st = rs_input_ids st'" "rs_output_ids st = rs_output_ids st'" "rs_max_new_tokens st = rs_max_new_tokens st'"
    "rs_ignore_eos st = rs_ignore_eos st'" using assms unfolding payload_eq by blast+
  then show ?thesis by (simp only: plan_step_result_def remaining_tokens_def block_start_reads [OF assms])
qed

lemma execute_paged_decode_reads:
  assumes "same_plan op d d'"
  shows "execute_paged_decode E op k ss d pr = execute_paged_decode E op k ss d' pr"
proof -
  let ?a = "active_states op k ss d" and ?a' = "active_states op k ss d'"
  note eq = same_plan_states [OF assms, of k ss]
  have ids: "map fst ?a = map fst ?a'" by (rule map_view [OF eq]) simp
  have start: "map (\<lambda>(s, st). block_start_of (pe_L E) st) ?a = map (\<lambda>(s, st). block_start_of (pe_L E) st) ?a'"
    by (rule map_view [OF eq]) (auto dest: block_start_reads)
  have "map (\<lambda>(s, st). block_start_of (pe_L E) st + pe_L E) ?a = map (\<lambda>(s, st). block_start_of (pe_L E) st + pe_L E) ?a'"
    by (rule map_view [OF eq]) (auto dest: block_start_reads)
  then have total: "plan_total E ?a = plan_total E ?a'" by (simp only: plan_total_def)
  have prompts: "map (\<lambda>(s, st). length (rs_input_ids st)) ?a = map (\<lambda>(s, st). length (rs_input_ids st)) ?a'"
    by (rule map_view [OF eq]) (auto simp: payload_eq)
  have tokens: "plan_tokens E ?a = plan_tokens E ?a'"
    unfolding plan_tokens_def total
    by (rule result_fold_view [OF eq]) (auto dest: put_tokens_reads)
  have len: "length ?a = length ?a'" using map_eq_imp_length_eq [OF eq] .
  have results: "map2 (\<lambda>row (s, st). plan_step_result E (fo_request_ids op ! row) st (f s)) rows ?a
      = map2 (\<lambda>row (s, st). plan_step_result E (fo_request_ids op ! row) st (f s)) rows ?a'" for f rows
  proof (rule map_view [where h = "\<lambda>(row, x). (row, act_view x)"])
    have "map2 (\<lambda>row x. (row, x)) rows (map act_view ?a) = map2 (\<lambda>row x. (row, x)) rows (map act_view ?a')" by (simp only: eq)
    then show "map (\<lambda>(row, x). (row, act_view x)) (zip rows ?a) = map (\<lambda>(row, x). (row, act_view x)) (zip rows ?a')"
      by (simp add: zip_map2 comp_def case_prod_unfold del: map_eq_conv)
  qed (auto dest: step_result_reads)
  show ?thesis
    by (simp only: execute_paged_decode_def plan_loop_init_def plan_prompt_lengths_def Let_def
        same_plan_rows [OF assms] ids start total prompts tokens results)
qed

lemma run_plan_reads:
  assumes same: "same_plan op d d'"
  shows "fst (run_plan E op ss d pr) = fst (run_plan E op ss d' pr)
    \<and> snd (snd (run_plan E op ss d pr)) = snd (snd (run_plan E op ss d' pr))"
proof -
  have "prefill_results k op d = prefill_results k op d'" for k
    unfolding prefill_results_def
    by (rule arg_cong [where f = "map _"], rule filter_cong) (use same_plan_known [OF same] in \<open>auto simp del: not_None_eq dest: in_set_takeD\<close>)
  then show ?thesis
    by (auto simp: run_plan_def Let_def execute_paged_decode_reads [OF same_plan_mark [OF same]]
        split: option.split prod.split sum.split)
qed

lemma paged_plan_reads:
  assumes same: "same_plan op d d'"
  shows "fst (execute_paged_forward_plan E op d pr) = fst (execute_paged_forward_plan E op d' pr)
    \<and> snd (snd (execute_paged_forward_plan E op d pr)) = snd (snd (execute_paged_forward_plan E op d' pr))"
proof -
  have agree: "p = p' \<and> r = r'" if "run_plan E op ss d pr = (p, x, r)" "run_plan E op ss d' pr = (p', x', r')" for ss pr p x r p' x' r'
    using run_plan_reads [OF same, of E ss pr] that by simp
  show ?thesis by (auto simp: execute_paged_forward_plan_def split: prod.split sum.split dest: agree)
qed

lemma paged_hook_reads:
  fixes E :: "'v plan_env"
  assumes same: "same_plan op d d'"
  shows "fst (execute_forward_plan (paged_hooks E prepare shutdown) op d rn)
      = fst (execute_forward_plan (paged_hooks E prepare shutdown) op d' rn)
    \<and> snd (snd (execute_forward_plan (paged_hooks E prepare shutdown) op d rn))
      = snd (snd (execute_forward_plan (paged_hooks E prepare shutdown) op d' rn))"
  using paged_plan_reads [OF same, of E "rn_rest rn"]
  by (auto simp: execute_forward_plan_def paged_hooks_def split: prod.split)

interpretation paged: replicated_executor "block_executor gen decode (paged_hooks E prepare shutdown)"
  for gen :: "'v plan_runner generate_fn" and decode E prepare shutdown
proof
  fix reqs reqs' :: "request_state list" and s :: "'v plan_runner Executor.runner"
  assume "map state_to_payload reqs = map state_to_payload reqs'"
  from execute_batch_reads [OF this, of gen decode s]
  show "be_batch (block_executor gen decode (paged_hooks E prepare shutdown)) reqs s
      = be_batch (block_executor gen decode (paged_hooks E prepare shutdown)) reqs' s"
    by (simp add: block_executor_def)
next
  fix op :: forward_op and d d' :: "(rid, request_state) pydict" and s :: "'v plan_runner Executor.runner"
  assume "plan_view op d = plan_view op d'" "plan_unfinished op d" "plan_unfinished op d'"
  then have "same_plan op d d'" by (simp add: same_plan_def)
  from paged_hook_reads [OF this, of E prepare shutdown s]
  show "fst (be_plan (block_executor gen decode (paged_hooks E prepare shutdown)) op d s)
      = fst (be_plan (block_executor gen decode (paged_hooks E prepare shutdown)) op d' s)
    \<and> snd (snd (be_plan (block_executor gen decode (paged_hooks E prepare shutdown)) op d s))
      = snd (snd (be_plan (block_executor gen decode (paged_hooks E prepare shutdown)) op d' s))"
    by (simp add: block_executor_def)
qed

section \<open>Properties\<close>

text \<open>
  C7: The ranks of a distributed executor stay in lock step: when every call of rank 0 returned,
  a worker that started in the same state and received the broadcast commands is in the state of
  rank 0 and still listening, and the shutdown command ends its loop in the state in which rank 0's
  own shutdown leaves it.  The base executor is the block-diffusion executor with the paged runner;
  the request states of the plans are keyed by their id and not finished.
\<close>

theorem distributed_lockstep:
  assumes ctx: "is_distributed ctx" "is_rank0 ctx" and worker: "is_distributed wctx" "\<not> is_rank0 wctx"
    and wf: "list_all call_wf calls"
    and run: "rank0_run ctx (block_executor gen decode (paged_hooks E prepare shutdown)) calls s = (cmds, s', rs)"
    and ok: "list_all is_ok rs"
    and down: "dist_shutdown_workers True ctx (block_executor gen decode (paged_hooks E prepare shutdown)) s' = (cmds', s'', Inr ())"
  shows "run_worker_loop wctx now (block_executor gen decode (paged_hooks E prepare shutdown)) cmds s = (s', Inr True)
    \<and> run_worker_loop wctx now (block_executor gen decode (paged_hooks E prepare shutdown)) (cmds @ cmds') s = (s'', Inr False)"
proof -
  let ?B = "block_executor gen decode (paged_hooks E prepare shutdown)"
  note lock = paged.run_lockstep [OF ctx wf run ok, where now = now]
  have "cmds' = [Cmd_Shutdown]" "base_shutdown ?B s' = (s'', Inr ())"
    using down ctx by (simp_all add: dist_shutdown_workers_def)
  then have "worker_loop now ?B cmds' s' = (s'', Inr False)" by (simp add: worker_step_def loop_goes_on_def)
  then show ?thesis using lock [of "[]"] lock [of cmds'] worker by (simp add: run_worker_loop_def)
qed

text \<open>Two ranks with the runner of the plan witnesses: a block is decoded and the request is released.\<close>

definition ex_rank0 :: dist_context where "ex_rank0 = \<lparr> dc_rank = 0, dc_local_rank = 0, dc_world_size = 2 \<rparr>"

definition ex_worker :: dist_context where "ex_worker = \<lparr> dc_rank = 1, dc_local_rank = 1, dc_world_size = 2 \<rparr>"

definition ex_replica :: "int plan_env \<Rightarrow> (int plan_runner) Executor.runner base_executor" where
  "ex_replica E = block_executor (\<lambda>rn prompt extra. (rn, Inr prompt)) (\<lambda>ts. []) (paged_hooks E None None)"

definition ex_replica_state :: "(int plan_runner) Executor.runner" where
  "ex_replica_state = \<lparr> rn_gen_length = 64, rn_early_stop = True, rn_mask_id = 99, rn_eos_ids = [50],
     rn_requires_prompt_lengths = False, rn_supports_request_sampling = False, rn_rest = ex_plan_runner \<rparr>"

definition ex_calls :: "exec_call list" where
  "ex_calls = [Call_Startup, Call_Plan ex_plan_op [(''r'', ex_state)], Call_Release [''r'']]"

theorem distributed_lockstep_witness:
  "\<exists>cmds s' rs. rank0_run ex_rank0 (ex_replica ex_plan_env) ex_calls ex_replica_state = (cmds, s', rs)
     \<and> run_worker_loop ex_worker 7 (ex_replica ex_plan_env) cmds ex_replica_state = (s', Inr True)"
proof -
  obtain cmds s' rs where run: "rank0_run ex_rank0 (ex_replica ex_plan_env) ex_calls ex_replica_state = (cmds, s', rs)"
    using prod_cases3 by blast
  have "list_all is_ok (snd (snd (rank0_run ex_rank0 (ex_replica ex_plan_env) ex_calls ex_replica_state)))" by code_simp
  then have ok: "list_all is_ok rs" by (simp add: run)
  have wf: "list_all call_wf ex_calls" by code_simp
  have ctx: "is_distributed ex_rank0" "is_rank0 ex_rank0" "is_distributed ex_worker" "\<not> is_rank0 ex_worker"
    by (simp_all add: ex_rank0_def ex_worker_def is_distributed_def is_rank0_def)
  have down: "dist_shutdown_workers True ex_rank0 (ex_replica ex_plan_env) s' = ([Cmd_Shutdown], s', Inr ())"
    by (simp add: dist_shutdown_workers_def ctx ex_replica_def block_executor_def base_shutdown_def
        executor_shutdown_def paged_hooks_def)
  from distributed_lockstep [OF ctx wf run [unfolded ex_replica_def] ok down [unfolded ex_replica_def], of 7]
  show ?thesis using run unfolding ex_replica_def by blast
qed

text \<open>
  C39: A call of rank 0 that raises after its broadcast ends the loop of every worker with the
  same exception, in the state of rank 0: whatever rank 0 broadcasts afterwards, no worker receives it.
\<close>

theorem distributed_failure_ends_workers:
  assumes ctx: "is_distributed ctx" "is_rank0 ctx" and worker: "is_distributed wctx" "\<not> is_rank0 wctx"
    and wf: "list_all call_wf calls" "call_wf c"
    and run: "rank0_run ctx (block_executor gen decode (paged_hooks E prepare shutdown)) calls s = (cmds, s', rs)"
    and ok: "list_all is_ok rs"
    and fail: "rank0_call ctx (block_executor gen decode (paged_hooks E prepare shutdown)) c s' = (cmd # cmds', s'', Inl e)"
  shows "run_worker_loop wctx now (block_executor gen decode (paged_hooks E prepare shutdown)) (cmds @ cmd # cmds' @ rest) s = (s'', Inl e)"
proof -
  note lock = paged.run_lockstep [OF ctx wf(1) run ok, where now = now]
  have "worker_loop now (block_executor gen decode (paged_hooks E prepare shutdown)) ((cmd # cmds') @ rest) s' = (s'', Inl e)"
    by (rule paged.call_lockstep(2) [OF ctx wf(2) fail]) simp_all
  then show ?thesis using lock worker by (simp add: run_worker_loop_def del: worker_loop.simps)
qed

theorem distributed_failure_ends_workers_witness:
  "run_worker_loop ex_worker 7 (ex_replica (ex_plan_env\<lparr>pe_device_pages := 0\<rparr>))
     [Cmd_Forward_Plan ex_plan_op [state_to_payload ex_state], Cmd_Release [''r'']] ex_replica_state
   = (ex_replica_state, Inl (RuntimeError ''paged execution requires scheduler_num_device_pages''))"
proof -
  let ?E = "ex_plan_env\<lparr>pe_device_pages := 0\<rparr>"
  have wf: "list_all call_wf []" "call_wf (Call_Plan ex_plan_op [(''r'', ex_state)])" by simp code_simp
  have ctx: "is_distributed ex_rank0" "is_rank0 ex_rank0" "is_distributed ex_worker" "\<not> is_rank0 ex_worker"
    by (simp_all add: ex_rank0_def ex_worker_def is_distributed_def is_rank0_def)
  have run: "rank0_run ex_rank0 (ex_replica ?E) [] ex_replica_state = ([], ex_replica_state, [])" by simp
  have "use_flashinfer_paged_prefill (pe_rc ?E)" by code_simp
  then have fail: "rank0_call ex_rank0 (ex_replica ?E) (Call_Plan ex_plan_op [(''r'', ex_state)]) ex_replica_state
      = ([Cmd_Forward_Plan ex_plan_op [state_to_payload ex_state]], ex_replica_state,
         Inl (RuntimeError ''paged execution requires scheduler_num_device_pages''))"
    by (simp add: ex_replica_def dist_execute_forward_plan_def ctx make_forward_plan_command_def ex_plan_op_def
        block_executor_def execute_forward_plan_def paged_hooks_def execute_paged_forward_plan_def drop_result_def)
  from distributed_failure_ends_workers [OF ctx wf run [unfolded ex_replica_def] _ fail [unfolded ex_replica_def],
      of 7 "[Cmd_Release [''r'']]"]
  show ?thesis by (simp add: ex_replica_def)
qed

end
