(* ===== verification/Selection.thy ===== *)
theory Selection
  imports Threshold
begin

text \<open>
  Token selection helpers of the LLaDA decoders (execution/decoders/llada/utils.py), the
  hierarchy decoder (hierarchy.py) and the static decoder (static.py), one row of the batch at a
  time.  \<open>topk xs k\<close> stands for \<open>torch.topk\<close>: the positions of the \<open>k\<close> largest values, largest
  first, with ties in any order; \<open>rnd\<close> is the random confidence of the \<open>random\<close> remasking.
\<close>

section \<open>Top-k\<close>

definition topk_ok :: "(flt list \<Rightarrow> nat \<Rightarrow> nat list) \<Rightarrow> bool" where
  "topk_ok topk = (\<forall>xs k. k \<le> length xs \<longrightarrow>
     length (topk xs k) = k \<and> distinct (topk xs k) \<and> set (topk xs k) \<subseteq> {..<length xs}
     \<and> sorted_wrt (\<lambda>i j. xs ! j \<le> xs ! i) (topk xs k)
     \<and> (\<forall>i \<in> set (topk xs k). \<forall>j < length xs. j \<notin> set (topk xs k) \<longrightarrow> xs ! j \<le> xs ! i))"

definition run_topk :: "(flt list \<Rightarrow> nat \<Rightarrow> nat list) \<Rightarrow> flt list \<Rightarrow> nat \<Rightarrow> nat list result" where
  "run_topk topk xs k =
     (if length xs < k then Inl (RuntimeError ''selected index k out of range'') else Inr (topk xs k))"

definition mark :: "nat \<Rightarrow> nat list \<Rightarrow> bool list" where
  "mark L ids = tabulate L (\<lambda>i. i \<in> set ids)"

section \<open>Candidates and confidence\<close>

definition get_num_transfer_tokens :: "bool list \<Rightarrow> nat \<Rightarrow> nat list" where
  "get_num_transfer_tokens mask_index n_steps =
     (let m = tsum mask_index
      in tabulate n_steps (\<lambda>i. m div n_steps + (if i < m mod n_steps then 1 else 0)))"

definition remask_prob ::
  "(flt list \<Rightarrow> rat list) \<Rightarrow> flt list \<Rightarrow> string \<Rightarrow> flt list list \<Rightarrow> token list \<Rightarrow> flt list result" where
  "remask_prob sm rnd remasking logits x0 =
     (if remasking = ''low_confidence'' then Inr (token_prob sm logits x0)
      else if remasking = ''random'' then Inr rnd
      else Inl (NotImplementedError remasking))"

definition where_mask :: "bool list \<Rightarrow> 'a list \<Rightarrow> (nat \<Rightarrow> 'a) \<Rightarrow> 'a list" where
  "where_mask mask_index xs other = tabulate (length mask_index) (\<lambda>i. if mask_index ! i then xs ! i else other i)"

section \<open>get\_transfer\_index\<close>

text \<open>With a threshold, every selected position after the first is dropped when below it.\<close>

definition threshold_drop :: "flt list \<Rightarrow> nat \<Rightarrow> rat option \<Rightarrow> nat list \<Rightarrow> nat list" where
  "threshold_drop confidence minimal thr select =
     (case thr of
        None \<Rightarrow> select
      | Some t \<Rightarrow> map (\<lambda>k. select ! k)
          (filter (\<lambda>k. k < minimal \<or> \<not> confidence ! (select ! k) < Fin t) [0..<length select]))"

definition get_transfer_index ::
  "(flt list \<Rightarrow> rat list) \<Rightarrow> (rat \<Rightarrow> flt list list \<Rightarrow> flt list list) \<Rightarrow> (flt list \<Rightarrow> nat \<Rightarrow> nat list)
    \<Rightarrow> flt list \<Rightarrow> flt list list \<Rightarrow> rat \<Rightarrow> string \<Rightarrow> bool list \<Rightarrow> token list \<Rightarrow> nat \<Rightarrow> rat option
    \<Rightarrow> (token list \<times> bool list) result" where
  "get_transfer_index sm gumbel topk rnd logits temperature remasking mask_index x num thr =
     (let x0 = greedy (add_gumbel_noise gumbel temperature logits)
      in result_bind (remask_prob sm rnd remasking logits x0) (\<lambda>x0_p.
         let x0' = where_mask mask_index x0 ((!) x);
             confidence = where_mask mask_index x0_p (\<lambda>_. NegInf);
             num' = (if thr \<noteq> None then tsum mask_index else num)
         in result_bind (run_topk topk confidence num') (\<lambda>select.
            Inr (x0', mark (length confidence) (threshold_drop confidence 1 thr select)))))"

text \<open>
  The cached variant: confidence also vanishes from \<open>block_end\<close> on; the candidates of the
  \<open>low_confidence\<close> branch are not restricted to the masked positions.
\<close>

definition get_transfer_index_cache ::
  "(flt list \<Rightarrow> rat list) \<Rightarrow> (rat \<Rightarrow> flt list list \<Rightarrow> flt list list) \<Rightarrow> (flt list \<Rightarrow> nat \<Rightarrow> nat list)
    \<Rightarrow> flt list \<Rightarrow> flt list list \<Rightarrow> bool list \<Rightarrow> token list \<Rightarrow> nat \<Rightarrow> nat \<Rightarrow> rat \<Rightarrow> string \<Rightarrow> rat option
    \<Rightarrow> nat \<Rightarrow> (token list \<times> bool list) result" where
  "get_transfer_index_cache sm gumbel topk rnd logits mask_index x block_end num temperature remasking
       thr minimal_topk =
     (let x0 = greedy (add_gumbel_noise gumbel temperature logits);
          cut = (\<lambda>c. tabulate (length c) (\<lambda>i. if block_end \<le> i then NegInf else c ! i))
      in result_bind
          (if remasking = ''low_confidence''
           then Inr (x0, cut (where_mask mask_index (token_prob sm logits x0) (\<lambda>_. NegInf)))
           else if remasking = ''random''
           then Inr (where_mask mask_index x0 ((!) x), where_mask mask_index (cut rnd) (\<lambda>_. NegInf))
           else Inl (NotImplementedError remasking))
         (\<lambda>(x0', confidence).
            let num' = (if thr \<noteq> None then tsum mask_index else num)
            in result_bind (run_topk topk confidence num') (\<lambda>select.
               Inr (x0', mark (length confidence) (threshold_drop confidence minimal_topk thr select)))))"

section \<open>get\_transfer\_index\_dynamic\<close>

text \<open>The loop variable after the search: the first \<open>n\<close> with \<open>c ! n < t ! n\<close>, else the last.\<close>

definition break_index :: "flt list \<Rightarrow> flt list \<Rightarrow> nat" where
  "break_index cs ts =
     (case first_index (\<lambda>n. cs ! n < ts ! n) [0..<length ts] of Some n \<Rightarrow> n | None \<Rightarrow> length ts - 1)"

definition dynamic_count :: "rat \<Rightarrow> flt list \<Rightarrow> nat result" where
  "dynamic_count factor sorted_confidence =
     (let n = length sorted_confidence;
          threshs = map (\<lambda>k. Fin (1 - factor / of_nat (Suc k))) [1..<Suc n]
      in if n = 0 then Inl IndexError
         else let ts = threshs[0 := Fin (-1)]; top_i = break_index sorted_confidence ts
              in Inr (if top_i = 0 \<or> top_i = n - 1 then top_i + 1 else top_i))"

definition get_transfer_index_dynamic ::
  "(flt list \<Rightarrow> rat list) \<Rightarrow> (rat \<Rightarrow> flt list list \<Rightarrow> flt list list) \<Rightarrow> (flt list \<Rightarrow> nat \<Rightarrow> nat list)
    \<Rightarrow> flt list \<Rightarrow> flt list list \<Rightarrow> rat \<Rightarrow> string \<Rightarrow> bool list \<Rightarrow> token list \<Rightarrow> rat
    \<Rightarrow> (token list \<times> bool list) result" where
  "get_transfer_index_dynamic sm gumbel topk rnd logits temperature remasking mask_index x factor =
     (let x0 = greedy (add_gumbel_noise gumbel temperature logits)
      in result_bind (remask_prob sm rnd remasking logits x0) (\<lambda>x0_p.
         let x0' = where_mask mask_index x0 ((!) x);
             confidence = where_mask mask_index x0_p (\<lambda>_. NegInf);
             masked = map (\<lambda>i. confidence ! i) (filter (\<lambda>i. mask_index ! i) [0..<length mask_index])
         in result_bind (dynamic_count factor (rev (sort masked))) (\<lambda>top_i.
            result_bind (run_topk topk confidence top_i) (\<lambda>select.
            Inr (x0', mark (length confidence) select)))))"

section \<open>Segments of masks\<close>

text \<open>
  \<open>diff\<close> of the mask padded with a zero on both sides: its +1 positions start the maximal runs of
  masks, its -1 positions end them.
\<close>

definition padded :: "bool list \<Rightarrow> nat \<Rightarrow> bool" where
  "padded msk i = (0 < i \<and> i \<le> length msk \<and> msk ! (i - 1))"

definition seg_starts :: "bool list \<Rightarrow> nat list" where
  "seg_starts msk = filter (\<lambda>i. padded msk (Suc i) \<and> \<not> padded msk i) [0..<Suc (length msk)]"

definition seg_ends :: "bool list \<Rightarrow> nat list" where
  "seg_ends msk = filter (\<lambda>i. \<not> padded msk (Suc i) \<and> padded msk i) [0..<Suc (length msk)]"

definition segment_max :: "flt list \<Rightarrow> bool list \<Rightarrow> nat list" where
  "segment_max confidence msk =
     map (\<lambda>(s, e). s + argmax (slice s e confidence)) (zip (seg_starts msk) (seg_ends msk))"

section \<open>get\_transfer\_index\_hierarchy\_fast\_v2\<close>

definition hierarchy_row ::
  "flt list \<Rightarrow> bool list \<Rightarrow> rat option \<Rightarrow> rat option \<Rightarrow> bool list" where
  "hierarchy_row confidence mask_index low_threshold thr =
     (let L = length confidence;
          base = (if low_threshold \<noteq> None \<and> row_max confidence < Fin (the low_threshold)
                  then mark L [argmax confidence]
                  else tabulate L (\<lambda>i. i \<in> set (segment_max confidence mask_index)
                    \<and> (case low_threshold of None \<Rightarrow> True | Some lo \<Rightarrow> confidence ! i > Fin lo)))
      in tabulate L (\<lambda>i. base ! i \<or> (case thr of None \<Rightarrow> False | Some t \<Rightarrow> confidence ! i > Fin t)))"

definition get_transfer_index_hierarchy_fast_v2 ::
  "(flt list \<Rightarrow> rat list) \<Rightarrow> (rat \<Rightarrow> flt list list \<Rightarrow> flt list list) \<Rightarrow> (flt list \<Rightarrow> nat \<Rightarrow> nat list)
    \<Rightarrow> flt list list \<Rightarrow> rat \<Rightarrow> string \<Rightarrow> bool list \<Rightarrow> token list \<Rightarrow> nat option \<Rightarrow> rat option \<Rightarrow> rat option
    \<Rightarrow> (token list \<times> bool list) result" where
  "get_transfer_index_hierarchy_fast_v2 sm gumbel topk logits temperature remasking mask_index x num
       thr low_threshold =
     (let x0 = greedy (add_gumbel_noise gumbel temperature logits)
      in if remasking \<noteq> ''low_confidence'' then Inl (NotImplementedError remasking)
         else let confidence = where_mask mask_index (token_prob sm logits x0) (\<lambda>_. NegInf);
                  x0' = where_mask mask_index x0 ((!) x)
              in case num of
                   Some k \<Rightarrow> if thr \<noteq> None then Inl AssertionError
                     else result_bind (run_topk topk confidence k) (\<lambda>select.
                            Inr (x0', mark (length confidence) select))
                 | None \<Rightarrow> if low_threshold \<noteq> None \<and> confidence = [] then Inl IndexError
                     else Inr (x0', hierarchy_row confidence mask_index low_threshold thr))"

section \<open>get\_transfer\_index\_hierarchy\_remask\<close>

text \<open>One row: the transfers of the runs, filled up with the best remaining positions.\<close>

definition remask_fill ::
  "(flt list \<Rightarrow> nat \<Rightarrow> nat list) \<Rightarrow> flt list \<Rightarrow> nat \<Rightarrow> bool list \<Rightarrow> bool list result" where
  "remask_fill topk confidence remask_cnt transfer =
     (let gap = int remask_cnt + 1 - int (tsum transfer)
      in if gap > 0
         then result_bind (run_topk topk (tabulate (length confidence) (\<lambda>i.
                  if transfer ! i then NegInf else confidence ! i)) (nat gap))
                (\<lambda>ids. Inr (tabulate (length transfer) (\<lambda>i. transfer ! i \<or> i \<in> set ids)))
         else Inr transfer)"

definition get_transfer_index_hierarchy_remask ::
  "(flt list \<Rightarrow> rat list) \<Rightarrow> (rat \<Rightarrow> flt list list \<Rightarrow> flt list list) \<Rightarrow> (flt list \<Rightarrow> nat \<Rightarrow> nat list)
    \<Rightarrow> flt list list \<Rightarrow> rat \<Rightarrow> bool list \<Rightarrow> nat option \<Rightarrow> token \<Rightarrow> rat option \<Rightarrow> rat option \<Rightarrow> rat
    \<Rightarrow> (token list \<times> bool list) result" where
  "get_transfer_index_hierarchy_remask sm gumbel topk logits temperature mask_index num mid thr
       low_threshold remask_threshold =
     (let L = length mask_index;
          x0 = greedy (add_gumbel_noise gumbel temperature logits);
          x0_p = token_prob sm logits x0;
          lower = tabulate L (\<lambda>i. x0_p ! i < Fin remask_threshold);
          remask = tabulate L (\<lambda>i. lower ! i \<and> \<not> mask_index ! i);
          mask_new = tabulate L (\<lambda>i. lower ! i \<or> mask_index ! i);
          confidence = where_mask mask_new x0_p (\<lambda>_. NegInf)
      in result_bind
          (case num of
             Some k \<Rightarrow> if thr \<noteq> None then Inl AssertionError
               else result_bind (run_topk topk confidence k) (\<lambda>select. Inr (mark L select))
           | None \<Rightarrow> remask_fill topk confidence (tsum remask)
               (tabulate L (\<lambda>i. (i \<in> set (segment_max confidence mask_new)
                   \<and> (case low_threshold of None \<Rightarrow> True | Some lo \<Rightarrow> confidence ! i > Fin lo))
                  \<or> (case thr of None \<Rightarrow> False | Some t \<Rightarrow> confidence ! i > Fin t))))
         (\<lambda>transfer.
            let again = tabulate L (\<lambda>i. remask ! i \<and> \<not> transfer ! i)
            in Inr (tabulate L (\<lambda>i. if again ! i then mid else x0 ! i),
                    tabulate L (\<lambda>i. transfer ! i \<or> again ! i))))"

section \<open>HierarchyDecoder\<close>

text \<open>
  The vectorised selection of the hierarchy decoder for its one row: \<open>neg\<close> is the least finite
  float, which marks unmasked positions.
\<close>

definition seg_id :: "bool list \<Rightarrow> nat list" where
  "seg_id msk =
     (let starts = tabulate (length msk) (\<lambda>i. msk ! i \<and> \<not> (0 < i \<and> msk ! (i - 1)));
          cs = cumsum (map (\<lambda>b. if b then 1 else 0) starts)
      in tabulate (length msk) (\<lambda>i. if msk ! i then cs ! i - 1 else 0))"

definition seg_max_at :: "rat \<Rightarrow> flt list \<Rightarrow> nat list \<Rightarrow> nat \<Rightarrow> flt" where
  "seg_max_at neg confidence ids s =
     fold max (map (\<lambda>i. confidence ! i) (filter (\<lambda>i. ids ! i = s) [0..<length confidence])) (Fin neg)"

definition hierarchy_transfer ::
  "rat \<Rightarrow> flt list \<Rightarrow> bool list \<Rightarrow> rat option \<Rightarrow> rat option \<Rightarrow> bool list" where
  "hierarchy_transfer neg x0_p mask_index low_threshold iter_threshold =
     (let confidence = where_mask mask_index x0_p (\<lambda>_. Fin neg);
          ids = seg_id mask_index;
          top1 = argmax confidence
      in tabulate (length mask_index) (\<lambda>i.
           (confidence ! i = seg_max_at neg confidence ids (ids ! i)
            \<and> (case low_threshold of None \<Rightarrow> True | Some lo \<Rightarrow> confidence ! i > Fin lo))
           \<or> (case iter_threshold of None \<Rightarrow> False | Some t \<Rightarrow> confidence ! i > Fin t)
           \<or> i = top1))"

definition hierarchy_decode ::
  "(flt list \<Rightarrow> rat list) \<Rightarrow> (rat \<Rightarrow> flt list list \<Rightarrow> flt list list) \<Rightarrow> rat \<Rightarrow> rat \<Rightarrow> token \<Rightarrow> rat option
    \<Rightarrow> rat option \<Rightarrow> rat option \<Rightarrow> flt list list list \<Rightarrow> nat \<Rightarrow> nat \<Rightarrow> token list list \<times> nat
    \<Rightarrow> (token list list \<times> nat) result" where
  "hierarchy_decode sm gumbel neg temperature mid thr low_threshold iter_threshold logits bstart bend rs =
     (case (fst rs, logits) of
        ([row], [lg]) \<Rightarrow>
          let cur = slice bstart bend row; mask_index = is_mask mid cur;
              x0 = greedy (add_gumbel_noise gumbel temperature lg);
              transfer = hierarchy_transfer neg (token_prob sm lg x0) mask_index low_threshold
                (if iter_threshold = None then thr else iter_threshold)
          in if length cur \<noteq> length lg then Inl AssertionError
             else if cur = [] then Inl IndexError
             else Inr ([take bstart row
                 @ tabulate (length cur) (\<lambda>i. if transfer ! i \<and> mask_index ! i then x0 ! i else cur ! i)
                 @ drop (bstart + length cur) row], snd rs + 1)
      | _ \<Rightarrow> Inl AssertionError)"

section \<open>StaticParallelDecoder\<close>

record static_state =
  sd_num_transfer :: "nat list list"
  sd_iter :: nat

definition static_block_init :: "token \<Rightarrow> nat \<Rightarrow> token list list \<Rightarrow> static_state" where
  "static_block_init mid n_steps block_x =
     \<lparr> sd_num_transfer = map (\<lambda>row. get_num_transfer_tokens (is_mask mid row) n_steps) block_x, sd_iter = 0 \<rparr>"

definition static_decode_row ::
  "(flt list \<Rightarrow> rat list) \<Rightarrow> (rat \<Rightarrow> flt list list \<Rightarrow> flt list list) \<Rightarrow> (flt list \<Rightarrow> nat \<Rightarrow> nat list)
    \<Rightarrow> flt list \<Rightarrow> rat \<Rightarrow> string \<Rightarrow> token \<Rightarrow> nat \<Rightarrow> flt list list \<Rightarrow> token list \<Rightarrow> token list result" where
  "static_decode_row sm gumbel topk rnd temperature remasking mid num logits cur =
     result_bind (get_transfer_index sm gumbel topk rnd logits temperature remasking (is_mask mid cur) cur num None)
       (\<lambda>(x0, transfer). Inr (tabulate (length cur) (\<lambda>i. if transfer ! i then x0 ! i else cur ! i)))"

definition static_decode ::
  "(flt list \<Rightarrow> rat list) \<Rightarrow> (rat \<Rightarrow> flt list list \<Rightarrow> flt list list) \<Rightarrow> (flt list \<Rightarrow> nat \<Rightarrow> nat list)
    \<Rightarrow> flt list list \<Rightarrow> rat \<Rightarrow> string \<Rightarrow> token \<Rightarrow> flt list list list \<Rightarrow> nat \<Rightarrow> nat
    \<Rightarrow> token list list \<times> static_state \<Rightarrow> (token list list \<times> static_state) result" where
  "static_decode sm gumbel topk rnd temperature remasking mid logits bstart bend rs =
     (let (rows, st) = rs
      in if list_ex (\<lambda>(row, lg). length (slice bstart bend row) \<noteq> length lg) (zip rows logits)
         then Inl AssertionError
         else result_bind (result_map (\<lambda>b.
                  result_bind (py_nth (sd_num_transfer st ! b) (sd_iter st)) (\<lambda>num.
                  result_bind (static_decode_row sm gumbel topk (rnd ! b) temperature remasking mid num
                      (logits ! b) (slice bstart bend (rows ! b))) (\<lambda>blk.
                  Inr (take bstart (rows ! b) @ blk @ drop (bstart + length blk) (rows ! b)))))
                [0..<length rows])
              (\<lambda>rows'. Inr (rows', st\<lparr>sd_iter := sd_iter st + 1\<rparr>)))"
section \<open>Facts about top-k\<close>

definition topk_sorted :: "flt list \<Rightarrow> nat \<Rightarrow> nat list" where
  "topk_sorted xs k = take k (argsort_desc xs)"

lemma topk_sorted_ok: "topk_ok topk_sorted"
  unfolding topk_ok_def
proof (intro allI impI conjI)
  fix xs :: "flt list" and k assume k: "k \<le> length xs"
  show "length (topk_sorted xs k) = k" "distinct (topk_sorted xs k)"
    using k by (simp_all add: topk_sorted_def)
  show "set (topk_sorted xs k) \<subseteq> {..<length xs}"
    using set_take_subset [of k "argsort_desc xs"] by (auto simp: topk_sorted_def)
  show "sorted_wrt (\<lambda>i j. xs ! j \<le> xs ! i) (topk_sorted xs k)"
    using k by (auto simp: topk_sorted_def sorted_wrt_iff_nth_less intro: argsort_desc_sorted)
  show "\<forall>i \<in> set (topk_sorted xs k). \<forall>j < length xs. j \<notin> set (topk_sorted xs k) \<longrightarrow> xs ! j \<le> xs ! i"
  proof (intro ballI allI impI)
    fix i j assume i: "i \<in> set (topk_sorted xs k)" and j: "j < length xs" "j \<notin> set (topk_sorted xs k)"
    from i k obtain a where a: "a < k" "argsort_desc xs ! a = i"
      by (auto simp: topk_sorted_def in_set_conv_nth)
    from j(1) have "j \<in> set (argsort_desc xs)" by simp
    then obtain b where b: "b < length xs" "argsort_desc xs ! b = j"
      unfolding in_set_conv_nth argsort_desc_perm(3) by blast
    have "\<not> b < k"
    proof
      assume "b < k"
      then have "take k (argsort_desc xs) ! b \<in> set (take k (argsort_desc xs))" using k by (intro nth_mem) simp
      with \<open>b < k\<close> b j(2) show False by (simp add: topk_sorted_def)
    qed
    with a(1) have "a \<le> b" by simp
    from argsort_desc_sorted [OF this b(1)] show "xs ! j \<le> xs ! i" using a b by simp
  qed
qed

lemma topk_okD:
  assumes "topk_ok topk" and "k \<le> length xs"
  shows "length (topk xs k) = k" and "distinct (topk xs k)" and "set (topk xs k) \<subseteq> {..<length xs}"
    and "card (set (topk xs k)) = k"
    and "i \<in> set (topk xs k) \<Longrightarrow> j < length xs \<Longrightarrow> j \<notin> set (topk xs k) \<Longrightarrow> xs ! j \<le> xs ! i"
  using assms by (auto simp: topk_ok_def distinct_card)

text \<open>Asked for no more positions than are above \<open>-inf\<close>, top-k picks only such positions.\<close>

lemma topk_above_NegInf:
  assumes ok: "topk_ok topk" and k: "k \<le> card {i. i < length xs \<and> xs ! i \<noteq> NegInf}"
    and i: "i \<in> set (topk xs k)"
  shows "xs ! i \<noteq> NegInf"
proof
  assume neg: "xs ! i = NegInf"
  let ?A = "{i. i < length xs \<and> xs ! i \<noteq> NegInf}"
  have "card ?A \<le> length xs" using card_mono [of "{..<length xs}" ?A] by auto
  with k have kl: "k \<le> length xs" by simp
  note tk = topk_okD [OF ok kl]
  have "?A \<subseteq> set (topk xs k) - {i}"
  proof
    fix j assume j: "j \<in> ?A"
    then have "j \<in> set (topk xs k)" using tk(5) [OF i, of j] neg by (cases "xs ! j") auto
    with j neg show "j \<in> set (topk xs k) - {i}" by auto
  qed
  then have "card ?A \<le> card (set (topk xs k) - {i})" by (intro card_mono) simp_all
  also have "\<dots> < k" using tk(4) i by (metis List.finite_set card_Diff1_less)
  finally show False using k by simp
qed

section \<open>Facts about the masked rows\<close>

lemma where_mask_simps [simp]:
  "length (where_mask ms xs f) = length ms"
  "i < length ms \<Longrightarrow> where_mask ms xs f ! i = (if ms ! i then xs ! i else f i)"
  by (simp_all add: where_mask_def)

lemma mark_simps [simp]:
  "length (mark L ids) = L" "i < L \<Longrightarrow> mark L ids ! i \<longleftrightarrow> i \<in> set ids"
  by (simp_all add: mark_def)

lemma masked_confidence_card:
  assumes "\<And>i. i < length ms \<Longrightarrow> ms ! i \<Longrightarrow> ps ! i \<noteq> NegInf"
  shows "card {i. i < length (where_mask ms ps (\<lambda>_. NegInf)) \<and> where_mask ms ps (\<lambda>_. NegInf) ! i \<noteq> NegInf}
     = tsum ms"
proof -
  have "{i. i < length (where_mask ms ps (\<lambda>_. NegInf)) \<and> where_mask ms ps (\<lambda>_. NegInf) ! i \<noteq> NegInf}
      = {i. i < length ms \<and> ms ! i}" using assms by (auto split: if_splits)
  then show ?thesis by (simp only: tsum_card)
qed

text \<open>Replacing \<open>k\<close> masks by other tokens leaves \<open>k\<close> fewer.\<close>

lemma mask_count_replace:
  assumes len: "length y = length x" and sub: "S \<subseteq> {i. i < length x \<and> x ! i = mid}"
    and y: "\<And>i. i < length x \<Longrightarrow> (y ! i = mid) = (x ! i = mid \<and> i \<notin> S)"
  shows "mask_count mid y + card S = mask_count mid x"
proof -
  have fin: "finite {i. i < length x \<and> x ! i = mid}" by simp
  have mc: "mask_count mid z = card {i. i < length z \<and> z ! i = mid}" for z
    by (auto simp: mask_count_def tsum_card intro: arg_cong [of _ _ card])
  have "{i. i < length y \<and> y ! i = mid} = {i. i < length x \<and> x ! i = mid} - S"
    using len y by auto
  then show ?thesis using card_Diff_subset [OF finite_subset [OF sub fin] sub] card_mono [OF fin sub]
    unfolding mc by simp
qed

section \<open>The static decoder\<close>

lemma sum_num_transfer_tokens:
  assumes "0 < n"
  shows "sum_list (get_num_transfer_tokens ms n) = tsum ms"
proof -
  have r: "tsum ms mod n < n" using assms by simp
  have "(\<Sum>i = 0..<n. if i < tsum ms mod n then 1 else 0 :: nat) = card ({0..<n} \<inter> {i. i < tsum ms mod n})"
    by (simp add: sum.If_cases)
  also have "{0..<n} \<inter> {i. i < tsum ms mod n} = {0..<tsum ms mod n}" using r by auto
  finally have "(\<Sum>i = 0..<n. if i < tsum ms mod n then 1 else 0) = tsum ms mod n" by simp
  then show ?thesis
    by (simp add: get_num_transfer_tokens_def Let_def tabulate_def interv_sum_list_conv_sum_set_nat
        sum.distrib)
qed

lemma length_num_transfer_tokens [simp]: "length (get_num_transfer_tokens ms n) = n"
  by (simp add: get_num_transfer_tokens_def Let_def)

text \<open>
  The inputs of one static step of a row: as many logits as tokens, no masked position whose best
  candidate is the mask itself, and, for random remasking, finite confidences.
\<close>

definition static_input_ok ::
  "(rat \<Rightarrow> flt list list \<Rightarrow> flt list list) \<Rightarrow> rat \<Rightarrow> string \<Rightarrow> token \<Rightarrow> nat \<Rightarrow> flt list list \<Rightarrow> flt list \<Rightarrow> bool" where
  "static_input_ok gumbel temperature remasking mid n logits rnd =
     (length logits = n \<and> (remasking = ''low_confidence'' \<or> remasking = ''random'')
      \<and> list_all (\<lambda>i. greedy (add_gumbel_noise gumbel temperature logits) ! i \<noteq> mid) [0..<n]
      \<and> length rnd = n \<and> list_all (\<lambda>p. p \<noteq> NegInf) rnd)"

lemma remask_prob_ok:
  assumes "static_input_ok gumbel temperature remasking mid n logits rnd"
  obtains ps where "remask_prob sm rnd remasking logits x0 = Inr ps" and "length ps = n"
    and "\<And>i. i < n \<Longrightarrow> ps ! i \<noteq> NegInf"
  using assms
  by (auto simp: static_input_ok_def remask_prob_def list_all_length)

lemma static_row_step:
  assumes ok: "topk_ok topk"
    and inp: "static_input_ok gumbel temperature remasking mid (length cur) logits rnd"
    and num: "num \<le> mask_count mid cur"
  shows "\<exists>y. static_decode_row sm gumbel topk rnd temperature remasking mid num logits cur = Inr y
    \<and> length y = length cur \<and> mask_count mid y + num = mask_count mid cur
    \<and> (\<forall>i < length cur. cur ! i \<noteq> mid \<longrightarrow> y ! i = cur ! i)"
proof -
  let ?x0 = "greedy (add_gumbel_noise gumbel temperature logits)" and ?ms = "is_mask mid cur"
  obtain ps where ps: "remask_prob sm rnd remasking logits ?x0 = Inr ps"
      and fin: "\<And>i. i < length cur \<Longrightarrow> ps ! i \<noteq> NegInf"
    using remask_prob_ok [OF inp] by metis
  define c where "c = where_mask ?ms ps (\<lambda>_. NegInf)"
  have lc: "length c = length cur" by (simp add: c_def)
  have card_c: "card {i. i < length c \<and> c ! i \<noteq> NegInf} = mask_count mid cur"
    unfolding c_def mask_count_def by (rule masked_confidence_card) (simp add: fin)
  have nl: "num \<le> length c" using num mask_count_le [of mid cur] lc by simp
  note tk = topk_okD [OF ok nl]
  define S where "S = set (topk c num)"
  have sub: "S \<subseteq> {i. i < length cur \<and> cur ! i = mid}"
  proof
    fix i assume i: "i \<in> S"
    then have "i < length cur" using tk(3) lc by (auto simp: S_def)
    moreover have "c ! i \<noteq> NegInf"
      by (rule topk_above_NegInf [OF ok]) (use num card_c i in \<open>simp_all add: S_def\<close>)
    ultimately show "i \<in> {i. i < length cur \<and> cur ! i = mid}" by (auto simp: c_def split: if_splits)
  qed
  define y where "y = tabulate (length cur) (\<lambda>i. if i \<in> S then ?x0 ! i else cur ! i)"
  have nm: "\<And>i. i < length cur \<Longrightarrow> ?x0 ! i \<noteq> mid" using inp by (simp add: static_input_ok_def list_all_length)
  have "static_decode_row sm gumbel topk rnd temperature remasking mid num logits cur = Inr y"
    using nl sub unfolding y_def static_decode_row_def get_transfer_index_def Let_def ps result_bind_simps
      c_def [symmetric]
    by (auto simp: run_topk_def threshold_drop_def lc S_def intro!: tabulate_cong)
  moreover have "mask_count mid y + card S = mask_count mid cur"
    by (rule mask_count_replace) (use sub nm in \<open>auto simp: y_def\<close>)
  moreover have "card S = num" using tk(4) by (simp add: S_def)
  ultimately show ?thesis using sub by (auto simp: y_def)
qed
text \<open>Writing a window back: the window is the new one and the rest of the row is kept.\<close>

lemma slice_write_back:
  assumes "length w = b - a" and "a \<le> b" and "b \<le> length row"
  defines "row' \<equiv> take a row @ w @ drop (a + length w) row"
  shows "length row' = length row" and "slice a b row' = w"
    and "i < length row \<Longrightarrow> i < a \<or> b \<le> i \<Longrightarrow> row' ! i = row ! i"
    and "a \<le> i \<Longrightarrow> i < b \<Longrightarrow> row' ! i = w ! (i - a)"
  using assms by (auto simp: slice_def nth_append)

lemma static_batch_step:
  assumes ok: "topk_ok topk" and B: "length rows = B" "length logits = B" and ab: "bstart \<le> bend"
    and rows: "\<And>b. b < B \<Longrightarrow> bend \<le> length (rows ! b)"
    and inp: "\<And>b. b < B \<Longrightarrow>
      static_input_ok gumbel temperature remasking mid (bend - bstart) (logits ! b) (rnd ! b)"
    and num: "\<And>b. b < B \<Longrightarrow> sd_iter st < length (sd_num_transfer st ! b)
      \<and> sd_num_transfer st ! b ! sd_iter st \<le> mask_count mid (slice bstart bend (rows ! b))"
  shows "\<exists>rows'. static_decode sm gumbel topk rnd temperature remasking mid logits bstart bend (rows, st)
      = Inr (rows', st\<lparr>sd_iter := sd_iter st + 1\<rparr>) \<and> length rows' = B
    \<and> (\<forall>b < B. length (rows' ! b) = length (rows ! b)
        \<and> mask_count mid (slice bstart bend (rows' ! b)) + sd_num_transfer st ! b ! sd_iter st
            = mask_count mid (slice bstart bend (rows ! b))
        \<and> (\<forall>i < length (rows ! b). i < bstart \<or> bend \<le> i \<or> rows ! b ! i \<noteq> mid
             \<longrightarrow> rows' ! b ! i = rows ! b ! i))"
proof -
  let ?w = "\<lambda>b. slice bstart bend (rows ! b)" and ?n = "\<lambda>b. sd_num_transfer st ! b ! sd_iter st"
  have lw: "length (?w b) = bend - bstart" if "b < B" for b using rows [OF that] ab by simp
  have "\<forall>b \<in> {..<B}. \<exists>y. static_decode_row sm gumbel topk (rnd ! b) temperature remasking mid (?n b)
        (logits ! b) (?w b) = Inr y \<and> length y = length (?w b)
      \<and> mask_count mid y + ?n b = mask_count mid (?w b)
      \<and> (\<forall>i < length (?w b). ?w b ! i \<noteq> mid \<longrightarrow> y ! i = ?w b ! i)"
    by (intro ballI static_row_step [OF ok]) (use inp num lw in auto)
  then obtain y where y: "\<forall>b \<in> {..<B}. static_decode_row sm gumbel topk (rnd ! b) temperature remasking mid (?n b)
        (logits ! b) (?w b) = Inr (y b) \<and> length (y b) = length (?w b)
      \<and> mask_count mid (y b) + ?n b = mask_count mid (?w b)
      \<and> (\<forall>i < length (?w b). ?w b ! i \<noteq> mid \<longrightarrow> y b ! i = ?w b ! i)"
    by metis
  define rows' where "rows' = map (\<lambda>b. take bstart (rows ! b) @ y b @ drop (bstart + length (y b)) (rows ! b)) [0..<B]"
  have shape: "\<not> list_ex (\<lambda>(row, lg). length (slice bstart bend row) \<noteq> length lg) (zip rows logits)"
    using B lw inp by (auto simp: list_ex_iff set_zip static_input_ok_def simp del: length_slice)
  have eq: "static_decode sm gumbel topk rnd temperature remasking mid logits bstart bend (rows, st)
      = Inr (rows', st\<lparr>sd_iter := sd_iter st + 1\<rparr>)"
  proof -
    have "result_map (\<lambda>b. result_bind (py_nth (sd_num_transfer st ! b) (sd_iter st)) (\<lambda>num.
          result_bind (static_decode_row sm gumbel topk (rnd ! b) temperature remasking mid num
            (logits ! b) (?w b)) (\<lambda>blk.
          Inr (take bstart (rows ! b) @ blk @ drop (bstart + length blk) (rows ! b)))))
        [0..<length rows] = Inr rows'"
      unfolding rows'_def B(1) by (rule result_map_ok) (use y num in \<open>simp add: py_nth_def\<close>)
    then show ?thesis unfolding static_decode_def Let_def prod.case using shape by simp
  qed
  have "length (rows' ! b) = length (rows ! b)
        \<and> mask_count mid (slice bstart bend (rows' ! b)) + ?n b = mask_count mid (?w b)
        \<and> (\<forall>i < length (rows ! b). i < bstart \<or> bend \<le> i \<or> rows ! b ! i \<noteq> mid
             \<longrightarrow> rows' ! b ! i = rows ! b ! i)" if b: "b < B" for b
  proof -
    have ly: "length (y b) = bend - bstart" using y b lw by auto
    have r: "rows' ! b = take bstart (rows ! b) @ y b @ drop (bstart + length (y b)) (rows ! b)"
      using b by (simp add: rows'_def)
    note wb = slice_write_back [OF ly ab rows [OF b], folded r]
    have keep: "rows' ! b ! i = rows ! b ! i"
      if i: "i < length (rows ! b)" "i < bstart \<or> bend \<le> i \<or> rows ! b ! i \<noteq> mid" for i
    proof (cases "i < bstart \<or> bend \<le> i")
      case True
      then show ?thesis using wb(3) i by blast
    next
      case False
      then have w: "?w b ! (i - bstart) = rows ! b ! i"
        using i(1) by (simp add: slice_def less_diff_conv2 not_less)
      moreover have "i - bstart < length (?w b)" unfolding lw [OF b] using False by arith
      ultimately have "y b ! (i - bstart) = rows ! b ! i" using y b i False by (metis lessThan_iff)
      then show ?thesis using wb(4) [of i] False by simp
    qed
    show ?thesis using wb(1,2) y b keep by auto
  qed
  then show ?thesis using eq by (auto simp: rows'_def)
qed

text \<open>The decoder called on the forwards of successive iterations.\<close>

fun static_run ::
  "(flt list \<Rightarrow> rat list) \<Rightarrow> (rat \<Rightarrow> flt list list \<Rightarrow> flt list list) \<Rightarrow> (flt list \<Rightarrow> nat \<Rightarrow> nat list)
    \<Rightarrow> rat \<Rightarrow> string \<Rightarrow> token \<Rightarrow> nat \<Rightarrow> nat \<Rightarrow> (flt list list list \<times> flt list list) list
    \<Rightarrow> token list list \<times> static_state \<Rightarrow> (token list list \<times> static_state) result" where
  "static_run sm gumbel topk temperature remasking mid bstart bend [] rs = Inr rs"
| "static_run sm gumbel topk temperature remasking mid bstart bend ((lg, rnd) # fws) rs =
     result_bind (static_decode sm gumbel topk rnd temperature remasking mid lg bstart bend rs)
       (static_run sm gumbel topk temperature remasking mid bstart bend fws)"

definition static_forwards_ok ::
  "(rat \<Rightarrow> flt list list \<Rightarrow> flt list list) \<Rightarrow> rat \<Rightarrow> string \<Rightarrow> token \<Rightarrow> nat \<Rightarrow> nat
    \<Rightarrow> (flt list list list \<times> flt list list) list \<Rightarrow> bool" where
  "static_forwards_ok gumbel temperature remasking mid B n fws =
     list_all (\<lambda>(lg, rnd). length lg = B \<and> list_all (\<lambda>b.
        static_input_ok gumbel temperature remasking mid n (lg ! b) (rnd ! b)) [0..<B]) fws"

lemma static_run_reveals:
  assumes ok: "topk_ok topk" and ab: "bstart \<le> bend"
  shows "\<lbrakk>length rows = B; \<And>b. b < B \<Longrightarrow> bend \<le> length (rows ! b);
     static_forwards_ok gumbel temperature remasking mid B (bend - bstart) fws;
     \<And>b. b < B \<Longrightarrow> length (sd_num_transfer st ! b) = sd_iter st + length fws
        \<and> mask_count mid (slice bstart bend (rows ! b)) = sum_list (drop (sd_iter st) (sd_num_transfer st ! b))\<rbrakk>
    \<Longrightarrow> \<exists>rows' st'. static_run sm gumbel topk temperature remasking mid bstart bend fws (rows, st) = Inr (rows', st')
      \<and> length rows' = B \<and> (\<forall>b < B. length (rows' ! b) = length (rows ! b)
        \<and> mid \<notin> set (slice bstart bend (rows' ! b))
        \<and> (\<forall>i < length (rows ! b). i < bstart \<or> bend \<le> i \<or> rows ! b ! i \<noteq> mid
             \<longrightarrow> rows' ! b ! i = rows ! b ! i))"
proof (induction fws arbitrary: rows st)
  case Nil
  then show ?case by (auto simp flip: mask_count_zero)
next
  case (Cons fw fws)
  obtain lg rnd where fw: "fw = (lg, rnd)" by (cases fw)
  let ?k = "sd_iter st" and ?st = "st\<lparr>sd_iter := sd_iter st + 1\<rparr>"
  have split: "sum_list (drop ?k (sd_num_transfer st ! b))
      = sd_num_transfer st ! b ! ?k + sum_list (drop (Suc ?k) (sd_num_transfer st ! b))" if "b < B" for b
    using Cons.prems(4) [OF that] by (simp flip: Cons_nth_drop_Suc)
  have batch: "\<exists>rows'. static_decode sm gumbel topk rnd temperature remasking mid lg bstart bend (rows, st)
      = Inr (rows', ?st) \<and> length rows' = B
    \<and> (\<forall>b < B. length (rows' ! b) = length (rows ! b)
        \<and> mask_count mid (slice bstart bend (rows' ! b)) + sd_num_transfer st ! b ! ?k
            = mask_count mid (slice bstart bend (rows ! b))
        \<and> (\<forall>i < length (rows ! b). i < bstart \<or> bend \<le> i \<or> rows ! b ! i \<noteq> mid
             \<longrightarrow> rows' ! b ! i = rows ! b ! i))"
    by (rule static_batch_step [OF ok Cons.prems(1) _ ab])
      (use Cons.prems split fw in \<open>simp_all add: static_forwards_ok_def list_all_iff\<close>)
  obtain rows1 where step: "static_decode sm gumbel topk rnd temperature remasking mid lg bstart bend (rows, st) = Inr (rows1, ?st)"
    and l1: "length rows1 = B" and r1: "\<And>b. b < B \<Longrightarrow> length (rows1 ! b) = length (rows ! b)
        \<and> mask_count mid (slice bstart bend (rows1 ! b)) + sd_num_transfer st ! b ! ?k
            = mask_count mid (slice bstart bend (rows ! b))
        \<and> (\<forall>i < length (rows ! b). i < bstart \<or> bend \<le> i \<or> rows ! b ! i \<noteq> mid
             \<longrightarrow> rows1 ! b ! i = rows ! b ! i)"
    using batch by blast
  have "\<exists>rows' st'. static_run sm gumbel topk temperature remasking mid bstart bend fws (rows1, ?st) = Inr (rows', st')
      \<and> length rows' = B \<and> (\<forall>b < B. length (rows' ! b) = length (rows1 ! b)
        \<and> mid \<notin> set (slice bstart bend (rows' ! b))
        \<and> (\<forall>i < length (rows1 ! b). i < bstart \<or> bend \<le> i \<or> rows1 ! b ! i \<noteq> mid
             \<longrightarrow> rows' ! b ! i = rows1 ! b ! i))"
  proof (rule Cons.IH)
    show "static_forwards_ok gumbel temperature remasking mid B (bend - bstart) fws"
      using Cons.prems(3) by (simp add: static_forwards_ok_def)
    fix b assume b: "b < B"
    show "bend \<le> length (rows1 ! b)" using r1 [OF b] Cons.prems(2) [OF b] by simp
    show "length (sd_num_transfer ?st ! b) = sd_iter ?st + length fws
        \<and> mask_count mid (slice bstart bend (rows1 ! b)) = sum_list (drop (sd_iter ?st) (sd_num_transfer ?st ! b))"
      using r1 [OF b] Cons.prems(4) [OF b] split [OF b] by simp
  qed (use l1 in simp)
  then show ?case using step r1 fw by fastforce
qed

text \<open>
  C28: The static decoder finishes a block in its fixed number of steps: starting from
  \<open>block_init\<close>, \<open>steps\<close> calls of \<open>decode\<close> all succeed and leave no mask in the block of any row;
  tokens that were not masks, and everything outside the block, stay as they were.
\<close>

theorem static_decoder_finishes:
  assumes "topk_ok topk" and "bstart \<le> bend" and "0 < n_steps" and "length fws = n_steps"
    and "\<And>row. row \<in> set rows \<Longrightarrow> bend \<le> length row"
    and "static_forwards_ok gumbel temperature remasking mid (length rows) (bend - bstart) fws"
  shows "\<exists>rows' st'. static_run sm gumbel topk temperature remasking mid bstart bend fws
        (rows, static_block_init mid n_steps (map (slice bstart bend) rows)) = Inr (rows', st')
      \<and> length rows' = length rows \<and> (\<forall>b < length rows. length (rows' ! b) = length (rows ! b)
        \<and> mid \<notin> set (slice bstart bend (rows' ! b))
        \<and> (\<forall>i < length (rows ! b). i < bstart \<or> bend \<le> i \<or> rows ! b ! i \<noteq> mid
             \<longrightarrow> rows' ! b ! i = rows ! b ! i))"
  by (rule static_run_reveals [OF assms(1,2)])
    (use assms in \<open>auto simp: static_block_init_def sum_num_transfer_tokens mask_count_def\<close>)

theorem static_decoder_finishes_witness:
  "\<exists>rows' st'. static_run ex_softmax (\<lambda>t l. l) topk_sorted 0 ''low_confidence'' 2 1 3
        (replicate 3 ([ex_td_logits], [[Fin 0, Fin 0]]))
        ([[7, 2, 2, 2]], static_block_init 2 3 (map (slice 1 3) [[7, 2, 2, 2]])) = Inr (rows', st')
      \<and> 2 \<notin> set (slice 1 3 (rows' ! 0))"
proof -
  have f: "static_forwards_ok (\<lambda>t l. l) 0 ''low_confidence'' 2 1 2 (replicate 3 ([ex_td_logits], [[Fin 0, Fin 0]]))"
    by code_simp
  show ?thesis
    using static_decoder_finishes [OF topk_sorted_ok, of 1 3 3 "replicate 3 ([ex_td_logits], [[Fin 0, Fin 0]])"
        "[[7, 2, 2, 2]]" "\<lambda>t l. l" 0 "''low_confidence''" 2 ex_softmax] f
    by auto
qed
section \<open>The hierarchy decoder\<close>

text \<open>Two positions lie in the same run when every position between them is masked.\<close>

definition same_run :: "bool list \<Rightarrow> nat \<Rightarrow> nat \<Rightarrow> bool" where
  "same_run msk i j = list_all (\<lambda>k. msk ! k) [min i j..<Suc (max i j)]"

lemma same_run_iff: "same_run msk i j \<longleftrightarrow> (\<forall>k. min i j \<le> k \<and> k \<le> max i j \<longrightarrow> msk ! k)"
  by (auto simp: same_run_def list_all_iff)

definition run_start :: "bool list \<Rightarrow> nat \<Rightarrow> bool" where
  "run_start msk i = (msk ! i \<and> \<not> (0 < i \<and> msk ! (i - 1)))"

lemma sum_indicator_take:
  "i < n \<Longrightarrow> sum_list (take (Suc i) (map (\<lambda>b. if b then 1 else 0 :: nat) (tabulate n P))) = card {k. k \<le> i \<and> P k}"
proof -
  assume i: "i < n"
  have "sum_list (map (\<lambda>k. if P k then 1 else 0 :: nat) [0..<Suc i]) = card ({0..<Suc i} \<inter> {k. P k})"
    unfolding interv_sum_list_conv_sum_set_nat set_upt by (subst sum.If_cases) simp_all
  also have "{0..<Suc i} \<inter> {k. P k} = {k. k \<le> i \<and> P k}" by auto
  finally show ?thesis using i by (simp add: tabulate_def take_map comp_def)
qed

lemma seg_id_nth:
  assumes "i < length msk"
  shows "seg_id msk ! i = (if msk ! i then card {k. k \<le> i \<and> run_start msk k} - 1 else 0)"
  using assms sum_indicator_take [OF assms, of "run_start msk"]
  by (simp add: seg_id_def Let_def cumsum_def run_start_def [abs_def])

text \<open>An unmasked position below a masked one is followed by the start of a run.\<close>

lemma run_start_above:
  assumes "\<not> msk ! i" and "i < j" and "msk ! j"
  shows "\<exists>k. i < k \<and> k \<le> j \<and> run_start msk k"
proof -
  define k where "k = (LEAST k. i < k \<and> msk ! k)"
  have k: "i < k \<and> msk ! k" and least: "k \<le> j"
    unfolding k_def using assms by (auto intro: LeastI2 Least_le)
  moreover have "\<not> (i < k - 1 \<and> msk ! (k - 1))"
    using not_less_Least [of "k - 1" "\<lambda>k. i < k \<and> msk ! k"] k unfolding k_def [symmetric] by simp
  then have "\<not> msk ! (k - 1)" using k assms(1) by (metis Suc_diff_1 less_antisym not_less_zero neq0_conv)
  ultimately show ?thesis unfolding run_start_def by blast
qed

lemma run_starts_pos:
  assumes "msk ! j"
  shows "0 < card {k. k \<le> j \<and> run_start msk k}"
proof (cases "\<forall>k \<le> j. msk ! k")
  case True
  then have "0 \<in> {k. k \<le> j \<and> run_start msk k}" by (simp add: run_start_def)
  then show ?thesis by (auto simp: card_gt_0_iff)
next
  case False
  then obtain i where "i \<le> j" "\<not> msk ! i" by blast
  with assms have "\<exists>k. i < k \<and> k \<le> j \<and> run_start msk k"
    by (intro run_start_above) (auto simp: order_less_le)
  then show ?thesis by (auto simp: card_gt_0_iff)
qed

lemma run_starts_same_iff:
  assumes "i \<le> j" and "msk ! i" and "msk ! j"
  shows "card {k. k \<le> i \<and> run_start msk k} = card {k. k \<le> j \<and> run_start msk k} \<longleftrightarrow> same_run msk i j"
proof
  assume run: "same_run msk i j"
  have "{k. k \<le> j \<and> run_start msk k} = {k. k \<le> i \<and> run_start msk k}"
  proof (intro set_eqI iffI)
    fix k assume k: "k \<in> {k. k \<le> j \<and> run_start msk k}"
    have "\<not> i < k"
    proof
      assume "i < k"
      then have "msk ! (k - 1)" using run k assms(1) unfolding same_run_iff
        by (auto elim!: allE [of _ "k - 1"])
      with k \<open>i < k\<close> show False by (simp add: run_start_def)
    qed
    with k show "k \<in> {k. k \<le> i \<and> run_start msk k}" by simp
  qed (use assms(1) in auto)
  then show "card {k. k \<le> i \<and> run_start msk k} = card {k. k \<le> j \<and> run_start msk k}" by simp
next
  assume eq: "card {k. k \<le> i \<and> run_start msk k} = card {k. k \<le> j \<and> run_start msk k}"
  have sets: "{k. k \<le> i \<and> run_start msk k} = {k. k \<le> j \<and> run_start msk k}"
    by (rule card_subset_eq) (use assms(1) eq in auto)
  show "same_run msk i j"
  proof (rule ccontr)
    assume "\<not> same_run msk i j"
    then obtain k where k: "i \<le> k" "k \<le> j" "\<not> msk ! k" using assms(1) by (auto simp: same_run_iff)
    with assms(3) have "k < j" by (auto simp: order_less_le)
    from run_start_above [OF k(3) this assms(3)] obtain l where "k < l" "l \<le> j" "run_start msk l" by blast
    then have "l \<in> {k. k \<le> i \<and> run_start msk k}" using sets by blast
    with \<open>k < l\<close> k(1) show False by simp
  qed
qed

lemma same_run_sym: "same_run msk i j = same_run msk j i"
  by (simp add: same_run_def min.commute max.commute)

text \<open>The segment numbers of the vectorised code name the maximal runs of masks.\<close>

lemma seg_id_same_run:
  assumes i: "i < length msk" "msk ! i" and j: "j < length msk" "msk ! j"
  shows "seg_id msk ! i = seg_id msk ! j \<longleftrightarrow> same_run msk i j"
proof -
  have "seg_id msk ! a = seg_id msk ! b \<longleftrightarrow> same_run msk a b"
    if "a \<le> b" "a < length msk" "msk ! a" "b < length msk" "msk ! b" for a b
  proof -
    have "0 < card {k. k \<le> a \<and> run_start msk k}" "0 < card {k. k \<le> b \<and> run_start msk k}"
      using run_starts_pos that by blast+
    then show ?thesis using run_starts_same_iff [of a b msk] that by (auto simp: seg_id_nth)
  qed
  then show ?thesis using assms by (metis same_run_sym nle_le)
qed

lemma fold_max_le: "fold max xs a \<le> (b :: 'a :: linorder) \<longleftrightarrow> a \<le> b \<and> (\<forall>x \<in> set xs. x \<le> b)"
  by (induction xs arbitrary: a) auto

lemma fold_max_ge: "x \<in> set xs \<Longrightarrow> x \<le> fold max xs (a :: 'a :: linorder)"
  using fold_max_le [of xs a "fold max xs a"] by simp

text \<open>
  A masked position holds the maximum of its segment exactly when no position of its run is more
  confident: the unmasked positions, which share segment 0, only carry the least float.
\<close>

lemma seg_max_is_run_max:
  fixes msk x0_p neg
  defines "c \<equiv> where_mask msk x0_p (\<lambda>_. Fin neg)"
  assumes fin: "\<And>i. i < length msk \<Longrightarrow> msk ! i \<Longrightarrow> Fin neg \<le> x0_p ! i"
    and i: "i < length msk" "msk ! i"
  shows "c ! i = seg_max_at neg c (seg_id msk) (seg_id msk ! i)
    \<longleftrightarrow> (\<forall>j < length msk. same_run msk i j \<longrightarrow> x0_p ! j \<le> x0_p ! i)"
proof -
  let ?js = "filter (\<lambda>j. seg_id msk ! j = seg_id msk ! i) [0..<length c]"
  have lc: "length c = length msk" by (simp add: c_def)
  have ci: "c ! i = x0_p ! i" using i by (simp add: c_def)
  have "c ! i \<le> seg_max_at neg c (seg_id msk) (seg_id msk ! i)"
    unfolding seg_max_at_def by (rule fold_max_ge) (use i lc in auto)
  then have "c ! i = seg_max_at neg c (seg_id msk) (seg_id msk ! i)
      \<longleftrightarrow> seg_max_at neg c (seg_id msk) (seg_id msk ! i) \<le> c ! i" by auto
  also have "\<dots> \<longleftrightarrow> (\<forall>j < length msk. seg_id msk ! j = seg_id msk ! i \<longrightarrow> c ! j \<le> c ! i)"
    using fin [OF i] ci lc unfolding seg_max_at_def fold_max_le by auto
  also have "\<dots> \<longleftrightarrow> (\<forall>j < length msk. same_run msk i j \<longrightarrow> x0_p ! j \<le> x0_p ! i)"
  proof (intro iffI allI impI)
    fix j assume all: "\<forall>j < length msk. seg_id msk ! j = seg_id msk ! i \<longrightarrow> c ! j \<le> c ! i"
      and j: "j < length msk" "same_run msk i j"
    then have mj: "msk ! j" by (simp add: same_run_iff)
    with j i have "seg_id msk ! j = seg_id msk ! i" using seg_id_same_run by metis
    with all j mj ci show "x0_p ! j \<le> x0_p ! i" by (auto simp: c_def)
  next
    fix j assume all: "\<forall>j < length msk. same_run msk i j \<longrightarrow> x0_p ! j \<le> x0_p ! i"
      and j: "j < length msk" "seg_id msk ! j = seg_id msk ! i"
    show "c ! j \<le> c ! i"
    proof (cases "msk ! j")
      case True
      with j i have "same_run msk i j" using seg_id_same_run by metis
      with all j True ci show ?thesis by (simp add: c_def)
    next
      case False
      then show ?thesis using fin [OF i] j ci by (simp add: c_def)
    qed
  qed
  finally show ?thesis .
qed
text \<open>The reference selection: what a reader of the decoder expects of a masked position.\<close>

definition run_selected ::
  "flt list \<Rightarrow> bool list \<Rightarrow> rat option \<Rightarrow> rat option \<Rightarrow> nat \<Rightarrow> bool" where
  "run_selected ps msk low_threshold thr i =
     ((list_all (\<lambda>j. same_run msk i j \<longrightarrow> ps ! j \<le> ps ! i) [0..<length msk]
       \<and> (case low_threshold of None \<Rightarrow> True | Some lo \<Rightarrow> Fin lo < ps ! i))
      \<or> (case thr of None \<Rightarrow> False | Some t \<Rightarrow> Fin t < ps ! i)
      \<or> (list_all (\<lambda>j. msk ! j \<longrightarrow> (if j < i then ps ! j < ps ! i else ps ! j \<le> ps ! i)) [0..<length msk]))"

lemma argmax_unique:
  assumes "xs \<noteq> []" and "i < length xs"
  shows "i = argmax xs \<longleftrightarrow> (\<forall>j < length xs. if j < i then xs ! j < xs ! i else xs ! j \<le> xs ! i)"
proof
  assume "i = argmax xs"
  then show "\<forall>j < length xs. if j < i then xs ! j < xs ! i else xs ! j \<le> xs ! i"
    using argmax_props [OF assms(1)] by auto
next
  assume all: "\<forall>j < length xs. if j < i then xs ! j < xs ! i else xs ! j \<le> xs ! i"
  have a: "argmax xs < length xs" "xs ! i \<le> xs ! argmax xs"
    "\<And>j. j < argmax xs \<Longrightarrow> xs ! j < xs ! argmax xs"
    using argmax_props [OF assms(1)] assms(2) by auto
  show "i = argmax xs"
  proof (rule ccontr)
    assume "i \<noteq> argmax xs"
    then consider "i < argmax xs" | "argmax xs < i" by linarith
    then show False
    proof cases
      case 1
      then show ?thesis using a(3) [OF 1] all a(1) by (metis leD not_less_iff_gr_or_eq)
    next
      case 2
      then show ?thesis using a(2) all a(1) by (metis leD)
    qed
  qed
qed

lemma hierarchy_transfer_reference:
  assumes len: "length ps = length msk" and fin: "\<And>i. i < length msk \<Longrightarrow> msk ! i \<Longrightarrow> Fin neg < ps ! i"
    and i: "i < length msk" "msk ! i"
  shows "hierarchy_transfer neg ps msk low thr ! i \<longleftrightarrow> run_selected ps msk low thr i"
proof -
  let ?c = "where_mask msk ps (\<lambda>_. Fin neg)"
  have seg: "?c ! i = seg_max_at neg ?c (seg_id msk) (seg_id msk ! i)
    \<longleftrightarrow> (\<forall>j < length msk. same_run msk i j \<longrightarrow> ps ! j \<le> ps ! i)"
    by (rule seg_max_is_run_max) (use fin i in \<open>auto intro: less_imp_le\<close>)
  have ci: "?c ! i = ps ! i" using i by simp
  have top: "i = argmax ?c \<longleftrightarrow>
      (\<forall>j < length msk. msk ! j \<longrightarrow> (if j < i then ps ! j < ps ! i else ps ! j \<le> ps ! i))"
  proof -
    have ne: "?c \<noteq> []" using i by (metis where_mask_simps(1) list.size(3) not_less_zero)
    have below: "?c ! j < ps ! i" if "j < length msk" "\<not> msk ! j" for j using that fin [OF i] by simp
    show ?thesis unfolding argmax_unique [OF ne, of i, simplified, OF i(1)]
    proof (rule all_cong1, rule imp_cong [OF refl])
      fix j assume "j < length msk"
      then show "(if j < i then ?c ! j < ?c ! i else ?c ! j \<le> ?c ! i)
        \<longleftrightarrow> (msk ! j \<longrightarrow> (if j < i then ps ! j < ps ! i else ps ! j \<le> ps ! i))"
        using below [of j] ci by (cases "msk ! j") auto
    qed
  qed
  show ?thesis
    using i(1) unfolding hierarchy_transfer_def run_selected_def Let_def
    by (simp add: seg [unfolded ci] ci top list_all_length cong: option.case_cong)
qed

lemma hierarchy_selects_some:
  assumes len: "length ps = length msk" and fin: "\<And>i. i < length msk \<Longrightarrow> msk ! i \<Longrightarrow> Fin neg < ps ! i"
    and k: "k < length msk" "msk ! k"
  shows "\<exists>i < length msk. msk ! i \<and> hierarchy_transfer neg ps msk low thr ! i"
proof -
  let ?c = "where_mask msk ps (\<lambda>_. Fin neg)"
  have ne: "?c \<noteq> []" using k by (metis where_mask_simps(1) list.size(3) not_less_zero)
  have "?c ! k \<le> ?c ! argmax ?c" using argmax_ge [of k ?c] k by simp
  then have "msk ! argmax ?c" using fin [OF k] k argmax_less [OF ne] by (auto split: if_splits)
  moreover have "hierarchy_transfer neg ps msk low thr ! argmax ?c"
    using argmax_less [OF ne] by (simp add: hierarchy_transfer_def Let_def)
  ultimately show ?thesis using argmax_less [OF ne] by auto
qed

text \<open>
  C27: One hierarchy step on a batch of one row succeeds; a masked position of the block takes its
  best candidate exactly when it is the most confident of its maximal run of masks and above the
  low threshold, or above the iteration's threshold, or the first most confident mask of the block
  (the vectorised segment computation agrees with this reference); every other token stays; and a
  block with masks has fewer of them afterwards when no candidate is the mask.
\<close>

theorem hierarchy_step_reference:
  fixes sm gumbel temperature lg row bstart bend mid
  defines "cur \<equiv> slice bstart bend row" and "x0 \<equiv> greedy (add_gumbel_noise gumbel temperature lg)"
  assumes ab: "bstart < bend" "bend \<le> length row" and len: "length lg = bend - bstart"
    and neg: "neg < 0" and ok: "probs_ok sm lg"
    and cand: "\<And>i. i < length lg \<Longrightarrow> x0 ! i < length (lg ! i)"
  shows "\<exists>row'. hierarchy_decode sm gumbel neg temperature mid thr low it [lg] bstart bend ([row], n)
        = Inr ([row'], n + 1)
      \<and> length row' = length row
      \<and> (\<forall>i < length row. i < bstart \<or> bend \<le> i \<longrightarrow> row' ! i = row ! i)
      \<and> (\<forall>i < bend - bstart. row' ! (bstart + i) =
           (if cur ! i = mid \<and> run_selected (token_prob sm lg x0) (is_mask mid cur) low
              (if it = None then thr else it) i then x0 ! i else cur ! i))
      \<and> (mid \<in> set cur \<and> (\<forall>i < length lg. x0 ! i \<noteq> mid) \<longrightarrow> mask_count mid (slice bstart bend row') < mask_count mid cur)"
proof -
  let ?ps = "token_prob sm lg x0" and ?m = "is_mask mid cur" and ?t = "if it = None then thr else it"
  let ?tr = "hierarchy_transfer neg ?ps ?m low ?t"
  define w where "w = tabulate (length cur) (\<lambda>i. if ?tr ! i \<and> ?m ! i then x0 ! i else cur ! i)"
  define row' where "row' = take bstart row @ w @ drop (bstart + length w) row"
  have lcur: "length cur = bend - bstart" using ab by (simp add: cur_def)
  have lw: "length w = bend - bstart" using lcur by (simp add: w_def)
  note wb = slice_write_back [OF lw less_imp_le [OF ab(1)] ab(2), folded row'_def]
  have pos: "Fin neg < ?ps ! i" if "i < length ?m" for i
    using token_prob_nonneg [OF ok _ cand, of i] that neg len lcur
    by (auto intro: less_le_trans [of "Fin neg" "Fin 0"])
  have lps: "length ?ps = length ?m" using len lcur by simp
  have nth: "w ! i = (if cur ! i = mid \<and> run_selected ?ps ?m low ?t i then x0 ! i else cur ! i)"
    if i: "i < bend - bstart" for i
  proof (cases "cur ! i = mid")
    case True
    then show ?thesis using hierarchy_transfer_reference [OF lps pos, of i low ?t] i lcur by (simp add: w_def)
  qed (use i lcur in \<open>simp add: w_def\<close>)
  have ne: "cur \<noteq> []" using lcur ab(1) by (metis list.size(3) less_numeral_extra(3) zero_less_diff)
  have dec: "hierarchy_decode sm gumbel neg temperature mid thr low it [lg] bstart bend ([row], n) = Inr ([row'], n + 1)"
    using ab lcur len ne by (simp add: hierarchy_decode_def Let_def row'_def w_def flip: cur_def x0_def)
  have prog: "mask_count mid w < mask_count mid cur" if mm: "mid \<in> set cur" "\<forall>i < length lg. x0 ! i \<noteq> mid"
  proof -
    obtain k where k: "k < length ?m" "?m ! k" using mm(1) by (auto simp: in_set_conv_nth)
    obtain i where i: "i < length cur" "?m ! i" "?tr ! i"
      using hierarchy_selects_some [OF lps pos k, of low ?t] by auto
    have x: "x0 ! j \<noteq> mid" if "j < length cur" for j using mm(2) that len lcur by simp
    show ?thesis by (rule mask_count_decreases [of _ _ _ i]) (use i x in \<open>auto simp: w_def split: if_splits\<close>)
  qed
  show ?thesis
    using dec wb nth prog lcur by (intro exI [of _ row']) auto
qed
theorem hierarchy_step_reference_witness:
  "\<exists>row'. hierarchy_decode ex_softmax (\<lambda>t l. l) (-1) 0 2 None (Some (2/5)) None [ex_td_logits] 1 3 ([[7, 2, 2, 2]], 0)
       = Inr ([row'], 1) \<and> row' ! 3 = 2 \<and> mask_count 2 (slice 1 3 row') < 2"
proof -
  have g: "greedy (add_gumbel_noise (\<lambda>t l. l) 0 ex_td_logits) = [1, 0]" and l: "map length ex_td_logits = [3, 3]"
    and p: "probs_ok ex_softmax ex_td_logits" and c: "slice 1 3 [7, 2, 2, 2 :: nat] = [2, 2]"
    and m: "mask_count 2 [2, 2] = 2" by code_simp+
  have l2: "length ex_td_logits = 2" by code_simp
  have cand: "[1, 0] ! i < length (ex_td_logits ! i)" if "i < length ex_td_logits" for i
    using that l2 arg_cong [OF l, of "\<lambda>xs. xs ! i"] by (cases i) auto
  show ?thesis
    using hierarchy_step_reference [of 1 3 "[7, 2, 2, 2]" ex_td_logits "-1" ex_softmax "\<lambda>t l. l" 0 2 None
        "Some (2/5)" None 0, unfolded g c] cand l2 p m
    by (auto simp: less_Suc_eq numeral_2_eq_2 numeral_3_eq_3 all_less_two)
qed

end
