(* ===== verification/Nemotron.thy ===== *)
theory Nemotron
  imports Selection Processor
begin

text \<open>
  The Nemotron decoder (execution/decoders/nemotron.py): sampling objects with their generator,
  the threshold decoder with its end-of-sequence predicates, and the thinking budget.  One row of
  a block is a list of tokens.  The random generator is an argument: \<open>manual_seed\<close> makes one from a
  seed, \<open>multinomial\<close> draws one index per row of probabilities, \<open>gumbel_scores\<close> is the noisy
  score \<open>exp(v) / (-log u) ** temperature\<close> for fresh uniform noise.
\<close>

section \<open>Sampling\<close>

record 'g torch_rng =
  manual_seed :: "int \<Rightarrow> 'g"
  multinomial :: "'g \<Rightarrow> rat list list \<Rightarrow> token list \<times> 'g"
  gumbel_scores :: "'g \<Rightarrow> rat \<Rightarrow> flt list list \<Rightarrow> flt list list \<times> 'g"

record 'g nemo_sampling =
  ns_temperature :: rat
  ns_seed :: int
  ns_generator :: "'g option"

text \<open>The attributes that the Nemotron code reads from the runner configuration.\<close>

record nemo_config =
  nc_temperature :: rat
  nc_sampling_seed :: "int option"
  nc_threshold :: rat
  nc_draft_threshold :: rat
  nc_mask_id :: token
  nc_eos_id :: token
  nc_eos_ids :: "token list"
  nc_block_length :: nat
  nc_gen_length :: int
  nc_steps :: int
  nc_early_stop :: bool
  nc_attention_backend :: string
  nc_prefill_chunk_size :: int
  nc_max_thinking_tokens :: "int option"
  nc_end_think_token_id :: "token option"

definition nemo_sampling_init :: "rat \<Rightarrow> int \<Rightarrow> 'g nemo_sampling result" where
  "nemo_sampling_init temperature seed =
     result_bind (validate_sampling_params [(''temperature'', PFloat (Fin temperature)), (''seed'', PInt seed)])
       (\<lambda>_. Inr \<lparr> ns_temperature = temperature, ns_seed = seed, ns_generator = None \<rparr>)"

definition make_sampling :: "nemo_config \<Rightarrow> params option \<Rightarrow> 'g nemo_sampling result" where
  "make_sampling c ps =
     (let vals = dict_union [(''temperature'', PFloat (Fin (nc_temperature c))), (''seed'', case nc_sampling_seed c of None \<Rightarrow> PNone | Some n \<Rightarrow> PInt n)]
                   (case ps of None \<Rightarrow> [] | Some p \<Rightarrow> p)
      in result_bind (validate_sampling_params vals) (\<lambda>_.
           case (py_num (params_get vals ''temperature'' PNone), params_get vals ''seed'' PNone) of
             (Some t, PInt s) \<Rightarrow> nemo_sampling_init t s
           | (Some t, _) \<Rightarrow> nemo_sampling_init t 0
           | (None, _) \<Rightarrow> Inl (TypeError ''float() argument'')))"

definition generator :: "'g torch_rng \<Rightarrow> 'g nemo_sampling \<Rightarrow> 'g" where
  "generator R s = (case ns_generator s of Some g \<Rightarrow> g | None \<Rightarrow> manual_seed R (ns_seed s))"

fun flt_div :: "rat \<Rightarrow> flt \<Rightarrow> flt" where
  "flt_div t (Fin a) = Fin (a / t)"
| "flt_div t x = x"

definition categorical ::
  "(flt list \<Rightarrow> rat list) \<Rightarrow> 'g torch_rng \<Rightarrow> 'g nemo_sampling \<Rightarrow> flt list list \<Rightarrow> token list \<times> 'g nemo_sampling" where
  "categorical sm R s logits =
     (if ns_temperature s = 0 then (greedy logits, s)
      else let probabilities = map (\<lambda>row. sm (map (flt_div (ns_temperature s)) row)) logits;
               (ids, g) = multinomial R (generator R s) probabilities
           in (ids, s\<lparr>ns_generator := Some g\<rparr>))"

definition diffusion ::
  "'g torch_rng \<Rightarrow> 'g nemo_sampling \<Rightarrow> flt list list \<Rightarrow> token list \<times> 'g nemo_sampling" where
  "diffusion R s logits =
     (if ns_temperature s = 0 then (greedy logits, s)
      else let (scores, g) = gumbel_scores R (generator R s) (ns_temperature s) logits
           in (greedy scores, s\<lparr>ns_generator := Some g\<rparr>))"

definition sample_tokens ::
  "(flt list \<Rightarrow> rat list) \<Rightarrow> 'g torch_rng \<Rightarrow> 'g nemo_sampling option \<Rightarrow> flt list list
    \<Rightarrow> token list \<times> 'g nemo_sampling option" where
  "sample_tokens sm R so logits =
     (case so of None \<Rightarrow> (greedy logits, None)
      | Some s \<Rightarrow> let (ids, s') = categorical sm R s logits in (ids, Some s'))"

section \<open>NemotronThresholdDecoder\<close>

record 'g nemo_decoder =
  nd_threshold :: rat
  nd_mask_id :: token
  nd_eos_ids :: "token list"
  nd_allow_mask_prediction :: bool
  nd_draft :: bool
  nd_default_sampling :: "'g nemo_sampling"

definition nd_init :: "rat \<Rightarrow> token \<Rightarrow> token list \<Rightarrow> rat \<Rightarrow> bool \<Rightarrow> bool \<Rightarrow> 'g nemo_decoder result" where
  "nd_init thr mid eos_ids temperature allow_mask draft =
     result_bind (nemo_sampling_init temperature 0) (\<lambda>dflt.
       if \<not> (0 \<le> thr \<and> thr \<le> 1) then Inl (ValueError ''threshold must be in [0, 1]'')
       else result_bind (normalize_eos_ids eos_ids) (\<lambda>ids.
         Inr \<lparr> nd_threshold = thr, nd_mask_id = mid, nd_eos_ids = ids,
               nd_allow_mask_prediction = allow_mask, nd_draft = draft, nd_default_sampling = dflt \<rparr>))"

definition resolve_sampling :: "'g nemo_decoder \<Rightarrow> 'g nemo_sampling option \<Rightarrow> 'g nemo_sampling" where
  "resolve_sampling D so = (case so of None \<Rightarrow> nd_default_sampling D | Some s \<Rightarrow> s)"

definition predict ::
  "(flt list \<Rightarrow> rat list) \<Rightarrow> 'g torch_rng \<Rightarrow> 'g nemo_decoder \<Rightarrow> 'g nemo_sampling option
    \<Rightarrow> flt list list \<Rightarrow> token list \<times> 'g nemo_sampling" where
  "predict sm R D so logits =
     (let s = resolve_sampling D so
      in if nd_draft D then categorical sm R s logits else diffusion R s logits)"

definition confidence_logits ::
  "'g nemo_decoder \<Rightarrow> 'g nemo_sampling option \<Rightarrow> flt list list \<Rightarrow> flt list list" where
  "confidence_logits D so logits =
     (let t = ns_temperature (resolve_sampling D so)
      in if nd_draft D \<and> t > 0 then map (map (flt_div t)) logits else logits)"

text \<open>The candidates, the positions to commit, and the sampling object after its draws.\<close>

definition nemo_select ::
  "(flt list \<Rightarrow> rat list) \<Rightarrow> 'g torch_rng \<Rightarrow> 'g nemo_decoder \<Rightarrow> 'g nemo_sampling option
    \<Rightarrow> flt list list \<Rightarrow> token list \<Rightarrow> (token list \<times> bool list \<times> 'g nemo_sampling) result" where
  "nemo_select sm R D so logits block =
     (if length logits \<noteq> length block then Inl (ValueError ''logits do not match block'')
      else if block = [] then Inl IndexError
      else
        let L = length block;
            (predicted, s') = predict sm R D so logits;
            probs = token_prob sm (confidence_logits D so logits) predicted;
            masked = is_mask (nd_mask_id D) block;
            masked = (if nd_allow_mask_prediction D then masked
              else tabulate L (\<lambda>i. masked ! i \<and> predicted ! i \<noteq> nd_mask_id D));
            confidence = tabulate L (\<lambda>i. if masked ! i then probs ! i else NegInf);
            best = argmax confidence
        in Inr (predicted,
             tabulate L (\<lambda>i. (masked ! i \<and> confidence ! i \<ge> Fin (nd_threshold D) \<or> i = best) \<and> masked ! i), s'))"

definition nemo_step ::
  "(flt list \<Rightarrow> rat list) \<Rightarrow> 'g torch_rng \<Rightarrow> 'g nemo_decoder \<Rightarrow> 'g nemo_sampling option
    \<Rightarrow> flt list list \<Rightarrow> token list \<Rightarrow> (token list \<times> 'g nemo_sampling) result" where
  "nemo_step sm R D so logits block =
     result_bind (nemo_select sm R D so logits block) (\<lambda>(predicted, transfer, s').
       Inr (tabulate (length block) (\<lambda>i. if transfer ! i then predicted ! i else block ! i), s'))"

definition has_masks :: "'g nemo_decoder \<Rightarrow> token list \<Rightarrow> bool" where
  "has_masks D block = any_row (is_mask (nd_mask_id D) block)"

definition eos_positions :: "'g nemo_decoder \<Rightarrow> token list \<Rightarrow> bool list" where
  "eos_positions D block =
     fold (\<lambda>e hit. tabulate (length block) (\<lambda>i. hit ! i \<or> block ! i = e)) (nd_eos_ids D)
       (replicate (length block) False)"

definition eos_is_terminal :: "'g nemo_decoder \<Rightarrow> token list \<Rightarrow> bool" where
  "eos_is_terminal D block =
     (let hit = eos_positions D block;
          at_or_after = map (\<lambda>n. n \<noteq> 0) (cumsum (map (\<lambda>b. if b then 1 else 0) hit));
          masked_before = any_row (tabulate (length block) (\<lambda>i. block ! i = nd_mask_id D \<and> \<not> at_or_after ! i))
      in any_row hit \<and> \<not> masked_before)"

definition first_eos_index :: "'g nemo_decoder \<Rightarrow> token list \<Rightarrow> nat" where
  "first_eos_index D tokens =
     (let hit = eos_positions D tokens; n = length tokens
      in fold min (tabulate n (\<lambda>i. if hit ! i then i else n)) n)"

section \<open>ThinkingBudget\<close>

record thinking_budget =
  tb_max :: "int option"
  tb_end :: "token option"

definition tb_init :: "int option \<Rightarrow> token option \<Rightarrow> thinking_budget result" where
  "tb_init mx e =
     (if (mx = None) \<noteq> (e = None)
      then Inl (ValueError ''max_thinking_tokens and end_think_token_id must be set together or not at all'')
      else if mx \<noteq> None \<and> the mx < 0 then Inl (ValueError ''max_thinking_tokens must be non-negative'')
      else Inr \<lparr> tb_max = mx, tb_end = e \<rparr>)"

definition tb_enabled :: "thinking_budget \<Rightarrow> bool" where
  "tb_enabled b = (tb_max b \<noteq> None)"

definition satisfied :: "thinking_budget \<Rightarrow> token list \<Rightarrow> bool" where
  "satisfied b generated = (if \<not> tb_enabled b then True else the (tb_end b) \<in> set generated)"

definition block_injection_offset :: "thinking_budget \<Rightarrow> nat \<Rightarrow> nat \<Rightarrow> nat option" where
  "block_injection_offset b tokens_before block_length =
     (case tb_max b of
        None \<Rightarrow> None
      | Some mx \<Rightarrow> if int tokens_before + int block_length \<le> mx then None
          else Some (nat (max 0 (mx - int tokens_before))))"

definition force_next_token :: "thinking_budget \<Rightarrow> nat \<Rightarrow> bool" where
  "force_next_token b generated_count = (tb_enabled b \<and> int generated_count > the (tb_max b))"

definition load_thinking_budget :: "nemo_config \<Rightarrow> thinking_budget result" where
  "load_thinking_budget c = tb_init (nc_max_thinking_tokens c) (nc_end_think_token_id c)"

definition load_nemotron_decoder :: "nemo_config \<Rightarrow> 'g nemo_decoder result" where
  "load_nemotron_decoder c =
     nd_init (nc_threshold c) (nc_mask_id c) (if nc_eos_ids c = [] then [nc_eos_id c] else nc_eos_ids c)
       (nc_temperature c) True False"
section \<open>Facts about the predicates\<close>

lemma length_eos_positions [simp]: "length (eos_positions D block) = length block"
proof -
  have "length (fold (\<lambda>e hit. tabulate n (\<lambda>i. hit ! i \<or> block ! i = e)) es h) = n" if "length h = n" for n es h
    using that by (induction es arbitrary: h) simp_all
  then show ?thesis by (simp add: eos_positions_def)
qed

lemma nth_eos_positions [simp]:
  assumes "i < length block"
  shows "eos_positions D block ! i \<longleftrightarrow> block ! i \<in> set (nd_eos_ids D)"
proof -
  have "fold (\<lambda>e hit. tabulate (length block) (\<lambda>i. hit ! i \<or> block ! i = e)) es h ! i
      \<longleftrightarrow> h ! i \<or> block ! i \<in> set es" for es h
    using assms by (induction es arbitrary: h) auto
  then show ?thesis using assms by (simp add: eos_positions_def)
qed

lemma has_masks_iff: "has_masks D block \<longleftrightarrow> nd_mask_id D \<in> set block"
  using mask_count_zero [of "nd_mask_id D" block] by (simp add: has_masks_def mask_count_def tsum_zero_iff)

lemma cumsum_flags_pos:
  assumes "i < length hit"
  shows "0 < cumsum (map (\<lambda>b. if b then 1 else 0) hit) ! i \<longleftrightarrow> (\<exists>j \<le> i. hit ! j)"
proof -
  have "sum_list (take (Suc i) (map (\<lambda>b. if b then 1 else 0) hit)) = (0 :: nat)
      \<longleftrightarrow> (\<forall>b \<in> set (take (Suc i) hit). \<not> b)"
    by (auto simp: take_map)
  also have "\<dots> \<longleftrightarrow> (\<forall>j \<le> i. \<not> hit ! j)"
    using assms by (auto simp: all_set_conv_all_nth less_Suc_eq_le)
  finally show ?thesis using assms by (metis (no_types, lifting) cumsum_def length_map neq0_conv nth_tabulate)
qed

text \<open>An end-of-sequence token is terminal when no mask stands before it.\<close>

lemma eos_is_terminal_iff:
  "eos_is_terminal D block \<longleftrightarrow>
     (\<exists>i < length block. block ! i \<in> set (nd_eos_ids D) \<and> (\<forall>j < i. block ! j \<noteq> nd_mask_id D))"
    (is "_ \<longleftrightarrow> ?rhs")
proof -
  let ?E = "\<lambda>i. block ! i \<in> set (nd_eos_ids D)"
  have "eos_is_terminal D block \<longleftrightarrow> (\<exists>i < length block. ?E i)
      \<and> \<not> (\<exists>j < length block. block ! j = nd_mask_id D \<and> \<not> (\<exists>i \<le> j. ?E i))"
  proof -
    have "(\<exists>i \<le> j. eos_positions D block ! i) = (\<exists>i \<le> j. ?E i)" if "j < length block" for j
      using that nth_eos_positions [of _ block D] le_less_trans by blast
    then show ?thesis
      by (simp add: eos_is_terminal_def Let_def any_row_iff cumsum_flags_pos cong: conj_cong)
  qed
  also have "\<dots> \<longleftrightarrow> ?rhs"
  proof
    assume l: "(\<exists>i < length block. ?E i)
      \<and> \<not> (\<exists>j < length block. block ! j = nd_mask_id D \<and> \<not> (\<exists>i \<le> j. ?E i))"
    define i where "i = (LEAST i. ?E i)"
    obtain k where k: "k < length block" "?E k" using l by blast
    have e: "?E i" and ik: "i \<le> k" unfolding i_def using k(2) by (auto intro: LeastI Least_le)
    have "block ! j \<noteq> nd_mask_id D" if "j < i" for j
    proof -
      have "\<not> (\<exists>m \<le> j. ?E m)" using that unfolding i_def by (meson le_less_trans not_less_Least)
      moreover have "j < length block" using that ik k(1) by linarith
      ultimately show ?thesis using l by blast
    qed
    then show ?rhs using e ik k(1) by (intro exI [of _ i]) auto
  next
    assume ?rhs
    then obtain i where i: "i < length block" "?E i" "\<forall>j < i. block ! j \<noteq> nd_mask_id D" by blast
    then have "\<exists>i \<le> j. ?E i" if "j < length block" "block ! j = nd_mask_id D" for j
      using that by (metis not_le_imp_less)
    then show "(\<exists>i < length block. ?E i)
      \<and> \<not> (\<exists>j < length block. block ! j = nd_mask_id D \<and> \<not> (\<exists>i \<le> j. ?E i))" using i by blast
  qed
  finally show ?thesis .
qed

lemma fold_min_le: "(b :: 'a :: linorder) \<le> fold min xs a \<longleftrightarrow> b \<le> a \<and> (\<forall>x \<in> set xs. b \<le> x)"
  by (induction xs arbitrary: a) auto

lemma first_eos_index_eq:
  "first_eos_index D tokens
     = (case first_index (\<lambda>t. t \<in> set (nd_eos_ids D)) tokens of Some i \<Rightarrow> i | None \<Rightarrow> length tokens)"
proof (rule antisym)
  let ?v = "\<lambda>i. if eos_positions D tokens ! i then i else length tokens"
  let ?r = "case first_index (\<lambda>t. t \<in> set (nd_eos_ids D)) tokens of Some i \<Rightarrow> i | None \<Rightarrow> length tokens"
  have F: "b \<le> first_eos_index D tokens \<longleftrightarrow> b \<le> length tokens \<and> (\<forall>i < length tokens. b \<le> ?v i)" for b
    by (auto simp: first_eos_index_def Let_def fold_min_le set_tabulate)
  show "?r \<le> first_eos_index D tokens" unfolding F
  proof (cases "first_index (\<lambda>t. t \<in> set (nd_eos_ids D)) tokens")
    case (Some k)
    then have "k \<le> i" if "i < length tokens" "tokens ! i \<in> set (nd_eos_ids D)" for i
      using that by (metis first_index_Some not_le_imp_less)
    then show "?r \<le> length tokens \<and> (\<forall>i < length tokens. ?r \<le> ?v i)"
      using Some [unfolded first_index_Some] unfolding Some by auto
  next
    case None
    then show "?r \<le> length tokens \<and> (\<forall>i < length tokens. ?r \<le> ?v i)"
      unfolding None using None [unfolded first_index_None] by auto
  qed
  show "first_eos_index D tokens \<le> ?r"
    using F [of "first_eos_index D tokens"] by (auto split: option.splits simp: first_index_Some)
qed
section \<open>One denoising step\<close>

definition nemo_confidence ::
  "(flt list \<Rightarrow> rat list) \<Rightarrow> 'g torch_rng \<Rightarrow> 'g nemo_decoder \<Rightarrow> 'g nemo_sampling option
    \<Rightarrow> flt list list \<Rightarrow> token list \<Rightarrow> flt list" where
  "nemo_confidence sm R D so logits block =
     where_mask (is_mask (nd_mask_id D) block)
       (token_prob sm (confidence_logits D so logits) (fst (predict sm R D so logits))) (\<lambda>_. NegInf)"

lemma nemo_select_eq:
  assumes "length logits = length block" and "block \<noteq> []" and "nd_allow_mask_prediction D"
  shows "nemo_select sm R D so logits block = Inr (fst (predict sm R D so logits),
     tabulate (length block) (\<lambda>i. block ! i = nd_mask_id D
       \<and> (Fin (nd_threshold D) \<le> nemo_confidence sm R D so logits block ! i
          \<or> i = argmax (nemo_confidence sm R D so logits block))), snd (predict sm R D so logits))"
proof -
  have c: "tabulate (length block) (\<lambda>i. if is_mask (nd_mask_id D) block ! i
        then token_prob sm (confidence_logits D so logits) (fst (predict sm R D so logits)) ! i else NegInf)
      = nemo_confidence sm R D so logits block"
    by (simp add: nemo_confidence_def where_mask_def)
  have "nemo_select sm R D so logits block = Inr (fst (predict sm R D so logits),
     tabulate (length block) (\<lambda>i. (is_mask (nd_mask_id D) block ! i
          \<and> Fin (nd_threshold D) \<le> nemo_confidence sm R D so logits block ! i
          \<or> i = argmax (nemo_confidence sm R D so logits block)) \<and> is_mask (nd_mask_id D) block ! i),
     snd (predict sm R D so logits))"
    using assms unfolding nemo_select_def Let_def
    by (simp only: c split_beta if_True if_False simp_thms prod.case)
  then show ?thesis by (auto intro!: tabulate_cong)
qed

lemma nemo_confidence_simps [simp]:
  "length (nemo_confidence sm R D so logits block) = length block"
  "i < length block \<Longrightarrow> nemo_confidence sm R D so logits block ! i
     = (if block ! i = nd_mask_id D
        then token_prob sm (confidence_logits D so logits) (fst (predict sm R D so logits)) ! i else NegInf)"
  by (simp_all add: nemo_confidence_def)

lemma length_confidence_logits [simp]: "length (confidence_logits D so logits) = length logits"
  by (simp add: confidence_logits_def Let_def)

text \<open>The most confident position is a mask whenever there is one.\<close>

lemma nemo_best_masked:
  assumes "length logits = length block" and "nd_mask_id D \<in> set block"
  shows "argmax (nemo_confidence sm R D so logits block) < length block"
    and "block ! argmax (nemo_confidence sm R D so logits block) = nd_mask_id D"
proof -
  let ?c = "nemo_confidence sm R D so logits block"
  obtain k where k: "k < length block" "block ! k = nd_mask_id D"
    using assms(2) by (auto simp: in_set_conv_nth)
  have ne: "?c \<noteq> []" using k by (metis nemo_confidence_simps(1) list.size(3) not_less_zero)
  show l: "argmax ?c < length block" using argmax_less [OF ne] by simp
  have "?c ! k \<noteq> NegInf" using k assms(1) by simp
  then have "?c ! argmax ?c \<noteq> NegInf" using argmax_avoids_NegInf [of k ?c] k by simp
  then show "block ! argmax ?c = nd_mask_id D" using l by (auto split: if_splits)
qed

lemma nemo_step_facts:
  assumes "length logits = length block" and "block \<noteq> []" and "nd_allow_mask_prediction D"
  obtains y where "nemo_step sm R D so logits block = Inr (y, snd (predict sm R D so logits))"
    and "length y = length block"
    and "\<And>i. i < length block \<Longrightarrow> block ! i \<noteq> nd_mask_id D \<Longrightarrow> y ! i = block ! i"
    and "\<And>i. i < length block \<Longrightarrow> y ! i \<noteq> block ! i \<Longrightarrow> y ! i = fst (predict sm R D so logits) ! i"
    and "nd_mask_id D \<in> set block \<Longrightarrow>
      (\<And>i. i < length block \<Longrightarrow> fst (predict sm R D so logits) ! i \<noteq> nd_mask_id D) \<Longrightarrow>
      mask_count (nd_mask_id D) y < mask_count (nd_mask_id D) block"
proof -
  let ?c = "nemo_confidence sm R D so logits block" and ?p = "fst (predict sm R D so logits)"
  define y where "y = tabulate (length block) (\<lambda>i. if block ! i = nd_mask_id D
       \<and> (Fin (nd_threshold D) \<le> ?c ! i \<or> i = argmax ?c) then ?p ! i else block ! i)"
  have "nemo_step sm R D so logits block = Inr (y, snd (predict sm R D so logits))"
    unfolding nemo_step_def nemo_select_eq [OF assms] y_def by (auto intro!: tabulate_cong)
  moreover have "mask_count (nd_mask_id D) y < mask_count (nd_mask_id D) block"
    if m: "nd_mask_id D \<in> set block"
      and p: "\<And>i. i < length block \<Longrightarrow> ?p ! i \<noteq> nd_mask_id D"
  proof (rule mask_count_decreases [of _ _ _ "argmax ?c"])
    note best = nemo_best_masked [OF assms(1) m, of sm R so]
    show "argmax ?c < length block" "block ! argmax ?c = nd_mask_id D" by (fact best)+
    show "y ! argmax ?c \<noteq> nd_mask_id D" using best p [OF best(1)] by (simp add: y_def)
  qed (auto simp: y_def split: if_splits dest: p)
  ultimately show ?thesis by (intro that [of y]) (auto simp: y_def split: if_splits)
qed

text \<open>The selection of the checkpoint's top-k scan, which breaks ties by position.\<close>

definition topk_first :: "(flt list \<Rightarrow> nat \<Rightarrow> nat list) \<Rightarrow> bool" where
  "topk_first topk = (\<forall>xs k. 0 < k \<and> k \<le> length xs \<longrightarrow> topk xs k ! 0 = argmax xs)"

lemma scan_selects:
  assumes ok: "topk_ok topk" and first: "topk_first topk" and m: "m = card {i. i < length c \<and> c ! i \<noteq> NegInf}"
    and i: "i < length c"
  shows "i \<in> set (threshold_drop c 1 (Some t) (topk c m))
    \<longleftrightarrow> c ! i \<noteq> NegInf \<and> (Fin t \<le> c ! i \<or> i = argmax c)"
proof -
  let ?A = "{i. i < length c \<and> c ! i \<noteq> NegInf}"
  have "m \<le> card {..<length c}" unfolding m by (intro card_mono) auto
  then have ml: "m \<le> length c" by simp
  note tk = topk_okD [OF ok ml]
  have sub: "set (topk c m) \<subseteq> ?A"
    using tk(3) topk_above_NegInf [OF ok eq_refl [OF m]] by auto
  have fin: "finite ?A" by simp
  have eq: "set (topk c m) = ?A" by (rule card_subset_eq [OF fin sub]) (use tk(4) m in simp)
  have drop: "i \<in> set (threshold_drop c 1 (Some t) (topk c m))
      \<longleftrightarrow> (\<exists>k < m. topk c m ! k = i \<and> (k = 0 \<or> Fin t \<le> c ! i))"
    using tk(1) by (auto simp: threshold_drop_def image_iff not_less)
  have "(\<exists>k < m. topk c m ! k = i \<and> (k = 0 \<or> Fin t \<le> c ! i))
      \<longleftrightarrow> i \<in> set (topk c m) \<and> (Fin t \<le> c ! i \<or> i = argmax c)"
  proof (cases "i \<in> set (topk c m)")
    case True
    then obtain k where k: "k < m" "topk c m ! k = i" using tk(1) by (auto simp: in_set_conv_nth)
    then have f: "topk c m ! 0 = argmax c" using first ml by (auto simp: topk_first_def)
    have "topk c m ! j = i \<and> j < m \<longrightarrow> j = k" for j
      using k tk(1,2) by (auto simp: nth_eq_iff_index_eq)
    then show ?thesis using True k f by (metis gr_zeroI less_nat_zero_code)
  next
    case False
    then show ?thesis using tk(1) by (auto simp: in_set_conv_nth)
  qed
  then show ?thesis unfolding drop eq using i by simp
qed

text \<open>
  C26: The Nemotron selection commits exactly the positions that the checkpoint's reference helper
  (the top-k scan of \<open>get_transfer_index\<close>: keep the first, drop every further one below the
  threshold) commits, and the block after the step is the one the reference computes; this is the
  comment of the class made a theorem.  Greedy sampling; top-k lists the lowest index first among
  equal confidences.
\<close>

theorem nemo_step_reference:
  assumes "topk_ok topk" and "topk_first topk"
    and "nd_allow_mask_prediction D" and "\<not> nd_draft D" and "ns_temperature (resolve_sampling D so) = 0"
    and "length logits = length block" and "block \<noteq> []"
  shows "\<exists>x0 transfer. get_transfer_index sm gumbel topk rnd logits 0 ''low_confidence''
        (is_mask (nd_mask_id D) block) block n (Some (nd_threshold D)) = Inr (x0, transfer)
      \<and> nemo_select sm R D so logits block = Inr (greedy logits, transfer, resolve_sampling D so)
      \<and> nemo_step sm R D so logits block
          = Inr (tabulate (length block) (\<lambda>i. if transfer ! i then x0 ! i else block ! i), resolve_sampling D so)"
proof -
  let ?c = "nemo_confidence sm R D so logits block" and ?ms = "is_mask (nd_mask_id D) block"
  have p: "predict sm R D so logits = (greedy logits, resolve_sampling D so)"
    using assms(4,5) by (simp add: predict_def diffusion_def)
  have cl: "confidence_logits D so logits = logits" using assms(4) by (simp add: confidence_logits_def)
  have c: "where_mask ?ms (token_prob sm logits (greedy logits)) (\<lambda>_. NegInf) = ?c"
    by (simp add: nemo_confidence_def p cl)
  have card_c: "tsum ?ms = card {i. i < length ?c \<and> ?c ! i \<noteq> NegInf}"
    unfolding c [symmetric] by (rule masked_confidence_card [symmetric]) (use assms(6) in simp)
  have le: "\<not> length ?c < tsum ?ms" using tsum_le_length [of ?ms] by simp
  define tr where "tr = mark (length block) (threshold_drop ?c 1 (Some (nd_threshold D)) (topk ?c (tsum ?ms)))"
  have g: "get_transfer_index sm gumbel topk rnd logits 0 ''low_confidence'' ?ms block n (Some (nd_threshold D))
      = Inr (where_mask ?ms (greedy logits) ((!) block), tr)"
    using le by (simp add: get_transfer_index_def add_gumbel_noise_def remask_prob_def Let_def c run_topk_def tr_def)
  have tr_eq: "tabulate (length block) (\<lambda>i. block ! i = nd_mask_id D
       \<and> (Fin (nd_threshold D) \<le> ?c ! i \<or> i = argmax ?c)) = tr"
  proof (rule tabulate_eq_self)
    fix i assume i: "i < length block"
    show "(block ! i = nd_mask_id D \<and> (Fin (nd_threshold D) \<le> ?c ! i \<or> i = argmax ?c)) = tr ! i"
      using scan_selects [OF assms(1,2) card_c, of i "nd_threshold D"] i assms(6) by (auto simp: tr_def)
  qed (simp add: tr_def)
  have sel: "nemo_select sm R D so logits block = Inr (greedy logits, tr, resolve_sampling D so)"
    unfolding nemo_select_eq [OF assms(6,7,3)] tr_eq p by simp
  have "nemo_step sm R D so logits block
      = Inr (tabulate (length block) (\<lambda>i. if tr ! i then where_mask ?ms (greedy logits) ((!) block) ! i else block ! i),
          resolve_sampling D so)"
    unfolding nemo_step_def sel by (auto simp: tr_eq [symmetric] intro!: tabulate_cong)
  with g sel show ?thesis by blast
qed

lemma topk_sorted_first: "topk_first topk_sorted"
  unfolding topk_first_def
proof (intro allI impI)
  fix xs :: "flt list" and k assume k: "0 < k \<and> k \<le> length xs"
  then have ne: "xs \<noteq> []" by auto
  let ?i = "argsort_desc xs ! 0"
  have il: "?i < length xs" using nth_mem [of 0 "argsort_desc xs"] ne by (auto simp del: nth_mem)
  have srt: "sorted (map (\<lambda>i. flt_neg (xs ! i)) (argsort_desc xs))" by (simp add: argsort_desc_def)
  have ge: "xs ! j \<le> xs ! ?i" if "j < length xs" for j
  proof -
    from that have "j \<in> set (argsort_desc xs)" by simp
    then obtain b where b: "b < length xs" "argsort_desc xs ! b = j"
      unfolding in_set_conv_nth argsort_desc_perm(3) by blast
    from argsort_desc_sorted [OF le0 b(1)] show ?thesis using b by simp
  qed
  have stable: "\<not> (xs ! j = xs ! ?i \<and> j < ?i)" if "j < length xs" for j
  proof
    assume j: "xs ! j = xs ! ?i \<and> j < ?i"
    let ?f = "\<lambda>i. flt_neg (xs ! i)" and ?v = "flt_neg (xs ! ?i)"
    have flt: "filter (\<lambda>i. ?f i = ?v) (argsort_desc xs) = filter (\<lambda>i. ?f i = ?v) [0..<length xs]"
      unfolding argsort_desc_def by (rule sort_key_stable)
    have "argsort_desc xs = ?i # tl (argsort_desc xs)"
      using ne by (metis argsort_desc_perm(3) hd_conv_nth length_0_conv list.collapse)
    then have "hd (filter (\<lambda>i. ?f i = ?v) (argsort_desc xs)) = ?i" by (metis (mono_tags, lifting) filter.simps(2) list.sel(1))
    moreover have "sorted (filter (\<lambda>i. ?f i = ?v) [0..<length xs])" by (simp add: sorted_wrt_filter)
    moreover have "j \<in> set (filter (\<lambda>i. ?f i = ?v) [0..<length xs])" using that j by simp
    ultimately have "?i \<le> j" unfolding flt by (metis (no_types, lifting) list.set_cases list.sel(1) order.refl set_ConsD sorted_simps(2))
    with j show False by simp
  qed
  have "?i = argmax xs" unfolding argmax_unique [OF ne il]
    using ge stable by (metis order_le_less)
  then show "topk_sorted xs k ! 0 = argmax xs" using k by (simp add: topk_sorted_def)
qed
definition ex_rng :: "nat torch_rng" where
  "ex_rng = \<lparr> manual_seed = nat, multinomial = (\<lambda>g ps. (map (\<lambda>_. 0) ps, Suc g)),
     gumbel_scores = (\<lambda>g t ls. (ls, Suc g)) \<rparr>"

definition ex_nd :: "bool \<Rightarrow> nat nemo_decoder" where
  "ex_nd draft = \<lparr> nd_threshold = 1/2, nd_mask_id = 2, nd_eos_ids = [0], nd_allow_mask_prediction = True,
     nd_draft = draft, nd_default_sampling = \<lparr> ns_temperature = 0, ns_seed = 0, ns_generator = None \<rparr> \<rparr>"

theorem nemo_step_reference_witness:
  "\<exists>x0 transfer. get_transfer_index ex_softmax (\<lambda>t l. l) topk_sorted [] ex_td_logits 0 ''low_confidence''
        (is_mask 2 [2, 2]) [2, 2] 0 (Some (1/2)) = Inr (x0, transfer)
      \<and> nemo_select ex_softmax ex_rng (ex_nd False) None ex_td_logits [2, 2]
          = Inr (greedy ex_td_logits, transfer, nd_default_sampling (ex_nd False))"
proof -
  have l: "length ex_td_logits = length [2, 2 :: nat]" by code_simp
  show ?thesis
    using nemo_step_reference [OF topk_sorted_ok topk_sorted_first, of "ex_nd False" None ex_td_logits "[2, 2]"
        ex_softmax "\<lambda>t l. l" "[]" 0 ex_rng] l
    by (auto simp: ex_nd_def resolve_sampling_def)
qed

section \<open>The thinking budget\<close>

lemma tb_initD:
  assumes "tb_init mx e = Inr b"
  shows "tb_max b = mx" and "tb_end b = e" and "tb_enabled b \<Longrightarrow> e \<noteq> None \<and> 0 \<le> the mx"
  using assms by (auto simp: tb_init_def tb_enabled_def split: if_splits)

lemma injection_offset_inside:
  assumes "block_injection_offset b before n = Some off" and "0 < n" and "0 \<le> the (tb_max b)"
  shows "off < n" and "int (before + off) \<le> max (int before) (the (tb_max b))"
    and "int before \<le> the (tb_max b) \<Longrightarrow> int (before + off) = the (tb_max b)"
  using assms by (auto simp: block_injection_offset_def split: option.splits if_splits)

end
