(* ===== verification/Causal_Cache.thy ===== *)
theory Causal_Cache
  imports Tensor
begin

text \<open>
  What the dense runners of the Nemotron and Diffusion-Gemma families share: attention masks over a
  cached prefix, the padded output row of a request, and the cells that a causal model keeps for a
  sequence of tokens.
\<close>

section \<open>Masks and output rows\<close>

definition causal_mask :: "nat \<Rightarrow> nat \<Rightarrow> bool list list" where
  "causal_mask query_len prefix_len =
     tabulate query_len (\<lambda>q. tabulate (prefix_len + query_len) (\<lambda>k. k \<le> prefix_len + q))"

definition bidirectional_mask :: "nat \<Rightarrow> nat \<Rightarrow> bool list list" where
  "bidirectional_mask query_len prefix_len = replicate query_len (replicate (prefix_len + query_len) True)"

text \<open>The padded row of a request: prompt, masks up to the padded prompt length, generated tokens, masks.\<close>

definition output_row :: "token \<Rightarrow> nat \<Rightarrow> nat \<Rightarrow> nat \<Rightarrow> token list \<Rightarrow> token list \<Rightarrow> token list result" where
  "output_row mid padded_prompt_len padded_generation_len prompt_length prompt generated =
     (let T = padded_prompt_len + padded_generation_len
      in if length prompt \<noteq> min prompt_length T \<or> T < padded_prompt_len + length generated
         then Inl (RuntimeError ''shape mismatch'')
         else Inr (tabulate T (\<lambda>i.
                if padded_prompt_len \<le> i \<and> i < padded_prompt_len + length generated then generated ! (i - padded_prompt_len)
                else if i < length prompt then prompt ! i else mid)))"

section \<open>Cells of a causal model\<close>

text \<open>\<open>cell ts\<close> is what the cache keeps for the last of the tokens \<open>ts\<close>.\<close>

definition cells :: "(token list \<Rightarrow> 'v) \<Rightarrow> token list \<Rightarrow> 'v list" where
  "cells cell ts = map (\<lambda>i. cell (take (Suc i) ts)) [0..<length ts]"

lemma length_cells [simp]: "length (cells cell ts) = length ts"
  by (simp add: cells_def)

lemma take_cells [simp]: "take n (cells cell ts) = cells cell (take n ts)"
  by (rule nth_equalityI) (simp_all add: cells_def min_absorb1 Suc_le_eq)

lemma cells_Nil [simp]: "cells cell [] = []"
  by (simp add: cells_def)

lemma cells_last: "cells last ts = ts"
  by (rule nth_equalityI) (auto simp: cells_def take_Suc_conv_app_nth)

end
