(* ===== verification/Nemotron_Runner.thy ===== *)
theory Nemotron_Runner
  imports Nemotron Causal_Cache
begin

text \<open>
  The dense Nemotron runners (execution/runners/nemotron/block_diffusion.py): block diffusion with
  causal prefill, seeded blocks and causal commit, and self-speculation (diffusion draft, causal
  verify).  The model is the argument \<open>fwd\<close>: from the state of the draft adapter, the input tokens,
  their positions, the cells of the cache up to the end of the input, and the attention mask it
  gives the logits of every input token and the cells of every slot.  A cell is what all layers
  keep for one position.
\<close>

section \<open>Runner construction\<close>

definition MAX_SUPPORTED_POSITIONS :: int where
  "MAX_SUPPORTED_POSITIONS = 262144"

definition check_nemotron_context_limit :: "int option \<Rightarrow> int option \<Rightarrow> int \<Rightarrow> unit result" where
  "check_nemotron_context_limit max_position_embeddings serving_limit max_positions =
     (let limit = min MAX_SUPPORTED_POSITIONS
            (case max_position_embeddings of None \<Rightarrow> MAX_SUPPORTED_POSITIONS | Some n \<Rightarrow> n);
          limit = (case serving_limit of None \<Rightarrow> limit | Some n \<Rightarrow> min limit n)
      in if 0 \<le> max_positions \<and> max_positions \<le> limit then Inr ()
         else Inl (ValueError ''Nemotron-Labs-Diffusion support is limited''))"

record 'g nemo_runner =
  nr_config :: nemo_config
  nr_block_length :: nat
  nr_max_denoise_steps :: nat
  nr_decoder :: "'g nemo_decoder"
  nr_budget :: thinking_budget
  nr_max_position_embeddings :: "int option"
  nr_serving_limit :: "int option"

record 'g spec_runner = "'g nemo_runner" +
  sr_draft_decoder :: "'g nemo_decoder"
  sr_lora :: bool

definition init_decoder :: "nemo_config \<Rightarrow> 'g nemo_decoder result" where
  "init_decoder c =
     nd_init (nc_threshold c) (nc_mask_id c) (if nc_eos_ids c = [] then [nc_eos_id c] else nc_eos_ids c)
       0 True False"

definition nemo_runner_init ::
  "nemo_config \<Rightarrow> int option \<Rightarrow> int option \<Rightarrow> 'g nemo_runner result" where
  "nemo_runner_init c max_pos limit =
     (if nc_attention_backend c \<noteq> ''sdpa''
      then Inl (ValueError ''NemotronDiffusionRunner implements the dense path only'')
      else result_bind (init_decoder c) (\<lambda>D.
           result_bind (load_thinking_budget c) (\<lambda>b.
           Inr \<lparr> nr_config = c, nr_block_length = nc_block_length c,
                 nr_max_denoise_steps = (if nc_steps c > 0 then nat (nc_steps c) else nc_block_length c),
                 nr_decoder = D, nr_budget = b,
                 nr_max_position_embeddings = max_pos, nr_serving_limit = limit \<rparr>)))"

definition spec_runner_init ::
  "nemo_config \<Rightarrow> int option \<Rightarrow> int option \<Rightarrow> 'g spec_runner result" where
  "spec_runner_init c max_pos limit =
     result_bind (nemo_runner_init c max_pos limit) (\<lambda>r.
     result_bind (nd_init (nc_draft_threshold c) (nd_mask_id (nr_decoder r)) (nd_eos_ids (nr_decoder r)) 0 True True)
       (\<lambda>D. Inr (nemo_runner.extend r \<lparr> sr_draft_decoder = D, sr_lora = False \<rparr>)))"

section \<open>Forwards\<close>

type_synonym 'v nemo_fwd =
  "bool \<Rightarrow> token list \<Rightarrow> nat list \<Rightarrow> 'v list \<Rightarrow> bool list list \<Rightarrow> flt list list \<times> 'v list"

record ('v, 'g) nemo_state =
  nst_cache :: "'v list"
  nst_sampling :: "'g nemo_sampling option"
  nst_forwards :: nat

definition commit_kv :: "'v list \<Rightarrow> nat \<Rightarrow> nat \<Rightarrow> 'v list \<Rightarrow> 'v list result" where
  "commit_kv present start end_pos cache =
     (if length present \<noteq> end_pos \<or> length cache < end_pos then Inl (RuntimeError ''shape mismatch'')
      else Inr (take start cache @ slice start end_pos present @ drop end_pos cache))"

text \<open>A causal forward whose new cells are written back: one prefill chunk, or the commit of a block.\<close>

definition causal_forward ::
  "'v nemo_fwd \<Rightarrow> token list \<Rightarrow> nat \<Rightarrow> ('v, 'g) nemo_state \<Rightarrow> (flt list list \<times> ('v, 'g) nemo_state) result" where
  "causal_forward fwd ids start st =
     (let end_pos = start + length ids;
          (logits, present) = fwd False ids [start..<end_pos] (take end_pos (nst_cache st))
             (causal_mask (length ids) start)
      in result_bind (commit_kv present start end_pos (nst_cache st)) (\<lambda>cache.
           Inr (logits, st\<lparr>nst_cache := cache, nst_forwards := nst_forwards st + 1\<rparr>)))"

definition prefill_chunk ::
  "'v nemo_fwd \<Rightarrow> nat \<Rightarrow> token list \<Rightarrow> nat \<Rightarrow> flt list list \<times> nat \<times> ('v, 'g) nemo_state
    \<Rightarrow> (flt list list \<times> nat \<times> ('v, 'g) nemo_state) result" where
  "prefill_chunk fwd chunk prompt start acc =
     (let (_, calls, st) = acc; end_pos = min (length prompt) (start + chunk)
      in result_bind (causal_forward fwd (slice start end_pos prompt) start st)
           (\<lambda>(logits, st'). Inr (logits, calls + 1, st')))"

definition nemo_prefill ::
  "'v nemo_fwd \<Rightarrow> int \<Rightarrow> token list \<Rightarrow> ('v, 'g) nemo_state
    \<Rightarrow> (flt list list \<times> nat \<times> ('v, 'g) nemo_state) result" where
  "nemo_prefill fwd chunk_size prompt st =
     (if prompt = [] then Inl (ValueError ''Nemotron requires a non-empty prompt'')
      else if chunk_size = 0 then Inl (ValueError ''range() arg 3 must not be zero'')
      else if chunk_size < 0 then Inl (RuntimeError ''UnboundLocalError: logits'')
      else let chunk = nat chunk_size
           in result_fold (prefill_chunk fwd chunk prompt)
                (map (\<lambda>k. k * chunk) [0..<ceil_div (length prompt) chunk]) ([], 0, st))"

definition nemo_denoise ::
  "'v nemo_fwd \<Rightarrow> bool \<Rightarrow> token list \<Rightarrow> nat \<Rightarrow> ('v, 'g) nemo_state \<Rightarrow> flt list list \<times> ('v, 'g) nemo_state" where
  "nemo_denoise fwd adapter block prefix_len st =
     (let n = length block
      in (fst (fwd adapter block [prefix_len..<prefix_len + n] (take (prefix_len + n) (nst_cache st))
            (bidirectional_mask n prefix_len)),
          st\<lparr>nst_forwards := nst_forwards st + 1\<rparr>))"

definition nemo_commit ::
  "'v nemo_fwd \<Rightarrow> token list \<Rightarrow> nat \<Rightarrow> ('v, 'g) nemo_state \<Rightarrow> (flt list list \<times> ('v, 'g) nemo_state) result" where
  "nemo_commit fwd block prefix_len st = causal_forward fwd block prefix_len st"

definition seed_from ::
  "(flt list \<Rightarrow> rat list) \<Rightarrow> 'g torch_rng \<Rightarrow> flt list list \<Rightarrow> ('v, 'g) nemo_state
    \<Rightarrow> (token \<times> ('v, 'g) nemo_state) result" where
  "seed_from sm R logits st =
     (if logits = [] then Inl IndexError
      else let (ids, so) = sample_tokens sm R (nst_sampling st) [last logits]
           in result_bind (py_nth ids 0) (\<lambda>t. Inr (t, st\<lparr>nst_sampling := so\<rparr>)))"

section \<open>Block diffusion\<close>

record block_stats =
  bs_prefill_calls :: nat
  bs_denoise_calls :: nat
  bs_commit_calls :: nat
  bs_blocks :: nat
  bs_denoise_per_block :: "nat list"
  bs_internal_tokens :: nat
  bs_returned_tokens :: nat

definition block_stats_init :: block_stats where
  "block_stats_init = \<lparr> bs_prefill_calls = 0, bs_denoise_calls = 0, bs_commit_calls = 0, bs_blocks = 0,
     bs_denoise_per_block = [], bs_internal_tokens = 0, bs_returned_tokens = 0 \<rparr>"

definition bs_total_calls :: "block_stats \<Rightarrow> nat" where
  "bs_total_calls s = bs_prefill_calls s + bs_denoise_calls s + bs_commit_calls s"

text \<open>One decoder step on the block, with the sampling object of the request.\<close>

definition step_block ::
  "(flt list \<Rightarrow> rat list) \<Rightarrow> 'g torch_rng \<Rightarrow> 'v nemo_fwd \<Rightarrow> bool \<Rightarrow> 'g nemo_decoder \<Rightarrow> nat
    \<Rightarrow> token list \<Rightarrow> ('v, 'g) nemo_state \<Rightarrow> (token list \<times> ('v, 'g) nemo_state) result" where
  "step_block sm R fwd adapter D prefix_len block st =
     (let (logits, st1) = nemo_denoise fwd adapter block prefix_len st
      in result_bind (nemo_step sm R D (nst_sampling st1) logits block) (\<lambda>(block', s').
           Inr (block', st1\<lparr>nst_sampling := map_option (\<lambda>_. s') (nst_sampling st1)\<rparr>)))"

fun denoise_loop ::
  "(flt list \<Rightarrow> rat list) \<Rightarrow> 'g torch_rng \<Rightarrow> 'v nemo_fwd \<Rightarrow> 'g nemo_decoder \<Rightarrow> bool \<Rightarrow> nat
    \<Rightarrow> nat \<Rightarrow> nat \<Rightarrow> token list \<Rightarrow> ('v, 'g) nemo_state \<Rightarrow> (nat \<times> token list \<times> ('v, 'g) nemo_state) result" where
  "denoise_loop sm R fwd D early_stop prefix_len 0 calls block st = Inr (calls, block, st)"
| "denoise_loop sm R fwd D early_stop prefix_len (Suc k) calls block st =
     (if \<not> has_masks D block then Inr (calls, block, st)
      else result_bind (step_block sm R fwd False D prefix_len block st) (\<lambda>(block', st').
        if \<not> has_masks D block' then Inr (calls + 1, block', st')
        else if early_stop \<and> eos_is_terminal D block' then Inr (calls + 1, block', st')
        else denoise_loop sm R fwd D early_stop prefix_len k (calls + 1) block' st'))"

definition denoise_block ::
  "(flt list \<Rightarrow> rat list) \<Rightarrow> 'g torch_rng \<Rightarrow> 'v nemo_fwd \<Rightarrow> ('g, 'r) nemo_runner_scheme \<Rightarrow> bool \<Rightarrow> nat
    \<Rightarrow> token list \<Rightarrow> ('v, 'g) nemo_state \<Rightarrow> (nat \<times> token list \<times> ('v, 'g) nemo_state) result" where
  "denoise_block sm R fwd r early_stop prefix_len block st =
     result_bind (denoise_loop sm R fwd (nr_decoder r) early_stop prefix_len (nr_max_denoise_steps r) 0 block st)
       (\<lambda>(calls, block', st').
          if has_masks (nr_decoder r) block' \<and> \<not> (early_stop \<and> eos_is_terminal (nr_decoder r) block')
          then Inl (RuntimeError ''NemotronBlockBudgetExceeded'')
          else Inr (calls, block', st'))"

definition apply_thinking_budget :: "thinking_budget \<Rightarrow> token list \<Rightarrow> token list list \<Rightarrow> token list result" where
  "apply_thinking_budget b block emitted =
     (let produced = concat emitted
      in if \<not> tb_enabled b \<or> satisfied b produced \<or> satisfied b block then Inr block
         else case block_injection_offset b (length produced) (length block) of
                None \<Rightarrow> Inr block
              | Some off \<Rightarrow> if off < length block then Inr (block[off := the (tb_end b)]) else Inl IndexError)"

text \<open>The loop body from the seed of a block to the seed of the next one.\<close>

definition block_body ::
  "(flt list \<Rightarrow> rat list) \<Rightarrow> 'g torch_rng \<Rightarrow> 'v nemo_fwd \<Rightarrow> ('g, 'r) nemo_runner_scheme \<Rightarrow> bool \<Rightarrow> token
    \<Rightarrow> nat \<Rightarrow> token list list \<Rightarrow> block_stats \<Rightarrow> ('v, 'g) nemo_state
    \<Rightarrow> (token list \<times> bool \<times> token \<times> block_stats \<times> ('v, 'g) nemo_state) result" where
  "block_body sm R fwd r early_stop seed prefix_len emitted stats st =
     (let D = nr_decoder r
      in if nr_block_length r = 0 then Inl IndexError
         else result_bind (apply_thinking_budget (nr_budget r) (seed # replicate (nr_block_length r - 1) (nd_mask_id D)) emitted)
           (\<lambda>block.
            result_bind
              (if early_stop \<and> eos_is_terminal D block then Inr (0, block, st)
               else denoise_block sm R fwd r early_stop prefix_len block st)
              (\<lambda>(calls, block', st1).
                let terminal = eos_is_terminal D block' in
                result_bind (nemo_commit fwd block' prefix_len st1) (\<lambda>(logits, st2).
                result_bind (seed_from sm R logits st2) (\<lambda>(seed', st3).
                Inr (block', terminal, seed',
                     stats\<lparr>bs_denoise_calls := bs_denoise_calls stats + calls,
                           bs_denoise_per_block := bs_denoise_per_block stats @ [calls],
                           bs_commit_calls := bs_commit_calls stats + 1,
                           bs_blocks := bs_blocks stats + 1\<rparr>, st3))))))"

text \<open>\<open>k\<close> is the number of blocks that the padded generation length still has room for.\<close>

fun block_loop ::
  "(flt list \<Rightarrow> rat list) \<Rightarrow> 'g torch_rng \<Rightarrow> 'v nemo_fwd \<Rightarrow> ('g, 'r) nemo_runner_scheme \<Rightarrow> bool \<Rightarrow> nat
    \<Rightarrow> token \<Rightarrow> nat \<Rightarrow> token list list \<Rightarrow> block_stats \<Rightarrow> ('v, 'g) nemo_state
    \<Rightarrow> (token list list \<times> block_stats \<times> ('v, 'g) nemo_state) result" where
  "block_loop sm R fwd r early_stop 0 seed prefix_len emitted stats st = Inr (emitted, stats, st)"
| "block_loop sm R fwd r early_stop (Suc k) seed prefix_len emitted stats st =
     result_bind (block_body sm R fwd r early_stop seed prefix_len emitted stats st)
       (\<lambda>(block, terminal, seed', stats', st').
          if early_stop \<and> terminal then Inr (emitted @ [block], stats', st')
          else block_loop sm R fwd r early_stop k seed' (prefix_len + nr_block_length r) (emitted @ [block]) stats' st')"

definition cut_at_eos :: "'g nemo_decoder \<Rightarrow> bool \<Rightarrow> token list \<Rightarrow> token list" where
  "cut_at_eos D early_stop tokens =
     (if early_stop then take (min (first_eos_index D tokens + 1) (length tokens)) tokens else tokens)"

definition nemo_check_context :: "('g, 'r) nemo_runner_scheme \<Rightarrow> nat \<Rightarrow> unit result" where
  "nemo_check_context r n =
     check_nemotron_context_limit (nr_max_position_embeddings r) (nr_serving_limit r) (int n)"

definition generate_one ::
  "(flt list \<Rightarrow> rat list) \<Rightarrow> 'g torch_rng \<Rightarrow> 'v nemo_fwd \<Rightarrow> 'v \<Rightarrow> ('g, 'r) nemo_runner_scheme \<Rightarrow> bool
    \<Rightarrow> 'g nemo_sampling option \<Rightarrow> nat \<Rightarrow> token list \<Rightarrow> nat \<Rightarrow> (token list \<times> block_stats \<times> ('v, 'g) nemo_state) result" where
  "generate_one sm R fwd zero r early_stop sampling forwards prompt generation_length =
     (if generation_length = 0
      then Inr ([], block_stats_init, \<lparr> nst_cache = [], nst_sampling = sampling, nst_forwards = forwards \<rparr>)
      else if nr_block_length r = 0 then Inl (RuntimeError ''ZeroDivisionError'')
      else
        let n_blocks = ceil_div generation_length (nr_block_length r);
            total_length = length prompt + n_blocks * nr_block_length r
        in result_bind (nemo_check_context r total_length) (\<lambda>_.
           result_bind (nemo_prefill fwd (nc_prefill_chunk_size (nr_config r)) prompt
               \<lparr> nst_cache = replicate total_length zero, nst_sampling = sampling, nst_forwards = forwards \<rparr>)
             (\<lambda>(logits, calls, st).
           result_bind (seed_from sm R logits st) (\<lambda>(seed, st1).
           result_bind (block_loop sm R fwd r early_stop n_blocks seed (length prompt) []
               (block_stats_init\<lparr>bs_prefill_calls := calls\<rparr>) st1)
             (\<lambda>(emitted, stats, st2).
                let generated = cut_at_eos (nr_decoder r) early_stop (take generation_length (concat emitted))
                in Inr (generated, stats\<lparr>bs_internal_tokens := length (concat emitted),
                          bs_returned_tokens := length generated\<rparr>, st2))))))"
section \<open>Self-speculation\<close>

record spec_stats =
  ss_prefill_calls :: nat
  ss_draft_calls :: nat
  ss_verify_calls :: nat
  ss_iterations :: nat
  ss_accepted_per_iteration :: "nat list"
  ss_draft_calls_per_iteration :: "nat list"
  ss_returned_tokens :: nat

definition spec_stats_init :: spec_stats where
  "spec_stats_init = \<lparr> ss_prefill_calls = 0, ss_draft_calls = 0, ss_verify_calls = 0, ss_iterations = 0,
     ss_accepted_per_iteration = [], ss_draft_calls_per_iteration = [], ss_returned_tokens = 0 \<rparr>"

definition ss_total_calls :: "spec_stats \<Rightarrow> nat" where
  "ss_total_calls s = ss_prefill_calls s + ss_draft_calls s + ss_verify_calls s"

definition mean_acceptance :: "spec_stats \<Rightarrow> rat" where
  "mean_acceptance s =
     (if ss_accepted_per_iteration s = [] then 0
      else of_nat (sum_list (ss_accepted_per_iteration s)) / of_nat (length (ss_accepted_per_iteration s)))"

definition tokens_per_forward :: "spec_stats \<Rightarrow> rat" where
  "tokens_per_forward s =
     (if ss_total_calls s = 0 then 0 else of_nat (ss_returned_tokens s) / of_nat (ss_total_calls s))"

fun draft_loop ::
  "(flt list \<Rightarrow> rat list) \<Rightarrow> 'g torch_rng \<Rightarrow> 'v nemo_fwd \<Rightarrow> bool \<Rightarrow> 'g nemo_decoder \<Rightarrow> nat
    \<Rightarrow> nat \<Rightarrow> nat \<Rightarrow> token list \<Rightarrow> ('v, 'g) nemo_state \<Rightarrow> (nat \<times> token list \<times> ('v, 'g) nemo_state) result" where
  "draft_loop sm R fwd adapter D prefix_len 0 calls block st = Inr (calls, block, st)"
| "draft_loop sm R fwd adapter D prefix_len (Suc k) calls block st =
     (if \<not> has_masks D block then Inr (calls, block, st)
      else result_bind (step_block sm R fwd adapter D prefix_len block st) (\<lambda>(block', st').
        draft_loop sm R fwd adapter D prefix_len k (calls + 1) block' st'))"

definition draft_block ::
  "(flt list \<Rightarrow> rat list) \<Rightarrow> 'g torch_rng \<Rightarrow> 'v nemo_fwd \<Rightarrow> 'g spec_runner \<Rightarrow> nat
    \<Rightarrow> token list \<Rightarrow> ('v, 'g) nemo_state \<Rightarrow> (nat \<times> token list \<times> ('v, 'g) nemo_state) result" where
  "draft_block sm R fwd r prefix_len block st =
     result_bind (draft_loop sm R fwd (sr_lora r) (sr_draft_decoder r) prefix_len (nr_max_denoise_steps r) 0 block st)
       (\<lambda>(calls, block', st').
          if has_masks (sr_draft_decoder r) block' then Inl (RuntimeError ''draft left masked positions'')
          else Inr (calls, block', st'))"

text \<open>
  \<open>accepted_length\<close> and \<open>accepted_tokens\<close>: \<open>verified ! i\<close> is the prediction made from position \<open>i\<close> and
  is compared with the draft at \<open>i + 1\<close>.
\<close>

function match_length :: "token list \<Rightarrow> token list \<Rightarrow> nat \<Rightarrow> nat" where
  "match_length verified drafted i =
     (if i < length drafted - 1 \<and> verified ! i = drafted ! (i + 1)
      then Suc (match_length verified drafted (i + 1)) else 0)"
  by pat_completeness auto
termination by (relation "measure (\<lambda>(v, d, i). length d - i)") auto

definition accepted_length :: "token list \<Rightarrow> token list \<Rightarrow> nat" where
  "accepted_length verified drafted = match_length verified drafted 0 + 1"

function accept_from :: "token list \<Rightarrow> token list \<Rightarrow> nat \<Rightarrow> token list" where
  "accept_from verified drafted i =
     (if i < length drafted - 1 \<and> verified ! i = drafted ! (i + 1)
      then verified ! i # accept_from verified drafted (i + 1) else [verified ! i])"
  by pat_completeness auto
termination by (relation "measure (\<lambda>(v, d, i). length d - i)") auto

declare match_length.simps [simp del] accept_from.simps [simp del]

definition accepted_tokens :: "token list \<Rightarrow> token list \<Rightarrow> nat \<Rightarrow> token list" where
  "accepted_tokens verified drafted forced = slice 1 (Suc forced) drafted @ accept_from verified drafted forced"

text \<open>Appending the accepted tokens, up to and including an end-of-sequence token.\<close>

fun emit_tokens :: "(token \<Rightarrow> bool) \<Rightarrow> token list \<Rightarrow> token list \<times> bool" where
  "emit_tokens stop [] = ([], False)"
| "emit_tokens stop (t # ts) =
     (if stop t then ([t], True) else let (out, term) = emit_tokens stop ts in (t # out, term))"

record ('v, 'g) spec_loop_state =
  sl_prefix_len :: nat
  sl_next_token :: token
  sl_emitted :: "token list"
  sl_terminal :: bool
  sl_force_marker :: bool
  sl_stats :: spec_stats
  sl_state :: "('v, 'g) nemo_state"

definition marker_due :: "thinking_budget \<Rightarrow> token list \<Rightarrow> bool" where
  "marker_due b emitted = (force_next_token b (length emitted) \<and> \<not> satisfied b emitted)"

definition spec_block :: "'g spec_runner \<Rightarrow> ('v, 'g) spec_loop_state \<Rightarrow> token list result" where
  "spec_block r ls =
     (let block = sl_next_token ls # replicate (nr_block_length r - 1) (nd_mask_id (nr_decoder r))
      in if nr_block_length r = 0 \<or> (sl_force_marker ls \<and> nr_block_length r < 2) then Inl IndexError
         else Inr (if sl_force_marker ls then block[1 := the (tb_end (nr_budget r))] else block))"

text \<open>The draft of a block, the causal verify that also writes its cells, and the verifier's tokens.\<close>

definition draft_verify ::
  "(flt list \<Rightarrow> rat list) \<Rightarrow> 'g torch_rng \<Rightarrow> 'v nemo_fwd \<Rightarrow> 'g spec_runner \<Rightarrow> nat \<Rightarrow> token list
    \<Rightarrow> ('v, 'g) nemo_state \<Rightarrow> (nat \<times> token list \<times> token list \<times> ('v, 'g) nemo_state) result" where
  "draft_verify sm R fwd r prefix_len block st =
     result_bind (draft_block sm R fwd r prefix_len block st) (\<lambda>(calls, drafted, st1).
     result_bind (nemo_commit fwd drafted prefix_len st1) (\<lambda>(logits, st2).
       let (verified, so) = sample_tokens sm R (nst_sampling st2) logits
       in if length verified \<noteq> length drafted then Inl IndexError
          else Inr (calls, drafted, verified, st2\<lparr>nst_sampling := so\<rparr>)))"

definition spec_advance ::
  "'g spec_runner \<Rightarrow> bool \<Rightarrow> nat \<Rightarrow> ('v, 'g) spec_loop_state \<Rightarrow> nat \<Rightarrow> token list \<Rightarrow> ('v, 'g) nemo_state
    \<Rightarrow> ('v, 'g) spec_loop_state" where
  "spec_advance r early_stop generation_length ls calls tokens st =
     (let (out, term) = emit_tokens (\<lambda>t. early_stop \<and> t \<in> set (nd_eos_ids (nr_decoder r))) tokens;
          emitted = sl_emitted ls @ out; stats = sl_stats ls
      in ls\<lparr>sl_prefix_len := sl_prefix_len ls + length tokens,
            sl_next_token := last tokens,
            sl_emitted := emitted,
            sl_terminal := term,
            sl_force_marker := (if length emitted \<ge> generation_length then sl_force_marker ls
              else marker_due (nr_budget r) emitted),
            sl_stats := stats\<lparr>ss_draft_calls := ss_draft_calls stats + calls,
              ss_verify_calls := ss_verify_calls stats + 1,
              ss_iterations := ss_iterations stats + 1,
              ss_accepted_per_iteration := ss_accepted_per_iteration stats @ [length tokens],
              ss_draft_calls_per_iteration := ss_draft_calls_per_iteration stats @ [calls]\<rparr>,
            sl_state := st\<rparr>)"

definition spec_iter ::
  "(flt list \<Rightarrow> rat list) \<Rightarrow> 'g torch_rng \<Rightarrow> 'v nemo_fwd \<Rightarrow> 'g spec_runner \<Rightarrow> bool \<Rightarrow> nat
    \<Rightarrow> ('v, 'g) spec_loop_state \<Rightarrow> ('v, 'g) spec_loop_state result" where
  "spec_iter sm R fwd r early_stop generation_length ls =
     result_bind (spec_block r ls) (\<lambda>block.
     result_bind (draft_verify sm R fwd r (sl_prefix_len ls) block (sl_state ls)) (\<lambda>(calls, drafted, verified, st).
       Inr (spec_advance r early_stop generation_length ls calls
              (accepted_tokens verified drafted (if sl_force_marker ls then 1 else 0)) st)))"

lemma emit_tokens_nonempty: "ts \<noteq> [] \<Longrightarrow> fst (emit_tokens stop ts) \<noteq> []"
  by (cases ts) (auto split: prod.splits)

lemma accepted_tokens_nonempty: "accepted_tokens verified drafted forced \<noteq> []"
  by (subst accepted_tokens_def, subst accept_from.simps) simp

text \<open>Every iteration emits at least one token.\<close>

lemma spec_iter_emits:
  assumes "spec_iter sm R fwd r early_stop n ls = Inr ls'"
  shows "length (sl_emitted ls) < length (sl_emitted ls')"
proof -
  obtain calls verified drafted forced st
    where "ls' = spec_advance r early_stop n ls calls (accepted_tokens verified drafted forced) st"
    using assms by (auto simp: spec_iter_def result_bind_eq_Inr split_beta)
  moreover have "fst (emit_tokens stop (accepted_tokens verified drafted forced)) \<noteq> []" for stop
    by (rule emit_tokens_nonempty [OF accepted_tokens_nonempty])
  ultimately show ?thesis by (simp add: spec_advance_def Let_def split_beta)
qed

function spec_loop ::
  "(flt list \<Rightarrow> rat list) \<Rightarrow> 'g torch_rng \<Rightarrow> 'v nemo_fwd \<Rightarrow> 'g spec_runner \<Rightarrow> bool \<Rightarrow> nat
    \<Rightarrow> ('v, 'g) spec_loop_state \<Rightarrow> ('v, 'g) spec_loop_state result" where
  "spec_loop sm R fwd r early_stop generation_length ls =
     (if length (sl_emitted ls) < generation_length \<and> \<not> sl_terminal ls
      then case spec_iter sm R fwd r early_stop generation_length ls of
             Inl e \<Rightarrow> Inl e
           | Inr ls' \<Rightarrow> spec_loop sm R fwd r early_stop generation_length ls'
      else Inr ls)"
  by pat_completeness auto
termination
  by (relation "measure (\<lambda>(sm, R, fwd, r, es, n, ls). n - length (sl_emitted ls))")
    (auto dest: spec_iter_emits)

declare spec_loop.simps [simp del]

definition spec_generate_one ::
  "(flt list \<Rightarrow> rat list) \<Rightarrow> 'g torch_rng \<Rightarrow> 'v nemo_fwd \<Rightarrow> 'v \<Rightarrow> 'g spec_runner \<Rightarrow> bool
    \<Rightarrow> 'g nemo_sampling option \<Rightarrow> nat \<Rightarrow> token list \<Rightarrow> nat \<Rightarrow> (token list \<times> spec_stats \<times> ('v, 'g) nemo_state) result" where
  "spec_generate_one sm R fwd zero r early_stop sampling forwards prompt generation_length =
     (if generation_length = 0
      then Inr ([], spec_stats_init, \<lparr> nst_cache = [], nst_sampling = sampling, nst_forwards = forwards \<rparr>)
      else
        let total_length = length prompt + generation_length + nr_block_length r; D = nr_decoder r
        in result_bind (nemo_check_context r total_length) (\<lambda>_.
           result_bind (nemo_prefill fwd (nc_prefill_chunk_size (nr_config r)) prompt
               \<lparr> nst_cache = replicate total_length zero, nst_sampling = sampling, nst_forwards = forwards \<rparr>)
             (\<lambda>(logits, calls, st).
           result_bind (seed_from sm R logits st) (\<lambda>(next_token, st1).
           result_bind (spec_loop sm R fwd r early_stop generation_length
               \<lparr> sl_prefix_len = length prompt, sl_next_token = next_token, sl_emitted = [next_token],
                 sl_terminal = (early_stop \<and> next_token \<in> set (nd_eos_ids D)),
                 sl_force_marker = marker_due (nr_budget r) [next_token],
                 sl_stats = spec_stats_init\<lparr>ss_prefill_calls := calls\<rparr>, sl_state = st1 \<rparr>)
             (\<lambda>ls.
                let generated = cut_at_eos D early_stop (take generation_length (sl_emitted ls))
                in Inr (generated, (sl_stats ls)\<lparr>ss_returned_tokens := length generated\<rparr>, sl_state ls))))))"

section \<open>The batch entry point\<close>

datatype sampling_arg = No_Params | One_Params params | Many_Params "params option list"

definition expand_params :: "nat \<Rightarrow> sampling_arg \<Rightarrow> params option list" where
  "expand_params batch_size a =
     (case a of No_Params \<Rightarrow> replicate batch_size None | One_Params p \<Rightarrow> replicate batch_size (Some p)
      | Many_Params ps \<Rightarrow> ps)"

definition stop_on_eos_batch :: "bool \<Rightarrow> nat \<Rightarrow> sampling_arg \<Rightarrow> bool list" where
  "stop_on_eos_batch early_stop batch_size a =
     map (\<lambda>p. case p of None \<Rightarrow> early_stop
            | Some ps \<Rightarrow> (case map_of ps ''ignore_eos'' of None \<Rightarrow> early_stop | Some v \<Rightarrow> \<not> py_bool v))
       (expand_params batch_size a)"

definition sampling_batch :: "nemo_config \<Rightarrow> nat \<Rightarrow> sampling_arg \<Rightarrow> 'g nemo_sampling list result" where
  "sampling_batch c batch_size a =
     (let ps = expand_params batch_size a
      in if length ps \<noteq> batch_size then Inl (ValueError ''sampling_params must contain one entry per request'')
         else result_map (make_sampling c) ps)"

text \<open>The sampling object that a request keeps across its calls, made at its first one.\<close>

definition sampling_for_request ::
  "nemo_config \<Rightarrow> string \<Rightarrow> params \<Rightarrow> (string, 'g nemo_sampling) pydict
    \<Rightarrow> ('g nemo_sampling \<times> (string, 'g nemo_sampling) pydict) result" where
  "sampling_for_request c rid ps table =
     (case map_of table rid of
        Some s \<Rightarrow> Inr (s, table)
      | None \<Rightarrow> result_bind (make_sampling c (Some ps)) (\<lambda>s. Inr (s, dict_set rid s table)))"

text \<open>\<open>one\<close> is the \<open>_generate_one\<close> of the class: the rows are generated one after the other.\<close>

definition nemo_generate ::
  "(bool \<Rightarrow> 'g nemo_sampling option \<Rightarrow> nat \<Rightarrow> token list \<Rightarrow> nat \<Rightarrow> (token list \<times> 'a \<times> ('v, 'g) nemo_state) result)
    \<Rightarrow> ('g, 'r) nemo_runner_scheme \<Rightarrow> nat \<Rightarrow> nat \<Rightarrow> token list list \<Rightarrow> nat list option \<Rightarrow> int list option
    \<Rightarrow> sampling_arg \<Rightarrow> (token list list \<times> 'a list \<times> nat) result" where
  "nemo_generate one r padded_prompt_len forwards prompts prompt_lengths generation_lengths a =
     (let B = length prompts; mid = nd_mask_id (nr_decoder r)
      in result_bind (sampling_batch (nr_config r) B a) (\<lambda>sampling.
         let stop = stop_on_eos_batch (nc_early_stop (nr_config r)) B a;
             pls = (case prompt_lengths of None \<Rightarrow> map (\<lambda>p. length (filter (\<lambda>t. t \<noteq> mid) p)) prompts | Some ls \<Rightarrow> ls);
             gls = (case generation_lengths of None \<Rightarrow> replicate B (nc_gen_length (nr_config r)) | Some ls \<Rightarrow> ls)
         in if length pls \<noteq> B then Inl (ValueError ''prompt_lengths must contain one value per batch row'')
            else if length gls \<noteq> B then Inl (ValueError ''generation_lengths must contain one value per batch row'')
            else if list_ex (\<lambda>v. v < 0) gls then Inl (ValueError ''generation_lengths must be non-negative'')
            else
              let padded_gen = nat (fold max gls 0)
              in result_fold (\<lambda>i (rows, stats, n).
                   let prompt = take (pls ! i) (prompts ! i)
                   in result_bind (one (stop ! i) (Some (sampling ! i)) n prompt (nat (gls ! i))) (\<lambda>(generated, s, st).
                      result_bind (output_row mid padded_prompt_len padded_gen (pls ! i) prompt generated) (\<lambda>row.
                      Inr (rows @ [row], stats @ [s], nst_forwards st))))
                 [0..<B] ([], [], forwards)))"

definition diffusion_generate ::
  "(flt list \<Rightarrow> rat list) \<Rightarrow> 'g torch_rng \<Rightarrow> 'v nemo_fwd \<Rightarrow> 'v \<Rightarrow> 'g nemo_runner \<Rightarrow> nat \<Rightarrow> nat
    \<Rightarrow> token list list \<Rightarrow> nat list option \<Rightarrow> int list option \<Rightarrow> sampling_arg
    \<Rightarrow> (token list list \<times> block_stats list \<times> nat) result" where
  "diffusion_generate sm R fwd zero r = nemo_generate (generate_one sm R fwd zero r) r"

definition spec_generate ::
  "(flt list \<Rightarrow> rat list) \<Rightarrow> 'g torch_rng \<Rightarrow> 'v nemo_fwd \<Rightarrow> 'v \<Rightarrow> bool \<Rightarrow> 'g spec_runner \<Rightarrow> nat \<Rightarrow> nat
    \<Rightarrow> token list list \<Rightarrow> nat list option \<Rightarrow> int list option \<Rightarrow> sampling_arg
    \<Rightarrow> (token list list \<times> spec_stats list \<times> nat) result" where
  "spec_generate sm R fwd zero allow_batching r padded_prompt_len forwards prompts pls gls a =
     (if length prompts \<noteq> 1 \<and> \<not> allow_batching
      then Inl (ValueError ''Nemotron self-speculation runs one request at a time'')
      else nemo_generate (spec_generate_one sm R fwd zero r) r padded_prompt_len forwards prompts pls gls a)"

end
