(* ===== verification/Nemotron_Correct.thy ===== *)
theory Nemotron_Correct
  imports Nemotron_Runner
begin

text \<open>
  Correctness of the dense Nemotron runners.  The model is assumed to be a causal language model
  with a key-value cache: \<open>lg ts\<close> are the logits after the tokens \<open>ts\<close> and \<open>cell ts\<close> what the cache
  keeps for the last of them; a causal forward over cached cells returns both.  Nothing is assumed
  of the bidirectional denoising forwards but the shape of their logits.
\<close>

section \<open>The model\<close>

definition causal_model :: "'v nemo_fwd \<Rightarrow> (token list \<Rightarrow> flt list) \<Rightarrow> (token list \<Rightarrow> 'v) \<Rightarrow> bool" where
  "causal_model fwd lg cell =
     (\<forall>ts b past. b \<noteq> [] \<and> length past = length ts + length b \<and> take (length ts) past = cells cell ts \<longrightarrow>
        (let (logits, present) = fwd False b [length ts..<length ts + length b] past (causal_mask (length b) (length ts))
         in logits = map (\<lambda>i. lg (ts @ take (Suc i) b)) [0..<length b]
            \<and> length present = length past \<and> drop (length ts) present = drop (length ts) (cells cell (ts @ b))))"

definition model_shape :: "'v nemo_fwd \<Rightarrow> bool" where
  "model_shape fwd = (\<forall>ad ids pos past msk. length (fst (fwd ad ids pos past msk)) = length ids)"

text \<open>No candidate that the decoder draws from the model's logits is the mask token.\<close>

definition resolves ::
  "(flt list \<Rightarrow> rat list) \<Rightarrow> 'g torch_rng \<Rightarrow> 'v nemo_fwd \<Rightarrow> 'g nemo_decoder \<Rightarrow> bool" where
  "resolves sm R fwd D =
     (\<forall>so ad ids pos past msk i. i < length ids \<longrightarrow>
        fst (predict sm R D so (fst (fwd ad ids pos past msk))) ! i \<noteq> nd_mask_id D)"

section \<open>Causal forwards\<close>

lemma causal_forward_ok:
  assumes M: "causal_model fwd lg cell" and b: "b \<noteq> []"
    and len: "length ts + length b \<le> length (nst_cache st)" and pre: "take (length ts) (nst_cache st) = cells cell ts"
  obtains st' where "causal_forward fwd b (length ts) st = Inr (map (\<lambda>i. lg (ts @ take (Suc i) b)) [0..<length b], st')"
    and "length (nst_cache st') = length (nst_cache st)"
    and "take (length ts + length b) (nst_cache st') = cells cell (ts @ b)"
    and "nst_sampling st' = nst_sampling st" and "nst_forwards st' = nst_forwards st + 1"
proof -
  let ?p = "length ts" and ?e = "length ts + length b" and ?past = "take (length ts + length b) (nst_cache st)"
  obtain present where f: "fwd False b [?p..<?e] ?past (causal_mask (length b) ?p)
        = (map (\<lambda>i. lg (ts @ take (Suc i) b)) [0..<length b], present)"
      and lp: "length present = ?e" and dp: "drop ?p present = drop ?p (cells cell (ts @ b))"
    using M [unfolded causal_model_def, rule_format, of b ?past ts] b len pre
    by (auto simp: Let_def split: prod.splits)
  define cache where "cache = take ?p (nst_cache st) @ slice ?p ?e present @ drop ?e (nst_cache st)"
  have sl: "slice ?p ?e present = drop ?p (cells cell (ts @ b))"
    using lp dp by (simp add: slice_def)
  have "take ?e cache = take ?p (nst_cache st) @ drop ?p (cells cell (ts @ b))"
    using len by (simp add: cache_def sl)
  also have "\<dots> = take ?p (cells cell (ts @ b)) @ drop ?p (cells cell (ts @ b))" using pre by simp
  finally have tk: "take ?e cache = cells cell (ts @ b)" by (simp only: append_take_drop_id)
  have lc: "length cache = length (nst_cache st)" using len lp by (simp add: cache_def)
  have "causal_forward fwd b ?p st = Inr (map (\<lambda>i. lg (ts @ take (Suc i) b)) [0..<length b],
      st\<lparr>nst_cache := cache, nst_forwards := nst_forwards st + 1\<rparr>)"
    using lp len by (simp add: causal_forward_def Let_def f commit_kv_def cache_def)
  then show ?thesis by (rule that) (use lc tk in simp_all)
qed

text \<open>Chunked prefill leaves the cells of the whole prompt and the logits after its last token.\<close>

lemma prefill_fold:
  assumes M: "causal_model fwd lg cell" and chunk: "0 < chunk"
    and len: "length prompt \<le> length (nst_cache st)"
  shows "k * chunk < length prompt + chunk \<Longrightarrow>
    \<exists>logits st'. result_fold (prefill_chunk fwd chunk prompt) (map (\<lambda>j. j * chunk) [0..<k]) ([], 0, st) = Inr (logits, k, st')
      \<and> length (nst_cache st') = length (nst_cache st)
      \<and> take (min (length prompt) (k * chunk)) (nst_cache st') = cells cell (take (k * chunk) prompt)
      \<and> nst_sampling st' = nst_sampling st \<and> nst_forwards st' = nst_forwards st + k
      \<and> (0 < k \<longrightarrow> logits \<noteq> [] \<and> last logits = lg (take (k * chunk) prompt))"
proof (induction k)
  case 0
  then show ?case by simp
next
  case (Suc k)
  let ?s = "k * chunk" and ?e = "min (length prompt) (k * chunk + chunk)"
  have s: "?s < length prompt" using Suc.prems by simp
  obtain logits st' where st': "result_fold (prefill_chunk fwd chunk prompt) (map (\<lambda>j. j * chunk) [0..<k]) ([], 0, st) = Inr (logits, k, st')"
    and lc: "length (nst_cache st') = length (nst_cache st)"
    and tk: "take ?s (nst_cache st') = cells cell (take ?s prompt)"
    and sa: "nst_sampling st' = nst_sampling st" and fw: "nst_forwards st' = nst_forwards st + k"
    using Suc.IH s by (auto simp: min_def)
  define b where "b = slice ?s ?e prompt"
  have lb: "length b = ?e - ?s" by (simp add: b_def)
  have ne: "b \<noteq> []" using lb s chunk by (metis list.size(3) less_irrefl min_less_iff_conj less_add_same_cancel1 zero_less_diff)
  have lts: "length (take ?s prompt) = ?s" using s by simp
  have app: "take ?s prompt @ b = take (Suc k * chunk) prompt"
  proof -
    have "b = take chunk (drop ?s prompt)" using s by (auto simp: b_def slice_def min_def)
    then show ?thesis by (metis add.commute mult_Suc take_add)
  qed
  have end_eq: "?s + length b = ?e" using lb s by simp
  obtain st2 where f: "causal_forward fwd b ?s st' = Inr (map (\<lambda>i. lg (take ?s prompt @ take (Suc i) b)) [0..<length b], st2)"
    and st2: "length (nst_cache st2) = length (nst_cache st')"
      "take ?e (nst_cache st2) = cells cell (take ?s prompt @ b)"
      "nst_sampling st2 = nst_sampling st'" "nst_forwards st2 = nst_forwards st' + 1"
  proof (rule causal_forward_ok [OF M ne, of "take ?s prompt" st', unfolded lts end_eq])
    show "?e \<le> length (nst_cache st')" using lc len by simp
  qed (use tk in auto)
  have "last (map (\<lambda>i. lg (take ?s prompt @ take (Suc i) b)) [0..<length b]) = lg (take ?s prompt @ b)"
    using ne by (cases b rule: rev_cases) (simp_all)
  moreover have "prefill_chunk fwd chunk prompt ?s (logits, k, st')
      = Inr (map (\<lambda>i. lg (take ?s prompt @ take (Suc i) b)) [0..<length b], k + 1, st2)"
    using f by (simp add: prefill_chunk_def Let_def b_def)
  ultimately show ?case
    using st' st2 lc sa fw ne app by (simp add: result_fold_append add.commute)
qed
lemma prefill_ok:
  assumes M: "causal_model fwd lg cell" and chunk: "0 < chunk_size" and ne: "prompt \<noteq> []"
    and len: "length prompt \<le> length (nst_cache st)"
  obtains logits n st' where "nemo_prefill fwd chunk_size prompt st = Inr (logits, n, st')"
    and "logits \<noteq> []" and "last logits = lg prompt"
    and "length (nst_cache st') = length (nst_cache st)"
    and "take (length prompt) (nst_cache st') = cells cell prompt"
    and "nst_sampling st' = nst_sampling st" and "nst_forwards st' = nst_forwards st + n"
proof -
  let ?c = "nat chunk_size" and ?k = "ceil_div (length prompt) (nat chunk_size)"
  have c: "0 < ?c" and l: "0 < length prompt" using chunk ne by simp_all
  have k: "0 < ?k" using ceil_div_pos [OF c l] by simp
  have cover: "length prompt \<le> ?k * ?c" by (rule ceil_div_le [OF c])
  have below: "?k * ?c < length prompt + ?c"
    using ceil_div_less [OF c l] k by (cases ?k) simp_all
  obtain logits st' where f: "result_fold (prefill_chunk fwd ?c prompt) (map (\<lambda>j. j * ?c) [0..<?k]) ([], 0, st) = Inr (logits, ?k, st')"
    and r: "length (nst_cache st') = length (nst_cache st)"
      "take (min (length prompt) (?k * ?c)) (nst_cache st') = cells cell (take (?k * ?c) prompt)"
      "nst_sampling st' = nst_sampling st" "nst_forwards st' = nst_forwards st + ?k"
      "logits \<noteq> []" "last logits = lg (take (?k * ?c) prompt)"
    using prefill_fold [OF M c len below] k by auto
  show ?thesis
    by (rule that [of logits ?k st'])
      (use f r chunk ne cover in \<open>simp_all add: nemo_prefill_def Let_def min_absorb1\<close>)
qed

section \<open>Denoising and drafting\<close>

definition greedy_request :: "'g nemo_sampling option \<Rightarrow> bool" where
  "greedy_request so = (case so of None \<Rightarrow> True | Some s \<Rightarrow> ns_temperature s = 0)"

lemma predict_greedy:
  "ns_temperature s = 0 \<Longrightarrow> predict sm R D (Some s) logits = (greedy logits, s)"
  by (simp add: predict_def resolve_sampling_def categorical_def diffusion_def)

lemma sample_greedy: "greedy_request so \<Longrightarrow> sample_tokens sm R so logits = (greedy logits, so)"
  by (simp add: greedy_request_def sample_tokens_def categorical_def split: option.splits)

lemma step_block_ok:
  assumes sh: "model_shape fwd" and res: "resolves sm R fwd D" and al: "nd_allow_mask_prediction D"
    and m: "nd_mask_id D \<in> set block"
  obtains block' st' where "step_block sm R fwd ad D p block st = Inr (block', st')"
    and "length block' = length block" and "nst_cache st' = nst_cache st"
    and "nst_forwards st' = nst_forwards st + 1"
    and "mask_count (nd_mask_id D) block' < mask_count (nd_mask_id D) block"
    and "\<And>i. i < length block \<Longrightarrow> block ! i \<noteq> nd_mask_id D \<Longrightarrow> block' ! i = block ! i"
    and "greedy_request (nst_sampling st) \<Longrightarrow> nst_sampling st' = nst_sampling st"
proof -
  let ?lg = "fst (fwd ad block [p..<p + length block] (take (p + length block) (nst_cache st)) (bidirectional_mask (length block) p))"
  have l: "length ?lg = length block" using sh by (simp add: model_shape_def)
  have ne: "block \<noteq> []" using m by auto
  obtain y where y: "nemo_step sm R D (nst_sampling st) ?lg block = Inr (y, snd (predict sm R D (nst_sampling st) ?lg))"
    and ly: "length y = length block"
    and keep: "\<And>i. i < length block \<Longrightarrow> block ! i \<noteq> nd_mask_id D \<Longrightarrow> y ! i = block ! i"
    and prog: "nd_mask_id D \<in> set block \<Longrightarrow>
      (\<And>i. i < length block \<Longrightarrow> fst (predict sm R D (nst_sampling st) ?lg) ! i \<noteq> nd_mask_id D) \<Longrightarrow>
      mask_count (nd_mask_id D) y < mask_count (nd_mask_id D) block"
    using nemo_step_facts [OF l ne al, of sm R "nst_sampling st"] by metis
  define st' where "st' = st\<lparr>nst_forwards := nst_forwards st + 1,
    nst_sampling := map_option (\<lambda>_. snd (predict sm R D (nst_sampling st) ?lg)) (nst_sampling st)\<rparr>"
  have eq: "step_block sm R fwd ad D p block st = Inr (y, st')"
    using y by (simp add: step_block_def nemo_denoise_def Let_def st'_def)
  have "nst_sampling st' = nst_sampling st" if "greedy_request (nst_sampling st)"
    using that by (cases "nst_sampling st") (simp_all add: st'_def greedy_request_def predict_greedy)
  moreover have "mask_count (nd_mask_id D) y < mask_count (nd_mask_id D) block"
    by (rule prog [OF m]) (use res in \<open>simp add: resolves_def\<close>)
  ultimately show ?thesis
    by (intro that [OF eq ly _ _ _ keep]) (simp_all add: st'_def)
qed

lemma draft_loop_ok:
  assumes sh: "model_shape fwd" and res: "resolves sm R fwd D" and al: "nd_allow_mask_prediction D"
  shows "mask_count (nd_mask_id D) block \<le> k \<Longrightarrow>
    \<exists>n block' st'. draft_loop sm R fwd ad D p k calls block st = Inr (calls + n, block', st')
      \<and> n \<le> mask_count (nd_mask_id D) block
      \<and> length block' = length block \<and> nd_mask_id D \<notin> set block' \<and> nst_cache st' = nst_cache st
      \<and> nst_forwards st' = nst_forwards st + n
      \<and> (\<forall>i < length block. block ! i \<noteq> nd_mask_id D \<longrightarrow> block' ! i = block ! i)
      \<and> (greedy_request (nst_sampling st) \<longrightarrow> nst_sampling st' = nst_sampling st)"
proof (induction k arbitrary: calls block st)
  case 0
  then show ?case using mask_count_zero [of "nd_mask_id D" block] by simp
next
  case (Suc k)
  show ?case
  proof (cases "nd_mask_id D \<in> set block")
    case False
    then show ?thesis by (simp add: has_masks_iff)
  next
    case True
    obtain b1 s1 where s: "step_block sm R fwd ad D p block st = Inr (b1, s1)"
      and b1: "length b1 = length block" "nst_cache s1 = nst_cache st" "nst_forwards s1 = nst_forwards st + 1"
        "mask_count (nd_mask_id D) b1 < mask_count (nd_mask_id D) block"
      and keep: "\<And>i. i < length block \<Longrightarrow> block ! i \<noteq> nd_mask_id D \<Longrightarrow> b1 ! i = block ! i"
      and gr: "greedy_request (nst_sampling st) \<Longrightarrow> nst_sampling s1 = nst_sampling st"
      using step_block_ok [OF sh res al True] by metis
    have "mask_count (nd_mask_id D) b1 \<le> k" using b1(4) Suc.prems by simp
    from Suc.IH [OF this, of "calls + 1" s1] obtain n block' st'
      where "draft_loop sm R fwd ad D p k (calls + 1) b1 s1 = Inr (calls + 1 + n, block', st')"
        and "n \<le> mask_count (nd_mask_id D) b1" and "length block' = length b1"
        and "nd_mask_id D \<notin> set block'" and "nst_cache st' = nst_cache s1" and "nst_forwards st' = nst_forwards s1 + n"
        and "\<forall>i < length b1. b1 ! i \<noteq> nd_mask_id D \<longrightarrow> block' ! i = b1 ! i"
        and "greedy_request (nst_sampling s1) \<longrightarrow> nst_sampling st' = nst_sampling s1" by blast
    then show ?thesis using True s b1 keep gr
      by (intro exI [of _ "Suc n"] exI [of _ block'] exI [of _ st']) (simp add: has_masks_iff)
  qed
qed
section \<open>Self-speculation is greedy autoregressive decoding\<close>

text \<open>The reference: one token at a time, each the most likely one after everything before it.\<close>

fun ar_greedy :: "(token list \<Rightarrow> flt list) \<Rightarrow> token list \<Rightarrow> nat \<Rightarrow> token list" where
  "ar_greedy lg ts 0 = []"
| "ar_greedy lg ts (Suc n) = argmax (lg ts) # ar_greedy lg (ts @ [argmax (lg ts)]) n"

lemma length_ar_greedy [simp]: "length (ar_greedy lg ts n) = n"
  by (induction n arbitrary: ts) simp_all

lemma ar_greedy_add: "ar_greedy lg ts (m + n) = ar_greedy lg ts m @ ar_greedy lg (ts @ ar_greedy lg ts m) n"
  by (induction m arbitrary: ts) simp_all

lemma take_ar_greedy: "m \<le> n \<Longrightarrow> take m (ar_greedy lg ts n) = ar_greedy lg ts m"
  using ar_greedy_add [of lg ts m "n - m"] by simp

text \<open>
  What one verify accepts: if the verifier predicts greedily after every prefix of the block, the
  accepted tokens are the autoregressive continuation, and all but the last stand in the block.
\<close>

lemma accept_from_ar:
  assumes "length verified = length b"
    and "\<And>j. j < length b \<Longrightarrow> verified ! j = argmax (lg (ts @ take (Suc j) b))"
  shows "i < length b \<Longrightarrow> accept_from verified b i = ar_greedy lg (ts @ take (Suc i) b) (length (accept_from verified b i))
    \<and> i + length (accept_from verified b i) \<le> length b
    \<and> take (Suc i) b @ butlast (accept_from verified b i) = take (i + length (accept_from verified b i)) b"
  using assms
proof (induction verified b i rule: accept_from.induct)
  case (1 verified b i)
  show ?case
  proof (cases "i < length b - 1 \<and> verified ! i = b ! (i + 1)")
    case True
    let ?r = "accept_from verified b (i + 1)"
    have unf: "accept_from verified b i = verified ! i # ?r" using True by (simp add: accept_from.simps [of verified b i])
    have i1: "i + 1 < length b" using True by linarith
    note IH = 1(1) [OF True i1 1(3,4)]
    have ext: "take (Suc i) b @ [verified ! i] = take (Suc (i + 1)) b"
      using True i1 by (simp add: take_Suc_conv_app_nth)
    have v: "verified ! i = argmax (lg (ts @ take (Suc i) b))" using 1(4) 1(2) by simp
    have e1: "ts @ take (Suc i) b @ [argmax (lg (ts @ take (Suc i) b))] = ts @ take (Suc (i + 1)) b"
      using ext v by simp
    have a: "verified ! i # ?r = ar_greedy lg (ts @ take (Suc i) b) (Suc (length ?r))"
      using IH by (simp add: v [symmetric] e1 [unfolded v [symmetric]])
    have rn: "?r \<noteq> []" by (simp add: accept_from.simps)
    have bl: "take (Suc i) b @ butlast (verified ! i # ?r) = take (Suc (i + 1)) b @ butlast ?r"
      using rn ext by (metis append.assoc append_Cons append_Nil butlast.simps(2))
    show ?thesis unfolding unf bl using a IH by simp
  next
    case False
    then have unf: "accept_from verified b i = [verified ! i]" by (simp add: accept_from.simps)
    show ?thesis unfolding unf using 1(2,4) by simp
  qed
qed

text \<open>Without forced tokens the accepted tokens are the first \<open>accepted_length\<close> verified ones.\<close>

lemma accepted_tokens_unforced:
  assumes "length verified = length drafted" and "drafted \<noteq> []"
  shows "accepted_tokens verified drafted 0 = take (accepted_length verified drafted) verified"
proof -
  have "i < length d \<Longrightarrow> length v = length d \<Longrightarrow> accept_from v d i = take (match_length v d i + 1) (drop i v)" for v d i
  proof (induction v d i rule: accept_from.induct)
    case (1 v d i)
    have d: "drop i v = v ! i # drop (Suc i) v" using 1(2,3) by (simp add: Cons_nth_drop_Suc)
    show ?case
    proof (cases "i < length d - 1 \<and> v ! i = d ! (i + 1)")
      case True
      have IH: "accept_from v d (i + 1) = take (match_length v d (i + 1) + 1) (drop (i + 1) v)"
        by (rule 1(1) [OF True _ 1(3)]) (use True in linarith)
      have "accept_from v d i = v ! i # accept_from v d (i + 1)" "match_length v d i = Suc (match_length v d (i + 1))"
        using True by (simp_all add: accept_from.simps [of v d i] match_length.simps [of v d i])
      then show ?thesis unfolding d using IH by simp
    next
      case False
      then have "accept_from v d i = [v ! i]" "match_length v d i = 0"
        by (auto simp: accept_from.simps [of v d i] match_length.simps [of v d i])
      then show ?thesis unfolding d by simp
    qed
  qed
  then show ?thesis using assms by (simp add: accepted_tokens_def accepted_length_def slice_def)
qed

lemma emit_tokens_eq:
  "emit_tokens stop ts = (case first_index stop ts of None \<Rightarrow> (ts, False) | Some i \<Rightarrow> (take (Suc i) ts, True))"
  by (induction ts) (auto split: option.splits)

text \<open>Cutting after the first end-of-sequence token.\<close>

lemma cut_at_eos_eq:
  "cut_at_eos D es ts = (if es then case first_index (\<lambda>t. t \<in> set (nd_eos_ids D)) ts of
      None \<Rightarrow> ts | Some i \<Rightarrow> take (Suc i) ts else ts)"
proof (cases "first_index (\<lambda>t. t \<in> set (nd_eos_ids D)) ts")
  case (Some i)
  then have "Suc i \<le> length ts" by (simp add: first_index_Some Suc_le_eq)
  with Some show ?thesis by (simp add: cut_at_eos_def first_eos_index_eq)
qed (simp add: cut_at_eos_def first_eos_index_eq)

lemma first_index_append:
  "first_index P (xs @ ys) = (case first_index P xs of Some i \<Rightarrow> Some i
     | None \<Rightarrow> map_option ((+) (length xs)) (first_index P ys))"
  by (induction xs) (cases "first_index P ys"; auto split: option.splits)+

lemma cut_at_eos_prefix:
  assumes "cut_at_eos D es xs = xs" and "es" and "xs \<noteq> []" and "last xs \<in> set (nd_eos_ids D)"
  shows "cut_at_eos D es (xs @ ys) = xs"
proof (cases "first_index (\<lambda>t. t \<in> set (nd_eos_ids D)) xs")
  case None
  then show ?thesis using assms(3,4) by (auto simp: first_index_None)
next
  case (Some i)
  then have "Suc i - length xs = 0" by (simp add: first_index_Some Suc_le_eq)
  moreover have "take (Suc i) xs = xs" using Some assms(1,2) by (simp add: cut_at_eos_eq)
  ultimately show ?thesis using Some assms(2) by (simp add: cut_at_eos_eq first_index_append)
qed

text \<open>
  The invariant of the speculative loop: the emitted tokens are the autoregressive ones, an
  end-of-sequence token is the last of them, and, while the loop goes on, the cache holds the cells
  of the prompt and of all emitted tokens but the last, which is the next seed.
\<close>

definition spec_inv ::
  "(token list \<Rightarrow> flt list) \<Rightarrow> (token list \<Rightarrow> 'v) \<Rightarrow> token list \<Rightarrow> nat \<Rightarrow> nat \<Rightarrow> 'g spec_runner \<Rightarrow> bool
    \<Rightarrow> ('v, 'g) spec_loop_state \<Rightarrow> bool" where
  "spec_inv lg cell prompt total_length f0 r es ls =
     (let em = sl_emitted ls; D = nr_decoder r in
      em \<noteq> [] \<and> em = ar_greedy lg prompt (length em) \<and> cut_at_eos D es em = em
      \<and> sl_terminal ls = (es \<and> last em \<in> set (nd_eos_ids D))
      \<and> \<not> sl_force_marker ls \<and> greedy_request (nst_sampling (sl_state ls))
      \<and> length (nst_cache (sl_state ls)) = total_length
      \<and> nst_forwards (sl_state ls) = f0 + ss_total_calls (sl_stats ls)
      \<and> ss_verify_calls (sl_stats ls) = ss_iterations (sl_stats ls)
      \<and> (\<not> sl_terminal ls \<longrightarrow> sl_next_token ls = last em
           \<and> sl_prefix_len ls = length prompt + (length em - 1)
           \<and> take (sl_prefix_len ls) (nst_cache (sl_state ls)) = cells cell (prompt @ butlast em)))"
text \<open>What the equality needs of the runner and of the model.\<close>

definition spec_ready ::
  "(flt list \<Rightarrow> rat list) \<Rightarrow> 'g torch_rng \<Rightarrow> 'v nemo_fwd \<Rightarrow> (token list \<Rightarrow> flt list) \<Rightarrow> (token list \<Rightarrow> 'v)
    \<Rightarrow> 'g spec_runner \<Rightarrow> bool" where
  "spec_ready sm R fwd lg cell r =
     (causal_model fwd lg cell \<and> model_shape fwd \<and> resolves sm R fwd (sr_draft_decoder r)
      \<and> (\<forall>ts. argmax (lg ts) \<noteq> nd_mask_id (nr_decoder r))
      \<and> nd_allow_mask_prediction (sr_draft_decoder r)
      \<and> nd_mask_id (sr_draft_decoder r) = nd_mask_id (nr_decoder r)
      \<and> \<not> tb_enabled (nr_budget r)
      \<and> 0 < nr_block_length r \<and> nr_block_length r - 1 \<le> nr_max_denoise_steps r)"

lemma mask_count_seeded: "t \<noteq> mid \<Longrightarrow> mask_count mid (t # replicate n mid) = n"
proof -
  assume t: "t \<noteq> mid"
  have "is_mask mid (t # replicate n mid) = False # replicate n True"
    by (rule nth_equalityI) (auto simp: t nth_Cons split: nat.splits)
  then show ?thesis by (simp add: mask_count_def tsum_def)
qed

lemma draft_verify_ok:
  assumes rdy: "spec_ready sm R fwd lg cell r" and seed: "t \<noteq> nd_mask_id (nr_decoder r)"
    and gr: "greedy_request (nst_sampling st)"
    and room: "length ts + nr_block_length r \<le> length (nst_cache st)"
    and pre: "take (length ts) (nst_cache st) = cells cell ts"
  obtains n b st' where "draft_verify sm R fwd r (length ts) (t # replicate (nr_block_length r - 1) (nd_mask_id (nr_decoder r))) st
      = Inr (n, b, map (\<lambda>i. argmax (lg (ts @ take (Suc i) b))) [0..<nr_block_length r], st')"
    and "length b = nr_block_length r" and "b ! 0 = t"
    and "length (nst_cache st') = length (nst_cache st)"
    and "take (length ts + nr_block_length r) (nst_cache st') = cells cell (ts @ b)"
    and "nst_sampling st' = nst_sampling st" and "nst_forwards st' = nst_forwards st + n + 1"
proof -
  let ?L = "nr_block_length r" and ?mid = "nd_mask_id (nr_decoder r)" and ?D = "sr_draft_decoder r"
  let ?blk = "t # replicate (?L - 1) ?mid"
  note R = rdy [unfolded spec_ready_def]
  have L: "0 < ?L" and mid: "nd_mask_id ?D = ?mid" and st: "?L - 1 \<le> nr_max_denoise_steps r" using R by auto
  have "mask_count (nd_mask_id ?D) ?blk \<le> nr_max_denoise_steps r"
    unfolding mid mask_count_seeded [OF seed] by (rule st)
  then obtain n b st1 where d: "draft_loop sm R fwd (sr_lora r) ?D (length ts) (nr_max_denoise_steps r) 0 ?blk st = Inr (0 + n, b, st1)"
    and b: "length b = length ?blk" "?mid \<notin> set b" and s1: "nst_cache st1 = nst_cache st"
      "nst_forwards st1 = nst_forwards st + n" "nst_sampling st1 = nst_sampling st"
    and keep: "\<forall>i < length ?blk. ?blk ! i \<noteq> ?mid \<longrightarrow> b ! i = ?blk ! i"
    using draft_loop_ok [of fwd sm R ?D ?blk "nr_max_denoise_steps r" "sr_lora r" "length ts" 0 st] R gr
    unfolding mid by blast
  have lb: "length b = ?L" using b(1) L by simp
  have b0: "b ! 0 = t" using keep seed by auto
  have db: "draft_block sm R fwd r (length ts) ?blk st = Inr (n, b, st1)"
    using d b(2) by (simp add: draft_block_def has_masks_iff mid)
  have ne: "b \<noteq> []" using lb L by auto
  obtain st2 where c: "causal_forward fwd b (length ts) st1 = Inr (map (\<lambda>i. lg (ts @ take (Suc i) b)) [0..<length b], st2)"
    and s2: "length (nst_cache st2) = length (nst_cache st1)"
      "take (length ts + length b) (nst_cache st2) = cells cell (ts @ b)"
      "nst_sampling st2 = nst_sampling st1" "nst_forwards st2 = nst_forwards st1 + 1"
    using causal_forward_ok [of fwd lg cell b ts st1] R ne room pre lb s1 by (metis (no_types, lifting))
  have "draft_verify sm R fwd r (length ts) ?blk st
      = Inr (n, b, map (\<lambda>i. argmax (lg (ts @ take (Suc i) b))) [0..<?L], st2)"
  proof -
    have gr2: "greedy_request (nst_sampling st2)" using gr s2(3) s1(3) by simp
    have "st2\<lparr>nst_sampling := nst_sampling st2\<rparr> = st2" by simp
    then show ?thesis
      unfolding draft_verify_def db result_bind_simps prod.case nemo_commit_def c sample_greedy [OF gr2] Let_def
      by (simp add: greedy_def comp_def lb)
  qed
  then show ?thesis by (rule that) (use lb b0 s1 s2 in simp_all)
qed

lemma cut_no_eos:
  assumes "cut_at_eos D es xs = xs" and "es" and "xs \<noteq> []" and "last xs \<notin> set (nd_eos_ids D)"
  shows "first_index (\<lambda>t. t \<in> set (nd_eos_ids D)) xs = None"
proof (rule ccontr)
  assume "first_index (\<lambda>t. t \<in> set (nd_eos_ids D)) xs \<noteq> None"
  then obtain i where i: "first_index (\<lambda>t. t \<in> set (nd_eos_ids D)) xs = Some i" by blast
  then have "take (Suc i) xs = xs" using assms(1,2) by (simp add: cut_at_eos_eq)
  moreover have "i < length xs" "xs ! i \<in> set (nd_eos_ids D)" using i by (auto simp: first_index_Some)
  ultimately have "last xs = xs ! i" using assms(3) by (metis last_snoc take_Suc_conv_app_nth)
  with \<open>xs ! i \<in> set (nd_eos_ids D)\<close> assms(4) show False by simp
qed

text \<open>The tokens emitted after an accepted continuation.\<close>

lemma emit_continuation:
  fixes es D
  defines "stop \<equiv> \<lambda>t. es \<and> t \<in> set (nd_eos_ids D)"
  assumes em: "em \<noteq> []" "em = ar_greedy lg prompt (length em)" "cut_at_eos D es em = em"
    and go: "\<not> (es \<and> last em \<in> set (nd_eos_ids D))"
    and tk: "tokens \<noteq> []" "tokens = ar_greedy lg (prompt @ em) (length tokens)"
    and out: "emit_tokens stop tokens = (out, term)"
  shows "em @ out = ar_greedy lg prompt (length (em @ out))" and "cut_at_eos D es (em @ out) = em @ out"
    and "term = (es \<and> last (em @ out) \<in> set (nd_eos_ids D))" and "\<not> term \<Longrightarrow> out = tokens"
proof -
  have sub: "em @ take k tokens = ar_greedy lg prompt (length (em @ take k tokens))" for k
  proof -
    have "take k tokens = ar_greedy lg (prompt @ em) (min k (length tokens))"
      using tk(2) by (metis min.cobounded2 take_ar_greedy take_all_iff min_def nle_le)
    then show ?thesis using em(2) ar_greedy_add [of lg prompt "length em" "length (take k tokens)"]
      by (metis length_append length_take min.commute)
  qed
  have none: "first_index stop em = None"
    using cut_no_eos [OF em(3) _ em(1)] go by (cases es) (simp_all add: stop_def first_index_None)
  have cutS: "cut_at_eos D es ts = (case first_index stop ts of None \<Rightarrow> ts | Some i \<Rightarrow> take (Suc i) ts)" for ts
  proof (cases es)
    case False
    then have "first_index stop ts = None" by (simp add: stop_def first_index_None)
    then show ?thesis using False by (simp add: cut_at_eos_eq)
  qed (simp add: cut_at_eos_eq stop_def)
  show "em @ out = ar_greedy lg prompt (length (em @ out))"
    using out sub [of "length tokens"] sub by (auto simp: emit_tokens_eq split: option.splits)
  have "cut_at_eos D es (em @ out) = em @ out \<and> term = (es \<and> last (em @ out) \<in> set (nd_eos_ids D))
      \<and> (\<not> term \<longrightarrow> out = tokens)"
  proof (cases "first_index stop tokens")
    case None
    then have o: "out = tokens" "\<not> term" using out by (auto simp: emit_tokens_eq)
    have "\<not> stop (last tokens)" using None tk(1) by (auto simp: first_index_None)
    then show ?thesis using o tk(1) by (simp add: stop_def cutS [unfolded stop_def] first_index_append
          none [unfolded stop_def] None [unfolded stop_def])
  next
    case (Some i)
    have o: "out = take (Suc i) tokens" "term" using out Some by (auto simp: emit_tokens_eq)
    have i: "i < length tokens" "stop (tokens ! i)" "\<forall>j < i. \<not> stop (tokens ! j)"
      using Some by (auto simp: first_index_Some)
    have lo: "length out = Suc i" using o(1) i(1) by simp
    have f: "first_index stop out = Some i" using i by (simp add: first_index_Some o(1))
    have "cut_at_eos D es (em @ out) = em @ out"
      using lo by (simp add: cutS first_index_append none f)
    moreover have "last (em @ out) = tokens ! i" using o(1) i(1) by (simp add: take_Suc_conv_app_nth)
    ultimately show ?thesis using o(2) i(2) by (simp add: stop_def)
  qed
  then show "cut_at_eos D es (em @ out) = em @ out" and "term = (es \<and> last (em @ out) \<in> set (nd_eos_ids D))"
    and "\<not> term \<Longrightarrow> out = tokens" by blast+
qed

lemma spec_iter_ok:
  assumes rdy: "spec_ready sm R fwd lg cell r" and inv: "spec_inv lg cell prompt T f0 r es ls"
    and go: "\<not> sl_terminal ls" and room: "length prompt + length (sl_emitted ls) + nr_block_length r \<le> T"
  shows "\<exists>ls'. spec_iter sm R fwd r es gen ls = Inr ls' \<and> spec_inv lg cell prompt T f0 r es ls'"
proof -
  let ?em = "sl_emitted ls" and ?D = "nr_decoder r" and ?L = "nr_block_length r" and ?st = "sl_state ls"
  define ts where "ts = prompt @ butlast ?em"
  note I = inv [unfolded spec_inv_def Let_def]
  have ne: "?em \<noteq> []" and ar: "?em = ar_greedy lg prompt (length ?em)" and cut: "cut_at_eos ?D es ?em = ?em"
    and last: "\<not> (es \<and> last ?em \<in> set (nd_eos_ids ?D))" and nf: "\<not> sl_force_marker ls"
    and gr: "greedy_request (nst_sampling ?st)" and T: "length (nst_cache ?st) = T"
    and fw: "nst_forwards ?st = f0 + ss_total_calls (sl_stats ls)"
    and vi: "ss_verify_calls (sl_stats ls) = ss_iterations (sl_stats ls)"
    and nx: "sl_next_token ls = last ?em" and px: "sl_prefix_len ls = length ts"
    and pre: "take (length ts) (nst_cache ?st) = cells cell ts"
    using I go by (auto simp: ts_def)
  have nm: "last ?em \<noteq> nd_mask_id ?D"
  proof -
    have "length ?em = Suc (length ?em - 1)" using ne by (cases ?em) simp_all
    then have "?em = ar_greedy lg prompt (length ?em - 1) @ [argmax (lg (prompt @ ar_greedy lg prompt (length ?em - 1)))]"
      using ar ar_greedy_add [of lg prompt "length ?em - 1" 1] by simp
    then have "last ?em = argmax (lg (prompt @ ar_greedy lg prompt (length ?em - 1)))" by (metis last_snoc)
    then show ?thesis using rdy by (simp add: spec_ready_def)
  qed
  have L: "0 < ?L" and off: "\<not> tb_enabled (nr_budget r)" using rdy by (simp_all add: spec_ready_def)
  have rm: "length ts + ?L \<le> length (nst_cache ?st)" using room T by (simp add: ts_def)
  obtain n b st' where dv: "draft_verify sm R fwd r (length ts) (last ?em # replicate (?L - 1) (nd_mask_id ?D)) ?st
      = Inr (n, b, map (\<lambda>i. argmax (lg (ts @ take (Suc i) b))) [0..<?L], st')"
    and b: "length b = ?L" "b ! 0 = last ?em" and s': "length (nst_cache st') = length (nst_cache ?st)"
      "take (length ts + ?L) (nst_cache st') = cells cell (ts @ b)" "nst_sampling st' = nst_sampling ?st"
      "nst_forwards st' = nst_forwards ?st + n + 1"
    by (rule draft_verify_ok [OF rdy nm gr rm pre])
  let ?v = "map (\<lambda>i. argmax (lg (ts @ take (Suc i) b))) [0..<?L]"
  define tokens where "tokens = accept_from ?v b 0"
  have at: "accepted_tokens ?v b 0 = tokens" by (simp add: accepted_tokens_def tokens_def slice_def)
  have t1: "take (Suc 0) b = [last ?em]" using b L by (cases b) simp_all
  have base: "ts @ [last ?em] = prompt @ ?em" using ne by (simp add: ts_def)
  have acc: "tokens = ar_greedy lg (prompt @ ?em) (length tokens)" "length tokens \<le> ?L"
      "last ?em # butlast tokens = take (length tokens) b"
    using accept_from_ar [of ?v b lg ts 0] b L unfolding t1 base tokens_def [symmetric] by simp_all
  have tne: "tokens \<noteq> []" unfolding at [symmetric] by (rule accepted_tokens_nonempty)
  obtain out tm where em: "emit_tokens (\<lambda>t. es \<and> t \<in> set (nd_eos_ids ?D)) tokens = (out, tm)" by fastforce
  note ec = emit_continuation [OF ne ar cut last tne acc(1) em]
  define ls' where "ls' = spec_advance r es gen ls n tokens st'"
  have adv: "sl_emitted ls' = ?em @ out" "sl_terminal ls' = tm" "sl_state ls' = st'"
      "sl_next_token ls' = last tokens" "sl_prefix_len ls' = sl_prefix_len ls + length tokens"
    by (simp_all add: ls'_def spec_advance_def em Let_def)
  have it: "spec_iter sm R fwd r es gen ls = Inr ls'"
    using L nf dv unfolding spec_iter_def spec_block_def Let_def nx px ls'_def
    by (simp add: at)
  have cache: "take (length ts + length tokens) (nst_cache st') = cells cell (prompt @ butlast (?em @ tokens))"
  proof -
    have "take (length ts + length tokens) (nst_cache st')
        = take (length ts + length tokens) (take (length ts + ?L) (nst_cache st'))"
      using acc(2) by (simp add: min_absorb1)
    also have "\<dots> = cells cell (ts @ take (length tokens) b)" unfolding s'(2) by simp
    also have "ts @ take (length tokens) b = prompt @ butlast (?em @ tokens)"
      using base tne unfolding acc(3) [symmetric] by (simp add: butlast_append)
    finally show ?thesis .
  qed
  have "spec_inv lg cell prompt T f0 r es ls'"
    unfolding spec_inv_def Let_def adv(1-3)
  proof (intro conjI impI)
    show "?em @ out \<noteq> []" using ne by simp
    show "?em @ out = ar_greedy lg prompt (length (?em @ out))" "cut_at_eos ?D es (?em @ out) = ?em @ out"
      "tm = (es \<and> last (?em @ out) \<in> set (nd_eos_ids ?D))" by (rule ec)+
    show "\<not> sl_force_marker ls'" using nf off
      by (simp add: ls'_def spec_advance_def em Let_def marker_due_def force_next_token_def)
    show "greedy_request (nst_sampling st')" "length (nst_cache st') = T" using gr s' T by simp_all
    show "nst_forwards st' = f0 + ss_total_calls (sl_stats ls')" "ss_verify_calls (sl_stats ls') = ss_iterations (sl_stats ls')"
      using s'(4) fw vi by (simp_all add: ls'_def spec_advance_def em Let_def ss_total_calls_def)
    assume "\<not> tm"
    then have out: "out = tokens" by (rule ec(4))
    show "sl_next_token ls' = last (?em @ out)" using tne by (simp add: adv out)
    show "sl_prefix_len ls' = length prompt + (length (?em @ out) - 1)"
      using ne tne by (simp add: adv out px ts_def) (cases tokens; cases ?em; simp)
    show "take (sl_prefix_len ls') (nst_cache st') = cells cell (prompt @ butlast (?em @ out))"
      using cache by (simp add: adv out px)
  qed
  with it show ?thesis by blast
qed

lemma spec_loop_ok:
  assumes rdy: "spec_ready sm R fwd lg cell r" and T: "length prompt + gen + nr_block_length r \<le> T"
  shows "spec_inv lg cell prompt T f0 r es ls \<Longrightarrow>
    \<exists>ls'. spec_loop sm R fwd r es gen ls = Inr ls' \<and> spec_inv lg cell prompt T f0 r es ls'
      \<and> (gen \<le> length (sl_emitted ls') \<or> sl_terminal ls')"
proof (induction "gen - length (sl_emitted ls)" arbitrary: ls rule: less_induct)
  case less
  show ?case
  proof (cases "length (sl_emitted ls) < gen \<and> \<not> sl_terminal ls")
    case True
    obtain ls1 where s: "spec_iter sm R fwd r es gen ls = Inr ls1" and i1: "spec_inv lg cell prompt T f0 r es ls1"
      using spec_iter_ok [OF rdy less.prems] True T by fastforce
    have "gen - length (sl_emitted ls1) < gen - length (sl_emitted ls)"
      using diff_less_mono2 [OF spec_iter_emits [OF s]] True by simp
    from less.hyps [OF this i1] show ?thesis
      using True s by (simp add: spec_loop.simps [of sm R fwd r es gen ls])
  next
    case False
    then show ?thesis using less.prems by (auto simp: spec_loop.simps [of sm R fwd r es gen ls])
  qed
qed

text \<open>
  C2: Self-speculation is lossless: for a greedy request without a thinking budget the runner
  terminates without an error and returns exactly the tokens that plain autoregressive decoding of
  the same model gives, cut after the first end-of-sequence token when early stopping is on,
  whatever the draft forwards propose; and every forward is accounted for in the statistics.
\<close>

theorem self_speculation_lossless:
  assumes rdy: "spec_ready sm R fwd lg cell r" and ne: "prompt \<noteq> []" and gen: "0 < gen"
    and chunk: "0 < nc_prefill_chunk_size (nr_config r)"
    and ctx: "nemo_check_context r (length prompt + gen + nr_block_length r) = Inr ()"
    and gr: "greedy_request sampling"
  shows "\<exists>stats st. spec_generate_one sm R fwd zero r es sampling f0 prompt gen
      = Inr (cut_at_eos (nr_decoder r) es (ar_greedy lg prompt gen), stats, st)
    \<and> nst_forwards st = f0 + ss_total_calls stats \<and> ss_verify_calls stats = ss_iterations stats"
proof -
  let ?T = "length prompt + gen + nr_block_length r" and ?D = "nr_decoder r"
  let ?st0 = "\<lparr> nst_cache = replicate ?T zero, nst_sampling = sampling, nst_forwards = f0 \<rparr>"
  have M: "causal_model fwd lg cell" using rdy by (simp add: spec_ready_def)
  obtain logits n st1 where p: "nemo_prefill fwd (nc_prefill_chunk_size (nr_config r)) prompt ?st0 = Inr (logits, n, st1)"
    and l: "logits \<noteq> []" "last logits = lg prompt"
    and s1: "length (nst_cache st1) = ?T" "take (length prompt) (nst_cache st1) = cells cell prompt"
      "nst_sampling st1 = sampling" "nst_forwards st1 = f0 + n"
    by (rule prefill_ok [OF M chunk ne, of ?st0]) auto
  let ?t = "argmax (lg prompt)"
  have st1_eq: "st1\<lparr>nst_sampling := sampling\<rparr> = st1" using s1(3) by auto
  have sd: "seed_from sm R logits st1 = Inr (?t, st1)"
    using l gr s1(3) st1_eq by (simp add: seed_from_def sample_greedy greedy_def py_nth_def)
  let ?ls0 = "\<lparr> sl_prefix_len = length prompt, sl_next_token = ?t, sl_emitted = [?t],
      sl_terminal = (es \<and> ?t \<in> set (nd_eos_ids ?D)), sl_force_marker = marker_due (nr_budget r) [?t],
      sl_stats = spec_stats_init\<lparr>ss_prefill_calls := n\<rparr>, sl_state = st1 \<rparr>"
  have "spec_inv lg cell prompt ?T f0 r es ?ls0"
    using rdy s1 gr by (auto simp: spec_inv_def Let_def spec_ready_def marker_due_def force_next_token_def
        ss_total_calls_def spec_stats_init_def cut_at_eos_eq split: option.splits)
  from spec_loop_ok [OF rdy order.refl this] obtain ls where
    lp: "spec_loop sm R fwd r es gen ?ls0 = Inr ls" and inv: "spec_inv lg cell prompt ?T f0 r es ls"
    and done': "gen \<le> length (sl_emitted ls) \<or> sl_terminal ls" by blast
  let ?em = "sl_emitted ls"
  have em: "?em \<noteq> []" "?em = ar_greedy lg prompt (length ?em)" "cut_at_eos ?D es ?em = ?em"
      "sl_terminal ls = (es \<and> last ?em \<in> set (nd_eos_ids ?D))"
    using inv by (auto simp: spec_inv_def Let_def)
  have res: "cut_at_eos ?D es (take gen ?em) = cut_at_eos ?D es (ar_greedy lg prompt gen)"
  proof (cases "gen \<le> length ?em")
    case True
    then show ?thesis using em(2) take_ar_greedy [OF True, of lg prompt] by simp
  next
    case False
    then have tm: "es" "last ?em \<in> set (nd_eos_ids ?D)" using done' em(4) by auto
    have "ar_greedy lg prompt gen = ?em @ ar_greedy lg (prompt @ ?em) (gen - length ?em)"
      using False em(2) ar_greedy_add [of lg prompt "length ?em" "gen - length ?em"] by simp
    then show ?thesis using cut_at_eos_prefix [OF em(3) tm(1) em(1) tm(2)] False em(3) by simp
  qed
  have "spec_generate_one sm R fwd zero r es sampling f0 prompt gen
      = Inr (cut_at_eos ?D es (take gen ?em),
          (sl_stats ls)\<lparr>ss_returned_tokens := length (cut_at_eos ?D es (take gen ?em))\<rparr>, sl_state ls)"
    using gen ctx p sd lp by (simp add: spec_generate_one_def Let_def)
  then show ?thesis using res inv by (auto simp: spec_inv_def Let_def ss_total_calls_def)
qed
text \<open>A small causal model: the cache keeps the tokens, the third token onwards predicts the end.\<close>

definition ex_lg :: "token list \<Rightarrow> flt list" where
  "ex_lg ts = (if length ts < 3 then [Fin 0, Fin 1, Fin (-1)] else [Fin 1, Fin 0, Fin (-1)])"

definition ex_fwd :: "nat nemo_fwd" where
  "ex_fwd ad b pos past msk =
     (let ts = take (length past - length b) past
      in (map (\<lambda>i. ex_lg (ts @ take (Suc i) b)) [0..<length b], ts @ b))"

definition ex_nc :: nemo_config where
  "ex_nc = \<lparr> nc_temperature = 0, nc_sampling_seed = Some 0, nc_threshold = 1/2, nc_draft_threshold = 0, nc_mask_id = 2,
     nc_eos_id = 0, nc_eos_ids = [0], nc_block_length = 2, nc_gen_length = 4, nc_steps = 0, nc_early_stop = True,
     nc_attention_backend = ''sdpa'', nc_prefill_chunk_size = 1024, nc_max_thinking_tokens = None,
     nc_end_think_token_id = None \<rparr>"

definition ex_spec :: "nat spec_runner" where
  "ex_spec = \<lparr> nr_config = ex_nc, nr_block_length = 2, nr_max_denoise_steps = 2, nr_decoder = ex_nd False,
     nr_budget = \<lparr> tb_max = None, tb_end = None \<rparr>, nr_max_position_embeddings = None, nr_serving_limit = None,
     sr_draft_decoder = ex_nd True, sr_lora = False \<rparr>"

lemma ex_fwd_causal: "causal_model ex_fwd ex_lg last"
  by (auto simp: causal_model_def ex_fwd_def Let_def cells_last)

lemma ex_fwd_shape: "model_shape ex_fwd"
  by (simp add: model_shape_def ex_fwd_def Let_def)

lemma ex_lg_argmax: "argmax (ex_lg ts) < 2"
  by (auto simp: ex_lg_def argmax_def)

lemma ex_resolves: "resolves ex_softmax ex_rng ex_fwd (ex_nd d)"
proof -
  have "argmax (ex_lg ts) \<noteq> 2" for ts using ex_lg_argmax [of ts] by simp
  then show ?thesis
    by (auto simp: resolves_def predict_def categorical_def diffusion_def ex_rng_def ex_fwd_def ex_nd_def
        greedy_def Let_def)
qed

lemma ex_spec_ready: "spec_ready ex_softmax ex_rng ex_fwd ex_lg last ex_spec"
proof -
  have "argmax (ex_lg ts) \<noteq> 2" for ts using ex_lg_argmax [of ts] by simp
  then show ?thesis using ex_fwd_causal ex_fwd_shape ex_resolves
    by (simp add: spec_ready_def ex_spec_def tb_enabled_def) (simp add: ex_nd_def)
qed

theorem self_speculation_lossless_witness:
  "\<exists>stats st. spec_generate_one ex_softmax ex_rng ex_fwd 0 ex_spec True None 0 [1] 4 = Inr ([1, 1, 0], stats, st)
     \<and> nst_forwards st = ss_total_calls stats"
proof -
  have a: "cut_at_eos (nr_decoder ex_spec) True (ar_greedy ex_lg [1] 4) = [1, 1, 0]" by code_simp
  have c: "nemo_check_context ex_spec (length [1 :: nat] + 4 + nr_block_length ex_spec) = Inr ()" by code_simp
  have ch: "0 < nc_prefill_chunk_size (nr_config ex_spec)" by code_simp
  show ?thesis
    using self_speculation_lossless [OF ex_spec_ready, of "[1]" 4 None 0 True 0] a c ch
    by (auto simp: greedy_request_def)
qed

section \<open>Block diffusion\<close>

lemma denoise_loop_ok:
  assumes sh: "model_shape fwd" and res: "resolves sm R fwd D" and al: "nd_allow_mask_prediction D"
  shows "mask_count (nd_mask_id D) block \<le> k \<Longrightarrow>
    \<exists>n block' st'. denoise_loop sm R fwd D es p k calls block st = Inr (calls + n, block', st')
      \<and> n \<le> mask_count (nd_mask_id D) block
      \<and> length block' = length block \<and> nst_cache st' = nst_cache st \<and> nst_forwards st' = nst_forwards st + n
      \<and> (\<forall>i < length block. block ! i \<noteq> nd_mask_id D \<longrightarrow> block' ! i = block ! i)
      \<and> (nd_mask_id D \<notin> set block' \<or> es \<and> eos_is_terminal D block')"
proof (induction k arbitrary: calls block st)
  case 0
  then show ?case using mask_count_zero [of "nd_mask_id D" block] by simp
next
  case (Suc k)
  show ?case
  proof (cases "nd_mask_id D \<in> set block")
    case False
    then show ?thesis by (simp add: has_masks_iff)
  next
    case True
    obtain b1 s1 where s: "step_block sm R fwd False D p block st = Inr (b1, s1)"
      and b1: "length b1 = length block" "nst_cache s1 = nst_cache st" "nst_forwards s1 = nst_forwards st + 1"
        "mask_count (nd_mask_id D) b1 < mask_count (nd_mask_id D) block"
      and keep: "\<And>i. i < length block \<Longrightarrow> block ! i \<noteq> nd_mask_id D \<Longrightarrow> b1 ! i = block ! i"
      using step_block_ok [OF sh res al True] by metis
    show ?thesis
    proof (cases "nd_mask_id D \<notin> set b1 \<or> es \<and> eos_is_terminal D b1")
      case True
      then show ?thesis using \<open>nd_mask_id D \<in> set block\<close> s b1 keep
        by (intro exI [of _ 1] exI [of _ b1] exI [of _ s1]) (auto simp: has_masks_iff)
    next
      case go: False
      have "mask_count (nd_mask_id D) b1 \<le> k" using b1(4) Suc.prems by simp
      from Suc.IH [OF this, of "calls + 1" s1] obtain n block' st'
        where "denoise_loop sm R fwd D es p k (calls + 1) b1 s1 = Inr (calls + 1 + n, block', st')"
          and "n \<le> mask_count (nd_mask_id D) b1" and "length block' = length b1"
          and "nst_cache st' = nst_cache s1" and "nst_forwards st' = nst_forwards s1 + n"
          and "\<forall>i < length b1. b1 ! i \<noteq> nd_mask_id D \<longrightarrow> block' ! i = b1 ! i"
          and "nd_mask_id D \<notin> set block' \<or> es \<and> eos_is_terminal D block'" by blast
      then show ?thesis using True s b1 keep go
        by (intro exI [of _ "Suc n"] exI [of _ block'] exI [of _ st']) (auto simp: has_masks_iff)
    qed
  qed
qed

text \<open>The marker of the thinking budget is placed where the limit falls.\<close>

lemma apply_thinking_budget_ok:
  assumes tb: "tb_enabled b \<Longrightarrow> 0 \<le> the (tb_max b)" and L: "0 < L"
  obtains blk where "apply_thinking_budget b (seed # replicate (L - 1) mid) emitted = Inr blk"
    and "length blk = L"
    and "\<lbrakk>tb_enabled b; the (tb_end b) \<noteq> mid; int (length (concat emitted)) \<le> the (tb_max b);
          the (tb_max b) < int (length (concat emitted)) + int L; the (tb_end b) \<notin> set (concat emitted)\<rbrakk>
      \<Longrightarrow> \<exists>j < L. blk ! j = the (tb_end b) \<and> int (length (concat emitted) + j) \<le> the (tb_max b)"
proof -
  let ?blk = "seed # replicate (L - 1) mid" and ?n = "length (concat emitted)"
  have ll: "length ?blk = L" using L by simp
  show ?thesis
  proof (cases "tb_enabled b \<and> \<not> satisfied b (concat emitted) \<and> \<not> satisfied b ?blk")
    case False
    then have eq: "apply_thinking_budget b ?blk emitted = Inr ?blk" by (auto simp: apply_thinking_budget_def)
    show ?thesis
    proof (rule that [OF eq ll])
      assume "tb_enabled b" "the (tb_end b) \<noteq> mid" "int ?n \<le> the (tb_max b)" "the (tb_end b) \<notin> set (concat emitted)"
      then have "the (tb_end b) = seed" using False by (auto simp: satisfied_def split: if_splits)
      then show "\<exists>j < L. ?blk ! j = the (tb_end b) \<and> int (?n + j) \<le> the (tb_max b)"
        using L \<open>int ?n \<le> the (tb_max b)\<close> by (intro exI [of _ 0]) simp
    qed
  next
    case True
    show ?thesis
    proof (cases "block_injection_offset b ?n L")
      case None
      then have eq: "apply_thinking_budget b ?blk emitted = Inr ?blk"
        using True ll by (simp add: apply_thinking_budget_def Let_def)
      show ?thesis
        by (rule that [OF eq ll]) (use None True in \<open>auto simp: block_injection_offset_def tb_enabled_def split: option.splits if_splits\<close>)
    next
      case (Some off)
      have off: "off < L" using injection_offset_inside(1) [OF Some L] tb True by blast
      have eq: "apply_thinking_budget b ?blk emitted = Inr (?blk[off := the (tb_end b)])"
        using True Some ll off by (simp add: apply_thinking_budget_def Let_def)
      show ?thesis
      proof (rule that [OF eq])
        show "length (?blk[off := the (tb_end b)]) = L" using ll by (simp only: length_list_update)
        assume le: "int ?n \<le> the (tb_max b)"
        have "int (?n + off) = the (tb_max b)" using injection_offset_inside(3) [OF Some L _ le] tb True by blast
        then show "\<exists>j < L. ?blk[off := the (tb_end b)] ! j = the (tb_end b) \<and> int (?n + j) \<le> the (tb_max b)"
          using off ll by (intro exI [of _ off]) (simp only: nth_list_update_eq order.refl simp_thms)
      qed
    qed
  qed
qed
definition block_ready ::
  "(flt list \<Rightarrow> rat list) \<Rightarrow> 'g torch_rng \<Rightarrow> 'v nemo_fwd \<Rightarrow> (token list \<Rightarrow> flt list) \<Rightarrow> (token list \<Rightarrow> 'v)
    \<Rightarrow> 'g nemo_runner \<Rightarrow> bool" where
  "block_ready sm R fwd lg cell r =
     (causal_model fwd lg cell \<and> model_shape fwd \<and> resolves sm R fwd (nr_decoder r)
      \<and> (\<forall>so ls. ls \<noteq> [] \<longrightarrow> fst (sample_tokens sm R so ls) \<noteq> [])
      \<and> nd_allow_mask_prediction (nr_decoder r) \<and> nd_mask_id (nr_decoder r) \<notin> set (nd_eos_ids (nr_decoder r))
      \<and> (tb_enabled (nr_budget r) \<longrightarrow> 0 \<le> the (tb_max (nr_budget r)))
      \<and> 0 < nr_block_length r \<and> nr_block_length r \<le> nr_max_denoise_steps r)"

text \<open>The marker stands within the allowance once more tokens than the allowance are produced.\<close>

definition marker_placed :: "thinking_budget \<Rightarrow> token \<Rightarrow> token list \<Rightarrow> bool" where
  "marker_placed b mid toks =
     (tb_enabled b \<and> the (tb_end b) \<noteq> mid \<and> the (tb_max b) < int (length toks)
      \<longrightarrow> the (tb_end b) \<in> set (take (Suc (nat (the (tb_max b)))) toks))"

lemma marker_placed_append:
  assumes mp: "marker_placed b mid toks" and mx: "tb_enabled b \<Longrightarrow> 0 \<le> the (tb_max b)"
    and new: "\<lbrakk>tb_enabled b; the (tb_end b) \<noteq> mid; int (length toks) \<le> the (tb_max b);
          the (tb_max b) < int (length toks) + int (length blk); the (tb_end b) \<notin> set toks\<rbrakk>
      \<Longrightarrow> \<exists>j < length blk. blk ! j = the (tb_end b) \<and> int (length toks + j) \<le> the (tb_max b)"
  shows "marker_placed b mid (toks @ blk)"
  unfolding marker_placed_def
proof (intro impI; elim conjE)
  assume en: "tb_enabled b" and ne: "the (tb_end b) \<noteq> mid" and lt: "the (tb_max b) < int (length (toks @ blk))"
  show "the (tb_end b) \<in> set (take (Suc (nat (the (tb_max b)))) (toks @ blk))"
  proof (cases "the (tb_max b) < int (length toks)")
    case True
    then have "the (tb_end b) \<in> set (take (Suc (nat (the (tb_max b)))) toks)"
      using mp en ne by (simp add: marker_placed_def)
    then show ?thesis by simp
  next
    case False
    then have le: "length toks \<le> nat (the (tb_max b))" using mx [OF en] by linarith
    show ?thesis
    proof (cases "the (tb_end b) \<in> set toks")
      case True
      then show ?thesis using le by simp
    next
      case notin: False
      from new [OF en ne _ _ notin] False lt obtain j where j: "j < length blk" "blk ! j = the (tb_end b)"
        "int (length toks + j) \<le> the (tb_max b)" by auto
      then have "j < Suc (nat (the (tb_max b))) - length toks" by linarith
      then have "blk ! j \<in> set (take (Suc (nat (the (tb_max b))) - length toks) blk)"
        using j(1) by (metis in_set_conv_nth length_take min_less_iff_conj nth_take)
      then show ?thesis using j(2) by simp
    qed
  qed
qed

lemma seed_from_ok:
  assumes "\<forall>so ls. ls \<noteq> [] \<longrightarrow> fst (sample_tokens sm R so ls) \<noteq> []" and "logits \<noteq> []"
  obtains t st' where "seed_from sm R logits st = Inr (t, st')" and "nst_cache st' = nst_cache st"
    and "nst_forwards st' = nst_forwards st"
proof -
  obtain ids so where s: "sample_tokens sm R (nst_sampling st) [last logits] = (ids, so)" by fastforce
  have "ids \<noteq> []" using assms(1) [rule_format, of "[last logits]" "nst_sampling st"] s by simp
  then have eq: "seed_from sm R logits st = Inr (ids ! 0, st\<lparr>nst_sampling := so\<rparr>)"
    using assms(2) s by (simp add: seed_from_def py_nth_def)
  show ?thesis by (rule that [OF eq]) simp_all
qed

lemma block_body_ok:
  assumes rdy: "block_ready sm R fwd lg cell r" and toks: "toks = concat emitted"
    and room: "length (prompt @ toks) + nr_block_length r \<le> length (nst_cache st)"
    and pre: "take (length (prompt @ toks)) (nst_cache st) = cells cell (prompt @ toks)"
    and mp: "marker_placed (nr_budget r) (nd_mask_id (nr_decoder r)) toks"
  obtains blk seed' n st' where
      "block_body sm R fwd r es seed (length (prompt @ toks)) emitted stats st
        = Inr (blk, eos_is_terminal (nr_decoder r) blk, seed',
            stats\<lparr>bs_denoise_calls := bs_denoise_calls stats + n,
                  bs_denoise_per_block := bs_denoise_per_block stats @ [n],
                  bs_commit_calls := bs_commit_calls stats + 1, bs_blocks := bs_blocks stats + 1\<rparr>, st')"
    and "length blk = nr_block_length r" and "n \<le> nr_block_length r"
    and "nd_mask_id (nr_decoder r) \<notin> set blk \<or> es \<and> eos_is_terminal (nr_decoder r) blk"
    and "length (nst_cache st') = length (nst_cache st)"
    and "take (length (prompt @ toks @ blk)) (nst_cache st') = cells cell (prompt @ toks @ blk)"
    and "nst_forwards st' = nst_forwards st + n + 1"
    and "marker_placed (nr_budget r) (nd_mask_id (nr_decoder r)) (toks @ blk)"
proof -
  let ?D = "nr_decoder r" and ?L = "nr_block_length r" and ?p = "length (prompt @ toks)" and ?b = "nr_budget r"
  let ?mid = "nd_mask_id (nr_decoder r)"
  note Rd = rdy [unfolded block_ready_def]
  have sh: "model_shape fwd" and res: "resolves sm R fwd ?D" and al: "nd_allow_mask_prediction ?D" using Rd by auto
  have L: "0 < ?L" and tb: "tb_enabled ?b \<Longrightarrow> 0 \<le> the (tb_max ?b)" using Rd by auto
  obtain blk0 where a: "apply_thinking_budget ?b (seed # replicate (?L - 1) ?mid) emitted = Inr blk0"
    and l0: "length blk0 = ?L"
    and mk: "\<lbrakk>tb_enabled ?b; the (tb_end ?b) \<noteq> ?mid; int (length toks) \<le> the (tb_max ?b);
          the (tb_max ?b) < int (length toks) + int ?L; the (tb_end ?b) \<notin> set toks\<rbrakk>
      \<Longrightarrow> \<exists>j < ?L. blk0 ! j = the (tb_end ?b) \<and> int (length toks + j) \<le> the (tb_max ?b)"
  proof (rule apply_thinking_budget_ok [OF tb L, of seed ?mid emitted])
    fix blk0 assume "apply_thinking_budget ?b (seed # replicate (?L - 1) ?mid) emitted = Inr blk0" "length blk0 = ?L"
      "\<lbrakk>tb_enabled ?b; the (tb_end ?b) \<noteq> ?mid; int (length (concat emitted)) \<le> the (tb_max ?b);
          the (tb_max ?b) < int (length (concat emitted)) + int ?L; the (tb_end ?b) \<notin> set (concat emitted)\<rbrakk>
      \<Longrightarrow> \<exists>j < ?L. blk0 ! j = the (tb_end ?b) \<and> int (length (concat emitted) + j) \<le> the (tb_max ?b)"
    then show thesis by (rule that [unfolded toks])
  qed
  let ?dn = "if es \<and> eos_is_terminal ?D blk0 then Inr (0, blk0, st) else denoise_block sm R fwd r es ?p blk0 st"
  have "\<exists>n blk st1. ?dn = Inr (n, blk, st1) \<and> n \<le> ?L \<and> length blk = ?L \<and> nst_cache st1 = nst_cache st
      \<and> nst_forwards st1 = nst_forwards st + n
      \<and> (\<forall>i < ?L. blk0 ! i \<noteq> ?mid \<longrightarrow> blk ! i = blk0 ! i) \<and> (?mid \<notin> set blk \<or> es \<and> eos_is_terminal ?D blk)"
  proof (cases "es \<and> eos_is_terminal ?D blk0")
    case True
    then show ?thesis using l0 by simp
  next
    case False
    have k: "mask_count ?mid blk0 \<le> nr_max_denoise_steps r" using mask_count_le [of ?mid blk0] l0 Rd by simp
    obtain n blk st1 where d: "denoise_loop sm R fwd ?D es ?p (nr_max_denoise_steps r) 0 blk0 st = Inr (0 + n, blk, st1)"
      and r: "n \<le> mask_count ?mid blk0" "length blk = length blk0" "nst_cache st1 = nst_cache st"
        "nst_forwards st1 = nst_forwards st + n" "\<forall>i < length blk0. blk0 ! i \<noteq> ?mid \<longrightarrow> blk ! i = blk0 ! i"
        "?mid \<notin> set blk \<or> es \<and> eos_is_terminal ?D blk"
      using denoise_loop_ok [OF sh res al k, of es ?p 0 st] by blast
    have "denoise_block sm R fwd r es ?p blk0 st = Inr (n, blk, st1)"
      using d r(6) by (auto simp: denoise_block_def has_masks_iff)
    then show ?thesis using False r l0 mask_count_le [of ?mid blk0] by auto
  qed
  then obtain n blk st1 where dn: "?dn = Inr (n, blk, st1)" and n: "n \<le> ?L" "length blk = ?L" "nst_cache st1 = nst_cache st"
      "nst_forwards st1 = nst_forwards st + n" "\<forall>i < ?L. blk0 ! i \<noteq> ?mid \<longrightarrow> blk ! i = blk0 ! i"
      "?mid \<notin> set blk \<or> es \<and> eos_is_terminal ?D blk" by blast
  have ne: "blk \<noteq> []" using n(2) L by auto
  have room1: "?p + length blk \<le> length (nst_cache st1)" using room n by simp
  have pre1: "take ?p (nst_cache st1) = cells cell (prompt @ toks)" using pre n by simp
  obtain st2 where c: "causal_forward fwd blk ?p st1
        = Inr (map (\<lambda>i. lg ((prompt @ toks) @ take (Suc i) blk)) [0..<length blk], st2)"
    and s2: "length (nst_cache st2) = length (nst_cache st1)"
      "take (?p + length blk) (nst_cache st2) = cells cell ((prompt @ toks) @ blk)"
      "nst_forwards st2 = nst_forwards st1 + 1"
    by (rule causal_forward_ok [OF _ ne room1 pre1, of fwd lg]) (use Rd in blast)+
  have lne: "map (\<lambda>i. lg ((prompt @ toks) @ take (Suc i) blk)) [0..<length blk] \<noteq> []" using ne by simp
  obtain seed' st3 where sd: "seed_from sm R (map (\<lambda>i. lg ((prompt @ toks) @ take (Suc i) blk)) [0..<length blk]) st2
        = Inr (seed', st3)" and s3: "nst_cache st3 = nst_cache st2" "nst_forwards st3 = nst_forwards st2"
    by (rule seed_from_ok [OF _ lne, of sm R st2]) (use Rd in blast)+
  have mp': "marker_placed ?b ?mid (toks @ blk)"
  proof (rule marker_placed_append [OF mp tb])
    assume h: "tb_enabled ?b" "the (tb_end ?b) \<noteq> ?mid" "int (length toks) \<le> the (tb_max ?b)"
      "the (tb_max ?b) < int (length toks) + int (length blk)" "the (tb_end ?b) \<notin> set toks"
    obtain j where "j < ?L" "blk0 ! j = the (tb_end ?b)" "int (length toks + j) \<le> the (tb_max ?b)"
      using mk [OF h(1-3) _ h(5)] h(4) n(2) by auto
    then show "\<exists>j < length blk. blk ! j = the (tb_end ?b) \<and> int (length toks + j) \<le> the (tb_max ?b)"
      using n(2,5) h(2) by (intro exI [of _ j]) simp
  qed
  have bb: "block_body sm R fwd r es seed ?p emitted stats st
      = Inr (blk, eos_is_terminal ?D blk, seed',
          stats\<lparr>bs_denoise_calls := bs_denoise_calls stats + n,
                bs_denoise_per_block := bs_denoise_per_block stats @ [n],
                bs_commit_calls := bs_commit_calls stats + 1, bs_blocks := bs_blocks stats + 1\<rparr>, st3)"
    using L unfolding block_body_def Let_def a result_bind_simps dn prod.case nemo_commit_def c sd by simp
  show ?thesis
    by (rule that [OF bb n(2,1,6) _ _ _ mp']) (use s2 s3 n in \<open>simp_all add: add.assoc\<close>)
qed
text \<open>What the blocks of a run look like: clean, or ending in a block with a terminal end token.\<close>

definition clean :: "'g nemo_decoder \<Rightarrow> bool \<Rightarrow> token list \<Rightarrow> bool" where
  "clean D es toks = (nd_mask_id D \<notin> set toks \<and> (es \<longrightarrow> set toks \<inter> set (nd_eos_ids D) = {}))"

definition stopped :: "'g nemo_decoder \<Rightarrow> bool \<Rightarrow> token list \<Rightarrow> bool" where
  "stopped D es toks = (es \<and> (\<exists>front blk. toks = front @ blk \<and> clean D es front \<and> eos_is_terminal D blk))"

text \<open>The statistics of a run of \<open>j\<close> blocks with \<open>ns\<close> denoising calls each.\<close>

definition stats_extend :: "nat list \<Rightarrow> block_stats \<Rightarrow> block_stats \<Rightarrow> bool" where
  "stats_extend ns stats stats' =
     (bs_denoise_per_block stats' = bs_denoise_per_block stats @ ns
      \<and> bs_denoise_calls stats' = bs_denoise_calls stats + sum_list ns
      \<and> bs_commit_calls stats' = bs_commit_calls stats + length ns
      \<and> bs_blocks stats' = bs_blocks stats + length ns
      \<and> bs_prefill_calls stats' = bs_prefill_calls stats)"

lemma stats_extend_Cons:
  assumes "stats_extend ns (stats\<lparr>bs_denoise_calls := bs_denoise_calls stats + n,
      bs_denoise_per_block := bs_denoise_per_block stats @ [n],
      bs_commit_calls := bs_commit_calls stats + 1, bs_blocks := bs_blocks stats + 1\<rparr>) stats'"
  shows "stats_extend (n # ns) stats stats'"
  using assms by (simp add: stats_extend_def)

lemma clean_append:
  assumes "clean D es toks" and "nd_mask_id D \<notin> set blk" and "es \<Longrightarrow> \<not> eos_is_terminal D blk"
  shows "clean D es (toks @ blk)"
proof -
  have "set blk \<inter> set (nd_eos_ids D) = {}" if es
  proof (rule ccontr)
    assume "set blk \<inter> set (nd_eos_ids D) \<noteq> {}"
    then obtain t where "t \<in> set blk" "t \<in> set (nd_eos_ids D)" by blast
    then obtain i where i: "i < length blk" "blk ! i \<in> set (nd_eos_ids D)" by (metis in_set_conv_nth)
    moreover have "\<forall>j < i. blk ! j \<noteq> nd_mask_id D" using assms(2) i(1) by (metis in_set_conv_nth less_trans)
    ultimately show False using assms(3) [OF that] by (auto simp: eos_is_terminal_iff)
  qed
  then show ?thesis using assms(1,2) by (auto simp: clean_def)
qed

lemma block_loop_ok:
  assumes rdy: "block_ready sm R fwd lg cell r"
  shows "\<lbrakk>length (prompt @ concat emitted) + k * nr_block_length r \<le> length (nst_cache st);
     take (length (prompt @ concat emitted)) (nst_cache st) = cells cell (prompt @ concat emitted);
     clean (nr_decoder r) es (concat emitted);
     marker_placed (nr_budget r) (nd_mask_id (nr_decoder r)) (concat emitted)\<rbrakk> \<Longrightarrow>
   \<exists>em' stats' st' ns. block_loop sm R fwd r es k seed (length (prompt @ concat emitted)) emitted stats st = Inr (em', stats', st')
     \<and> length ns \<le> k \<and> length (concat em') = length (concat emitted) + length ns * nr_block_length r
     \<and> stats_extend ns stats stats' \<and> (\<forall>n \<in> set ns. n \<le> nr_block_length r)
     \<and> nst_forwards st' = nst_forwards st + sum_list ns + length ns
     \<and> take (length (prompt @ concat em')) (nst_cache st') = cells cell (prompt @ concat em')
     \<and> marker_placed (nr_budget r) (nd_mask_id (nr_decoder r)) (concat em')
     \<and> (length ns = k \<and> clean (nr_decoder r) es (concat em') \<or> stopped (nr_decoder r) es (concat em'))"
proof (induction k arbitrary: emitted seed stats st)
  case 0
  then show ?case by (intro exI [of _ emitted] exI [of _ stats] exI [of _ st] exI [of _ "[]"]) (simp add: stats_extend_def)
next
  case (Suc k)
  let ?D = "nr_decoder r" and ?L = "nr_block_length r"
  have room: "length (prompt @ concat emitted) + ?L \<le> length (nst_cache st)" using Suc.prems(1) by simp
  obtain blk seed' n st1 where
      bb: "block_body sm R fwd r es seed (length (prompt @ concat emitted)) emitted stats st
        = Inr (blk, eos_is_terminal ?D blk, seed',
            stats\<lparr>bs_denoise_calls := bs_denoise_calls stats + n,
                  bs_denoise_per_block := bs_denoise_per_block stats @ [n],
                  bs_commit_calls := bs_commit_calls stats + 1, bs_blocks := bs_blocks stats + 1\<rparr>, st1)"
    and b: "length blk = ?L" "n \<le> ?L" "nd_mask_id ?D \<notin> set blk \<or> es \<and> eos_is_terminal ?D blk"
      "length (nst_cache st1) = length (nst_cache st)"
      "take (length (prompt @ concat emitted @ blk)) (nst_cache st1) = cells cell (prompt @ concat emitted @ blk)"
      "nst_forwards st1 = nst_forwards st + n + 1"
      "marker_placed (nr_budget r) (nd_mask_id ?D) (concat emitted @ blk)"
    by (rule block_body_ok [OF rdy refl room Suc.prems(2,4)])
  let ?stats1 = "stats\<lparr>bs_denoise_calls := bs_denoise_calls stats + n,
                  bs_denoise_per_block := bs_denoise_per_block stats @ [n],
                  bs_commit_calls := bs_commit_calls stats + 1, bs_blocks := bs_blocks stats + 1\<rparr>"
  show ?case
  proof (cases "es \<and> eos_is_terminal ?D blk")
    case True
    have eq: "block_loop sm R fwd r es (Suc k) seed (length (prompt @ concat emitted)) emitted stats st
        = Inr (emitted @ [blk], ?stats1, st1)" using True bb by simp
    have sx: "stats_extend [n] stats ?stats1" by (simp add: stats_extend_def)
    have "stopped ?D es (concat (emitted @ [blk]))" using True Suc.prems(3) by (auto simp: stopped_def)
    then show ?thesis using b
      by (intro exI [of _ "emitted @ [blk]"] exI [of _ ?stats1] exI [of _ st1] exI [of _ "[n]"])
        (intro conjI eq sx; simp)
  next
    case False
    then have cl: "clean ?D es (concat (emitted @ [blk]))"
      using clean_append [OF Suc.prems(3), of blk] b(3) by auto
    have room1: "length (prompt @ concat (emitted @ [blk])) + k * ?L \<le> length (nst_cache st1)"
      using Suc.prems(1) b(1,4) by simp
    have pre1: "take (length (prompt @ concat (emitted @ [blk]))) (nst_cache st1) = cells cell (prompt @ concat (emitted @ [blk]))"
      and mp1: "marker_placed (nr_budget r) (nd_mask_id ?D) (concat (emitted @ [blk]))"
      using b(5,7) by simp_all
    obtain em' stats' st' ns where
      lp: "block_loop sm R fwd r es k seed' (length (prompt @ concat (emitted @ [blk]))) (emitted @ [blk]) ?stats1 st1
        = Inr (em', stats', st')"
      and r: "length ns \<le> k" "length (concat em') = length (concat (emitted @ [blk])) + length ns * ?L"
        "stats_extend ns ?stats1 stats'" "\<forall>n \<in> set ns. n \<le> ?L"
        "nst_forwards st' = nst_forwards st1 + sum_list ns + length ns"
        "take (length (prompt @ concat em')) (nst_cache st') = cells cell (prompt @ concat em')"
        "marker_placed (nr_budget r) (nd_mask_id ?D) (concat em')"
        "length ns = k \<and> clean ?D es (concat em') \<or> stopped ?D es (concat em')"
      using Suc.IH [OF room1 pre1 cl mp1, of seed' ?stats1] by blast
    have eq: "block_loop sm R fwd r es (Suc k) seed (length (prompt @ concat emitted)) emitted stats st
        = Inr (em', stats', st')"
      using False bb lp b(1) by (auto simp: add.assoc)
    show ?thesis
      by (intro exI [of _ em'] exI [of _ stats'] exI [of _ st'] exI [of _ "n # ns"] conjI eq stats_extend_Cons [OF r(3)])
        (use r b in auto)
  qed
qed

text \<open>The returned tokens of a run.\<close>

lemma cut_take_result:
  assumes em: "nd_mask_id D \<notin> set (nd_eos_ids D)"
    and run: "length toks \<ge> gen \<and> clean D es toks \<or> stopped D es toks"
  defines "out \<equiv> cut_at_eos D es (take gen toks)"
  shows "nd_mask_id D \<notin> set out" and "length out = gen \<or> es \<and> out \<noteq> [] \<and> last out \<in> set (nd_eos_ids D)"
proof -
  have "nd_mask_id D \<notin> set out \<and> (length out = gen \<or> es \<and> out \<noteq> [] \<and> last out \<in> set (nd_eos_ids D))"
    using run
  proof
    assume c: "length toks \<ge> gen \<and> clean D es toks"
    then have "es \<Longrightarrow> first_index (\<lambda>t. t \<in> set (nd_eos_ids D)) (take gen toks) = None"
      by (auto simp: first_index_None clean_def dest!: in_set_takeD)
    then have "out = take gen toks" by (simp add: out_def cut_at_eos_eq)
    then show ?thesis using c by (auto simp: clean_def dest: in_set_takeD)
  next
    assume "stopped D es toks"
    then obtain front blk where es and t: "toks = front @ blk" and cl: "clean D es front" and te: "eos_is_terminal D blk"
      by (auto simp: stopped_def)
    from te obtain i where i: "i < length blk" "blk ! i \<in> set (nd_eos_ids D)" "\<forall>j < i. blk ! j \<noteq> nd_mask_id D"
      by (auto simp: eos_is_terminal_iff)
    let ?E = "\<lambda>t. t \<in> set (nd_eos_ids D)"
    have nm: "toks ! j \<noteq> nd_mask_id D" if "j < length front + i" for j
      using that i(3) cl nth_mem [of j front] by (auto simp: t nth_append clean_def simp del: nth_mem)
    have hit: "length front + i < length toks" "?E (toks ! (length front + i))" using i by (simp_all add: t)
    show ?thesis
    proof (cases "first_index ?E (take gen toks)")
      case None
      have "\<not> length front + i < gen"
      proof
        assume "length front + i < gen"
        then have "toks ! (length front + i) \<in> set (take gen toks)" using hit(1) by (auto simp: in_set_conv_nth)
        with None hit(2) show False by (auto simp: first_index_None)
      qed
      then have g: "gen \<le> length front + i" by simp
      have o: "out = take gen toks" using None \<open>es\<close> by (simp add: out_def cut_at_eos_eq)
      have "nd_mask_id D \<notin> set (take gen toks)" using nm g by (auto simp: in_set_conv_nth)
      then show ?thesis using o g hit(1) by simp
    next
      case (Some k)
      then have k: "k < length toks" "k < gen" "?E (toks ! k)" "\<forall>j < k. \<not> ?E (toks ! j)"
        by (auto simp: first_index_Some)
      have ki: "k \<le> length front + i" using k(4) hit(2) by (meson not_le_imp_less)
      have o: "out = take (Suc k) toks"
        using Some \<open>es\<close> k by (simp add: out_def cut_at_eos_eq min_absorb1)
      have "nd_mask_id D \<notin> set (take (Suc k) toks)"
        using nm ki k(1,3) em by (auto simp: take_Suc_conv_app_nth in_set_conv_nth)
      moreover have "last out = toks ! k" "out \<noteq> []" using k(1) by (simp_all add: o take_Suc_conv_app_nth)
      ultimately show ?thesis using o k(3) \<open>es\<close> by simp
    qed
  qed
  then show "nd_mask_id D \<notin> set out" and "length out = gen \<or> es \<and> out \<noteq> [] \<and> last out \<in> set (nd_eos_ids D)"
    by blast+
qed
text \<open>
  C5: Nemotron block diffusion returns: for a non-empty prompt, a positive budget that fits the
  context, and candidates that are never the mask, \<open>_generate_one\<close> raises nothing.  The result has no
  mask, and it has the full budget length or, with early stopping, ends in an end-of-sequence token
  and has none before it.  The prefix cache holds the causal cells of the prompt and of every
  committed block, so no denoising forward has touched it; the end-of-thinking marker stands within
  the thinking allowance; and the statistics count every forward, block and token.
\<close>

theorem block_diffusion_generates:
  fixes r :: "'g nemo_runner" and zero :: 'v
  assumes rdy: "block_ready sm R fwd lg cell r" and ne: "prompt \<noteq> []" and gen: "0 < gen"
    and chunk: "0 < nc_prefill_chunk_size (nr_config r)"
    and ctx: "nemo_check_context r (length prompt + ceil_div gen (nr_block_length r) * nr_block_length r) = Inr ()"
  shows "\<exists>out stats st toks. generate_one sm R fwd zero r es sampling f0 prompt gen = Inr (out, stats, st)
    \<and> out = cut_at_eos (nr_decoder r) es (take gen toks)
    \<and> nd_mask_id (nr_decoder r) \<notin> set out
    \<and> (length out = gen \<or> es \<and> out \<noteq> [] \<and> last out \<in> set (nd_eos_ids (nr_decoder r)))
    \<and> take (length (prompt @ toks)) (nst_cache st) = cells cell (prompt @ toks)
    \<and> marker_placed (nr_budget r) (nd_mask_id (nr_decoder r)) toks
    \<and> bs_internal_tokens stats = length toks \<and> bs_returned_tokens stats = length out
    \<and> length toks = bs_blocks stats * nr_block_length r \<and> bs_commit_calls stats = bs_blocks stats
    \<and> length (bs_denoise_per_block stats) = bs_blocks stats
    \<and> bs_denoise_calls stats = sum_list (bs_denoise_per_block stats)
    \<and> nst_forwards st = f0 + bs_total_calls stats"
proof -
  let ?D = "nr_decoder r" and ?L = "nr_block_length r" and ?k = "ceil_div gen (nr_block_length r)"
  let ?T = "length prompt + ?k * ?L"
  let ?st0 = "\<lparr> nst_cache = replicate ?T zero, nst_sampling = sampling, nst_forwards = f0 \<rparr>"
  note Rd = rdy [unfolded block_ready_def]
  have M: "causal_model fwd lg cell" and L: "0 < ?L" using Rd by auto
  obtain logits n st1 where p: "nemo_prefill fwd (nc_prefill_chunk_size (nr_config r)) prompt ?st0 = Inr (logits, n, st1)"
    and l: "logits \<noteq> []" and s1: "length (nst_cache st1) = ?T" "take (length prompt) (nst_cache st1) = cells cell prompt"
      "nst_forwards st1 = f0 + n"
    by (rule prefill_ok [OF M chunk ne, of ?st0]) auto
  have smp: "\<forall>so ls. ls \<noteq> [] \<longrightarrow> fst (sample_tokens sm R so ls) \<noteq> []" using Rd by blast
  obtain seed st2 where sd: "seed_from sm R logits st1 = Inr (seed, st2)"
    and s2: "nst_cache st2 = nst_cache st1" "nst_forwards st2 = nst_forwards st1"
    by (rule seed_from_ok [OF smp l])
  let ?stats = "block_stats_init\<lparr>bs_prefill_calls := n\<rparr>"
  have mp0: "marker_placed (nr_budget r) (nd_mask_id ?D) (concat [])"
    using Rd by (auto simp: marker_placed_def)
  have pre0: "length (prompt @ concat []) + ?k * ?L \<le> length (nst_cache st2)"
      "take (length (prompt @ concat [])) (nst_cache st2) = cells cell (prompt @ concat [])"
      "clean ?D es (concat [])"
    using s1 s2 by (simp_all add: clean_def)
  obtain em stats st ns where
    lp: "block_loop sm R fwd r es ?k seed (length (prompt @ concat [])) [] ?stats st2 = Inr (em, stats, st)"
    and r: "length (concat em) = length (concat ([] :: token list list)) + length ns * ?L"
      "stats_extend ns ?stats stats" "nst_forwards st = nst_forwards st2 + sum_list ns + length ns"
      "take (length (prompt @ concat em)) (nst_cache st) = cells cell (prompt @ concat em)"
      "marker_placed (nr_budget r) (nd_mask_id ?D) (concat em)"
      "length ns = ?k \<and> clean ?D es (concat em) \<or> stopped ?D es (concat em)"
    using block_loop_ok [OF rdy pre0(1,2,3) mp0, of seed ?stats] by blast
  let ?out = "cut_at_eos ?D es (take gen (concat em))"
  have run: "gen \<le> length (concat em) \<and> clean ?D es (concat em) \<or> stopped ?D es (concat em)"
    using r(1,6) ceil_div_le [OF L, of gen] by auto
  have emk: "nd_mask_id ?D \<notin> set (nd_eos_ids ?D)" using Rd by blast
  have eq: "generate_one sm R fwd zero r es sampling f0 prompt gen = Inr (?out, stats\<lparr>bs_internal_tokens := length (concat em),
      bs_returned_tokens := length ?out\<rparr>, st)"
    using gen L ctx p sd lp by (simp add: generate_one_def Let_def)
  show ?thesis
    by (rule exI [of _ ?out], rule exI [of _ "stats\<lparr>bs_internal_tokens := length (concat em),
          bs_returned_tokens := length ?out\<rparr>"], rule exI [of _ st], rule exI [of _ "concat em"], intro conjI)
      (use eq cut_take_result [OF emk run] r s1 s2 in
        \<open>simp_all add: stats_extend_def block_stats_init_def bs_total_calls_def\<close>)
qed

definition ex_block :: "nat nemo_runner" where
  "ex_block = \<lparr> nr_config = ex_nc, nr_block_length = 2, nr_max_denoise_steps = 2, nr_decoder = ex_nd False,
     nr_budget = \<lparr> tb_max = Some 1, tb_end = Some 5 \<rparr>, nr_max_position_embeddings = None, nr_serving_limit = None \<rparr>"

lemma ex_block_ready: "block_ready ex_softmax ex_rng ex_fwd ex_lg last ex_block"
proof -
  have "fst (sample_tokens ex_softmax ex_rng so ls) \<noteq> []" if "ls \<noteq> []" for so ls
    using that by (cases so) (auto simp: sample_tokens_def categorical_def greedy_def ex_rng_def Let_def)
  then show ?thesis using ex_fwd_causal ex_fwd_shape ex_resolves
    by (simp add: block_ready_def ex_block_def tb_enabled_def) (simp add: ex_nd_def)
qed

theorem block_diffusion_generates_witness:
  "\<exists>out stats st toks. generate_one ex_softmax ex_rng ex_fwd 0 ex_block True None 0 [1] 4 = Inr (out, stats, st)
     \<and> 2 \<notin> set out \<and> marker_placed \<lparr> tb_max = Some 1, tb_end = Some 5 \<rparr> 2 toks
     \<and> bs_internal_tokens stats = length toks"
proof -
  have c: "nemo_check_context ex_block (length [1 :: nat] + ceil_div 4 (nr_block_length ex_block) * nr_block_length ex_block) = Inr ()"
    and ch: "0 < nc_prefill_chunk_size (nr_config ex_block)" by code_simp+
  have d: "nd_mask_id (nr_decoder ex_block) = 2" "nr_budget ex_block = \<lparr> tb_max = Some 1, tb_end = Some 5 \<rparr>"
    by (simp_all add: ex_block_def ex_nd_def)
  show ?thesis
    using block_diffusion_generates [OF ex_block_ready, of "[1]" 4 0 True None 0] c ch unfolding d by auto
qed

end
