(* ===== verification/Gemma.thy ===== *)
theory Gemma
  imports Threshold Causal_Cache
begin

text \<open>
  The Diffusion-Gemma decoder (execution/decoders/diffusion_gemma.py) and its dense runner
  (execution/runners/diffusion_gemma/block_diffusion.py).  A canvas is a list of tokens; there is no
  mask token, every step accepts the low-entropy positions and draws the others afresh.  The
  softmax \<open>sm\<close>, the entropy \<open>ent\<close> of a row of logits, the soft embeddings \<open>soft\<close> of a matrix of
  probabilities, the random draws and the model are arguments.
\<close>

section \<open>Sampling configuration\<close>

record gemma_config =
  gc_canvas_length :: nat
  gc_max_denoising_steps :: nat
  gc_t_min :: rat
  gc_t_max :: rat
  gc_entropy_bound :: rat
  gc_confidence_threshold :: rat
  gc_stability_threshold :: nat
  gc_vocab_size :: nat
  gc_eos_ids :: "token list"
  gc_pad_id :: token

text \<open>The optional settings of the runner configuration and of the checkpoint's generation config.\<close>

record gemma_options =
  go_canvas_length :: "nat option"
  go_max_denoising_steps :: "nat option"
  go_t_min :: "rat option"
  go_t_max :: "rat option"
  go_entropy_bound :: "rat option"
  go_confidence_threshold :: "rat option"
  go_stability_threshold :: "nat option"

record gemma_generation = gemma_options +
  gg_sampler_entropy_bound :: "rat option"
  gg_eos_token_id :: "token list option"

text \<open>\<open>a or b\<close>: an absent or zero value falls through.\<close>

definition py_or :: "'a::zero option \<Rightarrow> 'a \<Rightarrow> 'a" where
  "py_or a b = (case a of None \<Rightarrow> b | Some v \<Rightarrow> if v = 0 then b else v)"

definition dflt :: "'a option \<Rightarrow> 'a \<Rightarrow> 'a" where
  "dflt a b = (case a of None \<Rightarrow> b | Some v \<Rightarrow> v)"

definition gemma_normalize_eos_ids :: "token list \<Rightarrow> token list result" where
  "gemma_normalize_eos_ids values =
     (if fromkeys values = [] then Inl (ValueError ''Diffusion-Gemma requires at least one EOS token ID'')
      else Inr (fromkeys values))"

record gemma_decoder =
  gd_config :: gemma_config
  gd_mask_id :: token
  gd_eos_ids :: "token list"

definition gd_init :: "gemma_config \<Rightarrow> gemma_decoder result" where
  "gd_init c =
     (if gc_entropy_bound c \<le> 0 then Inl (ValueError ''Diffusion-Gemma entropy_bound must be positive'')
      else result_bind (gemma_normalize_eos_ids (gc_eos_ids c)) (\<lambda>ids.
        Inr \<lparr> gd_config = c, gd_mask_id = gc_pad_id c, gd_eos_ids = ids \<rparr>))"

definition gemma_init_decoder ::
  "gemma_options \<Rightarrow> gemma_generation \<Rightarrow> nat option \<Rightarrow> nat \<Rightarrow> token list \<Rightarrow> nat \<Rightarrow> token option \<Rightarrow> gemma_decoder result" where
  "gemma_init_decoder opts g model_canvas_length block_length text_eos vocab pad =
     result_bind (gemma_normalize_eos_ids (dflt (gg_eos_token_id g) text_eos)) (\<lambda>ids.
       gd_init
         \<lparr> gc_canvas_length = py_or (go_canvas_length opts) (py_or model_canvas_length block_length),
           gc_max_denoising_steps = py_or (go_max_denoising_steps opts) (dflt (go_max_denoising_steps g) 48),
           gc_t_min = dflt (go_t_min opts) (dflt (go_t_min g) 0),
           gc_t_max = dflt (go_t_max opts) (dflt (go_t_max g) 1),
           gc_entropy_bound = py_or (go_entropy_bound opts)
             (dflt (gg_sampler_entropy_bound g) (dflt (go_entropy_bound g) (1/10))),
           gc_confidence_threshold = py_or (go_confidence_threshold opts) (dflt (go_confidence_threshold g) (1/10)),
           gc_stability_threshold = py_or (go_stability_threshold opts) (py_or (Some (dflt (go_stability_threshold g) 1)) 1) + 1,
           gc_vocab_size = vocab, gc_eos_ids = ids, gc_pad_id = py_or pad 0 \<rparr>)"

definition gemma_eos_mask :: "gemma_decoder \<Rightarrow> token list \<Rightarrow> bool list" where
  "gemma_eos_mask D ids =
     fold (\<lambda>e m. tabulate (length ids) (\<lambda>i. m ! i \<or> ids ! i = e)) (gd_eos_ids D) (replicate (length ids) False)"

definition contains_eos :: "gemma_decoder \<Rightarrow> token list \<Rightarrow> bool" where
  "contains_eos D ids = any_row (gemma_eos_mask D ids)"

definition gemma_first_eos_index :: "gemma_decoder \<Rightarrow> token list \<Rightarrow> nat option" where
  "gemma_first_eos_index D ids = first_index id (gemma_eos_mask D ids)"

section \<open>One denoising step\<close>

record 'e gemma_state =
  gs_canvas :: "token list"
  gs_argmax_canvas :: "token list"
  gs_soft_embeds :: "'e option"
  gs_step :: nat
  gs_history :: "token list list"

definition new_state :: "token list \<Rightarrow> 'e gemma_state" where
  "new_state canvas = \<lparr> gs_canvas = canvas, gs_argmax_canvas = canvas, gs_soft_embeds = None, gs_step = 0, gs_history = [] \<rparr>"

definition step_temperature :: "gemma_config \<Rightarrow> nat \<Rightarrow> rat" where
  "step_temperature c n =
     (let remaining = max (int (gc_max_denoising_steps c) - int n) 1
      in gc_t_min c + (gc_t_max c - gc_t_min c) * (of_int remaining / of_nat (gc_max_denoising_steps c)))"

fun flt_scale :: "rat \<Rightarrow> flt \<Rightarrow> flt" where
  "flt_scale t (Fin a) = Fin (a / t)"
| "flt_scale t x = x"

definition scale_logits :: "gemma_config \<Rightarrow> nat \<Rightarrow> flt list list \<Rightarrow> flt list list" where
  "scale_logits c n logits = map (map (flt_scale (max (step_temperature c n) (1 / 10 ^ 10)))) logits"

text \<open>A position is accepted when the entropies of all positions sorted before it fit the budget.\<close>

definition accept_positions :: "rat \<Rightarrow> rat list \<Rightarrow> bool list" where
  "accept_positions bound entropy =
     (let order = argsort entropy; srt = map ((!) entropy) order;
          sorted_accept = tabulate (length srt) (\<lambda>k. sum_list (take (Suc k) srt) - srt ! k \<le> bound)
      in scatter (replicate (length entropy) False) order sorted_accept)"

text \<open>Append to the history and keep the last entries; whether the kept ones agree.\<close>

definition push_history :: "nat \<Rightarrow> 'a \<Rightarrow> 'a list \<Rightarrow> 'a list" where
  "push_history n x h = (let h' = h @ [x] in if length h' > n then tl h' else h')"

definition stable :: "nat \<Rightarrow> 'a list \<Rightarrow> bool" where
  "stable n h = (length h \<ge> n \<and> list_all (\<lambda>x. hd h = x) (tl h))"

definition confident :: "rat \<Rightarrow> rat list \<Rightarrow> bool" where
  "confident thr entropy = (sum_list entropy / of_nat (length entropy) < thr)"

definition gemma_step ::
  "(flt list \<Rightarrow> rat list) \<Rightarrow> (flt list \<Rightarrow> rat) \<Rightarrow> (rat list list \<Rightarrow> 'e) \<Rightarrow> gemma_config \<Rightarrow> flt list list
    \<Rightarrow> token list \<Rightarrow> token list \<Rightarrow> 'e gemma_state \<Rightarrow> bool \<times> 'e gemma_state" where
  "gemma_step sm ent soft c logits sampled random_tokens st =
     (let scaled = scale_logits c (gs_step st) logits;
          am = greedy scaled;
          entropy = map ent scaled;
          accept = accept_positions (gc_entropy_bound c) entropy;
          canvas = tabulate (length (gs_canvas st)) (\<lambda>i. if accept ! i then sampled ! i else random_tokens ! i);
          n = gs_step st + 1;
          history = push_history (gc_stability_threshold c) am (gs_history st);
          converged = stable (gc_stability_threshold c) history \<and> confident (gc_confidence_threshold c) entropy
            \<or> n \<ge> gc_max_denoising_steps c
      in (converged, \<lparr> gs_canvas = (if converged then am else canvas), gs_argmax_canvas = am,
            gs_soft_embeds = Some (soft (map sm scaled)), gs_step = n, gs_history = history \<rparr>))"

section \<open>The batched step\<close>

record 'e gemma_batch =
  gb_canvas :: "token list list"
  gb_argmax_canvas :: "token list list"
  gb_active :: "bool list"
  gb_steps :: "nat list"
  gb_soft_embeds :: "'e list option"
  gb_history :: "token list list list"

definition new_batch_state :: "token list list \<Rightarrow> 'e gemma_batch" where
  "new_batch_state canvas = \<lparr> gb_canvas = canvas, gb_argmax_canvas = canvas,
     gb_active = replicate (length canvas) True, gb_steps = replicate (length canvas) 0,
     gb_soft_embeds = None, gb_history = [] \<rparr>"

definition step_batch ::
  "(flt list \<Rightarrow> rat list) \<Rightarrow> (flt list \<Rightarrow> rat) \<Rightarrow> (rat list list \<Rightarrow> 'e) \<Rightarrow> gemma_config \<Rightarrow> flt list list list
    \<Rightarrow> token list list \<Rightarrow> token list list \<Rightarrow> 'e gemma_batch \<Rightarrow> bool list \<times> 'e gemma_batch" where
  "step_batch sm ent soft c logits sampled random_tokens st =
     (let B = length (gb_canvas st); active = gb_active st;
          scaled = tabulate B (\<lambda>b. scale_logits c (gb_steps st ! b) (logits ! b));
          am = map greedy scaled;
          entropy = map (map ent) scaled;
          proposed = tabulate B (\<lambda>b. let accept = accept_positions (gc_entropy_bound c) (entropy ! b)
            in tabulate (length (gb_canvas st ! b)) (\<lambda>i. if accept ! i then sampled ! b ! i else random_tokens ! b ! i));
          canvas = tabulate B (\<lambda>b. if active ! b then proposed ! b else gb_canvas st ! b);
          argmax_canvas = tabulate B (\<lambda>b. if active ! b then am ! b else gb_argmax_canvas st ! b);
          steps = tabulate B (\<lambda>b. gb_steps st ! b + (if active ! b then 1 else 0));
          history = push_history (gc_stability_threshold c) argmax_canvas (gb_history st);
          stab = (if length history \<ge> gc_stability_threshold c
            then tabulate B (\<lambda>b. list_all (\<lambda>item. item ! b = hd history ! b) (tl history))
            else replicate B False);
          converged = tabulate B (\<lambda>b. active ! b
            \<and> (stab ! b \<and> confident (gc_confidence_threshold c) (entropy ! b) \<or> steps ! b \<ge> gc_max_denoising_steps c));
          new_soft = map (\<lambda>rows. soft (map sm rows)) scaled;
          soft_embeds = (case gb_soft_embeds st of None \<Rightarrow> new_soft
            | Some old \<Rightarrow> tabulate B (\<lambda>b. if active ! b then new_soft ! b else old ! b))
      in (converged, \<lparr> gb_canvas = tabulate B (\<lambda>b. if converged ! b then argmax_canvas ! b else canvas ! b),
            gb_argmax_canvas = argmax_canvas, gb_active = tabulate B (\<lambda>b. active ! b \<and> \<not> converged ! b),
            gb_steps = steps, gb_soft_embeds = Some soft_embeds, gb_history = history \<rparr>))"
section \<open>Facts about the entropy budget\<close>

lemma length_accept_positions [simp]: "length (accept_positions bound entropy) = length entropy"
  by (simp add: accept_positions_def Let_def)

lemma accept_at_rank:
  assumes "k < length entropy"
  shows "accept_positions bound entropy ! (argsort entropy ! k)
    \<longleftrightarrow> sum_list (map ((!) entropy) (take k (argsort entropy))) \<le> bound"
proof -
  let ?o = "argsort entropy"
  have k: "k < length ?o" "?o ! k < length entropy" using assms nth_mem [of k ?o] by (auto simp del: nth_mem)
  have "accept_positions bound entropy ! (?o ! k)
      = tabulate (length entropy) (\<lambda>k. sum_list (take (Suc k) (map ((!) entropy) ?o)) - map ((!) entropy) ?o ! k \<le> bound) ! k"
    unfolding accept_positions_def Let_def length_map argsort_perm
    by (rule nth_scatter_unique) (use k in \<open>auto simp: nth_eq_iff_index_eq\<close>)
  also have "\<dots> \<longleftrightarrow> sum_list (take k (map ((!) entropy) ?o)) \<le> bound"
    using assms by (simp add: take_Suc_conv_app_nth)
  finally show ?thesis by (simp add: take_map)
qed

lemma argsort_sorted: "i \<le> j \<Longrightarrow> j < length xs \<Longrightarrow> xs ! (argsort xs ! i) \<le> xs ! (argsort xs ! j)"
  using sorted_nth_mono [of "map ((!) xs) (argsort xs)" i j] by (simp add: argsort_def)

lemma argsort_rank: "i < length xs \<Longrightarrow> \<exists>k < length xs. argsort xs ! k = i"
  using argsort_perm(1) [of xs] by (metis argsort_perm(3) atLeastLessThan_iff in_set_conv_nth le0)

text \<open>
  The acceptance rule of Diffusion-Gemma respects its entropy budget: an accepted position has
  at most the budget of entropy strictly below it, everything strictly below an accepted position is
  accepted too, and the least uncertain position is always accepted, so a step keeps something.
\<close>

lemma accept_within_budget:
  assumes nonneg: "\<And>i. i < length entropy \<Longrightarrow> 0 \<le> entropy ! i" and bound: "0 < bound" and ne: "entropy \<noteq> []"
  shows "(\<forall>i < length entropy. accept_positions bound entropy ! i \<longrightarrow>
        (\<Sum>j | j < length entropy \<and> entropy ! j < entropy ! i. entropy ! j) \<le> bound
        \<and> (\<forall>j < length entropy. entropy ! j < entropy ! i \<longrightarrow> accept_positions bound entropy ! j))
    \<and> (\<exists>i < length entropy. accept_positions bound entropy ! i \<and> (\<forall>j < length entropy. entropy ! i \<le> entropy ! j))"
proof (intro conjI allI impI)
  let ?o = "argsort entropy"
  have sumle: "sum_list (map ((!) entropy) (take a ?o)) \<le> sum_list (map ((!) entropy) (take b ?o))"
    if "a \<le> b" for a b
  proof -
    have "take b ?o = take a ?o @ take (b - a) (drop a ?o)" using that by (metis le_add_diff_inverse take_add)
    moreover have "0 \<le> sum_list (map ((!) entropy) (take (b - a) (drop a ?o)))"
    proof (rule sum_list_nonneg)
      fix x assume "x \<in> set (map ((!) entropy) (take (b - a) (drop a ?o)))"
      then obtain j where j: "j \<in> set ?o" "x = entropy ! j" unfolding set_map by (meson imageE in_set_dropD in_set_takeD)
      then have "j < length entropy" by simp
      with j nonneg show "0 \<le> x" by simp
    qed
    ultimately show ?thesis by simp
  qed
  fix i assume i: "i < length entropy" and acc: "accept_positions bound entropy ! i"
  obtain k where k: "k < length entropy" "?o ! k = i" using argsort_rank [OF i] by blast
  have kb: "sum_list (map ((!) entropy) (take k ?o)) \<le> bound" using accept_at_rank [OF k(1)] acc k(2) by simp
  have before: "\<exists>l < k. ?o ! l = j" if j: "j < length entropy" "entropy ! j < entropy ! i" for j
  proof -
    obtain l where l: "l < length entropy" "?o ! l = j" using argsort_rank [OF j(1)] by blast
    have "\<not> k \<le> l" using argsort_sorted [of k l entropy] l k j(2) by auto
    then have "l < k" by simp
    with l(2) show ?thesis by blast
  qed
  show "(\<Sum>j | j < length entropy \<and> entropy ! j < entropy ! i. entropy ! j) \<le> bound"
  proof -
    have dist: "distinct (take k ?o)" by simp
    have "{j. j < length entropy \<and> entropy ! j < entropy ! i} \<subseteq> set (take k ?o)"
    proof
      fix j assume "j \<in> {j. j < length entropy \<and> entropy ! j < entropy ! i}"
      then obtain l where "l < k" "?o ! l = j" using before by blast
      then show "j \<in> set (take k ?o)" using k(1) by (auto simp: in_set_conv_nth)
    qed
    moreover have "0 \<le> entropy ! j" if "j \<in> set (take k ?o)" for j
      using in_set_takeD [OF that] nonneg by simp
    ultimately have "(\<Sum>j | j < length entropy \<and> entropy ! j < entropy ! i. entropy ! j) \<le> (\<Sum>j \<in> set (take k ?o). entropy ! j)"
      by (intro sum_mono2) auto
    also have "\<dots> = sum_list (map ((!) entropy) (take k ?o))" using dist by (simp add: sum_list_distinct_conv_sum_set)
    finally show ?thesis using kb by simp
  qed
  fix j assume j: "j < length entropy" "entropy ! j < entropy ! i"
  obtain l where l: "l < k" "?o ! l = j" using before [OF j] by blast
  show "accept_positions bound entropy ! j"
    using accept_at_rank [of l entropy bound] l k(1) sumle [of l k] kb by simp
next
  let ?o = "argsort entropy"
  have L: "0 < length entropy" using ne by simp
  have "accept_positions bound entropy ! (?o ! 0)" using accept_at_rank [OF L, of bound] bound by simp
  moreover have "?o ! 0 < length entropy" using nth_mem [of 0 ?o] L by (auto simp del: nth_mem)
  moreover have "entropy ! (?o ! 0) \<le> entropy ! j" if "j < length entropy" for j
    using argsort_rank [OF that] argsort_sorted [of 0 _ entropy] by fastforce
  ultimately show "\<exists>i < length entropy. accept_positions bound entropy ! i \<and> (\<forall>j < length entropy. entropy ! i \<le> entropy ! j)"
    by blast
qed

lemma accept_within_budget_witness:
  "accept_positions (1/10) [1/20, 0, 3/5, 1/10] = [True, True, False, True]
   \<and> (\<Sum>j | j < 4 \<and> [1/20, 0, 3/5, 1/10] ! j < [1/20, 0, 3/5, 1/10 :: rat] ! 3. [1/20, 0, 3/5, 1/10 :: rat] ! j) \<le> 1/10"
proof -
  let ?e = "[1/20, 0, 3/5, 1/10 :: rat]"
  have a: "accept_positions (1/10) ?e = [True, True, False, True]" by code_simp
  have n: "0 \<le> ?e ! i" if "i < length ?e" for i
    using that by (simp add: less_Suc_eq numeral_2_eq_2 numeral_3_eq_3) auto
  have four: "length ?e = 4" by simp
  from accept_within_budget [OF n, of "1/10", THEN conjunct1, rule_format, of 3] a show ?thesis
    unfolding four by simp
qed
section \<open>The batched step, row by row\<close>

definition row_state :: "nat \<Rightarrow> 'e gemma_batch \<Rightarrow> 'e gemma_state" where
  "row_state b st = \<lparr> gs_canvas = gb_canvas st ! b, gs_argmax_canvas = gb_argmax_canvas st ! b,
     gs_soft_embeds = map_option (\<lambda>s. s ! b) (gb_soft_embeds st), gs_step = gb_steps st ! b,
     gs_history = map (\<lambda>h. h ! b) (gb_history st) \<rparr>"

definition gemma_batch_wf :: "nat \<Rightarrow> 'e gemma_batch \<Rightarrow> bool" where
  "gemma_batch_wf B st = (length (gb_canvas st) = B \<and> length (gb_argmax_canvas st) = B
     \<and> length (gb_active st) = B \<and> length (gb_steps st) = B)"

lemma map_push_history: "map f (push_history n x h) = push_history n (f x) (map f h)"
  by (simp add: push_history_def Let_def map_tl)

lemma push_history_nonempty: "0 < n \<Longrightarrow> push_history n x h \<noteq> []"
  by (cases h) (auto simp: push_history_def Let_def)

lemma stable_row:
  assumes "h \<noteq> []"
  shows "stable n (map f h) \<longleftrightarrow> n \<le> length h \<and> list_all (\<lambda>x. f x = f (hd h)) (tl h)"
  using assms by (auto simp: stable_def hd_map list_all_iff map_tl [symmetric])

lemma step_batch_wf: "gemma_batch_wf B st \<Longrightarrow> gemma_batch_wf B (snd (step_batch sm ent soft c lg sa rn st))"
  by (simp add: gemma_batch_wf_def step_batch_def Let_def)

lemma step_batch_active:
  assumes wf: "gemma_batch_wf B st" and b: "b < B" "gb_active st ! b" and n: "0 < gc_stability_threshold c"
  shows "row_state b (snd (step_batch sm ent soft c lg sa rn st))
      = snd (gemma_step sm ent soft c (lg ! b) (sa ! b) (rn ! b) (row_state b st))"
    and "fst (step_batch sm ent soft c lg sa rn st) ! b = fst (gemma_step sm ent soft c (lg ! b) (sa ! b) (rn ! b) (row_state b st))"
    and "gb_active (snd (step_batch sm ent soft c lg sa rn st)) ! b
      \<longleftrightarrow> \<not> fst (gemma_step sm ent soft c (lg ! b) (sa ! b) (rn ! b) (row_state b st))"
proof -
  let ?sc = "tabulate B (\<lambda>b. scale_logits c (gb_steps st ! b) (lg ! b))"
  let ?am = "tabulate B (\<lambda>b. if gb_active st ! b then map greedy ?sc ! b else gb_argmax_canvas st ! b)"
  let ?h = "push_history (gc_stability_threshold c) ?am (gb_history st)"
  have B: "length (gb_canvas st) = B" using wf by (simp add: gemma_batch_wf_def)
  have am: "?am ! b = greedy (scale_logits c (gb_steps st ! b) (lg ! b))" using b by simp
  have hist: "map (\<lambda>h. h ! b) ?h = push_history (gc_stability_threshold c)
      (greedy (scale_logits c (gb_steps st ! b) (lg ! b))) (map (\<lambda>h. h ! b) (gb_history st))"
    by (simp only: map_push_history am)
  have stb: "(if length ?h \<ge> gc_stability_threshold c
        then tabulate B (\<lambda>b. list_all (\<lambda>item. item ! b = hd ?h ! b) (tl ?h)) else replicate B False) ! b
      \<longleftrightarrow> stable (gc_stability_threshold c) (map (\<lambda>h. h ! b) ?h)"
    unfolding stable_row [OF push_history_nonempty [OF n]] using b by simp
  note defs = step_batch_def gemma_step_def row_state_def Let_def B stb [unfolded hist] hist
  show "fst (step_batch sm ent soft c lg sa rn st) ! b = fst (gemma_step sm ent soft c (lg ! b) (sa ! b) (rn ! b) (row_state b st))"
    using b by (simp add: defs)
  show "gb_active (snd (step_batch sm ent soft c lg sa rn st)) ! b
      \<longleftrightarrow> \<not> fst (gemma_step sm ent soft c (lg ! b) (sa ! b) (rn ! b) (row_state b st))"
    using b by (simp add: defs)
  show "row_state b (snd (step_batch sm ent soft c lg sa rn st))
      = snd (gemma_step sm ent soft c (lg ! b) (sa ! b) (rn ! b) (row_state b st))"
    using b by (simp add: defs split: option.splits)
qed

lemma step_batch_frozen:
  fixes st :: "'e gemma_batch" and sm ent soft c lg sa rn
  assumes wf: "gemma_batch_wf B st" and b: "b < B" "\<not> gb_active st ! b" and s: "gb_soft_embeds st \<noteq> None"
  defines "st' \<equiv> snd (step_batch sm ent soft c lg sa rn st)"
  shows "\<not> gb_active st' ! b" and "gb_canvas st' ! b = gb_canvas st ! b"
    and "gb_argmax_canvas st' ! b = gb_argmax_canvas st ! b" and "gb_steps st' ! b = gb_steps st ! b"
    and "map_option (\<lambda>s. s ! b) (gb_soft_embeds st') = map_option (\<lambda>s. s ! b) (gb_soft_embeds st)"
    and "gb_soft_embeds st' \<noteq> None"
  using b s wf by (auto simp: st'_def step_batch_def Let_def gemma_batch_wf_def)

text \<open>A row decoded alone stops at convergence; a batch goes on until its inputs end.\<close>

fun gemma_run ::
  "(flt list \<Rightarrow> rat list) \<Rightarrow> (flt list \<Rightarrow> rat) \<Rightarrow> (rat list list \<Rightarrow> 'e) \<Rightarrow> gemma_config
    \<Rightarrow> (flt list list \<times> token list \<times> token list) list \<Rightarrow> 'e gemma_state \<Rightarrow> bool \<times> 'e gemma_state" where
  "gemma_run sm ent soft c [] st = (False, st)"
| "gemma_run sm ent soft c ((lg, sa, rn) # inps) st =
     (let (cv, st') = gemma_step sm ent soft c lg sa rn st
      in if cv then (True, st') else gemma_run sm ent soft c inps st')"

fun gemma_batch_run ::
  "(flt list \<Rightarrow> rat list) \<Rightarrow> (flt list \<Rightarrow> rat) \<Rightarrow> (rat list list \<Rightarrow> 'e) \<Rightarrow> gemma_config
    \<Rightarrow> (flt list list list \<times> token list list \<times> token list list) list \<Rightarrow> 'e gemma_batch \<Rightarrow> 'e gemma_batch" where
  "gemma_batch_run sm ent soft c [] st = st"
| "gemma_batch_run sm ent soft c ((lg, sa, rn) # inps) st =
     gemma_batch_run sm ent soft c inps (snd (step_batch sm ent soft c lg sa rn st))"

definition input_row :: "nat \<Rightarrow> flt list list list \<times> token list list \<times> token list list \<Rightarrow> flt list list \<times> token list \<times> token list" where
  "input_row b inp = (case inp of (lg, sa, rn) \<Rightarrow> (lg ! b, sa ! b, rn ! b))"

definition same_row :: "nat \<Rightarrow> 'e gemma_batch \<Rightarrow> 'e gemma_state \<Rightarrow> bool" where
  "same_row b st s = (gb_canvas st ! b = gs_canvas s \<and> gb_argmax_canvas st ! b = gs_argmax_canvas s
     \<and> gb_steps st ! b = gs_step s \<and> map_option (\<lambda>x. x ! b) (gb_soft_embeds st) = gs_soft_embeds s)"

lemma batch_run_frozen:
  "\<lbrakk>gemma_batch_wf B st; b < B; \<not> gb_active st ! b; gb_soft_embeds st \<noteq> None; same_row b st s\<rbrakk>
   \<Longrightarrow> \<not> gb_active (gemma_batch_run sm ent soft c inps st) ! b \<and> same_row b (gemma_batch_run sm ent soft c inps st) s"
proof (induction inps arbitrary: st)
  case (Cons inp inps)
  obtain lg sa rn where inp: "inp = (lg, sa, rn)" by (cases inp)
  note fz = step_batch_frozen [OF Cons.prems(1-4), of sm ent soft c lg sa rn]
  have "same_row b (snd (step_batch sm ent soft c lg sa rn st)) s"
    using Cons.prems(5) fz by (simp add: same_row_def)
  then show ?case
    using Cons.IH [OF step_batch_wf [OF Cons.prems(1)] Cons.prems(2) fz(1,6)] by (simp add: inp)
qed simp

lemma batch_run_row:
  assumes n: "0 < gc_stability_threshold c"
  shows "\<lbrakk>gemma_batch_wf B st; b < B; gb_active st ! b\<rbrakk>
   \<Longrightarrow> (case gemma_run sm ent soft c (map (input_row b) inps) (row_state b st) of (cv, s) \<Rightarrow>
        same_row b (gemma_batch_run sm ent soft c inps st) s
        \<and> (gb_active (gemma_batch_run sm ent soft c inps st) ! b \<longleftrightarrow> \<not> cv))"
proof (induction inps arbitrary: st)
  case Nil
  then show ?case by (simp add: same_row_def row_state_def)
next
  case (Cons inp inps)
  obtain lg sa rn where inp: "inp = (lg, sa, rn)" by (cases inp)
  obtain cv s where g: "gemma_step sm ent soft c (lg ! b) (sa ! b) (rn ! b) (row_state b st) = (cv, s)" by fastforce
  let ?st = "snd (step_batch sm ent soft c lg sa rn st)"
  have a: "row_state b ?st = s" "gb_active ?st ! b \<longleftrightarrow> \<not> cv"
    using step_batch_active(1,3) [OF Cons.prems n, of sm ent soft lg sa rn] g by simp_all
  have wf: "gemma_batch_wf B ?st" by (rule step_batch_wf [OF Cons.prems(1)])
  show ?case
  proof (cases cv)
    case True
    have "same_row b ?st s" using a(1) by (auto simp: same_row_def row_state_def)
    moreover have "gb_soft_embeds ?st \<noteq> None" by (simp add: step_batch_def Let_def)
    ultimately show ?thesis
      using batch_run_frozen [OF wf Cons.prems(2)] a(2) True g by (simp add: inp input_row_def)
  next
    case False
    then show ?thesis using Cons.IH [OF wf Cons.prems(2)] a g by (simp add: inp input_row_def)
  qed
qed

text \<open>
  C30: Batched Diffusion-Gemma decoding is row-wise: after any sequence of batched steps every row
  has the canvas, the argmax canvas, the step count and the soft embeddings that decoding it alone
  on its own logits and draws gives, stopped at its convergence, and it is active exactly when it
  has not converged; no row is changed after it converged or by another row.
\<close>

theorem batch_decoding_rowwise:
  fixes inps :: "(flt list list list \<times> token list list \<times> token list list) list" and soft :: "rat list list \<Rightarrow> 'e"
  assumes "0 < gc_stability_threshold c" and "b < length canvases"
  shows "case gemma_run sm ent soft c (map (input_row b) inps) (new_state (canvases ! b)) of (cv, s) \<Rightarrow>
      same_row b (gemma_batch_run sm ent soft c inps (new_batch_state canvases)) s
      \<and> (gb_active (gemma_batch_run sm ent soft c inps (new_batch_state canvases)) ! b \<longleftrightarrow> \<not> cv)"
proof -
  have "row_state b (new_batch_state canvases :: 'e gemma_batch) = new_state (canvases ! b)"
    using assms(2) by (simp add: row_state_def new_batch_state_def new_state_def)
  moreover have "gemma_batch_wf (length canvases) (new_batch_state canvases :: 'e gemma_batch)"
    and "gb_active (new_batch_state canvases :: 'e gemma_batch) ! b"
    using assms(2) by (simp_all add: gemma_batch_wf_def new_batch_state_def)
  ultimately show ?thesis using batch_run_row [OF assms(1) _ assms(2)] by metis
qed
definition ex_gc :: gemma_config where
  "ex_gc = \<lparr> gc_canvas_length = 2, gc_max_denoising_steps = 3, gc_t_min = 0, gc_t_max = 1, gc_entropy_bound = 1/10,
     gc_confidence_threshold = 1/10, gc_stability_threshold = 2, gc_vocab_size = 3, gc_eos_ids = [0], gc_pad_id = 0 \<rparr>"

theorem batch_decoding_rowwise_witness:
  "gb_canvas (gemma_batch_run ex_softmax (\<lambda>_. 0) (\<lambda>p. p) ex_gc
       (replicate 2 ([ex_td_logits, ex_td_logits], [[0, 0], [2, 2]], [[1, 1], [1, 1]])) (new_batch_state [[2, 2], [1, 0]])) ! 1
     = gs_canvas (snd (gemma_run ex_softmax (\<lambda>_. 0) (\<lambda>p. p) ex_gc
       (replicate 2 (ex_td_logits, [2, 2], [1, 1])) (new_state [1, 0])))"
  using batch_decoding_rowwise [of ex_gc 1 "[[2, 2], [1, 0]]" ex_softmax "\<lambda>_. 0" "\<lambda>p. p"
      "replicate 2 ([ex_td_logits, ex_td_logits], [[0, 0], [2, 2]], [[1, 1], [1, 1]])"]
  by (auto simp: ex_gc_def same_row_def input_row_def split: prod.splits)

section \<open>The dense runner\<close>

record gemma_server_args =
  gsa_pp_size :: nat
  gsa_dp_size :: nat
  gsa_tp_size :: nat
  gsa_ep_size :: nat
  gsa_enable_dp_attention :: bool

definition gemma_runner_checks :: "bool \<Rightarrow> (string \<times> bool) option \<Rightarrow> gemma_server_args \<Rightarrow> unit result" where
  "gemma_runner_checks supports_flashinfer rc a =
     (if (case rc of None \<Rightarrow> False | Some (backend, _) \<Rightarrow> backend = ''flashinfer'') \<and> \<not> supports_flashinfer
      then Inl (ValueError ''Use DiffusionGemmaFlashInferRunner for FlashInfer'')
      else if (case rc of None \<Rightarrow> False | Some (_, prefill_graph) \<Rightarrow> prefill_graph)
      then Inl (ValueError ''Diffusion-Gemma supports decode CUDA graphs only'')
      else if gsa_pp_size a \<noteq> 1 \<or> gsa_dp_size a \<noteq> 1 then Inl (ValueError ''Diffusion-Gemma supports single-DP and no PP'')
      else if gsa_enable_dp_attention a then Inl (ValueError ''Diffusion-Gemma does not support DP attention yet'')
      else if gsa_tp_size a \<noteq> gsa_ep_size a
      then Inl (ValueError ''Diffusion-Gemma requires TP and EP to use the same world size'')
      else Inr ())"

text \<open>
  The model: token input (prefill and commit) or a canvas with its self-conditioning embeddings,
  positions, the cells of the prefix and the mask give the logits and the cells with the new ones.
\<close>

datatype 'e gemma_input = Tokens "token list" | Self_Conditioned "token list" "'e option"

type_synonym ('v, 'e) gemma_fwd =
  "'e gemma_input \<Rightarrow> nat list \<Rightarrow> 'v list \<Rightarrow> bool list list \<Rightarrow> flt list list \<times> 'v list"

record 'g gemma_rng =
  gr_randint :: "nat \<Rightarrow> nat \<Rightarrow> 'g \<Rightarrow> token list \<times> 'g"
  gr_multinomial :: "rat list list \<Rightarrow> 'g \<Rightarrow> token list \<times> 'g"

record ('v, 'g) gemma_run_state =
  grs_cache :: "'v list"
  grs_gen :: 'g
  grs_forwards :: nat

text \<open>One denoising forward with the draws of the step.\<close>

definition denoise_once ::
  "(flt list \<Rightarrow> rat list) \<Rightarrow> (flt list \<Rightarrow> rat) \<Rightarrow> (rat list list \<Rightarrow> 'e) \<Rightarrow> 'g gemma_rng \<Rightarrow> ('v, 'e) gemma_fwd
    \<Rightarrow> gemma_config \<Rightarrow> nat \<Rightarrow> 'e gemma_state \<Rightarrow> ('v, 'g) gemma_run_state
    \<Rightarrow> bool \<times> 'e gemma_state \<times> ('v, 'g) gemma_run_state" where
  "denoise_once sm ent soft R fwd c prefix_len st rs =
     (let n = gc_canvas_length c;
          logits = fst (fwd (Self_Conditioned (gs_canvas st) (gs_soft_embeds st)) [prefix_len..<prefix_len + n]
            (grs_cache rs) (bidirectional_mask n prefix_len));
          (sampled, g1) = gr_multinomial R (map sm (scale_logits c (gs_step st) logits)) (grs_gen rs);
          (random_tokens, g2) = gr_randint R (gc_vocab_size c) n g1;
          (converged, st') = gemma_step sm ent soft c logits sampled random_tokens st
      in (converged, st', rs\<lparr>grs_gen := g2, grs_forwards := grs_forwards rs + 1\<rparr>))"

fun gemma_denoise_loop ::
  "(flt list \<Rightarrow> rat list) \<Rightarrow> (flt list \<Rightarrow> rat) \<Rightarrow> (rat list list \<Rightarrow> 'e) \<Rightarrow> 'g gemma_rng \<Rightarrow> ('v, 'e) gemma_fwd
    \<Rightarrow> gemma_config \<Rightarrow> nat \<Rightarrow> nat \<Rightarrow> nat \<Rightarrow> 'e gemma_state \<Rightarrow> ('v, 'g) gemma_run_state
    \<Rightarrow> nat \<times> 'e gemma_state \<times> ('v, 'g) gemma_run_state" where
  "gemma_denoise_loop sm ent soft R fwd c prefix_len 0 canvas_steps st rs = (canvas_steps, st, rs)"
| "gemma_denoise_loop sm ent soft R fwd c prefix_len (Suc k) canvas_steps st rs =
     (let (converged, st', rs') = denoise_once sm ent soft R fwd c prefix_len st rs
      in if converged then (canvas_steps + 1, st', rs')
         else gemma_denoise_loop sm ent soft R fwd c prefix_len k (canvas_steps + 1) st' rs')"

text \<open>A canvas from its random start to the causal commit of its argmax tokens.\<close>

definition gemma_canvas ::
  "(flt list \<Rightarrow> rat list) \<Rightarrow> (flt list \<Rightarrow> rat) \<Rightarrow> (rat list list \<Rightarrow> 'e) \<Rightarrow> 'g gemma_rng \<Rightarrow> ('v, 'e) gemma_fwd
    \<Rightarrow> gemma_config \<Rightarrow> nat \<Rightarrow> ('v, 'g) gemma_run_state \<Rightarrow> token list \<times> nat \<times> ('v, 'g) gemma_run_state" where
  "gemma_canvas sm ent soft R fwd c prefix_len rs =
     (let (canvas, g) = gr_randint R (gc_vocab_size c) (gc_canvas_length c) (grs_gen rs);
          (dsteps, st, rs1) = gemma_denoise_loop sm ent soft R fwd c prefix_len (gc_max_denoising_steps c) 0
            (new_state canvas) (rs\<lparr>grs_gen := g\<rparr>);
          present = snd (fwd (Tokens (gs_argmax_canvas st)) [prefix_len..<prefix_len + gc_canvas_length c]
            (grs_cache rs1) (causal_mask (gc_canvas_length c) prefix_len))
      in (gs_argmax_canvas st, dsteps, rs1\<lparr>grs_cache := present, grs_forwards := grs_forwards rs1 + 1\<rparr>))"

function gemma_loop ::
  "(flt list \<Rightarrow> rat list) \<Rightarrow> (flt list \<Rightarrow> rat) \<Rightarrow> (rat list list \<Rightarrow> 'e) \<Rightarrow> 'g gemma_rng \<Rightarrow> ('v, 'e) gemma_fwd
    \<Rightarrow> gemma_decoder \<Rightarrow> bool \<Rightarrow> nat \<Rightarrow> nat \<Rightarrow> token list \<Rightarrow> nat \<Rightarrow> ('v, 'g) gemma_run_state
    \<Rightarrow> token list \<times> nat \<times> ('v, 'g) gemma_run_state" where
  "gemma_loop sm ent soft R fwd D early_stop prompt_len remaining emitted dsteps rs =
     (let c = gd_config D; tk = min remaining (gc_canvas_length c)
      in if remaining = 0 \<or> gc_canvas_length c = 0 then (emitted, dsteps, rs)
         else let (argmax_canvas, n, rs') = gemma_canvas sm ent soft R fwd c (prompt_len + length emitted) rs;
                  piece = take tk argmax_canvas
              in if early_stop \<and> contains_eos D piece then (emitted @ piece, dsteps + n, rs')
                 else gemma_loop sm ent soft R fwd D early_stop prompt_len (remaining - tk) (emitted @ piece) (dsteps + n) rs')"
  by pat_completeness auto
termination
  by (relation "measure (\<lambda>(sm, ent, soft, R, fwd, D, es, p, remaining, em, n, rs). remaining)") auto

declare gemma_loop.simps [simp del]

definition gemma_generate_one ::
  "(flt list \<Rightarrow> rat list) \<Rightarrow> (flt list \<Rightarrow> rat) \<Rightarrow> (rat list list \<Rightarrow> 'e) \<Rightarrow> 'g gemma_rng \<Rightarrow> ('v, 'e) gemma_fwd
    \<Rightarrow> gemma_decoder \<Rightarrow> bool \<Rightarrow> 'g \<Rightarrow> nat \<Rightarrow> token list \<Rightarrow> nat
    \<Rightarrow> (token list \<times> nat \<times> ('v, 'g) gemma_run_state) result" where
  "gemma_generate_one sm ent soft R fwd D early_stop g forwards prompt generation_length =
     (if gc_canvas_length (gd_config D) = 0 then Inl (RuntimeError ''ZeroDivisionError'')
      else let present = snd (fwd (Tokens prompt) [0..<length prompt] [] (causal_mask (length prompt) 0))
           in Inr (gemma_loop sm ent soft R fwd D early_stop (length prompt) generation_length [] 0
                \<lparr> grs_cache = present, grs_gen = g, grs_forwards = forwards + 1 \<rparr>))"

definition gemma_generate ::
  "(flt list \<Rightarrow> rat list) \<Rightarrow> (flt list \<Rightarrow> rat) \<Rightarrow> (rat list list \<Rightarrow> 'e) \<Rightarrow> 'g gemma_rng \<Rightarrow> ('v, 'e) gemma_fwd
    \<Rightarrow> gemma_decoder \<Rightarrow> bool \<Rightarrow> int \<Rightarrow> 'g \<Rightarrow> nat \<Rightarrow> nat \<Rightarrow> token list list \<Rightarrow> nat list option \<Rightarrow> int list option
    \<Rightarrow> (token list list \<times> nat list \<times> 'g \<times> nat) result" where
  "gemma_generate sm ent soft R fwd D early_stop gen_length g forwards padded_prompt_len prompts prompt_lengths generation_lengths =
     (let B = length prompts; pad = gc_pad_id (gd_config D);
          pls = (case prompt_lengths of None \<Rightarrow> map (\<lambda>p. length (filter (\<lambda>t. t \<noteq> pad) p)) prompts | Some ls \<Rightarrow> ls);
          gls = (case generation_lengths of None \<Rightarrow> replicate B gen_length | Some ls \<Rightarrow> ls)
      in if length pls \<noteq> B then Inl (ValueError ''prompt_lengths must contain one value per batch row'')
         else if length gls \<noteq> B then Inl (ValueError ''generation_lengths must contain one value per batch row'')
         else if list_ex (\<lambda>v. v < 0) gls then Inl (ValueError ''generation_lengths must be non-negative'')
         else let padded_gen = nat (fold max gls 0)
              in result_fold (\<lambda>i (rows, dsteps, g', n).
                   let prompt = take (pls ! i) (prompts ! i)
                   in result_bind (gemma_generate_one sm ent soft R fwd D early_stop g' n prompt (nat (gls ! i))) (\<lambda>(out, k, rs).
                      result_bind (output_row pad padded_prompt_len padded_gen (pls ! i) prompt out) (\<lambda>row.
                      Inr (rows @ [row], dsteps @ [k], grs_gen rs, grs_forwards rs))))
                 [0..<B] ([], [], g, forwards))"
section \<open>Generation\<close>

definition gemma_model_ok ::
  "('v, 'e) gemma_fwd \<Rightarrow> 'g gemma_rng \<Rightarrow> (token list \<Rightarrow> 'v) \<Rightarrow> bool" where
  "gemma_model_ok fwd R cell =
     ((\<forall>ts b. b \<noteq> [] \<longrightarrow> snd (fwd (Tokens b) [length ts..<length ts + length b] (cells cell ts)
          (causal_mask (length b) (length ts))) = cells cell (ts @ b))
      \<and> (\<forall>cv se pos past msk. length (fst (fwd (Self_Conditioned cv se) pos past msk)) = length cv)
      \<and> (\<forall>v n g. length (fst (gr_randint R v n g)) = n))"

lemma gemma_step_lengths:
  assumes "gemma_step sm ent soft c logits sa rn st = (cv, st')" and "length logits = n" and "length (gs_canvas st) = n"
  shows "length (gs_canvas st') = n" and "length (gs_argmax_canvas st') = n"
proof -
  have st': "st' = snd (gemma_step sm ent soft c logits sa rn st)" using assms(1) by simp
  have l: "length (scale_logits c k logits) = n" for k using assms(2) by (simp add: scale_logits_def)
  show "length (gs_canvas st') = n" "length (gs_argmax_canvas st') = n"
    unfolding st' gemma_step_def Let_def using assms(3) l by (simp_all add: greedy_def)
qed

lemma gemma_denoise_loop_ok:
  assumes M: "gemma_model_ok fwd R cell"
  shows "\<lbrakk>length (gs_canvas st) = n; length (gs_argmax_canvas st) = n\<rbrakk> \<Longrightarrow>
    \<exists>m st' rs'. gemma_denoise_loop sm ent soft R fwd c p k s st rs = (s + m, st', rs')
      \<and> m \<le> k \<and> length (gs_argmax_canvas st') = n \<and> grs_cache rs' = grs_cache rs \<and> grs_forwards rs' = grs_forwards rs + m"
proof (induction k arbitrary: s st rs)
  case 0
  then show ?case by simp
next
  case (Suc k)
  let ?lg = "fst (fwd (Self_Conditioned (gs_canvas st) (gs_soft_embeds st)) [p..<p + gc_canvas_length c]
            (grs_cache rs) (bidirectional_mask (gc_canvas_length c) p))"
  have lg: "length ?lg = n" using M Suc.prems(1) by (simp add: gemma_model_ok_def)
  obtain cv st1 rs1 where d: "denoise_once sm ent soft R fwd c p st rs = (cv, st1, rs1)" by (cases "denoise_once sm ent soft R fwd c p st rs")
  have r1: "grs_cache rs1 = grs_cache rs" "grs_forwards rs1 = grs_forwards rs + 1"
    using d by (auto simp: denoise_once_def Let_def split: prod.splits)
  have "\<exists>sa rn. gemma_step sm ent soft c ?lg sa rn st = (cv, st1)"
    using d by (auto simp: denoise_once_def Let_def split: prod.splits)
  then have l1: "length (gs_canvas st1) = n" "length (gs_argmax_canvas st1) = n"
    using gemma_step_lengths [OF _ lg Suc.prems(1)] by blast+
  show ?case
  proof (cases cv)
    case True
    then show ?thesis using d r1 l1 by (intro exI [of _ 1] exI [of _ st1] exI [of _ rs1]) simp
  next
    case False
    from Suc.IH [OF l1, of "s + 1" rs1] obtain m st' rs' where
      "gemma_denoise_loop sm ent soft R fwd c p k (s + 1) st1 rs1 = (s + 1 + m, st', rs')"
      "m \<le> k" "length (gs_argmax_canvas st') = n" "grs_cache rs' = grs_cache rs1" "grs_forwards rs' = grs_forwards rs1 + m"
      by blast
    then show ?thesis using d r1 False by (intro exI [of _ "Suc m"] exI [of _ st'] exI [of _ rs']) simp
  qed
qed

lemma gemma_canvas_ok:
  fixes rs :: "('v, 'g) gemma_run_state"
  assumes M: "gemma_model_ok fwd R cell" and L: "0 < gc_canvas_length c" and pre: "grs_cache rs = cells cell ts"
  obtains blk m rs' where "gemma_canvas sm ent soft R fwd c (length ts) rs = (blk, m, rs')"
    and "length blk = gc_canvas_length c" and "m \<le> gc_max_denoising_steps c"
    and "grs_cache rs' = cells cell (ts @ blk)" and "grs_forwards rs' = grs_forwards rs + m + 1"
proof -
  let ?n = "gc_canvas_length c"
  obtain canvas g where g: "gr_randint R (gc_vocab_size c) ?n (grs_gen rs) = (canvas, g)" by fastforce
  have "length (fst (gr_randint R (gc_vocab_size c) ?n (grs_gen rs))) = ?n" using M by (simp add: gemma_model_ok_def)
  then have lc: "length canvas = ?n" using g by simp
  obtain m st rs1 where d: "gemma_denoise_loop sm ent soft R fwd c (length ts) (gc_max_denoising_steps c) 0 (new_state canvas) (rs\<lparr>grs_gen := g\<rparr>) = (0 + m, st, rs1)"
    and r: "m \<le> gc_max_denoising_steps c" "length (gs_argmax_canvas st) = ?n" "grs_cache rs1 = grs_cache rs"
      "grs_forwards rs1 = grs_forwards rs + m"
    using gemma_denoise_loop_ok [OF M, of "new_state canvas" ?n sm ent soft c "length ts" "gc_max_denoising_steps c" 0 "rs\<lparr>grs_gen := g\<rparr>"] lc
    by (auto simp: new_state_def)
  have ne: "gs_argmax_canvas st \<noteq> []" using r(2) L by auto
  have "snd (fwd (Tokens (gs_argmax_canvas st)) [length ts..<length ts + ?n] (cells cell ts) (causal_mask ?n (length ts)))
      = cells cell (ts @ gs_argmax_canvas st)"
    using M [unfolded gemma_model_ok_def, THEN conjunct1, rule_format, OF ne, of ts] unfolding r(2) .
  then have "gemma_canvas sm ent soft R fwd c (length ts) rs
      = (gs_argmax_canvas st, m, rs1\<lparr>grs_cache := cells cell (ts @ gs_argmax_canvas st), grs_forwards := grs_forwards rs1 + 1\<rparr>)"
    using d r(3) pre by (simp add: gemma_canvas_def g Let_def)
  then show ?thesis by (rule that) (use r in simp_all)
qed

lemma contains_eos_iff: "contains_eos D ids \<longleftrightarrow> set ids \<inter> set (gd_eos_ids D) \<noteq> {}"
proof -
  have "length (fold (\<lambda>e m. tabulate n (\<lambda>i. m ! i \<or> ids ! i = e)) es h) = n" if "length h = n" for n es h
    using that by (induction es arbitrary: h) simp_all
  then have len: "length (gemma_eos_mask D ids) = length ids" by (simp add: gemma_eos_mask_def)
  have "fold (\<lambda>e m. tabulate (length ids) (\<lambda>i. m ! i \<or> ids ! i = e)) es h ! i \<longleftrightarrow> h ! i \<or> ids ! i \<in> set es"
    if "i < length ids" for i es h using that by (induction es arbitrary: h) auto
  then have "gemma_eos_mask D ids ! i \<longleftrightarrow> ids ! i \<in> set (gd_eos_ids D)" if "i < length ids" for i
    using that by (simp add: gemma_eos_mask_def)
  then show ?thesis by (auto simp: contains_eos_def any_row_iff len) (metis in_set_conv_nth disjoint_iff)+
qed

text \<open>
  The state of a run of \<open>j\<close> canvases: the committed tokens, the returned ones, and what an early stop
  has seen.
\<close>

definition gemma_result ::
  "gemma_decoder \<Rightarrow> bool \<Rightarrow> nat \<Rightarrow> nat \<Rightarrow> token list \<Rightarrow> token list \<Rightarrow> bool" where
  "gemma_result D es gen j toks out =
     (let L = gc_canvas_length (gd_config D) in
      length toks = j * L \<and> out = take gen toks \<and> (j - 1) * L < gen
      \<and> (length out = gen \<or> es \<and> set (drop ((j - 1) * L) out) \<inter> set (gd_eos_ids D) \<noteq> {})
      \<and> (es \<longrightarrow> set (take ((j - 1) * L) out) \<inter> set (gd_eos_ids D) = {}))"

lemma gemma_loop_ok:
  fixes rs :: "('v, 'g) gemma_run_state"
  assumes M: "gemma_model_ok fwd R cell" and L: "0 < gc_canvas_length (gd_config D)"
  shows "\<lbrakk>0 < remaining; length emitted = j * gc_canvas_length (gd_config D); gen = length emitted + remaining;
     grs_cache rs = cells cell (prompt @ emitted); es \<longrightarrow> set emitted \<inter> set (gd_eos_ids D) = {}\<rbrakk> \<Longrightarrow>
    \<exists>toks out n rs' j'. gemma_loop sm ent soft R fwd D es (length prompt) remaining emitted s rs = (out, s + n, rs')
      \<and> j < j' \<and> gemma_result D es gen j' toks out \<and> grs_cache rs' = cells cell (prompt @ toks)
      \<and> n \<le> (j' - j) * gc_max_denoising_steps (gd_config D)
      \<and> grs_forwards rs' = grs_forwards rs + n + (j' - j)"
proof (induction remaining arbitrary: emitted j s rs rule: less_induct)
  case (less remaining)
  let ?c = "gd_config D" and ?L = "gc_canvas_length (gd_config D)" and ?E = "set (gd_eos_ids D)"
  let ?tk = "min remaining ?L"
  have pre: "grs_cache rs = cells cell (prompt @ emitted)" using less.prems(4) by simp
  obtain blk m rs1 where cv: "gemma_canvas sm ent soft R fwd ?c (length (prompt @ emitted)) rs = (blk, m, rs1)"
    and b: "length blk = ?L" "m \<le> gc_max_denoising_steps ?c" "grs_cache rs1 = cells cell ((prompt @ emitted) @ blk)"
      "grs_forwards rs1 = grs_forwards rs + m + 1"
    by (rule gemma_canvas_ok [OF M L pre])
  have unf: "gemma_loop sm ent soft R fwd D es (length prompt) remaining emitted s rs =
      (if es \<and> contains_eos D (take ?tk blk) then (emitted @ take ?tk blk, s + m, rs1)
       else gemma_loop sm ent soft R fwd D es (length prompt) (remaining - ?tk) (emitted @ take ?tk blk) (s + m) rs1)"
    using cv L less.prems(1) by (subst gemma_loop.simps) (simp add: Let_def)
  have out: "emitted @ take ?tk blk = take gen (emitted @ blk)" using less.prems(3) b(1) by (simp add: min_def)
  have lt: "length (emitted @ blk) = Suc j * ?L" using less.prems(2) b(1) by simp
  have res: "gemma_result D es gen (Suc j) (emitted @ blk) (emitted @ take ?tk blk)"
    if "length (emitted @ take ?tk blk) = gen \<or> es \<and> contains_eos D (take ?tk blk)"
    using that less.prems lt out by (auto simp: gemma_result_def Let_def contains_eos_iff)
  show ?case
  proof (cases "es \<and> contains_eos D (take ?tk blk)")
    case True
    then show ?thesis using unf res b
      by (intro exI [of _ "emitted @ blk"] exI [of _ "emitted @ take ?tk blk"] exI [of _ m] exI [of _ rs1] exI [of _ "Suc j"]) simp
  next
    case False
    show ?thesis
    proof (cases "remaining \<le> ?L")
      case True
      then have "length (emitted @ take ?tk blk) = gen" using less.prems(3) b(1) by simp
      moreover have "gemma_loop sm ent soft R fwd D es (length prompt) remaining emitted s rs = (emitted @ take ?tk blk, s + m, rs1)"
        unfolding unf using False True by (simp add: gemma_loop.simps Let_def)
      ultimately show ?thesis using res b
        by (intro exI [of _ "emitted @ blk"] exI [of _ "emitted @ take ?tk blk"] exI [of _ m] exI [of _ rs1] exI [of _ "Suc j"]) simp
    next
      case more: False
      then have tk: "?tk = ?L" "take ?L blk = blk" using b(1) by simp_all
      have noe: "es \<longrightarrow> set (emitted @ blk) \<inter> ?E = {}" using less.prems(5) False tk by (auto simp: contains_eos_iff)
      have rem: "0 < remaining - ?L" "remaining - ?L < remaining" using more L by simp_all
      have gen: "gen = length (emitted @ blk) + (remaining - ?L)" using less.prems(3) b(1) more by simp
      have cs: "grs_cache rs1 = cells cell (prompt @ emitted @ blk)" using b(3) by simp
      obtain toks out n rs' j' where
        lp: "gemma_loop sm ent soft R fwd D es (length prompt) (remaining - ?L) (emitted @ blk) (s + m) rs1 = (out, s + m + n, rs')"
        and r: "Suc j < j'" "gemma_result D es gen j' toks out" "grs_cache rs' = cells cell (prompt @ toks)"
          "n \<le> (j' - Suc j) * gc_max_denoising_steps ?c" "grs_forwards rs' = grs_forwards rs1 + n + (j' - Suc j)"
        using less.IH [OF rem(2,1) lt gen cs noe] by blast
      have eq: "gemma_loop sm ent soft R fwd D es (length prompt) remaining emitted s rs = (out, s + (m + n), rs')"
        using unf False lp unfolding tk by (simp add: add.assoc)
      have "m + n \<le> (j' - j) * gc_max_denoising_steps ?c"
      proof -
        have "j' - j = Suc (j' - Suc j)" using r(1) by simp
        then show ?thesis using r(4) b(2) by simp
      qed
      then show ?thesis using r b(4)
        by (intro exI [of _ toks] exI [of _ out] exI [of _ "m + n"] exI [of _ rs'] exI [of _ j'] conjI eq) simp_all
    qed
  qed
qed
text \<open>
  C6: Diffusion-Gemma generation terminates: with a positive budget and canvas length it decodes
  \<open>j\<close> canvases, each in at most \<open>max_denoising_steps\<close> steps; the returned tokens are the committed
  canvases cut to the budget, they fill the budget unless an early stop found an end-of-sequence
  token in the last canvas, and no earlier canvas has one; the cache holds the causal cells of the
  prompt and of every committed canvas; and the forwards are one prefill, the denoising steps and
  one commit per canvas.
\<close>

theorem gemma_generates:
  fixes g :: 'g and fwd :: "('v, 'e) gemma_fwd"
  assumes M: "gemma_model_ok fwd R cell" and L: "0 < gc_canvas_length (gd_config D)"
    and ne: "prompt \<noteq> []" and gen: "0 < gen"
  shows "\<exists>out n rs toks j. gemma_generate_one sm ent soft R fwd D es g f0 prompt gen = Inr (out, n, rs)
      \<and> 0 < j \<and> gemma_result D es gen j toks out \<and> grs_cache rs = cells cell (prompt @ toks)
      \<and> n \<le> j * gc_max_denoising_steps (gd_config D) \<and> grs_forwards rs = f0 + 1 + n + j"
proof -
  have "snd (fwd (Tokens prompt) [0..<length prompt] [] (causal_mask (length prompt) 0)) = cells cell prompt"
    using M [unfolded gemma_model_ok_def, THEN conjunct1, rule_format, OF ne, of "[]"] by simp
  then have eq: "gemma_generate_one sm ent soft R fwd D es g f0 prompt gen =
      Inr (gemma_loop sm ent soft R fwd D es (length prompt) gen [] 0
        \<lparr> grs_cache = cells cell prompt, grs_gen = g, grs_forwards = f0 + 1 \<rparr>)"
    using L by (simp add: gemma_generate_one_def Let_def)
  show ?thesis unfolding eq
    using gemma_loop_ok [OF M L gen, of "[]" 0 gen "\<lparr> grs_cache = cells cell prompt, grs_gen = g, grs_forwards = f0 + 1 \<rparr>"
        prompt es sm ent soft 0] by auto
qed

definition ex_gfwd :: "(nat, nat) gemma_fwd" where
  "ex_gfwd inp pos past msk = (case inp of
     Tokens b \<Rightarrow> ([], past @ b) | Self_Conditioned cv se \<Rightarrow> (map (\<lambda>_. [Fin 0, Fin 1, Fin 0]) cv, past))"

definition ex_grng :: "nat gemma_rng" where
  "ex_grng = \<lparr> gr_randint = (\<lambda>v n g. (replicate n (g mod v), Suc g)), gr_multinomial = (\<lambda>ps g. (map (\<lambda>_. 1) ps, Suc g)) \<rparr>"

definition ex_gd :: gemma_decoder where
  "ex_gd = \<lparr> gd_config = ex_gc, gd_mask_id = 0, gd_eos_ids = [0] \<rparr>"

lemma ex_gemma_model: "gemma_model_ok ex_gfwd ex_grng last"
  by (simp add: gemma_model_ok_def ex_gfwd_def ex_grng_def cells_last)

theorem gemma_generates_witness:
  "\<exists>out n rs toks j. gemma_generate_one ex_softmax (\<lambda>_. 0) (\<lambda>p. 0) ex_grng ex_gfwd ex_gd True 0 0 [1, 2] 3 = Inr (out, n, rs)
     \<and> gemma_result ex_gd True 3 j toks out \<and> grs_forwards rs = 1 + n + j"
proof -
  have "0 < gc_canvas_length (gd_config ex_gd)" by code_simp
  then show ?thesis
    using gemma_generates [OF ex_gemma_model, of ex_gd "[1, 2]" 3 ex_softmax "\<lambda>_. 0" "\<lambda>p. 0" True 0 0] by auto
qed

end
