(* ===== verification/Parallel.thy ===== *)
theory Parallel
  imports Prelude
begin

text \<open>
  The vocabulary of the tensor-parallel layers: \<open>divide\<close> and the collectives of
  distributed/__init__.py, and what the layers use of PyTorch (\<open>narrow\<close>, \<open>F.linear\<close>).  A tensor is
  the list of its slices along its first dimension; entries are elements of a commutative ring, so
  sums are exact.  A collective is a function of the tensors of all ranks, in rank order.
\<close>

section \<open>Operations\<close>

definition zero_division :: py_error where
  "zero_division = ValueError ''integer division or modulo by zero''"

definition divide_tp :: "int \<Rightarrow> int \<Rightarrow> int result" where
  "divide_tp numerator denominator =
     (if denominator = 0 then Inl zero_division
      else if numerator mod denominator \<noteq> 0 then Inl AssertionError
      else Inr (numerator div denominator))"

definition narrow :: "'a list \<Rightarrow> int \<Rightarrow> int \<Rightarrow> 'a list result" where
  "narrow xs start len =
     (if start < 0 \<or> len < 0 \<or> start + len > int (length xs)
      then Inl (RuntimeError ''start (...) + length (...) exceeds dimension size'')
      else Inr (slice (nat start) (nat (start + len)) xs))"

definition dot :: "'a::comm_ring_1 list \<Rightarrow> 'a list \<Rightarrow> 'a" where
  "dot xs ys = sum_list (map2 (*) xs ys)"

definition f_linear :: "'a::comm_ring_1 list list \<Rightarrow> 'a list \<Rightarrow> 'a list" where
  "f_linear W x = map (dot x) W"

definition all_gather :: "'a list list \<Rightarrow> 'a list" where
  "all_gather parts = concat parts"

definition all_reduce :: "'a::comm_ring_1 list list \<Rightarrow> 'a list" where
  "all_reduce parts = map (\<lambda>j. sum_list (map (\<lambda>p. p ! j) parts)) [0..<length (hd parts)]"

definition all_reduce_rows :: "'a::comm_ring_1 list list list \<Rightarrow> 'a list list" where
  "all_reduce_rows parts = map (\<lambda>i. all_reduce (map (\<lambda>p. p ! i) parts)) [0..<length (hd parts)]"

section \<open>Facts\<close>

lemma divide_tp_Inr: "divide_tp n d = Inr q \<longleftrightarrow> d \<noteq> 0 \<and> n mod d = 0 \<and> q = n div d"
  by (auto simp: divide_tp_def)

lemma divide_tp_mult [simp]: "d \<noteq> 0 \<Longrightarrow> divide_tp (d * q) d = Inr q" "d \<noteq> 0 \<Longrightarrow> divide_tp (q * d) d = Inr q"
  by (simp_all add: divide_tp_def)

lemma narrow_ok: "0 \<le> s \<Longrightarrow> 0 \<le> n \<Longrightarrow> s + n \<le> int (length xs) \<Longrightarrow> narrow xs s n = Inr (slice (nat s) (nat (s + n)) xs)"
  by (simp add: narrow_def)

text \<open>A sum over ranks in which one rank contributes and the others have zeros.\<close>

lemma sum_list_single:
  assumes "i < length xs" and "\<And>j. j < length xs \<Longrightarrow> j \<noteq> i \<Longrightarrow> xs ! j = (0 :: 'a::comm_ring_1)"
  shows "sum_list xs = xs ! i"
proof -
  have "sum_list xs = (\<Sum>j = 0..<length xs. xs ! j)" by (rule sum_list_sum_nth)
  also have "\<dots> = (\<Sum>j \<in> {i}. xs ! j)" by (rule sum.mono_neutral_right) (use assms in auto)
  finally show ?thesis by simp
qed

lemma all_reduce_single:
  fixes parts :: "'a::comm_ring_1 list list"
  assumes r: "r < length parts" and len: "\<forall>p \<in> set parts. length p = n"
    and zero: "\<And>s. s < length parts \<Longrightarrow> s \<noteq> r \<Longrightarrow> parts ! s = replicate n 0"
  shows "all_reduce parts = parts ! r"
proof -
  have n: "length (hd parts) = n" using len r by (cases parts) auto
  have "sum_list (map (\<lambda>p. p ! j) parts) = parts ! r ! j" if "j < n" for j
    using sum_list_single [of r "map (\<lambda>p. p ! j) parts"] r zero that by simp
  then show ?thesis using len r by (intro nth_equalityI) (simp_all add: all_reduce_def n)
qed

lemma all_reduce_zero:
  fixes parts :: "'a::comm_ring_1 list list"
  assumes "parts \<noteq> []" and "\<forall>p \<in> set parts. p = replicate n 0"
  shows "all_reduce parts = replicate n 0"
proof -
  have "sum_list (map (\<lambda>p. p ! j) parts) = 0" if "j < n" for j
  proof -
    have "p ! j = 0" if "p \<in> set parts" for p using assms(2) that \<open>j < n\<close> by (metis nth_replicate)
    then have "map (\<lambda>p. p ! j) parts = map (\<lambda>p. 0) parts" by simp
    then show ?thesis by (simp only: sum_list_0)
  qed
  moreover have "length (hd parts) = n" using assms by (cases parts) auto
  ultimately show ?thesis by (intro nth_equalityI) (simp_all add: all_reduce_def)
qed

text \<open>Consecutive slices of a list are the list again.\<close>

lemma slice_append_slice: "a \<le> b \<Longrightarrow> b \<le> c \<Longrightarrow> slice a b xs @ slice b c xs = slice a c xs"
proof -
  assume ab: "a \<le> b" "b \<le> c"
  then have "drop b xs = drop (b - a) (drop a xs)" and "c - a = (b - a) + (c - b)" by auto
  then show ?thesis by (simp add: slice_def take_add)
qed

lemma concat_slices:
  assumes "mono f" and "f 0 = 0"
  shows "concat (map (\<lambda>r. slice (f r) (f (Suc r)) xs) [0..<n]) = slice 0 (f n) xs"
proof (induction n)
  case 0
  then show ?case by (simp add: assms(2) slice_def)
next
  case (Suc n)
  have "0 \<le> f n" "f n \<le> f (Suc n)" using assms(1) by (auto simp: mono_def)
  then show ?case using Suc slice_append_slice [of 0 "f n" "f (Suc n)" xs] by simp
qed

text \<open>A point below the end of a partition lies in exactly one of its cells.\<close>

lemma mono_cell:
  fixes f :: "nat \<Rightarrow> nat"
  assumes "f 0 = 0" and "t < f n"
  shows "\<exists>k < n. f k \<le> t \<and> t < f (Suc k)"
  using assms(2)
proof (induction n)
  case (Suc n)
  show ?case
  proof (cases "t < f n")
    case True
    then show ?thesis using Suc.IH less_Suc_eq by blast
  next
    case False
    then show ?thesis using Suc.prems by (intro exI [of _ n]) simp
  qed
qed (simp add: assms(1))

lemma mono_cell_unique:
  fixes f :: "nat \<Rightarrow> nat"
  assumes "mono f" and "f k \<le> t" "t < f (Suc k)" and "f l \<le> t" "t < f (Suc l)"
  shows "k = l"
proof -
  have "\<not> Suc k \<le> l" "\<not> Suc l \<le> k" using assms monoD [OF assms(1)] by (meson le_less_trans less_le_not_le)+
  then show ?thesis by simp
qed

end
