(* ===== verification/Vocab_Parallel.thy ===== *)
theory Vocab_Parallel
  imports Parallel "HOL-Library.Multiset"
begin

text \<open>
  The vocabulary-parallel embedding and language-model head (layers/vocab_parallel_embedding.py) and
  the gathering of the logits (models/llada2.py, \<open>_get_logits\<close>), without quantization: shard
  indices with their assertions, the constructor, the weight loader, the masked lookup of a rank and
  its all-reduce, and the mapping that puts gathered logits in token order.  Vocabulary sizes and
  token ids are integers as in the code; the rows of the weights are the embedding vectors.
\<close>

section \<open>Shard indices\<close>

definition pad_vocab_size :: "int \<Rightarrow> int \<Rightarrow> int result" where
  "pad_vocab_size vocab_size pad_to =
     (if pad_to = 0 then Inl zero_division else Inr (((vocab_size + pad_to - 1) div pad_to) * pad_to))"

definition vocab_range_from_per_partition_vocab_size :: "int \<Rightarrow> int \<Rightarrow> int \<Rightarrow> int \<times> int" where
  "vocab_range_from_per_partition_vocab_size per_partition rank offset =
     (let index_f = rank * per_partition; index_l = index_f + per_partition in (index_f + offset, index_l + offset))"

definition vocab_range_from_global_vocab_size :: "int \<Rightarrow> int \<Rightarrow> int \<Rightarrow> int \<Rightarrow> (int \<times> int) result" where
  "vocab_range_from_global_vocab_size global_size rank world_size offset =
     result_bind (divide_tp global_size world_size)
       (\<lambda>per. Inr (vocab_range_from_per_partition_vocab_size per rank offset))"

record shard_indices =
  padded_org_vocab_start_index :: int
  padded_org_vocab_end_index :: int
  padded_added_vocab_start_index :: int
  padded_added_vocab_end_index :: int
  org_vocab_start_index :: int
  org_vocab_end_index :: int
  added_vocab_start_index :: int
  added_vocab_end_index :: int

definition num_org_elements :: "shard_indices \<Rightarrow> int" where
  "num_org_elements si = org_vocab_end_index si - org_vocab_start_index si"

definition num_added_elements :: "shard_indices \<Rightarrow> int" where
  "num_added_elements si = added_vocab_end_index si - added_vocab_start_index si"

definition num_org_elements_padded :: "shard_indices \<Rightarrow> int" where
  "num_org_elements_padded si = padded_org_vocab_end_index si - padded_org_vocab_start_index si"

definition num_added_elements_padded :: "shard_indices \<Rightarrow> int" where
  "num_added_elements_padded si = padded_added_vocab_end_index si - padded_added_vocab_start_index si"

definition num_org_vocab_padding :: "shard_indices \<Rightarrow> int" where
  "num_org_vocab_padding si = num_org_elements_padded si - num_org_elements si"

definition num_elements_padded :: "shard_indices \<Rightarrow> int" where
  "num_elements_padded si = num_org_elements_padded si + num_added_elements_padded si"

text \<open>The assertions of \<open>__post_init__\<close>.\<close>

definition shard_post_init :: "shard_indices \<Rightarrow> shard_indices result" where
  "shard_post_init si =
     (if padded_org_vocab_start_index si \<le> padded_org_vocab_end_index si
       \<and> padded_added_vocab_start_index si \<le> padded_added_vocab_end_index si
       \<and> org_vocab_start_index si \<le> org_vocab_end_index si
       \<and> added_vocab_start_index si \<le> added_vocab_end_index si
       \<and> org_vocab_start_index si \<le> padded_org_vocab_start_index si
       \<and> added_vocab_start_index si \<le> padded_added_vocab_start_index si
       \<and> org_vocab_end_index si \<le> padded_org_vocab_end_index si
       \<and> added_vocab_end_index si \<le> padded_added_vocab_end_index si
       \<and> num_org_elements si \<le> num_org_elements_padded si
       \<and> num_added_elements si \<le> num_added_elements_padded si
      then Inr si else Inl AssertionError)"

definition get_indices :: "int \<Rightarrow> int \<Rightarrow> int \<Rightarrow> int \<Rightarrow> int \<Rightarrow> int \<Rightarrow> shard_indices result" where
  "get_indices vocab_size_padded org_vocab_size_padded vocab_size org_vocab_size tp_rank tp_size =
     (let num_added_embeddings_padded = vocab_size_padded - org_vocab_size_padded
      in result_bind (vocab_range_from_global_vocab_size org_vocab_size_padded tp_rank tp_size 0) (\<lambda>(po_start, po_end).
         result_bind (vocab_range_from_global_vocab_size num_added_embeddings_padded tp_rank tp_size org_vocab_size)
           (\<lambda>(pa_start, pa_end).
         shard_post_init
           \<lparr> padded_org_vocab_start_index = po_start, padded_org_vocab_end_index = po_end,
             padded_added_vocab_start_index = pa_start, padded_added_vocab_end_index = pa_end,
             org_vocab_start_index = min po_start org_vocab_size, org_vocab_end_index = min po_end org_vocab_size,
             added_vocab_start_index = min pa_start vocab_size, added_vocab_end_index = min pa_end vocab_size \<rparr>)))"

section \<open>The layer\<close>

record vocab_layer =
  vl_tp_size :: int
  vl_num_embeddings :: int
  vl_org_vocab_size :: int
  vl_presharded :: bool
  vl_org_padded :: int
  vl_padded :: int
  vl_shard :: shard_indices
  vl_per_partition :: int

definition vocab_init :: "int \<Rightarrow> int option \<Rightarrow> int \<Rightarrow> bool \<Rightarrow> int \<Rightarrow> int \<Rightarrow> vocab_layer result" where
  "vocab_init num_embeddings org_num_embeddings padding_size presharded tp_rank tp_size =
     (let org = (case org_num_embeddings of None \<Rightarrow> num_embeddings | Some n \<Rightarrow> if n = 0 then num_embeddings else n);
          added = num_embeddings - org
      in if presharded \<and> added \<noteq> 0 then Inl AssertionError
         else result_bind (pad_vocab_size org padding_size) (\<lambda>org_padded.
              result_bind (pad_vocab_size (org_padded + added) padding_size) (\<lambda>padded.
              if \<not> org_padded \<le> padded then Inl AssertionError
              else result_bind (get_indices padded org_padded num_embeddings org tp_rank tp_size) (\<lambda>si.
                   result_bind (divide_tp padded tp_size) (\<lambda>per.
                   if num_elements_padded si \<noteq> per then Inl AssertionError
                   else Inr \<lparr> vl_tp_size = tp_size, vl_num_embeddings = num_embeddings, vl_org_vocab_size = org,
                              vl_presharded = presharded, vl_org_padded = org_padded, vl_padded = padded,
                              vl_shard = si, vl_per_partition = per \<rparr>)))))"

text \<open>The loader of the unquantized weight (\<open>output_dim\<close> 0); \<open>zero\<close> is a row of zeros.\<close>

definition vocab_weight_loader :: "vocab_layer \<Rightarrow> 'b \<Rightarrow> 'b list \<Rightarrow> 'b list result" where
  "vocab_weight_loader vl zero loaded =
     (let start_idx = org_vocab_start_index (vl_shard vl);
          shard_size = org_vocab_end_index (vl_shard vl) - start_idx
      in if int (length loaded) \<noteq> vl_org_vocab_size vl div (if vl_presharded vl then vl_tp_size vl else 1)
         then Inl AssertionError
         else result_bind (if vl_presharded vl then Inr loaded else narrow loaded start_idx shard_size) (\<lambda>rows.
              if int (length rows) > vl_per_partition vl then Inl (RuntimeError ''size mismatch'')
              else Inr (rows @ replicate (nat (vl_per_partition vl) - length rows) zero)))"

section \<open>Forward\<close>

definition get_masked_input_and_mask :: "shard_indices \<Rightarrow> int \<Rightarrow> int \<times> bool" where
  "get_masked_input_and_mask si t =
     (let org_vocab_mask = (org_vocab_start_index si \<le> t \<and> t < org_vocab_end_index si);
          added_vocab_mask = (added_vocab_start_index si \<le> t \<and> t < added_vocab_end_index si);
          added_offset = added_vocab_start_index si - (org_vocab_end_index si - org_vocab_start_index si)
            - num_org_vocab_padding si;
          valid_offset = org_vocab_start_index si * of_bool org_vocab_mask + added_offset * of_bool added_vocab_mask;
          vocab_mask = (org_vocab_mask \<or> added_vocab_mask)
      in (of_bool vocab_mask * (t - valid_offset), \<not> vocab_mask))"

definition embedding_row :: "'b list \<Rightarrow> int \<Rightarrow> 'b result" where
  "embedding_row weight i = (if 0 \<le> i \<and> i < int (length weight) then Inr (weight ! nat i) else Inl IndexError)"

text \<open>The output of one rank before the reduction.\<close>

definition vocab_forward_rank :: "vocab_layer \<Rightarrow> nat \<Rightarrow> 'a::comm_ring_1 list list \<Rightarrow> int list \<Rightarrow> 'a list list result" where
  "vocab_forward_rank vl edim weight ids =
     (if vl_tp_size vl > 1
      then let masked = map (get_masked_input_and_mask (vl_shard vl)) ids
           in result_bind (result_map (embedding_row weight) (map fst masked)) (\<lambda>rows.
              Inr (map2 (\<lambda>row m. if m then replicate edim 0 else row) rows (map snd masked)))
      else result_map (embedding_row weight) ids)"

definition vocab_forward :: "nat \<Rightarrow> (vocab_layer \<times> 'a::comm_ring_1 list list) list \<Rightarrow> int list \<Rightarrow> 'a list list result" where
  "vocab_forward edim ranks ids =
     result_bind (result_map (\<lambda>(vl, weight). vocab_forward_rank vl edim weight ids) ranks) (\<lambda>parts.
       Inr (if length ranks > 1 then all_reduce_rows parts else hd parts))"

section \<open>Gathered logits\<close>

definition py_range :: "int \<Rightarrow> int \<Rightarrow> int list" where
  "py_range a b = [a..b - 1]"

definition mapping_rank :: "vocab_layer \<Rightarrow> int \<Rightarrow> int list \<times> int list \<times> int list \<Rightarrow> (int list \<times> int list \<times> int list) result" where
  "mapping_rank vl tp_rank acc =
     (case acc of (base, added, padding) \<Rightarrow>
      result_bind (get_indices (vl_padded vl) (vl_org_padded vl) (vl_num_embeddings vl) (vl_org_vocab_size vl)
          tp_rank (vl_tp_size vl)) (\<lambda>si.
      let range_start = vl_per_partition vl * tp_rank; range_end = vl_per_partition vl * (tp_rank + 1);
          org_end = range_start + num_org_elements_padded si
      in if org_end + num_added_elements_padded si \<noteq> range_end then Inl AssertionError
         else Inr (base @ py_range range_start (range_start + num_org_elements si),
                   added @ py_range org_end (org_end + num_added_elements si),
                   (padding @ py_range (range_start + num_org_elements si) org_end)
                     @ py_range (org_end + num_added_elements si) (org_end + num_added_elements_padded si))))"

definition get_sharded_to_full_mapping :: "vocab_layer \<Rightarrow> int list option result" where
  "get_sharded_to_full_mapping vl =
     (if vl_tp_size vl < 2 then Inr None
      else result_bind (result_fold (mapping_rank vl) (py_range 0 (vl_tp_size vl)) ([], [], [])) (\<lambda>(base, added, padding).
           let ret = base @ added @ padding
           in if int (length ret) \<noteq> vl_padded vl then Inl AssertionError else Inr (Some ret)))"

text \<open>
  The logits of one hidden state from the weights of all ranks; the mapping is that of any rank's
  layer, and the result is cut to the vocabulary of the model.
\<close>

definition get_logits :: "vocab_layer \<Rightarrow> int \<Rightarrow> 'a::comm_ring_1 list list list \<Rightarrow> 'a list \<Rightarrow> 'a list result" where
  "get_logits vl vocab_size weights h =
     (let local_logits = map (\<lambda>w. f_linear w h) weights
      in if length weights > 1
         then let gathered = all_gather local_logits
              in result_bind (get_sharded_to_full_mapping vl) (\<lambda>mapping.
                 case mapping of
                   None \<Rightarrow> Inr (take (nat vocab_size) gathered)
                 | Some ix \<Rightarrow> result_bind (result_map (embedding_row gathered) ix) (\<lambda>logits.
                     Inr (take (nat vocab_size) logits)))
         else Inr (take (nat vocab_size) (hd local_logits)))"

section \<open>The layout\<close>

text \<open>The indices of a rank whose share is \<open>q\<close> padded base rows and \<open>a\<close> padded added rows.\<close>

definition shard_of :: "int \<Rightarrow> int \<Rightarrow> int \<Rightarrow> int \<Rightarrow> int \<Rightarrow> shard_indices" where
  "shard_of q a num org r =
     \<lparr> padded_org_vocab_start_index = r * q, padded_org_vocab_end_index = r * q + q,
       padded_added_vocab_start_index = r * a + org, padded_added_vocab_end_index = r * a + a + org,
       org_vocab_start_index = min (r * q) org, org_vocab_end_index = min (r * q + q) org,
       added_vocab_start_index = min (r * a + org) num, added_vocab_end_index = min (r * a + a + org) num \<rparr>"

lemma get_indices_eq:
  assumes "S > 0" "0 \<le> q" "0 \<le> a"
  shows "get_indices ((q + a) * S) (q * S) num org r S = Inr (shard_of q a num org r)"
proof -
  have "(q + a) * S - q * S = a * S" by (simp add: algebra_simps)
  then show ?thesis using assms
    by (simp add: get_indices_def vocab_range_from_global_vocab_size_def vocab_range_from_per_partition_vocab_size_def
        shard_post_init_def shard_of_def num_org_elements_def num_org_elements_padded_def num_added_elements_def
        num_added_elements_padded_def Let_def) linarith
qed

lemma pad_vocab_size_eq:
  assumes "0 < p" "0 \<le> v"
  obtains m where "pad_vocab_size v p = Inr (m * p)" "v \<le> m * p" "0 \<le> m" "m * p < v + p"
proof -
  let ?m = "(v + p - 1) div p"
  have "?m * p + (v + p - 1) mod p = v + p - 1" by (rule div_mult_mod_eq)
  moreover have "0 \<le> (v + p - 1) mod p" "(v + p - 1) mod p < p" using assms(1) by simp_all
  ultimately have "v \<le> ?m * p" "?m * p < v + p" by linarith+
  moreover have "0 \<le> ?m" using assms by (simp add: pos_imp_zdiv_nonneg_iff)
  ultimately show thesis using that [of ?m] assms(1) by (simp add: pad_vocab_size_def)
qed

text \<open>The layer of a rank, when the padding is a multiple of the number of ranks.\<close>

definition layer_of :: "int \<Rightarrow> int \<Rightarrow> int \<Rightarrow> int \<Rightarrow> bool \<Rightarrow> int \<Rightarrow> int \<Rightarrow> vocab_layer" where
  "layer_of q a num org presharded S r =
     \<lparr> vl_tp_size = S, vl_num_embeddings = num, vl_org_vocab_size = org, vl_presharded = presharded,
       vl_org_padded = q * S, vl_padded = (q + a) * S, vl_shard = shard_of q a num org r, vl_per_partition = q + a \<rparr>"

definition org_size :: "int \<Rightarrow> int option \<Rightarrow> int" where
  "org_size num org = (case org of None \<Rightarrow> num | Some n \<Rightarrow> if n = 0 then num else n)"

lemma vocab_init_ok:
  assumes S: "0 < S" and P: "0 < P" "S dvd P" and org: "0 \<le> org_size num org" "org_size num org \<le> num"
    and pre: "presharded \<longrightarrow> org_size num org = num"
  obtains q a where "\<And>r. vocab_init num org P presharded r S = Inr (layer_of q a num (org_size num org) presharded S r)"
    and "0 \<le> q" and "0 \<le> a" and "org_size num org \<le> q * S" and "num - org_size num org \<le> a * S"
    and "q * S < org_size num org + P" "(q + a) * S < num + 2 * P"
proof -
  let ?org = "org_size num org"
  obtain k where k: "P = k * S" using P(2) by (auto simp: dvd_def mult.commute)
  then have "0 < k" using P(1) S by (metis zero_less_mult_pos2)
  obtain m where m: "pad_vocab_size ?org P = Inr (m * P)" "?org \<le> m * P" "0 \<le> m" "m * P < ?org + P"
    by (rule pad_vocab_size_eq [OF P(1) org(1)])
  have mP: "0 \<le> m * P" using m(3) P(1) by simp
  obtain n where n: "pad_vocab_size (m * P + (num - ?org)) P = Inr (n * P)" "m * P + (num - ?org) \<le> n * P" "0 \<le> n"
      "n * P < m * P + (num - ?org) + P"
    by (rule pad_vocab_size_eq [OF P(1), of "m * P + (num - ?org)"]) (use mP org(2) in auto)
  define q where "q = m * k"
  define a where "a = (n - m) * k"
  have "m * P \<le> n * P" using n(2) org(2) by linarith
  then have mn: "m \<le> n" using P(1) by simp
  have qS: "m * P = q * S" and aS: "n * P = (q + a) * S" by (simp_all add: q_def a_def k algebra_simps)
  have q0: "0 \<le> q" and a0: "0 \<le> a" using m(3) mn \<open>0 < k\<close> by (simp_all add: q_def a_def)
  have el: "num_elements_padded (shard_of q a num ?org r) = q + a" for r
    by (simp add: num_elements_padded_def num_org_elements_padded_def num_added_elements_padded_def shard_of_def)
  have init: "vocab_init num org P presharded r S = Inr (layer_of q a num ?org presharded S r)" for r
    using m(1) n(1) pre S \<open>m * P \<le> n * P\<close>
    unfolding vocab_init_def org_size_def [symmetric] Let_def qS aS
    by (simp add: get_indices_eq [OF S q0 a0] el layer_of_def)
  have sum: "(q + a) * S = q * S + a * S" by (simp add: algebra_simps)
  show thesis
    by (rule that [OF init q0 a0]) (use m(2,4) n(2,4) in \<open>simp_all add: qS aS sum\<close>)
qed

section \<open>Embedding lookup\<close>

text \<open>The token ids of rank \<open>k\<close> are those from \<open>vcut k\<close> up to \<open>vcut (k + 1)\<close>; its weight has their rows and zeros.\<close>

definition vcut :: "int \<Rightarrow> int \<Rightarrow> nat \<Rightarrow> nat" where
  "vcut q org k = nat (min (int k * q) org)"

definition weight_of :: "int \<Rightarrow> int \<Rightarrow> int \<Rightarrow> 'b \<Rightarrow> 'b list \<Rightarrow> nat \<Rightarrow> 'b list" where
  "weight_of q a org zero W k = slice (vcut q org k) (vcut q org (Suc k)) W
     @ replicate (nat (q + a) - (vcut q org (Suc k) - vcut q org k)) zero"

lemma vcut_mono: "0 \<le> q \<Longrightarrow> mono (vcut q org)"
  unfolding vcut_def by (intro monoI nat_mono min.mono mult_right_mono) simp_all

lemma vcut_0 [simp]: "0 \<le> org \<Longrightarrow> vcut q org 0 = 0"
  by (simp add: vcut_def)

lemma vcut_Suc: "int (Suc k) * q = int k * q + q"
  by (simp add: algebra_simps)

lemma vcut_step: "0 \<le> q \<Longrightarrow> 0 \<le> org \<Longrightarrow> vcut q org (Suc k) - vcut q org k \<le> nat q"
  unfolding vcut_def vcut_Suc by (simp add: nat_le_iff)

lemma vcut_le: "0 \<le> org \<Longrightarrow> vcut q org k \<le> nat org"
  by (simp add: vcut_def)

lemma vcut_shard:
  assumes "0 \<le> q" "0 \<le> org"
  shows "org_vocab_start_index (shard_of q a num org (int k)) = int (vcut q org k)"
    and "org_vocab_end_index (shard_of q a num org (int k)) = int (vcut q org (Suc k))"
  using assms by (simp_all add: shard_of_def vcut_def algebra_simps)

lemma length_weight_of:
  assumes "0 \<le> q" "0 \<le> a" "0 \<le> org" "length W = nat org"
  shows "length (weight_of q a org zero W k) = nat (q + a)"
  using assms vcut_step [OF assms(1,3), of k] vcut_le [OF assms(3), of q "Suc k"]
  by (simp add: weight_of_def)

lemma vocab_weight_loader_ok:
  assumes "0 \<le> q" "0 \<le> a" "0 \<le> org" "length W = nat org"
  shows "vocab_weight_loader (layer_of q a num org False S (int k)) zero W = Inr (weight_of q a org zero W k)"
proof -
  have le: "vcut q org k \<le> vcut q org (Suc k)" using vcut_mono [OF assms(1)] by (auto simp: mono_def)
  have w: "vcut q org (Suc k) \<le> length W" using vcut_le [OF assms(3)] assms(4) by simp
  have "narrow W (int (vcut q org k)) (int (vcut q org (Suc k)) - int (vcut q org k)) = Inr (slice (vcut q org k) (vcut q org (Suc k)) W)"
    using le w by (subst narrow_ok) (simp_all add: nat_diff_distrib)
  moreover have "int (length (slice (vcut q org k) (vcut q org (Suc k)) W)) \<le> q + a"
    using vcut_step [OF assms(1,3), of k] assms by simp
  moreover have "length (slice (vcut q org k) (vcut q org (Suc k)) W) = vcut q org (Suc k) - vcut q org k" using w by simp
  ultimately show ?thesis using assms
    by (simp add: vocab_weight_loader_def layer_of_def vcut_shard weight_of_def Let_def)
qed

text \<open>What a rank contributes for a token: its row when the rank owns it, zeros otherwise.\<close>

lemma masked_row:
  fixes W :: "'a::comm_ring_1 list list"
  assumes q: "0 \<le> q" "0 \<le> a" "0 < q + a" and org: "0 \<le> org" "org \<le> num" "length W = nat org"
    and m_def: "m = get_masked_input_and_mask (shard_of q a num org (int k)) t"
  shows "\<exists>row. embedding_row (weight_of q a org (replicate edim 0) W k) (fst m) = Inr row
    \<and> (if snd m then replicate edim 0 else row)
      = (if int (vcut q org k) \<le> t \<and> t < int (vcut q org (Suc k)) then W ! nat t else replicate edim 0)"
proof -
  let ?w = "weight_of q a org (replicate edim 0) W k" and ?si = "shard_of q a num org (int k)"
  have len: "length ?w = nat (q + a)" by (rule length_weight_of [OF q(1,2) org(1,3)])
  have step: "vcut q org (Suc k) - vcut q org k \<le> nat q" by (rule vcut_step [OF q(1) org(1)])
  have le: "vcut q org (Suc k) \<le> length W" using vcut_le [OF org(1)] org(3) by simp
  have pad: "int (vcut q org (Suc k)) - int (vcut q org k) + num_org_vocab_padding ?si = q"
    using vcut_shard [OF q(1) org(1), of a num k]
    by (simp add: num_org_vocab_padding_def num_org_elements_def num_org_elements_padded_def shard_of_def)
  have add: "org \<le> added_vocab_start_index ?si" "added_vocab_end_index ?si - added_vocab_start_index ?si \<le> a"
    using q org by (simp_all add: shard_of_def)
  have cutorg: "int (vcut q org (Suc k)) \<le> org" using vcut_le [OF org(1), of q "Suc k"] org(1) by linarith
  consider (own) "int (vcut q org k) \<le> t" "t < int (vcut q org (Suc k))"
    | (added) "\<not> (int (vcut q org k) \<le> t \<and> t < int (vcut q org (Suc k)))" "added_vocab_start_index ?si \<le> t" "t < added_vocab_end_index ?si"
    | (other) "\<not> (int (vcut q org k) \<le> t \<and> t < int (vcut q org (Suc k)))"
        "\<not> (added_vocab_start_index ?si \<le> t \<and> t < added_vocab_end_index ?si)" by blast
  then show ?thesis
  proof cases
    case own
    have "\<not> added_vocab_start_index ?si \<le> t" using own(2) cutorg add(1) by linarith
    then have m: "m = (t - int (vcut q org k), False)"
      using own by (simp add: m_def get_masked_input_and_mask_def vcut_shard [OF q(1) org(1)] Let_def)
    have i: "nat (t - int (vcut q org k)) < vcut q org (Suc k) - vcut q org k" using own by linarith
    then have "?w ! nat (t - int (vcut q org k)) = W ! nat t"
      using own le by (simp add: weight_of_def nth_append nat_diff_distrib)
    moreover have "t - int (vcut q org k) < int (length ?w)" using i step len q by linarith
    ultimately show ?thesis using own by (simp add: m embedding_row_def)
  next
    case added
    define j where "j = t - added_vocab_start_index ?si + q"
    have m: "m = (j, False)"
      using added pad by (auto simp: m_def get_masked_input_and_mask_def vcut_shard [OF q(1) org(1)] Let_def j_def)
    have j: "q \<le> j" "j < q + a" using added add(2) by (simp_all add: j_def)
    let ?n = "vcut q org (Suc k) - vcut q org k"
    have "?n \<le> nat j" and "nat j < nat (q + a)" using j step q(1) by linarith+
    then have "\<not> nat j < ?n" and "nat j - ?n < nat (q + a) - ?n" by linarith+
    moreover have "min ?n (length W - vcut q org k) = ?n" using le by linarith
    ultimately have "?w ! nat j = replicate edim 0" by (simp add: weight_of_def nth_append)
    then show ?thesis using added j len q by (auto simp: m embedding_row_def)
  next
    case other
    then have "m = (0, True)" by (auto simp: m_def get_masked_input_and_mask_def vcut_shard [OF q(1) org(1)] Let_def)
    moreover have "0 < length ?w" using len q(3) by simp
    ultimately show ?thesis using other(1) by (auto simp: embedding_row_def)
  qed
qed

lemma vocab_forward_rank_ok:
  fixes W :: "'a::comm_ring_1 list list"
  assumes q: "0 \<le> q" "0 \<le> a" "0 < q + a" and org: "0 \<le> org" "org \<le> num" "length W = nat org" and S: "1 < S"
  shows "vocab_forward_rank (layer_of q a num org False S (int k)) edim (weight_of q a org (replicate edim 0) W k) ids
    = Inr (map (\<lambda>t. if int (vcut q org k) \<le> t \<and> t < int (vcut q org (Suc k)) then W ! nat t else replicate edim 0) ids)"
proof -
  let ?m = "get_masked_input_and_mask (shard_of q a num org (int k))" and ?w = "weight_of q a org (replicate edim 0) W k"
  let ?out = "\<lambda>t. if int (vcut q org k) \<le> t \<and> t < int (vcut q org (Suc k)) then W ! nat t else replicate edim 0"
  obtain row where row: "\<And>t. embedding_row ?w (fst (?m t)) = Inr (row t)"
      "\<And>t. (if snd (?m t) then replicate edim 0 else row t) = ?out t"
    using masked_row [OF q org refl, where edim = edim and k = k] by metis
  have "result_map (embedding_row ?w) (map fst (map ?m ids)) = Inr (map row ids)"
    using result_map_ok [of ids "\<lambda>t. embedding_row ?w (fst (?m t))" row] row(1) by (simp add: result_map_map)
  moreover have "map2 (\<lambda>row m. if m then replicate edim 0 else row) (map row ids) (map snd (map ?m ids)) = map ?out ids"
    by (simp add: zip_map1 zip_map2 zip_same_conv_map comp_def row(2) del: map_eq_conv cong: map_cong)
  ultimately show ?thesis using S by (simp add: vocab_forward_rank_def layer_of_def Let_def)
qed

text \<open>The reduction: exactly one rank has the row of a base token, nobody that of another token.\<close>

lemma reduced_row:
  fixes W :: "'a::comm_ring_1 list list"
  assumes q: "0 \<le> q" and org: "0 \<le> org" "length W = nat org" and rows: "\<forall>row \<in> set W. length row = edim"
    and n: "vcut q org n = nat org" "0 < n"
  shows "all_reduce (map (\<lambda>k. if int (vcut q org k) \<le> t \<and> t < int (vcut q org (Suc k)) then W ! nat t else replicate edim 0) [0..<n])
    = (if 0 \<le> t \<and> t < org then W ! nat t else replicate edim 0)" (is "all_reduce ?parts = _")
proof (cases "0 \<le> t \<and> t < org")
  case True
  then have t: "nat t < nat org" by linarith
  then obtain k where k: "k < n" "vcut q org k \<le> nat t" "nat t < vcut q org (Suc k)"
    using mono_cell [of "vcut q org" "nat t" n] n(1) org(1) by auto
  have own: "int (vcut q org l) \<le> t \<and> t < int (vcut q org (Suc l)) \<longleftrightarrow> l = k" for l
    using mono_cell_unique [OF vcut_mono [OF q], of org k "nat t" l] k True by (auto simp: le_nat_iff nat_less_iff)
  have w: "length (W ! nat t) = edim" using rows t org(2) by simp
  have "all_reduce ?parts = ?parts ! k" by (rule all_reduce_single [where n = edim]) (use k(1) own w in auto)
  then show ?thesis using k(1) own True by simp
next
  case False
  have "\<not> (int (vcut q org k) \<le> t \<and> t < int (vcut q org (Suc k)))" for k
    using False vcut_le [OF org(1), of q "Suc k"] org(1) by linarith
  then show ?thesis using False all_reduce_zero [of ?parts edim] n(2) by auto
qed

lemma py_range_int [simp]: "py_range 0 (int n) = map int [0..<n]"
  unfolding py_range_def by (induction n) (simp_all add: upto_rec2)

text \<open>Building the ranks: the layers and the loaded weights, for shares that fit the vocabulary.\<close>

definition vocab_shards :: "int \<Rightarrow> int \<Rightarrow> int \<Rightarrow> int \<Rightarrow> nat \<Rightarrow> 'a::comm_ring_1 list list \<Rightarrow> nat \<Rightarrow> bool" where
  "vocab_shards q a num org n W edim =
     (0 \<le> q \<and> 0 \<le> a \<and> org \<le> q * int n \<and> num - org \<le> a * int n
      \<and> 0 < org \<and> org \<le> num \<and> 0 < n \<and> length W = nat org \<and> (\<forall>row \<in> set W. length row = edim))"

lemma vocab_shardsD:
  assumes "vocab_shards q a num org n W edim"
  shows "0 \<le> q" "0 \<le> a" "org \<le> q * int n" "num - org \<le> a * int n"
    "0 < org" "org \<le> num" "0 < n" "length W = nat org" "\<forall>row \<in> set W. length row = edim" "0 \<le> org"
  using assms by (simp_all add: vocab_shards_def)

lemma shares_pos:
  assumes sh: "vocab_shards q a num org n W edim"
  shows "0 < q + a"
proof -
  note shares = vocab_shardsD [OF sh]
  have "0 < q * int n" using shares(3,5) by linarith
  then have "0 < q" using shares(7) by (simp add: zero_less_mult_iff)
  then show ?thesis using shares(2) by linarith
qed

lemma vcut_end:
  assumes sh: "vocab_shards q a num org n W edim"
  shows "vcut q org n = nat org"
  using vocab_shardsD(3) [OF sh] by (simp add: vcut_def mult.commute min_def)

lemma load_ranks:
  assumes sh: "vocab_shards q a num org n W edim"
  shows "result_map (\<lambda>vl. vocab_weight_loader vl zero W) (map (\<lambda>k. layer_of q a num org False S (int k)) [0..<n])
    = Inr (map (weight_of q a org zero W) [0..<n])"
  using result_map_ok [of "[0..<n]" "\<lambda>k. vocab_weight_loader (layer_of q a num org False S (int k)) zero W" "weight_of q a org zero W"]
    vocab_weight_loader_ok [OF vocab_shardsD(1,2,10,8) [OF sh]]
  by (simp add: result_map_map)

lemma forward_one:
  assumes sh: "vocab_shards q a num org n W edim" and n: "n = 1" and ids: "\<forall>t \<in> set ids. 0 \<le> t \<and> t < num"
  shows "vocab_forward edim (zip (map (\<lambda>k. layer_of q a num org False (int n) (int k)) [0..<n])
      (map (weight_of q a org (replicate edim 0) W) [0..<n])) ids
    = Inr (map (\<lambda>t. if 0 \<le> t \<and> t < org then W ! nat t else replicate edim 0) ids)"
proof -
  note sizes = vocab_shardsD(5-10) [OF sh]
  let ?z = "replicate edim 0" let ?w = "weight_of q a org ?z W 0"
  have w: "?w = W @ replicate (nat (q + a) - length W) ?z"
    using vcut_end [OF sh] sizes by (simp add: weight_of_def n slice_def)
  have big: "num \<le> q + a" using vocab_shardsD(3,4) [OF sh] n by simp
  have look: "embedding_row ?w t = Inr (if 0 \<le> t \<and> t < org then W ! nat t else ?z)" if "t \<in> set ids" for t
  proof -
    have t: "0 \<le> t" "t < num" using ids that by auto
    have "int (length ?w) = q + a" using w sizes big by simp
    then have "t < int (length ?w)" using t big by linarith
    moreover have "?w ! nat t = (if t < org then W ! nat t else ?z)" using t big sizes by (auto simp: w nth_append)
    ultimately show ?thesis using t by (simp add: embedding_row_def)
  qed
  show ?thesis
    using result_map_ok [of ids "embedding_row ?w", OF look]
    by (simp add: vocab_forward_def n vocab_forward_rank_def layer_of_def)
qed

lemma forward_many:
  assumes sh: "vocab_shards q a num org n W edim" and n: "1 < n"
  shows "vocab_forward edim (zip (map (\<lambda>k. layer_of q a num org False (int n) (int k)) [0..<n])
      (map (weight_of q a org (replicate edim 0) W) [0..<n])) ids
    = Inr (map (\<lambda>t. if 0 \<le> t \<and> t < org then W ! nat t else replicate edim 0) ids)"
proof -
  note shares = vocab_shardsD [OF sh]
  let ?z = "replicate edim 0"
  let ?layer = "\<lambda>k. layer_of q a num org False (int n) (int k)" and ?w = "weight_of q a org ?z W"
  let ?out = "\<lambda>k t. if int (vcut q org k) \<le> t \<and> t < int (vcut q org (Suc k)) then W ! nat t else ?z"
  have "result_map (\<lambda>(vl, weight). vocab_forward_rank vl edim weight ids) (zip (map ?layer [0..<n]) (map ?w [0..<n]))
      = Inr (map (\<lambda>k. map (?out k) ids) [0..<n])"
    using result_map_ok [of "[0..<n]" "\<lambda>k. vocab_forward_rank (?layer k) edim (?w k) ids" "\<lambda>k. map (?out k) ids"]
      vocab_forward_rank_ok [OF shares(1,2) shares_pos [OF sh] shares(10,6,8)] n
    by (simp add: zip_map_map zip_same_conv_map result_map_map comp_def)
  moreover have "all_reduce_rows (map (\<lambda>k. map (?out k) ids) [0..<n])
      = map (\<lambda>t. if 0 \<le> t \<and> t < org then W ! nat t else ?z) ids"
    using reduced_row [OF shares(1,10,8,9) vcut_end [OF sh] shares(7)] shares(7)
    by (intro nth_equalityI) (auto simp: all_reduce_rows_def hd_map comp_def)
  ultimately show ?thesis using n by (simp add: vocab_forward_def)
qed

text \<open>The shares that the constructor computes are such shares.\<close>

lemma build_ranks:
  fixes W :: "'a::comm_ring_1 list list"
  assumes S: "0 < S" and P: "0 < P" "S dvd P"
    and org: "0 < org_size num org" "org_size num org \<le> num"
    and W: "int (length W) = org_size num org" "\<forall>row \<in> set W. length row = edim"
  obtains q a where "vocab_shards q a num (org_size num org) (nat S) W edim"
    and "result_map (\<lambda>r. vocab_init num org P False r S) (py_range 0 S)
      = Inr (map (\<lambda>k. layer_of q a num (org_size num org) False S (int k)) [0..<nat S])"
proof -
  let ?org = "org_size num org"
  obtain q a where init: "\<And>r. vocab_init num org P False r S = Inr (layer_of q a num ?org False S r)"
    and qa: "0 \<le> q" "0 \<le> a" "?org \<le> q * S" "num - ?org \<le> a * S"
    by (rule vocab_init_ok [OF S P, of num org False]) (use org in auto)
  have "vocab_shards q a num ?org (nat S) W edim"
    using qa org S W by (auto simp: vocab_shards_def)
  moreover have "result_map (\<lambda>r. vocab_init num org P False r S) (py_range 0 S)
      = Inr (map (\<lambda>k. layer_of q a num ?org False S (int k)) [0..<nat S])"
    using result_map_ok [of "[0..<nat S]" "\<lambda>k. vocab_init num org P False (int k) S"] init py_range_int [of "nat S"] S
    by (simp add: result_map_map)
  ultimately show thesis by (rule that)
qed

text \<open>
  C18: Vocabulary-parallel embedding is the lookup in the whole table: when the padding is a
  multiple of the number of ranks, every rank builds its layer and loads its shard, and the reduced
  output for a token is its row of the checkpoint, or zeros for an added token (whose rows the
  loader leaves zero) and, with several ranks, for an id outside the vocabulary.
\<close>

theorem vocab_embedding_exact:
  fixes W :: "'a::comm_ring_1 list list"
  assumes S: "0 < S" and P: "0 < P" "S dvd P"
    and org: "0 < org_size num org" "org_size num org \<le> num"
    and W: "int (length W) = org_size num org" "\<forall>row \<in> set W. length row = edim"
    and ids: "S = 1 \<longrightarrow> (\<forall>t \<in> set ids. 0 \<le> t \<and> t < num)"
  shows "\<exists>layers ws. result_map (\<lambda>r. vocab_init num org P False r S) (py_range 0 S) = Inr layers
    \<and> result_map (\<lambda>vl. vocab_weight_loader vl (replicate edim 0) W) layers = Inr ws
    \<and> vocab_forward edim (zip layers ws) ids
      = Inr (map (\<lambda>t. if 0 \<le> t \<and> t < org_size num org then W ! nat t else replicate edim 0) ids)"
proof -
  obtain q a where sh: "vocab_shards q a num (org_size num org) (nat S) W edim"
    and layers: "result_map (\<lambda>r. vocab_init num org P False r S) (py_range 0 S)
      = Inr (map (\<lambda>k. layer_of q a num (org_size num org) False S (int k)) [0..<nat S])"
    by (rule build_ranks [OF S P org W])
  have "vocab_forward edim (zip (map (\<lambda>k. layer_of q a num (org_size num org) False S (int k)) [0..<nat S])
      (map (weight_of q a (org_size num org) (replicate edim 0) W) [0..<nat S])) ids
    = Inr (map (\<lambda>t. if 0 \<le> t \<and> t < org_size num org then W ! nat t else replicate edim 0) ids)"
    using forward_one [OF sh _, of ids] forward_many [OF sh, of ids] S ids by (cases "S = 1") auto
  then show ?thesis using layers load_ranks [OF sh] by blast
qed

theorem vocab_embedding_exact_witness:
  "\<exists>layers ws. result_map (\<lambda>r. vocab_init 3 None 2 False r 2) (py_range 0 2) = Inr layers
     \<and> result_map (\<lambda>vl. vocab_weight_loader vl [0] [[1], [2], [3 :: int]]) layers = Inr ws
     \<and> vocab_forward 1 (zip layers ws) [2, 0, 7] = Inr [[3], [1], [0]]"
  using vocab_embedding_exact [of 2 2 3 None "[[1], [2], [3 :: int]]" 1 "[2, 0, 7]"] by (simp add: org_size_def numeral_2_eq_2)

section \<open>Logits in token order\<close>

definition base_range :: "int \<Rightarrow> int \<Rightarrow> int \<Rightarrow> nat \<Rightarrow> int list" where
  "base_range q a org k = py_range ((q + a) * int k) ((q + a) * int k + num_org_elements (shard_of q a org org (int k)))"

definition added_range :: "int \<Rightarrow> int \<Rightarrow> int \<Rightarrow> int \<Rightarrow> nat \<Rightarrow> int list" where
  "added_range q a num org k = py_range ((q + a) * int k + q) ((q + a) * int k + q + num_added_elements (shard_of q a num org (int k)))"

definition padding_range :: "int \<Rightarrow> int \<Rightarrow> int \<Rightarrow> int \<Rightarrow> nat \<Rightarrow> int list" where
  "padding_range q a num org k =
     py_range ((q + a) * int k + num_org_elements (shard_of q a num org (int k))) ((q + a) * int k + q)
     @ py_range ((q + a) * int k + q + num_added_elements (shard_of q a num org (int k))) ((q + a) * int k + q + a)"

lemma shard_counts:
  assumes "0 \<le> q" "0 \<le> a" "0 \<le> org" "org \<le> num"
  shows "0 \<le> num_org_elements (shard_of q a num org r)" "num_org_elements (shard_of q a num org r) \<le> q"
    and "0 \<le> num_added_elements (shard_of q a num org r)" "num_added_elements (shard_of q a num org r) \<le> a"
    and "num_org_elements_padded (shard_of q a num org r) = q" "num_added_elements_padded (shard_of q a num org r) = a"
    and "num_org_elements (shard_of q a org org r) = num_org_elements (shard_of q a num org r)"
  using assms by (simp_all add: num_org_elements_def num_added_elements_def num_org_elements_padded_def
      num_added_elements_padded_def shard_of_def)

lemma mapping_rank_ok:
  assumes "0 < S" "0 \<le> q" "0 \<le> a" "0 \<le> org" "org \<le> num"
  shows "mapping_rank (layer_of q a num org b S r0) (int k) (base, added, padding)
    = Inr (base @ base_range q a org k, added @ added_range q a num org k, padding @ padding_range q a num org k)"
proof -
  have "(q + a) * int k + q + a = (q + a) * (int k + 1)" by (simp add: algebra_simps)
  then show ?thesis
    using get_indices_eq [OF assms(1-3), of num org "int k"] shard_counts [OF assms(2-5), of "int k"]
    by (simp add: mapping_rank_def layer_of_def base_range_def added_range_def padding_range_def Let_def)
qed

lemma mapping_fold:
  assumes "0 < S" "0 \<le> q" "0 \<le> a" "0 \<le> org" "org \<le> num"
  shows "result_fold (mapping_rank (layer_of q a num org b S r0)) (map int [0..<n]) ([], [], [])
    = Inr (concat (map (base_range q a org) [0..<n]), concat (map (added_range q a num org) [0..<n]),
           concat (map (padding_range q a num org) [0..<n]))"
proof (induction n)
  case (Suc n)
  then show ?case using mapping_rank_ok [OF assms, of b r0 n] by (simp add: result_fold_append)
qed simp

lemma length_py_range [simp]: "length (py_range x y) = nat (y - x)"
  by (simp add: py_range_def)

lemma nth_py_range [simp]: "int i < d \<Longrightarrow> py_range x (x + d) ! i = x + int i"
  by (simp add: py_range_def nth_upto)

text \<open>Together the three lists are the gathered columns, each once.\<close>

lemma py_range_append: "x \<le> y \<Longrightarrow> y \<le> z \<Longrightarrow> py_range x y @ py_range y z = py_range x z"
  unfolding py_range_def by (cases "y = z") (simp_all add: upto_split1 [of x y "z - 1", symmetric])

lemma rank_ranges:
  assumes "0 \<le> q" "0 \<le> a" "0 \<le> org" "org \<le> num"
  shows "mset (base_range q a org k) + mset (added_range q a num org k) + mset (padding_range q a num org k)
    = mset (py_range ((q + a) * int k) ((q + a) * int (Suc k)))"
proof -
  let ?s = "(q + a) * int k" and ?o = "num_org_elements (shard_of q a num org (int k))" and ?d = "num_added_elements (shard_of q a num org (int k))"
  note c = shard_counts [OF assms, of "int k"]
  have e: "(q + a) * int (Suc k) = ?s + q + a" by (simp add: algebra_simps)
  have "py_range ?s (?s + q + a) = py_range ?s (?s + ?o) @ py_range (?s + ?o) (?s + q)
      @ py_range (?s + q) (?s + q + ?d) @ py_range (?s + q + ?d) (?s + q + a)"
    using c(1-4) assms by (simp add: py_range_append)
  then show ?thesis unfolding e base_range_def added_range_def padding_range_def c(7) by (simp add: ac_simps)
qed

lemma mapping_mset:
  assumes "0 \<le> q" "0 \<le> a" "0 \<le> org" "org \<le> num"
  shows "mset (concat (map (base_range q a org) [0..<n]) @ concat (map (added_range q a num org) [0..<n])
      @ concat (map (padding_range q a num org) [0..<n])) = mset (py_range 0 ((q + a) * int n))"
proof (induction n)
  case 0
  then show ?case by (simp add: py_range_def)
next
  case (Suc n)
  have "py_range 0 ((q + a) * int (Suc n)) = py_range 0 ((q + a) * int n) @ py_range ((q + a) * int n) ((q + a) * int (Suc n))"
    using assms by (subst py_range_append) (auto intro!: mult_left_mono)
  then have "mset (py_range 0 ((q + a) * int (Suc n))) = mset (py_range 0 ((q + a) * int n))
      + (mset (base_range q a org n) + mset (added_range q a num org n) + mset (padding_range q a num org n))"
    by (simp only: mset_append rank_ranges [OF assms])
  then show ?case using Suc by (simp add: ac_simps)
qed

lemma mapping_ok:
  assumes "0 \<le> q" "0 \<le> a" "0 \<le> org" "org \<le> num" and n: "2 \<le> n"
  shows "get_sharded_to_full_mapping (layer_of q a num org b (int n) r0)
    = Inr (Some (concat (map (base_range q a org) [0..<n]) @ concat (map (added_range q a num org) [0..<n])
        @ concat (map (padding_range q a num org) [0..<n])))"
proof -
  have "int (length (py_range 0 m)) = m" if "0 \<le> m" for m using that by (simp add: py_range_def)
  moreover have "0 \<le> (q + a) * int n" using assms by simp
  ultimately have len: "int (length (concat (map (base_range q a org) [0..<n]) @ concat (map (added_range q a num org) [0..<n])
      @ concat (map (padding_range q a num org) [0..<n]))) = (q + a) * int n"
    using arg_cong [OF mapping_mset [OF assms(1-4), of n], of size] by (simp only: size_mset)
  show ?thesis
    using mapping_fold [OF _ assms(1-4), of "int n" b r0 n] n len
    by (simp add: get_sharded_to_full_mapping_def layer_of_def)
qed

lemma nth_gathered:
  fixes parts :: "'b list list"
  assumes "k < length parts" and "\<forall>p \<in> set parts. length p = m" and "i < m"
  shows "concat parts ! (m * k + i) = parts ! k ! i"
  using assms
proof (induction parts arbitrary: k)
  case (Cons p parts)
  then show ?case by (cases k) (auto simp: nth_append)
qed simp

text \<open>The columns of a rank's base and added ids in the gathered logits.\<close>

lemma gathered_base:
  fixes f :: "'b \<Rightarrow> 'c"
  assumes q: "0 \<le> q" "0 \<le> a" "0 \<le> org" "length W = nat org" and k: "k < n"
    and G_def: "G = concat (map (\<lambda>k. map f (weight_of q a org zero W k)) [0..<n])"
  shows "map (\<lambda>j. G ! nat j) (base_range q a org k) = map f (slice (vcut q org k) (vcut q org (Suc k)) W)"
proof (rule nth_equalityI)
  let ?d = "vcut q org (Suc k) - vcut q org k"
  have le: "vcut q org k \<le> vcut q org (Suc k)" using vcut_mono [OF q(1)] by (auto simp: mono_def)
  have d: "num_org_elements (shard_of q a org org (int k)) = int ?d"
    using le by (simp add: num_org_elements_def vcut_shard [OF q(1,3)] of_nat_diff)
  have w: "vcut q org (Suc k) \<le> length W" using vcut_le [OF q(3)] q(4) by simp
  have step: "?d \<le> nat q" by (rule vcut_step [OF q(1,3)])
  show "length (map (\<lambda>j. G ! nat j) (base_range q a org k)) = length (map f (slice (vcut q org k) (vcut q org (Suc k)) W))"
    using w by (simp add: base_range_def d)
  fix i assume "i < length (map (\<lambda>j. G ! nat j) (base_range q a org k))"
  then have i: "i < ?d" by (simp add: base_range_def d)
  then have "base_range q a org k ! i = (q + a) * int k + int i" unfolding base_range_def d by (intro nth_py_range) simp
  note nth = this
  have "nat ((q + a) * int k + int i) = nat (q + a) * k + i" using q by (simp add: nat_add_distrib nat_mult_distrib)
  moreover have "i < nat (q + a)" using i step q by linarith
  ultimately have "G ! nat ((q + a) * int k + int i) = f (weight_of q a org zero W k ! i)"
    using nth_gathered [of k "map (\<lambda>k. map f (weight_of q a org zero W k)) [0..<n]" "nat (q + a)" i] k
      length_weight_of [OF q] unfolding G_def by simp
  also have "weight_of q a org zero W k ! i = W ! (vcut q org k + i)" using i w by (simp add: weight_of_def nth_append)
  finally show "map (\<lambda>j. G ! nat j) (base_range q a org k) ! i = map f (slice (vcut q org k) (vcut q org (Suc k)) W) ! i"
    using i w nth by (simp add: base_range_def d)
qed

lemma gathered_added:
  fixes f :: "'b \<Rightarrow> 'c"
  assumes q: "0 \<le> q" "0 \<le> a" "0 \<le> org" "length W = nat org" "org \<le> num" and k: "k < n"
    and G_def: "G = concat (map (\<lambda>k. map f (weight_of q a org zero W k)) [0..<n])"
  shows "map (\<lambda>j. G ! nat j) (added_range q a num org k)
    = replicate (nat (num_added_elements (shard_of q a num org (int k)))) (f zero)"
proof (rule nth_equalityI)
  let ?d = "num_added_elements (shard_of q a num org (int k))"
  note c = shard_counts [OF q(1,2,3,5), of "int k"]
  show "length (map (\<lambda>j. G ! nat j) (added_range q a num org k)) = length (replicate (nat ?d) (f zero))"
    by (simp add: added_range_def)
  fix i assume "i < length (map (\<lambda>j. G ! nat j) (added_range q a num org k))"
  then have i: "int i < ?d" by (simp add: added_range_def)
  then have "added_range q a num org k ! i = (q + a) * int k + q + int i" unfolding added_range_def by (rule nth_py_range)
  note nth = this
  have "nat ((q + a) * int k + q + int i) = nat (q + a) * k + (nat q + i)" using q by (simp add: nat_add_distrib nat_mult_distrib)
  moreover have lt: "nat q + i < nat (q + a)" using i c(4) q by linarith
  ultimately have "G ! nat ((q + a) * int k + q + int i) = f (weight_of q a org zero W k ! (nat q + i))"
    using nth_gathered [of k "map (\<lambda>k. map f (weight_of q a org zero W k)) [0..<n]" "nat (q + a)" "nat q + i"] k
      length_weight_of [OF q(1-4)] unfolding G_def by simp
  moreover have "weight_of q a org zero W k ! (nat q + i) = zero"
  proof -
    let ?n = "vcut q org (Suc k) - vcut q org k"
    have "?n \<le> nat q" by (rule vcut_step [OF q(1,3)])
    then have "\<not> nat q + i < ?n" by linarith
    moreover have "min ?n (length W - vcut q org k) = ?n" using vcut_le [OF q(3), of q "Suc k"] q(4) by linarith
    moreover have "nat q + i - ?n < nat (q + a) - ?n" using lt \<open>?n \<le> nat q\<close> by linarith
    ultimately show ?thesis by (simp add: weight_of_def nth_append)
  qed
  ultimately show "map (\<lambda>j. G ! nat j) (added_range q a num org k) ! i = replicate (nat ?d) (f zero) ! i"
    using i nth by (simp add: added_range_def)
qed

text \<open>The base part of the mapping picks the logits of the checkpoint's rows, the added part those of zero rows.\<close>

lemma concat_replicates: "concat (map (\<lambda>k. replicate (g k) x) ks) = replicate (sum_list (map g ks)) x"
  by (induction ks) (simp_all add: replicate_add)

lemma added_total:
  assumes "0 \<le> a" "org \<le> num" "num - org \<le> a * int n"
  shows "sum_list (map (\<lambda>k. nat (num_added_elements (shard_of q a num org (int k)))) [0..<n]) = nat (num - org)"
proof -
  have "sum_list (map (\<lambda>k. nat (num_added_elements (shard_of q a num org (int k)))) [0..<m]) = nat (min (int m * a + org) num - org)" for m
  proof (induction m)
    case (Suc m)
    define x where "x = int m * a"
    have x: "int (Suc m) * a = x + a" "0 \<le> x" using assms(1) by (simp_all add: x_def algebra_simps)
    have "num_added_elements (shard_of q a num org (int m)) = min (x + a + org) num - min (x + org) num"
      by (simp add: num_added_elements_def shard_of_def x_def)
    then show ?case using Suc assms(1,2) x(2) unfolding x(1) by (simp add: x_def [symmetric]) linarith
  qed (use assms in simp)
  moreover have "min (int n * a + org) num = num" using assms(3) by (simp add: mult.commute min_def)
  ultimately show ?thesis by simp
qed

lemma logits_selected:
  fixes f :: "'b \<Rightarrow> 'c"
  assumes q: "0 \<le> q" "0 \<le> a" "0 \<le> org" "length W = nat org" "org \<le> num"
    and n: "org \<le> q * int n" "num - org \<le> a * int n"
    and G_def: "G = concat (map (\<lambda>k. map f (weight_of q a org zero W k)) [0..<n])"
  shows "map (\<lambda>j. G ! nat j) (concat (map (base_range q a org) [0..<n])) = map f W"
    and "map (\<lambda>j. G ! nat j) (concat (map (added_range q a num org) [0..<n])) = replicate (nat (num - org)) (f zero)"
proof -
  have cn: "vcut q org n = nat org" using n(1) by (simp add: vcut_def mult.commute min_def)
  have "map (\<lambda>j. G ! nat j) (concat (map (base_range q a org) [0..<n]))
      = concat (map (\<lambda>k. map f (slice (vcut q org k) (vcut q org (Suc k)) W)) [0..<n])"
    using gathered_base [OF q(1-4) _ G_def] by (auto simp: map_concat comp_def intro!: arg_cong [where f = concat])
  also have "\<dots> = map f (concat (map (\<lambda>k. slice (vcut q org k) (vcut q org (Suc k)) W) [0..<n]))"
    by (simp add: map_concat comp_def)
  also have "\<dots> = map f W"
    using concat_slices [OF vcut_mono [OF q(1)], of org W n] q(3,4) cn by (simp add: slice_def)
  finally show "map (\<lambda>j. G ! nat j) (concat (map (base_range q a org) [0..<n])) = map f W" .
  have "map (\<lambda>j. G ! nat j) (concat (map (added_range q a num org) [0..<n]))
      = concat (map (\<lambda>k. replicate (nat (num_added_elements (shard_of q a num org (int k)))) (f zero)) [0..<n])"
    using gathered_added [OF q _ G_def] by (auto simp: map_concat comp_def intro!: arg_cong [where f = concat])
  then show "map (\<lambda>j. G ! nat j) (concat (map (added_range q a num org) [0..<n])) = replicate (nat (num - org)) (f zero)"
    by (simp only: concat_replicates added_total [OF q(2,5) n(2)])
qed

lemma dot_zero [simp]: "dot h (replicate n 0) = 0"
proof (induction h arbitrary: n)
  case (Cons x h)
  then show ?case by (cases n) (simp_all add: dot_def)
qed (simp add: dot_def)

lemma get_logits_many:
  assumes sh: "vocab_shards q a num org n W edim" and n: "2 \<le> n"
  shows "get_logits (layer_of q a num org False (int n) r0) num (map (weight_of q a org (replicate edim 0) W) [0..<n]) h
    = Inr (f_linear W h @ replicate (nat (num - org)) 0)"
proof -
  note s = vocab_shardsD [OF sh]
  let ?w = "weight_of q a org (replicate edim 0) W"
  let ?G = "concat (map (\<lambda>k. map (dot h) (?w k)) [0..<n])"
  let ?base = "concat (map (base_range q a org) [0..<n])" and ?added = "concat (map (added_range q a num org) [0..<n])"
    and ?pad = "concat (map (padding_range q a num org) [0..<n])"
  have G: "all_gather (map (\<lambda>w. f_linear w h) (map ?w [0..<n])) = ?G" by (simp add: all_gather_def f_linear_def comp_def)
  have "length ?G = nat (q + a) * n"
    using length_weight_of [OF s(1,2,10,8)] by (simp add: length_concat comp_def sum_list_triv)
  then have len: "int (length ?G) = (q + a) * int n" using s(1,2) by simp
  have "set (?base @ ?added @ ?pad) = set (py_range 0 ((q + a) * int n))"
    using mset_eq_setD [OF mapping_mset [OF s(1,2,10,6), of n]] .
  then have range: "embedding_row ?G j = Inr (?G ! nat j)" if "j \<in> set (?base @ ?added @ ?pad)" for j
    using that len unfolding embedding_row_def py_range_def by auto
  have rows: "result_map (embedding_row ?G) (?base @ ?added @ ?pad) = Inr (map (\<lambda>j. ?G ! nat j) (?base @ ?added @ ?pad))"
    by (rule result_map_ok) (rule range)
  note sel = logits_selected [OF s(1,2,10,8,6,3,4) refl, where f = "dot h" and zero = "replicate edim 0"]
  have "take (nat num) (map (\<lambda>j. ?G ! nat j) (?base @ ?added @ ?pad)) = map (dot h) W @ replicate (nat (num - org)) 0"
    unfolding map_append sel using s by (simp add: nat_diff_distrib)
  then show ?thesis
    using mapping_ok [OF s(1,2,10,6) n, of False r0] n
    unfolding get_logits_def Let_def G by (simp add: rows f_linear_def del: map_append append_assoc)
qed

lemma get_logits_one:
  assumes sh: "vocab_shards q a num org n W edim" and n: "n = 1"
  shows "get_logits vl num (map (weight_of q a org (replicate edim 0) W) [0..<n]) h
    = Inr (f_linear W h @ replicate (nat (num - org)) 0)"
proof -
  note s = vocab_shardsD [OF sh]
  have w: "weight_of q a org (replicate edim 0) W 0 = W @ replicate (nat (q + a) - length W) (replicate edim 0)"
    using vcut_end [OF sh] s by (simp add: weight_of_def n slice_def)
  have "num \<le> q + a" using s(3,4) n by simp
  then have "min (nat num - nat org) (nat (q + a) - nat org) = nat (num - org)" using s(5,6) by linarith
  then show ?thesis using s by (simp add: get_logits_def n f_linear_def w)
qed

text \<open>
  C15: The gathered logits are the logits of the whole head: with the weights that the ranks
  loaded, the index mapping of the head is a permutation of the gathered columns, and the reindexed
  logits, cut to the vocabulary, are the products of the hidden state with the checkpoint's rows in
  token order, followed by zeros for added tokens.
\<close>

theorem gathered_logits_exact:
  fixes W :: "'a::comm_ring_1 list list"
  assumes S: "0 < S" and P: "0 < P" "S dvd P"
    and org: "0 < org_size num org" "org_size num org \<le> num"
    and W: "int (length W) = org_size num org" "\<forall>row \<in> set W. length row = edim"
  shows "\<exists>layers ws. result_map (\<lambda>r. vocab_init num org P False r S) (py_range 0 S) = Inr layers
    \<and> result_map (\<lambda>vl. vocab_weight_loader vl (replicate edim 0) W) layers = Inr ws
    \<and> (\<forall>vl \<in> set layers.
         get_logits vl num ws h = Inr (f_linear W h @ replicate (nat (num - org_size num org)) 0)
       \<and> (2 \<le> S \<longrightarrow> (\<exists>ix. get_sharded_to_full_mapping vl = Inr (Some ix) \<and> mset ix = mset (py_range 0 (vl_padded vl)))))"
proof -
  obtain q a where sh: "vocab_shards q a num (org_size num org) (nat S) W edim"
    and layers: "result_map (\<lambda>r. vocab_init num org P False r S) (py_range 0 S)
      = Inr (map (\<lambda>k. layer_of q a num (org_size num org) False S (int k)) [0..<nat S])"
    by (rule build_ranks [OF S P org W])
  note s = vocab_shardsD [OF sh]
  let ?ws = "map (weight_of q a (org_size num org) (replicate edim 0) W) [0..<nat S]"
  have "get_logits (layer_of q a num (org_size num org) False S (int k)) num ?ws h
      = Inr (f_linear W h @ replicate (nat (num - org_size num org)) 0)" for k
    using get_logits_one [OF sh] get_logits_many [OF sh] S by (cases "S = 1") auto
  moreover have "\<exists>ix. get_sharded_to_full_mapping (layer_of q a num (org_size num org) False S (int k)) = Inr (Some ix)
      \<and> mset ix = mset (py_range 0 (vl_padded (layer_of q a num (org_size num org) False S (int k))))" if "2 \<le> S" for k
    using mapping_ok [OF s(1,2,10,6), of "nat S" False "int k"] mapping_mset [OF s(1,2,10,6), of "nat S"] that
    by (simp add: layer_of_def del: mset_append)
  ultimately show ?thesis using layers load_ranks [OF sh] by (intro exI conjI) auto
qed

theorem gathered_logits_exact_witness:
  "\<exists>layers ws. result_map (\<lambda>r. vocab_init 3 None 2 False r 2) (py_range 0 2) = Inr layers
     \<and> result_map (\<lambda>vl. vocab_weight_loader vl [0] [[1], [2], [3 :: int]]) layers = Inr ws
     \<and> (\<forall>vl \<in> set layers. get_logits vl 3 ws [5] = Inr [5, 10, 15])"
  using gathered_logits_exact [of 2 2 3 None "[[1], [2], [3 :: int]]" 1 "[5]"]
  by (auto simp: org_size_def f_linear_def dot_def)

end
