(* ===== verification/Parallel_Linear.thy ===== *)
theory Parallel_Linear
  imports Parallel
begin

text \<open>
  The tensor-parallel linear layers (layers/linear.py) and the LLaDA MLP on top of them
  (models/llada2.py), for the parameters that the unquantized method creates (layers/quantization/
  unquant.py: a weight with \<open>output_dim\<close> 0 and \<open>input_dim\<close> 1, a bias with \<open>output_dim\<close> 0, no quantization
  attributes) on a GPU (\<open>_is_cpu\<close> and \<open>_is_npu\<close> are false).  A tensor is the list of its slices along
  its first dimension with the sizes of the other dimensions; a loader maps the parameter to the
  parameter afterwards.
\<close>

section \<open>Tensors\<close>

record 'b tensor =
  tn_rest :: "nat list"
  tn_rows :: "'b list"

definition tensor_shape :: "'b tensor \<Rightarrow> nat list" where
  "tensor_shape t = length (tn_rows t) # tn_rest t"

definition narrow0 :: "'b tensor \<Rightarrow> int \<Rightarrow> int \<Rightarrow> 'b tensor result" where
  "narrow0 t start len = result_bind (narrow (tn_rows t) start len) (\<lambda>rows. Inr (t\<lparr>tn_rows := rows\<rparr>))"

text \<open>Along the second dimension; the rows of a matrix all have its width.\<close>

definition narrow1 :: "'a list tensor \<Rightarrow> int \<Rightarrow> int \<Rightarrow> 'a list tensor result" where
  "narrow1 t start len =
     (if start < 0 \<or> len < 0 \<or> start + len > int (hd (tn_rest t))
      then Inl (RuntimeError ''start (...) + length (...) exceeds dimension size'')
      else Inr \<lparr> tn_rest = [nat len], tn_rows = map (slice (nat start) (nat (start + len))) (tn_rows t) \<rparr>)"

definition pad_or_narrow0 :: "'b \<Rightarrow> 'b tensor \<Rightarrow> int \<Rightarrow> int \<Rightarrow> 'b tensor result" where
  "pad_or_narrow0 zero t start_idx shard_size =
     (let valid_size = max (int (length (tn_rows t)) - start_idx) 0
      in if valid_size > 0
         then result_bind (narrow0 t start_idx valid_size) (\<lambda>s.
              Inr (t\<lparr>tn_rows := tn_rows s @ replicate (nat (shard_size - valid_size)) zero\<rparr>))
         else Inr (t\<lparr>tn_rows := replicate (nat shard_size) zero\<rparr>))"

definition pad_or_narrow1 :: "'a::comm_ring_1 list tensor \<Rightarrow> int \<Rightarrow> int \<Rightarrow> 'a list tensor result" where
  "pad_or_narrow1 t start_idx shard_size =
     (let valid_size = max (int (hd (tn_rest t)) - start_idx) 0
      in if valid_size > 0
         then result_bind (narrow1 t start_idx valid_size) (\<lambda>s.
              Inr \<lparr> tn_rest = [nat shard_size],
                    tn_rows = map (\<lambda>row. row @ replicate (nat (shard_size - valid_size)) 0) (tn_rows s) \<rparr>)
         else Inr \<lparr> tn_rest = [nat shard_size], tn_rows = map (\<lambda>row. replicate (nat shard_size) 0) (tn_rows t) \<rparr>)"

text \<open>\<open>assert param_data.shape == loaded_weight.shape\<close> and the copy.\<close>

definition copy_checked :: "'b tensor \<Rightarrow> 'b tensor \<Rightarrow> 'b tensor result" where
  "copy_checked param loaded = (if tensor_shape param \<noteq> tensor_shape loaded then Inl AssertionError else Inr loaded)"

section \<open>Column-parallel loading\<close>

definition column_weight_loader :: "bool \<Rightarrow> int \<Rightarrow> 'b tensor \<Rightarrow> 'b tensor \<Rightarrow> 'b tensor result" where
  "column_weight_loader presharded tp_rank param loaded =
     (let shard_size = int (length (tn_rows param)); start_idx = tp_rank * shard_size
      in result_bind (if presharded then Inr loaded else narrow0 loaded start_idx shard_size) (copy_checked param))"

record column_layer =
  cl_tp_rank :: int
  cl_tp_size :: int
  cl_presharded :: bool
  cl_output_sizes :: "int list"
  cl_partition_sizes :: "int list"

text \<open>\<open>ColumnParallelLinear.__init__\<close>; \<open>output_sizes\<close> are those of a merged or QKV layer.\<close>

definition column_init :: "int \<Rightarrow> int list option \<Rightarrow> bool \<Rightarrow> int \<Rightarrow> int \<Rightarrow> column_layer result" where
  "column_init output_size output_sizes presharded tp_rank tp_size =
     result_bind (divide_tp output_size tp_size) (\<lambda>per.
     case output_sizes of
       None \<Rightarrow> Inr \<lparr> cl_tp_rank = tp_rank, cl_tp_size = tp_size, cl_presharded = presharded,
                      cl_output_sizes = [output_size], cl_partition_sizes = [per] \<rparr>
     | Some sizes \<Rightarrow> result_bind (result_map (\<lambda>s. divide_tp s tp_size) sizes) (\<lambda>parts.
         Inr \<lparr> cl_tp_rank = tp_rank, cl_tp_size = tp_size, cl_presharded = presharded,
               cl_output_sizes = sizes, cl_partition_sizes = parts \<rparr>))"

definition merged_init :: "int list \<Rightarrow> bool \<Rightarrow> int \<Rightarrow> int \<Rightarrow> column_layer result" where
  "merged_init output_sizes presharded tp_rank tp_size =
     (if tp_size = 0 \<and> output_sizes \<noteq> [] then Inl zero_division
      else if \<not> list_all (\<lambda>s. s mod tp_size = 0) output_sizes then Inl AssertionError
      else column_init (sum_list output_sizes) (Some output_sizes) presharded tp_rank tp_size)"

text \<open>The fresh weight of a layer (\<open>torch.empty\<close>), filled with some row.\<close>

definition create_weight :: "nat list \<Rightarrow> 'b \<Rightarrow> column_layer \<Rightarrow> 'b tensor" where
  "create_weight rest row cl = \<lparr> tn_rest = rest, tn_rows = replicate (nat (sum_list (cl_partition_sizes cl))) row \<rparr>"

text \<open>Writing a tensor into a range of rows of the parameter.\<close>

definition write_rows :: "'b tensor \<Rightarrow> int \<Rightarrow> int \<Rightarrow> 'b tensor \<Rightarrow> 'b tensor result" where
  "write_rows param offset sz loaded =
     result_bind (narrow0 param offset sz) (\<lambda>view.
     result_bind (copy_checked view loaded) (\<lambda>new.
     Inr (param\<lparr>tn_rows := take (nat offset) (tn_rows param) @ tn_rows new @ drop (nat (offset + sz)) (tn_rows param)\<rparr>)))"

definition merged_load_shard :: "column_layer \<Rightarrow> 'b \<Rightarrow> nat \<Rightarrow> 'b tensor \<Rightarrow> 'b tensor \<Rightarrow> 'b tensor result" where
  "merged_load_shard cl zero shard_id param loaded =
     (if \<not> shard_id < length (cl_output_sizes cl) then Inl AssertionError
      else let shard_offset = sum_list (take shard_id (cl_output_sizes cl)) div cl_tp_size cl;
               shard_size = (cl_output_sizes cl ! shard_id) div cl_tp_size cl;
               start_idx = cl_tp_rank cl * shard_size; end_idx = start_idx + shard_size
           in result_bind (narrow0 param shard_offset shard_size) (\<lambda>_.
              result_bind
                (if cl_presharded cl then Inr loaded
                 else if end_idx > int (length (tn_rows loaded)) then pad_or_narrow0 zero loaded start_idx shard_size
                 else narrow0 loaded start_idx shard_size) (\<lambda>lw.
              write_rows param shard_offset shard_size lw)))"

text \<open>A weight that is fused on disk: its shards in turn.\<close>

definition shard_offsets :: "int list \<Rightarrow> (nat \<times> int \<times> int) list" where
  "shard_offsets sizes = map (\<lambda>i. (i, sum_list (take i sizes), sizes ! i)) [0..<length sizes]"

definition merged_weight_loader :: "column_layer \<Rightarrow> 'b \<Rightarrow> nat option \<Rightarrow> 'b tensor \<Rightarrow> 'b tensor \<Rightarrow> 'b tensor result" where
  "merged_weight_loader cl zero shard_id loaded param =
     (case shard_id of
        Some i \<Rightarrow> merged_load_shard cl zero i param loaded
      | None \<Rightarrow> result_fold (\<lambda>(i, offset, sz) param.
          result_bind (narrow0 loaded offset sz) (\<lambda>shard. merged_load_shard cl zero i param shard))
          (shard_offsets (cl_output_sizes cl)) param)"

section \<open>Query, key and value\<close>

datatype qkv_id = Q_Id | K_Id | V_Id

record qkv_layer =
  qk_column :: column_layer
  qk_head_size :: int
  qk_total_heads :: int
  qk_total_kv_heads :: int
  qk_heads :: int
  qk_kv_heads :: int
  qk_replicas :: int

definition qkv_init :: "int \<Rightarrow> int \<Rightarrow> int option \<Rightarrow> bool \<Rightarrow> int \<Rightarrow> int \<Rightarrow> qkv_layer result" where
  "qkv_init head_size total_heads total_kv_heads presharded tp_rank tp_size =
     (let total_kv = (case total_kv_heads of None \<Rightarrow> total_heads | Some n \<Rightarrow> n)
      in result_bind (divide_tp total_heads tp_size) (\<lambda>heads.
         result_bind (if tp_size \<ge> total_kv then result_bind (divide_tp tp_size total_kv) (\<lambda>rep. Inr (1, rep))
                      else result_bind (divide_tp total_kv tp_size) (\<lambda>kv. Inr (kv, 1))) (\<lambda>(kv_heads, replicas).
         result_bind (column_init ((heads + 2 * kv_heads) * tp_size * head_size)
             (Some [heads * head_size * tp_size, kv_heads * head_size * tp_size, kv_heads * head_size * tp_size])
             presharded tp_rank tp_size) (\<lambda>cl.
         Inr \<lparr> qk_column = cl, qk_head_size = head_size, qk_total_heads = total_heads, qk_total_kv_heads = total_kv,
               qk_heads = heads, qk_kv_heads = kv_heads, qk_replicas = replicas \<rparr>))))"

fun get_shard_offset_mapping :: "qkv_layer \<Rightarrow> qkv_id \<Rightarrow> int" where
  "get_shard_offset_mapping L Q_Id = 0"
| "get_shard_offset_mapping L K_Id = qk_heads L * qk_head_size L"
| "get_shard_offset_mapping L V_Id = (qk_heads L + qk_kv_heads L) * qk_head_size L"

fun get_shard_size_mapping :: "qkv_layer \<Rightarrow> qkv_id \<Rightarrow> int" where
  "get_shard_size_mapping L Q_Id = qk_heads L * qk_head_size L"
| "get_shard_size_mapping L K_Id = qk_kv_heads L * qk_head_size L"
| "get_shard_size_mapping L V_Id = qk_kv_heads L * qk_head_size L"

definition qkv_load_shard :: "qkv_layer \<Rightarrow> qkv_id \<Rightarrow> 'b tensor \<Rightarrow> 'b tensor \<Rightarrow> 'b tensor result" where
  "qkv_load_shard L sid param loaded =
     (let shard_offset = get_shard_offset_mapping L sid; shard_size = get_shard_size_mapping L sid
      in result_bind (narrow0 param shard_offset shard_size) (\<lambda>_.
         if sid \<noteq> Q_Id \<and> qk_replicas L = 0 then Inl zero_division
         else let shard_id = (if sid = Q_Id then cl_tp_rank (qk_column L) else cl_tp_rank (qk_column L) div qk_replicas L);
                  start_idx = shard_id * shard_size
              in result_bind (if cl_presharded (qk_column L) then Inr loaded else narrow0 loaded start_idx shard_size) (\<lambda>lw.
                 write_rows param shard_offset shard_size lw)))"

text \<open>Fused on disk: with presharded weights the loop reads \<open>loaded_weight_shard\<close> before it is assigned.\<close>

definition qkv_fused_offsets :: "qkv_layer \<Rightarrow> (qkv_id \<times> int \<times> int) list" where
  "qkv_fused_offsets L =
     [(Q_Id, 0, qk_total_heads L * qk_head_size L),
      (K_Id, qk_total_heads L * qk_head_size L, qk_total_kv_heads L * qk_head_size L),
      (V_Id, (qk_total_heads L + qk_total_kv_heads L) * qk_head_size L, qk_total_kv_heads L * qk_head_size L)]"

definition qkv_weight_loader :: "qkv_layer \<Rightarrow> qkv_id option \<Rightarrow> 'b tensor \<Rightarrow> 'b tensor \<Rightarrow> 'b tensor result" where
  "qkv_weight_loader L sid loaded param =
     (case sid of
        Some i \<Rightarrow> qkv_load_shard L i param loaded
      | None \<Rightarrow> result_fold (\<lambda>(i, offset, sz) param.
          if cl_presharded (qk_column L) then Inl (UnboundLocalError ''loaded_weight_shard'')
          else result_bind (narrow0 loaded offset sz) (\<lambda>shard. qkv_load_shard L i param shard))
          (qkv_fused_offsets L) param)"

section \<open>Row-parallel loading\<close>

definition row_weight_loader :: "bool \<Rightarrow> int \<Rightarrow> 'a::comm_ring_1 list tensor \<Rightarrow> 'a list tensor \<Rightarrow> 'a list tensor result" where
  "row_weight_loader presharded tp_rank param loaded =
     (let shard_size = int (hd (tn_rest param)); start_idx = tp_rank * shard_size; end_idx = start_idx + shard_size
      in result_bind
           (if presharded then Inr loaded
            else if end_idx > int (hd (tn_rest loaded)) then pad_or_narrow1 loaded start_idx shard_size
            else narrow1 loaded start_idx shard_size) (copy_checked param))"

text \<open>The bias of a row-parallel layer has no \<open>input_dim\<close> and is loaded whole.\<close>

definition row_bias_loader :: "'a tensor \<Rightarrow> 'a tensor \<Rightarrow> 'a tensor result" where
  "row_bias_loader param loaded = copy_checked param loaded"

section \<open>Forward\<close>

definition add_bias :: "'a::comm_ring_1 list option \<Rightarrow> 'a list \<Rightarrow> 'a list" where
  "add_bias b y = (case b of None \<Rightarrow> y | Some b \<Rightarrow> map2 (+) y b)"

text \<open>\<open>forward\<close> of a column-parallel layer on all ranks with \<open>gather_output\<close>; the output of a rank without it is its part.\<close>

definition column_forward_rank :: "'a::comm_ring_1 list list \<Rightarrow> 'a list option \<Rightarrow> bool \<Rightarrow> 'a list \<Rightarrow> 'a list \<times> 'a list option" where
  "column_forward_rank weight bias skip_bias_add x =
     (add_bias (if skip_bias_add then None else bias) (f_linear weight x), if skip_bias_add then bias else None)"

definition column_forward_gathered :: "('a::comm_ring_1 list list \<times> 'a list option) list \<Rightarrow> bool \<Rightarrow> 'a list \<Rightarrow> 'a list" where
  "column_forward_gathered ranks skip_bias_add x =
     all_gather (map (\<lambda>(w, b). fst (column_forward_rank w b skip_bias_add x)) ranks)"

text \<open>\<open>torch.chunk\<close> along the last dimension.\<close>

primrec chunk_go :: "nat \<Rightarrow> nat \<Rightarrow> 'a list \<Rightarrow> 'a list list" where
  "chunk_go 0 sz xs = []"
| "chunk_go (Suc n) sz xs = (if xs = [] then [] else take sz xs # chunk_go n sz (drop sz xs))"

definition split_tensor_along_last_dim :: "'a list \<Rightarrow> nat \<Rightarrow> 'a list list" where
  "split_tensor_along_last_dim xs n = (if xs = [] then replicate n [] else chunk_go n ((length xs + n - 1) div n) xs)"

text \<open>The output of one rank of a row-parallel layer before the reduction; the bias is added on rank 0 only.\<close>

definition row_forward_rank ::
  "bool \<Rightarrow> nat \<Rightarrow> nat \<Rightarrow> bool \<Rightarrow> 'a::comm_ring_1 list list \<Rightarrow> 'a list option \<Rightarrow> 'a list \<Rightarrow> 'a list result" where
  "row_forward_rank input_is_parallel tp_rank tp_size skip_bias_add weight bias input =
     result_bind (if input_is_parallel then Inr input
                  else let parts = split_tensor_along_last_dim input tp_size
                       in if tp_rank < length parts then Inr (parts ! tp_rank) else Inl IndexError) (\<lambda>x.
       Inr (add_bias (if tp_rank > 0 \<or> skip_bias_add then None else bias) (f_linear weight x)))"

definition silu_and_mul :: "('a::comm_ring_1 \<Rightarrow> 'a) \<Rightarrow> 'a list \<Rightarrow> 'a list" where
  "silu_and_mul silu x = (let d = length x div 2 in map2 (\<lambda>g u. silu g * u) (take d x) (drop d x))"

text \<open>The MLP of one rank before the reduction, and of all ranks.\<close>

definition mlp_forward_rank :: "('a::comm_ring_1 \<Rightarrow> 'a) \<Rightarrow> nat \<Rightarrow> nat \<Rightarrow> 'a list list \<Rightarrow> 'a list list \<Rightarrow> 'a list \<Rightarrow> 'a list result" where
  "mlp_forward_rank silu tp_rank tp_size gate_up down x =
     row_forward_rank True tp_rank tp_size False down None
       (silu_and_mul silu (fst (column_forward_rank gate_up None False x)))"

definition mlp_forward :: "('a::comm_ring_1 \<Rightarrow> 'a) \<Rightarrow> ('a list list \<times> 'a list list) list \<Rightarrow> 'a list \<Rightarrow> 'a list result" where
  "mlp_forward silu ranks x =
     result_bind (result_map (\<lambda>(r, gate_up, down). mlp_forward_rank silu r (length ranks) gate_up down x) (enumerate 0 ranks))
       (\<lambda>parts. Inr (if length ranks > 1 then all_reduce parts else hd parts))"

section \<open>Blocks of rows\<close>

lemma narrow0_ok:
  assumes "a + b \<le> length (tn_rows t)"
  shows "narrow0 t (int a) (int b) = Inr (t\<lparr>tn_rows := slice a (a + b) (tn_rows t)\<rparr>)"
  using assms narrow_ok [of "int a" "int b" "tn_rows t"] by (simp add: narrow0_def nat_add_distrib)

lemma take_drop_concat:
  assumes "i < length blocks"
  shows "take (sum_list (map length (take i blocks))) (concat blocks) = concat (take i blocks)"
    and "drop (sum_list (map length (take i blocks)) + length (blocks ! i)) (concat blocks) = concat (drop (Suc i) blocks)"
    and "sum_list (map length (take i blocks)) + length (blocks ! i) \<le> length (concat blocks)"
proof -
  have "concat blocks = concat (take i blocks) @ blocks ! i @ concat (drop (Suc i) blocks)"
    using id_take_nth_drop [OF assms] by (metis concat.simps(2) concat_append)
  moreover have "sum_list (map length (take i blocks)) = length (concat (take i blocks))" by (simp add: length_concat)
  ultimately show "take (sum_list (map length (take i blocks))) (concat blocks) = concat (take i blocks)"
    and "drop (sum_list (map length (take i blocks)) + length (blocks ! i)) (concat blocks) = concat (drop (Suc i) blocks)"
    and "sum_list (map length (take i blocks)) + length (blocks ! i) \<le> length (concat blocks)" by simp_all
qed

text \<open>A parameter made of blocks: writing one of them.\<close>

lemma write_rows_block:
  assumes rows: "tn_rows param = concat blocks" and i: "i < length blocks"
    and off: "offset = int (sum_list (map length (take i blocks)))" and sz: "sz = int (length (blocks ! i))"
    and len: "length (tn_rows loaded) = length (blocks ! i)" and rest: "tn_rest loaded = tn_rest param"
  shows "write_rows param offset sz loaded = Inr (param\<lparr>tn_rows := concat (blocks[i := tn_rows loaded])\<rparr>)"
proof -
  note b = take_drop_concat [OF i]
  have "narrow0 param offset sz = Inr (param\<lparr>tn_rows := slice (sum_list (map length (take i blocks)))
      (sum_list (map length (take i blocks)) + length (blocks ! i)) (concat blocks)\<rparr>)"
    using narrow0_ok [of "sum_list (map length (take i blocks))" "length (blocks ! i)" param] b(3) rows off sz by simp
  moreover have "copy_checked (param\<lparr>tn_rows := slice (sum_list (map length (take i blocks)))
      (sum_list (map length (take i blocks)) + length (blocks ! i)) (concat blocks)\<rparr>) loaded = Inr loaded"
    using len rest b(3) by (simp add: copy_checked_def tensor_shape_def)
  moreover have "nat (offset + sz) = sum_list (map length (take i blocks)) + length (blocks ! i)"
    "nat offset = sum_list (map length (take i blocks))"
    using off sz by (simp_all add: nat_add_distrib)
  ultimately show ?thesis
    using b(1,2) rows i by (simp add: write_rows_def upd_conv_take_nth_drop)
qed

text \<open>A merged layer of blocks of \<open>ms ! i\<close> rows on each of \<open>n\<close> ranks.\<close>

definition merged_layer :: "column_layer \<Rightarrow> nat list \<Rightarrow> nat \<Rightarrow> nat \<Rightarrow> bool" where
  "merged_layer cl ms n r = (cl_tp_size cl = int n \<and> cl_tp_rank cl = int r \<and> r < n \<and> \<not> cl_presharded cl
     \<and> cl_output_sizes cl = map (\<lambda>m. int (m * n)) ms \<and> cl_partition_sizes cl = map int ms)"

lemma sum_list_mult_nat: "sum_list (map (\<lambda>m. m * n) ms) = sum_list ms * (n :: nat)"
  by (induction ms) (simp_all add: algebra_simps)

lemma sum_list_mult_int: "sum_list (map (\<lambda>m. int (m * n)) ms) = int (sum_list ms) * int n"
  by (induction ms) (simp_all add: algebra_simps)

lemma merged_init_ok:
  assumes "r < n"
  shows "\<exists>cl. merged_init (map (\<lambda>m. int (m * n)) ms) False (int r) (int n) = Inr cl \<and> merged_layer cl ms n r"
proof -
  have "result_map (\<lambda>s. divide_tp s (int n)) (map (\<lambda>m. int (m * n)) ms) = Inr (map int ms)"
    using assms result_map_ok [of ms "\<lambda>m. divide_tp (int (m * n)) (int n)" int] by (simp add: result_map_map)
  moreover have "divide_tp (sum_list (map (\<lambda>m. int (m * n)) ms)) (int n) = Inr (int (sum_list ms))"
    using assms unfolding sum_list_mult_int by simp
  moreover have "list_all (\<lambda>s. s mod int n = 0) (map (\<lambda>m. int (m * n)) ms)" by (simp add: list_all_iff)
  ultimately show ?thesis using assms by (simp add: merged_init_def column_init_def merged_layer_def)
qed

lemma merged_load_shard_ok:
  assumes cl: "merged_layer cl ms n r" and i: "i < length ms"
    and rows: "tn_rows param = concat blocks" "map length blocks = ms"
    and loaded: "length (tn_rows loaded) = ms ! i * n" "tn_rest loaded = tn_rest param"
  shows "merged_load_shard cl zero i param loaded
    = Inr (param\<lparr>tn_rows := concat (blocks[i := slice (r * ms ! i) (r * ms ! i + ms ! i) (tn_rows loaded)])\<rparr>)"
proof -
  let ?m = "ms ! i"
  have n: "0 < n" "r < n" and c: "cl_tp_size cl = int n" "cl_tp_rank cl = int r" "\<not> cl_presharded cl"
      "cl_output_sizes cl = map (\<lambda>m. int (m * n)) ms" using cl by (auto simp: merged_layer_def)
  have len: "length blocks = length ms" "length (blocks ! i) = ?m" using rows(2) i by (metis length_map, metis length_map nth_map)
  have "sum_list (take i (cl_output_sizes cl)) = int (sum_list (take i ms)) * int n"
    using sum_list_mult_int [of n "take i ms"] by (simp add: c(4) take_map)
  then have off: "sum_list (take i (cl_output_sizes cl)) div cl_tp_size cl = int (sum_list (map length (take i blocks)))"
    using n rows(2) by (simp add: c(1) take_map [symmetric])
  have sz: "cl_output_sizes cl ! i div cl_tp_size cl = int ?m" using i n by (simp add: c)
  have "Suc r * ?m \<le> n * ?m" using n(2) by (intro mult_le_mono1) simp
  then have fits: "r * ?m + ?m \<le> length (tn_rows loaded)" using loaded(1) by (simp add: algebra_simps)
  have nar: "narrow0 loaded (int r * int ?m) (int ?m) = Inr (loaded\<lparr>tn_rows := slice (r * ?m) (r * ?m + ?m) (tn_rows loaded)\<rparr>)"
    using narrow0_ok [OF fits] by simp
  have view: "is_ok (narrow0 param (int (sum_list (map length (take i blocks)))) (int ?m))"
    using narrow0_ok [of "sum_list (map length (take i blocks))" ?m param] take_drop_concat(3) [of i blocks] i len rows(1)
    by (simp add: is_ok_def)
  have wr: "write_rows param (int (sum_list (map length (take i blocks)))) (int ?m)
      (loaded\<lparr>tn_rows := slice (r * ?m) (r * ?m + ?m) (tn_rows loaded)\<rparr>)
      = Inr (param\<lparr>tn_rows := concat (blocks[i := slice (r * ?m) (r * ?m + ?m) (tn_rows loaded)])\<rparr>)"
    using write_rows_block [OF rows(1), of i _ _ "loaded\<lparr>tn_rows := slice (r * ?m) (r * ?m + ?m) (tn_rows loaded)\<rparr>"]
      i len fits loaded(2) by simp
  have "\<not> int r * int ?m + int ?m > int (length (tn_rows loaded))" using fits by (metis not_less of_nat_add of_nat_le_iff of_nat_mult)
  then show ?thesis
    using i view nar wr unfolding merged_load_shard_def off sz c(2) Let_def
    by (auto simp: c(3,4) is_ok_def result_bind_def split: sum.splits)
qed

text \<open>Loading shards one after the other; any loader that fetches shard \<open>i\<close> and stores it will do.\<close>

definition rank_blocks :: "nat list \<Rightarrow> nat \<Rightarrow> 'b list list \<Rightarrow> 'b list list" where
  "rank_blocks ms r Ws = map2 (\<lambda>m W. slice (r * m) (r * m + m) W) ms Ws"

lemma load_shards:
  assumes step: "\<And>i blocks. i < length ms \<Longrightarrow> map length blocks = ms \<Longrightarrow>
      load i (param\<lparr>tn_rows := concat blocks\<rparr>)
        = Inr (param\<lparr>tn_rows := concat (blocks[i := slice (r * ms ! i) (r * ms ! i + ms ! i) (Ws ! i)])\<rparr>)"
    and rows: "map length blocks = ms" and Ws: "map length Ws = map (\<lambda>m. m * n) ms" and r: "r < n"
  shows "result_fold load [0..<length ms] (param\<lparr>tn_rows := concat blocks\<rparr>)
    = Inr (param\<lparr>tn_rows := concat (rank_blocks ms r Ws)\<rparr>)"
proof -
  have len: "length Ws = length ms" "length blocks = length ms" using Ws rows by (metis length_map)+
  have lens: "map length (rank_blocks ms r Ws) = ms"
  proof (rule nth_equalityI)
    fix i assume "i < length (map length (rank_blocks ms r Ws))"
    then have i: "i < length ms" using len by (simp add: rank_blocks_def)
    have "length (Ws ! i) = ms ! i * n" using Ws i len by (metis length_map nth_map)
    moreover have "Suc r * ms ! i \<le> n * ms ! i" using r by (intro mult_le_mono1) simp
    ultimately show "map length (rank_blocks ms r Ws) ! i = ms ! i"
      using i len by (simp add: rank_blocks_def algebra_simps)
  qed (use len in \<open>simp add: rank_blocks_def\<close>)
  have "result_fold load [0..<k] (param\<lparr>tn_rows := concat blocks\<rparr>)
      = Inr (param\<lparr>tn_rows := concat (take k (rank_blocks ms r Ws) @ drop k blocks)\<rparr>)" if "k \<le> length ms" for k
    using that
  proof (induction k)
    case (Suc k)
    let ?b = "take k (rank_blocks ms r Ws) @ drop k blocks"
    have rb: "length (rank_blocks ms r Ws) = length ms" using len by (simp add: rank_blocks_def)
    have "map length ?b = take k (map length (rank_blocks ms r Ws)) @ drop k (map length blocks)"
      by (simp add: take_map drop_map)
    then have bl: "map length ?b = ms" using lens rows by simp
    have "?b[k := slice (r * ms ! k) (r * ms ! k + ms ! k) (Ws ! k)] = take (Suc k) (rank_blocks ms r Ws) @ drop (Suc k) blocks"
      using Suc.prems len rb
      by (simp add: list_update_append take_Suc_conv_app_nth Cons_nth_drop_Suc [symmetric] rank_blocks_def)
    then have "load k (param\<lparr>tn_rows := concat ?b\<rparr>)
        = Inr (param\<lparr>tn_rows := concat (take (Suc k) (rank_blocks ms r Ws) @ drop (Suc k) blocks)\<rparr>)"
      using step [OF _ bl, of k] Suc.prems by simp
    then show ?case using Suc by (simp add: result_fold_append)
  qed simp
  from this [of "length ms"] show ?thesis using len by (simp add: rank_blocks_def)
qed

lemma slice_concat_block:
  assumes "i < length Ws"
  shows "slice (sum_list (map length (take i Ws))) (sum_list (map length (take i Ws)) + length (Ws ! i)) (concat Ws) = Ws ! i"
proof -
  have "concat Ws = concat (take i Ws) @ Ws ! i @ concat (drop (Suc i) Ws)"
    using id_take_nth_drop [OF assms] by (metis concat.simps(2) concat_append)
  moreover have "sum_list (map length (take i Ws)) = length (concat (take i Ws))" by (simp add: length_concat)
  ultimately show ?thesis by (simp add: slice_def)
qed

lemma blocks_exist: "length xs = sum_list ms \<Longrightarrow> \<exists>bs. map length bs = ms \<and> concat bs = xs"
proof (induction ms arbitrary: xs)
  case (Cons m ms)
  have "length (drop m xs) = sum_list ms" using Cons.prems by simp
  then obtain bs where "map length bs = ms" "concat bs = drop m xs" using Cons.IH by blast
  then show ?case using Cons.prems by (intro exI [of _ "take m xs # bs"]) simp
qed simp

text \<open>
  A merged layer holds, for each of its matrices, the rows of its rank, whether the matrices come one
  by one or fused in one tensor.
\<close>

lemma merged_loads:
  assumes cl: "merged_layer cl ms n r" and Ws: "map length Ws = map (\<lambda>m. m * n) ms"
    and param: "length (tn_rows param) = sum_list ms"
  shows "result_fold (\<lambda>i. merged_weight_loader cl zero (Some i) \<lparr>tn_rest = tn_rest param, tn_rows = Ws ! i\<rparr>) [0..<length ms] param
      = Inr (param\<lparr>tn_rows := concat (rank_blocks ms r Ws)\<rparr>)" (is ?separate)
    and "merged_weight_loader cl zero None \<lparr>tn_rest = tn_rest param, tn_rows = concat Ws\<rparr> param
      = Inr (param\<lparr>tn_rows := concat (rank_blocks ms r Ws)\<rparr>)" (is ?fused)
proof -
  have len: "length Ws = length ms" using Ws by (metis length_map)
  have W: "length (Ws ! i) = ms ! i * n" if "i < length ms" for i using Ws that len by (metis length_map nth_map)
  obtain bs where bs: "map length bs = ms" "concat bs = tn_rows param" using blocks_exist [OF param] by blast
  have p: "param = param\<lparr>tn_rows := concat bs\<rparr>" by (simp add: bs(2))
  have r: "r < n" using cl by (simp add: merged_layer_def)
  have step: "merged_load_shard cl zero i (param\<lparr>tn_rows := concat blocks\<rparr>) \<lparr>tn_rest = tn_rest param, tn_rows = Ws ! i\<rparr>
      = Inr (param\<lparr>tn_rows := concat (blocks[i := slice (r * ms ! i) (r * ms ! i + ms ! i) (Ws ! i)])\<rparr>)"
    if "i < length ms" "map length blocks = ms" for i blocks
    using merged_load_shard_ok [OF cl that(1) _ that(2), of "param\<lparr>tn_rows := concat blocks\<rparr>" "\<lparr>tn_rest = tn_rest param, tn_rows = Ws ! i\<rparr>"]
      W [OF that(1)] by simp
  show ?separate
    by (subst p, rule load_shards [OF _ bs(1) Ws r]) (simp add: merged_weight_loader_def step)
  have c: "cl_output_sizes cl = map (\<lambda>m. int (m * n)) ms" using cl by (simp add: merged_layer_def)
  have shard: "narrow0 \<lparr>tn_rest = tn_rest param, tn_rows = concat Ws\<rparr> (sum_list (take i (cl_output_sizes cl))) (cl_output_sizes cl ! i)
      = Inr \<lparr>tn_rest = tn_rest param, tn_rows = Ws ! i\<rparr>" if i: "i < length ms" for i
  proof -
    have "sum_list (take i (cl_output_sizes cl)) = int (sum_list (map length (take i Ws)))"
      using arg_cong [OF Ws, of "take i"] sum_list_mult_int [of n "take i ms"] by (simp add: c take_map sum_list_mult_nat)
    moreover have "cl_output_sizes cl ! i = int (length (Ws ! i))" using i W by (simp add: c)
    ultimately show ?thesis
      using narrow0_ok [of "sum_list (map length (take i Ws))" "length (Ws ! i)" "\<lparr>tn_rest = tn_rest param, tn_rows = concat Ws\<rparr>"]
        take_drop_concat(3) [of i Ws] slice_concat_block [of i Ws] i len by simp
  qed
  have "result_fold (\<lambda>i param'. result_bind (narrow0 \<lparr>tn_rest = tn_rest param, tn_rows = concat Ws\<rparr>
        (sum_list (take i (cl_output_sizes cl))) (cl_output_sizes cl ! i)) (\<lambda>shard. merged_load_shard cl zero i param' shard))
      [0..<length ms] (param\<lparr>tn_rows := concat bs\<rparr>) = Inr (param\<lparr>tn_rows := concat (rank_blocks ms r Ws)\<rparr>)"
    by (rule load_shards [OF _ bs(1) Ws r]) (simp add: shard step)
  then show ?fused
    by (subst p) (simp add: merged_weight_loader_def shard_offsets_def c result_fold_map)
qed

section \<open>Sums over ranks\<close>

lemma zip_slice: "zip (slice a b xs) (slice a b ys) = slice a b (zip xs ys)"
  by (simp add: slice_def take_zip drop_zip)

lemma map_slice: "map f (slice a b xs) = slice a b (map f xs)"
  by (simp add: slice_def take_map drop_map)

lemma sum_list_concat: "sum_list (concat xss) = sum_list (map sum_list (xss :: 'a::comm_ring_1 list list))"
  by (induction xss) simp_all

lemma dot_slices:
  assumes "length xs = n * m" "length ys = n * m"
  shows "sum_list (map (\<lambda>r. dot (slice (r * m) (r * m + m) xs) (slice (r * m) (r * m + m) ys)) [0..<n]) = dot xs ys"
proof -
  let ?p = "map2 (*) xs ys"
  have d: "dot (slice a b xs) (slice a b ys) = sum_list (slice a b ?p)" for a b
    by (simp add: dot_def zip_slice map_slice)
  have "sum_list (map (\<lambda>r. sum_list (slice (r * m) (r * m + m) ?p)) [0..<n])
      = sum_list (concat (map (\<lambda>r. slice (r * m) (Suc r * m) ?p) [0..<n]))"
    by (simp add: sum_list_concat comp_def add.commute)
  also have "\<dots> = sum_list (slice 0 (n * m) ?p)" by (subst concat_slices) (auto intro: monoI)
  finally have "sum_list (map (\<lambda>r. sum_list (slice (r * m) (r * m + m) ?p)) [0..<n]) = sum_list (slice 0 (n * m) ?p)" .
  moreover have "slice 0 (n * m) ?p = ?p" using assms by (simp add: slice_def)
  ultimately show ?thesis unfolding d by (simp only: dot_def)
qed

text \<open>
  The reduced output of row-parallel ranks is the whole product: rank \<open>r\<close> has columns
  \<open>r * m\<close> up to \<open>(r + 1) * m\<close> of every row and the same part of the input.
\<close>

lemma row_parallel_sum:
  assumes "0 < n" and x: "length x = n * m" and D: "\<forall>row \<in> set D. length row = n * m"
  shows "all_reduce (map (\<lambda>r. f_linear (map (slice (r * m) (r * m + m)) D) (slice (r * m) (r * m + m) x)) [0..<n]) = f_linear D x"
proof -
  have hd: "length (hd (map (\<lambda>r. f_linear (map (slice (r * m) (r * m + m)) D) (slice (r * m) (r * m + m) x)) [0..<n])) = length D"
    using assms(1) by (simp add: hd_map f_linear_def)
  show ?thesis
  proof (rule nth_equalityI)
    fix i assume "i < length (all_reduce (map (\<lambda>r. f_linear (map (slice (r * m) (r * m + m)) D) (slice (r * m) (r * m + m) x)) [0..<n]))"
    then have i: "i < length D" unfolding all_reduce_def hd by simp
    have "sum_list (map (\<lambda>r. dot (slice (r * m) (r * m + m) x) (slice (r * m) (r * m + m) (D ! i))) [0..<n]) = dot x (D ! i)"
      using dot_slices [OF x, of "D ! i"] D i by simp
    then show "all_reduce (map (\<lambda>r. f_linear (map (slice (r * m) (r * m + m)) D) (slice (r * m) (r * m + m) x)) [0..<n]) ! i = f_linear D x ! i"
      using i unfolding all_reduce_def hd by (simp add: f_linear_def comp_def)
  qed (simp only: all_reduce_def hd length_map, simp add: f_linear_def)
qed

lemma row_weight_loader_ok:
  assumes "r < n" and param: "tn_rest param = [m]" "length (tn_rows param) = length (tn_rows loaded)" and D: "tn_rest loaded = [n * m]"
  shows "row_weight_loader False (int r) param loaded
    = Inr \<lparr>tn_rest = [m], tn_rows = map (slice (r * m) (r * m + m)) (tn_rows loaded)\<rparr>"
proof -
  have "Suc r * m \<le> n * m" using assms(1) by (intro mult_le_mono1) simp
  then have fits: "int r * int m + int m \<le> int n * int m" by (metis add.commute mult_Suc of_nat_add of_nat_le_iff of_nat_mult)
  have nat: "nat (int r * int m) = r * m" "nat (int r * int m + int m) = r * m + m" by (simp_all add: nat_add_distrib nat_mult_distrib)
  have "\<not> int r * int m < 0" by (simp add: not_less)
  then show ?thesis using fits
    by (simp add: row_weight_loader_def narrow1_def param D copy_checked_def tensor_shape_def nat Let_def)
qed

section \<open>Single layers\<close>

lemma chunk_go_slices:
  "0 < m \<Longrightarrow> length xs = n * m \<Longrightarrow> chunk_go n m xs = map (\<lambda>r. slice (r * m) (r * m + m) xs) [0..<n]"
proof (induction n arbitrary: xs)
  case (Suc n)
  have "map (\<lambda>r. slice (r * m) (r * m + m) (drop m xs)) [0..<n] = map (\<lambda>r. slice (Suc r * m) (Suc r * m + m) xs) [0..<n]"
    by (simp add: slice_def add.commute)
  then show ?case using Suc by (simp add: upt_rec [of 0] map_Suc_upt [symmetric] slice_def del: upt_Suc) auto
qed simp

lemma split_tensor_slices:
  assumes "0 < n" "length xs = n * m"
  shows "split_tensor_along_last_dim xs n = map (\<lambda>r. slice (r * m) (r * m + m) xs) [0..<n]"
proof (cases "m = 0")
  case True
  then show ?thesis using assms by (simp add: split_tensor_along_last_dim_def slice_def map_replicate_const)
next
  case False
  have "(n * m + n - 1) div n = m"
    using assms(1) by (intro div_nat_eqI) (simp_all add: algebra_simps)
  then show ?thesis using False assms chunk_go_slices [of m xs n] by (auto simp: split_tensor_along_last_dim_def)
qed

lemma column_weight_loader_ok:
  assumes "r < n" "length (tn_rows param) = m" "length (tn_rows loaded) = n * m" "tn_rest loaded = tn_rest param"
  shows "column_weight_loader False (int r) param loaded = Inr (param\<lparr>tn_rows := slice (r * m) (r * m + m) (tn_rows loaded)\<rparr>)"
proof -
  have "Suc r * m \<le> n * m" using assms(1) by (intro mult_le_mono1) simp
  then have fits: "r * m + m \<le> length (tn_rows loaded)" using assms(3) by simp
  then have "narrow0 loaded (int r * int m) (int m) = Inr (loaded\<lparr>tn_rows := slice (r * m) (r * m + m) (tn_rows loaded)\<rparr>)"
    using narrow0_ok [of "r * m" m loaded] by simp
  then show ?thesis using fits assms by (simp add: column_weight_loader_def copy_checked_def tensor_shape_def)
qed

lemma concat_rank_slices:
  assumes "length xs = n * m"
  shows "concat (map (\<lambda>r. slice (r * m) (r * m + m) xs) [0..<n]) = xs"
  using concat_slices [of "\<lambda>r. r * m" xs n] assms by (simp add: mono_def add.commute slice_def)

text \<open>A bias that only the first of the reduced parts carries is added once.\<close>

lemma all_reduce_bias:
  assumes n: "0 < n" and len: "\<And>r. r < n \<Longrightarrow> length (p r) = k" and b: "length b = k"
  shows "all_reduce (map (\<lambda>r. add_bias (if r > 0 then None else Some b) (p r)) [0..<n])
    = map2 (+) (all_reduce (map p [0..<n])) (b :: 'a::comm_ring_1 list)"
proof -
  obtain n' where n': "n = Suc n'" using n by (cases n) auto
  let ?parts = "map (\<lambda>r. add_bias (if r > 0 then None else Some b) (p r)) [0..<n]"
  have hd: "length (hd ?parts) = k" "length (hd (map p [0..<n])) = k" using n len [of 0] b by (simp_all add: hd_map add_bias_def)
  have "sum_list (map (\<lambda>q. q ! i) ?parts) = sum_list (map (\<lambda>q. q ! i) (map p [0..<n])) + b ! i" if "i < k" for i
  proof -
    have cons: "[0..<n] = 0 # [Suc 0..<n]" using n by (rule upt_conv_Cons)
    have "map (\<lambda>r. add_bias (if r > 0 then None else Some b) (p r) ! i) [Suc 0..<n] = map (\<lambda>r. p r ! i) [Suc 0..<n]"
      by (simp add: add_bias_def)
    moreover have "add_bias (Some b) (p 0) ! i = p 0 ! i + b ! i" using that len [OF n] b by (simp add: add_bias_def)
    ultimately show ?thesis unfolding cons map_map comp_def list.map sum_list.Cons by (simp add: ac_simps del: map_eq_conv)
  qed
  then show ?thesis using b by (intro nth_equalityI) (simp_all only: all_reduce_def hd length_map length_zip, simp_all add: hd)
qed

text \<open>Building and loading a rank of a column-parallel and of a row-parallel layer with a bias.\<close>

definition load_column_rank ::
  "nat \<Rightarrow> nat \<Rightarrow> 'a::comm_ring_1 list list \<Rightarrow> 'a list \<Rightarrow> nat \<Rightarrow> ('a list list \<times> 'a list) result" where
  "load_column_rank tp_size input_size W b r =
     result_bind (column_init (int (length W)) None False (int r) (int tp_size)) (\<lambda>cl.
     result_bind (column_weight_loader False (int r) (create_weight [input_size] (replicate input_size 0) cl)
         \<lparr>tn_rest = [input_size], tn_rows = W\<rparr>) (\<lambda>w.
     result_bind (column_weight_loader False (int r) (create_weight [] 0 cl) \<lparr>tn_rest = [], tn_rows = b\<rparr>) (\<lambda>bias.
     Inr (tn_rows w, tn_rows bias))))"

definition load_row_rank ::
  "nat \<Rightarrow> nat \<Rightarrow> 'a::comm_ring_1 list list \<Rightarrow> 'a list \<Rightarrow> nat \<Rightarrow> ('a list list \<times> 'a list) result" where
  "load_row_rank tp_size input_size W b r =
     result_bind (divide_tp (int input_size) (int tp_size)) (\<lambda>per.
     result_bind (row_weight_loader False (int r)
         \<lparr>tn_rest = [nat per], tn_rows = replicate (length W) (replicate (nat per) 0)\<rparr>
         \<lparr>tn_rest = [input_size], tn_rows = W\<rparr>) (\<lambda>w.
     result_bind (row_bias_loader \<lparr>tn_rest = [], tn_rows = replicate (length W) 0\<rparr> \<lparr>tn_rest = [], tn_rows = b\<rparr>) (\<lambda>bias.
     Inr (tn_rows w, tn_rows bias))))"

definition row_forward :: "bool \<Rightarrow> bool \<Rightarrow> ('a::comm_ring_1 list list \<times> 'a list) list \<Rightarrow> 'a list \<Rightarrow> 'a list result" where
  "row_forward input_is_parallel skip_bias_add ranks x =
     result_bind (result_map (\<lambda>(r, w, b). row_forward_rank input_is_parallel r (length ranks) skip_bias_add w (Some b) x)
         (enumerate 0 ranks))
       (\<lambda>parts. Inr (if length ranks > 1 then all_reduce parts else hd parts))"

lemma load_column_rank_ok:
  assumes "r < n" "length W = n * m" "length b = n * m"
  shows "load_column_rank n k W b r = Inr (slice (r * m) (r * m + m) W, slice (r * m) (r * m + m) b)"
proof -
  obtain cl where cl: "column_init (int (length W)) None False (int r) (int n) = Inr cl" "cl_partition_sizes cl = [int m]"
    using assms by (simp add: column_init_def)
  have "length (tn_rows (create_weight rest row cl)) = m" "tn_rest (create_weight rest row cl) = rest" for rest and row :: 'b
    using cl(2) by (simp_all add: create_weight_def)
  then show ?thesis
    using column_weight_loader_ok [OF assms(1), of "create_weight [k] (replicate k 0) cl" m "\<lparr>tn_rest = [k], tn_rows = W\<rparr>"]
      column_weight_loader_ok [OF assms(1), of "create_weight [] 0 cl" m "\<lparr>tn_rest = [], tn_rows = b\<rparr>"] assms(2,3)
    unfolding load_column_rank_def cl(1) by (simp add: create_weight_def cl(2))
qed

lemma load_row_rank_ok:
  assumes "r < n" "length b = length W"
  shows "load_row_rank n (n * m) W b r = Inr (map (slice (r * m) (r * m + m)) W, b)"
proof -
  have "divide_tp (int (n * m)) (int n) = Inr (int m)" using assms(1) by simp
  then show ?thesis
    using row_weight_loader_ok [OF assms(1), of "\<lparr>tn_rest = [m], tn_rows = replicate (length W) (replicate m 0)\<rparr>" m "\<lparr>tn_rest = [n * m], tn_rows = W\<rparr>"] assms(2)
    unfolding load_row_rank_def by (simp add: row_bias_loader_def copy_checked_def tensor_shape_def)
qed

lemma column_gathered:
  assumes "length W = n * m" "length b = n * m"
  shows "column_forward_gathered (map (\<lambda>r. (slice (r * m) (r * m + m) W, Some (slice (r * m) (r * m + m) b))) [0..<n]) False x
    = map2 (+) (f_linear W x) b"
proof -
  have "fst (column_forward_rank (slice i j W) (Some (slice i j b)) False x) = slice i j (map2 (+) (f_linear W x) b)" for i j
    by (simp add: column_forward_rank_def add_bias_def f_linear_def map_slice zip_slice)
  then show ?thesis
    using concat_rank_slices [of "map2 (+) (f_linear W x) b" n m] assms
    by (simp add: column_forward_gathered_def all_gather_def comp_def f_linear_def)
qed

lemma row_reduced:
  assumes n: "0 < n" and b: "length b = length W" and x: "length x = n * m" and W: "\<forall>row \<in> set W. length row = n * m"
  shows "row_forward False False (map (\<lambda>r. (map (slice (r * m) (r * m + m)) W, b)) [0..<n]) x = Inr (map2 (+) (f_linear W x) b)"
proof -
  let ?s = "\<lambda>r. slice (r * m) (r * m + m)"
  let ?p = "\<lambda>r. f_linear (map (?s r) W) (?s r x)"
  let ?part = "\<lambda>r. add_bias (if r > 0 then None else Some b) (?p r)"
  have "row_forward_rank False r n False (map (?s r) W) (Some b) x = Inr (?part r)" if "r < n" for r
    using split_tensor_slices [OF n x] that by (simp add: row_forward_rank_def Let_def)
  then have parts: "result_map (\<lambda>(r, w, b). row_forward_rank False r n False w (Some b) x) (enumerate 0 (map (\<lambda>r. (map (?s r) W, b)) [0..<n]))
      = Inr (map ?part [0..<n])"
    by (subst enumerate_map_upt, subst result_map_map) (rule result_map_ok, auto)
  have sum: "all_reduce (map ?part [0..<n]) = map2 (+) (f_linear W x) b"
    using all_reduce_bias [OF n, of ?p "length W" b] b row_parallel_sum [OF n x W] by (simp add: f_linear_def)
  have "hd (map ?part [0..<n]) = all_reduce (map ?part [0..<n])" if "\<not> 1 < n"
  proof -
    have "n = 1" using n that by simp
    then show ?thesis by (simp add: all_reduce_def map_nth)
  qed
  then show ?thesis using parts sum by (simp add: row_forward_def)
qed

text \<open>
  C40: The parallel linear layers are the linear layer: column-parallel ranks load their rows of the
  weight and of the bias and gather the whole affine image; row-parallel ranks load their columns
  and the whole bias, split the input, and reduce to the affine image with the bias added once.
\<close>

theorem linear_layers_exact:
  fixes W :: "'a::comm_ring_1 list list"
  assumes n: "0 < n" and b: "length b = length W"
  shows "(length W = n * m \<longrightarrow>
      (\<exists>ranks. result_map (load_column_rank n input_size W b) [0..<n] = Inr ranks
        \<and> column_forward_gathered (map (\<lambda>(w, b). (w, Some b)) ranks) False x = map2 (+) (f_linear W x) b))
    \<and> (length x = n * m \<and> (\<forall>row \<in> set W. length row = n * m) \<longrightarrow>
      (\<exists>ranks. result_map (load_row_rank n (n * m) W b) [0..<n] = Inr ranks
        \<and> row_forward False False ranks x = Inr (map2 (+) (f_linear W x) b)))"
proof (intro conjI impI; (elim conjE)?)
  assume W: "length W = n * m"
  let ?r = "\<lambda>r. (slice (r * m) (r * m + m) W, slice (r * m) (r * m + m) b)"
  have "result_map (load_column_rank n input_size W b) [0..<n] = Inr (map ?r [0..<n])"
    by (rule result_map_ok) (use load_column_rank_ok W b in simp)
  then show "\<exists>ranks. result_map (load_column_rank n input_size W b) [0..<n] = Inr ranks
      \<and> column_forward_gathered (map (\<lambda>(w, b). (w, Some b)) ranks) False x = map2 (+) (f_linear W x) b"
    using column_gathered [OF W, of b x] W b by (intro exI conjI) (assumption, simp add: comp_def)
next
  assume x: "length x = n * m" "\<forall>row \<in> set W. length row = n * m"
  have "result_map (load_row_rank n (n * m) W b) [0..<n] = Inr (map (\<lambda>r. (map (slice (r * m) (r * m + m)) W, b)) [0..<n])"
    by (rule result_map_ok) (use load_row_rank_ok b in simp)
  then show "\<exists>ranks. result_map (load_row_rank n (n * m) W b) [0..<n] = Inr ranks
      \<and> row_forward False False ranks x = Inr (map2 (+) (f_linear W x) b)"
    using row_reduced [OF n b x] by blast
qed

theorem linear_layers_exact_witness:
  "(\<exists>ranks. result_map (load_column_rank 2 2 [[1, 2], [3, 4 :: int]] [5, 6]) [0..<2] = Inr ranks
      \<and> column_forward_gathered (map (\<lambda>(w, b). (w, Some b)) ranks) False [1, 1] = [8, 13])
   \<and> (\<exists>ranks. result_map (load_row_rank 2 (2 * 1) [[1, 2], [3, 4 :: int]] [5, 6]) [0..<2] = Inr ranks
      \<and> row_forward False False ranks [1, 1] = Inr [8, 13])"
  using linear_layers_exact [of 2 "[5, 6]" "[[1, 2], [3, 4 :: int]]" 1 2 "[1, 1]"] by (simp add: f_linear_def dot_def)

section \<open>The MLP\<close>

text \<open>The activation of a rank is its part of the whole activation.\<close>

lemma silu_and_mul_rank:
  assumes "length G = n * m" "length U = n * m" "r < n"
  shows "silu_and_mul silu (f_linear (slice (r * m) (r * m + m) G @ slice (r * m) (r * m + m) U) x)
    = slice (r * m) (r * m + m) (map2 (\<lambda>g u. silu g * u) (f_linear G x) (f_linear U x))"
proof -
  have "Suc r * m \<le> n * m" using assms(3) by (intro mult_le_mono1) simp
  then have "length (slice (r * m) (r * m + m) G) = m" "length (slice (r * m) (r * m + m) U) = m" using assms by simp_all
  then show ?thesis by (simp add: silu_and_mul_def f_linear_def Let_def map_slice [symmetric] zip_slice [symmetric] zip_map_map)
qed

text \<open>Loading the MLP of a rank: gate and up into the merged weight, down by columns.\<close>

definition load_mlp_rank ::
  "nat \<Rightarrow> nat \<Rightarrow> nat \<Rightarrow> 'a::comm_ring_1 list list \<Rightarrow> 'a list list \<Rightarrow> 'a list list \<Rightarrow> nat \<Rightarrow> ('a list list \<times> 'a list list) result" where
  "load_mlp_rank tp_size hidden intermediate gate up down r =
     result_bind (merged_init [int intermediate, int intermediate] False (int r) (int tp_size)) (\<lambda>cl.
     result_bind (divide_tp (int intermediate) (int tp_size)) (\<lambda>per.
     let w = create_weight [hidden] (replicate hidden 0) cl in
     result_bind (merged_weight_loader cl (replicate hidden 0) (Some 0) \<lparr>tn_rest = [hidden], tn_rows = gate\<rparr> w) (\<lambda>w.
     result_bind (merged_weight_loader cl (replicate hidden 0) (Some 1) \<lparr>tn_rest = [hidden], tn_rows = up\<rparr> w) (\<lambda>w.
     result_bind (row_weight_loader False (int r)
         \<lparr>tn_rest = [nat per], tn_rows = replicate hidden (replicate (nat per) 0)\<rparr>
         \<lparr>tn_rest = [intermediate], tn_rows = down\<rparr>) (\<lambda>d.
     Inr (tn_rows w, tn_rows d))))))"

lemma load_mlp_rank_ok:
  assumes r: "r < n" and len: "length gate = n * m" "length up = n * m" "length down = hidden"
  shows "load_mlp_rank n hidden (n * m) gate up down r
    = Inr (slice (r * m) (r * m + m) gate @ slice (r * m) (r * m + m) up, map (slice (r * m) (r * m + m)) down)"
proof -
  have sizes: "[int (n * m), int (n * m)] = map (\<lambda>m. int (m * n)) [m, m]" by (simp add: mult.commute)
  obtain cl where cl: "merged_init [int (n * m), int (n * m)] False (int r) (int n) = Inr cl" "merged_layer cl [m, m] n r"
    using merged_init_ok [OF r, of "[m, m]"] unfolding sizes by blast
  let ?w = "create_weight [hidden] (replicate hidden 0) cl"
  have w: "tn_rest ?w = [hidden]" "length (tn_rows ?w) = sum_list [m, m]"
    using cl(2) by (simp_all add: create_weight_def merged_layer_def nat_add_distrib)
  have up2: "[0..<length [m, m]] = [0, 1]" by simp
  have "result_fold (\<lambda>i. merged_weight_loader cl (replicate hidden 0) (Some i) \<lparr>tn_rest = [hidden], tn_rows = [gate, up] ! i\<rparr>) [0, 1] ?w
      = Inr (?w\<lparr>tn_rows := concat (rank_blocks [m, m] r [gate, up])\<rparr>)"
    using merged_loads(1) [OF cl(2) _ w(2), of "[gate, up]" "replicate hidden 0", unfolded w(1) up2] len by (simp add: mult.commute)
  then obtain w1 where w1: "merged_weight_loader cl (replicate hidden 0) (Some 0) \<lparr>tn_rest = [hidden], tn_rows = gate\<rparr> ?w = Inr w1"
      "merged_weight_loader cl (replicate hidden 0) (Some 1) \<lparr>tn_rest = [hidden], tn_rows = up\<rparr> w1
        = Inr (?w\<lparr>tn_rows := slice (r * m) (r * m + m) gate @ slice (r * m) (r * m + m) up\<rparr>)"
    by (auto simp: rank_blocks_def split: sum.splits)
  have per: "divide_tp (int (n * m)) (int n) = Inr (int m)" using r by simp
  have d: "row_weight_loader False (int r) \<lparr>tn_rest = [m], tn_rows = replicate hidden (replicate m 0)\<rparr> \<lparr>tn_rest = [n * m], tn_rows = down\<rparr>
      = Inr \<lparr>tn_rest = [m], tn_rows = map (slice (r * m) (r * m + m)) down\<rparr>"
    using row_weight_loader_ok [OF r, of "\<lparr>tn_rest = [m], tn_rows = replicate hidden (replicate m 0)\<rparr>" m "\<lparr>tn_rest = [n * m], tn_rows = down\<rparr>"] len(3)
    by simp
  show ?thesis unfolding load_mlp_rank_def cl(1) per by (simp add: w1 [unfolded One_nat_def] d Let_def)
qed

text \<open>
  C11: The tensor-parallel MLP computes the MLP: for an intermediate size that the number of ranks
  divides, every rank loads its shards of the gate, up and down matrices without an error, and the
  reduced output of all ranks is the product of the down matrix with the activation of the whole
  gate and up products.
\<close>

theorem mlp_tensor_parallel_exact:
  fixes gate up down :: "'a::comm_ring_1 list list"
  assumes n: "0 < n" and len: "length gate = n * m" "length up = n * m" "length down = hidden"
    and rows: "\<forall>row \<in> set down. length row = n * m"
  shows "\<exists>ranks. result_map (load_mlp_rank n hidden (n * m) gate up down) [0..<n] = Inr ranks
    \<and> mlp_forward silu ranks x = Inr (f_linear down (map2 (\<lambda>g u. silu g * u) (f_linear gate x) (f_linear up x)))"
proof -
  let ?s = "\<lambda>r. slice (r * m) (r * m + m)"
  let ?rank = "\<lambda>r. (?s r gate @ ?s r up, map (?s r) down)" and ?act = "map2 (\<lambda>g u. silu g * u) (f_linear gate x) (f_linear up x)"
  let ?part = "\<lambda>r. f_linear (map (?s r) down) (?s r ?act)"
  have load: "result_map (load_mlp_rank n hidden (n * m) gate up down) [0..<n] = Inr (map ?rank [0..<n])"
    by (rule result_map_ok) (use load_mlp_rank_ok [OF _ len] in simp)
  have "mlp_forward_rank silu r n (fst (?rank r)) (snd (?rank r)) x = Inr (?part r)" if "r < n" for r
    using silu_and_mul_rank [OF len(1,2) that, of silu x]
    by (simp add: mlp_forward_rank_def row_forward_rank_def column_forward_rank_def add_bias_def)
  then have "result_map (\<lambda>(r, gate_up, down). mlp_forward_rank silu r n gate_up down x) (enumerate 0 (map ?rank [0..<n]))
      = Inr (map ?part [0..<n])"
    by (subst enumerate_map_upt, subst result_map_map) (rule result_map_ok, auto)
  moreover have act: "length ?act = n * m" using len by (simp add: f_linear_def)
  have "all_reduce (map ?part [0..<n]) = f_linear down ?act" by (rule row_parallel_sum [OF n act rows])
  moreover have "hd (map ?part [0..<n]) = f_linear down ?act" if "\<not> 1 < n"
  proof -
    have "n = 1" using n that by simp
    moreover have "map (slice 0 (length ?act)) down = down" using rows act by (auto intro!: map_idI simp: slice_def)
    ultimately show ?thesis using act by (simp add: slice_def)
  qed
  ultimately show ?thesis using load by (intro exI conjI) (assumption, simp add: mlp_forward_def)
qed

theorem mlp_tensor_parallel_exact_witness:
  "\<exists>ranks. result_map (load_mlp_rank 2 1 (2 * 1) [[1], [2 :: int]] [[3], [4]] [[5, 6]]) [0..<2] = Inr ranks
     \<and> mlp_forward (\<lambda>x. x + 1) ranks [7] = Inr [5 * (8 * 21) + 6 * (15 * 28)]"
  using mlp_tensor_parallel_exact [of 2 "[[1], [2 :: int]]" 1 "[[3], [4]]" "[[5, 6]]" 1 "\<lambda>x. x + 1" "[7]"]
  by (simp add: f_linear_def dot_def)

section \<open>Attention heads\<close>

lemma slice_slice: "slice a b (slice c e xs) = slice (c + a) (min (c + b) e) xs"
  by (simp add: slice_def drop_take min_def add.commute)

lemma slice_append_left: "b \<le> length xs \<Longrightarrow> slice a b (xs @ ys) = slice a b xs"
  by (cases "a \<le> length xs") (auto simp: slice_def)

lemma slice_append_right: "slice (length xs + a) (length xs + b) (xs @ ys) = slice a b ys"
  by (simp add: slice_def)

text \<open>The number of heads of a rank, of its key/value heads and of the replicas of each.\<close>

definition qkv_split :: "nat \<Rightarrow> nat \<Rightarrow> nat \<Rightarrow> nat \<Rightarrow> nat \<Rightarrow> nat \<Rightarrow> bool" where
  "qkv_split n H K h kv rep = (H = h * n
     \<and> (if K \<le> n then kv = 1 \<and> n = rep * K else rep = 1 \<and> K = kv * n))"

definition qkv_rank :: "qkv_layer \<Rightarrow> nat \<Rightarrow> nat \<Rightarrow> nat \<Rightarrow> nat \<Rightarrow> nat \<Rightarrow> nat \<Rightarrow> nat \<Rightarrow> nat \<Rightarrow> bool" where
  "qkv_rank L d n r H K h kv rep =
     (qk_head_size L = int d \<and> qk_total_heads L = int H \<and> qk_total_kv_heads L = int K \<and> qk_heads L = int h
      \<and> qk_kv_heads L = int kv \<and> qk_replicas L = int rep \<and> cl_tp_rank (qk_column L) = int r
      \<and> \<not> cl_presharded (qk_column L) \<and> cl_partition_sizes (qk_column L) = [int (h * d), int (kv * d), int (kv * d)])"

lemma qkv_init_ok:
  assumes "0 < n" "0 < K" and s: "qkv_split n H K h kv rep"
  shows "\<exists>L. qkv_init (int d) (int H) (Some (int K)) False (int r) (int n) = Inr L \<and> qkv_rank L d n r H K h kv rep"
proof -
  have heads: "divide_tp (int H) (int n) = Inr (int h)" using s assms(1) by (simp add: qkv_split_def)
  have kv: "(if int n \<ge> int K then result_bind (divide_tp (int n) (int K)) (\<lambda>rep. Inr (1, rep))
      else result_bind (divide_tp (int K) (int n)) (\<lambda>kv. Inr (kv, 1))) = Inr (int kv, int rep)"
  proof (cases "K \<le> n")
    case True
    then have k: "kv = 1" "n = rep * K" using s by (simp_all add: qkv_split_def)
    then have "divide_tp (int n) (int K) = Inr (int rep)" using assms(2) by simp
    then show ?thesis using True k(1) by simp
  next
    case False
    then have k: "rep = 1" "K = kv * n" using s by (simp_all add: qkv_split_def)
    then have "divide_tp (int K) (int n) = Inr (int kv)" using assms(1) by simp
    then show ?thesis using False k(1) by simp
  qed
  have n: "int n \<noteq> 0" using assms(1) by simp
  have sizes: "divide_tp (x * int n) (int n) = Inr x" "divide_tp (x * int n * y) (int n) = Inr (x * y)" for x y
    using n by (simp, simp add: divide_tp_def mult.commute mult.left_commute)
  show ?thesis unfolding qkv_init_def option.case Let_def heads result_bind_simps kv prod.case column_init_def sizes
    by (simp add: qkv_rank_def sizes)
qed

text \<open>The rows of a matrix that a rank loads for a shard id.\<close>

fun qkv_index :: "qkv_id \<Rightarrow> nat" where
  "qkv_index Q_Id = 0"
| "qkv_index K_Id = 1"
| "qkv_index V_Id = 2"

definition qkv_source :: "nat \<Rightarrow> nat \<Rightarrow> qkv_id \<Rightarrow> nat" where
  "qkv_source r rep sid = (if sid = Q_Id then r else r div rep)"

definition qkv_rows :: "nat \<Rightarrow> nat \<Rightarrow> 'b list \<Rightarrow> 'b list" where
  "qkv_rows s m W = slice (s * m) (s * m + m) W"

lemma qkv_load_shard_ok:
  assumes L: "qkv_rank L d n r H K h kv rep" and rep: "0 < rep"
    and rows: "tn_rows param = concat blocks" "map length blocks = [h * d, kv * d, kv * d]"
    and m: "m = [h * d, kv * d, kv * d] ! qkv_index sid"
    and fits: "qkv_source r rep sid * m + m \<le> length (tn_rows loaded)" and rest: "tn_rest loaded = tn_rest param"
  shows "qkv_load_shard L sid param loaded
    = Inr (param\<lparr>tn_rows := concat (blocks[qkv_index sid := qkv_rows (qkv_source r rep sid) m (tn_rows loaded)])\<rparr>)"
proof -
  obtain q k v where blocks: "blocks = [q, k, v]" "length q = h * d" "length k = kv * d" "length v = kv * d"
    using rows(2) by (auto simp: map_eq_Cons_conv)
  let ?i = "qkv_index sid" and ?s = "qkv_source r rep sid"
  have i: "?i < length blocks" "length (blocks ! ?i) = m" using m blocks by (cases sid; simp)+
  have off: "get_shard_offset_mapping L sid = int (sum_list (map length (take ?i blocks)))"
    and sz: "get_shard_size_mapping L sid = int m"
    using L m blocks by (cases sid; simp add: qkv_rank_def algebra_simps)+
  have src: "(if sid = Q_Id then cl_tp_rank (qk_column L) else cl_tp_rank (qk_column L) div qk_replicas L) = int ?s"
    using L by (simp add: qkv_rank_def qkv_source_def zdiv_int)
  have nar: "narrow0 loaded (int ?s * int m) (int m) = Inr (loaded\<lparr>tn_rows := qkv_rows ?s m (tn_rows loaded)\<rparr>)"
    using narrow0_ok [OF fits] by (simp add: qkv_rows_def)
  have view: "\<exists>t. narrow0 param (int (sum_list (map length (take ?i blocks)))) (int m) = Inr t"
    using narrow0_ok [of "sum_list (map length (take ?i blocks))" m param] take_drop_concat(3) [OF i(1)] i(2) rows(1) by simp
  have wr: "write_rows param (int (sum_list (map length (take ?i blocks)))) (int m) (loaded\<lparr>tn_rows := qkv_rows ?s m (tn_rows loaded)\<rparr>)
      = Inr (param\<lparr>tn_rows := concat (blocks[?i := qkv_rows ?s m (tn_rows loaded)])\<rparr>)"
    using write_rows_block [OF rows(1) i(1) refl, of "int m" "loaded\<lparr>tn_rows := qkv_rows ?s m (tn_rows loaded)\<rparr>"] i(2) fits rest
    by (simp add: qkv_rows_def)
  have "qk_replicas L \<noteq> 0" "\<not> cl_presharded (qk_column L)" using L rep by (simp_all add: qkv_rank_def)
  then show ?thesis using view nar wr unfolding qkv_load_shard_def Let_def off sz src by auto
qed

lemma qkv_source_fits:
  assumes "r < n" "0 < K" and s: "qkv_split n H K h kv rep"
  shows "0 < rep" and "r * (h * d) + h * d \<le> H * d" and "(r div rep) * (kv * d) + kv * d \<le> K * d"
proof -
  show rep: "0 < rep" using assms by (auto simp: qkv_split_def split: if_splits intro: Nat.gr0I)
  have "Suc r * (h * d) \<le> n * (h * d)" using assms(1) by (intro mult_le_mono1) simp
  then show "r * (h * d) + h * d \<le> H * d" using s by (simp add: qkv_split_def algebra_simps)
  have "Suc (r div rep) * kv \<le> K"
  proof (cases "K \<le> n")
    case True
    then have k: "kv = 1" "n = rep * K" using s by (simp_all add: qkv_split_def)
    then have "r div rep < K" using assms(1) rep by (simp add: div_less_iff_less_mult mult.commute)
    then show ?thesis using k by simp
  next
    case False
    then have k: "rep = 1" "K = kv * n" using s by (simp_all add: qkv_split_def)
    have "Suc r * kv \<le> n * kv" using assms(1) by (intro mult_le_mono1) simp
    then show ?thesis using k by (simp add: mult.commute)
  qed
  then have "Suc (r div rep) * kv * d \<le> K * d" by (rule mult_le_mono1)
  then show "(r div rep) * (kv * d) + kv * d \<le> K * d" by (simp add: algebra_simps)
qed

text \<open>The weight of a rank: its query heads and the key and value heads of its group.\<close>

definition qkv_weight_of :: "nat \<Rightarrow> nat \<Rightarrow> nat \<Rightarrow> nat \<Rightarrow> nat \<Rightarrow> 'b list \<Rightarrow> 'b list \<Rightarrow> 'b list \<Rightarrow> 'b list" where
  "qkv_weight_of d r h kv rep Wq Wk Wv =
     qkv_rows r (h * d) Wq @ qkv_rows (r div rep) (kv * d) Wk @ qkv_rows (r div rep) (kv * d) Wv"

lemma qkv_loads:
  assumes L: "qkv_rank L d n r H K h kv rep" and r: "r < n" "0 < K" and s: "qkv_split n H K h kv rep"
    and W: "length Wq = H * d" "length Wk = K * d" "length Wv = K * d"
    and param: "length (tn_rows param) = h * d + (kv * d + kv * d)"
    and t: "\<And>W. t W = \<lparr>tn_rest = tn_rest param, tn_rows = W\<rparr>"
  shows "result_fold (\<lambda>(sid, W). qkv_weight_loader L (Some sid) (t W)) [(Q_Id, Wq), (K_Id, Wk), (V_Id, Wv)] param
      = Inr (param\<lparr>tn_rows := qkv_weight_of d r h kv rep Wq Wk Wv\<rparr>)" (is ?separate)
    and "qkv_weight_loader L None (t (Wq @ Wk @ Wv)) param
      = Inr (param\<lparr>tn_rows := qkv_weight_of d r h kv rep Wq Wk Wv\<rparr>)" (is ?fused)
proof -
  note rep = qkv_source_fits(1) [OF r s] and fit = qkv_source_fits(2,3) [OF r s, where d = d]
  obtain bs where bs: "map length bs = [h * d, kv * d, kv * d]" "concat bs = tn_rows param"
    using blocks_exist [of "tn_rows param" "[h * d, kv * d, kv * d]"] param by (metis add_0_right sum_list.Cons sum_list.Nil)
  then obtain q k v where qkv: "bs = [q, k, v]" "length q = h * d" "length k = kv * d" "length v = kv * d"
    by (auto simp: map_eq_Cons_conv)
  have blocks: "tn_rows param = concat [q, k, v]" "length q = h * d" "length k = kv * d" "length v = kv * d"
    using bs(2) qkv by simp_all
  define q' k' v' where "q' = qkv_rows r (h * d) Wq" and "k' = qkv_rows (r div rep) (kv * d) Wk" and "v' = qkv_rows (r div rep) (kv * d) Wv"
  have len: "length q' = h * d" "length k' = kv * d" using fit W by (simp_all add: q'_def k'_def qkv_rows_def)
  have p: "param = param\<lparr>tn_rows := concat [q, k, v]\<rparr>" unfolding blocks(1) [symmetric] by simp
  have step1: "qkv_load_shard L Q_Id (param\<lparr>tn_rows := concat [q, k, v]\<rparr>) (t Wq) = Inr (param\<lparr>tn_rows := concat [q', k, v]\<rparr>)"
    using qkv_load_shard_ok [OF L rep, of "param\<lparr>tn_rows := concat [q, k, v]\<rparr>" "[q, k, v]" "h * d" Q_Id "t Wq"] fit W blocks
    by (simp add: t qkv_source_def q'_def)
  have step2: "qkv_load_shard L K_Id (param\<lparr>tn_rows := concat [q', k, v]\<rparr>) (t Wk) = Inr (param\<lparr>tn_rows := concat [q', k', v]\<rparr>)"
    using qkv_load_shard_ok [OF L rep, of "param\<lparr>tn_rows := concat [q', k, v]\<rparr>" "[q', k, v]" "kv * d" K_Id "t Wk"] fit W blocks len
    by (simp add: t qkv_source_def k'_def)
  have step3: "qkv_load_shard L V_Id (param\<lparr>tn_rows := concat [q', k', v]\<rparr>) (t Wv) = Inr (param\<lparr>tn_rows := concat [q', k', v']\<rparr>)"
    using qkv_load_shard_ok [OF L rep, of "param\<lparr>tn_rows := concat [q', k', v]\<rparr>" "[q', k', v]" "kv * d" V_Id "t Wv"] fit W blocks len
    by (simp add: t qkv_source_def v'_def numeral_2_eq_2)
  note step = step1 step2 step3
  have res: "qkv_weight_of d r h kv rep Wq Wk Wv = concat [q', k', v']" by (simp add: qkv_weight_of_def q'_def k'_def v'_def)
  show ?separate unfolding res
    by (subst p) (simp add: qkv_weight_loader_def step del: concat.simps)
  have c: "qk_total_heads L = int H" "qk_total_kv_heads L = int K" "qk_head_size L = int d" "\<not> cl_presharded (qk_column L)"
    using L by (simp_all add: qkv_rank_def)
  have shards: "narrow0 (t (Wq @ Wk @ Wv)) 0 (int H * int d) = Inr (t Wq)"
    "narrow0 (t (Wq @ Wk @ Wv)) (int H * int d) (int K * int d) = Inr (t Wk)"
    "narrow0 (t (Wq @ Wk @ Wv)) ((int H + int K) * int d) (int K * int d) = Inr (t Wv)"
    using narrow0_ok [of 0 "H * d" "t (Wq @ Wk @ Wv)"] narrow0_ok [of "H * d" "K * d" "t (Wq @ Wk @ Wv)"]
      narrow0_ok [of "H * d + K * d" "K * d" "t (Wq @ Wk @ Wv)"] W
    by (simp_all add: t slice_def algebra_simps)
  show ?fused unfolding res
    by (subst p) (simp add: qkv_weight_loader_def qkv_fused_offsets_def c shards step del: concat.simps)
qed

text \<open>The rows of a head, and how query heads share key/value heads in grouped-query attention.\<close>

definition head_rows :: "nat \<Rightarrow> nat \<Rightarrow> 'b list \<Rightarrow> 'b list" where
  "head_rows d j W = slice (j * d) (j * d + d) W"

definition kv_group :: "nat \<Rightarrow> nat \<Rightarrow> nat \<Rightarrow> nat" where
  "kv_group heads kv_heads i = i div (heads div kv_heads)"

lemma head_of_rows:
  assumes "j < c"
  shows "head_rows d j (qkv_rows s (c * d) W) = head_rows d (s * c + j) W"
proof -
  have "Suc j * d \<le> c * d" using assms by (intro mult_le_mono1) simp
  then have "min (s * (c * d) + (j * d + d)) (s * (c * d) + c * d) = (s * c + j) * d + d"
    by (simp add: algebra_simps)
  then show ?thesis unfolding head_rows_def qkv_rows_def slice_slice by (simp add: algebra_simps)
qed

lemma group_alignment:
  assumes r: "r < n" "0 < K" "0 < H" and s: "qkv_split n H K h kv rep" and dvd: "K dvd H" and i: "i < h"
  shows "kv_group h kv i < kv" and "(r div rep) * kv + kv_group h kv i = kv_group H K (r * h + i)"
proof -
  have H: "H = h * n" "0 < h" "0 < n" using s r by (auto simp: qkv_split_def)
  have "kv_group h kv i < kv \<and> (r div rep) * kv + kv_group h kv i = kv_group H K (r * h + i)"
  proof (cases "K \<le> n")
    case True
    then have k: "kv = 1" "n = rep * K" using s by (simp_all add: qkv_split_def)
    have "H div K = h * rep" using H(1) k(2) r(2) by simp
    then have "kv_group H K (r * h + i) = (r * h + i) div h div rep" by (simp add: kv_group_def div_mult2_eq)
    also have "(r * h + i) div h = r" using i by simp
    finally show ?thesis using i k(1) by (simp add: kv_group_def)
  next
    case False
    then have k: "rep = 1" "K = kv * n" using s by (simp_all add: qkv_split_def)
    have "kv * n dvd h * n" using dvd H(1) k(2) by simp
    then obtain g where g: "h = kv * g" using H(3) by (auto elim: dvdE)
    have kv0: "0 < kv" "0 < g" using H(2) g by auto
    have "H div K = g" using H(1,3) k(2) g kv0 by simp
    moreover have "h div kv = g" using g kv0 by simp
    moreover have "(r * h + i) div g = r * kv + i div g" using g kv0 by (simp add: div_mult_self3 mult.assoc [symmetric])
    moreover have "i div g < kv" using i g kv0 by (simp add: div_less_iff_less_mult mult.commute)
    ultimately show ?thesis using k(1) by (simp add: kv_group_def)
  qed
  then show "kv_group h kv i < kv" "(r div rep) * kv + kv_group h kv i = kv_group H K (r * h + i)" by blast+
qed

lemma head_of_weight:
  assumes r: "r < n" "0 < K" and s: "qkv_split n H K h kv rep" and W: "length Wq = H * d" "length Wk = K * d"
  shows "i < h \<Longrightarrow> head_rows d i (qkv_weight_of d r h kv rep Wq Wk Wv) = head_rows d (r * h + i) Wq"
    and "j < kv \<Longrightarrow> head_rows d (h + j) (qkv_weight_of d r h kv rep Wq Wk Wv) = head_rows d ((r div rep) * kv + j) Wk"
    and "j < kv \<Longrightarrow> head_rows d (h + kv + j) (qkv_weight_of d r h kv rep Wq Wk Wv) = head_rows d ((r div rep) * kv + j) Wv"
proof -
  note fit = qkv_source_fits(2,3) [OF r s, where d = d]
  let ?q = "qkv_rows r (h * d) Wq" and ?k = "qkv_rows (r div rep) (kv * d) Wk" and ?v = "qkv_rows (r div rep) (kv * d) Wv"
  have len: "length ?q = h * d" "length ?k = kv * d" using fit W by (simp_all add: qkv_rows_def)
  have inside: "head_rows d i (A @ B) = head_rows d i A" if "i < c" "length A = c * d" for i c and A B :: "'a list"
  proof -
    have "Suc i * d \<le> c * d" using that(1) by (intro mult_le_mono1) simp
    then show ?thesis using that(2) by (simp add: head_rows_def slice_append_left)
  qed
  have behind: "head_rows d (c + j) (A @ B) = head_rows d j B" if "length A = c * d" for c j and A B :: "'a list"
    using slice_append_right [of A "j * d" "j * d + d" B] that by (simp add: head_rows_def algebra_simps)
  show "head_rows d i (qkv_weight_of d r h kv rep Wq Wk Wv) = head_rows d (r * h + i) Wq" if "i < h"
    unfolding qkv_weight_of_def inside [OF that len(1)] by (rule head_of_rows [OF that])
  show "head_rows d (h + j) (qkv_weight_of d r h kv rep Wq Wk Wv) = head_rows d ((r div rep) * kv + j) Wk" if "j < kv"
    unfolding qkv_weight_of_def behind [OF len(1)] inside [OF that len(2)] by (rule head_of_rows [OF that])
  show "head_rows d (h + kv + j) (qkv_weight_of d r h kv rep Wq Wk Wv) = head_rows d ((r div rep) * kv + j) Wv" if "j < kv"
    unfolding qkv_weight_of_def add.assoc behind [OF len(1)] behind [OF len(2)] by (rule head_of_rows [OF that])
qed

text \<open>
  C17: Sharding keeps grouped-query attention intact: when the ranks divide the query heads, and
  the key/value heads or conversely, the layer of every rank is built, the query, key and value
  matrices load into its weight without an error, one by one or fused with the same result, and each
  local query head lies beside exactly the key and value head that it attends to in the whole
  model.
\<close>

theorem qkv_heads_aligned:
  fixes Wq Wk Wv :: "'b list"
  assumes r: "r < n" "0 < K" "0 < H" and s: "qkv_split n H K h kv rep" and dvd: "K dvd H"
    and W: "length Wq = H * d" "length Wk = K * d" "length Wv = K * d"
  shows "\<exists>L w. qkv_init (int d) (int H) (Some (int K)) False (int r) (int n) = Inr L
    \<and> result_fold (\<lambda>(sid, W). qkv_weight_loader L (Some sid) \<lparr>tn_rest = rest, tn_rows = W\<rparr>)
        [(Q_Id, Wq), (K_Id, Wk), (V_Id, Wv)] (create_weight rest row (qk_column L)) = Inr w
    \<and> qkv_weight_loader L None \<lparr>tn_rest = rest, tn_rows = Wq @ Wk @ Wv\<rparr> (create_weight rest row (qk_column L)) = Inr w
    \<and> qk_heads L = int h \<and> qk_kv_heads L = int kv
    \<and> (\<forall>i < h. head_rows d i (tn_rows w) = head_rows d (r * h + i) Wq
         \<and> head_rows d (h + kv_group h kv i) (tn_rows w) = head_rows d (kv_group H K (r * h + i)) Wk
         \<and> head_rows d (h + kv + kv_group h kv i) (tn_rows w) = head_rows d (kv_group H K (r * h + i)) Wv)"
proof -
  have n: "0 < n" using r(1) by simp
  obtain L where L: "qkv_init (int d) (int H) (Some (int K)) False (int r) (int n) = Inr L" "qkv_rank L d n r H K h kv rep"
    using qkv_init_ok [OF n r(2) s] by blast
  let ?p = "create_weight rest row (qk_column L)"
  have "sum_list [int (h * d), int (kv * d), int (kv * d)] = int (h * d + (kv * d + kv * d))" by simp
  then have "nat (sum_list [int (h * d), int (kv * d), int (kv * d)]) = h * d + (kv * d + kv * d)" by (simp only: nat_int)
  then have p: "length (tn_rows ?p) = h * d + (kv * d + kv * d)" "tn_rest ?p = rest"
    using L(2) by (simp_all add: create_weight_def qkv_rank_def)
  note loads = qkv_loads [OF L(2) r(1,2) s W p(1) refl, unfolded p(2)]
  note heads = head_of_weight [OF r(1,2) s W(1,2), of _ Wv]
  have "kv_group h kv i < kv" "(r div rep) * kv + kv_group h kv i = kv_group H K (r * h + i)" if "i < h" for i
    using group_alignment [OF r s dvd that] by blast+
  then have "\<forall>i < h. head_rows d i (qkv_weight_of d r h kv rep Wq Wk Wv) = head_rows d (r * h + i) Wq
      \<and> head_rows d (h + kv_group h kv i) (qkv_weight_of d r h kv rep Wq Wk Wv) = head_rows d (kv_group H K (r * h + i)) Wk
      \<and> head_rows d (h + kv + kv_group h kv i) (qkv_weight_of d r h kv rep Wq Wk Wv) = head_rows d (kv_group H K (r * h + i)) Wv"
    using head_of_weight [OF r(1,2) s W(1,2)] by metis
  moreover have "qk_heads L = int h" "qk_kv_heads L = int kv" using L(2) by (simp_all add: qkv_rank_def)
  ultimately show ?thesis using L(1) loads
    by (intro exI [of _ L] exI [of _ "?p\<lparr>tn_rows := qkv_weight_of d r h kv rep Wq Wk Wv\<rparr>"] conjI) simp_all
qed

theorem qkv_heads_aligned_witness:
  "\<exists>L w. qkv_init 1 4 (Some 2) False 3 4 = Inr L
     \<and> qkv_weight_loader L None \<lparr>tn_rest = [], tn_rows = [0, 1, 2, 3] @ [4, 5] @ [6, 7 :: nat]\<rparr> (create_weight [] 9 (qk_column L)) = Inr w
     \<and> head_rows 1 0 (tn_rows w) = [3] \<and> head_rows 1 1 (tn_rows w) = [5] \<and> head_rows 1 2 (tn_rows w) = [7]"
proof -
  have s: "qkv_split 4 4 2 1 1 2" by (simp add: qkv_split_def)
  have h: "(3 :: nat) < 4" "(0 :: nat) < 2" "(0 :: nat) < 4" "(2 :: nat) dvd 4" by simp_all
  have len: "length [0, 1, 2, 3 :: nat] = 4 * 1" "length [4, 5 :: nat] = 2 * 1" "length [6, 7 :: nat] = 2 * 1" by simp_all
  obtain L w where L: "qkv_init (int 1) (int 4) (Some (int 2)) False (int 3) (int 4) = Inr L"
    and w: "qkv_weight_loader L None \<lparr>tn_rest = [], tn_rows = [0, 1, 2, 3] @ [4, 5] @ [6, 7 :: nat]\<rparr> (create_weight [] 9 (qk_column L)) = Inr w"
    and heads: "\<forall>i < 1. head_rows 1 i (tn_rows w) = head_rows 1 (3 * 1 + i) [0, 1, 2, 3]
      \<and> head_rows 1 (1 + kv_group 1 1 i) (tn_rows w) = head_rows 1 (kv_group 4 2 (3 * 1 + i)) [4, 5]
      \<and> head_rows 1 (1 + 1 + kv_group 1 1 i) (tn_rows w) = head_rows 1 (kv_group 4 2 (3 * 1 + i)) [6, 7]"
    using qkv_heads_aligned [OF h(1-3) s h(4) len, of "[]" 9] by blast
  have kg: "kv_group 4 2 (3 * 1 + 0) = 1" "kv_group 1 1 0 = 0" by (simp_all add: kv_group_def)
  have "head_rows 1 0 (tn_rows w) = [3]" "head_rows 1 1 (tn_rows w) = [5]" "head_rows 1 2 (tn_rows w) = [7]"
    using heads [rule_format, of 0] unfolding kg by (simp_all add: head_rows_def slice_def numeral_2_eq_2)
  then show ?thesis using L w by auto
qed

end
