(* ===== verification/Moe.thy ===== *)
theory Moe
  imports Parallel_Linear Tensor "HOL-Library.Multiset"
begin

text \<open>
  The mixture-of-experts layer with expert and tensor parallelism: the groups of
  distributed/__init__.py, \<open>FusedMoE\<close> (layers/moe/fused_moe_triton/layer.py) with its expert map, its
  loaders for unquantized weights and its forward, the native execution of the experts
  (layers/moe/fused_moe_native.py, reached through layers/quantization/unquant.py off CUDA), and the
  LLaDA block that adds the shared experts and reduces (models/llada2.py).  Entries are elements of a
  commutative ring; \<open>silu\<close> and the order \<open>sorter\<close> that \<open>argsort\<close> returns are arguments.
\<close>

section \<open>Parallel groups\<close>

definition moe_tensor_parallel_world_size :: "nat \<Rightarrow> nat \<Rightarrow> nat" where
  "moe_tensor_parallel_world_size tp_size ep_size = (if ep_size \<le> 1 then tp_size else max 1 (tp_size div ep_size))"

definition moe_tensor_parallel_rank :: "nat \<Rightarrow> nat \<Rightarrow> nat \<Rightarrow> nat" where
  "moe_tensor_parallel_rank tp_size ep_size tp_rank =
     (if moe_tensor_parallel_world_size tp_size ep_size \<le> 1 then 0 else tp_rank div max 1 ep_size)"

text \<open>The ranks that \<open>initialize_model_parallel\<close> gives to a process.\<close>

definition tp_rank_of :: "nat \<Rightarrow> nat \<Rightarrow> nat" where
  "tp_rank_of tp_size rank = rank mod max 1 tp_size"

definition ep_rank_of :: "nat \<Rightarrow> nat \<Rightarrow> nat" where
  "ep_rank_of ep_size rank = rank mod max 1 ep_size"

section \<open>FusedMoE\<close>

record 'a fused_moe =
  fm_num_experts :: nat
  fm_ep_size :: nat
  fm_tp_rank :: nat
  fm_num_local :: nat
  fm_intermediate :: nat
  fm_expert_map :: "int list option"
  fm_w13 :: "'a list list list"
  fm_w2 :: "'a list list list"

text \<open>The position an integer index selects in a tensor of length \<open>n\<close>.\<close>

definition tensor_pos :: "nat \<Rightarrow> int \<Rightarrow> nat result" where
  "tensor_pos n i =
     (if 0 \<le> i \<and> i < int n then Inr (nat i)
      else if - int n \<le> i \<and> i < 0 then Inr (nat (i + int n)) else Inl IndexError)"

definition tensor_get :: "'b list \<Rightarrow> int \<Rightarrow> 'b result" where
  "tensor_get xs i = result_bind (tensor_pos (length xs) i) (\<lambda>p. Inr (xs ! p))"

text \<open>The contents \<open>torch.empty\<close> leaves are the argument \<open>junk\<close>.\<close>

definition fused_moe_init :: "'a \<Rightarrow> nat \<Rightarrow> nat \<Rightarrow> nat \<Rightarrow> nat \<Rightarrow> nat \<Rightarrow> nat \<Rightarrow> nat \<Rightarrow> 'a fused_moe result" where
  "fused_moe_init junk num_experts hidden intermediate ep_size ep_rank tp_size tp_rank =
     (if num_experts mod ep_size \<noteq> 0 then Inl AssertionError
      else let num_local = num_experts div ep_size; no_map = replicate num_experts (- 1);
               expert_map = take (ep_rank * num_local) no_map @ map int [0..<num_local] @ drop ((ep_rank + 1) * num_local) no_map
           in if intermediate mod tp_size \<noteq> 0 then Inl AssertionError
              else let per = intermediate div tp_size
                   in Inr \<lparr> fm_num_experts = num_experts, fm_ep_size = ep_size, fm_tp_rank = tp_rank, fm_num_local = num_local,
                           fm_intermediate = per, fm_expert_map = (if ep_size > 1 then Some expert_map else None),
                           fm_w13 = replicate num_local (replicate (2 * per) (replicate hidden junk)),
                           fm_w2 = replicate num_local (replicate hidden (replicate per junk)) \<rparr>)"

text \<open>\<open>copy_\<close> between tensors of equal shape; shapes that it would broadcast do not arise from a checkpoint.\<close>

definition copy_rows :: "'a list list \<Rightarrow> 'a list list \<Rightarrow> 'a list list result" where
  "copy_rows dst src =
     (if map length dst = map length src then Inr src
      else Inl (RuntimeError ''The size of tensor a must match the size of tensor b''))"

definition load_w13 :: "nat \<Rightarrow> string \<Rightarrow> 'a list list \<Rightarrow> 'a list list \<Rightarrow> 'a list list result" where
  "load_w13 tp_rank shard_id expert_data loaded_weight =
     (let shard_size = length expert_data div 2; start = (if shard_id = ''w3'' then shard_size else 0)
      in result_bind (narrow loaded_weight (int (shard_size * tp_rank)) (int shard_size)) (\<lambda>loaded.
         result_bind (copy_rows (slice start (start + shard_size) expert_data) loaded) (\<lambda>rows.
         Inr (take start expert_data @ rows @ drop (start + shard_size) expert_data))))"

definition load_w2 :: "nat \<Rightarrow> nat \<Rightarrow> 'a list list \<Rightarrow> 'a list list \<Rightarrow> 'a list list result" where
  "load_w2 tp_rank shard_size expert_data loaded_weight =
     result_bind (result_map (\<lambda>row. narrow row (int (shard_size * tp_rank)) (int shard_size)) loaded_weight) (copy_rows expert_data)"

definition map_global_expert_id :: "'a fused_moe \<Rightarrow> int \<Rightarrow> int result" where
  "map_global_expert_id fm expert_id = (case fm_expert_map fm of None \<Rightarrow> Inr expert_id | Some m \<Rightarrow> tensor_get m expert_id)"

definition moe_weight_loader_impl :: "'a fused_moe \<Rightarrow> string \<Rightarrow> int \<Rightarrow> 'a list list \<Rightarrow> 'a fused_moe result" where
  "moe_weight_loader_impl fm shard_id expert_id loaded_weight =
     (if shard_id \<notin> {''w1'', ''w2'', ''w3''} then Inl (ValueError ''shard_id must be one of w1, w2, w3'')
      else if shard_id = ''w2''
      then result_bind (tensor_pos (length (fm_w2 fm)) expert_id) (\<lambda>p.
           result_bind (load_w2 (fm_tp_rank fm) (fm_intermediate fm) (fm_w2 fm ! p) loaded_weight) (\<lambda>d.
           Inr (fm\<lparr>fm_w2 := (fm_w2 fm)[p := d]\<rparr>)))
      else result_bind (tensor_pos (length (fm_w13 fm)) expert_id) (\<lambda>p.
           result_bind (load_w13 (fm_tp_rank fm) shard_id (fm_w13 fm ! p) loaded_weight) (\<lambda>d.
           Inr (fm\<lparr>fm_w13 := (fm_w13 fm)[p := d]\<rparr>))))"

definition moe_weight_loader :: "string \<Rightarrow> int \<Rightarrow> 'a list list \<Rightarrow> 'a fused_moe \<Rightarrow> 'a fused_moe result" where
  "moe_weight_loader shard_id expert_id loaded_weight fm =
     result_bind (map_global_expert_id fm expert_id) (\<lambda>e.
       if e = - 1 then Inr fm else moe_weight_loader_impl fm shard_id e loaded_weight)"

section \<open>Native execution\<close>

text \<open>One expert on one token: \<open>F.linear\<close>, \<open>SiluAndMul\<close>, \<open>F.linear\<close>.\<close>

definition expert_forward :: "('a::comm_ring_1 \<Rightarrow> 'a) \<Rightarrow> 'a list list \<Rightarrow> 'a list list \<Rightarrow> 'a list \<Rightarrow> 'a list" where
  "expert_forward silu w13 w2 x = f_linear w2 (silu_and_mul silu (f_linear w13 x))"

text \<open>The loop over the experts, with the tokens sorted by expert.\<close>

fun expert_loop :: "(nat \<Rightarrow> 'a list \<Rightarrow> 'a list) \<Rightarrow> 'a list list \<Rightarrow> nat \<Rightarrow> nat \<Rightarrow> nat list \<Rightarrow> 'a list list list" where
  "expert_loop f tokens i start_idx [] = []"
| "expert_loop f tokens i start_idx (num_tokens # counts) =
     (if num_tokens = 0 then expert_loop f tokens (Suc i) start_idx counts
      else map (f i) (slice start_idx (start_idx + num_tokens) tokens)
           # expert_loop f tokens (Suc i) (start_idx + num_tokens) counts)"

text \<open>The weighted sum over the \<open>top_k\<close> slots of each token.\<close>

definition combine_slots :: "nat \<Rightarrow> nat \<Rightarrow> 'a::comm_ring_1 list list \<Rightarrow> (nat \<Rightarrow> nat \<Rightarrow> 'a list) \<Rightarrow> 'a list list" where
  "combine_slots hidden top_k weights slot =
     map (\<lambda>t. map (\<lambda>h. sum_list (map (\<lambda>a. slot t a ! h * weights ! t ! a) [0..<top_k])) [0..<hidden]) [0..<length weights]"

definition moe_forward_native ::
    "('a::comm_ring_1 \<Rightarrow> 'a) \<Rightarrow> (nat list \<Rightarrow> nat list) \<Rightarrow> nat \<Rightarrow> nat \<Rightarrow> 'a fused_moe \<Rightarrow> 'a list list \<Rightarrow> 'a list list \<Rightarrow> int list list \<Rightarrow> 'a list list" where
  "moe_forward_native silu sorter hidden top_k fm x topk_weights topk_ids =
     (let len_experts = length (fm_w13 fm);
          flat_ids = concat topk_ids;
          valid = map (\<lambda>e. 0 \<le> e \<and> e < int len_experts) flat_ids;
          safe = map (\<lambda>e. if 0 \<le> e \<and> e < int len_experts then nat e else 0) flat_ids;
          tokens_per_expert = map (\<lambda>e. length (filter (\<lambda>j. valid ! j \<and> safe ! j = e) [0..<length flat_ids])) [0..<len_experts]
      in if True \<notin> set valid then map (\<lambda>row. replicate hidden 0) x
         else let valid_flat_indices = filter (\<lambda>j. valid ! j) [0..<length flat_ids];
                  idxs = map ((!) valid_flat_indices) (sorter (map ((!) safe) valid_flat_indices));
                  sorted_tokens = map (\<lambda>j. x ! (j div top_k)) idxs;
                  outs = concat (expert_loop (\<lambda>e. expert_forward silu (fm_w13 fm ! e) (fm_w2 fm ! e)) sorted_tokens 0 0 tokens_per_expert);
                  new_x = scatter (replicate (length flat_ids) (replicate hidden 0)) idxs outs
              in combine_slots hidden top_k topk_weights (\<lambda>t a. new_x ! (t * top_k + a)))"

text \<open>The einsum formulation, which gathers the weights of every slot; an id that is out of range raises.\<close>

definition fused_moe_forward_native ::
    "('a::comm_ring_1 \<Rightarrow> 'a) \<Rightarrow> nat \<Rightarrow> nat \<Rightarrow> 'a fused_moe \<Rightarrow> 'a list list \<Rightarrow> 'a list list \<Rightarrow> int list list \<Rightarrow> 'a list list result" where
  "fused_moe_forward_native silu hidden top_k fm x topk_weights topk_ids =
     result_bind (result_map (result_map (tensor_get (fm_w13 fm))) topk_ids) (\<lambda>w13.
     result_bind (result_map (result_map (tensor_get (fm_w2 fm))) topk_ids) (\<lambda>w2.
     Inr (combine_slots hidden top_k topk_weights (\<lambda>t a.
       let w = w13 ! t ! a; d = length w div 2;
           x1 = map silu (f_linear (take d w) (x ! t)); x3 = f_linear (drop d w) (x ! t)
       in f_linear (w2 ! t ! a) (map2 (*) x1 x3)))))"

text \<open>The forward pass uses the expert map only with more than one expert rank.\<close>

definition forward_map :: "'a fused_moe \<Rightarrow> int list option" where
  "forward_map fm = (if fm_ep_size fm > 1 then fm_expert_map fm else None)"

definition fused_moe_forward ::
    "('a::comm_ring_1 \<Rightarrow> 'a) \<Rightarrow> (nat list \<Rightarrow> nat list) \<Rightarrow> nat \<Rightarrow> nat \<Rightarrow> 'a fused_moe \<Rightarrow> 'a list list \<Rightarrow> 'a list list \<Rightarrow> int list list \<Rightarrow> 'a list list result" where
  "fused_moe_forward silu sorter hidden top_k fm x topk_weights topk_ids =
     result_bind (case forward_map fm of None \<Rightarrow> Inr topk_ids | Some m \<Rightarrow> result_map (result_map (tensor_get m)) topk_ids) (\<lambda>ids.
     Inr (moe_forward_native silu sorter hidden top_k fm x topk_weights ids))"

section \<open>The LLaDA block\<close>

definition add_rows :: "'a::comm_ring_1 list list \<Rightarrow> 'a list list \<Rightarrow> 'a list list" where
  "add_rows xs ys = map2 (map2 (+)) xs ys"

text \<open>
  \<open>forward_normal\<close> on all ranks of a tensor-parallel group: each rank has its experts and the weights of
  its shared experts, which every rank has whole when the experts are parallel.
\<close>

definition moe_block_forward ::
    "('a::comm_ring_1 \<Rightarrow> 'a) \<Rightarrow> (nat list \<Rightarrow> nat list) \<Rightarrow> nat \<Rightarrow> nat \<Rightarrow> nat \<Rightarrow> nat
     \<Rightarrow> ('a fused_moe \<times> 'a list list \<times> 'a list list) list \<Rightarrow> 'a list list \<Rightarrow> 'a list list \<Rightarrow> int list list \<Rightarrow> 'a list list list result" where
  "moe_block_forward silu sorter hidden top_k ep_size num_shared ranks x topk_weights topk_ids =
     (let tp_size = length ranks in
      result_bind (result_map (\<lambda>(fm, gate_up, down). fused_moe_forward silu sorter hidden top_k fm x topk_weights topk_ids) ranks) (\<lambda>router.
      result_bind (result_map (\<lambda>(r, fm, gate_up, down).
          result_map (mlp_forward_rank silu (if ep_size > 1 then 0 else r) (if ep_size > 1 then 1 else tp_size) gate_up down) x)
          (enumerate 0 ranks)) (\<lambda>shared.
      Inr (if ep_size > 1
           then let final = (if tp_size > 1 then replicate tp_size (all_reduce_rows router) else router)
                in if num_shared > 0 then map2 add_rows final shared else final
           else let final = (if num_shared > 0 then map2 add_rows router shared else router)
                in if tp_size > 1 then replicate tp_size (all_reduce_rows final) else final))))"

section \<open>The native execution, slot by slot\<close>

definition sorter_ok :: "(nat list \<Rightarrow> nat list) \<Rightarrow> bool" where
  "sorter_ok sorter = (\<forall>ks. distinct (sorter ks) \<and> set (sorter ks) = {..<length ks} \<and> sorted (map ((!) ks) (sorter ks)))"

lemma sorter_length: "sorter_ok sorter \<Longrightarrow> length (sorter ks) = length ks"
  by (metis sorter_ok_def card_lessThan distinct_card)

text \<open>On tokens sorted by expert the loop applies to each token its own expert.\<close>

lemma expert_loop_sorted:
  assumes "sorted ks" "\<forall>k \<in> set ks. i \<le> k \<and> k < i + n" "length ks = length (drop s tokens)"
  shows "concat (expert_loop f tokens i s (map (count_list ks) [i..<i + n])) = map2 f ks (drop s tokens)"
  using assms
proof (induction n arbitrary: i s ks)
  case 0
  then have "ks = []" by (cases ks) auto
  then show ?case by simp
next
  case (Suc n)
  define c where "c = count_list ks i"
  have split: "ks = replicate c i @ filter (\<lambda>k. k \<noteq> i) ks"
    using Suc.prems(1,2) unfolding c_def
  proof (induction ks)
    case (Cons k ks)
    show ?case
    proof (cases "k = i")
      case True
      then show ?thesis using Cons by simp
    next
      case False
      then have "\<forall>k' \<in> set (k # ks). k' \<noteq> i" using Cons.prems by force
      then show ?thesis by (auto simp: count_list_0_iff filter_id_conv)
    qed
  qed simp
  let ?ks = "filter (\<lambda>k. k \<noteq> i) ks"
  have up: "[i..<i + Suc n] = i # [Suc i..<Suc i + n]" by (simp add: upt_conv_Cons del: upt_Suc)
  have counts: "map (count_list ks) [Suc i..<Suc i + n] = map (count_list ?ks) [Suc i..<Suc i + n]"
    by (rule map_cong [OF refl]) (auto simp: count_list_eq_length_filter filter_filter intro!: arg_cong [where f = length] filter_cong)
  have len: "length ?ks = length (drop (s + c) tokens)" "c \<le> length (drop s tokens)"
    using Suc.prems(3) arg_cong [OF split, of length] by auto
  have IH: "concat (expert_loop f tokens (Suc i) (s + c) (map (count_list ?ks) [Suc i..<Suc i + n])) = map2 f ?ks (drop (s + c) tokens)"
  proof (rule Suc.IH)
    show "sorted ?ks" using Suc.prems(1) by (simp add: sorted_wrt_filter)
    show "\<forall>k \<in> set ?ks. Suc i \<le> k \<and> k < Suc i + n" using Suc.prems(2) by fastforce
  qed (rule len(1))
  have "map2 f ks (drop s tokens) = map2 f (replicate c i) (take c (drop s tokens)) @ map2 f ?ks (drop c (drop s tokens))"
    by (subst split, subst append_take_drop_id [of c "drop s tokens", symmetric], subst zip_append) (use len in simp_all)
  moreover have "map2 f (replicate c i) (take c (drop s tokens)) = map (f i) (slice s (s + c) tokens)"
    using len by (simp add: slice_def zip_replicate1 min_def)
  moreover have "concat (expert_loop f tokens i s (c # cs))
      = map (f i) (slice s (s + c) tokens) @ concat (expert_loop f tokens (Suc i) (s + c) cs)" for cs
    by (simp add: slice_def)
  moreover have "map (count_list ks) [i..<i + Suc n] = c # map (count_list ?ks) [Suc i..<Suc i + n]"
    unfolding up list.map c_def [symmetric] counts ..
  ultimately show ?case using IH by (simp only: drop_drop add.commute)
qed

lemma mset_map_perm: "distinct p \<Longrightarrow> set p = {..<length xs} \<Longrightarrow> mset (map ((!) xs) p) = mset xs"
proof -
  assume "distinct p" "set p = {..<length xs}"
  then have "mset p = mset [0..<length xs]" using set_eq_iff_mset_eq_distinct [of p "[0..<length xs]"] by (simp add: lessThan_atLeast0)
  then have "mset (map ((!) xs) p) = mset (map ((!) xs) [0..<length xs])" by (simp only: mset_map)
  then show ?thesis by (simp only: map_nth)
qed

lemma count_list_mset: "mset xs = mset ys \<Longrightarrow> count_list xs = count_list ys"
  by (rule ext) (simp add: count_mset [symmetric])

lemma nth_concat_rows:
  assumes "\<forall>row \<in> set rows. length row = k" "t < length rows" "a < k"
  shows "concat rows ! (t * k + a) = rows ! t ! a" "t * k + a < length (concat rows)" "length (concat rows) = length rows * k"
proof -
  have len: "length (concat rows) = length rows * k" if "\<forall>row \<in> set rows. length row = k" for rows :: "'b list list"
    using that by (induction rows) simp_all
  show "length (concat rows) = length rows * k" using len assms(1) .
  have "Suc t * k \<le> length rows * k" using assms(2) by (intro mult_le_mono1) simp
  then show "t * k + a < length (concat rows)" using len [OF assms(1)] assms(3) by simp
  show "concat rows ! (t * k + a) = rows ! t ! a"
    using assms
  proof (induction rows arbitrary: t)
    case (Cons row rows)
    then show ?case by (cases t) (simp_all add: nth_append)
  qed simp
qed

lemma combine_slots_cong:
  "(\<And>t a. t < length w \<Longrightarrow> a < k \<Longrightarrow> slot t a = slot' t a) \<Longrightarrow> combine_slots h k w slot = combine_slots h k w slot'"
  unfolding combine_slots_def by (intro map_cong refl arg_cong [where f = sum_list]) simp

lemma combine_slots_zero: "combine_slots h k w (\<lambda>t a. replicate h 0) = map (\<lambda>row. replicate h 0) w"
  by (auto simp: combine_slots_def intro!: nth_equalityI)

text \<open>Sorting the valid slots by expert, running the experts and scattering back computes every slot.\<close>

lemma sorted_slots:
  assumes srt: "sorter_ok sorter" and V: "V = filter (\<lambda>j. valid ! j) [0..<n]"
    and idxs: "idxs = map ((!) V) (sorter (map ((!) safe) V))"
  shows "distinct idxs" "set idxs = {j. j < n \<and> valid ! j}" "sorted (map ((!) safe) idxs)"
    "length (filter (\<lambda>j. valid ! j \<and> safe ! j = e) [0..<n]) = count_list (map ((!) safe) idxs) e"
proof -
  have "distinct (sorter ks) \<and> set (sorter ks) = {..<length ks} \<and> sorted (map ((!) ks) (sorter ks))" for ks
    using srt by (simp add: sorter_ok_def)
  from this [of "map ((!) safe) V"] have perm: "distinct (sorter (map ((!) safe) V))" "set (sorter (map ((!) safe) V)) = {..<length V}"
      "sorted (map ((!) (map ((!) safe) V)) (sorter (map ((!) safe) V)))" by simp_all
  have mset: "mset idxs = mset V" unfolding idxs by (rule mset_map_perm [OF perm(1,2)])
  have dV: "distinct V" "set V = {j. j < n \<and> valid ! j}" by (auto simp: V)
  show "distinct idxs" using mset dV(1) by (metis mset_eq_imp_distinct_iff)
  show "set idxs = {j. j < n \<and> valid ! j}" using mset_eq_setD [OF mset] dV(2) by simp
  have "map ((!) safe) idxs = map ((!) (map ((!) safe) V)) (sorter (map ((!) safe) V))"
    using perm(2) by (simp add: idxs)
  with perm(3) show "sorted (map ((!) safe) idxs)" by simp
  have "count_list (map ((!) safe) idxs) e = count_list (map ((!) safe) V) e"
    by (rule fun_cong [OF count_list_mset]) (simp add: mset)
  also have "\<dots> = length (filter (\<lambda>j. safe ! j = e) V)"
    by (simp add: count_list_eq_length_filter filter_map comp_def eq_commute [of e])
  finally show "length (filter (\<lambda>j. valid ! j \<and> safe ! j = e) [0..<n]) = count_list (map ((!) safe) idxs) e"
    by (simp add: V conj_commute)
qed

lemma grouped_experts:
  assumes srt: "sorter_ok sorter" and V: "V = filter (\<lambda>j. valid ! j) [0..<n]"
    and idxs: "idxs = map ((!) V) (sorter (map ((!) safe) V))"
    and safe: "\<And>j. j < n \<Longrightarrow> valid ! j \<Longrightarrow> safe ! j < E" and j: "j < n"
  shows "scatter (replicate n z) idxs (concat (expert_loop f (map tok idxs) 0 0
            (map (\<lambda>e. length (filter (\<lambda>j. valid ! j \<and> safe ! j = e) [0..<n])) [0..<E]))) ! j
       = (if valid ! j then f (safe ! j) (tok j) else z)"
proof -
  note s = sorted_slots [OF srt V idxs]
  have "\<forall>k \<in> set (map ((!) safe) idxs). 0 \<le> k \<and> k < 0 + E" using s(2) safe by auto
  then have outs: "concat (expert_loop f (map tok idxs) 0 0 (map (count_list (map ((!) safe) idxs)) [0..<E])) = map (\<lambda>j. f (safe ! j) (tok j)) idxs"
    using expert_loop_sorted [OF s(3), of 0 E 0 "map tok idxs" f] by (simp add: zip_map_map zip_same_conv_map)
  show ?thesis
  proof (cases "valid ! j")
    case True
    then have "j \<in> set idxs" using s(2) j by simp
    then obtain p where p: "p < length idxs" "idxs ! p = j" by (auto simp: in_set_conv_nth)
    have "scatter (replicate n z) idxs (map (\<lambda>j. f (safe ! j) (tok j)) idxs) ! (idxs ! p) = map (\<lambda>j. f (safe ! j) (tok j)) idxs ! p"
      by (rule nth_scatter_unique) (use p j s(1) in \<open>auto simp: nth_eq_iff_index_eq\<close>)
    then show ?thesis using True p by (simp add: s(4) outs)
  next
    case False
    then have "j \<notin> set idxs" using s(2) by simp
    then have "idxs ! i \<noteq> j" if "i < length idxs" for i using that nth_mem by metis
    then show ?thesis using False j by (simp add: nth_scatter_other)
  qed
qed

text \<open>Whatever the order \<open>argsort\<close> gives to equal keys, a slot holds the output of its expert, or zeros.\<close>

lemma moe_forward_native_slots:
  assumes srt: "sorter_ok sorter" and ids: "\<forall>row \<in> set topk_ids. length row = top_k"
    and len: "length x = length topk_ids" "length topk_weights = length topk_ids"
  shows "moe_forward_native silu sorter hidden top_k fm x topk_weights topk_ids
    = combine_slots hidden top_k topk_weights (\<lambda>t a.
        let e = topk_ids ! t ! a
        in if 0 \<le> e \<and> e < int (length (fm_w13 fm)) then expert_forward silu (fm_w13 fm ! nat e) (fm_w2 fm ! nat e) (x ! t)
           else replicate hidden 0)" (is "?lhs = ?rhs")
proof -
  define good where "good = (\<lambda>e. 0 \<le> e \<and> e < int (length (fm_w13 fm)))"
  define valid where "valid = map good (concat topk_ids)"
  define safe where "safe = map (\<lambda>e. if good e then nat e else 0) (concat topk_ids)"
  define V where "V = filter (\<lambda>j. valid ! j) [0..<length (concat topk_ids)]"
  define idxs where "idxs = map ((!) V) (sorter (map ((!) safe) V))"
  define f where "f = (\<lambda>e. expert_forward silu (fm_w13 fm ! e) (fm_w2 fm ! e))"
  define outs where "outs = concat (expert_loop f (map (\<lambda>j. x ! (j div top_k)) idxs) 0 0
      (map (\<lambda>e. length (filter (\<lambda>j. valid ! j \<and> safe ! j = e) [0..<length (concat topk_ids)])) [0..<length (fm_w13 fm)]))"
  have native: "?lhs = (if True \<notin> set valid then map (\<lambda>row. replicate hidden 0) x
      else combine_slots hidden top_k topk_weights (\<lambda>t a. scatter (replicate (length (concat topk_ids)) (replicate hidden 0)) idxs outs ! (t * top_k + a)))"
    unfolding moe_forward_native_def Let_def outs_def idxs_def V_def f_def safe_def valid_def good_def by (rule refl)
  have new: "scatter (replicate (length (concat topk_ids)) (replicate hidden 0)) idxs outs ! j
      = (if valid ! j then f (safe ! j) (x ! (j div top_k)) else replicate hidden 0)" if "j < length (concat topk_ids)" for j
    unfolding outs_def by (rule grouped_experts [OF srt V_def idxs_def _ that]) (auto simp: safe_def valid_def good_def)
  have slot: "t * top_k + a < length (concat topk_ids)" "(t * top_k + a) div top_k = t"
      "valid ! (t * top_k + a) = good (topk_ids ! t ! a)" "safe ! (t * top_k + a) = (if good (topk_ids ! t ! a) then nat (topk_ids ! t ! a) else 0)"
    if "t < length topk_ids" "a < top_k" for t a
    using nth_concat_rows(1,2) [OF ids that] that(2) by (simp_all add: valid_def safe_def)
  show ?thesis
  proof (cases "True \<in> set valid")
    case True
    show ?thesis
      unfolding native using True len(2)
      by (simp add: f_def [symmetric] good_def [symmetric]) (rule combine_slots_cong, simp add: new slot Let_def f_def good_def)
  next
    case False
    have "\<not> good (topk_ids ! t ! a)" if "t < length topk_ids" "a < top_k" for t a
      using slot [OF that] False nth_mem [of "t * top_k + a" valid] by (auto simp: valid_def)
    then have "?rhs = combine_slots hidden top_k topk_weights (\<lambda>t a. replicate hidden 0)"
      by (intro combine_slots_cong) (auto simp: len(2) good_def Let_def)
    then show ?thesis using native False len by (simp add: combine_slots_zero map_replicate_const)
  qed
qed

lemma tensor_get_ok: "0 \<le> i \<Longrightarrow> i < int (length xs) \<Longrightarrow> tensor_get xs i = Inr (xs ! nat i)"
  by (simp add: tensor_get_def tensor_pos_def)

lemma tensor_get_rows:
  "\<forall>row \<in> set ids. \<forall>e \<in> set row. 0 \<le> e \<and> e < int (length xs)
    \<Longrightarrow> result_map (result_map (tensor_get xs)) ids = Inr (map (map (\<lambda>e. xs ! nat e)) ids)"
  by (intro result_map_ok) (simp add: result_map_ok tensor_get_ok)

lemma expert_forward_chunks:
  "expert_forward silu w13 w2 x = f_linear w2 (map2 (*) (map silu (f_linear (take (length w13 div 2) w13) x)) (f_linear (drop (length w13 div 2) w13) x))"
  by (simp add: expert_forward_def silu_and_mul_def f_linear_def Let_def take_map drop_map zip_map_map comp_def case_prod_beta)

text \<open>
  C29: The two native executions of the experts agree: for expert ids in range, sorting the slots of all
  tokens by expert, running each expert once on its tokens and scattering the results back gives what
  the einsum over gathered weights gives, for every order that \<open>argsort\<close> may return.
\<close>

theorem moe_native_eq_einsum:
  assumes "sorter_ok sorter" and ids: "\<forall>row \<in> set topk_ids. length row = top_k"
    and len: "length x = length topk_ids" "length topk_weights = length topk_ids"
    and range: "\<forall>row \<in> set topk_ids. \<forall>e \<in> set row. 0 \<le> e \<and> e < int (length (fm_w13 fm))"
    and w2: "length (fm_w2 fm) = length (fm_w13 fm)"
  shows "fused_moe_forward_native silu hidden top_k fm x topk_weights topk_ids
    = Inr (moe_forward_native silu sorter hidden top_k fm x topk_weights topk_ids)"
proof -
  have "0 \<le> topk_ids ! t ! a \<and> topk_ids ! t ! a < int (length (fm_w13 fm))" if "t < length topk_ids" "a < top_k" for t a
    using range ids that nth_mem by fastforce
  then have "combine_slots hidden top_k topk_weights (\<lambda>t a.
        let w = map (map (\<lambda>e. fm_w13 fm ! nat e)) topk_ids ! t ! a; d = length w div 2;
            x1 = map silu (f_linear (take d w) (x ! t)); x3 = f_linear (drop d w) (x ! t)
        in f_linear (map (map (\<lambda>e. fm_w2 fm ! nat e)) topk_ids ! t ! a) (map2 (*) x1 x3))
      = moe_forward_native silu sorter hidden top_k fm x topk_weights topk_ids"
    unfolding moe_forward_native_slots [OF assms(1) ids len]
    by (intro combine_slots_cong) (use ids len in \<open>simp add: expert_forward_chunks Let_def\<close>)
  then show ?thesis
    unfolding fused_moe_forward_native_def using tensor_get_rows [OF range] tensor_get_rows [of topk_ids "fm_w2 fm"] range w2
    by (simp add: result_bind_def)
qed

definition ex_sorter :: "nat list \<Rightarrow> nat list" where
  "ex_sorter ks = sort_key ((!) ks) [0..<length ks]"

lemma ex_sorter_ok: "sorter_ok ex_sorter"
  by (auto simp: sorter_ok_def ex_sorter_def atLeast0LessThan)

definition ex_moe :: "int fused_moe" where
  "ex_moe = \<lparr> fm_num_experts = 2, fm_ep_size = 1, fm_tp_rank = 0, fm_num_local = 2, fm_intermediate = 1, fm_expert_map = None,
     fm_w13 = [[[1], [2]], [[3], [4]]], fm_w2 = [[[5]], [[6]]] \<rparr>"

theorem moe_native_eq_einsum_witness:
  "fused_moe_forward_native (\<lambda>x. x + 1) 1 2 ex_moe [[7], [8]] [[1, 2], [3, 1]] [[1, 0], [0, 1]]
    = Inr (moe_forward_native (\<lambda>x. x + 1) ex_sorter 1 2 ex_moe [[7], [8]] [[1, 2], [3, 1]] [[1, 0], [0, 1]])"
  by (rule moe_native_eq_einsum [OF ex_sorter_ok]) (simp_all add: ex_moe_def)

section \<open>Loading the experts\<close>

text \<open>The three matrices of every expert of the checkpoint, in order.\<close>

definition load_expert :: "'a list list list \<Rightarrow> 'a list list list \<Rightarrow> 'a list list list \<Rightarrow> nat \<Rightarrow> 'a fused_moe \<Rightarrow> 'a fused_moe result" where
  "load_expert gates ups downs e fm =
     result_bind (moe_weight_loader ''w1'' (int e) (gates ! e) fm) (\<lambda>fm.
     result_bind (moe_weight_loader ''w2'' (int e) (downs ! e) fm) (moe_weight_loader ''w3'' (int e) (ups ! e)))"

definition load_experts :: "'a list list list \<Rightarrow> 'a list list list \<Rightarrow> 'a list list list \<Rightarrow> 'a fused_moe \<Rightarrow> 'a fused_moe result" where
  "load_experts gates ups downs fm = result_fold (load_expert gates ups downs) [0..<length gates] fm"

lemma slice_rank_length: "r < n \<Longrightarrow> length xs = n * m \<Longrightarrow> length (slice (r * m) (r * m + m) xs) = m"
proof -
  assume "r < n" "length xs = n * m"
  then have "Suc r * m \<le> length xs" by (metis Suc_leI mult_le_mono1)
  then show ?thesis by (simp add: slice_def)
qed

lemma narrow_rank:
  "r < n \<Longrightarrow> length xs = n * m \<Longrightarrow> narrow xs (int (m * r)) (int m) = Inr (slice (r * m) (r * m + m) xs)"
proof -
  assume "r < n" "length xs = n * m"
  then have "Suc r * m \<le> length xs" by (metis Suc_leI mult_le_mono1)
  then have "m * r + m \<le> length xs" by (simp add: mult.commute)
  then have "int (m * r) + int m \<le> int (length xs)" by (metis of_nat_add of_nat_le_iff)
  moreover have "nat (int (m * r) + int m) = r * m + m" by (metis mult.commute nat_int of_nat_add)
  ultimately show ?thesis by (simp add: narrow_ok mult.commute del: of_nat_mult)
qed

lemma load_w13_ok:
  assumes r: "r < n" and ed: "map length ed = replicate (2 * m) h" and w: "map length w = replicate (n * m) h"
  shows "load_w13 r ''w1'' ed w = Inr (slice (r * m) (r * m + m) w @ drop m ed)"
    "load_w13 r ''w3'' ed w = Inr (take m ed @ slice (r * m) (r * m + m) w)"
proof -
  have lens: "length ed = 2 * m" "length w = n * m" using arg_cong [OF ed, of length] arg_cong [OF w, of length] by simp_all
  have "map length (slice (r * m) (r * m + m) w) = replicate m h"
    unfolding map_slice w using slice_rank_length [OF r, of "replicate (n * m) h" m] by (simp add: slice_def)
  moreover have "map length (slice 0 m ed) = replicate m h" "map length (slice m (m + m) ed) = replicate m h"
    unfolding map_slice ed by (simp_all add: slice_def)
  ultimately show "load_w13 r ''w1'' ed w = Inr (slice (r * m) (r * m + m) w @ drop m ed)"
    "load_w13 r ''w3'' ed w = Inr (take m ed @ slice (r * m) (r * m + m) w)"
    using lens narrow_rank [OF r lens(2)] by (simp_all add: load_w13_def copy_rows_def Let_def mult.commute)
qed

lemma load_w2_ok:
  assumes r: "r < n" and ed: "map length ed = replicate h m" and w: "map length w = replicate h (n * m)"
  shows "load_w2 r m ed w = Inr (map (slice (r * m) (r * m + m)) w)"
proof -
  have rows: "length row = n * m" if "row \<in> set w" for row
    using that w by (metis in_set_conv_nth in_set_replicate length_map nth_map nth_mem)
  then have "result_map (\<lambda>row. narrow row (int (m * r)) (int m)) w = Inr (map (slice (r * m) (r * m + m)) w)"
    by (intro result_map_ok) (rule narrow_rank [OF r])
  moreover have "map length (map (slice (r * m) (r * m + m)) w) = map (\<lambda>row. m) w"
    using slice_rank_length [OF r rows] by simp
  moreover have "length w = h" using arg_cong [OF w, of length] by simp
  ultimately show ?thesis using ed by (simp add: load_w2_def copy_rows_def map_replicate_const)
qed

lemma div_eq_range: "0 < (k :: nat) \<Longrightarrow> e div k = q \<longleftrightarrow> q * k \<le> e \<and> e < q * k + k"
  by (metis add.commute div_nat_eqI div_times_less_eq_dividend dividend_less_div_times mult.commute mult_Suc_right)

definition fm_shape :: "'a fused_moe \<Rightarrow> nat \<Rightarrow> nat \<Rightarrow> nat \<Rightarrow> bool" where
  "fm_shape fm nl m h = (length (fm_w13 fm) = nl \<and> (\<forall>d \<in> set (fm_w13 fm). map length d = replicate (2 * m) h)
     \<and> length (fm_w2 fm) = nl \<and> (\<forall>d \<in> set (fm_w2 fm). map length d = replicate h m) \<and> fm_intermediate fm = m)"

text \<open>The experts of rank \<open>er\<close>: \<open>nl\<close> consecutive ones, at their positions; the others are \<open>-1\<close>.\<close>

definition maps_experts :: "'a fused_moe \<Rightarrow> nat \<Rightarrow> nat \<Rightarrow> nat \<Rightarrow> bool" where
  "maps_experts fm ep er nl = (\<forall>e < ep * nl. map_global_expert_id fm (int e) = Inr (if e div nl = er then int (e - er * nl) else - 1))"

lemma expert_map_nth:
  fixes ep er nl e :: nat
  assumes "er < ep" "e < ep * nl"
  shows "(take (er * nl) (replicate (ep * nl) (- 1 :: int)) @ map int [0..<nl] @ drop ((er + 1) * nl) (replicate (ep * nl) (- 1))) ! e
       = (if e div nl = er then int (e - er * nl) else - 1)" (is "?m ! e = _")
    and "length (take (er * nl) (replicate (ep * nl) (- 1 :: int)) @ map int [0..<nl] @ drop ((er + 1) * nl) (replicate (ep * nl) (- 1))) = ep * nl"
proof -
  have nl: "0 < nl" using assms(2) by (cases nl) simp_all
  have le: "er * nl + nl \<le> ep * nl" using assms(1) by (metis Suc_leI add.commute mult_Suc mult_le_mono1)
  then show "length ?m = ep * nl" by simp
  show "?m ! e = (if e div nl = er then int (e - er * nl) else - 1)"
    unfolding div_eq_range [OF nl] using le assms by (auto simp: nth_append min_def)
qed

lemma fused_moe_init_ok:
  assumes "er < ep" "0 < n"
  shows "\<exists>fm. fused_moe_init junk (ep * nl) h (n * m) ep er n r = Inr fm \<and> fm_shape fm nl m h \<and> fm_tp_rank fm = r \<and> maps_experts fm ep er nl
    \<and> forward_map fm = fm_expert_map fm"
proof -
  let ?map = "take (er * nl) (replicate (ep * nl) (- 1 :: int)) @ map int [0..<nl] @ drop ((er + 1) * nl) (replicate (ep * nl) (- 1))"
  let ?fm = "\<lparr> fm_num_experts = ep * nl, fm_ep_size = ep, fm_tp_rank = r, fm_num_local = nl, fm_intermediate = m,
      fm_expert_map = (if ep > 1 then Some ?map else None),
      fm_w13 = replicate nl (replicate (2 * m) (replicate h junk)), fm_w2 = replicate nl (replicate h (replicate m junk)) \<rparr>"
  have "fused_moe_init junk (ep * nl) h (n * m) ep er n r = Inr ?fm" using assms by (simp add: fused_moe_init_def)
  moreover have "fm_shape ?fm nl m h" by (auto simp: fm_shape_def map_replicate)
  moreover have "map_global_expert_id ?fm (int e) = Inr (if e div nl = er then int (e - er * nl) else - 1)" if e: "e < ep * nl" for e
  proof (cases "ep > 1")
    case True
    then have m: "fm_expert_map ?fm = Some ?map" by simp
    have "tensor_get ?map (int e) = Inr (?map ! e)"
      using tensor_get_ok [of "int e" ?map] e unfolding expert_map_nth(2) [OF assms(1) e] nat_int by linarith
    then show ?thesis unfolding map_global_expert_id_def m option.case expert_map_nth(1) [OF assms(1) e] .
  next
    case False
    then have "ep = 1" "er = 0" using assms(1) by auto
    then show ?thesis using e by (simp add: map_global_expert_id_def)
  qed
  moreover have "forward_map ?fm = fm_expert_map ?fm" unfolding forward_map_def by simp
  ultimately show ?thesis by (intro exI [of _ ?fm]) (simp only: maps_experts_def fused_moe.simps simp_thms, blast)
qed

text \<open>
  The id \<open>-1\<close> that marks a padded token indexes the expert map from its end, so the last rank of the
  expert group runs its last expert on it instead of skipping it.
\<close>

lemma padded_id_mapped:
  assumes init: "fused_moe_init junk (ep * nl) h (n * m) ep er n r = Inr fm" and "er < ep" "0 < n" "0 < nl"
    and "fm_expert_map fm = Some mp"
  shows "tensor_get mp (- 1) = Inr (if er = ep - 1 then int (nl - 1) else - 1)"
proof -
  have mp: "mp = take (er * nl) (replicate (ep * nl) (- 1)) @ map int [0..<nl] @ drop ((er + 1) * nl) (replicate (ep * nl) (- 1))"
    using assms by (auto simp: fused_moe_init_def Let_def split: if_splits)
  obtain k where ep: "ep = Suc k" using assms(2) by (cases ep) auto
  have mult: "ep * nl = k * nl + nl" by (simp add: ep)
  have e: "ep * nl - 1 < ep * nl" "(ep * nl - 1) div nl = k"
    unfolding div_eq_range [OF assms(4)] using mult assms(4) by linarith+
  note nth = expert_map_nth [OF assms(2) e(1), folded mp]
  have "tensor_pos (length mp) (- 1) = Inr (length mp - 1)" if "0 < length mp"
    using that by (cases mp) (simp_all add: tensor_pos_def)
  then have "tensor_get mp (- 1) = Inr (mp ! (ep * nl - 1))"
    using nth(2) e(1) by (metis (no_types, lifting) gr0I not_less_zero result_bind_simps(2) tensor_get_def)
  also have "mp ! (ep * nl - 1) = (if er = ep - 1 then int (nl - 1) else - 1)"
    unfolding nth(1) e(2) using assms(4) by (auto simp: ep)
  finally show ?thesis .
qed

definition rank_w13 :: "nat \<Rightarrow> nat \<Rightarrow> 'a list list list \<Rightarrow> 'a list list list \<Rightarrow> nat \<Rightarrow> 'a list list" where
  "rank_w13 m r gates ups e = slice (r * m) (r * m + m) (gates ! e) @ slice (r * m) (r * m + m) (ups ! e)"

definition rank_w2 :: "nat \<Rightarrow> nat \<Rightarrow> 'a list list list \<Rightarrow> nat \<Rightarrow> 'a list list" where
  "rank_w2 m r downs e = map (slice (r * m) (r * m + m)) (downs ! e)"

definition experts_shape :: "nat \<Rightarrow> nat \<Rightarrow> nat \<Rightarrow> 'a list list list \<Rightarrow> 'a list list list \<Rightarrow> 'a list list list \<Rightarrow> bool" where
  "experts_shape num_experts h width gates ups downs =
     (length gates = num_experts \<and> length ups = num_experts \<and> length downs = num_experts
      \<and> (\<forall>g \<in> set gates \<union> set ups. map length g = replicate width h) \<and> (\<forall>d \<in> set downs. map length d = replicate h width))"

lemma load_expert_ok:
  assumes r: "r < n" "fm_tp_rank fm = r" and sh: "fm_shape fm nl m h" and mp: "maps_experts fm ep er nl"
    and ck: "experts_shape (ep * nl) h (n * m) gates ups downs" and e: "e < ep * nl"
  shows "load_expert gates ups downs e fm = Inr (if e div nl = er
      then fm\<lparr>fm_w13 := (fm_w13 fm)[e - er * nl := rank_w13 m r gates ups e], fm_w2 := (fm_w2 fm)[e - er * nl := rank_w2 m r downs e]\<rparr> else fm)"
proof (cases "e div nl = er")
  case False
  then show ?thesis using mp e by (simp add: load_expert_def moe_weight_loader_def maps_experts_def)
next
  case True
  let ?l = "e - er * nl" and ?s = "slice (r * m) (r * m + m)"
  have "0 < nl" using e by (cases nl) simp_all
  with True have l: "?l < nl" by (auto simp: div_eq_range)
  have pos: "tensor_pos nl (int ?l) = Inr ?l" using l by (simp add: tensor_pos_def)
  have g: "map length (gates ! e) = replicate (n * m) h" "map length (ups ! e) = replicate (n * m) h" "map length (downs ! e) = replicate h (n * m)"
    using ck e by (auto simp: experts_shape_def)
  have sh': "map length (fm_w13 fm ! ?l) = replicate (2 * m) h" "map length (fm_w2 fm ! ?l) = replicate h m"
      "length (fm_w13 fm) = nl" "length (fm_w2 fm) = nl" "fm_intermediate fm = m"
    using sh l by (auto simp: fm_shape_def)
  let ?d = "?s (gates ! e) @ drop m (fm_w13 fm ! ?l)"
  have sl: "length (?s (gates ! e)) = m" using arg_cong [OF g(1), of length] by (intro slice_rank_length [OF r(1)]) simp
  have "map length (?s (gates ! e)) = replicate m h"
    unfolding map_slice g(1) using slice_rank_length [OF r(1), of "replicate (n * m) h" m] by (simp add: slice_def)
  then have d: "map length ?d = replicate (2 * m) h" by (simp add: drop_map [symmetric] sh'(1) replicate_add [symmetric] mult_2)
  have w3: "load_w13 r ''w3'' ?d (ups ! e) = Inr (rank_w13 m r gates ups e)"
    using load_w13_ok(2) [OF r(1) d g(2)] sl by (simp add: rank_w13_def)
  show ?thesis
    using True mp e l pos load_w13_ok(1) [OF r(1) sh'(1) g(1)] load_w2_ok [OF r(1) sh'(2) g(3)] w3
    by (simp add: load_expert_def moe_weight_loader_def moe_weight_loader_impl_def maps_experts_def map_global_expert_id_def sh' r(2) rank_w2_def)
qed

lemma rank_weights_shape:
  assumes r: "r < n" and ck: "experts_shape ne h (n * m) gates ups downs" and e: "e < ne"
  shows "map length (rank_w13 m r gates ups e) = replicate (2 * m) h" "map length (rank_w2 m r downs e) = replicate h m"
proof -
  have g: "map length (gates ! e) = replicate (n * m) h" "map length (ups ! e) = replicate (n * m) h" "map length (downs ! e) = replicate h (n * m)"
    using ck e by (auto simp: experts_shape_def)
  have s: "slice (r * m) (r * m + m) (replicate (n * m) h) = replicate m h"
    using slice_rank_length [OF r, of "replicate (n * m) h" m] by (simp add: slice_def)
  show "map length (rank_w13 m r gates ups e) = replicate (2 * m) h"
    by (simp add: rank_w13_def map_slice g(1,2) s replicate_add [symmetric] mult_2)
  have "length row = n * m" if "row \<in> set (downs ! e)" for row
    using that g(3) by (metis in_set_conv_nth in_set_replicate length_map nth_map nth_mem)
  then have "map length (rank_w2 m r downs e) = map (\<lambda>row. m) (downs ! e)"
    unfolding rank_w2_def map_map comp_def by (intro map_cong refl slice_rank_length [OF r])
  then show "map length (rank_w2 m r downs e) = replicate h m"
    using arg_cong [OF g(3), of length] by (simp add: map_replicate_const)
qed

lemma load_experts_prefix:
  assumes r: "r < n" "fm_tp_rank fm = r" and sh: "fm_shape fm nl m h" and mp: "maps_experts fm ep er nl"
    and ck: "experts_shape (ep * nl) h (n * m) gates ups downs" and q: "q \<le> ep * nl"
  shows "\<exists>fm'. result_fold (load_expert gates ups downs) [0..<q] fm = Inr fm' \<and> fm_tp_rank fm' = r \<and> fm_shape fm' nl m h
     \<and> fm_expert_map fm' = fm_expert_map fm \<and> fm_ep_size fm' = fm_ep_size fm
     \<and> (\<forall>l < nl. er * nl + l < q \<longrightarrow> fm_w13 fm' ! l = rank_w13 m r gates ups (er * nl + l) \<and> fm_w2 fm' ! l = rank_w2 m r downs (er * nl + l))"
  using q
proof (induction q)
  case 0
  then show ?case using r sh by simp
next
  case (Suc q)
  then obtain fm' where fm': "result_fold (load_expert gates ups downs) [0..<q] fm = Inr fm'" "fm_tp_rank fm' = r" "fm_shape fm' nl m h"
      "fm_expert_map fm' = fm_expert_map fm" "fm_ep_size fm' = fm_ep_size fm"
      "\<forall>l < nl. er * nl + l < q \<longrightarrow> fm_w13 fm' ! l = rank_w13 m r gates ups (er * nl + l) \<and> fm_w2 fm' ! l = rank_w2 m r downs (er * nl + l)"
    by auto
  have "maps_experts fm' ep er nl" using mp fm'(4) by (simp add: maps_experts_def map_global_expert_id_def)
  note st = load_expert_ok [OF r(1) fm'(2,3) this ck, of q]
  show ?case
  proof (cases "q div nl = er")
    case False
    then have "er * nl + l \<noteq> q" if "l < nl" for l using that by auto
    then show ?thesis using st False fm' Suc.prems by (auto simp: result_fold_append result_bind_def less_Suc_eq)
  next
    case True
    define l where "l = q - er * nl"
    have "0 < nl" using Suc.prems by (cases nl) simp_all
    with True have l: "l < nl" "q = er * nl + l" by (auto simp: div_eq_range l_def)
    let ?fm = "fm'\<lparr>fm_w13 := (fm_w13 fm')[l := rank_w13 m r gates ups q], fm_w2 := (fm_w2 fm')[l := rank_w2 m r downs q]\<rparr>"
    have "result_fold (load_expert gates ups downs) [0..<Suc q] fm = Inr ?fm"
      using st True fm'(1) Suc.prems by (simp add: result_fold_append l_def)
    moreover have "fm_shape ?fm nl m h"
      using fm'(3) rank_weights_shape [OF r(1) ck, of q] Suc.prems set_update_subset_insert by (fastforce simp: fm_shape_def)
    moreover have "fm_w13 ?fm ! k = rank_w13 m r gates ups (er * nl + k) \<and> fm_w2 ?fm ! k = rank_w2 m r downs (er * nl + k)"
      if "k < nl" "er * nl + k < Suc q" for k
      using that fm'(3,6) l by (cases "k = l") (simp_all add: fm_shape_def)
    ultimately show ?thesis using fm'(2,4,5) by (intro exI [of _ ?fm]) simp
  qed
qed

text \<open>A rank of the layer, built and loaded.\<close>

definition moe_rank :: "'a \<Rightarrow> nat \<Rightarrow> nat \<Rightarrow> nat \<Rightarrow> nat \<Rightarrow> nat \<Rightarrow> 'a list list list \<Rightarrow> 'a list list list \<Rightarrow> 'a list list list \<Rightarrow> nat \<Rightarrow> 'a fused_moe result" where
  "moe_rank junk num_experts hidden intermediate ep_size tp_size gates ups downs rank =
     (let tp_rank = tp_rank_of tp_size rank
      in result_bind (fused_moe_init junk num_experts hidden intermediate ep_size (ep_rank_of ep_size rank)
           (moe_tensor_parallel_world_size tp_size ep_size) (moe_tensor_parallel_rank tp_size ep_size tp_rank))
         (load_experts gates ups downs))"

text \<open>
  What a rank has to hold, for an assignment \<open>own\<close> of the experts to the expert ranks: it maps its own
  experts to the positions of their shards and all others to \<open>-1\<close>.
\<close>

definition map_forward_id :: "'a fused_moe \<Rightarrow> int \<Rightarrow> int result" where
  "map_forward_id fm e = (case forward_map fm of None \<Rightarrow> Inr e | Some m \<Rightarrow> tensor_get m e)"

definition rank_ok :: "nat \<Rightarrow> (nat \<Rightarrow> nat) \<Rightarrow> nat \<Rightarrow> nat \<Rightarrow> nat \<Rightarrow> 'a list list list \<Rightarrow> 'a list list list \<Rightarrow> 'a list list list \<Rightarrow> 'a fused_moe \<Rightarrow> bool" where
  "rank_ok ne own er m r gates ups downs fm = (\<forall>e < ne. \<exists>p. map_forward_id fm (int e) = Inr (if own e = er then int p else - 1)
     \<and> (own e = er \<longrightarrow> p < length (fm_w13 fm) \<and> fm_w13 fm ! p = rank_w13 m r gates ups e \<and> fm_w2 fm ! p = rank_w2 m r downs e))"

lemma moe_group_ranks:
  assumes "0 < ep" "0 < n" "rank < ep * n"
  shows "moe_tensor_parallel_world_size (ep * n) ep = n" "ep_rank_of ep rank = rank mod ep" "tp_rank_of (ep * n) rank = rank"
    "moe_tensor_parallel_rank (ep * n) ep rank = rank div ep"
proof -
  show sizes: "moe_tensor_parallel_world_size (ep * n) ep = n" "ep_rank_of ep rank = rank mod ep" "tp_rank_of (ep * n) rank = rank"
    using assms by (auto simp: moe_tensor_parallel_world_size_def ep_rank_of_def tp_rank_of_def max_def not_le)
  have "rank div ep < n" using assms by (simp add: less_mult_imp_div_less mult.commute)
  then show "moe_tensor_parallel_rank (ep * n) ep rank = rank div ep"
    unfolding moe_tensor_parallel_rank_def sizes(1) using assms(1,2) by (auto simp: max_def not_le)
qed

lemma moe_rank_ok:
  assumes "0 < ep" "0 < n" and ck: "experts_shape (ep * nl) h (n * m) gates ups downs" and rank: "rank < ep * n"
  shows "\<exists>fm. moe_rank junk (ep * nl) h (n * m) ep (ep * n) gates ups downs rank = Inr fm
     \<and> rank_ok (ep * nl) (\<lambda>e. e div nl) (rank mod ep) m (rank div ep) gates ups downs fm"
proof -
  have er: "rank mod ep < ep" and tr: "rank div ep < n"
    using assms(1) rank by (simp_all add: less_mult_imp_div_less mult.commute)
  have unfold: "moe_rank junk (ep * nl) h (n * m) ep (ep * n) gates ups downs rank
      = result_bind (fused_moe_init junk (ep * nl) h (n * m) ep (rank mod ep) n (rank div ep)) (load_experts gates ups downs)"
    by (simp add: moe_rank_def moe_group_ranks [OF assms(1,2) rank])
  obtain fm where fm: "fused_moe_init junk (ep * nl) h (n * m) ep (rank mod ep) n (rank div ep) = Inr fm"
      "fm_shape fm nl m h" "fm_tp_rank fm = rank div ep" "maps_experts fm ep (rank mod ep) nl" "forward_map fm = fm_expert_map fm"
    using fused_moe_init_ok [OF er assms(2), of junk nl h m "rank div ep"] by blast
  have all: "rank mod ep * nl + l < ep * nl" if "l < nl" for l
    using that er by (metis add.commute add_less_le_mono le_refl mult_Suc mult_le_mono1 Suc_leI order_less_le_trans add_less_mono1)
  have "length gates = ep * nl" using ck by (simp add: experts_shape_def)
  then obtain fm' where fm': "load_experts gates ups downs fm = Inr fm'" "fm_shape fm' nl m h" "fm_expert_map fm' = fm_expert_map fm" "fm_ep_size fm' = fm_ep_size fm"
      "\<forall>l < nl. fm_w13 fm' ! l = rank_w13 m (rank div ep) gates ups (rank mod ep * nl + l) \<and> fm_w2 fm' ! l = rank_w2 m (rank div ep) downs (rank mod ep * nl + l)"
    using load_experts_prefix [OF tr fm(3,2,4) ck le_refl] all by (auto simp: load_experts_def)
  have "forward_map fm' = fm_expert_map fm" using fm(5) fm'(3,4) unfolding forward_map_def by metis
  then have id: "map_forward_id fm' (int e) = Inr (if e div nl = rank mod ep then int (e - rank mod ep * nl) else - 1)" if "e < ep * nl" for e
    using fm(4) that by (simp add: map_forward_id_def maps_experts_def map_global_expert_id_def)
  have "rank_ok (ep * nl) (\<lambda>e. e div nl) (rank mod ep) m (rank div ep) gates ups downs fm'"
    unfolding rank_ok_def
  proof (intro allI impI)
    fix e assume e: "e < ep * nl"
    then have "0 < nl" by (cases nl) simp_all
    then have "e - rank mod ep * nl < nl \<and> rank mod ep * nl + (e - rank mod ep * nl) = e" if "e div nl = rank mod ep"
      using that by (auto simp: div_eq_range)
    then show "\<exists>p. map_forward_id fm' (int e) = Inr (if e div nl = rank mod ep then int p else - 1)
       \<and> (e div nl = rank mod ep \<longrightarrow> p < length (fm_w13 fm') \<and> fm_w13 fm' ! p = rank_w13 m (rank div ep) gates ups e \<and> fm_w2 fm' ! p = rank_w2 m (rank div ep) downs e)"
      using id [OF e] fm'(2,5) by (intro exI [of _ "e - rank mod ep * nl"]) (simp add: fm_shape_def)
  qed
  then show ?thesis using fm(1) fm'(1) unfold by (intro exI [of _ fm']) simp
qed

lemma result_map_Inr [simp]: "result_map Inr = Inr"
proof
  show "result_map Inr xs = Inr xs" for xs :: "'b list" by (induction xs) simp_all
qed

lemma forward_ids:
  "(case forward_map fm of None \<Rightarrow> Inr ids | Some m \<Rightarrow> result_map (result_map (tensor_get m)) ids)
    = result_map (result_map (map_forward_id fm)) ids"
  by (cases "forward_map fm") (simp_all add: map_forward_id_def [abs_def])

lemma fused_moe_forward_slots:
  assumes fm: "rank_ok ne own er m r gates ups downs fm" and srt: "sorter_ok sorter" and ids: "\<forall>row \<in> set topk_ids. length row = top_k"
    and len: "length x = length topk_ids" "length topk_weights = length topk_ids"
    and range: "\<forall>row \<in> set topk_ids. \<forall>e \<in> set row. 0 \<le> e \<and> e < int ne"
  shows "fused_moe_forward silu sorter hidden top_k fm x topk_weights topk_ids
    = Inr (combine_slots hidden top_k topk_weights (\<lambda>t a.
        let e = nat (topk_ids ! t ! a)
        in if own e = er then expert_forward silu (rank_w13 m r gates ups e) (rank_w2 m r downs e) (x ! t) else replicate hidden 0))"
proof -
  obtain pos where pos: "\<And>e. e < ne \<Longrightarrow> map_forward_id fm (int e) = Inr (if own e = er then int (pos e) else - 1)"
      "\<And>e. e < ne \<Longrightarrow> own e = er \<Longrightarrow> pos e < length (fm_w13 fm) \<and> fm_w13 fm ! pos e = rank_w13 m r gates ups e \<and> fm_w2 fm ! pos e = rank_w2 m r downs e"
    using fm unfolding rank_ok_def by metis
  define loc where "loc = (\<lambda>e. if own (nat e) = er then int (pos (nat e)) else - 1)"
  have "map_forward_id fm e = Inr (loc e)" if "0 \<le> e" "e < int ne" for e
    using pos(1) [of "nat e"] that by (simp add: loc_def nat_less_iff)
  then have mapped: "result_map (result_map (map_forward_id fm)) topk_ids = Inr (map (map loc) topk_ids)"
    using range by (intro result_map_ok) auto
  have slots: "moe_forward_native silu sorter hidden top_k fm x topk_weights (map (map loc) topk_ids)
    = combine_slots hidden top_k topk_weights (\<lambda>t a.
        let e = map (map loc) topk_ids ! t ! a
        in if 0 \<le> e \<and> e < int (length (fm_w13 fm)) then expert_forward silu (fm_w13 fm ! nat e) (fm_w2 fm ! nat e) (x ! t)
           else replicate hidden 0)"
    by (rule moe_forward_native_slots [OF srt]) (use ids len in auto)
  have eq: "(let e = loc e in if 0 \<le> e \<and> e < int (length (fm_w13 fm)) then expert_forward silu (fm_w13 fm ! nat e) (fm_w2 fm ! nat e) y else z)
      = (if own (nat e) = er then expert_forward silu (rank_w13 m r gates ups (nat e)) (rank_w2 m r downs (nat e)) y else z)"
    if "0 \<le> e" "e < int ne" for e y z
    using pos(2) [of "nat e"] that by (simp add: loc_def Let_def nat_less_iff)
  have "0 \<le> topk_ids ! t ! a \<and> topk_ids ! t ! a < int ne" if "t < length topk_ids" "a < top_k" for t a
    using range ids that nth_mem by fastforce
  then show ?thesis
    unfolding fused_moe_forward_def forward_ids mapped result_bind_def sum.case slots
    by (intro arg_cong [where f = Inr] combine_slots_cong) (use ids len eq in \<open>simp add: Let_def\<close>)
qed

section \<open>The reduction\<close>

lemma sum_list_swap:
  fixes f :: "'b \<Rightarrow> 'c \<Rightarrow> 'a::comm_ring_1"
  shows "sum_list (map (\<lambda>r. sum_list (map (f r) as)) rs) = sum_list (map (\<lambda>a. sum_list (map (\<lambda>r. f r a) rs)) as)"
  by (induction rs) (simp_all add: sum_list_addf)

lemma combine_slots_reduce:
  assumes "rs \<noteq> []"
  shows "all_reduce_rows (map (\<lambda>r. combine_slots h k w (slot r)) rs)
    = combine_slots h k w (\<lambda>t a. map (\<lambda>j. sum_list (map (\<lambda>r. slot r t a ! j) rs)) [0..<h])"
proof -
  have "hd (map (\<lambda>r. combine_slots h k w (slot r)) rs) = combine_slots h k w (slot (hd rs))" using assms by (simp add: hd_map)
  then have len: "length (hd (map (\<lambda>r. combine_slots h k w (slot r)) rs)) = length w" by (simp add: combine_slots_def)
  have "all_reduce (map (\<lambda>r. combine_slots h k w (slot r) ! t) rs)
      = map (\<lambda>j. sum_list (map (\<lambda>a. sum_list (map (\<lambda>r. slot r t a ! j) rs) * w ! t ! a) [0..<k])) [0..<h]" if t: "t < length w" for t
  proof -
    have "length (hd (map (\<lambda>r. combine_slots h k w (slot r) ! t) rs)) = h" using assms t by (simp add: hd_map combine_slots_def)
    moreover have "sum_list (map (\<lambda>p. p ! j) (map (\<lambda>r. combine_slots h k w (slot r) ! t) rs))
        = sum_list (map (\<lambda>a. sum_list (map (\<lambda>r. slot r t a ! j) rs) * w ! t ! a) [0..<k])" if "j < h" for j
      using t that by (simp add: combine_slots_def comp_def sum_list_swap [of _ "[0..<k]"] sum_list_mult_const)
    ultimately show ?thesis unfolding all_reduce_def by simp
  qed
  then show ?thesis unfolding all_reduce_rows_def len by (simp add: combine_slots_def comp_def cong: map_cong)
qed

lemma sum_list_grid:
  "sum_list (map (\<lambda>r. f (r mod p) (r div p)) [0..<p * n]) = sum_list (map (\<lambda>b. sum_list (map (\<lambda>a. f a b) [0..<p])) [0..<n])"
  for f :: "nat \<Rightarrow> nat \<Rightarrow> 'a::comm_ring_1"
proof (induction n)
  case (Suc n)
  have "[0..<p * Suc n] = [0..<p * n] @ map (\<lambda>a. p * n + a) [0..<p]"
    by (rule nth_equalityI) (auto simp: nth_append)
  moreover have "map (\<lambda>r. f (r mod p) (r div p)) (map (\<lambda>a. p * n + a) [0..<p]) = map (\<lambda>a. f a n) [0..<p]" by simp
  ultimately show ?case using Suc by (simp only: map_append sum_list.append) simp
qed simp

lemma sum_list_pick:
  fixes c :: "'a::comm_ring_1"
  shows "i < n \<Longrightarrow> sum_list (map (\<lambda>a. if i = a then c else 0) [0..<n]) = c"
  by (subst sum_list_single [of i]) simp_all

text \<open>The whole expert, of which every rank of its expert group computes a part.\<close>

definition gated_mlp :: "('a::comm_ring_1 \<Rightarrow> 'a) \<Rightarrow> 'a list list \<Rightarrow> 'a list list \<Rightarrow> 'a list list \<Rightarrow> 'a list \<Rightarrow> 'a list" where
  "gated_mlp silu gate up down x = f_linear down (map2 (\<lambda>g u. silu g * u) (f_linear gate x) (f_linear up x))"

lemma expert_parts_sum:
  assumes ck: "experts_shape ne h (n * m) gates ups downs" and e: "e < ne" and j: "j < h"
  shows "sum_list (map (\<lambda>r. expert_forward silu (rank_w13 m r gates ups e) (rank_w2 m r downs e) x ! j) [0..<n])
    = gated_mlp silu (gates ! e) (ups ! e) (downs ! e) x ! j"
proof -
  let ?act = "map2 (\<lambda>g u. silu g * u) (f_linear (gates ! e) x) (f_linear (ups ! e) x)"
  have "map length (gates ! e) = replicate (n * m) h" "map length (ups ! e) = replicate (n * m) h" and d: "map length (downs ! e) = replicate h (n * m)"
    using ck e by (auto simp: experts_shape_def)
  then have g: "length (gates ! e) = n * m" "length (ups ! e) = n * m" by (metis length_map length_replicate)+
  have dl: "length (downs ! e) = h" "length (downs ! e ! j) = n * m"
    using arg_cong [OF d, of length] arg_cong [OF d, of "\<lambda>ls. ls ! j"] j by simp_all
  have act: "length ?act = n * m" using g by (simp add: f_linear_def)
  have "expert_forward silu (rank_w13 m r gates ups e) (rank_w2 m r downs e) x ! j
      = dot (slice (r * m) (r * m + m) ?act) (slice (r * m) (r * m + m) (downs ! e ! j))" if "r < n" for r
    using silu_and_mul_rank [OF g that, of silu x] j dl by (simp add: expert_forward_def rank_w13_def rank_w2_def f_linear_def)
  then have "sum_list (map (\<lambda>r. expert_forward silu (rank_w13 m r gates ups e) (rank_w2 m r downs e) x ! j) [0..<n])
      = sum_list (map (\<lambda>r. dot (slice (r * m) (r * m + m) ?act) (slice (r * m) (r * m + m) (downs ! e ! j))) [0..<n])"
    by (intro arg_cong [where f = sum_list] map_cong refl) simp
  also have "\<dots> = dot ?act (downs ! e ! j)" by (rule dot_slices [OF act dl(2)])
  finally show ?thesis using j dl by (simp add: gated_mlp_def f_linear_def)
qed

lemma routed_reduced:
  assumes pos: "0 < ep" "0 < n" and ck: "experts_shape ne h (n * m) gates ups downs"
    and own: "\<And>e. e < ne \<Longrightarrow> own e < ep"
    and ids: "\<forall>row \<in> set topk_ids. length row = k" "\<forall>row \<in> set topk_ids. \<forall>e \<in> set row. 0 \<le> e \<and> e < int ne"
    and len: "length topk_weights = length topk_ids"
  shows "all_reduce_rows (map (\<lambda>r. combine_slots h k topk_weights (\<lambda>t a.
            let e = nat (topk_ids ! t ! a)
            in if own e = r mod ep then expert_forward silu (rank_w13 m (r div ep) gates ups e) (rank_w2 m (r div ep) downs e) (x ! t)
               else replicate h 0)) [0..<ep * n])
      = combine_slots h k topk_weights (\<lambda>t a. let e = nat (topk_ids ! t ! a) in gated_mlp silu (gates ! e) (ups ! e) (downs ! e) (x ! t))"
    (is "all_reduce_rows (map (\<lambda>r. combine_slots h k topk_weights (?slot r)) _) = _")
proof -
  have "map (\<lambda>j. sum_list (map (\<lambda>r. ?slot r t a ! j) [0..<ep * n])) [0..<h]
      = (let e = nat (topk_ids ! t ! a) in gated_mlp silu (gates ! e) (ups ! e) (downs ! e) (x ! t))"
    if t: "t < length topk_ids" "a < k" for t a
  proof -
    define e where "e = nat (topk_ids ! t ! a)"
    have "0 \<le> topk_ids ! t ! a \<and> topk_ids ! t ! a < int ne" using ids t nth_mem by fastforce
    then have e: "e < ne" by (simp add: e_def nat_less_iff)
    then have er: "own e < ep" by (rule own)
    have "sum_list (map (\<lambda>r. ?slot r t a ! j) [0..<ep * n]) = gated_mlp silu (gates ! e) (ups ! e) (downs ! e) (x ! t) ! j" if j: "j < h" for j
    proof -
      let ?part = "\<lambda>b. expert_forward silu (rank_w13 m b gates ups e) (rank_w2 m b downs e) (x ! t) ! j"
      have "sum_list (map (\<lambda>r. ?slot r t a ! j) [0..<ep * n])
          = sum_list (map (\<lambda>r. if own e = r mod ep then ?part (r div ep) else 0) [0..<ep * n])"
        by (intro arg_cong [where f = sum_list] map_cong refl) (simp add: e_def [symmetric] Let_def j)
      also have "\<dots> = sum_list (map (\<lambda>b. sum_list (map (\<lambda>a. if own e = a then ?part b else 0) [0..<ep])) [0..<n])"
        by (rule sum_list_grid [of "\<lambda>a b. if own e = a then ?part b else 0"])
      also have "\<dots> = sum_list (map ?part [0..<n])" by (simp add: sum_list_pick [OF er])
      finally show ?thesis using expert_parts_sum [OF ck e j] by simp
    qed
    moreover have "length (gated_mlp silu (gates ! e) (ups ! e) (downs ! e) (x ! t)) = h"
      using ck e by (auto simp: gated_mlp_def f_linear_def experts_shape_def) (metis length_map length_replicate nth_mem)
    ultimately show ?thesis unfolding Let_def e_def [symmetric] by (intro nth_equalityI) simp_all
  qed
  then have "combine_slots h k topk_weights (\<lambda>t a. map (\<lambda>j. sum_list (map (\<lambda>r. ?slot r t a ! j) [0..<ep * n])) [0..<h])
      = combine_slots h k topk_weights (\<lambda>t a. let e = nat (topk_ids ! t ! a) in gated_mlp silu (gates ! e) (ups ! e) (downs ! e) (x ! t))"
    by (intro combine_slots_cong) (simp add: len)
  moreover have "[0..<ep * n] \<noteq> []" using pos by simp
  ultimately show ?thesis using combine_slots_reduce [of "[0..<ep * n]" h k topk_weights ?slot] by (rule_tac trans)
qed

text \<open>Reductions of sums, of one rank, and of the shared experts.\<close>

lemma all_reduce_rows_singleton: "all_reduce_rows [P] = P"
  by (rule nth_equalityI) (simp_all add: all_reduce_rows_def all_reduce_def map_nth)

lemma all_reduce_rows_eq:
  assumes ne: "rs \<noteq> []" and F: "\<And>r. r \<in> set rs \<Longrightarrow> map length (F r) = replicate T h"
  shows "all_reduce_rows (map F rs) = map (\<lambda>t. map (\<lambda>j. sum_list (map (\<lambda>r. F r ! t ! j) rs)) [0..<h]) [0..<T]"
proof -
  have "hd rs \<in> set rs" using ne by simp
  then have "length (F (hd rs)) = T" "length (F (hd rs) ! t) = h" if "t < T" for t
    using arg_cong [OF F, of "hd rs" length] arg_cong [OF F, of "hd rs" "\<lambda>ls. ls ! t"] that by simp_all
  then show ?thesis
    using ne arg_cong [OF F [OF \<open>hd rs \<in> set rs\<close>], of length]
    by (simp add: all_reduce_rows_def all_reduce_def hd_map comp_def cong: map_cong)
qed

lemma add_rows_shape:
  "map length P = replicate T h \<Longrightarrow> map length Q = replicate T h
    \<Longrightarrow> map length (add_rows P Q) = replicate T h \<and> (\<forall>t < T. \<forall>j < h. add_rows P Q ! t ! j = P ! t ! j + Q ! t ! j)"
proof -
  assume P: "map length P = replicate T h" and Q: "map length Q = replicate T h"
  have len: "length P = T" "length Q = T" using arg_cong [OF P, of length] arg_cong [OF Q, of length] by simp_all
  have row: "length (P ! t) = h" "length (Q ! t) = h" if "t < T" for t
    using arg_cong [OF P, of "\<lambda>ls. ls ! t"] arg_cong [OF Q, of "\<lambda>ls. ls ! t"] that len by simp_all
  have "map length (add_rows P Q) = replicate T h"
    by (rule nth_equalityI) (simp_all add: add_rows_def len row)
  then show ?thesis by (simp add: add_rows_def len row)
qed

lemma all_reduce_rows_add:
  assumes ne: "rs \<noteq> []" and A: "\<And>r. r \<in> set rs \<Longrightarrow> map length (A r) = replicate T h" and B: "\<And>r. r \<in> set rs \<Longrightarrow> map length (B r) = replicate T h"
  shows "all_reduce_rows (map (\<lambda>r. add_rows (A r) (B r)) rs) = add_rows (all_reduce_rows (map A rs)) (all_reduce_rows (map B rs))"
proof -
  have "all_reduce_rows (map (\<lambda>r. add_rows (A r) (B r)) rs)
      = map (\<lambda>t. map (\<lambda>j. sum_list (map (\<lambda>r. A r ! t ! j + B r ! t ! j) rs)) [0..<h]) [0..<T]"
    using add_rows_shape [OF A B] by (subst all_reduce_rows_eq [OF ne, of _ T h]) (simp_all cong: map_cong)
  moreover have "all_reduce_rows (map A rs) = map (\<lambda>t. map (\<lambda>j. sum_list (map (\<lambda>r. A r ! t ! j) rs)) [0..<h]) [0..<T]"
    "all_reduce_rows (map B rs) = map (\<lambda>t. map (\<lambda>j. sum_list (map (\<lambda>r. B r ! t ! j) rs)) [0..<h]) [0..<T]"
    using A B by (simp_all add: all_reduce_rows_eq [OF ne])
  ultimately show ?thesis
    by (simp add: add_rows_def zip_map_map zip_same_conv_map sum_list_addf comp_def)
qed

text \<open>The shared experts: the parts of the ranks add up to the whole, and one rank alone has the whole.\<close>

lemma shared_rank:
  assumes "r < q" "length gate = q * m" "length up = q * m"
  shows "mlp_forward_rank silu r q (slice (r * m) (r * m + m) gate @ slice (r * m) (r * m + m) up) (map (slice (r * m) (r * m + m)) down) x
    = Inr (f_linear (map (slice (r * m) (r * m + m)) down) (slice (r * m) (r * m + m) (map2 (\<lambda>g u. silu g * u) (f_linear gate x) (f_linear up x))))"
  using silu_and_mul_rank [OF assms(2,3,1), of silu x]
  by (simp add: mlp_forward_rank_def row_forward_rank_def column_forward_rank_def add_bias_def)

lemma shared_reduced:
  assumes q: "0 < q" "length gate = q * m" "length up = q * m" and d: "map length down = replicate h (q * m)"
  shows "all_reduce_rows (map (\<lambda>r. map (\<lambda>x. f_linear (map (slice (r * m) (r * m + m)) down)
      (slice (r * m) (r * m + m) (map2 (\<lambda>g u. silu g * u) (f_linear gate x) (f_linear up x)))) xs) [0..<q]) = map (gated_mlp silu gate up down) xs"
proof -
  let ?part = "\<lambda>r x. f_linear (map (slice (r * m) (r * m + m)) down) (slice (r * m) (r * m + m) (map2 (\<lambda>g u. silu g * u) (f_linear gate x) (f_linear up x)))"
  have rows: "\<forall>row \<in> set down. length row = q * m"
    using d by (metis in_set_conv_nth in_set_replicate length_map nth_map nth_mem)
  have "all_reduce (map (\<lambda>r. ?part r x) [0..<q]) = gated_mlp silu gate up down x" for x
    unfolding gated_mlp_def by (rule row_parallel_sum [OF q(1) _ rows]) (use q in \<open>simp add: f_linear_def\<close>)
  moreover have "length (hd (map (\<lambda>r. map (?part r) xs) [0..<q])) = length xs" using q(1) by (simp add: hd_map)
  ultimately show ?thesis unfolding all_reduce_rows_def
    by (intro nth_equalityI) (simp_all add: comp_def)
qed

definition load_moe_block ::
    "'a::comm_ring_1 \<Rightarrow> nat \<Rightarrow> nat \<Rightarrow> nat \<Rightarrow> nat \<Rightarrow> nat \<Rightarrow> nat \<Rightarrow> 'a list list list \<Rightarrow> 'a list list list \<Rightarrow> 'a list list list
     \<Rightarrow> 'a list list \<Rightarrow> 'a list list \<Rightarrow> 'a list list \<Rightarrow> nat \<Rightarrow> ('a fused_moe \<times> 'a list list \<times> 'a list list) result" where
  "load_moe_block junk num_experts hidden intermediate shared_intermediate ep_size tp_size gates ups downs gate up down rank =
     result_bind (moe_rank junk num_experts hidden intermediate ep_size tp_size gates ups downs rank) (\<lambda>fm.
     result_bind (load_mlp_rank (if ep_size > 1 then 1 else tp_size) hidden shared_intermediate gate up down
         (if ep_size > 1 then 0 else tp_rank_of tp_size rank)) (\<lambda>w. Inr (fm, w)))"

lemma reduce_all: "length F = N \<Longrightarrow> 0 < N \<Longrightarrow> (if N > 1 then replicate N (all_reduce_rows F) else F) = replicate N (all_reduce_rows F)"
  by (cases F) (auto simp: all_reduce_rows_singleton)

lemma combine_slots_shape: "map length (combine_slots h k w slot) = replicate (length w) h"
  by (rule nth_equalityI) (simp_all add: combine_slots_def)

text \<open>What one rank contributes to the routed and to the shared output.\<close>

definition routed_part ::
    "('a::comm_ring_1 \<Rightarrow> 'a) \<Rightarrow> nat \<Rightarrow> nat \<Rightarrow> nat \<Rightarrow> (nat \<Rightarrow> nat) \<Rightarrow> nat \<Rightarrow> 'a list list list \<Rightarrow> 'a list list list \<Rightarrow> 'a list list list
     \<Rightarrow> 'a list list \<Rightarrow> 'a list list \<Rightarrow> int list list \<Rightarrow> nat \<Rightarrow> 'a list list" where
  "routed_part silu h k ep own m gates ups downs x w ids r = combine_slots h k w (\<lambda>t a.
     let e = nat (ids ! t ! a)
     in if own e = r mod ep then expert_forward silu (rank_w13 m (r div ep) gates ups e) (rank_w2 m (r div ep) downs e) (x ! t)
        else replicate h 0)"

definition shared_part :: "('a::comm_ring_1 \<Rightarrow> 'a) \<Rightarrow> nat \<Rightarrow> 'a list list \<Rightarrow> 'a list list \<Rightarrow> 'a list list \<Rightarrow> 'a list list \<Rightarrow> nat \<Rightarrow> 'a list list" where
  "shared_part silu m gate up down xs r = map (\<lambda>x. f_linear (map (slice (r * m) (r * m + m)) down)
      (slice (r * m) (r * m + m) (map2 (\<lambda>g u. silu g * u) (f_linear gate x) (f_linear up x)))) xs"

lemma load_moe_block_ok:
  assumes pos: "0 < ep" "0 < n" and ck: "experts_shape (ep * nl) h (n * m) gates ups downs"
    and q: "q = (if ep > 1 then 1 else ep * n)" and sh: "length gate = q * sm" "length up = q * sm" "length down = h"
  shows "\<exists>fm. (\<forall>r < ep * n. rank_ok (ep * nl) (\<lambda>e. e div nl) (r mod ep) m (r div ep) gates ups downs (fm r))
     \<and> result_map (load_moe_block junk (ep * nl) h (n * m) (q * sm) ep (ep * n) gates ups downs gate up down) [0..<ep * n]
       = Inr (map (\<lambda>r. let s = (if ep > 1 then 0 else r)
           in (fm r, slice (s * sm) (s * sm + sm) gate @ slice (s * sm) (s * sm + sm) up, map (slice (s * sm) (s * sm + sm)) down)) [0..<ep * n])"
proof -
  have "\<forall>r. \<exists>fm. r < ep * n \<longrightarrow> moe_rank junk (ep * nl) h (n * m) ep (ep * n) gates ups downs r = Inr fm
     \<and> rank_ok (ep * nl) (\<lambda>e. e div nl) (r mod ep) m (r div ep) gates ups downs fm"
    using moe_rank_ok [OF pos ck] by blast
  then obtain fm where fm: "\<And>r. r < ep * n \<Longrightarrow> moe_rank junk (ep * nl) h (n * m) ep (ep * n) gates ups downs r = Inr (fm r)"
      "\<And>r. r < ep * n \<Longrightarrow> rank_ok (ep * nl) (\<lambda>e. e div nl) (r mod ep) m (r div ep) gates ups downs (fm r)"
    by (metis (no_types, lifting))
  have load: "load_mlp_rank q h (q * sm) gate up down s
      = Inr (slice (s * sm) (s * sm + sm) gate @ slice (s * sm) (s * sm + sm) up, map (slice (s * sm) (s * sm + sm)) down)" if "s < q" for s
    by (rule load_mlp_rank_ok [OF that sh])
  have "tp_rank_of (ep * n) r = r" if "r < ep * n" for r using that pos by (simp add: tp_rank_of_def max_def)
  then have "result_map (load_moe_block junk (ep * nl) h (n * m) (q * sm) ep (ep * n) gates ups downs gate up down) [0..<ep * n]
       = Inr (map (\<lambda>r. let s = (if ep > 1 then 0 else r)
           in (fm r, slice (s * sm) (s * sm + sm) gate @ slice (s * sm) (s * sm + sm) up, map (slice (s * sm) (s * sm + sm)) down)) [0..<ep * n])"
    by (intro result_map_ok) (use fm(1) load [of 0] load q in \<open>simp add: load_moe_block_def Let_def\<close>)
  with fm(2) show ?thesis by blast
qed

lemma moe_block_parts:
  assumes fm: "\<forall>r < N. rank_ok ne own (r mod ep) m (r div ep) gates ups downs (fm r)" and srt: "sorter_ok sorter"
    and ids: "\<forall>row \<in> set topk_ids. length row = k" "\<forall>row \<in> set topk_ids. \<forall>e \<in> set row. 0 \<le> e \<and> e < int ne"
    and len: "length x = length topk_ids" "length topk_weights = length topk_ids"
    and q: "q = (if ep > 1 then 1 else N)" and sh: "length gate = q * sm" "length up = q * sm"
    and ranks: "ranks = map (\<lambda>r. let s = (if ep > 1 then 0 else r)
           in (fm r, slice (s * sm) (s * sm + sm) gate @ slice (s * sm) (s * sm + sm) up, map (slice (s * sm) (s * sm + sm)) down)) [0..<N]"
  shows "moe_block_forward silu sorter h k ep num_shared ranks x topk_weights topk_ids
    = (let router = map (routed_part silu h k ep own m gates ups downs x topk_weights topk_ids) [0..<N];
           shared = map (\<lambda>r. shared_part silu sm gate up down x (if ep > 1 then 0 else r)) [0..<N]
       in Inr (if ep > 1
           then let final = (if N > 1 then replicate N (all_reduce_rows router) else router)
                in if num_shared > 0 then map2 add_rows final shared else final
           else let final = (if num_shared > 0 then map2 add_rows router shared else router)
                in if N > 1 then replicate N (all_reduce_rows final) else final))"
proof -
  have router: "result_map (\<lambda>(fm, gate_up, down). fused_moe_forward silu sorter h k fm x topk_weights topk_ids) ranks
      = Inr (map (routed_part silu h k ep own m gates ups downs x topk_weights topk_ids) [0..<N])"
    unfolding ranks result_map_map
    by (rule result_map_ok) (use fm fused_moe_forward_slots [OF _ srt ids(1) len ids(2)] in \<open>simp add: routed_part_def Let_def\<close>)
  have rank: "mlp_forward_rank silu s q (slice (s * sm) (s * sm + sm) gate @ slice (s * sm) (s * sm + sm) up) (map (slice (s * sm) (s * sm + sm)) down) y
      = Inr (f_linear (map (slice (s * sm) (s * sm + sm)) down) (slice (s * sm) (s * sm + sm) (map2 (\<lambda>g u. silu g * u) (f_linear gate y) (f_linear up y))))"
    if "s < q" for s y by (rule shared_rank [OF that sh])
  have sp: "result_map (mlp_forward_rank silu s q (slice (s * sm) (s * sm + sm) gate @ slice (s * sm) (s * sm + sm) up) (map (slice (s * sm) (s * sm + sm)) down)) x
      = Inr (shared_part silu sm gate up down x s)" if "s < q" for s
    unfolding shared_part_def by (rule result_map_ok) (rule rank [OF that])
  have shared: "result_map (\<lambda>(r, fm, gate_up, down).
          result_map (mlp_forward_rank silu (if ep > 1 then 0 else r) (if ep > 1 then 1 else length ranks) gate_up down) x) (enumerate 0 ranks)
      = Inr (map (\<lambda>r. shared_part silu sm gate up down x (if ep > 1 then 0 else r)) [0..<N])"
    unfolding ranks enumerate_map_upt result_map_map
    by (rule result_map_ok) (use sp [of 0] sp q in \<open>auto simp: Let_def\<close>)
  have "length ranks = N" by (simp add: ranks)
  then show ?thesis unfolding moe_block_forward_def Let_def router shared result_bind_def sum.case by simp
qed

text \<open>The block on ranks that hold their shards, for any assignment of the experts to the expert ranks.\<close>

lemma moe_block_reduced:
  fixes gates ups downs :: "'a::comm_ring_1 list list list"
  assumes pos: "0 < ep" "0 < n" and ck: "experts_shape ne h (n * m) gates ups downs" and own: "\<And>e. e < ne \<Longrightarrow> own e < ep"
    and fm: "\<forall>r < ep * n. rank_ok ne own (r mod ep) m (r div ep) gates ups downs (fm r)" and srt: "sorter_ok sorter"
    and ids: "\<forall>row \<in> set topk_ids. length row = k" "\<forall>row \<in> set topk_ids. \<forall>e \<in> set row. 0 \<le> e \<and> e < int ne"
    and len: "length x = length topk_ids" "length topk_weights = length topk_ids"
    and q: "q = (if ep > 1 then 1 else ep * n)" and sh: "length gate = q * sm" "length up = q * sm" "map length down = replicate h (q * sm)"
    and ranks: "ranks = map (\<lambda>r. let s = (if ep > 1 then 0 else r)
           in (fm r, slice (s * sm) (s * sm + sm) gate @ slice (s * sm) (s * sm + sm) up, map (slice (s * sm) (s * sm + sm)) down)) [0..<ep * n]"
  shows "moe_block_forward silu sorter h k ep num_shared ranks x topk_weights topk_ids
      = Inr (replicate (ep * n)
          (let routed = combine_slots h k topk_weights (\<lambda>t a.
                 let e = nat (topk_ids ! t ! a) in gated_mlp silu (gates ! e) (ups ! e) (downs ! e) (x ! t))
           in if num_shared > 0 then add_rows routed (map (gated_mlp silu gate up down) x) else routed))"
proof -
  let ?N = "ep * n" and ?R = "routed_part silu h k ep own m gates ups downs x topk_weights topk_ids"
    and ?S = "shared_part silu sm gate up down x"
  let ?routed = "combine_slots h k topk_weights (\<lambda>t a. let e = nat (topk_ids ! t ! a) in gated_mlp silu (gates ! e) (ups ! e) (downs ! e) (x ! t))"
  let ?shared = "map (gated_mlp silu gate up down) x"
  have down: "length down = h" using arg_cong [OF sh(3), of length] by simp
  have N: "0 < ?N" "[0..<?N] \<noteq> []" using pos by simp_all
  have routed: "all_reduce_rows (map ?R [0..<?N]) = ?routed"
    unfolding routed_part_def by (rule routed_reduced [OF pos ck own ids len(2)])
  have "0 < q" using q N by simp
  then have shared: "all_reduce_rows (map ?S [0..<q]) = ?shared"
    unfolding shared_part_def by (rule shared_reduced [OF _ sh])
  note forward = moe_block_parts [OF fm srt ids len q sh(1,2) ranks, of silu h num_shared]
  show ?thesis
  proof (cases "ep > 1")
    case True
    then have "?S 0 = ?shared" using shared q by (simp add: all_reduce_rows_singleton)
    then have "map2 add_rows (replicate ?N ?routed) (map (\<lambda>r. ?S 0) [0..<?N]) = replicate ?N (add_rows ?routed ?shared)"
      by (simp add: map_replicate_const zip_replicate)
    then show ?thesis
      using forward True reduce_all [of "map ?R [0..<?N]", OF _ N(1)] routed by (simp add: Let_def)
  next
    case False
    then have ep1: "q = ?N" "ep = 1" using q pos by auto
    have "map length (?R r) = replicate (length topk_ids) h" for r
      using combine_slots_shape [of h k topk_weights] len by (simp add: routed_part_def)
    moreover have "map length (?S r) = replicate (length topk_ids) h" for r
      using len down by (simp add: shared_part_def comp_def f_linear_def map_replicate_const)
    ultimately have both: "all_reduce_rows (map (\<lambda>r. add_rows (?R r) (?S r)) [0..<?N]) = add_rows ?routed ?shared"
      using all_reduce_rows_add [OF N(2), of ?R "length topk_ids" h ?S] routed shared ep1(1) by simp
    have m2: "map2 add_rows (map ?R [0..<?N]) (map ?S [0..<?N]) = map (\<lambda>r. add_rows (?R r) (?S r)) [0..<?N]"
      by (simp add: zip_map_map zip_same_conv_map)
    define final where "final = (if num_shared > 0 then map (\<lambda>r. add_rows (?R r) (?S r)) [0..<?N] else map ?R [0..<?N])"
    have sum: "all_reduce_rows final = (if num_shared > 0 then add_rows ?routed ?shared else ?routed)"
      by (cases "num_shared > 0") (simp_all only: final_def if_True if_False routed both)
    have "length final = ?N" by (simp add: final_def)
    moreover have "moe_block_forward silu sorter h k ep num_shared ranks x topk_weights topk_ids
        = Inr (if ?N > 1 then replicate ?N (all_reduce_rows final) else final)"
      unfolding forward Let_def final_def using False by (simp only: if_False m2)
    ultimately have "moe_block_forward silu sorter h k ep num_shared ranks x topk_weights topk_ids = Inr (replicate ?N (all_reduce_rows final))"
      by (simp only: reduce_all [OF _ N(1)])
    then show ?thesis unfolding sum Let_def .
  qed
qed

text \<open>
  The expert-parallel and tensor-parallel MoE block computes the MoE block: when the number of
  experts and their width divide by the sizes of the expert and tensor groups, every rank builds its
  layer and loads its shards of its experts and of the shared experts without an error, and the output
  of every rank after the reduction is, for each token, the sum over its slots of the weight times the
  output of the whole expert, plus the output of the whole shared experts, each counted once.
\<close>

lemma moe_block_exact:
  fixes gates ups downs :: "'a::comm_ring_1 list list list"
  assumes pos: "0 < ep" "0 < n" and ck: "experts_shape (ep * nl) h (n * m) gates ups downs" and srt: "sorter_ok sorter"
    and ids: "\<forall>row \<in> set topk_ids. length row = k" "\<forall>row \<in> set topk_ids. \<forall>e \<in> set row. 0 \<le> e \<and> e < int (ep * nl)"
    and len: "length x = length topk_ids" "length topk_weights = length topk_ids"
    and q: "q = (if ep > 1 then 1 else ep * n)" and sh: "length gate = q * sm" "length up = q * sm" "map length down = replicate h (q * sm)"
  shows "\<exists>ranks. result_map (load_moe_block junk (ep * nl) h (n * m) (q * sm) ep (ep * n) gates ups downs gate up down) [0..<ep * n] = Inr ranks
    \<and> moe_block_forward silu sorter h k ep num_shared ranks x topk_weights topk_ids
      = Inr (replicate (ep * n)
          (let routed = combine_slots h k topk_weights (\<lambda>t a.
                 let e = nat (topk_ids ! t ! a) in gated_mlp silu (gates ! e) (ups ! e) (downs ! e) (x ! t))
           in if num_shared > 0 then add_rows routed (map (gated_mlp silu gate up down) x) else routed))"
proof -
  have down: "length down = h" using arg_cong [OF sh(3), of length] by simp
  obtain fm ranks where fm: "\<forall>r < ep * n. rank_ok (ep * nl) (\<lambda>e. e div nl) (r mod ep) m (r div ep) gates ups downs (fm r)"
      and ranks: "ranks = map (\<lambda>r. let s = (if ep > 1 then 0 else r)
           in (fm r, slice (s * sm) (s * sm + sm) gate @ slice (s * sm) (s * sm + sm) up, map (slice (s * sm) (s * sm + sm)) down)) [0..<ep * n]"
      and load: "result_map (load_moe_block junk (ep * nl) h (n * m) (q * sm) ep (ep * n) gates ups downs gate up down) [0..<ep * n] = Inr ranks"
    using load_moe_block_ok [OF pos ck q sh(1,2) down, of junk] by blast
  have "e div nl < ep" if "e < ep * nl" for e using that by (simp add: less_mult_imp_div_less)
  from moe_block_reduced [OF pos ck this fm srt ids len q sh ranks, of silu num_shared] load show ?thesis by (intro exI [of _ ranks]) simp
qed

lemma moe_block_exact_witness:
  "\<exists>ranks. result_map (load_moe_block 0 2 1 1 1 2 2 [[[1]], [[3]]] [[[2]], [[4]]] [[[5]], [[6]]] [[1]] [[2]] [[3 :: int]]) [0..<2] = Inr ranks
    \<and> moe_block_forward (\<lambda>x. x) ex_sorter 1 2 2 1 ranks [[7]] [[10, 1]] [[1, 0]]
      = Inr (replicate 2 [[6 * (21 * 28) * 10 + 5 * (7 * 14) + 3 * (7 * 14)]])"
  using moe_block_exact [of 2 1 1 1 1 "[[[1]], [[3 :: int]]]" "[[[2]], [[4]]]" "[[[5]], [[6]]]" ex_sorter "[[1, 0]]" 2 "[[7]]" "[[10, 1]]" 1
      "[[1]]" 1 "[[2]]" "[[3]]" 0 "\<lambda>x. x" 1] ex_sorter_ok
  by (simp add: experts_shape_def combine_slots_def gated_mlp_def f_linear_def dot_def add_rows_def eval_nat_numeral)

end
