(* ===== verification/Moe_Loading.thy ===== *)
theory Moe_Loading
  imports Moe
begin

text \<open>
  How the LLaDA checkpoint loader places the experts (model_loader/loader.py, model_loader/weight_utils.py
  and \<open>apply_state_dicts\<close> of models/llada2.py): a map assigns every expert to an expert rank, from a file or
  in equal consecutive parts; each rank stacks its experts, splits them over the tensor ranks and replaces
  the parameters and the expert map of the layer.  One layer at a time; the matrices of an expert are its
  entries in the lists of the checkpoint.
\<close>

section \<open>Expert mappings\<close>

definition expert_map_of :: "nat list option \<Rightarrow> nat \<Rightarrow> nat \<Rightarrow> nat list" where
  "expert_map_of file_map num_experts ep_size =
     (case file_map of Some m \<Rightarrow> m | None \<Rightarrow> map (\<lambda>e. e div (num_experts div ep_size)) [0..<num_experts])"

text \<open>A mask of another length than the tensor it selects from is an error.\<close>

definition load_expert_mappings :: "nat list option \<Rightarrow> nat \<Rightarrow> nat \<Rightarrow> nat \<Rightarrow> (nat list \<times> int list) result" where
  "load_expert_mappings file_map num_experts ep_rank ep_size =
     (let expert_map = expert_map_of file_map num_experts ep_size;
          mapping = filter (\<lambda>e. expert_map ! e = ep_rank) [0..<num_experts]
      in if length expert_map \<noteq> num_experts then Inl IndexError
         else Inr (mapping, scatter (replicate num_experts (- 1)) mapping (map int [0..<length mapping])))"

section \<open>Splits\<close>

definition tp_split_w13 :: "nat \<Rightarrow> nat \<Rightarrow> 'a list list list \<Rightarrow> 'a list list list" where
  "tp_split_w13 rank world tensor =
     (if world = 1 then tensor
      else map (\<lambda>rows. let shard_size = length rows div 2; sz = shard_size div world
          in slice (rank * sz) (rank * sz + sz) rows @ slice (shard_size + rank * sz) (shard_size + rank * sz + sz) rows) tensor)"

definition tp_split_w2 :: "nat \<Rightarrow> nat \<Rightarrow> 'a list list list \<Rightarrow> 'a list list list" where
  "tp_split_w2 rank world tensor =
     (if world = 1 then tensor
      else map (map (\<lambda>row. let sz = length row div world in slice (rank * sz) (rank * sz + sz) row)) tensor)"

text \<open>
  \<open>apply_state_dicts\<close>: a value of another shape is cut along its first mismatching dimension, at the
  position of the tensor rank; three and two dimensions.
\<close>

definition apply_param3 :: "nat \<Rightarrow> 'a list list list \<Rightarrow> 'a list list list \<Rightarrow> 'a list list list" where
  "apply_param3 tp_rank param value =
     (if map (map length) value = map (map length) param then value
      else if length value \<noteq> length param
      then let part_size = length param in slice (tp_rank * part_size) ((tp_rank + 1) * part_size) value
      else let part_size = (if param = [] then 0 else length (hd param))
           in map (slice (tp_rank * part_size) ((tp_rank + 1) * part_size)) value)"

definition apply_param2 :: "nat \<Rightarrow> 'a list list \<Rightarrow> 'a list list \<Rightarrow> 'a list list" where
  "apply_param2 tp_rank param value =
     (if map length value = map length param then value
      else if length value \<noteq> length param
      then let part_size = length param in slice (tp_rank * part_size) ((tp_rank + 1) * part_size) value
      else let part_size = (if param = [] then 0 else length (hd param))
           in map (slice (tp_rank * part_size) ((tp_rank + 1) * part_size)) value)"

text \<open>The fused query, key and value weight is cut by the sizes of the configuration.\<close>

definition apply_qkv :: "nat \<Rightarrow> nat \<Rightarrow> nat \<Rightarrow> nat \<Rightarrow> nat \<Rightarrow> 'b tensor \<Rightarrow> 'b tensor \<Rightarrow> 'b tensor result" where
  "apply_qkv attn_tp_rank attn_tp_size hidden_size total_num_heads total_kv_heads param value =
     (let rows = tn_rows value; q_dim = hidden_size; q_part = q_dim div attn_tp_size;
          q_weight = slice (attn_tp_rank * q_part) ((attn_tp_rank + 1) * q_part) rows;
          kv_dim = hidden_size * total_kv_heads div total_num_heads;
          kv_part = (if attn_tp_size > total_kv_heads then kv_dim div total_kv_heads else kv_dim div attn_tp_size);
          kv_rank = (if attn_tp_size > total_kv_heads then attn_tp_rank div (attn_tp_size div total_kv_heads) else attn_tp_rank);
          k_weight = slice (q_dim + kv_rank * kv_part) (q_dim + (kv_rank + 1) * kv_part) rows;
          v_weight = slice (q_dim + kv_dim + kv_rank * kv_part) (q_dim + kv_dim + (kv_rank + 1) * kv_part) rows;
          weight = q_weight @ k_weight @ v_weight
      in if length rows = length (tn_rows param) \<and> tn_rest value = tn_rest param then Inr value
         else if length weight = length (tn_rows param) \<and> tn_rest value = tn_rest param then Inr (value\<lparr>tn_rows := weight\<rparr>)
         else Inl AssertionError)"

section \<open>The loader of one layer\<close>

text \<open>Only the experts of the rank are read from the checkpoint: without any, the layer is left as it is.\<close>

definition update_experts ::
    "nat list option \<Rightarrow> nat \<Rightarrow> nat \<Rightarrow> 'a list list list \<Rightarrow> 'a list list list \<Rightarrow> 'a list list list \<Rightarrow> nat \<Rightarrow> 'a fused_moe \<Rightarrow> 'a fused_moe result" where
  "update_experts file_map ep_size tp_size gates ups downs rank fm =
     (let tp_rank = tp_rank_of tp_size rank;
          moe_tp_size = moe_tensor_parallel_world_size tp_size ep_size;
          moe_tp_rank = moe_tensor_parallel_rank tp_size ep_size tp_rank
      in result_bind (load_expert_mappings file_map (length gates) (ep_rank_of ep_size rank) ep_size) (\<lambda>(mapping, inv_map).
         if mapping = [] then Inr fm
         else Inr (fm\<lparr>fm_w13 := apply_param3 tp_rank (fm_w13 fm) (tp_split_w13 moe_tp_rank moe_tp_size (map (\<lambda>e. gates ! e @ ups ! e) mapping)),
                      fm_w2 := apply_param3 tp_rank (fm_w2 fm) (tp_split_w2 moe_tp_rank moe_tp_size (map (\<lambda>e. downs ! e) mapping)),
                      fm_expert_map := Some inv_map\<rparr>)))"

text \<open>The shared experts: \<open>param\<close> is the down projection the layer was built with.\<close>

definition shared_weights :: "nat \<Rightarrow> nat \<Rightarrow> nat \<Rightarrow> 'a list list \<Rightarrow> 'a list list \<Rightarrow> 'a list list \<Rightarrow> 'a list list \<Rightarrow> 'a list list \<times> 'a list list" where
  "shared_weights shared_size shared_rank tp_rank param gate up down =
     (let part_size = length gate div shared_size; part_start = shared_rank * part_size; part_end = part_start + part_size
      in (slice part_start part_end gate @ slice part_start part_end up, apply_param2 tp_rank param down))"

definition load_llada_block ::
    "'a::comm_ring_1 \<Rightarrow> nat list option \<Rightarrow> nat \<Rightarrow> nat \<Rightarrow> nat \<Rightarrow> nat \<Rightarrow> nat \<Rightarrow> 'a list list list \<Rightarrow> 'a list list list \<Rightarrow> 'a list list list
     \<Rightarrow> 'a list list \<Rightarrow> 'a list list \<Rightarrow> 'a list list \<Rightarrow> nat \<Rightarrow> ('a fused_moe \<times> 'a list list \<times> 'a list list) result" where
  "load_llada_block junk file_map hidden intermediate shared_intermediate ep_size tp_size gates ups downs gate up down rank =
     (let tp_rank = tp_rank_of tp_size rank; shared_size = (if ep_size > 1 then 1 else tp_size); shared_rank = (if ep_size > 1 then 0 else tp_rank)
      in result_bind (fused_moe_init junk (length gates) hidden intermediate ep_size (ep_rank_of ep_size rank)
           (moe_tensor_parallel_world_size tp_size ep_size) (moe_tensor_parallel_rank tp_size ep_size tp_rank)) (\<lambda>fm.
         result_bind (update_experts file_map ep_size tp_size gates ups downs rank fm) (\<lambda>fm.
         Inr (fm, shared_weights shared_size shared_rank tp_rank (replicate hidden (replicate (shared_intermediate div shared_size) junk)) gate up down))))"

section \<open>What a rank gets\<close>

text \<open>The inverse map sends each expert of the rank to its position and all others to \<open>-1\<close>.\<close>

lemma expert_mappings_exact:
  assumes "load_expert_mappings file_map ne er ep = Inr (mapping, inv_map)"
  shows "distinct mapping" "set mapping = {e. e < ne \<and> expert_map_of file_map ne ep ! e = er}" "length inv_map = ne"
    "p < length mapping \<Longrightarrow> inv_map ! (mapping ! p) = int p" "e < ne \<Longrightarrow> e \<notin> set mapping \<Longrightarrow> inv_map ! e = - 1"
proof -
  have m: "mapping = filter (\<lambda>e. expert_map_of file_map ne ep ! e = er) [0..<ne]"
    and i: "inv_map = scatter (replicate ne (- 1)) mapping (map int [0..<length mapping])"
    using assms by (auto simp: load_expert_mappings_def Let_def split: if_splits)
  show d: "distinct mapping" and s: "set mapping = {e. e < ne \<and> expert_map_of file_map ne ep ! e = er}" by (auto simp: m)
  show "length inv_map = ne" by (simp add: i)
  show "inv_map ! (mapping ! p) = int p" if p: "p < length mapping"
  proof -
    have "mapping ! p < ne" using s nth_mem [OF p] by auto
    then have "inv_map ! (mapping ! p) = map int [0..<length mapping] ! p"
      unfolding i by (intro nth_scatter_unique) (use p d in \<open>auto simp: nth_eq_iff_index_eq\<close>)
    then show ?thesis using p by simp
  qed
  show "inv_map ! e = - 1" if "e < ne" "e \<notin> set mapping"
    unfolding i using that nth_mem by (subst nth_scatter_other) auto
qed

lemma split_w13_rank:
  assumes r: "r < n" and g: "length g = n * m" "length u = n * m"
  shows "tp_split_w13 r n [g @ u] = [slice (r * m) (r * m + m) g @ slice (r * m) (r * m + m) u]"
proof (cases "n = 1")
  case True
  then show ?thesis using r g by (simp add: tp_split_w13_def slice_def)
next
  case False
  have le: "r * m + m \<le> n * m" using r by (metis Suc_leI add.commute mult_Suc mult_le_mono1)
  have "n * m div n = m" using r by simp
  moreover have "slice (n * m + r * m) (n * m + r * m + m) (g @ u) = slice (r * m) (r * m + m) u"
    using slice_append_right [of g "r * m" "r * m + m" u] g by (simp add: add.assoc)
  ultimately show ?thesis using False g le slice_append_left [of "r * m + m" g "r * m" u]
    by (simp add: tp_split_w13_def Let_def mult_2 [symmetric])
qed

lemma tp_split_map:
  "tp_split_w13 r n (map f xs) = map (\<lambda>e. hd (tp_split_w13 r n [f e])) xs"
  "tp_split_w2 r n (map f xs) = map (\<lambda>e. hd (tp_split_w2 r n [f e])) xs"
  by (simp_all add: tp_split_w13_def tp_split_w2_def Let_def)

lemma split_w2_rank:
  assumes r: "r < n" and d: "\<forall>row \<in> set d. length row = n * m"
  shows "tp_split_w2 r n [d] = [map (slice (r * m) (r * m + m)) d]"
proof (cases "n = 1")
  case True
  then have "map (slice (r * m) (r * m + m)) d = d" using r d by (auto intro!: map_idI simp: slice_def)
  then show ?thesis using True by (simp add: tp_split_w2_def)
next
  case False
  then show ?thesis using r d by (auto simp: tp_split_w2_def Let_def)
qed

lemma rank_shards:
  assumes r: "r < n" and ck: "experts_shape ne h (n * m) gates ups downs" and xs: "set xs \<subseteq> {..<ne}"
  shows "tp_split_w13 r n (map (\<lambda>e. gates ! e @ ups ! e) xs) = map (rank_w13 m r gates ups) xs"
    "tp_split_w2 r n (map (\<lambda>e. downs ! e) xs) = map (rank_w2 m r downs) xs"
proof -
  have g: "map length (gates ! e) = replicate (n * m) h" "map length (ups ! e) = replicate (n * m) h" "map length (downs ! e) = replicate h (n * m)"
    if "e \<in> set xs" for e
    using ck xs that by (auto simp: experts_shape_def)
  have len: "length (gates ! e) = n * m" "length (ups ! e) = n * m" "\<forall>row \<in> set (downs ! e). length row = n * m" if "e \<in> set xs" for e
    using g [OF that] by (metis length_map length_replicate, metis length_map length_replicate,
        metis in_set_conv_nth in_set_replicate length_map nth_map nth_mem)
  show "tp_split_w13 r n (map (\<lambda>e. gates ! e @ ups ! e) xs) = map (rank_w13 m r gates ups) xs"
    unfolding tp_split_map(1) by (rule map_cong [OF refl]) (simp add: split_w13_rank [OF r len(1,2)] rank_w13_def)
  show "tp_split_w2 r n (map (\<lambda>e. downs ! e) xs) = map (rank_w2 m r downs) xs"
    unfolding tp_split_map(2) by (rule map_cong [OF refl]) (simp add: split_w2_rank [OF r len(3)] rank_w2_def)
qed

lemma rank_weights_fit:
  assumes r: "r < n" and ck: "experts_shape ne h (n * m) gates ups downs" and sub: "set xs \<subseteq> {..<ne}"
    and fm: "fm_shape fm (length xs) m h"
  shows "map (map length) (map (rank_w13 m r gates ups) xs) = map (map length) (fm_w13 fm)"
    "map (map length) (map (rank_w2 m r downs) xs) = map (map length) (fm_w2 fm)"
proof -
  have x: "xs ! i < ne" if "i < length xs" for i using sub nth_mem [OF that] by auto
  show "map (map length) (map (rank_w13 m r gates ups) xs) = map (map length) (fm_w13 fm)"
    using fm by (intro nth_equalityI) (simp_all add: fm_shape_def rank_weights_shape [OF r ck x])
  show "map (map length) (map (rank_w2 m r downs) xs) = map (map length) (fm_w2 fm)"
    using fm by (intro nth_equalityI) (simp_all add: fm_shape_def rank_weights_shape [OF r ck x])
qed

text \<open>A rank whose share of the experts has the size of its parameters holds their shards.\<close>

lemma update_experts_ok:
  assumes pos: "0 < ep" "0 < n" "0 < nl" and ck: "experts_shape (ep * nl) h (n * m) gates ups downs" and rank: "rank < ep * n"
    and em: "expert_map_of file_map (ep * nl) ep = em" "length em = ep * nl" "length (filter (\<lambda>e. em ! e = rank mod ep) [0..<ep * nl]) = nl"
    and own: "\<And>e. e < ep * nl \<Longrightarrow> em ! e < ep"
    and fm: "fm_shape fm nl m h" "fm_ep_size fm = ep"
  shows "\<exists>fm'. update_experts file_map ep (ep * n) gates ups downs rank fm = Inr fm'
    \<and> rank_ok (ep * nl) (\<lambda>e. em ! e) (rank mod ep) m (rank div ep) gates ups downs fm'"
proof -
  let ?er = "rank mod ep" and ?r = "rank div ep" and ?ne = "ep * nl"
  obtain mapping inv_map where me: "load_expert_mappings file_map ?ne ?er ep = Inr (mapping, inv_map)"
    and mapping: "mapping = filter (\<lambda>e. em ! e = ?er) [0..<?ne]"
    using em by (auto simp: load_expert_mappings_def Let_def)
  note ex = expert_mappings_exact [OF me, unfolded em(1)]
  have ml: "length mapping = nl" using em(3) mapping by simp
  have tr: "?r < n" using rank pos(1) by (simp add: less_mult_imp_div_less mult.commute)
  have lg: "length gates = ?ne" using ck by (simp add: experts_shape_def)
  have sub: "set mapping \<subseteq> {..<?ne}" using ex(2) by auto
  let ?fm = "fm\<lparr>fm_w13 := map (rank_w13 m ?r gates ups) mapping, fm_w2 := map (rank_w2 m ?r downs) mapping, fm_expert_map := Some inv_map\<rparr>"
  have upd: "update_experts file_map ep (ep * n) gates ups downs rank fm = Inr ?fm"
    using ml pos(3) me rank_weights_fit [OF tr ck sub, of fm] fm(1)
    by (auto simp: update_experts_def lg moe_group_ranks [OF pos(1,2) rank] Let_def apply_param3_def rank_shards [OF tr ck sub])
  have one: "mapping = [0..<?ne]" if "ep = 1" using own that by (auto simp: mapping filter_id_conv)
  have "rank_ok ?ne (\<lambda>e. em ! e) ?er m ?r gates ups downs ?fm"
    unfolding rank_ok_def
  proof (intro allI impI)
    fix e assume e: "e < ?ne"
    have fwd: "map_forward_id ?fm (int e) = (if ep > 1 then Inr (inv_map ! e) else Inr (int e))"
      using tensor_get_ok [of "int e" inv_map] e ex(3) by (simp add: map_forward_id_def forward_map_def fm(2) del: of_nat_mult)
    show "\<exists>p. map_forward_id ?fm (int e) = Inr (if em ! e = ?er then int p else - 1)
       \<and> (em ! e = ?er \<longrightarrow> p < length (fm_w13 ?fm) \<and> fm_w13 ?fm ! p = rank_w13 m ?r gates ups e \<and> fm_w2 ?fm ! p = rank_w2 m ?r downs e)"
    proof (cases "em ! e = ?er")
      case True
      then have "e \<in> set mapping" using ex(2) e by simp
      then obtain p where p: "p < length mapping" "mapping ! p = e" by (auto simp: in_set_conv_nth)
      have "p = e" if "\<not> ep > 1" using one p that pos(1) by (cases "ep = 1") auto
      then have "map_forward_id ?fm (int e) = Inr (int p)" using fwd p ex(4) [OF p(1)] by auto
      then show ?thesis using True p by (intro exI [of _ p]) simp
    next
      case False
      then have "ep > 1" using own [OF e] pos(1) by (cases "ep = 1") auto
      then show ?thesis using False fwd ex(2,5) e by simp
    qed
  qed
  with upd show ?thesis by blast
qed

lemma apply_down_rank:
  assumes r: "r < q" and d: "map length down = replicate h (q * sm)"
  shows "apply_param2 r (replicate h (replicate sm junk)) down = map (slice (r * sm) (r * sm + sm)) down"
proof (cases "q * sm = sm \<or> h = 0")
  case True
  have rows: "length row = q * sm" if "row \<in> set down" for row
    using that d by (metis in_set_conv_nth in_set_replicate length_map nth_map nth_mem)
  have "slice (r * sm) (r * sm + sm) row = row" if "row \<in> set down" for row
    using True rows [OF that] that d r by (cases "sm = 0") (auto simp: slice_def)
  then have "map (slice (r * sm) (r * sm + sm)) down = down" by (simp add: map_idI)
  moreover have "map length down = map length (replicate h (replicate sm junk))" using True d by (auto simp: map_replicate)
  ultimately show ?thesis by (simp add: apply_param2_def)
next
  case False
  then have "map length down \<noteq> map length (replicate h (replicate sm junk))"
    using d by (simp add: map_replicate replicate_eq_replicate)
  moreover have "length down = h" using arg_cong [OF d, of length] by simp
  ultimately show ?thesis using False by (simp add: apply_param2_def Let_def add.commute)
qed

lemma load_llada_block_ok:
  assumes pos: "0 < ep" "0 < n" "0 < nl" and ck: "experts_shape (ep * nl) h (n * m) gates ups downs"
    and em: "expert_map_of file_map (ep * nl) ep = em" "length em = ep * nl" "\<And>e. e < ep * nl \<Longrightarrow> em ! e < ep"
      "\<And>er. er < ep \<Longrightarrow> length (filter (\<lambda>e. em ! e = er) [0..<ep * nl]) = nl"
    and q: "q = (if ep > 1 then 1 else ep * n)" and sh: "length gate = q * sm" "length up = q * sm" "map length down = replicate h (q * sm)"
    and rank: "rank < ep * n" and s: "s = (if ep > 1 then 0 else rank)"
  shows "\<exists>fm. rank_ok (ep * nl) (\<lambda>e. em ! e) (rank mod ep) m (rank div ep) gates ups downs fm
     \<and> load_llada_block junk file_map h (n * m) (q * sm) ep (ep * n) gates ups downs gate up down rank
       = Inr (fm, slice (s * sm) (s * sm + sm) gate @ slice (s * sm) (s * sm + sm) up, map (slice (s * sm) (s * sm + sm)) down)"
proof -
  have er: "rank mod ep < ep" using pos by simp
  have lg: "length gates = ep * nl" using ck by (simp add: experts_shape_def)
  note ranks = moe_group_ranks [OF pos(1,2) rank]
  obtain fm where init: "fused_moe_init junk (ep * nl) h (n * m) ep (rank mod ep) n (rank div ep) = Inr fm" and fm: "fm_shape fm nl m h"
    using fused_moe_init_ok [OF er pos(2), of junk nl h m "rank div ep"] by blast
  have ep: "fm_ep_size fm = ep" using init by (auto simp: fused_moe_init_def Let_def split: if_splits)
  obtain fm' where upd: "update_experts file_map ep (ep * n) gates ups downs rank fm = Inr fm'"
      "rank_ok (ep * nl) (\<lambda>e. em ! e) (rank mod ep) m (rank div ep) gates ups downs fm'"
    using update_experts_ok [OF pos ck rank em(1,2) em(4) [OF er] em(3) fm ep] by blast
  have sq: "s < q" "0 < q" using s q rank pos by auto
  have down: "apply_param2 rank (replicate h (replicate sm junk)) down = map (slice (s * sm) (s * sm + sm)) down"
  proof (cases "ep > 1")
    case False
    then show ?thesis using apply_down_rank [OF sq(1) sh(3)] s by simp
  next
    case True
    then have "map length down = map length (replicate h (replicate sm junk))" using sh(3) q by (simp add: map_replicate)
    then have "apply_param2 rank (replicate h (replicate sm junk)) down = apply_param2 0 (replicate h (replicate sm junk)) down"
      by (simp add: apply_param2_def)
    then show ?thesis using apply_down_rank [OF sq(1) sh(3)] s True by simp
  qed
  have "load_llada_block junk file_map h (n * m) (q * sm) ep (ep * n) gates ups downs gate up down rank
      = Inr (fm', shared_weights q s rank (replicate h (replicate sm junk)) gate up down)"
    using init upd(1) s q sq(2) by (simp add: load_llada_block_def lg ranks Let_def)
  then show ?thesis using upd(2) sq(2) sh(1) down by (auto simp: shared_weights_def Let_def)
qed



text \<open>
  A placement that is not balanced is not an error: the tensor of a rank with more experts than its
  parameters is cut along the experts, at the position of its tensor rank, while the expert map keeps
  the positions of the uncut tensor.
\<close>

lemma unbalanced_map_cut:
  "load_llada_block 0 (Some [0, 0, 0, 1]) 1 1 1 2 2 [[[1]], [[2]], [[3]], [[4]]] [[[1]], [[2]], [[3]], [[4]]] [[[1]], [[2]], [[3]], [[4]]] [[1]] [[1]] [[1 :: int]] 0
   = Inr (\<lparr> fm_num_experts = 4, fm_ep_size = 2, fm_tp_rank = 0, fm_num_local = 2, fm_intermediate = 1, fm_expert_map = Some [0, 1, 2, - 1],
            fm_w13 = [[[1], [1]], [[2], [2]]], fm_w2 = [[[1]], [[2]]] \<rparr>, [[1], [1]], [[1]])"
  by code_simp

section \<open>The attention weight\<close>

lemma slice_behind: "length xs = a \<Longrightarrow> slice (a + b) (a + c) (xs @ ys) = slice b c ys"
  using slice_append_right [of xs b c ys] by simp

lemma qkv_unsplit:
  assumes s: "qkv_split n H K h kv rep" and pos: "r < n" "0 < K" "0 < H" "0 < d" and eq: "H * d + (K * d + K * d) = h * d + (kv * d + kv * d)"
  shows "r = 0" "h = H" "kv = K"
proof -
  have "(H + (K + K)) * d = (h + (kv + kv)) * d" using eq by (simp add: algebra_simps)
  then have sum: "H + (K + K) = h + (kv + kv)" using pos(4) by simp
  have H: "H = h * n" "0 < h" using s pos(3) by (auto simp: qkv_split_def)
  have kv: "kv \<le> K" using s pos by (auto simp: qkv_split_def split: if_splits)
  have "h \<le> H" using H(1) pos(1) by simp
  then show h: "h = H" and "kv = K" using sum kv by auto
  then have "n = 1" using H by simp
  then show "r = 0" using pos(1) by simp
qed

lemma qkv_cut:
  assumes s: "qkv_split n H K h kv rep" and pos: "r < n" "0 < K" "0 < H" and W: "length Wq = H * d" "length Wk = K * d" "length Wv = K * d"
    and param: "length (tn_rows param) = h * d + (kv * d + kv * d)" "tn_rest param = rest"
  shows "apply_qkv r n (H * d) H K param \<lparr>tn_rest = rest, tn_rows = Wq @ Wk @ Wv\<rparr>
      = Inr \<lparr>tn_rest = rest, tn_rows = qkv_weight_of d r h kv rep Wq Wk Wv\<rparr>"
proof (cases "H * d + (K * d + K * d) = h * d + (kv * d + kv * d)")
  case True
  have "qkv_weight_of d r h kv rep Wq Wk Wv = Wq @ Wk @ Wv"
  proof (cases "d = 0")
    case True
    then show ?thesis using W by (simp add: qkv_weight_of_def qkv_rows_def slice_def)
  next
    case False
    then show ?thesis using qkv_unsplit [OF s pos _ True] W by (simp add: qkv_weight_of_def qkv_rows_def slice_def)
  qed
  then show ?thesis using True W param by (simp add: apply_qkv_def Let_def)
next
  case False
  note fit = qkv_source_fits(2,3) [OF pos(1,2) s, where d = d]
  have H: "H = h * n" using s by (simp add: qkv_split_def)
  have exact: "a div b = c" if "a = b * c" "0 < b" for a b c :: nat using that by simp
  have q_part: "H * d div n = h * d" by (rule exact) (use H pos(1) in simp_all)
  have kv_dim: "H * d * K div H = K * d" by (rule exact) (use pos(3) in simp_all)
  have "(if n > K then K * d div K else K * d div n) = kv * d \<and> (if n > K then r div (n div K) else r) = r div rep"
  proof (cases "K \<le> n")
    case True
    then have k: "kv = 1" "n = rep * K" using s by (simp_all add: qkv_split_def)
    moreover have "rep = 1 \<or> 1 < rep" using qkv_source_fits(1) [OF pos(1,2) s] by linarith
    ultimately show ?thesis using pos(2) by auto
  next
    case False
    then have k: "rep = 1" "K * d = n * (kv * d)" using s by (simp_all add: qkv_split_def)
    have "K * d div n = kv * d" by (rule exact) (use k(2) pos(1) in simp_all)
    then show ?thesis using False k(1) by simp
  qed
  then have kv_part: "(if n > K then K * d div K else K * d div n) = kv * d" and kv_rank: "(if n > K then r div (n div K) else r) = r div rep"
    by blast+
  have pieces: "slice (r * (h * d)) ((r + 1) * (h * d)) (Wq @ Wk @ Wv) = qkv_rows r (h * d) Wq"
      "slice (H * d + r div rep * (kv * d)) (H * d + (r div rep + 1) * (kv * d)) (Wq @ Wk @ Wv) = qkv_rows (r div rep) (kv * d) Wk"
      "slice (H * d + K * d + r div rep * (kv * d)) (H * d + K * d + (r div rep + 1) * (kv * d)) (Wq @ Wk @ Wv) = qkv_rows (r div rep) (kv * d) Wv"
    using fit W by (simp_all add: qkv_rows_def slice_append_left slice_behind add.commute [of "kv * d"] add.commute [of "h * d"] add.assoc)
  have len: "length (qkv_weight_of d r h kv rep Wq Wk Wv) = length (tn_rows param)"
    using fit W param by (simp add: qkv_weight_of_def qkv_rows_def)
  show ?thesis
    unfolding apply_qkv_def Let_def q_part kv_dim kv_part kv_rank tensor.simps pieces
    using False W param len by (simp add: qkv_weight_of_def)
qed

text \<open>
  C13: The checkpoint loader and the attention layer agree on the fused query, key and value weight: cut
  by the loader for a rank, with key and value heads split or replicated, it is what the weight loader
  of the layer itself stores.
\<close>

theorem qkv_loaders_agree:
  assumes s: "qkv_split n H K h kv rep" and pos: "r < n" "0 < K" "0 < H" and W: "length Wq = H * d" "length Wk = K * d" "length Wv = K * d"
    and param: "length (tn_rows param) = h * d + (kv * d + kv * d)" "tn_rest param = rest"
    and L: "qkv_init (int d) (int H) (Some (int K)) False (int r) (int n) = Inr L"
  shows "apply_qkv r n (H * d) H K param \<lparr>tn_rest = rest, tn_rows = Wq @ Wk @ Wv\<rparr>
    = qkv_weight_loader L None \<lparr>tn_rest = rest, tn_rows = Wq @ Wk @ Wv\<rparr> param"
proof -
  have n: "0 < n" using pos(1) by simp
  have rank: "qkv_rank L d n r H K h kv rep" using qkv_init_ok [OF n pos(2) s, of d r] L by auto
  have "qkv_weight_loader L None \<lparr>tn_rest = rest, tn_rows = Wq @ Wk @ Wv\<rparr> param = Inr (param\<lparr>tn_rows := qkv_weight_of d r h kv rep Wq Wk Wv\<rparr>)"
    using qkv_loads(2) [OF rank pos(1,2) s W param(1), of "\<lambda>W. \<lparr>tn_rest = rest, tn_rows = W\<rparr>"] param(2) by simp
  then show ?thesis unfolding qkv_cut [OF s pos W param] using param(2) by (cases param) simp
qed

theorem qkv_loaders_agree_witness:
  "apply_qkv 3 4 8 4 2 \<lparr>tn_rest = [1], tn_rows = [0, 0, 0, 0, 0, 0]\<rparr> \<lparr>tn_rest = [1], tn_rows = [0, 1, 2, 3, 4, 5, 6, 7] @ [10, 11, 12, 13] @ [20, 21, 22, 23 :: int]\<rparr>
     = Inr \<lparr>tn_rest = [1], tn_rows = [6, 7, 12, 13, 22, 23]\<rparr>
   \<and> (\<exists>L. qkv_init (int 2) (int 4) (Some (int 2)) False (int 3) (int 4) = Inr L
     \<and> qkv_weight_loader L None \<lparr>tn_rest = [1], tn_rows = [0, 1, 2, 3, 4, 5, 6, 7] @ [10, 11, 12, 13] @ [20, 21, 22, 23]\<rparr> \<lparr>tn_rest = [1], tn_rows = [0, 0, 0, 0, 0, 0 :: int]\<rparr>
       = Inr \<lparr>tn_rest = [1], tn_rows = [6, 7, 12, 13, 22, 23]\<rparr>)"
proof -
  have cut: "apply_qkv 3 4 8 4 2 \<lparr>tn_rest = [1], tn_rows = [0, 0, 0, 0, 0, 0]\<rparr> \<lparr>tn_rest = [1], tn_rows = [0, 1, 2, 3, 4, 5, 6, 7] @ [10, 11, 12, 13] @ [20, 21, 22, 23 :: int]\<rparr>
     = Inr \<lparr>tn_rest = [1], tn_rows = [6, 7, 12, 13, 22, 23]\<rparr>" by code_simp
  have s: "qkv_split 4 4 2 1 1 2" by (simp add: qkv_split_def)
  obtain L where L: "qkv_init (int 2) (int 4) (Some (int 2)) False (int 3) (int 4) = Inr L"
    using qkv_init_ok [OF _ _ s, of 2 3] by auto
  have "apply_qkv 3 4 8 4 2 \<lparr>tn_rest = [1], tn_rows = [0, 0, 0, 0, 0, 0]\<rparr> \<lparr>tn_rest = [1], tn_rows = [0, 1, 2, 3, 4, 5, 6, 7] @ [10, 11, 12, 13] @ [20, 21, 22, 23 :: int]\<rparr>
     = qkv_weight_loader L None \<lparr>tn_rest = [1], tn_rows = [0, 1, 2, 3, 4, 5, 6, 7] @ [10, 11, 12, 13] @ [20, 21, 22, 23]\<rparr> \<lparr>tn_rest = [1], tn_rows = [0, 0, 0, 0, 0, 0]\<rparr>"
    using qkv_loaders_agree [OF s, of 3 "[0, 1, 2, 3, 4, 5, 6, 7 :: int]" 2 "[10, 11, 12, 13]" "[20, 21, 22, 23]" "\<lparr>tn_rest = [1], tn_rows = [0, 0, 0, 0, 0, 0]\<rparr>" "[1]" L] L by simp
  with cut L show ?thesis by metis
qed

text \<open>
  The cut assumes that the heads fill the hidden size, while the layer takes the head dimension of the
  configuration: here four heads of one row for a hidden size of eight, and the weight is refused.
\<close>

lemma head_dim_refused:
  "apply_qkv 0 2 8 4 4 \<lparr>tn_rest = [1], tn_rows = replicate 6 0\<rparr> \<lparr>tn_rest = [1], tn_rows = replicate 12 (0 :: int)\<rparr> = Inl AssertionError"
  by code_simp

end
