(* ===== verification/Moe_Routing.thy ===== *)
theory Moe_Routing
  imports Selection
begin

text \<open>
  Expert routing: the block routing of LLaDA 2.2 (models/llada2.py) and the top-k functions of
  layers/moe/topk.py with their dispatch.  Scores are exact rationals: \<open>sigmoid\<close> and \<open>softmax\<close> are
  arguments, as are \<open>torch.topk\<close> (\<open>topk_ok\<close> states what it promises), the random choice of a fused
  shared expert and the CUDA gate kernel.  Rounding to a narrower float type is not modelled; a sum of
  weights is positive for these score functions, so the division by it is the rational one.  The slots of
  a token are in descending order of score; where the code asks for \<open>sorted=False\<close> the order is free,
  and the theorems speak of the set of experts.
\<close>

section \<open>Block routing\<close>

definition add_bias_row :: "rat list \<Rightarrow> rat list \<Rightarrow> rat list" where
  "add_bias_row bias row = map2 (+) row bias"

definition block_scores :: "nat \<Rightarrow> rat list list \<Rightarrow> nat \<Rightarrow> nat \<Rightarrow> flt list" where
  "block_scores num_experts routing block_size b =
     tabulate num_experts (\<lambda>e. row_max (map (\<lambda>i. Fin (routing ! (b * block_size + i) ! e)) [0..<block_size]))"

definition mask_scores :: "nat \<Rightarrow> rat list \<Rightarrow> nat set \<Rightarrow> flt \<Rightarrow> flt list" where
  "mask_scores num_experts row allowed other = tabulate num_experts (\<lambda>e. if e \<in> allowed then Fin (row ! e) else other)"

definition range_error :: py_error where
  "range_error = RuntimeError ''selected index k out of range''"

definition llada2_block_routing_topk ::
    "(rat \<Rightarrow> rat) \<Rightarrow> (flt list \<Rightarrow> nat \<Rightarrow> nat list) \<Rightarrow> rat list list \<Rightarrow> rat list \<Rightarrow> nat \<Rightarrow> nat \<Rightarrow> nat \<Rightarrow> bool
     \<Rightarrow> (rat list \<times> nat list) list result" where
  "llada2_block_routing_topk sigmoid topk gating_output correction_bias top_k block_size expert_capacity renormalize =
     (let num_tokens = length gating_output; num_experts = length correction_bias
      in if block_size = 0 then Inl (ValueError ''integer modulo by zero'')
         else if num_tokens mod block_size \<noteq> 0
         then Inl (ValueError ''block routing requires the flattened token count to be a multiple of block_size'')
         else if num_experts < expert_capacity \<or> num_experts < top_k then Inl range_error
         else let scores = map (map sigmoid) gating_output;
                  routing = map (add_bias_row correction_bias) scores;
                  block_experts = tabulate (num_tokens div block_size)
                    (\<lambda>b. topk (block_scores num_experts routing block_size b) expert_capacity)
              in Inr (tabulate num_tokens (\<lambda>t.
                   let allowed = set (block_experts ! (t div block_size));
                       ids = topk (mask_scores num_experts (routing ! t) allowed NegInf) top_k;
                       w = map (\<lambda>e. scores ! t ! e) ids
                   in (if renormalize then map (\<lambda>v. v / (sum_list w + 1 / 10 ^ 20)) w else w, ids))))"

text \<open>The checks of the LLaDA MoE block on its configuration, as \<open>(use_block_routing, use_grouped_topk)\<close>.\<close>

definition moe_routing_kind :: "nat \<Rightarrow> int \<Rightarrow> nat \<Rightarrow> nat \<Rightarrow> (bool \<times> bool) result" where
  "moe_routing_kind expert_capacity block_size n_group topk_group =
     (let use_block_routing = expert_capacity > 0
      in if use_block_routing \<and> block_size \<le> 0
         then Inl (ValueError ''expert_capacity is set but block_size is not; both are required for LLaDA2.2 block routing.'')
         else if \<not> use_block_routing \<and> (n_group > 0 \<or> topk_group > 0)
         then if n_group > 0 \<and> 0 < topk_group \<and> topk_group \<le> n_group then Inr (False, True) else Inl AssertionError
         else Inr (use_block_routing, False))"

section \<open>Top-k functions\<close>

definition mask_topk_ids_padded_region :: "nat option \<Rightarrow> int list list \<Rightarrow> int list list" where
  "mask_topk_ids_padded_region num_token_non_padded ids =
     (case num_token_non_padded of None \<Rightarrow> ids
      | Some n \<Rightarrow> tabulate (length ids) (\<lambda>t. if n \<le> t then map (\<lambda>e. - 1) (ids ! t) else ids ! t))"

definition fused_topk_torch_native ::
    "(rat list \<Rightarrow> rat list) \<Rightarrow> (flt list \<Rightarrow> nat \<Rightarrow> nat list) \<Rightarrow> nat \<Rightarrow> nat \<Rightarrow> rat list list \<Rightarrow> nat \<Rightarrow> bool \<Rightarrow> rat list option
     \<Rightarrow> (rat list list \<times> int list list) result" where
  "fused_topk_torch_native softmax topk num_hidden num_experts gating_output top_k renormalize correction_bias =
     (if correction_bias = None \<and> num_hidden \<noteq> length gating_output then Inl AssertionError
      else if num_experts < top_k then Inl range_error
      else let scores = map softmax gating_output;
               choice = (case correction_bias of None \<Rightarrow> scores | Some bias \<Rightarrow> map (add_bias_row bias) scores);
               ids = map (\<lambda>row. topk (map Fin row) top_k) choice;
               weights = map2 (\<lambda>row sel. map (\<lambda>e. row ! e) sel) scores ids
           in Inr (if renormalize then map (\<lambda>w. map (\<lambda>v. v / sum_list w) w) weights else weights, map (map int) ids))"

definition fused_topk ::
    "(rat list \<Rightarrow> rat list) \<Rightarrow> (flt list \<Rightarrow> nat \<Rightarrow> nat list) \<Rightarrow> nat \<Rightarrow> nat \<Rightarrow> rat list list \<Rightarrow> nat \<Rightarrow> bool \<Rightarrow> nat option
     \<Rightarrow> (rat list list \<times> int list list) result" where
  "fused_topk softmax topk num_hidden num_experts gating_output top_k renormalize num_token_non_padded =
     result_bind (fused_topk_torch_native softmax topk num_hidden num_experts gating_output top_k renormalize None) (\<lambda>(weights, ids).
     Inr (weights, mask_topk_ids_padded_region num_token_non_padded ids))"

text \<open>
  The common tail of both grouped functions, for one token: the fused shared expert replaces the last
  slot, the weights are renormalized without it, and scaled on request.
\<close>

definition finish_weights :: "nat \<Rightarrow> rat \<Rightarrow> int \<Rightarrow> bool \<Rightarrow> bool \<Rightarrow> rat list \<Rightarrow> int list \<Rightarrow> rat list \<times> int list" where
  "finish_weights num_fused scaling shared_id renormalize scale_output w ids =
     (let (w1, ids1) = (if num_fused > 0
            then (butlast w @ [sum_list (butlast w) / scaling], butlast ids @ [shared_id]) else (w, ids));
          total_weight = (if num_fused = 0 then sum_list w1 else sum_list (butlast w1));
          w2 = (if renormalize then map (\<lambda>v. v / total_weight) w1 else w1)
      in (if renormalize \<and> scale_output then map (\<lambda>v. v * scaling) w2 else w2, ids1))"

definition view_error :: py_error where
  "view_error = RuntimeError ''shape is invalid for input''"

definition group_slice :: "nat \<Rightarrow> nat \<Rightarrow> rat list \<Rightarrow> rat list" where
  "group_slice num_groups g row = (let sz = length row div num_groups in slice (g * sz) (g * sz + sz) row)"

definition allowed_experts :: "(flt list \<Rightarrow> nat \<Rightarrow> nat list) \<Rightarrow> nat \<Rightarrow> nat \<Rightarrow> nat \<Rightarrow> flt list \<Rightarrow> nat set" where
  "allowed_experts topk num_experts num_groups topk_group group_scores =
     set (filter (\<lambda>e. e div (num_experts div num_groups) \<in> set (topk group_scores topk_group)) [0..<num_experts])"

definition grouped_checks :: "nat \<Rightarrow> rat list list \<Rightarrow> nat \<Rightarrow> nat \<Rightarrow> nat \<Rightarrow> nat \<Rightarrow> nat \<Rightarrow> nat \<Rightarrow> unit result" where
  "grouped_checks num_hidden gating_output num_experts num_groups topk_group top_k group_k num_fused =
     (if num_hidden \<noteq> length gating_output then Inl AssertionError
      else if num_groups = 0 \<or> num_experts mod num_groups \<noteq> 0 then Inl view_error
      else if num_experts div num_groups < group_k \<or> num_groups < topk_group \<or> num_experts < top_k then Inl range_error
      else if num_fused > 0 \<and> top_k = 0 then Inl IndexError
      else Inr ())"

definition grouped_topk_gpu ::
    "(rat list \<Rightarrow> rat list) \<Rightarrow> (flt list \<Rightarrow> nat \<Rightarrow> nat list) \<Rightarrow> (nat \<Rightarrow> int) \<Rightarrow> nat \<Rightarrow> nat \<Rightarrow> rat list list \<Rightarrow> nat \<Rightarrow> bool \<Rightarrow> nat \<Rightarrow> nat
     \<Rightarrow> nat \<Rightarrow> rat option \<Rightarrow> nat option \<Rightarrow> bool \<Rightarrow> (rat list list \<times> int list list) result" where
  "grouped_topk_gpu softmax topk rnd num_hidden num_experts gating_output top_k renormalize num_groups topk_group num_fused scaling
      num_token_non_padded scale_output =
     result_bind (grouped_checks num_hidden gating_output num_experts num_groups topk_group top_k 1 num_fused) (\<lambda>_.
     if scaling = None \<and> (num_fused > 0 \<or> renormalize \<and> scale_output) then Inl (TypeError ''unsupported operand type(s)'')
     else let factor = (case scaling of None \<Rightarrow> 1 | Some f \<Rightarrow> f); rows = tabulate (length gating_output) (\<lambda>t.
           let scores = softmax (gating_output ! t);
               group_scores = tabulate num_groups (\<lambda>g. row_max (map Fin (group_slice num_groups g scores)));
               allowed = allowed_experts topk num_experts num_groups topk_group group_scores;
               ids = topk (mask_scores num_experts scores allowed (Fin 0)) top_k
           in finish_weights num_fused factor (rnd t) renormalize scale_output
                (map (\<lambda>e. if e \<in> allowed then scores ! e else 0) ids) (map int ids))
     in Inr (map fst rows, mask_topk_ids_padded_region num_token_non_padded (map snd rows)))"

definition top2_sum :: "(flt list \<Rightarrow> nat \<Rightarrow> nat list) \<Rightarrow> rat list \<Rightarrow> flt" where
  "top2_sum topk row = Fin (sum_list (map (\<lambda>i. row ! i) (topk (map Fin row) 2)))"

definition biased_grouped_topk_impl ::
    "(rat \<Rightarrow> rat) \<Rightarrow> (flt list \<Rightarrow> nat \<Rightarrow> nat list) \<Rightarrow> (nat \<Rightarrow> int) \<Rightarrow> nat \<Rightarrow> rat list list \<Rightarrow> rat list \<Rightarrow> nat \<Rightarrow> bool \<Rightarrow> nat \<Rightarrow> nat
     \<Rightarrow> nat \<Rightarrow> rat \<Rightarrow> nat option \<Rightarrow> bool \<Rightarrow> (rat list list \<times> int list list) result" where
  "biased_grouped_topk_impl sigmoid topk rnd num_hidden gating_output correction_bias top_k renormalize num_groups topk_group num_fused scaling
      num_token_non_padded scale_output =
     (let num_experts = length correction_bias in
      result_bind (grouped_checks num_hidden gating_output num_experts num_groups topk_group top_k 2 num_fused) (\<lambda>_.
      let rows = tabulate (length gating_output) (\<lambda>t.
            let scores = map sigmoid (gating_output ! t);
                choice = add_bias_row correction_bias scores;
                group_scores = tabulate num_groups (\<lambda>g. top2_sum topk (group_slice num_groups g choice));
                allowed = allowed_experts topk num_experts num_groups topk_group group_scores;
                ids = topk (mask_scores num_experts choice allowed NegInf) top_k
            in finish_weights num_fused scaling (rnd t) renormalize scale_output (map (\<lambda>e. scores ! e) ids) (map int ids))
      in Inr (map fst rows, mask_topk_ids_padded_region num_token_non_padded (map snd rows))))"

definition is_power_of_two :: "nat \<Rightarrow> bool" where
  "is_power_of_two n = (n \<in> set (map (\<lambda>k. 2 ^ k) [0..<Suc n]))"

text \<open>On CUDA the kernel \<open>gate\<close> handles small power-of-two expert counts.\<close>

definition biased_grouped_topk_gpu ::
    "bool \<Rightarrow> (rat list list \<Rightarrow> rat list list \<times> int list list) \<Rightarrow> (rat \<Rightarrow> rat) \<Rightarrow> (flt list \<Rightarrow> nat \<Rightarrow> nat list) \<Rightarrow> (nat \<Rightarrow> int) \<Rightarrow> nat
     \<Rightarrow> rat list list \<Rightarrow> rat list \<Rightarrow> nat \<Rightarrow> bool \<Rightarrow> nat \<Rightarrow> nat \<Rightarrow> nat \<Rightarrow> rat option \<Rightarrow> nat option \<Rightarrow> bool \<Rightarrow> (rat list list \<times> int list list) result" where
  "biased_grouped_topk_gpu is_cuda gate sigmoid topk rnd num_hidden gating_output correction_bias top_k renormalize num_groups topk_group
      num_fused scaling num_token_non_padded scale_output =
     (case scaling of None \<Rightarrow> Inl AssertionError
      | Some factor \<Rightarrow>
          if is_cuda \<and> num_groups = 0 then Inl (ValueError ''integer division or modulo by zero'')
          else if is_cuda \<and> length correction_bias div num_groups \<le> 32 \<and> is_power_of_two (length correction_bias)
          then Inr (fst (gate gating_output), mask_topk_ids_padded_region num_token_non_padded (snd (gate gating_output)))
          else biased_grouped_topk_impl sigmoid topk rnd num_hidden gating_output correction_bias top_k renormalize num_groups topk_group
                 num_fused factor num_token_non_padded scale_output)"

record topk_config =
  tc_top_k :: nat
  tc_use_grouped_topk :: bool
  tc_topk_group :: "nat option"
  tc_num_expert_group :: "nat option"
  tc_renormalize :: bool
  tc_num_fused_shared_experts :: nat
  tc_custom_routing_function :: "(rat list list \<Rightarrow> nat \<Rightarrow> bool \<Rightarrow> (rat list list \<times> int list list) result) option"
  tc_correction_bias :: "rat list option"
  tc_torch_native :: bool
  tc_routed_scaling_factor :: "rat option"
  tc_apply_scaling_on_output :: bool

text \<open>The custom routing function of the LLaDA block, with the check of its bias.\<close>

definition block_routing_function ::
    "(rat \<Rightarrow> rat) \<Rightarrow> (flt list \<Rightarrow> nat \<Rightarrow> nat list) \<Rightarrow> rat list option \<Rightarrow> nat \<Rightarrow> nat \<Rightarrow> rat list list \<Rightarrow> nat \<Rightarrow> bool \<Rightarrow> (rat list list \<times> int list list) result" where
  "block_routing_function sigmoid topk correction_bias block_size expert_capacity gating_output top_k renormalize =
     (case correction_bias of None \<Rightarrow> Inl (ValueError ''LLaDA2.2 block routing requires the gate expert_bias (sigmoid + bias scoring).'')
      | Some bias \<Rightarrow> result_bind (llada2_block_routing_topk sigmoid topk gating_output bias top_k block_size expert_capacity renormalize) (\<lambda>rows.
          Inr (map fst rows, map (map int \<circ> snd) rows)))"

definition select_experts ::
    "bool \<Rightarrow> (rat list list \<Rightarrow> rat list list \<times> int list list) \<Rightarrow> (rat \<Rightarrow> rat) \<Rightarrow> (rat list \<Rightarrow> rat list) \<Rightarrow> (flt list \<Rightarrow> nat \<Rightarrow> nat list) \<Rightarrow> (nat \<Rightarrow> int)
     \<Rightarrow> nat \<Rightarrow> nat \<Rightarrow> rat list list \<Rightarrow> topk_config \<Rightarrow> nat option \<Rightarrow> (rat list list \<times> int list list) result" where
  "select_experts is_cuda gate sigmoid softmax topk rnd num_hidden num_experts router_logits tc num_token_non_padded =
     (if tc_use_grouped_topk tc
      then case (tc_topk_group tc, tc_num_expert_group tc) of
             (Some topk_group, Some num_groups) \<Rightarrow>
               (case tc_correction_bias tc of
                  None \<Rightarrow> grouped_topk_gpu softmax topk rnd num_hidden num_experts router_logits (tc_top_k tc) (tc_renormalize tc) num_groups topk_group
                            (tc_num_fused_shared_experts tc) (tc_routed_scaling_factor tc)
                            num_token_non_padded (tc_apply_scaling_on_output tc)
                | Some bias \<Rightarrow> biased_grouped_topk_gpu is_cuda gate sigmoid topk rnd num_hidden router_logits bias (tc_top_k tc) (tc_renormalize tc)
                            num_groups topk_group (tc_num_fused_shared_experts tc) (tc_routed_scaling_factor tc)
                            num_token_non_padded (tc_apply_scaling_on_output tc))
           | _ \<Rightarrow> Inl AssertionError
      else case tc_custom_routing_function tc of
             None \<Rightarrow>
               if tc_torch_native tc \<and> num_token_non_padded \<noteq> None then Inl AssertionError
               else if tc_apply_scaling_on_output tc then Inl AssertionError
               else if tc_torch_native tc
               then fused_topk_torch_native softmax topk num_hidden num_experts router_logits (tc_top_k tc) (tc_renormalize tc) (tc_correction_bias tc)
               else fused_topk softmax topk num_hidden num_experts router_logits (tc_top_k tc) (tc_renormalize tc) num_token_non_padded
           | Some custom \<Rightarrow>
               if num_token_non_padded \<noteq> None \<or> tc_apply_scaling_on_output tc then Inl AssertionError
               else custom router_logits (tc_top_k tc) (tc_renormalize tc))"

section \<open>What the masks guarantee\<close>

lemma mask_scores_simps [simp]:
  "length (mask_scores n row A z) = n" "e < n \<Longrightarrow> mask_scores n row A z ! e = (if e \<in> A then Fin (row ! e) else z)"
  by (simp_all add: mask_scores_def)

text \<open>Top-k over scores masked with \<open>-inf\<close>: enough allowed experts, and only these are chosen, the best first.\<close>

lemma masked_topk:
  assumes ok: "topk_ok topk" and A: "A \<subseteq> {..<n}" "k \<le> card A" and ids: "ids = topk (mask_scores n row A NegInf) k"
  shows "length ids = k" "distinct ids" "set ids \<subseteq> A"
    "\<And>e e'. e \<in> set ids \<Longrightarrow> e' \<in> A \<Longrightarrow> e' \<notin> set ids \<Longrightarrow> row ! e' \<le> row ! e"
proof -
  let ?xs = "mask_scores n row A NegInf"
  have "card A \<le> n" using A(1) card_mono [of "{..<n}" A] by simp
  with A(2) have k: "k \<le> length ?xs" by simp
  note tk = topk_okD [OF ok k]
  show "length ids = k" "distinct ids" using tk(1,2) by (simp_all add: ids)
  have "{i. i < length ?xs \<and> ?xs ! i \<noteq> NegInf} = A" using A(1) by (auto split: if_splits)
  then have card: "k \<le> card {i. i < length ?xs \<and> ?xs ! i \<noteq> NegInf}" using A(2) by (simp only:)
  have lt: "i < n" if "i \<in> set ids" for i using tk(3) that by (auto simp: ids)
  have sub: "i \<in> A" if "i \<in> set ids" for i
  proof (rule ccontr)
    assume "i \<notin> A"
    then have "?xs ! i = NegInf" using lt [OF that] by simp
    with topk_above_NegInf [OF ok card] that show False by (simp only: ids)
  qed
  then show "set ids \<subseteq> A" by blast
  show "row ! e' \<le> row ! e" if "e \<in> set ids" "e' \<in> A" "e' \<notin> set ids" for e e'
  proof -
    have "e' < n" using that(2) A(1) by blast
    then have "?xs ! e' \<le> ?xs ! e" using tk(5) [of e e'] that(1,3) by (simp add: ids)
    then show ?thesis using lt [OF that(1)] sub [OF that(1)] that(2) \<open>e' < n\<close> by simp
  qed
qed

definition routing_scores :: "(rat \<Rightarrow> rat) \<Rightarrow> rat list \<Rightarrow> rat list list \<Rightarrow> rat list list" where
  "routing_scores sigmoid bias gating = map (add_bias_row bias \<circ> map sigmoid) gating"

text \<open>
  C14: Block routing keeps a block within its expert capacity: with at least \<open>top_k\<close> experts of capacity,
  every block has a set of \<open>expert_capacity\<close> experts, no expert outside scoring higher on the block than
  one inside, and each token of the block gets \<open>top_k\<close> distinct experts of that set, none of the others
  in the set scoring higher for it; its weights are the sigmoid scores without bias, divided when
  renormalized by their sum plus the epsilon.
\<close>

theorem block_routing_sound:
  assumes ok: "topk_ok topk" and bs: "0 < block_size" "length gating = nb * block_size"
    and cap: "top_k \<le> expert_capacity" "expert_capacity \<le> length bias" and b: "b < nb"
  shows "\<exists>out S. llada2_block_routing_topk sigmoid topk gating bias top_k block_size expert_capacity renormalize = Inr out
    \<and> length out = length gating \<and> S \<subseteq> {..<length bias} \<and> card S = expert_capacity
    \<and> (\<forall>e \<in> S. \<forall>e' < length bias. e' \<notin> S \<longrightarrow> block_scores (length bias) (routing_scores sigmoid bias gating) block_size b ! e'
          \<le> block_scores (length bias) (routing_scores sigmoid bias gating) block_size b ! e)
    \<and> (\<forall>t. t div block_size = b \<longrightarrow> (case out ! t of (w, ids) \<Rightarrow>
          length ids = top_k \<and> distinct ids \<and> set ids \<subseteq> S
          \<and> (\<forall>e \<in> set ids. \<forall>e' \<in> S - set ids. routing_scores sigmoid bias gating ! t ! e' \<le> routing_scores sigmoid bias gating ! t ! e)
          \<and> (let s = map (\<lambda>e. map sigmoid (gating ! t) ! e) ids
             in w = (if renormalize then map (\<lambda>v. v / (sum_list s + 1 / 10 ^ 20)) s else s))))"
proof -
  let ?n = "length bias" and ?R = "routing_scores sigmoid bias gating"
  let ?bs = "block_scores ?n ?R block_size b"
  let ?S = "set (topk ?bs expert_capacity)"
  have R: "?R = map (add_bias_row bias) (map (map sigmoid) gating)" by (simp add: routing_scores_def)
  have "expert_capacity \<le> length ?bs" using cap by (simp add: block_scores_def)
  note tk = topk_okD [OF ok this]
  have S: "?S \<subseteq> {..<?n}" "card ?S = expert_capacity" using tk(3,4) by (simp_all add: block_scores_def)
  define out where "out = tabulate (length gating) (\<lambda>t.
      let allowed = set (tabulate nb (\<lambda>b. topk (block_scores ?n ?R block_size b) expert_capacity) ! (t div block_size));
          ids = topk (mask_scores ?n (?R ! t) allowed NegInf) top_k; w = map (\<lambda>e. map (map sigmoid) gating ! t ! e) ids
      in (if renormalize then map (\<lambda>v. v / (sum_list w + 1 / 10 ^ 20)) w else w, ids))"
  have run: "llada2_block_routing_topk sigmoid topk gating bias top_k block_size expert_capacity renormalize = Inr out"
  proof -
    have c: "(block_size = 0) = False" "(length gating mod block_size \<noteq> 0) = False"
        "(?n < expert_capacity \<or> ?n < top_k) = False" "length gating div block_size = nb"
      using bs cap by auto
    show ?thesis unfolding llada2_block_routing_topk_def Let_def out_def R by (simp only: c if_False)
  qed
  have tokens: "case out ! t of (w, ids) \<Rightarrow> length ids = top_k \<and> distinct ids \<and> set ids \<subseteq> ?S
      \<and> (\<forall>e \<in> set ids. \<forall>e' \<in> ?S - set ids. ?R ! t ! e' \<le> ?R ! t ! e)
      \<and> (let s = map (\<lambda>e. map sigmoid (gating ! t) ! e) ids
         in w = (if renormalize then map (\<lambda>v. v / (sum_list s + 1 / 10 ^ 20)) s else s))" if t: "t div block_size = b" for t
  proof -
    have tl: "t < length gating" using t b bs by (metis div_less_iff_less_mult)
    note mt = masked_topk [where row = "?R ! t" and k = top_k, OF ok S(1) _ refl]
    show ?thesis using mt cap S(2) tl b by (simp add: out_def t Let_def)
  qed
  have "?bs ! e' \<le> ?bs ! e" if "e \<in> ?S" "e' < ?n" "e' \<notin> ?S" for e e'
    using tk(5) that by (simp add: block_scores_def)
  then show ?thesis using run S tokens by (intro exI [of _ out] exI [of _ ?S]) (simp add: out_def)
qed

theorem block_routing_sound_witness:
  "\<exists>out S. llada2_block_routing_topk (\<lambda>x. x) topk_sorted [[1, 5, 2], [4, 1, 2]] [0, 0, 0] 1 2 2 False = Inr out \<and> length out = 2
    \<and> card S = 2 \<and> (case out ! 0 of (w, ids) \<Rightarrow> length ids = 1 \<and> set ids \<subseteq> S)"
proof -
  have p: "0 < (2 :: nat)" "length [[1, 5, 2], [4, 1, 2 :: rat]] = 1 * 2" "1 \<le> (2 :: nat)" "2 \<le> length [0, 0, 0 :: rat]" "0 < (1 :: nat)"
    by simp_all
  show ?thesis
    using block_routing_sound [OF topk_sorted_ok p, of "\<lambda>x. x" False]
  proof (elim exE conjE, goal_cases)
    case (1 out S)
    have "case out ! 0 of (w, ids) \<Rightarrow> length ids = 1 \<and> set ids \<subseteq> S"
      using 1(6) [rule_format, of 0] by (simp add: case_prod_beta)
    then show ?case using 1(1,2,4) by (intro exI [of _ out] exI [of _ S]) simp
  qed
qed

section \<open>Grouped routing\<close>

lemma card_groups:
  assumes "0 < sz" "G \<subseteq> {..<n :: nat}"
  shows "card {e. e < n * sz \<and> e div sz \<in> G} = card G * sz"
proof -
  have "{e. e < n * sz \<and> e div sz \<in> G} = (\<lambda>(g, i). g * sz + i) ` (G \<times> {..<sz})"
  proof (intro equalityI subsetI)
    fix e assume "e \<in> {e. e < n * sz \<and> e div sz \<in> G}"
    then have "e = (\<lambda>(g, i). g * sz + i) (e div sz, e mod sz)" "(e div sz, e mod sz) \<in> G \<times> {..<sz}"
      using assms(1) by (simp_all add: mult.commute)
    then show "e \<in> (\<lambda>(g, i). g * sz + i) ` (G \<times> {..<sz})" by (rule image_eqI)
  next
    fix e assume "e \<in> (\<lambda>(g, i). g * sz + i) ` (G \<times> {..<sz})"
    then obtain g i where g: "g \<in> G" "i < sz" "e = g * sz + i" by auto
    have "Suc g * sz \<le> n * sz" using g(1) assms(2) by (intro mult_le_mono1) auto
    then show "e \<in> {e. e < n * sz \<and> e div sz \<in> G}" using g by simp
  qed
  moreover have "inj_on (\<lambda>(g, i). g * sz + i) (G \<times> {..<sz})"
  proof (rule inj_onI, clarify)
    fix g i g' i' assume "g * sz + i = g' * sz + i'" "i < sz" "i' < sz"
    then have "(g * sz + i) div sz = (g' * sz + i') div sz" "(g * sz + i) mod sz = (g' * sz + i') mod sz" by simp_all
    then show "g = g' \<and> i = i'" using \<open>i < sz\<close> \<open>i' < sz\<close> by simp
  qed
  ultimately show ?thesis by (simp add: card_image card_cartesian_product)
qed

lemma sum_list_divide: "sum_list (map (\<lambda>v. v / s) w) = sum_list w / (s :: rat)"
  by (induction w) (simp_all add: add_divide_distrib)

text \<open>
  Grouped routing with bias stays within the chosen groups: when the groups that may be chosen hold
  at least \<open>top_k\<close> experts, every token gets \<open>top_k\<close> distinct experts, all of at most \<open>topk_group\<close> groups,
  and with a positive score function the renormalized weights are positive and add up to one.
\<close>

lemma grouped_routing_sound:
  assumes ok: "topk_ok topk" and hidden: "num_hidden = length gating" and n: "length bias = num_groups * sz"
    and sizes: "2 \<le> sz" "topk_group \<le> num_groups" "0 < top_k" "top_k \<le> topk_group * sz"
    and rows: "\<forall>row \<in> set gating. length row = length bias" and pos: "\<And>v. 0 < sigmoid v"
  shows "\<exists>ws ids. biased_grouped_topk_impl sigmoid topk rnd num_hidden gating bias top_k True num_groups topk_group 0 scaling None False = Inr (ws, ids)
    \<and> length ws = length gating \<and> length ids = length gating
    \<and> (\<forall>t < length gating. distinct (ids ! t) \<and> length (ids ! t) = top_k
         \<and> (\<exists>groups \<subseteq> {..<num_groups}. card groups = topk_group \<and> (\<forall>e \<in> set (ids ! t). 0 \<le> e \<and> e < int (length bias) \<and> nat e div sz \<in> groups))
         \<and> length (ws ! t) = top_k \<and> (\<forall>w \<in> set (ws ! t). 0 < w) \<and> sum_list (ws ! t) = 1)"
proof -
  let ?n = "length bias"
  have ng: "0 < num_groups" using sizes by (cases num_groups) auto
  then have sz: "?n div num_groups = sz" "?n mod num_groups = 0" using n by simp_all
  have "topk_group * sz \<le> ?n" using sizes(2) n by simp
  then have checks: "grouped_checks num_hidden gating ?n num_groups topk_group top_k 2 0 = Inr ()"
    using hidden sz sizes ng by (simp add: grouped_checks_def)
  define choice where "choice = (\<lambda>t. add_bias_row bias (map sigmoid (gating ! t)))"
  define groups where "groups = (\<lambda>t. set (topk (tabulate num_groups (\<lambda>g. top2_sum topk (group_slice num_groups g (choice t)))) topk_group))"
  define sel where "sel = (\<lambda>t. topk (mask_scores ?n (choice t) {e. e < ?n \<and> e div sz \<in> groups t} NegInf) top_k)"
  define w where "w = (\<lambda>t. map (\<lambda>e. map sigmoid (gating ! t) ! e) (sel t))"
  have allowed: "allowed_experts topk ?n num_groups topk_group (tabulate num_groups (\<lambda>g. top2_sum topk (group_slice num_groups g (choice t))))
      = {e. e < ?n \<and> e div sz \<in> groups t}" for t
    by (auto simp: allowed_experts_def groups_def sz(1))
  have names: "add_bias_row bias (map sigmoid (gating ! t)) = choice t"
      "topk (mask_scores ?n (choice t) {e. e < ?n \<and> e div sz \<in> groups t} NegInf) top_k = sel t"
      "map (\<lambda>e. map sigmoid (gating ! t) ! e) (sel t) = w t" for t
    by (simp_all only: choice_def sel_def w_def)
  have run: "biased_grouped_topk_impl sigmoid topk rnd num_hidden gating bias top_k True num_groups topk_group 0 scaling None False
      = Inr (tabulate (length gating) (\<lambda>t. map (\<lambda>v. v / sum_list (w t)) (w t)), tabulate (length gating) (\<lambda>t. map int (sel t)))"
    unfolding biased_grouped_topk_impl_def Let_def checks result_bind_def sum.case names(1) allowed names(2,3)
    by (simp add: finish_weights_def mask_topk_ids_padded_region_def tabulate_def comp_def Let_def)
  have g: "groups t \<subseteq> {..<num_groups}" "card (groups t) = topk_group" for t
    using topk_okD(3,4) [OF ok, of topk_group "tabulate num_groups (\<lambda>g. top2_sum topk (group_slice num_groups g (choice t)))"] sizes(2)
    by (simp_all add: groups_def)
  have "card {e. e < ?n \<and> e div sz \<in> groups t} = topk_group * sz" for t
    using card_groups [OF _ g(1) [of t], of sz] g(2) sizes(1) n by simp
  then have s: "length (sel t) = top_k" "distinct (sel t)" "set (sel t) \<subseteq> {e. e < ?n \<and> e div sz \<in> groups t}" for t
    using masked_topk(1-3) [OF ok _ _ refl, of "{e. e < ?n \<and> e div sz \<in> groups t}" ?n top_k "choice t"] sizes(4) by (auto simp: sel_def)
  have wpos: "length (w t) = top_k" "\<forall>v \<in> set (w t). 0 < v" if "t < length gating" for t
    using s [of t] rows pos that by (auto simp: w_def subset_iff)
  have sum: "0 < sum_list (w t)" if t: "t < length gating" for t
  proof -
    obtain v vs where v: "w t = v # vs" using wpos(1) [OF t] sizes(3) by (cases "w t") auto
    then have "0 \<le> sum_list vs" using wpos(2) [OF t] by (intro sum_list_nonneg) (auto simp: less_imp_le)
    then show ?thesis using wpos(2) [OF t] v by simp
  qed
  have "length (map (\<lambda>v. v / sum_list (w t)) (w t)) = top_k \<and> (\<forall>v \<in> set (map (\<lambda>v. v / sum_list (w t)) (w t)). 0 < v)
      \<and> sum_list (map (\<lambda>v. v / sum_list (w t)) (w t)) = 1" if "t < length gating" for t
    using wpos [OF that] sum [OF that] by (auto simp: sum_list_divide)
  moreover have "distinct (map int (sel t)) \<and> length (map int (sel t)) = top_k
      \<and> (\<exists>groups \<subseteq> {..<num_groups}. card groups = topk_group \<and> (\<forall>e \<in> set (map int (sel t)). 0 \<le> e \<and> e < int ?n \<and> nat e div sz \<in> groups))" for t
    using s [of t] g [of t] by (auto simp: distinct_map intro!: exI [of _ "groups t"])
  ultimately show ?thesis using run by (intro exI conjI) (assumption, simp_all)
qed

lemma grouped_routing_sound_witness:
  "\<exists>ws ids. biased_grouped_topk_impl (\<lambda>v. 1) topk_sorted (\<lambda>t. 0) 1 [[3, 1, 2, 5]] [0, 1, 0, 2] 2 True 2 1 0 1 None False = Inr (ws, ids)
    \<and> length (ids ! 0) = 2 \<and> sum_list (ws ! 0) = 1"
proof -
  have p: "1 = length [[3, 1, 2, 5 :: rat]]" "length [0, 1, 0, 2 :: rat] = 2 * 2" "2 \<le> (2 :: nat)" "1 \<le> (2 :: nat)" "0 < (2 :: nat)" "2 \<le> 1 * (2 :: nat)"
      "\<forall>row \<in> set [[3, 1, 2, 5 :: rat]]. length row = length [0, 1, 0, 2 :: rat]" and q: "\<And>v :: rat. 0 < (1 :: rat)"
    by simp_all
  show ?thesis using grouped_routing_sound [OF topk_sorted_ok p q, of "\<lambda>t. 0" 1] by fastforce
qed

end
