(* ===== verification/Http_Server.thy ===== *)
theory Http_Server
  imports Processor "HOL-Library.Sublist"
begin

text \<open>
  The HTTP front end (entrypoints/http_server.py, entrypoints/prompt_utils.py): prompts, request
  parameters and event streams as functions, and the replay registry with its streams as a state
  machine.  Entries of the registry are shared by reference, so they live in a heap; a client of
  \<open>replayable_stream\<close> is a record of its position.  Between two suspensions the event loop runs one
  coroutine, so a step is what a coroutine does until it yields an event, waits on its queue or
  returns.  \<open>json.dumps\<close>, the hash of a payload and the clock are arguments.
\<close>

section \<open>Prompts and parameters\<close>

text \<open>
  \<open>str.upper\<close> on characters below 256, for a comparison with ASCII words: the sharp s (223) becomes two
  letters, every other non-ASCII character goes to a non-ASCII one and is left as it is.
\<close>

definition char_upper :: "char \<Rightarrow> string" where
  "char_upper c =
     (let n = of_char c :: nat
      in if 97 \<le> n \<and> n \<le> 122 then [char_of (n - 32)] else if n = 223 then ''SS'' else [c])"

text \<open>A message with its \<open>role\<close> and \<open>content\<close>, each possibly missing.\<close>

record message =
  ms_role :: "string option"
  ms_content :: "string option"

definition str_get :: "string option \<Rightarrow> string" where
  "str_get v = (case v of None \<Rightarrow> [] | Some s \<Rightarrow> s)"

definition render_message :: "message \<Rightarrow> string" where
  "render_message m =
     (let role = concat (map char_upper (str_get (ms_role m))); content = str_get (ms_content m)
      in if role = ''SYSTEM'' then ''<role>SYSTEM</role>'' @ content @ ''<|role_end|>''
         else if role = ''ASSISTANT'' then ''<role>ASSISTANT</role>'' @ content @ ''<|role_end|>''
         else ''<role>HUMAN</role>'' @ content @ ''<|role_end|>'')"

definition render_openai_messages :: "message list \<Rightarrow> string" where
  "render_openai_messages ms = concat (map render_message ms) @ ''<role>ASSISTANT</role>''"

definition messages_to_prompt :: "(message list \<Rightarrow> params \<Rightarrow> string) \<Rightarrow> bool \<Rightarrow> params \<Rightarrow> message list \<Rightarrow> string" where
  "messages_to_prompt template apply_template template_kwargs ms =
     (if apply_template
      then template ms (dict_set ''tokenize'' (PBool False) (dict_union [(''add_generation_prompt'', PBool True)] template_kwargs))
      else render_openai_messages ms)"

definition sampling_keys :: "string list" where
  "sampling_keys = [''temperature'', ''seed'', ''top_p'', ''top_k'', ''frequency_penalty'', ''presence_penalty'']"

definition request_params :: "params \<Rightarrow> params" where
  "request_params body =
     (let base = [(''max_tokens'', params_get body ''max_tokens'' (params_get body ''max_new_tokens'' (PInt 128))),
                  (''ignore_eos'', PBool (py_bool (params_get body ''ignore_eos'' (PBool False))))]
      in fold (\<lambda>key ps. case map_of body key of None \<Rightarrow> ps | Some v \<Rightarrow> dict_set key v ps) sampling_keys base)"

definition sampling_error :: "params option \<Rightarrow> params \<Rightarrow> py_error option" where
  "sampling_error defaults ps =
     (case defaults of None \<Rightarrow> None
      | Some d \<Rightarrow> (case validate_sampling_params (dict_union d ps) of Inl e \<Rightarrow> Some e | Inr _ \<Rightarrow> None))"

section \<open>Event streams\<close>

text \<open>What the formatter turns into JSON: an output of the request, an error, or the timings.\<close>

datatype sse = Sse_Output gen_output | Sse_Error string | Sse_Timing "metadata option" | Sse_Done

text \<open>\<open>stream_completion\<close> over the outputs of the request.\<close>

fun stream_outputs :: "metadata option \<Rightarrow> gen_output list \<Rightarrow> sse list \<times> metadata option" where
  "stream_outputs meta [] = ([], meta)"
| "stream_outputs meta (out # outs) =
     (let meta' = (if go_meta out \<noteq> None then go_meta out else meta)
      in case go_error out of
           Some e \<Rightarrow> if e \<noteq> [] then ([Sse_Error e], meta')
                     else (let (evs, m) = stream_outputs meta' outs in (Sse_Output out # evs, m))
         | None \<Rightarrow> (let (evs, m) = stream_outputs meta' outs in (Sse_Output out # evs, m)))"

definition stream_completion :: "gen_output list \<Rightarrow> sse list" where
  "stream_completion outs = (let (evs, meta) = stream_outputs None outs in evs @ [Sse_Timing meta, Sse_Done])"

text \<open>The reply to a request that is not streamed.\<close>

fun collect_text :: "rid \<times> string \<times> string option \<Rightarrow> gen_output list \<Rightarrow> string + (rid \<times> string \<times> string option)" where
  "collect_text acc [] = Inr acc"
| "collect_text (r, text, reason) (out # outs) =
     (case go_error out of
        Some e \<Rightarrow> if e \<noteq> [] then Inl e else collect_text (go_rid out, text @ go_text out, go_finish_reason out) outs
      | None \<Rightarrow> collect_text (go_rid out, text @ go_text out, go_finish_reason out) outs)"

section \<open>The replay registry\<close>

record replay_entry =
  re_hash :: string
  re_events :: "string list"
  re_subs :: "nat list"
  re_finished :: bool
  re_completed :: rat

record replay_registry =
  rg_ttl :: rat
  rg_max_entries :: nat
  rg_max_bytes :: int
  rg_entries :: "(string, nat) pydict"

datatype phase = Replaying nat | Waiting | Done | Closed

record client =
  cl_entry :: nat
  cl_phase :: phase
  cl_received :: "string list"
  cl_queue :: "string option list"

record server =
  sv_reg :: replay_registry
  sv_heap :: "replay_entry list"
  sv_clients :: "client list"

definition utf8_len :: "string \<Rightarrow> int" where
  "utf8_len s = sum_list (map (\<lambda>c. if (of_char c :: nat) < 128 then 1 else 2) s)"

definition entry_bytes :: "replay_entry \<Rightarrow> int" where
  "entry_bytes e = sum_list (map utf8_len (re_events e))"

fun evict_loop :: "nat \<Rightarrow> int \<Rightarrow> replay_entry list \<Rightarrow> int \<Rightarrow> (string, nat) pydict \<Rightarrow> (string, nat) pydict" where
  "evict_loop max_entries max_bytes heap total_bytes [] = []"
| "evict_loop max_entries max_bytes heap total_bytes ((key, x) # rest) =
     (if length ((key, x) # rest) > max_entries \<or> total_bytes > max_bytes
      then if \<not> re_finished (heap ! x) then (key, x) # rest
           else evict_loop max_entries max_bytes heap (total_bytes - entry_bytes (heap ! x)) rest
      else (key, x) # rest)"

definition evict :: "rat \<Rightarrow> replay_entry list \<Rightarrow> replay_registry \<Rightarrow> replay_registry" where
  "evict now heap rg =
     (let kept = filter (\<lambda>(key, x). \<not> (re_finished (heap ! x) \<and> now - re_completed (heap ! x) > rg_ttl rg)) (rg_entries rg);
          total_bytes = sum_list (map (\<lambda>(key, x). entry_bytes (heap ! x)) kept)
      in rg\<lparr>rg_entries := evict_loop (rg_max_entries rg) (rg_max_bytes rg) heap total_bytes kept\<rparr>)"

definition move_to_end :: "string \<Rightarrow> (string, nat) pydict \<Rightarrow> (string, nat) pydict" where
  "move_to_end key d = (case map_of d key of None \<Rightarrow> d | Some x \<Rightarrow> dict_pop key d @ [(key, x)])"

text \<open>The entry and whether the caller owns it; the eviction happens even when the call raises.\<close>

definition acquire :: "rat \<Rightarrow> string \<Rightarrow> string \<Rightarrow> server \<Rightarrow> server \<times> (nat \<times> bool) result" where
  "acquire now key payload_hash sv =
     (let rg = evict now (sv_heap sv) (sv_reg sv); sv1 = sv\<lparr>sv_reg := rg\<rparr>
      in case map_of (rg_entries rg) key of
           Some x \<Rightarrow>
             if re_hash (sv_heap sv ! x) \<noteq> payload_hash
             then (sv1, Inl (ValueError ''idempotency key was already used with a different payload''))
             else (sv1\<lparr>sv_reg := rg\<lparr>rg_entries := move_to_end key (rg_entries rg)\<rparr>\<rparr>, Inr (x, False))
         | None \<Rightarrow>
             (sv1\<lparr>sv_heap := sv_heap sv @ [\<lparr> re_hash = payload_hash, re_events = [], re_subs = [], re_finished = False, re_completed = 0 \<rparr>],
                  sv_reg := rg\<lparr>rg_entries := dict_set key (length (sv_heap sv)) (rg_entries rg)\<rparr>\<rparr>,
              Inr (length (sv_heap sv), True)))"

definition push_queue :: "string option \<Rightarrow> nat list \<Rightarrow> client list \<Rightarrow> client list" where
  "push_queue ev subs cs = map (\<lambda>(i, c). c\<lparr>cl_queue := cl_queue c @ replicate (count_list subs i) ev\<rparr>) (enumerate 0 cs)"

definition publish :: "nat \<Rightarrow> string \<Rightarrow> server \<Rightarrow> server" where
  "publish x event sv =
     sv\<lparr>sv_heap := (sv_heap sv)[x := (sv_heap sv ! x)\<lparr>re_events := re_events (sv_heap sv ! x) @ [event]\<rparr>],
        sv_clients := push_queue (Some event) (re_subs (sv_heap sv ! x)) (sv_clients sv)\<rparr>"

text \<open>\<open>finish\<close> reads the clock for the entry, and \<open>_evict\<close> reads it again.\<close>

definition finish :: "rat \<Rightarrow> rat \<Rightarrow> nat \<Rightarrow> server \<Rightarrow> server" where
  "finish completed_at now x sv =
     (let heap = (sv_heap sv)[x := (sv_heap sv ! x)\<lparr>re_finished := True, re_completed := completed_at\<rparr>]
      in sv\<lparr>sv_heap := heap, sv_clients := push_queue None (re_subs (sv_heap sv ! x)) (sv_clients sv),
            sv_reg := evict now heap (sv_reg sv)\<rparr>)"

section \<open>Streams with an idempotency key\<close>

text \<open>The check of \<open>stream_response\<close> before the stream starts.\<close>

definition key_conflict :: "string \<Rightarrow> string \<Rightarrow> server \<Rightarrow> bool" where
  "key_conflict key payload_hash sv =
     (case map_of (rg_entries (sv_reg sv)) key of None \<Rightarrow> False | Some x \<Rightarrow> re_hash (sv_heap sv ! x) \<noteq> payload_hash)"

text \<open>The start of \<open>replayable_stream\<close>: the new client, and whether it started the producer.\<close>

definition replay_start :: "rat \<Rightarrow> string \<Rightarrow> string \<Rightarrow> server \<Rightarrow> server \<times> (nat \<times> bool) result" where
  "replay_start now key payload_hash sv =
     (case acquire now key payload_hash sv of
        (sv1, Inl e) \<Rightarrow> (sv1, Inl e)
      | (sv1, Inr (x, owner)) \<Rightarrow>
          (sv1\<lparr>sv_clients := sv_clients sv1 @ [\<lparr> cl_entry = x, cl_phase = Replaying 0, cl_received = [], cl_queue = [] \<rparr>]\<rparr>,
           Inr (length (sv_clients sv1), owner)))"

text \<open>A client resumes: the next event of the entry, the end, the subscription, or the next event of its queue.\<close>

definition set_client :: "nat \<Rightarrow> client \<Rightarrow> server \<Rightarrow> server" where
  "set_client c cl sv = sv\<lparr>sv_clients := (sv_clients sv)[c := cl]\<rparr>"

definition set_subs :: "nat \<Rightarrow> (nat list \<Rightarrow> nat list) \<Rightarrow> server \<Rightarrow> server" where
  "set_subs x f sv = sv\<lparr>sv_heap := (sv_heap sv)[x := (sv_heap sv ! x)\<lparr>re_subs := f (re_subs (sv_heap sv ! x))\<rparr>]\<rparr>"

definition client_resume :: "nat \<Rightarrow> server \<Rightarrow> server" where
  "client_resume c sv =
     (let cl = sv_clients sv ! c; x = cl_entry cl; e = sv_heap sv ! x
      in case cl_phase cl of
           Replaying i \<Rightarrow>
             if i < length (re_events e)
             then set_client c (cl\<lparr>cl_phase := Replaying (Suc i), cl_received := cl_received cl @ [re_events e ! i]\<rparr>) sv
             else if re_finished e then set_client c (cl\<lparr>cl_phase := Done\<rparr>) sv
             else set_subs x (\<lambda>subs. subs @ [c]) (set_client c (cl\<lparr>cl_phase := Waiting\<rparr>) sv)
         | Waiting \<Rightarrow>
             (case cl_queue cl of
                [] \<Rightarrow> sv
              | Some event # rest \<Rightarrow> set_client c (cl\<lparr>cl_received := cl_received cl @ [event], cl_queue := rest\<rparr>) sv
              | None # rest \<Rightarrow> set_subs x (remove1 c) (set_client c (cl\<lparr>cl_phase := Done, cl_queue := rest\<rparr>) sv))
         | _ \<Rightarrow> sv)"

text \<open>A client that goes away: the generator is closed and its \<open>finally\<close> removes the queue.\<close>

definition client_close :: "nat \<Rightarrow> server \<Rightarrow> server" where
  "client_close c sv =
     (let cl = sv_clients sv ! c
      in case cl_phase cl of
           Waiting \<Rightarrow> set_subs (cl_entry cl) (remove1 c) (set_client c (cl\<lparr>cl_phase := Closed\<rparr>) sv)
         | Replaying i \<Rightarrow> set_client c (cl\<lparr>cl_phase := Closed\<rparr>) sv
         | _ \<Rightarrow> sv)"

section \<open>Routes\<close>

text \<open>
  The body of a request, with the fields the routes read by name: \<open>messages\<close> is absent when it is not
  a list, \<open>hb_template_kwargs\<close> is \<open>None\<close> for a value that is neither an object nor false.  The other
  fields are in \<open>hb_fields\<close>; the headers are the id of the request and the idempotency key.
\<close>

record http_body =
  hb_prompt :: "text_input option"
  hb_input_ids :: "ids_input option"
  hb_messages :: "message list option"
  hb_template_kwargs :: "params option"
  hb_model :: "string option"
  hb_fields :: params

record http_headers =
  hh_request_id :: "string option"
  hh_idempotency_key :: "string option"

record http_args =
  ha_model_name :: string
  ha_apply_template :: bool
  ha_sampling_defaults :: "params option"

datatype response =
    Error_Response nat string
  | Completion_Response string rid string "string option"
  | Chat_Response string rid string "string option"
  | Event_Stream gen_req
  | Replay_Stream string string gen_req

definition error_text :: "py_error \<Rightarrow> string" where
  "error_text e = (case e of ValueError s \<Rightarrow> s | _ \<Rightarrow> [])"

definition stream_response :: "(http_body \<Rightarrow> string) \<Rightarrow> server \<Rightarrow> http_headers \<Rightarrow> http_body \<Rightarrow> gen_req \<Rightarrow> response" where
  "stream_response body_hash sv headers body req =
     (case hh_idempotency_key headers of
        None \<Rightarrow> Event_Stream req
      | Some key \<Rightarrow>
          if key = [] then Event_Stream req
          else if key_conflict key (body_hash body) sv
          then Error_Response 409 ''idempotency key was already used with a different payload''
          else Replay_Stream key (body_hash body) req)"

definition make_request :: "text_input option \<Rightarrow> ids_input option \<Rightarrow> params \<Rightarrow> bool \<Rightarrow> string option \<Rightarrow> gen_req" where
  "make_request txt ids ps stream rid =
     \<lparr> gr_text = txt, gr_input_ids = ids, gr_sampling_params = Some (ParDict ps), gr_rid = map_option RidStr rid,
       gr_stream = stream, gr_is_single = False, gr_batch_size = 0 \<rparr>"

text \<open>The common end of both routes; \<open>serve\<close> is the list of outputs of \<open>engine.generate_request\<close>.\<close>

definition answer :: "(http_body \<Rightarrow> string) \<Rightarrow> (gen_req \<Rightarrow> gen_output list) \<Rightarrow> server \<Rightarrow> http_args \<Rightarrow> http_headers \<Rightarrow> http_body
    \<Rightarrow> (string \<Rightarrow> rid \<Rightarrow> string \<Rightarrow> string option \<Rightarrow> response) \<Rightarrow> text_input option \<Rightarrow> ids_input option \<Rightarrow> response" where
  "answer body_hash serve sv args headers body payload txt ids =
     (let stream = py_bool (params_get (hb_fields body) ''stream'' (PBool False));
          model = (case hb_model body of None \<Rightarrow> ha_model_name args | Some m \<Rightarrow> m);
          ps = request_params (hb_fields body)
      in case sampling_error (ha_sampling_defaults args) ps of
           Some e \<Rightarrow> Error_Response 400 (error_text e)
         | None \<Rightarrow>
             (let req = make_request txt ids ps stream (hh_request_id headers)
              in if stream then stream_response body_hash sv headers body req
                 else case collect_text ([], [], None) (serve req) of
                        Inl e \<Rightarrow> Error_Response 500 e
                      | Inr (rid, final_text, finish_reason) \<Rightarrow> payload model rid final_text finish_reason))"

definition completions :: "(http_body \<Rightarrow> string) \<Rightarrow> (gen_req \<Rightarrow> gen_output list) \<Rightarrow> server \<Rightarrow> http_args \<Rightarrow> http_headers \<Rightarrow> http_body \<Rightarrow> response" where
  "completions body_hash serve sv args headers body =
     answer body_hash serve sv args headers body Completion_Response (hb_prompt body) (hb_input_ids body)"

definition chat_completions ::
    "(message list \<Rightarrow> params \<Rightarrow> string) \<Rightarrow> (http_body \<Rightarrow> string) \<Rightarrow> (gen_req \<Rightarrow> gen_output list) \<Rightarrow> server \<Rightarrow> http_args \<Rightarrow> http_headers \<Rightarrow> http_body \<Rightarrow> response" where
  "chat_completions template body_hash serve sv args headers body =
     (case hb_messages body of
        None \<Rightarrow> Error_Response 400 ''messages must be a list''
      | Some messages \<Rightarrow>
          (case hb_template_kwargs body of
             None \<Rightarrow> Error_Response 400 ''chat_template_kwargs must be an object''
           | Some kwargs \<Rightarrow>
               if map_of kwargs ''conversation'' \<noteq> None \<or> py_bool (params_get kwargs ''tokenize'' (PBool False))
               then Error_Response 400 ''chat_template_kwargs may not set conversation or tokenize''
               else answer body_hash serve sv args headers body Chat_Response
                      (Some (TextStr (messages_to_prompt template (ha_apply_template args) kwargs messages))) None))"

section \<open>The server as a state machine\<close>

text \<open>The producer of an entry publishes events and finishes it once.\<close>

inductive server_step :: "server \<Rightarrow> server \<Rightarrow> bool" where
  start: "replay_start now key payload_hash sv = (sv', r) \<Longrightarrow> server_step sv sv'"
| publish: "x < length (sv_heap sv) \<Longrightarrow> \<not> re_finished (sv_heap sv ! x) \<Longrightarrow> server_step sv (publish x event sv)"
| finish: "x < length (sv_heap sv) \<Longrightarrow> \<not> re_finished (sv_heap sv ! x) \<Longrightarrow> server_step sv (finish completed_at now x sv)"
| resume: "c < length (sv_clients sv) \<Longrightarrow> server_step sv (client_resume c sv)"
| close: "c < length (sv_clients sv) \<Longrightarrow> server_step sv (client_close c sv)"

definition new_server :: "rat \<Rightarrow> nat \<Rightarrow> int \<Rightarrow> server" where
  "new_server ttl max_entries max_bytes =
     \<lparr> sv_reg = \<lparr> rg_ttl = ttl, rg_max_entries = max_entries, rg_max_bytes = max_bytes, rg_entries = [] \<rparr>,
       sv_heap = [], sv_clients = [] \<rparr>"

definition reachable_server :: "rat \<Rightarrow> nat \<Rightarrow> int \<Rightarrow> server \<Rightarrow> bool" where
  "reachable_server ttl max_entries max_bytes sv = server_step\<^sup>*\<^sup>* (new_server ttl max_entries max_bytes) sv"

section \<open>What a client has received\<close>

definition client_ok :: "replay_entry \<Rightarrow> nat \<Rightarrow> client \<Rightarrow> bool" where
  "client_ok e c cl =
     (case cl_phase cl of
        Replaying i \<Rightarrow> i \<le> length (re_events e) \<and> cl_received cl = take i (re_events e) \<and> cl_queue cl = []
                       \<and> count_list (re_subs e) c = 0
      | Waiting \<Rightarrow> count_list (re_subs e) c = 1
                   \<and> (\<exists>es. cl_queue cl = map Some es @ (if re_finished e then [None] else [])
                           \<and> cl_received cl @ es = re_events e)
      | Done \<Rightarrow> re_finished e \<and> cl_received cl = re_events e \<and> count_list (re_subs e) c = 0
      | Closed \<Rightarrow> prefix (cl_received cl) (re_events e) \<and> count_list (re_subs e) c = 0)"

definition clients_ok :: "server \<Rightarrow> bool" where
  "clients_ok sv =
     ((\<forall>c < length (sv_clients sv). cl_entry (sv_clients sv ! c) < length (sv_heap sv)
         \<and> client_ok (sv_heap sv ! cl_entry (sv_clients sv ! c)) c (sv_clients sv ! c))
      \<and> (\<forall>x < length (sv_heap sv). \<forall>c. count_list (re_subs (sv_heap sv ! x)) c \<noteq> 0
           \<longrightarrow> c < length (sv_clients sv) \<and> cl_entry (sv_clients sv ! c) = x))"

lemma count_remove1 [simp]: "count_list (remove1 a xs) b = count_list xs b - (if a = b then 1 else 0)"
  by (induction xs) (auto simp: count_list_0_iff)

lemma client_ok_publish:
  "client_ok e c cl \<Longrightarrow> \<not> re_finished e
    \<Longrightarrow> client_ok (e\<lparr>re_events := re_events e @ [ev]\<rparr>) c
          (cl\<lparr>cl_queue := cl_queue cl @ replicate (count_list (re_subs e) c) (Some ev)\<rparr>)"
  by (auto simp: client_ok_def split: phase.splits) (rule_tac x = "es @ [ev]" in exI, simp)

lemma client_ok_finish:
  "client_ok e c cl \<Longrightarrow> \<not> re_finished e
    \<Longrightarrow> client_ok (e\<lparr>re_finished := True, re_completed := t\<rparr>) c
          (cl\<lparr>cl_queue := cl_queue cl @ replicate (count_list (re_subs e) c) None\<rparr>)"
  by (auto simp: client_ok_def split: phase.splits)

lemma client_ok_subs:
  "count_list subs c = count_list (re_subs e) c \<Longrightarrow> client_ok (e\<lparr>re_subs := subs\<rparr>) c cl = client_ok e c cl"
  by (auto simp: client_ok_def split: phase.splits)

lemma push_queue_simps [simp]:
  "length (push_queue ev subs cs) = length cs"
  "c < length cs \<Longrightarrow> push_queue ev subs cs ! c = (cs ! c)\<lparr>cl_queue := cl_queue (cs ! c) @ replicate (count_list subs c) ev\<rparr>"
  by (simp_all add: push_queue_def nth_enumerate_eq)

lemma clients_ok_push:
  assumes ok: "clients_ok sv" and x: "x < length (sv_heap sv)"
    and subs: "re_subs e' = re_subs (sv_heap sv ! x)"
    and step: "\<And>c cl. client_ok (sv_heap sv ! x) c cl
        \<Longrightarrow> client_ok e' c (cl\<lparr>cl_queue := cl_queue cl @ replicate (count_list (re_subs (sv_heap sv ! x)) c) ev\<rparr>)"
  shows "clients_ok (sv\<lparr>sv_heap := (sv_heap sv)[x := e'], sv_clients := push_queue ev (re_subs (sv_heap sv ! x)) (sv_clients sv), sv_reg := rg\<rparr>)"
proof -
  have other: "count_list (re_subs (sv_heap sv ! x)) c = 0"
    if "c < length (sv_clients sv)" "cl_entry (sv_clients sv ! c) \<noteq> x" for c
    using ok x that unfolding clients_ok_def by blast
  have "client_ok ((sv_heap sv)[x := e'] ! cl_entry (sv_clients sv ! c)) c
          ((sv_clients sv ! c)\<lparr>cl_queue := cl_queue (sv_clients sv ! c) @ replicate (count_list (re_subs (sv_heap sv ! x)) c) ev\<rparr>)"
    if c: "c < length (sv_clients sv)" for c
  proof (cases "cl_entry (sv_clients sv ! c) = x")
    case True
    then show ?thesis using ok c x step [of c "sv_clients sv ! c"] by (auto simp: clients_ok_def)
  next
    case False
    then show ?thesis using ok c other [OF c False] by (auto simp: clients_ok_def)
  qed
  then show ?thesis using ok x subs by (auto simp: clients_ok_def nth_list_update)
qed

lemma clients_ok_publish:
  "clients_ok sv \<Longrightarrow> x < length (sv_heap sv) \<Longrightarrow> \<not> re_finished (sv_heap sv ! x) \<Longrightarrow> clients_ok (publish x ev sv)"
  using clients_ok_push [of sv x "(sv_heap sv ! x)\<lparr>re_events := re_events (sv_heap sv ! x) @ [ev]\<rparr>" "Some ev" "sv_reg sv"]
  by (simp add: publish_def client_ok_publish)

lemma clients_ok_finish:
  "clients_ok sv \<Longrightarrow> x < length (sv_heap sv) \<Longrightarrow> \<not> re_finished (sv_heap sv ! x) \<Longrightarrow> clients_ok (finish t now x sv)"
  unfolding finish_def Let_def
  by (rule clients_ok_push) (simp_all add: client_ok_finish)

text \<open>A step of one client, with the subscriptions of its entry.\<close>

lemma clients_ok_client:
  assumes ok: "clients_ok sv" and c: "c < length (sv_clients sv)" and x: "x = cl_entry (sv_clients sv ! c)"
    and cl: "cl_entry cl = x" "client_ok ((sv_heap sv ! x)\<lparr>re_subs := f (re_subs (sv_heap sv ! x))\<rparr>) c cl"
    and f: "\<And>d. d \<noteq> c \<Longrightarrow> count_list (f (re_subs (sv_heap sv ! x))) d = count_list (re_subs (sv_heap sv ! x)) d"
  shows "clients_ok (set_subs x f (set_client c cl sv))"
proof -
  define e where "e = (sv_heap sv ! x)\<lparr>re_subs := f (re_subs (sv_heap sv ! x))\<rparr>"
  have xl: "x < length (sv_heap sv)" using ok c x by (simp add: clients_ok_def)
  have sub: "d < length (sv_clients sv) \<and> cl_entry (sv_clients sv ! d) = y"
    if "y < length (sv_heap sv)" "count_list (re_subs (sv_heap sv ! y)) d \<noteq> 0" for y d
    using ok that by (auto simp: clients_ok_def)
  have "cl_entry ((sv_clients sv)[c := cl] ! d) < length (sv_heap sv)
        \<and> client_ok ((sv_heap sv)[x := e] ! cl_entry ((sv_clients sv)[c := cl] ! d)) d ((sv_clients sv)[c := cl] ! d)"
    if d: "d < length (sv_clients sv)" for d
  proof (cases "d = c")
    case True
    then show ?thesis using c cl xl by (simp add: e_def)
  next
    case False
    have "client_ok (sv_heap sv ! cl_entry (sv_clients sv ! d)) d (sv_clients sv ! d)" "cl_entry (sv_clients sv ! d) < length (sv_heap sv)"
      using ok d by (simp_all add: clients_ok_def)
    then show ?thesis using False f [OF False] xl
      by (cases "x = cl_entry (sv_clients sv ! d)") (simp_all add: e_def client_ok_subs)
  qed
  moreover have "d < length (sv_clients sv) \<and> cl_entry ((sv_clients sv)[c := cl] ! d) = y"
    if y: "y < length (sv_heap sv)" "count_list (re_subs ((sv_heap sv)[x := e] ! y)) d \<noteq> 0" for y d
  proof (cases "d = c")
    case True
    then show ?thesis using sub [of y c] y c cl x by (cases "y = x") simp_all
  next
    case False
    then show ?thesis using sub [of y d] y f [OF False] xl by (cases "y = x") (simp_all add: e_def)
  qed
  ultimately show ?thesis
    using xl by (simp add: clients_ok_def set_subs_def set_client_def e_def [symmetric])
qed

lemma clients_ok_client_same:
  assumes "clients_ok sv" "c < length (sv_clients sv)" "cl_entry cl = cl_entry (sv_clients sv ! c)"
    "client_ok (sv_heap sv ! cl_entry cl) c cl"
  shows "clients_ok (set_client c cl sv)"
proof -
  have "set_subs (cl_entry cl) (\<lambda>subs. subs) (set_client c cl sv) = set_client c cl sv"
    by (simp add: set_subs_def set_client_def)
  with clients_ok_client [of sv c "cl_entry cl" cl "\<lambda>subs. subs"] assms show ?thesis by simp
qed

lemma queue_head:
  "None # r = map Some es @ (if b then [None] else []) \<longleftrightarrow> b \<and> es = [] \<and> r = []"
  "Some v # r = map Some es @ (if b then [None] else []) \<longleftrightarrow> (\<exists>es'. es = v # es' \<and> r = map Some es' @ (if b then [None] else []))"
  by (cases es; auto)+

lemma clients_ok_resume:
  assumes ok: "clients_ok sv" and c: "c < length (sv_clients sv)"
  shows "clients_ok (client_resume c sv)"
proof -
  have cok: "client_ok (sv_heap sv ! cl_entry (sv_clients sv ! c)) c (sv_clients sv ! c)"
    using ok c by (simp add: clients_ok_def)
  show ?thesis
    using cok unfolding client_resume_def Let_def
    by (auto simp: client_ok_def take_Suc_conv_app_nth queue_head ok c split: phase.splits list.splits option.splits
        intro!: clients_ok_client_same clients_ok_client)
qed

lemma clients_ok_close:
  assumes ok: "clients_ok sv" and c: "c < length (sv_clients sv)"
  shows "clients_ok (client_close c sv)"
proof -
  have cok: "client_ok (sv_heap sv ! cl_entry (sv_clients sv ! c)) c (sv_clients sv ! c)"
    using ok c by (simp add: clients_ok_def)
  show ?thesis
    using cok unfolding client_close_def Let_def
    by (auto simp: client_ok_def ok c take_is_prefix split: phase.splits
        intro!: clients_ok_client_same clients_ok_client) (metis prefix_def)
qed

section \<open>The registry\<close>

definition registry_ok :: "server \<Rightarrow> bool" where
  "registry_ok sv =
     (let d = rg_entries (sv_reg sv)
      in distinct (map fst d) \<and> distinct (map snd d) \<and> (\<forall>x \<in> snd ` set d. x < length (sv_heap sv))
         \<and> (\<forall>x < length (sv_heap sv). \<not> re_finished (sv_heap sv ! x) \<longrightarrow> x \<in> snd ` set d))"

lemma evict_loop_drop:
  "\<exists>n. evict_loop m b heap tot d = drop n d \<and> (\<forall>(k, x) \<in> set (take n d). re_finished (heap ! x))"
proof (induction m b heap tot d rule: evict_loop.induct)
  case (2 m b heap tot key x rest)
  show ?case
  proof (cases "(length ((key, x) # rest) > m \<or> tot > b) \<and> re_finished (heap ! x)")
    case True
    with 2 obtain n where "evict_loop m b heap (tot - entry_bytes (heap ! x)) rest = drop n rest"
        "\<forall>(k, x) \<in> set (take n rest). re_finished (heap ! x)" by auto
    with True show ?thesis by (intro exI [of _ "Suc n"]) auto
  next
    case False
    then show ?thesis by (intro exI [of _ 0]) auto
  qed
qed (auto intro: exI [of _ 0])

lemma evict_entries:
  "subseq (rg_entries (evict now heap rg)) (rg_entries rg)"
  "(k, x) \<in> set (rg_entries rg) \<Longrightarrow> \<not> re_finished (heap ! x) \<Longrightarrow> (k, x) \<in> set (rg_entries (evict now heap rg))"
proof -
  define kept where "kept = filter (\<lambda>(key, x). \<not> (re_finished (heap ! x) \<and> now - re_completed (heap ! x) > rg_ttl rg)) (rg_entries rg)"
  obtain n where n: "rg_entries (evict now heap rg) = drop n kept" "\<forall>(k, x) \<in> set (take n kept). re_finished (heap ! x)"
    using evict_loop_drop unfolding evict_def Let_def kept_def by simp blast
  show "subseq (rg_entries (evict now heap rg)) (rg_entries rg)"
    unfolding n kept_def by (meson subseq_filter_left subseq_order.trans suffix_drop suffix_imp_subseq)
  assume "(k, x) \<in> set (rg_entries rg)" "\<not> re_finished (heap ! x)"
  then have "(k, x) \<in> set (take n kept @ drop n kept)" by (auto simp: kept_def)
  with n(2) \<open>\<not> re_finished (heap ! x)\<close> show "(k, x) \<in> set (rg_entries (evict now heap rg))"
    unfolding n(1) set_append by auto
qed

lemma evict_distinct:
  assumes "distinct (map fst (rg_entries rg))" "distinct (map snd (rg_entries rg))"
  shows "distinct (map fst (rg_entries (evict now heap rg)))" "distinct (map snd (rg_entries (evict now heap rg)))"
    "set (rg_entries (evict now heap rg)) \<subseteq> set (rg_entries rg)"
proof -
  obtain N where N: "rg_entries (evict now heap rg) = nths (rg_entries rg) N"
    using evict_entries(1) unfolding subseq_conv_nths by blast
  show "distinct (map fst (rg_entries (evict now heap rg)))" "distinct (map snd (rg_entries (evict now heap rg)))"
    "set (rg_entries (evict now heap rg)) \<subseteq> set (rg_entries rg)"
    using assms by (simp_all add: N nths_map [symmetric] set_nths_subset)
qed

text \<open>After an eviction the limits hold, or the oldest entry is still running.\<close>

lemma evict_loop_bounded:
  assumes "evict_loop m b heap (sum_list (map (\<lambda>(k, x). entry_bytes (heap ! x)) d)) d = d'"
  shows "d' = [] \<or> \<not> re_finished (heap ! snd (hd d'))
         \<or> length d' \<le> m \<and> sum_list (map (\<lambda>(k, x). entry_bytes (heap ! x)) d') \<le> b"
  using assms
proof (induction d)
  case (Cons p rest)
  obtain key x where p: "p = (key, x)" by (cases p)
  show ?case
  proof (cases "(length (p # rest) > m \<or> sum_list (map (\<lambda>(k, x). entry_bytes (heap ! x)) (p # rest)) > b) \<and> re_finished (heap ! x)")
    case True
    then have "d' = evict_loop m b heap (sum_list (map (\<lambda>(k, x). entry_bytes (heap ! x)) rest)) rest"
      using Cons.prems p by (auto split: if_splits)
    then show ?thesis using Cons.IH by simp
  next
    case False
    then have "d' = p # rest" using Cons.prems p by (auto split: if_splits)
    then show ?thesis using False p by auto
  qed
qed simp

lemma registry_ok_mono:
  "registry_ok sv \<Longrightarrow> sv_reg sv' = sv_reg sv \<Longrightarrow> length (sv_heap sv') = length (sv_heap sv)
    \<Longrightarrow> (\<And>x. x < length (sv_heap sv) \<Longrightarrow> \<not> re_finished (sv_heap sv' ! x) \<Longrightarrow> \<not> re_finished (sv_heap sv ! x))
    \<Longrightarrow> registry_ok sv'"
  by (auto simp: registry_ok_def Let_def)

lemma registry_ok_evict:
  assumes "registry_ok sv"
  shows "registry_ok (sv\<lparr>sv_reg := evict now (sv_heap sv) (sv_reg sv)\<rparr>)"
proof -
  have d: "distinct (map fst (rg_entries (sv_reg sv)))" "distinct (map snd (rg_entries (sv_reg sv)))"
    using assms by (simp_all add: registry_ok_def Let_def)
  have "x \<in> snd ` set (rg_entries (evict now (sv_heap sv) (sv_reg sv)))"
    if x: "x < length (sv_heap sv)" "\<not> re_finished (sv_heap sv ! x)" for x
  proof -
    obtain k where "(k, x) \<in> set (rg_entries (sv_reg sv))"
      using assms x by (auto simp: registry_ok_def Let_def)
    from evict_entries(2) [OF this x(2)] show ?thesis by force
  qed
  then show ?thesis
    using assms evict_distinct [OF d] unfolding registry_ok_def Let_def by fastforce
qed

lemma registry_ok_finish: "registry_ok sv \<Longrightarrow> x < length (sv_heap sv) \<Longrightarrow> registry_ok (finish t now x sv)"
proof -
  assume ok: "registry_ok sv" and x: "x < length (sv_heap sv)"
  let ?heap = "(sv_heap sv)[x := (sv_heap sv ! x)\<lparr>re_finished := True, re_completed := t\<rparr>]"
  let ?sv = "sv\<lparr>sv_heap := ?heap, sv_clients := push_queue None (re_subs (sv_heap sv ! x)) (sv_clients sv)\<rparr>"
  have "registry_ok ?sv"
    using ok by (rule registry_ok_mono) (use x in \<open>auto simp: nth_list_update split: if_splits\<close>)
  from registry_ok_evict [OF this, of now] show "registry_ok (finish t now x sv)" by (simp add: finish_def Let_def)
qed

lemma move_to_end_facts:
  assumes "distinct (map fst d)" "distinct (map snd d)"
  shows "distinct (map fst (move_to_end k d))" "distinct (map snd (move_to_end k d))" "set (move_to_end k d) = set d"
proof -
  have s: "set (move_to_end k d) = set d"
    using assms(1) by (auto simp: move_to_end_def dict_pop_def split: option.split dest: map_of_SomeD eq_key_imp_eq_value)
  moreover have "distinct (move_to_end k d)" "inj_on fst (set d)" "inj_on snd (set d)"
    using assms by (auto simp: move_to_end_def dict_pop_def distinct_map split: option.split)
  ultimately show "distinct (map fst (move_to_end k d))" "distinct (map snd (move_to_end k d))" "set (move_to_end k d) = set d"
    by (simp_all add: distinct_map)
qed

text \<open>The three outcomes of \<open>acquire\<close> with the invariants of the state it leaves.\<close>

lemma acquire_cases:
  assumes ok: "registry_ok sv" and acq: "acquire now key payload_hash sv = (sv', r)"
  shows "registry_ok sv' \<and> sv_clients sv' = sv_clients sv
    \<and> (case r of
         Inl e \<Rightarrow> sv_heap sv' = sv_heap sv
       | Inr (x, owner) \<Rightarrow> x < length (sv_heap sv') \<and>
           (if owner
            then sv_heap sv' = sv_heap sv @ [\<lparr> re_hash = payload_hash, re_events = [], re_subs = [], re_finished = False, re_completed = 0 \<rparr>]
                 \<and> x = length (sv_heap sv)
            else sv_heap sv' = sv_heap sv \<and> (key, x) \<in> set (rg_entries (sv_reg sv))))"
proof -
  define rg where "rg = evict now (sv_heap sv) (sv_reg sv)"
  have rok: "registry_ok (sv\<lparr>sv_reg := rg\<rparr>)" using registry_ok_evict [OF ok] by (simp add: rg_def)
  then have d: "distinct (map fst (rg_entries rg))" "distinct (map snd (rg_entries rg))"
    by (simp_all add: registry_ok_def Let_def)
  have sub: "set (rg_entries rg) \<subseteq> set (rg_entries (sv_reg sv))"
    using evict_distinct(3) ok by (simp add: rg_def registry_ok_def Let_def)
  show ?thesis
  proof (cases "map_of (rg_entries rg) key")
    case None
    then have new: "key \<notin> fst ` set (rg_entries rg)" by (simp add: map_of_eq_None_iff)
    have vals: "\<forall>x \<in> snd ` set (rg_entries rg). x < length (sv_heap sv)"
      using rok by (simp add: registry_ok_def Let_def)
    then have "length (sv_heap sv) \<notin> snd ` set (rg_entries rg)" by auto
    with None new acq rok vals show ?thesis
      by (auto simp: acquire_def Let_def rg_def [symmetric] dict_set_fresh registry_ok_def nth_append less_Suc_eq image_iff) fastforce
  next
    case (Some x)
    then have mem: "(key, x) \<in> set (rg_entries rg)" by (rule map_of_SomeD)
    have "registry_ok (sv\<lparr>sv_reg := rg\<lparr>rg_entries := move_to_end key (rg_entries rg)\<rparr>\<rparr>)"
      using rok move_to_end_facts [OF d] by (simp add: registry_ok_def Let_def)
    moreover have "x < length (sv_heap sv)" using rok mem by (force simp: registry_ok_def Let_def)
    ultimately show ?thesis using Some mem acq rok sub
      by (auto simp: acquire_def Let_def rg_def [symmetric] split: if_splits)
  qed
qed

lemma clients_ok_start:
  assumes ok: "clients_ok sv" and rok: "registry_ok sv" and st: "replay_start now key payload_hash sv = (sv', r)"
  shows "clients_ok sv'" "registry_ok sv'"
proof -
  obtain sv1 r1 where acq: "acquire now key payload_hash sv = (sv1, r1)" by (cases "acquire now key payload_hash sv")
  note facts = acquire_cases [OF rok acq]
  have ok1: "clients_ok sv1"
    using facts ok by (auto simp: clients_ok_def nth_append less_Suc_eq split: sum.splits if_splits)
  show "clients_ok sv'"
  proof (cases r1)
    case (Inl e)
    then show ?thesis using st acq ok1 by (simp add: replay_start_def)
  next
    case (Inr p)
    then obtain x owner where p: "r1 = Inr (x, owner)" by (cases p) simp
    have x: "x < length (sv_heap sv1)" using facts p by (simp split: if_splits)
    have "count_list (re_subs (sv_heap sv1 ! y)) (length (sv_clients sv1)) = 0" if "y < length (sv_heap sv1)" for y
      using ok1 that unfolding clients_ok_def by blast
    then have "client_ok (sv_heap sv1 ! x) (length (sv_clients sv1))
        \<lparr> cl_entry = x, cl_phase = Replaying 0, cl_received = [], cl_queue = [] \<rparr>"
      using x by (simp add: client_ok_def)
    then show ?thesis
      using st acq ok1 p x unfolding replay_start_def
      by (auto simp: clients_ok_def nth_append less_Suc_eq)
  qed
  show "registry_ok sv'"
    using facts st acq by (auto simp: replay_start_def split: sum.splits elim!: conjE registry_ok_mono)
qed

lemma list_update_field: "f y = f (xs ! i) \<Longrightarrow> f (xs[i := y] ! x) = f (xs ! x)"
  by (cases "i < length xs") (simp_all add: nth_list_update list_update_beyond)

lemma re_finished_update [simp]:
  "re_finished (xs[i := (xs ! i)\<lparr>re_subs := s\<rparr>] ! x) = re_finished (xs ! x)"
  "re_finished (xs[i := (xs ! i)\<lparr>re_events := evs\<rparr>] ! x) = re_finished (xs ! x)"
  by (rule list_update_field, simp)+

lemma registry_ok_client:
  "registry_ok sv \<Longrightarrow> registry_ok (client_resume c sv)"
  "registry_ok sv \<Longrightarrow> registry_ok (client_close c sv)"
  "registry_ok sv \<Longrightarrow> registry_ok (publish x ev sv)"
  by (auto simp: client_resume_def client_close_def publish_def set_client_def set_subs_def Let_def
      split: phase.splits list.splits option.splits elim!: registry_ok_mono)

lemma server_step_ok:
  assumes "server_step sv sv'" and ok: "clients_ok sv" "registry_ok sv"
  shows "clients_ok sv' \<and> registry_ok sv'"
  using assms(1)
proof cases
  case (start now key payload_hash r)
  then show ?thesis using clients_ok_start [OF ok] by simp
qed (simp_all add: ok clients_ok_publish clients_ok_finish registry_ok_finish clients_ok_resume clients_ok_close registry_ok_client)

lemma reachable_server_ok:
  assumes "reachable_server ttl max_entries max_bytes sv"
  shows "clients_ok sv \<and> registry_ok sv"
  using assms unfolding reachable_server_def
proof (induction rule: rtranclp_induct)
  case base
  then show ?case by (simp add: clients_ok_def registry_ok_def new_server_def)
qed (simp add: server_step_ok)

lemma set_subs_id: "set_subs x (\<lambda>s. s) sv = sv"
  by (simp add: set_subs_def)

lemma resume_outcome:
  fixes sv c
  defines "cl \<equiv> sv_clients sv ! c"
  defines "e \<equiv> sv_heap sv ! cl_entry cl"
  assumes cok: "client_ok e c cl" and fin: "re_finished e" and open_stream: "cl_phase cl \<noteq> Closed"
  obtains (event) ev q p where
      "client_resume c sv = set_client c (cl\<lparr>cl_phase := p, cl_received := cl_received cl @ [ev], cl_queue := q\<rparr>) sv"
      "p \<noteq> Closed" "length (cl_received cl) < length (re_events e)"
  | (finished) q f where
      "client_resume c sv = set_subs (cl_entry cl) f (set_client c (cl\<lparr>cl_phase := Done, cl_queue := q\<rparr>) sv)"
  | (ended) "client_resume c sv = sv" "cl_phase cl = Done"
proof (cases "cl_phase cl")
  case (Replaying i)
  have q: "cl\<lparr>cl_phase := p, cl_received := r\<rparr> = cl\<lparr>cl_phase := p, cl_received := r, cl_queue := []\<rparr>"
    "cl\<lparr>cl_phase := p\<rparr> = cl\<lparr>cl_phase := p, cl_queue := []\<rparr>" for p r
    using cok Replaying by (simp_all add: client_ok_def)
  show ?thesis
  proof (cases "i < length (re_events e)")
    case True
    have "client_resume c sv = set_client c (cl\<lparr>cl_phase := Replaying (Suc i), cl_received := cl_received cl @ [re_events e ! i], cl_queue := []\<rparr>) sv"
      unfolding q(1) [symmetric] using Replaying True by (simp add: client_resume_def Let_def cl_def e_def)
    then show ?thesis by (rule event) (use cok Replaying True in \<open>simp_all add: client_ok_def\<close>)
  next
    case False
    have "client_resume c sv = set_subs (cl_entry cl) (\<lambda>s. s) (set_client c (cl\<lparr>cl_phase := Done, cl_queue := []\<rparr>) sv)"
      unfolding q(2) [symmetric] set_subs_id using Replaying False fin by (simp add: client_resume_def Let_def cl_def e_def)
    then show ?thesis by (rule finished)
  qed
next
  case Waiting
  obtain es where es: "cl_queue cl = map Some es @ [None]" "cl_received cl @ es = re_events e"
    using cok Waiting fin by (auto simp: client_ok_def)
  show ?thesis
  proof (cases es)
    case Nil
    then have "client_resume c sv = set_subs (cl_entry cl) (remove1 c) (set_client c (cl\<lparr>cl_phase := Done, cl_queue := []\<rparr>) sv)"
      using Waiting es(1) by (simp add: client_resume_def Let_def cl_def e_def)
    then show ?thesis by (rule finished)
  next
    case (Cons ev es')
    have w: "cl\<lparr>cl_received := r, cl_queue := q\<rparr> = cl\<lparr>cl_phase := Waiting, cl_received := r, cl_queue := q\<rparr>" for r q
      using Waiting by simp
    have "client_resume c sv = set_client c (cl\<lparr>cl_phase := Waiting, cl_received := cl_received cl @ [ev], cl_queue := map Some es' @ [None]\<rparr>) sv"
      unfolding w [symmetric] using Waiting es(1) Cons by (simp add: client_resume_def Let_def cl_def e_def)
    then show ?thesis by (rule event) (simp_all add: es(2) [symmetric] Cons)
  qed
next
  case Done
  then show ?thesis using ended by (simp add: client_resume_def Let_def cl_def)
qed (use open_stream in simp)

lemma resume_finished:
  fixes sv c
  defines "cl \<equiv> sv_clients sv ! c"
  defines "e \<equiv> sv_heap sv ! cl_entry cl" and "cl' \<equiv> sv_clients (client_resume c sv) ! c"
    and "e' \<equiv> sv_heap (client_resume c sv) ! cl_entry cl"
  assumes ok: "clients_ok sv" and c: "c < length (sv_clients sv)" and fin: "re_finished e" and open_stream: "cl_phase cl \<noteq> Closed"
  shows "cl_entry cl' = cl_entry cl \<and> re_finished e' \<and> re_events e' = re_events e \<and> cl_phase cl' \<noteq> Closed
    \<and> (cl_phase cl' = Done \<or> length (re_events e) - length (cl_received cl') < length (re_events e) - length (cl_received cl))"
proof -
  have cok: "client_ok e c cl" and x: "cl_entry cl < length (sv_heap sv)" using ok c by (simp_all add: clients_ok_def cl_def e_def)
  show ?thesis
    using cok [unfolded e_def cl_def] fin [unfolded e_def cl_def] open_stream [unfolded cl_def]
  proof (cases rule: resume_outcome)
    case (event ev q p)
    then show ?thesis using c fin by (simp add: set_client_def cl'_def e'_def e_def cl_def) linarith
  next
    case (finished q f)
    then show ?thesis using c x fin by (simp add: set_client_def set_subs_def cl'_def e'_def e_def cl_def)
  next
    case ended
    then show ?thesis using open_stream fin by (simp add: cl'_def e'_def e_def cl_def)
  qed
qed

lemma length_client_resume [simp]: "length (sv_clients (client_resume c sv)) = length (sv_clients sv)"
  by (simp add: client_resume_def set_client_def set_subs_def Let_def split: phase.split list.split option.split)

lemma resume_drains:
  assumes "clients_ok sv" "c < length (sv_clients sv)" "re_finished (sv_heap sv ! cl_entry (sv_clients sv ! c))"
    "cl_phase (sv_clients sv ! c) \<noteq> Closed" "re_events (sv_heap sv ! cl_entry (sv_clients sv ! c)) = evs"
    "length evs - length (cl_received (sv_clients sv ! c)) < n \<or> cl_phase (sv_clients sv ! c) = Done"
  shows "cl_phase (sv_clients ((client_resume c ^^ n) sv) ! c) = Done
       \<and> cl_received (sv_clients ((client_resume c ^^ n) sv) ! c) = evs"
  using assms
proof (induction n arbitrary: sv)
  case 0
  then have "client_ok (sv_heap sv ! cl_entry (sv_clients sv ! c)) c (sv_clients sv ! c)" "cl_phase (sv_clients sv ! c) = Done"
    by (simp_all add: clients_ok_def)
  then show ?case using 0(5) by (simp add: client_ok_def)
next
  case (Suc n)
  let ?cl = "sv_clients (client_resume c sv) ! c"
  have r: "cl_entry ?cl = cl_entry (sv_clients sv ! c)" "re_finished (sv_heap (client_resume c sv) ! cl_entry ?cl)"
    "cl_phase ?cl \<noteq> Closed" "re_events (sv_heap (client_resume c sv) ! cl_entry ?cl) = evs"
    "cl_phase ?cl = Done \<or> length evs - length (cl_received ?cl) < length evs - length (cl_received (sv_clients sv ! c))"
    using resume_finished [OF Suc.prems(1-4), unfolded Suc.prems(5)] by simp_all
  have "cl_phase ?cl = Done" if "cl_phase (sv_clients sv ! c) = Done"
    using that by (simp add: client_resume_def Let_def)
  then have "length evs - length (cl_received ?cl) < n \<or> cl_phase ?cl = Done"
    using r(5) Suc.prems(6) by linarith
  then have "cl_phase (sv_clients ((client_resume c ^^ n) (client_resume c sv)) ! c) = Done
      \<and> cl_received (sv_clients ((client_resume c ^^ n) (client_resume c sv)) ! c) = evs"
    using r(2-4) Suc.prems(2) by (intro Suc.IH clients_ok_resume [OF Suc.prems(1,2)]) simp_all
  then show ?case by (simp only: funpow_Suc_right comp_def)
qed

lemma client_prefix:
  "client_ok e c cl \<Longrightarrow> prefix (cl_received cl) (re_events e) \<and> (cl_phase cl = Done \<longrightarrow> re_finished e \<and> cl_received cl = re_events e)"
  by (auto simp: client_ok_def take_is_prefix split: phase.splits) (metis prefix_def)

lemma reachable_server_steps:
  "reachable_server ttl m b (new_server ttl m b)"
  "reachable_server ttl m b sv \<Longrightarrow> reachable_server ttl m b (fst (replay_start now key payload_hash sv))"
  "reachable_server ttl m b sv \<Longrightarrow> x < length (sv_heap sv) \<Longrightarrow> \<not> re_finished (sv_heap sv ! x) \<Longrightarrow> reachable_server ttl m b (publish x ev sv)"
  "reachable_server ttl m b sv \<Longrightarrow> x < length (sv_heap sv) \<Longrightarrow> \<not> re_finished (sv_heap sv ! x) \<Longrightarrow> reachable_server ttl m b (finish t now x sv)"
  "reachable_server ttl m b sv \<Longrightarrow> c < length (sv_clients sv) \<Longrightarrow> reachable_server ttl m b (client_resume c sv)"
  unfolding reachable_server_def
  by (simp, (metis prod.collapse rtranclp.rtrancl_into_rtrancl server_step.start),
      (metis rtranclp.rtrancl_into_rtrancl server_step.intros)+)

text \<open>Two clients of one key: the second joins the running request, which then finishes.\<close>

definition demo_open :: server where
  "demo_open = publish 0 ''a'' (client_resume 0 (fst (replay_start 0 ''k'' ''h'' (new_server 60 1024 67108864))))"

definition demo_joined :: server where
  "demo_joined = finish 2 3 0 (publish 0 ''b'' (client_resume 1 (fst (replay_start 1 ''k'' ''h'' demo_open))))"

lemmas demo_simps = demo_open_def demo_joined_def new_server_def replay_start_def acquire_def evict_def Let_def
  publish_def finish_def client_resume_def set_client_def set_subs_def push_queue_def dict_set_def dict_pop_def
  move_to_end_def entry_bytes_def utf8_len_def

lemma demo_open_eq:
  "demo_open =
     \<lparr> sv_reg = \<lparr> rg_ttl = 60, rg_max_entries = 1024, rg_max_bytes = 67108864, rg_entries = [(''k'', 0)] \<rparr>,
       sv_heap = [\<lparr> re_hash = ''h'', re_events = [''a''], re_subs = [0], re_finished = False, re_completed = 0 \<rparr>],
       sv_clients = [\<lparr> cl_entry = 0, cl_phase = Waiting, cl_received = [], cl_queue = [Some ''a''] \<rparr>] \<rparr>"
  by (simp add: demo_simps)

lemma demo_joined_eq:
  "demo_joined =
     \<lparr> sv_reg = \<lparr> rg_ttl = 60, rg_max_entries = 1024, rg_max_bytes = 67108864, rg_entries = [(''k'', 0)] \<rparr>,
       sv_heap = [\<lparr> re_hash = ''h'', re_events = [''a'', ''b''], re_subs = [0], re_finished = True, re_completed = 2 \<rparr>],
       sv_clients = [\<lparr> cl_entry = 0, cl_phase = Waiting, cl_received = [], cl_queue = [Some ''a'', Some ''b'', None] \<rparr>,
                     \<lparr> cl_entry = 0, cl_phase = Replaying 1, cl_received = [''a''], cl_queue = [] \<rparr>] \<rparr>"
  by (simp add: demo_joined_def demo_open_eq) (simp add: demo_simps)

lemma demo_reachable:
  "reachable_server 60 1024 67108864 demo_open" "reachable_server 60 1024 67108864 demo_joined"
proof -
  show "reachable_server 60 1024 67108864 demo_open"
    unfolding demo_open_def by (intro reachable_server_steps) (simp_all add: demo_simps)
  then show "reachable_server 60 1024 67108864 demo_joined"
    unfolding demo_joined_def by (intro reachable_server_steps) (simp_all add: demo_open_eq, simp_all add: demo_simps)
qed

section \<open>The properties of the replay registry\<close>

text \<open>
  C9: In every reachable state, what a client of a replayable stream has received is a prefix of the
  events of its entry, each once and in order, whether it came from the stored events or from its
  queue; a stream that has ended has received every event of a finished request; and once the
  request is finished, a client that stays is at the end, with all events, after as many resumptions
  as events are missing and one more.
\<close>

theorem replay_exactly_once:
  assumes "reachable_server ttl max_entries max_bytes sv" "c < length (sv_clients sv)"
    and "cl = sv_clients sv ! c" "e = sv_heap sv ! cl_entry cl"
    and "sv' = (client_resume c ^^ Suc (length (re_events e) - length (cl_received cl))) sv"
  shows "prefix (cl_received cl) (re_events e)
    \<and> (cl_phase cl = Done \<longrightarrow> re_finished e \<and> cl_received cl = re_events e)
    \<and> (re_finished e \<and> cl_phase cl \<noteq> Closed
        \<longrightarrow> cl_phase (sv_clients sv' ! c) = Done \<and> cl_received (sv_clients sv' ! c) = re_events e)"
proof -
  have ok: "clients_ok sv" using reachable_server_ok [OF assms(1)] ..
  then have "client_ok e c cl" using assms(2) by (simp add: clients_ok_def assms(3,4))
  then show ?thesis
    using client_prefix resume_drains [OF ok assms(2) _ _ refl, of "Suc (length (re_events e) - length (cl_received cl))"]
    unfolding assms(5) by (simp only: assms(3,4) lessI simp_thms) blast
qed

theorem replay_exactly_once_witness:
  "re_finished (sv_heap demo_joined ! cl_entry (sv_clients demo_joined ! 0))
   \<and> cl_received (sv_clients ((client_resume 0 ^^ 3) demo_joined) ! 0) = [''a'', ''b'']"
  using replay_exactly_once [OF demo_reachable(2), of 0, OF _ refl refl refl]
  by (simp add: demo_joined_eq eval_nat_numeral)

text \<open>A key whose entry is running survives the eviction of \<open>acquire\<close>.\<close>

lemma acquire_running:
  assumes ok: "registry_ok sv" and k: "(key, x) \<in> set (rg_entries (sv_reg sv))" and run: "\<not> re_finished (sv_heap sv ! x)"
  shows "map_of (rg_entries (evict now (sv_heap sv) (sv_reg sv))) key = Some x"
proof -
  have "distinct (map fst (rg_entries (evict now (sv_heap sv) (sv_reg sv))))"
    using ok evict_distinct(1) by (simp add: registry_ok_def Let_def)
  with evict_entries(2) [OF k run] show ?thesis by (simp add: map_of_eq_Some_iff)
qed

text \<open>
  C10: An idempotency key runs its request once.  In every reachable state each running request is
  registered under exactly one key; a stream that starts under that key with the same payload joins
  it, without a new entry and without owning it, and replays it from its first event; with another
  payload it raises ValueError and the registered requests are unchanged.
\<close>

theorem replay_single_run:
  assumes "reachable_server ttl max_entries max_bytes sv" "x < length (sv_heap sv)" "\<not> re_finished (sv_heap sv ! x)"
  shows "\<exists>key. (\<forall>key'. (key', x) \<in> set (rg_entries (sv_reg sv)) \<longleftrightarrow> key' = key)
    \<and> (\<forall>now payload_hash.
        let (sv', r) = replay_start now key payload_hash sv
        in if payload_hash = re_hash (sv_heap sv ! x)
           then r = Inr (length (sv_clients sv), False) \<and> sv_heap sv' = sv_heap sv
                \<and> sv_clients sv' = sv_clients sv @ [\<lparr> cl_entry = x, cl_phase = Replaying 0, cl_received = [], cl_queue = [] \<rparr>]
           else r = Inl (ValueError ''idempotency key was already used with a different payload'')
                \<and> sv_heap sv' = sv_heap sv \<and> sv_clients sv' = sv_clients sv)"
proof -
  have ok: "registry_ok sv" using reachable_server_ok [OF assms(1)] ..
  then obtain key where key: "(key, x) \<in> set (rg_entries (sv_reg sv))"
    using assms(2,3) by (auto simp: registry_ok_def Let_def)
  moreover have "inj_on snd (set (rg_entries (sv_reg sv)))"
    using ok by (simp add: registry_ok_def Let_def distinct_map)
  ultimately have "(key', x) \<in> set (rg_entries (sv_reg sv)) \<longleftrightarrow> key' = key" for key'
    by (metis inj_onD prod.inject snd_conv)
  then show ?thesis
    using acquire_running [OF ok key assms(3)]
    by (intro exI [of _ key]) (simp add: replay_start_def acquire_def Let_def)
qed

theorem replay_single_run_witness:
  "snd (replay_start 7 ''k'' ''h'' demo_open) = Inr (1, False)
   \<and> snd (replay_start 7 ''k'' ''other'' demo_open) = Inl (ValueError ''idempotency key was already used with a different payload'')"
proof -
  have o: "0 < length (sv_heap demo_open)" "\<not> re_finished (sv_heap demo_open ! 0)" "(''k'', 0) \<in> set (rg_entries (sv_reg demo_open))"
    "length (sv_clients demo_open) = 1" "re_hash (sv_heap demo_open ! 0) = ''h''"
    by (simp_all add: demo_open_eq)
  from replay_single_run [OF demo_reachable(1) o(1,2)] o(3) show ?thesis
    by (auto simp: case_prod_beta Let_def o(4,5))
qed

text \<open>
  An eviction drops every finished entry past its time to live and never a running one, and leaves
  the registry empty, or with a running entry as its oldest, or within both limits: at most
  \<open>max_entries\<close> entries and at most \<open>max_bytes\<close> bytes of stored events.
\<close>

lemma registry_within_limits:
  assumes "d = rg_entries (evict now heap rg)"
  shows "(\<forall>(key, x) \<in> set d. \<not> (re_finished (heap ! x) \<and> now - re_completed (heap ! x) > rg_ttl rg))
    \<and> (\<forall>(key, x) \<in> set (rg_entries rg). \<not> re_finished (heap ! x) \<longrightarrow> (key, x) \<in> set d)
    \<and> (d = [] \<or> \<not> re_finished (heap ! snd (hd d))
         \<or> length d \<le> rg_max_entries rg \<and> sum_list (map (\<lambda>(key, x). entry_bytes (heap ! x)) d) \<le> rg_max_bytes rg)"
proof (intro conjI)
  let ?kept = "filter (\<lambda>(key, x). \<not> (re_finished (heap ! x) \<and> now - re_completed (heap ! x) > rg_ttl rg)) (rg_entries rg)"
  have d: "d = evict_loop (rg_max_entries rg) (rg_max_bytes rg) heap (sum_list (map (\<lambda>(key, x). entry_bytes (heap ! x)) ?kept)) ?kept"
    using assms by (simp add: evict_def Let_def)
  obtain n where n: "d = drop n ?kept"
    using evict_loop_drop [of "rg_max_entries rg" "rg_max_bytes rg" heap "sum_list (map (\<lambda>(key, x). entry_bytes (heap ! x)) ?kept)" ?kept]
    unfolding d [symmetric] by blast
  then have "set d \<subseteq> set ?kept" using set_drop_subset [of n ?kept] by (simp only:)
  then show "\<forall>(key, x) \<in> set d. \<not> (re_finished (heap ! x) \<and> now - re_completed (heap ! x) > rg_ttl rg)"
    by auto
  show "\<forall>(key, x) \<in> set (rg_entries rg). \<not> re_finished (heap ! x) \<longrightarrow> (key, x) \<in> set d"
    using evict_entries(2) [of _ _ rg heap now] assms by auto
  show "d = [] \<or> \<not> re_finished (heap ! snd (hd d))
         \<or> length d \<le> rg_max_entries rg \<and> sum_list (map (\<lambda>(key, x). entry_bytes (heap ! x)) d) \<le> rg_max_bytes rg"
    using evict_loop_bounded [OF d [symmetric]] by (simp only:)
qed

lemma registry_within_limits_witness:
  "rg_entries (evict 100 (sv_heap demo_joined) (sv_reg demo_joined)) = []"
proof (rule ccontr)
  assume "rg_entries (evict 100 (sv_heap demo_joined) (sv_reg demo_joined)) \<noteq> []"
  moreover have "set (rg_entries (evict 100 (sv_heap demo_joined) (sv_reg demo_joined))) \<subseteq> {(''k'', 0)}"
    using evict_distinct(3) [of "sv_reg demo_joined" 100 "sv_heap demo_joined"] by (simp add: demo_joined_eq)
  ultimately have "(''k'', 0) \<in> set (rg_entries (evict 100 (sv_heap demo_joined) (sv_reg demo_joined)))"
    by (metis list.set_intros(1) neq_Nil_conv singletonD subsetD)
  with registry_within_limits [of _ 100 "sv_heap demo_joined" "sv_reg demo_joined", OF refl] show False
    by (auto simp: demo_joined_eq)
qed

text \<open>
  The check before the stream reads the registry without an eviction, so it rejects a payload that
  the stream itself would accept: here the entry of the key has expired.
\<close>

lemma expired_key_conflict:
  "key_conflict ''k'' ''other'' demo_joined"
  "snd (replay_start 100 ''k'' ''other'' demo_joined) = Inr (2, True)"
  by (simp_all add: demo_joined_eq key_conflict_def, simp add: demo_simps)

end
