(* ===== verification/Spec2Isabelle.thy ===== *)
theory Spec2Isabelle
  imports Plan_Serving Distributed Nemotron_Correct Gemma Vocab_Parallel Moe_Loading Moe_Routing Http_Server
begin

text \<open>
  \<^bold>\<open>Verification of FluxServe\<close>, a serving engine for diffusion language models.  All paths below are
  under src/python/fluxserve/backend/.

  \<^bold>\<open>The program.\<close>  A client request becomes one or more request states (engine/io_struct.py,
  engine/request.py, engine/processor.py).  The engine (engine/async_llm.py) keeps them by id, hands
  them to a scheduler adapter (engine/scheduler_adapter.py) and runs what the scheduler selects on an
  executor (engine/executor.py), which calls a runner (execution/runners/).  A runner fills masked
  blocks of tokens: it prefills the prompt into a key/value cache (managers/kvcache/), then calls
  the model on the current block and lets a decoder (execution/decoders/) reveal tokens until the
  block is finished, commits the block to the cache and goes on.  Results go back through the
  engine to the queue of the request; counters are kept in metrics/.  The HTTP front end
  (entrypoints/) turns routes into engine calls and replays event streams to clients that reconnect.
  With several processes, rank 0 broadcasts each engine call to the workers
  (engine/distributed_executor.py) and the layers of the model are split over the ranks (layers/,
  model_loader/).

  \<^bold>\<open>Theories and sources.\<close>
  \<^item> Prelude, Tensor: Python results, dictionaries and slices; rows of tensors with scatter, gather,
    argmax and sorts.
  \<^item> Requests (io_struct.py, request.py), Processor (processor.py), Schedulers (scheduler_adapter.py),
    Metrics (metrics/), Executor (executor.py), Engine (async_llm.py): the serving side.
  \<^item> KV_Cache (managers/kvcache/): the paged cache and the dense cache at the level of whole cells.
  \<^item> Edit_Operations, Levenshtein (decoders/llada/levenshtein.py), Threshold (threshold.py,
    joint_threshold.py, common.py), Selection (utils.py, hierarchy.py, static.py): LLaDA decoders.
  \<^item> Edit_Budget (runners/llada/utils.py), Runner_Config (forward_batch_info.py,
    decoders/llada/__init__.py), Block_Runner and Runner_Correct (runners/llada/block_diffusion.py),
    Paged_Plan and Paged_Correct (runners/llada/flashinfer.py), Plan_Serving (that runner under the
    executor and the engine): LLaDA runners.
  \<^item> Nemotron (decoders/nemotron.py), Causal_Cache, Nemotron_Runner, Nemotron_Correct
    (runners/nemotron/block_diffusion.py); Gemma (decoders/diffusion_gemma.py and
    runners/diffusion_gemma/block_diffusion.py).
  \<^item> Http_Server (entrypoints/http_server.py, prompt_utils.py): routes, event streams and the registry
    of replayable runs; Distributed (engine/distributed_executor.py, distributed/launch.py): rank 0 and
    its workers.
  \<^item> Parallel (collectives as functions on the list of ranks), Vocab_Parallel
    (layers/vocab_parallel_embedding.py), Parallel_Linear (layers/linear.py and the MLP of
    models/llada2.py), Moe (layers/moe/fused_moe_triton/layer.py, fused_moe_native.py and the sparse block
    of models/llada2.py), Moe_Routing (layers/moe/topk.py), Moe_Loading (model_loader/ and
    \<open>apply_state_dicts\<close> of models/llada2.py): the parallel layers, over a commutative ring.

  \<^bold>\<open>How the code is represented.\<close>  A class is a record, its methods are functions on it; an exception
  is a value of \<open>py_error\<close> in a sum type.  Where state survives an exception it is returned beside the
  error.  A tensor is a list of rows; a finite float is an exact rational with two infinities beside,
  so rounding is not modelled.  Softmax, Gumbel noise, random draws, entropy, the tokenizer, clocks,
  uuids, the native scheduler and the forward pass of the model are arguments of the definitions, with
  what the code relies on as named hypotheses of the theorems (\<open>fwd_ok\<close>, \<open>causal_model\<close>,
  \<open>gemma_model_ok\<close>, \<open>plan_model_ok\<close> and the like).  The coroutines of the engine are atomic steps between two
  suspensions, and an \<open>inductive\<close> relation lets them interleave freely.

  \<^bold>\<open>What is shown.\<close>
  \<^item> Serving: every request gets its outputs in order and exactly one terminal output, under every
    interleaving of submissions, aborts, results and failures; the metrics ledger balances; FIFO
    batches lose no request; the frontend accepts exactly the requests that fit the context; a batch
    returns one bounded result per request.
  \<^item> Caches: what is written is read back, sequences with disjoint pages do not disturb each other,
    slot mappings are injective, the paged metadata describe exactly the pages of each sequence.
  \<^item> Decoders: the vectorised edit step equals the scalar loop; each step of a threshold, joint,
    hierarchy, static, Levenshtein, Nemotron or Gemma decoder equals its reference or makes progress,
    never touches the prompt, and blocks finish within their iteration limit.
  \<^item> Runners: \<open>generate\<close> of the LLaDA runner terminates without an exception and returns prompt,
    mask-free completion and padding; self-speculation of Nemotron returns what plain causal decoding
    returns; the Nemotron and Gemma runners return rows of the promised shape; the slot table of the
    paged runner is an injection into the rows of the batch through every plan.
  \<^item> Paged serving: with a model that reads only the rows of its request (\<open>plan_model_ok\<close>), a plan that the
    scheduler may emit (\<open>plan_ready\<close>) is served without an exception, each request with bounded tokens,
    and a request that keeps being scheduled finishes; the workers of a distributed executor keep the
    state of rank 0.
  \<^item> Front end: a client of a replayed stream, connecting at any time, receives every event once and in
    order, and a key starts one run.
  \<^item> Parallel layers: vocabulary-parallel embedding and logits, tensor-parallel MLP and linear layers, and
    the expert- and tensor-parallel MoE block compute on every rank what the unsplit layer computes, from
    the weights that the loaders put there; the head shards keep grouped-query attention aligned; routing
    selects distinct experts within the block capacity.

  \<^bold>\<open>Fuel.\<close>  Loops whose bound is not syntactic take fuel: \<open>decode_loop\<close> and \<open>prefill_loop\<close> of Block_Runner.
  \<open>generate_fuel\<close> is enough: three units for each unit of a measure that counts, per row, the blocks left
  and the masks and edits left in the current block (the head of the outer loop, the exit of the inner
  one and the iteration).  All other loops are bounded in the source and structural here.

  \<^bold>\<open>Not modelled.\<close>  Attention, rotary embedding, norms and the kernels behind them (floating-point GPU
  code): the forward pass of a model is an argument of the runners, and the parallel layers are proved
  in exact arithmetic, not in floating point.  Loaders of quantized weights; Triton and DeepEP expert
  paths; CUDA-graph capture and replay; the reading of checkpoint files; the C++ scheduler; the command
  line and the start-up banner; the FA4 runners and the FlashInfer runners of the other two families,
  which follow the structure of the modelled ones; and data parallel padding.
\<close>

end
